(* ===== verification/Konnect_Prelude.thy ===== *)
theory Konnect_Prelude
  imports Complex_Main "HOL-Library.Word" "HOL-Library.Product_Lexorder"
begin

text \<open>
  Shared ground of the development.

  \<^item> Rust's fixed-width integers. A value of type \<open>i32\<close>, \<open>i64\<close> or \<open>i128\<close> is an \<^typ>\<open>int\<close>,
    and every arithmetic step of the code is followed by the truncation to its width
    (\<open>i32\<close>, \<open>i64\<close>, \<open>i128\<close> below: two's complement wrap-around, what a release build does).
    The collection \<open>width_simps\<close> removes a truncation whose argument is in range.
    Unsigned 128-bit and 32-bit values are \<open>128 word\<close> and \<open>32 word\<close>.
  \<^item> Rust's \<open>std::cmp::Ordering\<close> as a datatype with its derived order, and \<open>cmp\<close>.
  \<^item> Facts on lists the components share.
\<close>

section \<open>Fixed-width signed integers\<close>

named_theorems width_simps "truncations that are the identity on their argument"

definition i32 :: "int \<Rightarrow> int" where
  "i32 k = signed_take_bit 31 k"

definition i64 :: "int \<Rightarrow> int" where
  "i64 k = signed_take_bit 63 k"

definition i128 :: "int \<Rightarrow> int" where
  "i128 k = signed_take_bit 127 k"

definition in_i32 :: "int \<Rightarrow> bool" where
  "in_i32 k \<longleftrightarrow> - (2 ^ 31) \<le> k \<and> k < 2 ^ 31"

definition in_i64 :: "int \<Rightarrow> bool" where
  "in_i64 k \<longleftrightarrow> - (2 ^ 63) \<le> k \<and> k < 2 ^ 63"

definition in_i128 :: "int \<Rightarrow> bool" where
  "in_i128 k \<longleftrightarrow> - (2 ^ 127) \<le> k \<and> k < 2 ^ 127"

text \<open>\<open>i32::saturating_add\<close> and \<open>saturating_sub\<close> are exact arithmetic followed by \<open>sat32\<close>.\<close>

definition sat32 :: "int \<Rightarrow> int" where
  "sat32 k = max (- (2 ^ 31)) (min (2 ^ 31 - 1) k)"

text \<open>\<open>as u32\<close> and \<open>as u8\<close> on a \<open>usize\<close>.\<close>

definition as_u32 :: "nat \<Rightarrow> nat" where
  "as_u32 n = nat (int n mod 2 ^ 32)"

definition as_u8 :: "nat \<Rightarrow> nat" where
  "as_u8 n = nat (int n mod 2 ^ 8)"

lemma as_u32_id [simp]: "n < 2 ^ 32 \<Longrightarrow> as_u32 n = n"
  by (simp add: as_u32_def)

lemma as_u8_id [simp]: "n < 256 \<Longrightarrow> as_u8 n = n"
  by (simp add: as_u8_def)

lemma i32_id [width_simps]: "in_i32 k \<Longrightarrow> i32 k = k"
  by (simp add: i32_def in_i32_def signed_take_bit_int_eq_self)

lemma i64_id [width_simps]: "in_i64 k \<Longrightarrow> i64 k = k"
  by (simp add: i64_def in_i64_def signed_take_bit_int_eq_self)

lemma i128_id [width_simps]: "in_i128 k \<Longrightarrow> i128 k = k"
  by (simp add: i128_def in_i128_def signed_take_bit_int_eq_self)

lemma in_i32_i32 [simp]: "in_i32 (i32 k)"
  unfolding in_i32_def i32_def
  by (intro conjI signed_take_bit_int_greater_eq_minus_exp signed_take_bit_int_less_exp)

lemma in_i32_sat32 [simp]: "in_i32 (sat32 k)"
  by (auto simp: in_i32_def sat32_def)

lemma sat32_id: "in_i32 k \<Longrightarrow> sat32 k = k"
  by (auto simp: in_i32_def sat32_def)

lemma sat32_mono: "a \<le> b \<Longrightarrow> sat32 a \<le> sat32 b"
  by (auto simp: sat32_def)

lemma sat32_le_iff: "in_i32 a \<Longrightarrow> b < 2 ^ 31 \<Longrightarrow> sat32 b \<le> a \<longleftrightarrow> b \<le> a"
  by (auto simp: sat32_def in_i32_def min_def max_def split: if_splits)

lemma le_sat32_iff: "in_i32 a \<Longrightarrow> - (2 ^ 31) \<le> b \<Longrightarrow> a \<le> sat32 b \<longleftrightarrow> a \<le> b"
  by (auto simp: sat32_def in_i32_def min_def max_def split: if_splits)

lemma in_i128_abs: "\<bar>k\<bar> < 2 ^ 127 \<Longrightarrow> in_i128 k"
  by (auto simp: in_i128_def)

lemma in_i64_abs: "\<bar>k\<bar> < 2 ^ 63 \<Longrightarrow> in_i64 k"
  by (auto simp: in_i64_def)

section \<open>Bounds of products\<close>

lemma abs_mult_bound:
  fixes a b :: int
  assumes "\<bar>a\<bar> \<le> m" and "\<bar>b\<bar> \<le> n"
  shows "\<bar>a * b\<bar> \<le> m * n"
proof -
  have "\<bar>a\<bar> * \<bar>b\<bar> \<le> m * n"
    using assms by (intro mult_mono) auto
  then show ?thesis by (simp add: abs_mult)
qed

lemma abs_add_bound:
  fixes a b :: int
  assumes "\<bar>a\<bar> \<le> m" and "\<bar>b\<bar> \<le> n"
  shows "\<bar>a + b\<bar> \<le> m + n" and "\<bar>a - b\<bar> \<le> m + n"
  using assms by auto

section \<open>Orderings\<close>

datatype ordering = Less | Equal | Greater

fun ordering_rank :: "ordering \<Rightarrow> nat" where
  "ordering_rank Less = 0"
| "ordering_rank Equal = 1"
| "ordering_rank Greater = 2"

lemma ordering_rank_inj: "ordering_rank a = ordering_rank b \<longleftrightarrow> a = b"
  by (cases a; cases b) auto

instantiation ordering :: linorder
begin

definition less_eq_ordering :: "ordering \<Rightarrow> ordering \<Rightarrow> bool" where
  "less_eq_ordering a b \<longleftrightarrow> ordering_rank a \<le> ordering_rank b"

definition less_ordering :: "ordering \<Rightarrow> ordering \<Rightarrow> bool" where
  "less_ordering a b \<longleftrightarrow> ordering_rank a < ordering_rank b"

instance
  by standard (auto simp: less_eq_ordering_def less_ordering_def ordering_rank_inj
      simp flip: ordering_rank_inj)

end

lemma ordering_le_simps [simp]:
  "Less \<le> a" "a \<le> Greater" "(a \<le> Less) = (a = Less)" "(Greater \<le> a) = (a = Greater)"
  "Equal \<le> a \<longleftrightarrow> a \<noteq> Less" "a \<le> Equal \<longleftrightarrow> a \<noteq> Greater"
  by (cases a; simp add: less_eq_ordering_def)+

lemma ordering_min_simps [simp]:
  "min Less a = Less" "min a Less = Less" "min Greater a = a" "min a Greater = a"
  by (cases a; simp add: min_def less_eq_ordering_def)+

definition cmp :: "'a::linorder \<Rightarrow> 'a \<Rightarrow> ordering" where
  "cmp a b = (if a < b then Less else if a = b then Equal else Greater)"

lemma cmp_iff:
  "cmp a b = Less \<longleftrightarrow> a < b" "cmp a b = Equal \<longleftrightarrow> a = b" "cmp a b = Greater \<longleftrightarrow> b < a"
  by (auto simp: cmp_def)

lemma cmp_le_Less: "cmp a b \<le> Less \<longleftrightarrow> a < b"
  by (simp add: cmp_def)

lemma cmp_min: "min (cmp a t) (cmp b t) = cmp (min a b) t"
  by (auto simp: cmp_def min_def less_eq_ordering_def)

lemma cmp_mono: "a \<le> b \<Longrightarrow> cmp a t \<le> cmp b t"
  by (auto simp: cmp_def less_eq_ordering_def)

lemma cmp_cong:
  assumes "a < b \<longleftrightarrow> c < d" and "a = b \<longleftrightarrow> c = d"
  shows "cmp a b = cmp c d"
  using assms by (simp add: cmp_def)

end
