(* ===== verification/Geom_Plane.thy ===== *)
theory Geom_Plane
  imports Konnect_Prelude
begin

text \<open>
  The plane the geometry kernel is specified against: points with real coordinates, closed
  segments, and the squared distance of two point sets (an infimum). No code is modelled here;
  these are the facts of plane geometry the exactness proofs rest on: where the distance to a
  segment is attained, when two segments meet, and that two disjoint segments are closest at an end.
\<close>

type_synonym rpt = "real \<times> real"

definition d2 :: "rpt \<Rightarrow> rpt \<Rightarrow> real" where
  "d2 p q = (fst p - fst q)\<^sup>2 + (snd p - snd q)\<^sup>2"

definition lerp :: "rpt \<Rightarrow> rpt \<Rightarrow> real \<Rightarrow> rpt" where
  "lerp a b s = ((1 - s) * fst a + s * fst b, (1 - s) * snd a + s * snd b)"

definition segm :: "rpt \<Rightarrow> rpt \<Rightarrow> rpt set" where
  "segm a b = {lerp a b s | s. 0 \<le> s \<and> s \<le> 1}"

definition sqdist :: "rpt set \<Rightarrow> rpt set \<Rightarrow> real" where
  "sqdist A B = Inf {d2 a b | a b. a \<in> A \<and> b \<in> B}"

definition xdot :: "rpt \<Rightarrow> rpt \<Rightarrow> rpt \<Rightarrow> real" where
  "xdot a b p = (fst p - fst a) * (fst b - fst a) + (snd p - snd a) * (snd b - snd a)"

definition xorient :: "rpt \<Rightarrow> rpt \<Rightarrow> rpt \<Rightarrow> real" where
  "xorient a b c = (fst b - fst a) * (snd c - snd a) - (snd b - snd a) * (fst c - fst a)"

definition xbox :: "rpt \<Rightarrow> rpt \<Rightarrow> rpt \<Rightarrow> bool" where
  "xbox a b p \<longleftrightarrow>
     min (fst a) (fst b) \<le> fst p \<and> fst p \<le> max (fst a) (fst b) \<and>
     min (snd a) (snd b) \<le> snd p \<and> snd p \<le> max (snd a) (snd b)"

section \<open>Squared distance\<close>

lemma d2_nonneg [simp]: "0 \<le> d2 p q"
  by (simp add: d2_def)

lemma d2_eq_0 [simp]: "d2 p q = 0 \<longleftrightarrow> p = q"
  by (auto simp: d2_def sum_power2_eq_zero_iff prod_eq_iff)

lemma d2_commute: "d2 p q = d2 q p"
  by (simp add: d2_def power2_commute)

lemma d2_self [simp]: "d2 p p = 0"
  by simp

lemma sqdist_min:
  assumes "a \<in> A" and "b \<in> B" and "\<And>a' b'. a' \<in> A \<Longrightarrow> b' \<in> B \<Longrightarrow> d2 a b \<le> d2 a' b'"
  shows "sqdist A B = d2 a b"
  unfolding sqdist_def using assms by (intro cInf_eq_minimum) blast+

lemma sqdist_le:
  assumes "a \<in> A" and "b \<in> B"
  shows "sqdist A B \<le> d2 a b"
proof -
  have "bdd_below {d2 a b | a b. a \<in> A \<and> b \<in> B}"
    by (rule bdd_belowI [of _ 0]) auto
  then show ?thesis
    unfolding sqdist_def using assms by (intro cInf_lower) blast+
qed

lemma sqdist_ge:
  assumes "A \<noteq> {}" and "B \<noteq> {}" and "\<And>a b. a \<in> A \<Longrightarrow> b \<in> B \<Longrightarrow> m \<le> d2 a b"
  shows "m \<le> sqdist A B"
  unfolding sqdist_def using assms by (intro cInf_greatest) blast+

lemma sqdist_commute: "sqdist A B = sqdist B A"
proof -
  have "{d2 a b | a b. a \<in> A \<and> b \<in> B} = {d2 a b | a b. a \<in> B \<and> b \<in> A}"
    using d2_commute by blast
  then show ?thesis by (simp add: sqdist_def)
qed

lemma sqdist_nonneg: "A \<noteq> {} \<Longrightarrow> B \<noteq> {} \<Longrightarrow> 0 \<le> sqdist A B"
  by (rule sqdist_ge) auto

lemma sqdist_touch: "x \<in> A \<Longrightarrow> x \<in> B \<Longrightarrow> sqdist A B = 0"
  using sqdist_min [of x A x B] by simp

lemma sqdist_singletons [simp]: "sqdist {p} {q} = d2 p q"
  by (rule sqdist_min) auto

section \<open>Segments\<close>

lemma lerp_0 [simp]: "lerp a b 0 = a" and lerp_1 [simp]: "lerp a b 1 = b"
  by (simp_all add: lerp_def)

lemma lerp_same [simp]: "lerp a a s = a"
  by (simp add: lerp_def prod_eq_iff algebra_simps)

lemma lerp_flip: "lerp b a s = lerp a b (1 - s)"
  by (simp add: lerp_def algebra_simps)

lemma segmI: "0 \<le> s \<Longrightarrow> s \<le> 1 \<Longrightarrow> lerp a b s \<in> segm a b"
  by (auto simp: segm_def)

lemma segm_ends [simp]: "a \<in> segm a b" "b \<in> segm a b"
  using segmI [of 0 a b] segmI [of 1 a b] by simp_all

lemma segm_nonempty [simp]: "segm a b \<noteq> {}"
  using segm_ends(1) by blast

lemma segm_commute: "segm a b = segm b a"
proof -
  have "segm a b \<subseteq> segm b a" for a b
    by (force simp: segm_def lerp_flip [of a b])
  then show ?thesis by blast
qed

lemma segm_same [simp]: "segm a a = {a}"
  by (auto simp: segm_def intro: exI [of _ 0])

lemma d2_lerp: "d2 p (lerp a b s) = d2 p a - 2 * s * xdot a b p + s\<^sup>2 * d2 a b"
  by (simp add: d2_def lerp_def xdot_def power2_eq_square algebra_simps)

lemma d2_lagrange: "d2 p a * d2 a b = (xdot a b p)\<^sup>2 + (xorient a b p)\<^sup>2"
  by (simp add: d2_def xdot_def xorient_def power2_eq_square algebra_simps)

lemma xdot_flip: "xdot b a p = d2 a b - xdot a b p"
  by (simp add: d2_def xdot_def power2_eq_square algebra_simps)

text \<open>The three places the distance from a point to a segment is attained.\<close>

lemma sqdist_segm_start:
  assumes "d2 a b = 0 \<or> xdot a b p \<le> 0"
  shows "sqdist {p} (segm a b) = d2 p a"
proof (rule sqdist_min)
  fix p' x assume "p' \<in> {p}" "x \<in> segm a b"
  then obtain s where s: "0 \<le> s" "x = lerp a b s" and p: "p' = p" by (auto simp: segm_def)
  have "s * xdot a b p \<le> 0"
    using assms s(1) by (auto simp: xdot_def mult_le_0_iff)
  moreover have "0 \<le> s\<^sup>2 * d2 a b" by simp
  ultimately show "d2 p a \<le> d2 p' x"
    unfolding s(2) p d2_lerp by linarith
qed auto

lemma sqdist_segm_end:
  assumes "xdot a b p \<ge> d2 a b"
  shows "sqdist {p} (segm a b) = d2 p b"
proof -
  have "xdot b a p \<le> 0" using assms by (simp add: xdot_flip [of b a p])
  then show ?thesis using sqdist_segm_start [of b a p] by (simp only: segm_commute [of b a] simp_thms)
qed

lemma sqdist_segm_foot:
  assumes "0 < xdot a b p" and "xdot a b p < d2 a b"
  shows "sqdist {p} (segm a b) = (xorient a b p)\<^sup>2 / d2 a b"
proof -
  let ?l = "d2 a b" and ?k = "xdot a b p"
  have l: "0 < ?l" using assms by linarith
  have gap: "d2 p (lerp a b s) = ((s * ?l - ?k)\<^sup>2 + (xorient a b p)\<^sup>2) / ?l" for s
  proof -
    have "d2 p (lerp a b s) * ?l = d2 p a * ?l - 2 * s * ?k * ?l + (s * ?l)\<^sup>2"
      by (simp add: d2_lerp power2_eq_square algebra_simps)
    also have "\<dots> = (s * ?l - ?k)\<^sup>2 + (xorient a b p)\<^sup>2"
      unfolding d2_lagrange by (simp add: power2_eq_square algebra_simps)
    finally show ?thesis using l by (intro eq_divide_imp) auto
  qed
  have foot: "d2 p (lerp a b (?k / ?l)) = (xorient a b p)\<^sup>2 / ?l"
    unfolding gap using l by simp
  have "sqdist {p} (segm a b) = d2 p (lerp a b (?k / ?l))"
  proof (rule sqdist_min)
    show "lerp a b (?k / ?l) \<in> segm a b" using assms l by (intro segmI) auto
    fix p' x assume "p' \<in> {p}" "x \<in> segm a b"
    then obtain s where x: "x = lerp a b s" and p: "p' = p" by (auto simp: segm_def)
    show "d2 p (lerp a b (?k / ?l)) \<le> d2 p' x"
      unfolding x p foot gap using l by (simp add: divide_right_mono)
  qed simp
  with foot show ?thesis by simp
qed

section \<open>Segments that meet\<close>

lemma xorient_lerp: "xorient c d (lerp a b s) = (1 - s) * xorient c d a + s * xorient c d b"
  by (simp add: xorient_def lerp_def algebra_simps)

lemma xorient_on_line [simp]: "xorient a b (lerp a b s) = 0"
  by (simp add: xorient_def lerp_def algebra_simps)

lemma lerp_between:
  fixes u v :: real
  assumes "0 \<le> s" "s \<le> 1"
  shows "min u v \<le> (1 - s) * u + s * v" "(1 - s) * u + s * v \<le> max u v"
proof -
  have "(1 - s) * min u v + s * min u v \<le> (1 - s) * u + s * v"
    using assms by (intro add_mono mult_left_mono) auto
  then show "min u v \<le> (1 - s) * u + s * v" by (simp add: algebra_simps)
  have "(1 - s) * u + s * v \<le> (1 - s) * max u v + s * max u v"
    using assms by (intro add_mono mult_left_mono) auto
  then show "(1 - s) * u + s * v \<le> max u v" by (simp add: algebra_simps)
qed

lemma ratio_unit:
  fixes a b x :: real
  assumes "a \<noteq> b" "min a b \<le> x" "x \<le> max a b"
  shows "0 \<le> (x - a) / (b - a)" "(x - a) / (b - a) \<le> 1"
  using assms by (cases "a < b"; simp add: divide_simps min_def max_def split: if_splits)+

lemma lerp_alt: "lerp a b s = (fst a + s * (fst b - fst a), snd a + s * (snd b - snd a))"
  by (simp add: lerp_def algebra_simps)

lemma collinear_param:
  assumes "c \<noteq> d" and "xorient c d a = 0"
  shows "\<exists>\<alpha>. a = lerp c d \<alpha>"
proof (cases "fst c = fst d")
  case True
  then have "snd d - snd c \<noteq> 0" using assms(1) by (auto simp: prod_eq_iff)
  moreover from this have "fst a = fst c"
    using assms(2) True by (simp add: xorient_def)
  ultimately have "a = lerp c d ((snd a - snd c) / (snd d - snd c))"
    using True by (simp add: lerp_alt prod_eq_iff)
  then show ?thesis by blast
next
  case False
  then have n: "fst d - fst c \<noteq> 0" by simp
  have "(fst a - fst c) * (snd d - snd c) = (snd a - snd c) * (fst d - fst c)"
    using assms(2) by (simp add: xorient_def algebra_simps)
  then have "(fst a - fst c) / (fst d - fst c) * (snd d - snd c) = snd a - snd c"
    using n by (simp add: divide_eq_eq)
  then have "a = lerp c d ((fst a - fst c) / (fst d - fst c))"
    using n by (simp add: lerp_alt prod_eq_iff)
  then show ?thesis by blast
qed

lemma lerp_unit:
  fixes u v \<alpha> :: real
  assumes "u \<noteq> v" "min u v \<le> u + \<alpha> * (v - u)" "u + \<alpha> * (v - u) \<le> max u v"
  shows "0 \<le> \<alpha>" "\<alpha> \<le> 1"
  using ratio_unit [OF assms] assms(1) by auto

lemma segm_iff: "p \<in> segm a b \<longleftrightarrow> xorient a b p = 0 \<and> xbox a b p"
proof
  assume "p \<in> segm a b"
  then show "xorient a b p = 0 \<and> xbox a b p"
    using lerp_between by (auto simp: segm_def xbox_def) (simp_all add: lerp_def lerp_between)
next
  assume H: "xorient a b p = 0 \<and> xbox a b p"
  show "p \<in> segm a b"
  proof (cases "a = b")
    case True
    then have "p = a" using H by (simp add: xbox_def prod_eq_iff)
    with True show ?thesis by simp
  next
    case False
    then obtain \<alpha> where p: "p = lerp a b \<alpha>" using collinear_param H by blast
    have "0 \<le> \<alpha> \<and> \<alpha> \<le> 1"
    proof (cases "fst a = fst b")
      case True
      then have "snd a \<noteq> snd b" using False by (simp add: prod_eq_iff)
      then show ?thesis using H lerp_unit [of "snd a" "snd b" \<alpha>] by (simp add: p xbox_def lerp_alt)
    next
      case False
      then show ?thesis using H lerp_unit [of "fst a" "fst b" \<alpha>] by (simp add: p xbox_def lerp_alt)
    qed
    then show ?thesis using p segmI by blast
  qed
qed

definition xmeet :: "rpt \<Rightarrow> rpt \<Rightarrow> rpt \<Rightarrow> rpt \<Rightarrow> bool" where
  "xmeet a b c d \<longleftrightarrow>
     (xorient c d a * xorient c d b < 0 \<and> xorient a b c * xorient a b d < 0) \<or>
     a \<in> segm c d \<or> b \<in> segm c d \<or> c \<in> segm a b \<or> d \<in> segm a b"

lemma proper_crossing:
  assumes "xorient c d a * xorient c d b < 0" and "xorient a b c * xorient a b d < 0"
  shows "\<exists>x. x \<in> segm a b \<and> x \<in> segm c d"
proof -
  let ?e1 = "xorient c d a" and ?e2 = "xorient c d b" and ?e3 = "xorient a b c" and ?e4 = "xorient a b d"
  let ?D = "?e1 - ?e2"
  have D: "?e3 - ?e4 = - ?D" by (simp add: xorient_def algebra_simps)
  have D0: "?D \<noteq> 0" using assms(1) by (auto simp: mult_less_0_iff)
  have s: "0 \<le> ?e1 / ?D" "?e1 / ?D \<le> 1" and u: "0 \<le> ?e3 / (?e3 - ?e4)" "?e3 / (?e3 - ?e4) \<le> 1"
    using assms by (auto simp: mult_less_0_iff divide_simps)
  have "lerp a b (?e1 / ?D) = lerp c d (?e3 / (?e3 - ?e4))"
    unfolding D using D0
    by (simp add: lerp_def prod_eq_iff divide_simps) (simp add: xorient_def algebra_simps)
  then show ?thesis using segmI [OF s, of a b] segmI [OF u, of c d] by metis
qed

lemma between_or_end:
  fixes \<alpha> \<beta> s :: real
  assumes "0 \<le> s" "s \<le> 1" "0 \<le> (1 - s) * \<alpha> + s * \<beta>" "(1 - s) * \<alpha> + s * \<beta> \<le> 1"
  shows "(0 \<le> \<alpha> \<and> \<alpha> \<le> 1) \<or> (0 \<le> \<beta> \<and> \<beta> \<le> 1) \<or> (\<exists>r. 0 \<le> r \<and> r \<le> 1 \<and> (1 - r) * \<alpha> + r * \<beta> = 0)"
proof (rule ccontr)
  assume "\<not> ?thesis"
  then have n: "\<not> (0 \<le> \<alpha> \<and> \<alpha> \<le> 1)" "\<not> (0 \<le> \<beta> \<and> \<beta> \<le> 1)"
    and z: "\<not> (\<exists>r. 0 \<le> r \<and> r \<le> 1 \<and> (1 - r) * \<alpha> + r * \<beta> = 0)" by auto
  have "\<not> (\<alpha> < 0 \<and> \<beta> > 0)" "\<not> (\<alpha> > 0 \<and> \<beta> < 0)"
    using z [unfolded not_ex, rule_format, of "\<alpha> / (\<alpha> - \<beta>)"]
    by (auto simp: divide_simps)
  with n consider "\<alpha> < 0" "\<beta> < 0" | "\<alpha> > 1" "\<beta> > 1" by linarith
  then show False
    using lerp_between [OF assms(1,2), of \<alpha> \<beta>] assms(3,4) by cases (auto simp: min_def max_def split: if_splits)
qed

lemma lerp_lerp: "lerp (lerp c d \<alpha>) (lerp c d \<beta>) s = lerp c d ((1 - s) * \<alpha> + s * \<beta>)"
  by (simp add: lerp_def algebra_simps)

lemma lerp_inj: "c \<noteq> d \<Longrightarrow> lerp c d u = lerp c d v \<longleftrightarrow> u = v"
  by (auto simp: lerp_alt prod_eq_iff)

lemma collinear_meet:
  assumes "c \<noteq> d" "xorient c d a = 0" "xorient c d b = 0" and x: "x \<in> segm a b" "x \<in> segm c d"
  shows "a \<in> segm c d \<or> b \<in> segm c d \<or> c \<in> segm a b"
proof -
  obtain \<alpha> \<beta> where ab: "a = lerp c d \<alpha>" "b = lerp c d \<beta>"
    using collinear_param assms(1-3) by metis
  obtain s u where s: "0 \<le> s" "s \<le> 1" "x = lerp a b s" and u: "0 \<le> u" "u \<le> 1" "x = lerp c d u"
    using x by (auto simp: segm_def)
  have "u = (1 - s) * \<alpha> + s * \<beta>"
    using s(3) u(3) lerp_inj [OF assms(1)] by (simp add: ab lerp_lerp)
  with between_or_end [of s \<alpha> \<beta>] s(1,2) u(1,2)
  consider "0 \<le> \<alpha>" "\<alpha> \<le> 1" | "0 \<le> \<beta>" "\<beta> \<le> 1" | r where "0 \<le> r" "r \<le> 1" "(1 - r) * \<alpha> + r * \<beta> = 0"
    by auto
  then show ?thesis
    by cases (use ab segmI [of _ c d] segmI [of _ a b] in \<open>auto simp: lerp_lerp\<close>, metis lerp_0 lerp_lerp)
qed

lemma xmeet_iff: "xmeet a b c d \<longleftrightarrow> (\<exists>x. x \<in> segm a b \<and> x \<in> segm c d)"
proof
  assume "xmeet a b c d"
  then show "\<exists>x. x \<in> segm a b \<and> x \<in> segm c d"
    unfolding xmeet_def using proper_crossing segm_ends by blast
next
  assume "\<exists>x. x \<in> segm a b \<and> x \<in> segm c d"
  then obtain x where x: "x \<in> segm a b" "x \<in> segm c d" by blast
  from x(1) obtain s where s: "0 \<le> s" "s \<le> 1" "x = lerp a b s" by (auto simp: segm_def)
  from x(2) obtain u where u: "0 \<le> u" "u \<le> 1" "x = lerp c d u" by (auto simp: segm_def)
  show "xmeet a b c d"
  proof (cases "s = 0 \<or> s = 1 \<or> u = 0 \<or> u = 1")
    case True
    then show ?thesis using x s(3) u(3) by (auto simp: xmeet_def)
  next
    case False
    then have in01: "0 < s" "s < 1" "0 < u" "u < 1" using s u by auto
    let ?e1 = "xorient c d a" and ?e2 = "xorient c d b" and ?e3 = "xorient a b c" and ?e4 = "xorient a b d"
    have z: "(1 - s) * ?e1 + s * ?e2 = 0" "(1 - u) * ?e3 + u * ?e4 = 0"
      using xorient_lerp [of c d a b s] xorient_lerp [of a b c d u] s(3) u(3)
        xorient_on_line [of c d u] xorient_on_line [of a b s] by metis+
    have opp: "e = 0 \<and> f = 0 \<or> e * f < 0" if "(1 - r) * e + r * f = 0" "0 < r" "r < 1" for r e f :: real
    proof -
      have "e = - (r * f) / (1 - r)" using that by (simp add: field_simps)
      then have "e * f = - (r * f\<^sup>2) / (1 - r)" by (simp add: power2_eq_square)
      then show ?thesis using that by (cases "f = 0") (auto simp: divide_less_0_iff)
    qed
    show ?thesis
    proof (cases "(?e1 = 0 \<and> ?e2 = 0) \<or> (?e3 = 0 \<and> ?e4 = 0)")
      case False
      then show ?thesis using opp z in01 by (auto simp: xmeet_def)
    next
      case True
      then consider "c = d \<or> a = b" | "c \<noteq> d" "?e1 = 0" "?e2 = 0" | "a \<noteq> b" "?e3 = 0" "?e4 = 0" by blast
      then show ?thesis
      proof cases
        case 1
        then show ?thesis using x by (auto simp: xmeet_def simp del: split_paired_All)
      next
        case 2
        from collinear_meet [OF this x] show ?thesis by (auto simp: xmeet_def)
      next
        case 3
        from collinear_meet [OF this x(2) x(1)] show ?thesis by (auto simp: xmeet_def)
      qed
    qed
  qed
qed

section \<open>Disjoint segments are closest at an end\<close>

lemma square_convex:
  fixes x y r :: real
  assumes "0 \<le> r" "r \<le> 1"
  shows "((1 - r) * x + r * y)\<^sup>2 \<le> (1 - r) * x\<^sup>2 + r * y\<^sup>2"
proof -
  have "(1 - r) * x\<^sup>2 + r * y\<^sup>2 - ((1 - r) * x + r * y)\<^sup>2 = r * (1 - r) * (x - y)\<^sup>2"
    by (simp add: power2_eq_square algebra_simps)
  moreover have "0 \<le> r * (1 - r) * (x - y)\<^sup>2" using assms by simp
  ultimately show ?thesis by linarith
qed

lemma d2_convex:
  assumes "0 \<le> r" "r \<le> 1"
  shows "d2 (lerp p p' r) (lerp q q' r) \<le> (1 - r) * d2 p q + r * d2 p' q'"
  using square_convex [OF assms, of "fst p - fst q" "fst p' - fst q'"]
    square_convex [OF assms, of "snd p - snd q" "snd p' - snd q'"]
  by (simp add: d2_def lerp_def algebra_simps)

text \<open>A straight path that leaves the unit square crosses its border.\<close>

definition unit_margin :: "real \<Rightarrow> real \<Rightarrow> real" where
  "unit_margin s u = min (min s (1 - s)) (min u (1 - u))"

lemma unit_margin_nonneg: "0 \<le> unit_margin s u \<longleftrightarrow> 0 \<le> s \<and> s \<le> 1 \<and> 0 \<le> u \<and> u \<le> 1"
  by (auto simp: unit_margin_def)

lemma unit_margin_0: "unit_margin s u = 0 \<Longrightarrow> s = 0 \<or> s = 1 \<or> u = 0 \<or> u = 1"
  by (auto simp: unit_margin_def min_def split: if_splits)

lemma unit_square_exit:
  assumes "0 \<le> unit_margin s u" and "unit_margin s' u' \<le> 0"
  shows "\<exists>r. 0 \<le> r \<and> r \<le> 1 \<and> unit_margin ((1 - r) * s + r * s') ((1 - r) * u + r * u') = 0"
proof -
  have "continuous_on {0..1} (\<lambda>r. unit_margin ((1 - r) * s + r * s') ((1 - r) * u + r * u'))"
    unfolding unit_margin_def by (intro continuous_intros)
  from IVT2' [OF _ _ _ this, of 0] show ?thesis
    using assms by auto
qed

lemma segm_segm_le_ends:
  assumes su: "0 \<le> unit_margin s u" and out: "unit_margin s' u' \<le> 0"
    and le: "d2 (lerp a b s') (lerp c d u') \<le> d2 (lerp a b s) (lerp c d u)"
  shows "\<exists>s0 u0. unit_margin s0 u0 = 0 \<and> d2 (lerp a b s0) (lerp c d u0) \<le> d2 (lerp a b s) (lerp c d u)"
proof -
  obtain r where r: "0 \<le> r" "r \<le> 1" "unit_margin ((1 - r) * s + r * s') ((1 - r) * u + r * u') = 0"
    using unit_square_exit [OF su out] by blast
  have "d2 (lerp a b ((1 - r) * s + r * s')) (lerp c d ((1 - r) * u + r * u'))
    \<le> (1 - r) * d2 (lerp a b s) (lerp c d u) + r * d2 (lerp a b s') (lerp c d u')"
    using d2_convex [OF r(1,2)] by (simp add: lerp_lerp [symmetric])
  also have "\<dots> \<le> (1 - r) * d2 (lerp a b s) (lerp c d u) + r * d2 (lerp a b s) (lerp c d u)"
    using le r(1) by (intro add_left_mono mult_left_mono)
  finally have "d2 (lerp a b ((1 - r) * s + r * s')) (lerp c d ((1 - r) * u + r * u'))
    \<le> d2 (lerp a b s) (lerp c d u)" by (simp add: algebra_simps)
  with r(3) show ?thesis by blast
qed

definition xcross :: "rpt \<Rightarrow> rpt \<Rightarrow> rpt \<Rightarrow> rpt \<Rightarrow> real" where
  "xcross a b c d = (fst b - fst a) * (snd d - snd c) - (snd b - snd a) * (fst d - fst c)"

text \<open>Lines that are not parallel meet; parallel ones can be slid along with the gap unchanged.\<close>

lemma lines_meet:
  assumes "xcross a b c d \<noteq> 0"
  shows "\<exists>s u. lerp a b s = lerp c d u"
proof -
  let ?D = "xcross a b c d"
  have "lerp a b (- xorient c d a / - ?D) = lerp c d (xorient a b c / - ?D)"
    using assms by (simp add: lerp_alt prod_eq_iff divide_simps) (simp add: xorient_def xcross_def algebra_simps)
  then show ?thesis by blast
qed

lemma parallel_direction:
  assumes "xcross a b c d = 0"
  shows "\<exists>\<alpha> \<beta>. (\<alpha> \<noteq> 0 \<or> \<beta> \<noteq> 0) \<and> \<alpha> * (fst b - fst a) = \<beta> * (fst d - fst c) \<and>
    \<alpha> * (snd b - snd a) = \<beta> * (snd d - snd c)"
proof (cases "fst b = fst a \<and> snd b = snd a")
  case True
  then show ?thesis by (intro exI [of _ 1] exI [of _ 0]) simp
next
  case False
  then consider "fst b - fst a \<noteq> 0" | "snd b - snd a \<noteq> 0" by auto
  then show ?thesis
  proof cases
    case 1
    then show ?thesis using assms
      by (intro exI [of _ "fst d - fst c"] exI [of _ "fst b - fst a"]) (simp add: xcross_def algebra_simps)
  next
    case 2
    then show ?thesis using assms
      by (intro exI [of _ "snd d - snd c"] exI [of _ "snd b - snd a"]) (simp add: xcross_def algebra_simps)
  qed
qed

lemma parallel_slide:
  assumes "xcross a b c d = 0" and "0 \<le> unit_margin s u"
  shows "\<exists>s' u'. unit_margin s' u' \<le> 0 \<and> d2 (lerp a b s') (lerp c d u') = d2 (lerp a b s) (lerp c d u)"
proof -
  from parallel_direction [OF assms(1)] obtain \<alpha> \<beta> where nz: "\<alpha> \<noteq> 0 \<or> \<beta> \<noteq> 0"
    and dir: "\<alpha> * (fst b - fst a) = \<beta> * (fst d - fst c)" "\<alpha> * (snd b - snd a) = \<beta> * (snd d - snd c)" by blast
  have same: "d2 (lerp a b (s + R * \<alpha>)) (lerp c d (u + R * \<beta>)) = d2 (lerp a b s) (lerp c d u)" for R
  proof -
    have "(s + R * \<alpha>) * (fst b - fst a) - (u + R * \<beta>) * (fst d - fst c)
        = s * (fst b - fst a) - u * (fst d - fst c) + R * (\<alpha> * (fst b - fst a) - \<beta> * (fst d - fst c))"
      "(s + R * \<alpha>) * (snd b - snd a) - (u + R * \<beta>) * (snd d - snd c)
        = s * (snd b - snd a) - u * (snd d - snd c) + R * (\<alpha> * (snd b - snd a) - \<beta> * (snd d - snd c))"
      by (simp_all add: algebra_simps)
    then have "(s + R * \<alpha>) * (fst b - fst a) - (u + R * \<beta>) * (fst d - fst c) = s * (fst b - fst a) - u * (fst d - fst c)"
      "(s + R * \<alpha>) * (snd b - snd a) - (u + R * \<beta>) * (snd d - snd c) = s * (snd b - snd a) - u * (snd d - snd c)"
      using dir by simp_all
    then show ?thesis
      by (simp add: d2_def lerp_alt add_diff_add del: distrib_right_numeral) 
  qed
  have "\<exists>R. unit_margin (s + R * \<alpha>) (u + R * \<beta>) \<le> 0"
  proof (cases "\<alpha> = 0")
    case True
    then show ?thesis using nz by (intro exI [of _ "- u / \<beta>"]) (simp add: unit_margin_def)
  next
    case False
    then show ?thesis by (intro exI [of _ "- s / \<alpha>"]) (simp add: unit_margin_def)
  qed
  then show ?thesis using same by blast
qed

lemma segm_ends_closest:
  assumes no: "\<not> (\<exists>x. x \<in> segm a b \<and> x \<in> segm c d)"
    and p: "p \<in> segm a b" and q: "q \<in> segm c d"
  shows "\<exists>p' q'. p' \<in> segm a b \<and> q' \<in> segm c d \<and> (p' = a \<or> p' = b \<or> q' = c \<or> q' = d) \<and> d2 p' q' \<le> d2 p q"
proof -
  obtain s u where su: "0 \<le> unit_margin s u" and pq: "p = lerp a b s" "q = lerp c d u"
    using p q by (auto simp: segm_def unit_margin_nonneg)
  have "\<exists>s' u'. unit_margin s' u' \<le> 0 \<and> d2 (lerp a b s') (lerp c d u') \<le> d2 p q"
  proof (cases "xcross a b c d = 0")
    case True
    from parallel_slide [OF this su] show ?thesis unfolding pq by (metis order.refl)
  next
    case False
    then obtain s' u' where m: "lerp a b s' = lerp c d u'" using lines_meet by blast
    then have "\<not> 0 \<le> unit_margin s' u'" using no segmI unfolding unit_margin_nonneg by metis
    moreover have "d2 (lerp a b s') (lerp c d u') = 0" by (simp add: m)
    ultimately show ?thesis by (metis d2_nonneg linear)
  qed
  then obtain s0 u0 where z: "unit_margin s0 u0 = 0" and le: "d2 (lerp a b s0) (lerp c d u0) \<le> d2 p q"
    using segm_segm_le_ends [OF su] unfolding pq by metis
  have in01: "0 \<le> s0 \<and> s0 \<le> 1 \<and> 0 \<le> u0 \<and> u0 \<le> 1" using unit_margin_nonneg [of s0 u0] z by simp
  have "lerp a b s0 = a \<or> lerp a b s0 = b \<or> lerp c d u0 = c \<or> lerp c d u0 = d"
    using unit_margin_0 [OF z] by auto
  then show ?thesis using le in01 segmI by metis
qed

lemma sqdist_segm_segm:
  assumes "\<not> (\<exists>x. x \<in> segm a b \<and> x \<in> segm c d)"
  shows "sqdist (segm a b) (segm c d) =
    min (min (sqdist {a} (segm c d)) (sqdist {b} (segm c d))) (min (sqdist {c} (segm a b)) (sqdist {d} (segm a b)))"
    (is "?S = ?M")
proof (rule antisym)
  have mono: "sqdist (segm a b) (segm c d) \<le> sqdist {p} (segm c d)" if "p \<in> segm a b" for p a b c d
    using that by (intro sqdist_ge) (auto intro: sqdist_le)
  show "?S \<le> ?M"
    using mono [of a a b c d] mono [of b a b c d] mono [of c c d a b] mono [of d c d a b]
    by (simp add: sqdist_commute [of "segm c d" "segm a b"])
  show "?M \<le> ?S"
  proof (rule sqdist_ge)
    fix p q assume "p \<in> segm a b" "q \<in> segm c d"
    from segm_ends_closest [OF assms this] obtain p' q'
      where in_seg: "p' \<in> segm a b" "q' \<in> segm c d" and e: "p' = a \<or> p' = b \<or> q' = c \<or> q' = d"
        and le: "d2 p' q' \<le> d2 p q" by blast
    have "sqdist {p'} (segm c d) \<le> d2 p' q'" "sqdist {q'} (segm a b) \<le> d2 p' q'"
      using in_seg sqdist_le [of p' "{p'}" q'] sqdist_le [of q' "{q'}" p'] by (simp_all add: d2_commute)
    with e le show "?M \<le> d2 p q" by auto
  qed simp_all
qed

end
