(* ===== verification/Geom_Point.thy ===== *)
theory Geom_Point
  imports Konnect_Prelude "HOL-Library.Monad_Syntax"
begin

text \<open>
  \<open>crates/konnect-geom/src/point.rs\<close> and \<open>bbox.rs\<close>: board positions (\<open>i32\<close> nanometres),
  their exact differences (\<open>i64\<close>), and closed axis-aligned boxes.

  A \<open>point\<close> of the program always satisfies \<open>point_ok\<close> (its fields are \<open>i32\<close>), a \<open>bbox\<close> built
  through the constructors satisfies \<open>bbox_ok\<close>. The lemmas show that every box operation keeps
  \<open>bbox_ok\<close> and what set of positions the result covers.
\<close>

section \<open>Points and vectors\<close>

record point =
  px :: int
  py :: int

record vector =
  vx :: int
  vy :: int

definition point_ok :: "point \<Rightarrow> bool" where
  "point_ok p \<longleftrightarrow> in_i32 (px p) \<and> in_i32 (py p)"

abbreviation Point_new :: "int \<Rightarrow> int \<Rightarrow> point" where
  "Point_new x y \<equiv> \<lparr>px = x, py = y\<rparr>"

text \<open>\<open>i64::checked_add\<close> and \<open>i32::try_from\<close>.\<close>

definition checked_add_i64 :: "int \<Rightarrow> int \<Rightarrow> int option" where
  "checked_add_i64 a b = (if in_i64 (a + b) then Some (a + b) else None)"

definition try_i32 :: "int \<Rightarrow> int option" where
  "try_i32 k = (if in_i32 k then Some k else None)"

definition Point_checked_add :: "point \<Rightarrow> vector \<Rightarrow> point option" where
  "Point_checked_add p v =
     do { sx \<leftarrow> checked_add_i64 (px p) (vx v);
          x \<leftarrow> try_i32 sx;
          sy \<leftarrow> checked_add_i64 (py p) (vy v);
          y \<leftarrow> try_i32 sy;
          Some (Point_new x y) }"

definition Point_sub :: "point \<Rightarrow> point \<Rightarrow> vector" where
  "Point_sub p q = \<lparr>vx = i64 (px p - px q), vy = i64 (py p - py q)\<rparr>"

definition Vector_dot :: "vector \<Rightarrow> vector \<Rightarrow> int" where
  "Vector_dot u v = i128 (i128 (vx u * vx v) + i128 (vy u * vy v))"

definition Vector_cross :: "vector \<Rightarrow> vector \<Rightarrow> int" where
  "Vector_cross u v = i128 (i128 (vx u * vy v) - i128 (vy u * vx v))"

definition Vector_length2 :: "vector \<Rightarrow> int" where
  "Vector_length2 v = Vector_dot v v"

definition dist2_point_point :: "point \<Rightarrow> point \<Rightarrow> int" where
  "dist2_point_point a b = Vector_length2 (Point_sub b a)"

text \<open>The difference of two \<open>i32\<close> points and the products of two such differences are exact.\<close>

lemma point_ok_abs: "point_ok p \<Longrightarrow> \<bar>px p\<bar> \<le> 2 ^ 31" "point_ok p \<Longrightarrow> \<bar>py p\<bar> \<le> 2 ^ 31"
  by (auto simp: point_ok_def in_i32_def)

lemma Point_sub_exact:
  assumes "point_ok p" and "point_ok q"
  shows "Point_sub p q = \<lparr>vx = px p - px q, vy = py p - py q\<rparr>"
  using assms by (simp add: Point_sub_def point_ok_def in_i32_def i64_id in_i64_def)

definition vector_small :: "vector \<Rightarrow> bool" where
  "vector_small v \<longleftrightarrow> \<bar>vx v\<bar> \<le> 2 ^ 32 \<and> \<bar>vy v\<bar> \<le> 2 ^ 32"

lemma Point_sub_small:
  assumes "point_ok p" and "point_ok q"
  shows "vector_small (Point_sub p q)"
  using assms by (auto simp: Point_sub_exact vector_small_def point_ok_def in_i32_def)

lemma i128_product_id:
  assumes "\<bar>a\<bar> \<le> 2 ^ 34" and "\<bar>b\<bar> \<le> 2 ^ 34"
  shows "i128 (a * b) = a * b" and "\<bar>a * b\<bar> \<le> 2 ^ 68"
proof -
  show "\<bar>a * b\<bar> \<le> 2 ^ 68"
    using abs_mult_bound [OF assms] by simp
  then show "i128 (a * b) = a * b"
    by (intro i128_id in_i128_abs) simp
qed

lemma i128_sum_id:
  assumes "\<bar>a\<bar> \<le> 2 ^ 68" and "\<bar>b\<bar> \<le> 2 ^ 68"
  shows "i128 (a + b) = a + b" and "i128 (a - b) = a - b"
  using assms by (auto intro!: i128_id in_i128_abs)

lemma Vector_products_exact:
  assumes "vector_small u" and "vector_small v"
  shows "Vector_dot u v = vx u * vx v + vy u * vy v"
    and "Vector_cross u v = vx u * vy v - vy u * vx v"
proof -
  have "\<bar>vx u\<bar> \<le> 2 ^ 34" "\<bar>vy u\<bar> \<le> 2 ^ 34" "\<bar>vx v\<bar> \<le> 2 ^ 34" "\<bar>vy v\<bar> \<le> 2 ^ 34"
    using assms by (auto simp: vector_small_def)
  then show "Vector_dot u v = vx u * vx v + vy u * vy v"
    and "Vector_cross u v = vx u * vy v - vy u * vx v"
    by (simp_all only: Vector_dot_def Vector_cross_def i128_product_id i128_sum_id)
qed

lemma Point_checked_add_Some:
  "Point_checked_add p v = Some q \<longleftrightarrow>
     in_i64 (px p + vx v) \<and> in_i64 (py p + vy v) \<and>
     point_ok q \<and> px q = px p + vx v \<and> py q = py p + vy v"
  by (cases q) (auto simp: Point_checked_add_def checked_add_i64_def try_i32_def point_ok_def
      split: bind_splits if_splits)

section \<open>Boxes\<close>

record bbox =
  bmin :: point
  bmax :: point

definition BBox_new :: "point \<Rightarrow> point \<Rightarrow> bbox" where
  "BBox_new a b =
     \<lparr>bmin = Point_new (min (px a) (px b)) (min (py a) (py b)),
      bmax = Point_new (max (px a) (px b)) (max (py a) (py b))\<rparr>"

definition BBox_point :: "point \<Rightarrow> bbox" where
  "BBox_point p = \<lparr>bmin = p, bmax = p\<rparr>"

definition BBox_union :: "bbox \<Rightarrow> bbox \<Rightarrow> bbox" where
  "BBox_union b c =
     \<lparr>bmin = Point_new (min (px (bmin b)) (px (bmin c))) (min (py (bmin b)) (py (bmin c))),
      bmax = Point_new (max (px (bmax b)) (px (bmax c))) (max (py (bmax b)) (py (bmax c)))\<rparr>"

fun BBox_from_points :: "point list \<Rightarrow> bbox option" where
  "BBox_from_points [] = None"
| "BBox_from_points (first # iter) =
     Some (foldl (\<lambda>b p. BBox_union b (BBox_point p)) (BBox_point first) iter)"

definition BBox_center :: "bbox \<Rightarrow> point" where
  "BBox_center b =
     (let mid = (\<lambda>a c. i32 (i64 (a + c) div 2))
      in Point_new (mid (px (bmin b)) (px (bmax b))) (mid (py (bmin b)) (py (bmax b))))"

definition BBox_inflate :: "bbox \<Rightarrow> int \<Rightarrow> bbox" where
  "BBox_inflate b d =
     (let mn = Point_new (sat32 (px (bmin b) - d)) (sat32 (py (bmin b) - d));
          mx = Point_new (sat32 (px (bmax b) + d)) (sat32 (py (bmax b) + d));
          c = BBox_center b
      in \<lparr>bmin = Point_new (min (px mn) (px c)) (min (py mn) (py c)),
          bmax = Point_new (max (px mx) (px c)) (max (py mx) (py c))\<rparr>)"

definition BBox_intersects :: "bbox \<Rightarrow> bbox \<Rightarrow> bool" where
  "BBox_intersects b c \<longleftrightarrow>
     px (bmin b) \<le> px (bmax c) \<and> px (bmin c) \<le> px (bmax b) \<and>
     py (bmin b) \<le> py (bmax c) \<and> py (bmin c) \<le> py (bmax b)"

definition BBox_contains :: "bbox \<Rightarrow> point \<Rightarrow> bool" where
  "BBox_contains b p \<longleftrightarrow>
     px (bmin b) \<le> px p \<and> px p \<le> px (bmax b) \<and> py (bmin b) \<le> py p \<and> py p \<le> py (bmax b)"

definition BBox_contains_bbox :: "bbox \<Rightarrow> bbox \<Rightarrow> bool" where
  "BBox_contains_bbox b c \<longleftrightarrow> BBox_contains b (bmin c) \<and> BBox_contains b (bmax c)"

definition BBox_width :: "bbox \<Rightarrow> int" where
  "BBox_width b = i64 (px (bmax b) - px (bmin b))"

definition BBox_height :: "bbox \<Rightarrow> int" where
  "BBox_height b = i64 (py (bmax b) - py (bmin b))"

text \<open>The type invariant: \<open>i32\<close> corners, never inverted.\<close>

definition bbox_ok :: "bbox \<Rightarrow> bool" where
  "bbox_ok b \<longleftrightarrow> point_ok (bmin b) \<and> point_ok (bmax b) \<and>
     px (bmin b) \<le> px (bmax b) \<and> py (bmin b) \<le> py (bmax b)"

lemma BBox_new_ok: "point_ok a \<Longrightarrow> point_ok b \<Longrightarrow> bbox_ok (BBox_new a b)"
  by (auto simp: bbox_ok_def BBox_new_def point_ok_def min_def max_def)

lemma BBox_point_ok: "point_ok a \<Longrightarrow> bbox_ok (BBox_point a)"
  by (auto simp: bbox_ok_def BBox_point_def)

lemma BBox_union_ok: "bbox_ok b \<Longrightarrow> bbox_ok c \<Longrightarrow> bbox_ok (BBox_union b c)"
  by (auto simp: bbox_ok_def BBox_union_def point_ok_def min_def max_def)

lemma i32_mid_exact:
  assumes "in_i32 a" and "in_i32 c"
  shows "i32 (i64 (a + c) div 2) = (a + c) div 2"
proof -
  have "i64 (a + c) = a + c"
    using assms by (intro i64_id) (auto simp: in_i32_def in_i64_def)
  moreover have "in_i32 ((a + c) div 2)"
    using assms by (auto simp: in_i32_def)
  ultimately show ?thesis by (simp add: i32_id)
qed

lemma BBox_center_exact:
  assumes "bbox_ok b"
  shows "BBox_center b =
     Point_new ((px (bmin b) + px (bmax b)) div 2) ((py (bmin b) + py (bmax b)) div 2)"
  using assms by (simp add: BBox_center_def Let_def bbox_ok_def point_ok_def i32_mid_exact)

lemma BBox_center_in: "bbox_ok b \<Longrightarrow> BBox_contains b (BBox_center b)"
  by (auto simp: BBox_center_exact BBox_contains_def bbox_ok_def)

lemma BBox_center_ok: "point_ok (BBox_center b)"
  by (simp add: BBox_center_def Let_def point_ok_def)

lemma BBox_inflate_ok: "bbox_ok (BBox_inflate b d)"
  using BBox_center_ok [of b]
  by (auto simp: BBox_inflate_def Let_def bbox_ok_def point_ok_def min_def max_def)

lemma BBox_contains_bbox_iff:
  assumes "bbox_ok c"
  shows "BBox_contains_bbox b c \<longleftrightarrow> (\<forall>p. BBox_contains c p \<longrightarrow> BBox_contains b p)"
  using assms unfolding BBox_contains_bbox_def BBox_contains_def bbox_ok_def
  by (meson order.trans order.refl)

lemma BBox_intersects_iff:
  assumes "bbox_ok b" and "bbox_ok c"
  shows "BBox_intersects b c \<longleftrightarrow> (\<exists>p. point_ok p \<and> BBox_contains b p \<and> BBox_contains c p)"
proof
  assume meet: "BBox_intersects b c"
  let ?p = "Point_new (max (px (bmin b)) (px (bmin c))) (max (py (bmin b)) (py (bmin c)))"
  have "point_ok ?p \<and> BBox_contains b ?p \<and> BBox_contains c ?p"
    using meet assms
    by (auto simp: BBox_intersects_def BBox_contains_def bbox_ok_def point_ok_def max_def)
  then show "\<exists>p. point_ok p \<and> BBox_contains b p \<and> BBox_contains c p" by blast
qed (auto simp: BBox_intersects_def BBox_contains_def)

text \<open>
  Inflating by \<open>d \<ge> 0\<close> covers exactly the \<open>i32\<close> positions within \<open>d\<close> of the box on both axes.
\<close>

lemma BBox_inflate_exact:
  assumes "bbox_ok b" and "0 \<le> d" and "point_ok q"
  shows "BBox_contains (BBox_inflate b d) q \<longleftrightarrow>
     px (bmin b) - d \<le> px q \<and> px q \<le> px (bmax b) + d \<and>
     py (bmin b) - d \<le> py q \<and> py q \<le> py (bmax b) + d"
proof -
  have q: "in_i32 (px q)" "in_i32 (py q)"
    using assms(3) by (simp_all add: point_ok_def)
  have c: "px (bmin b) \<le> px (BBox_center b)" "px (BBox_center b) \<le> px (bmax b)"
    "py (bmin b) \<le> py (BBox_center b)" "py (BBox_center b) \<le> py (bmax b)"
    using BBox_center_in [OF assms(1)] by (simp_all add: BBox_contains_def)
  have "px (bmin b) - d < 2 ^ 31" "py (bmin b) - d < 2 ^ 31"
    "- (2 ^ 31) \<le> px (bmax b) + d" "- (2 ^ 31) \<le> py (bmax b) + d"
    using assms(1,2) by (auto simp: bbox_ok_def point_ok_def in_i32_def)
  then show ?thesis
    using c assms(2)
    by (simp add: BBox_inflate_def Let_def BBox_contains_def sat32_le_iff le_sat32_iff q
        min_le_iff_disj le_max_iff_disj) linarith
qed

lemma BBox_union_least:
  assumes "bbox_ok b" and "bbox_ok c"
  shows "BBox_contains_bbox d (BBox_union b c) \<longleftrightarrow>
     BBox_contains_bbox d b \<and> BBox_contains_bbox d c"
  using assms
  by (auto simp: BBox_contains_bbox_def BBox_contains_def BBox_union_def bbox_ok_def)

lemma BBox_contains_point [simp]: "BBox_contains_bbox d (BBox_point p) \<longleftrightarrow> BBox_contains d p"
  by (simp add: BBox_contains_bbox_def BBox_point_def)

lemma BBox_from_points_fold:
  assumes "bbox_ok b" and "list_all point_ok ps"
  shows "bbox_ok (foldl (\<lambda>b p. BBox_union b (BBox_point p)) b ps)"
    and "BBox_contains_bbox d (foldl (\<lambda>b p. BBox_union b (BBox_point p)) b ps) \<longleftrightarrow>
      BBox_contains_bbox d b \<and> list_all (BBox_contains d) ps"
  using assms
  by (induction ps arbitrary: b) (auto simp: BBox_union_ok BBox_point_ok BBox_union_least)

text \<open>The bounding box of a point list is the least box that contains every point.\<close>

lemma BBox_from_points_least:
  assumes "list_all point_ok ps" and "BBox_from_points ps = Some b"
  shows "bbox_ok b"
    and "BBox_contains_bbox d b \<longleftrightarrow> list_all (BBox_contains d) ps"
  using assms
  by (cases ps; auto simp: BBox_from_points_fold BBox_point_ok)+

lemma BBox_contains_bbox_refl: "bbox_ok b \<Longrightarrow> BBox_contains_bbox b b"
  by (simp add: BBox_contains_bbox_def BBox_contains_def bbox_ok_def)

lemma BBox_from_points_contains:
  assumes "list_all point_ok ps" and "BBox_from_points ps = Some b" and "p \<in> set ps"
  shows "BBox_contains b p"
  using BBox_from_points_least [OF assms(1,2)] BBox_contains_bbox_refl assms(3)
  by (auto simp: list_all_iff)

section \<open>Property\<close>

text \<open>Inflating a box by \<open>d \<ge> 0\<close> covers exactly the \<open>i32\<close> positions within \<open>d\<close> of the box on
  both axes, although the corners are moved with saturating arithmetic; the result is a
  well-formed box for every \<open>d\<close>, so a shrink never inverts it.\<close>

theorem BBox_inflate_covers:
  assumes "bbox_ok b"
  shows "bbox_ok (BBox_inflate b d) \<and>
    (0 \<le> d \<longrightarrow> point_ok q \<longrightarrow> (BBox_contains (BBox_inflate b d) q \<longleftrightarrow>
      px (bmin b) - d \<le> px q \<and> px q \<le> px (bmax b) + d \<and>
      py (bmin b) - d \<le> py q \<and> py q \<le> py (bmax b) + d))"
  using BBox_inflate_ok BBox_inflate_exact [OF assms] by blast

theorem BBox_inflate_covers_witness:
  "BBox_contains (BBox_inflate (BBox_new (Point_new 2147483000 5) (Point_new 0 9)) 1000) (Point_new 2147483647 (- 995))
   \<and> \<not> BBox_contains (BBox_inflate (BBox_new (Point_new 2147483000 5) (Point_new 0 9)) 1000) (Point_new 0 1010)"
proof -
  let ?b = "BBox_new (Point_new 2147483000 5) (Point_new 0 9)"
  have ok: "bbox_ok ?b" by (simp add: bbox_ok_def BBox_new_def point_ok_def in_i32_def)
  show ?thesis
    using BBox_inflate_covers [OF ok, of 1000 "Point_new 2147483647 (- 995)"]
      BBox_inflate_covers [OF ok, of 1000 "Point_new 0 1010"]
    by (simp add: BBox_new_def point_ok_def in_i32_def)
qed

end
