(* ===== verification/Geom_Shape.thy ===== *)
theory Geom_Shape
  imports Geom_Point
begin

text \<open>
  \<open>crates/konnect-geom/src/shape.rs\<close>: tracks, discs, (rounded) convex polygons and polygons with
  holes. The constructors \<open>ConvexPoly_new\<close> and \<open>Polygon_new\<close> are the only way to build those two
  shapes (deserializing goes through them), so \<open>shape_ok\<close> is a type invariant; the lemmas show
  what they guarantee and that they accept their own output unchanged.
\<close>

section \<open>Shape data\<close>

type_synonym ring = "point list"

record segment =
  seg_a :: point
  seg_b :: point
  seg_width :: int

record circle =
  center :: point
  radius :: int

record convex_poly =
  pts :: ring
  cp_radius :: int

record polygon =
  outline :: ring
  holes :: "ring list"

datatype shape = Segment segment | Circle circle | ConvexPoly convex_poly | Polygon polygon

section \<open>Ring helpers\<close>

text \<open>Rust's \<open>/\<close> and \<open>%\<close> truncate toward zero.\<close>

definition half_up :: "int \<Rightarrow> int" where
  "half_up width = i32 (sgn width * (\<bar>width\<bar> div 2) + sgn width * (\<bar>width\<bar> mod 2))"

text \<open>\<open>Vec::dedup\<close> is \<^const>\<open>remdups_adj\<close>; the loop pops a closing repeat of the first point.\<close>

function pop_closing :: "ring \<Rightarrow> ring" where
  "pop_closing ps =
     (if 1 < length ps \<and> hd ps = last ps then pop_closing (butlast ps) else ps)"
  by pat_completeness auto
termination
  by (relation "measure length") auto

declare pop_closing.simps [simp del]

definition dedup_ring :: "point list \<Rightarrow> ring" where
  "dedup_ring ps = pop_closing (remdups_adj ps)"

text \<open>\<open>ring[(i + 1) % n]\<close> for every \<open>i\<close>: the ring paired with its rotation.\<close>

definition ring_pairs :: "'a list \<Rightarrow> ('a \<times> 'a) list" where
  "ring_pairs ring = map (\<lambda>i. (ring ! i, ring ! ((i + 1) mod length ring))) [0..<length ring]"

definition signed_area2 :: "ring \<Rightarrow> int" where
  "signed_area2 ring =
     foldl (\<lambda>s (a, b). i128 (s + i128 (i128 (px a * py b) - i128 (px b * py a)))) 0
       (ring_pairs ring)"

section \<open>Constructors\<close>

definition turns_ok :: "ring \<Rightarrow> bool" where
  "turns_ok ring =
     (let n = length ring
      in list_all (\<lambda>i. let a = ring ! i; b = ring ! ((i + 1) mod n); c = ring ! ((i + 2) mod n)
                       in \<not> Vector_cross (Point_sub b a) (Point_sub c b) < 0) [0..<n])"

definition ConvexPoly_new :: "point list \<Rightarrow> int \<Rightarrow> convex_poly option" where
  "ConvexPoly_new ps r =
     (if r < 0 then None
      else let ring = dedup_ring ps
        in if length ring < 3 then None
        else let area = signed_area2 ring
          in if area = 0 then None
          else let ring = (if area < 0 then rev ring else ring)
            in if turns_ok ring then Some \<lparr>pts = ring, cp_radius = r\<rparr> else None)"

definition ConvexPoly_axis_rect :: "bbox \<Rightarrow> int \<Rightarrow> convex_poly option" where
  "ConvexPoly_axis_rect b r =
     ConvexPoly_new
       [bmin b, Point_new (px (bmax b)) (py (bmin b)), bmax b, Point_new (px (bmin b)) (py (bmax b))]
       r"

definition normalize_hole :: "ring \<Rightarrow> ring option" where
  "normalize_hole h =
     (let a = signed_area2 h
      in if length h < 3 \<or> a = 0 then None else if a > 0 then Some (rev h) else Some h)"

definition Polygon_new :: "ring \<Rightarrow> ring list \<Rightarrow> polygon option" where
  "Polygon_new ol hs =
     (let ol = dedup_ring ol
      in if length ol < 3 then None
      else let area = signed_area2 ol
        in if area = 0 then None
        else let ol = (if area < 0 then rev ol else ol)
          in Some \<lparr>outline = ol, holes = List.map_filter normalize_hole (map dedup_ring hs)\<rparr>)"

definition Polygon_rings :: "polygon \<Rightarrow> ring list" where
  "Polygon_rings p = outline p # holes p"

definition Polygon_area2 :: "polygon \<Rightarrow> int" where
  "Polygon_area2 p = foldl (\<lambda>s r. i128 (s + signed_area2 r)) 0 (Polygon_rings p)"

definition Circle_from_diameter :: "point \<Rightarrow> int \<Rightarrow> circle" where
  "Circle_from_diameter c diameter = \<lparr>center = c, radius = half_up diameter\<rparr>"

section \<open>Bounding boxes and sweep\<close>

definition Segment_bbox :: "segment \<Rightarrow> bbox" where
  "Segment_bbox s = BBox_inflate (BBox_new (seg_a s) (seg_b s)) (half_up (seg_width s))"

definition Circle_bbox :: "circle \<Rightarrow> bbox" where
  "Circle_bbox c = BBox_inflate (BBox_point (center c)) (radius c)"

text \<open>\<open>expect\<close> never fires on a value of the type: a stored ring is not empty.\<close>

definition ConvexPoly_bbox :: "convex_poly \<Rightarrow> bbox" where
  "ConvexPoly_bbox p = BBox_inflate (the (BBox_from_points (pts p))) (cp_radius p)"

definition Polygon_bbox :: "polygon \<Rightarrow> bbox" where
  "Polygon_bbox p = the (BBox_from_points (outline p))"

fun Shape_bbox :: "shape \<Rightarrow> bbox" where
  "Shape_bbox (Segment s) = Segment_bbox s"
| "Shape_bbox (Circle c) = Circle_bbox c"
| "Shape_bbox (ConvexPoly p) = ConvexPoly_bbox p"
| "Shape_bbox (Polygon p) = Polygon_bbox p"

fun Shape_sweep2 :: "shape \<Rightarrow> int" where
  "Shape_sweep2 (Segment s) = seg_width s"
| "Shape_sweep2 (Circle c) = i64 (2 * radius c)"
| "Shape_sweep2 (ConvexPoly p) = i64 (2 * cp_radius p)"
| "Shape_sweep2 (Polygon p) = 0"

section \<open>Type invariant\<close>

definition ring_ok :: "ring \<Rightarrow> bool" where
  "ring_ok r \<longleftrightarrow> list_all point_ok r \<and> 3 \<le> length r \<and> distinct_adj r \<and> hd r \<noteq> last r"

definition segment_ok :: "segment \<Rightarrow> bool" where
  "segment_ok s \<longleftrightarrow> point_ok (seg_a s) \<and> point_ok (seg_b s) \<and> in_i32 (seg_width s) \<and> 0 \<le> seg_width s"

definition circle_ok :: "circle \<Rightarrow> bool" where
  "circle_ok c \<longleftrightarrow> point_ok (center c) \<and> in_i32 (radius c) \<and> 0 \<le> radius c"

definition convex_poly_ok :: "convex_poly \<Rightarrow> bool" where
  "convex_poly_ok p \<longleftrightarrow> ring_ok (pts p) \<and> in_i32 (cp_radius p) \<and> 0 \<le> cp_radius p \<and>
     0 < signed_area2 (pts p) \<and> turns_ok (pts p)"

definition polygon_ok :: "polygon \<Rightarrow> bool" where
  "polygon_ok p \<longleftrightarrow> ring_ok (outline p) \<and> 0 < signed_area2 (outline p) \<and>
     list_all (\<lambda>h. ring_ok h \<and> signed_area2 h < 0) (holes p)"

fun shape_ok :: "shape \<Rightarrow> bool" where
  "shape_ok (Segment s) = segment_ok s"
| "shape_ok (Circle c) = circle_ok c"
| "shape_ok (ConvexPoly p) = convex_poly_ok p"
| "shape_ok (Polygon p) = polygon_ok p"

section \<open>Signed area\<close>

lemma ring_pairs_zip: "ring_pairs r = zip r (rotate1 r)"
  by (rule nth_equalityI) (auto simp: ring_pairs_def nth_rotate1)

lemma sum_list_rotate1: "sum_list (map f (rotate1 l)) = (sum_list (map f l) :: int)"
  by (cases l) auto

lemma zip_rotate1: "length a = length b \<Longrightarrow> zip (rotate1 a) (rotate1 b) = rotate1 (zip a b)"
  by (cases a; cases b) auto

lemma sum_ring_pairs_rotate1:
  "sum_list (map f (ring_pairs (rotate1 r))) = (sum_list (map f (ring_pairs r)) :: int)"
  by (simp add: ring_pairs_zip zip_rotate1 sum_list_rotate1)

lemma ring_pairs_rev_snoc:
  "ring_pairs (rev (ys @ [y])) = rev (map prod.swap (ring_pairs (y # ys)))"
proof -
  have "ring_pairs (rev (ys @ [y])) = zip (rev (ys @ [y])) (rev (y # ys))"
    by (simp only: ring_pairs_zip rev_append rev.simps append.simps rotate1.simps)
  also have "\<dots> = rev (zip (ys @ [y]) (y # ys))"
    by (rule zip_rev) simp
  also have "zip (ys @ [y]) (y # ys) = map prod.swap (zip (y # ys) (ys @ [y]))"
    by (subst zip_commute) (rule map_cong; simp add: case_prod_beta' prod_eq_iff)
  finally show ?thesis by (simp only: ring_pairs_zip rotate1.simps)
qed

lemma sum_ring_pairs_rev:
  "sum_list (map f (ring_pairs (rev r))) = (sum_list (map (f \<circ> prod.swap) (ring_pairs r)) :: int)"
proof (cases r rule: rev_cases)
  case (snoc ys y)
  have "sum_list (map f (ring_pairs (rev r))) = sum_list (map (f \<circ> prod.swap) (ring_pairs (y # ys)))"
    unfolding snoc ring_pairs_rev_snoc by (simp add: rev_map [symmetric] sum_list_rev)
  also have "\<dots> = sum_list (map (f \<circ> prod.swap) (ring_pairs r))"
    using sum_ring_pairs_rotate1 [of "f \<circ> prod.swap" "y # ys"] snoc by simp
  finally show ?thesis .
qed (simp add: ring_pairs_def)

definition shoelace :: "point \<times> point \<Rightarrow> int" where
  "shoelace = (\<lambda>(a, b). px a * py b - px b * py a)"

lemma shoelace_swap: "shoelace (prod.swap e) = - shoelace e"
  by (cases e) (simp add: shoelace_def)

lemma shoelace_bound:
  assumes "point_ok a" and "point_ok b"
  shows "i128 (i128 (px a * py b) - i128 (px b * py a)) = shoelace (a, b)"
    and "\<bar>shoelace (a, b)\<bar> \<le> 2 ^ 63"
proof -
  have ab: "\<bar>px a * py b\<bar> \<le> 2 ^ 31 * 2 ^ 31" "\<bar>px b * py a\<bar> \<le> 2 ^ 31 * 2 ^ 31"
    by (intro abs_mult_bound point_ok_abs assms)+
  then have "i128 (px a * py b) = px a * py b" "i128 (px b * py a) = px b * py a"
    by (auto intro!: i128_id in_i128_abs)
  moreover show "\<bar>shoelace (a, b)\<bar> \<le> 2 ^ 63"
    using ab by (simp add: shoelace_def)
  ultimately show "i128 (i128 (px a * py b) - i128 (px b * py a)) = shoelace (a, b)"
    by (simp add: shoelace_def i128_id in_i128_abs)
qed

lemma area_fold_exact:
  assumes "\<forall>(a, b) \<in> set es. point_ok a \<and> point_ok b"
    and "\<bar>s\<bar> + int (length es) * 2 ^ 63 < 2 ^ 127"
  shows "foldl (\<lambda>s (a, b). i128 (s + i128 (i128 (px a * py b) - i128 (px b * py a)))) s es =
     s + sum_list (map shoelace es)"
  using assms
proof (induction es arbitrary: s)
  case (Cons e es)
  obtain a b where e: "e = (a, b)" by force
  have ok: "point_ok a" "point_ok b" using Cons.prems(1) e by auto
  note B = shoelace_bound [OF ok]
  have s: "\<bar>s + shoelace e\<bar> + int (length es) * 2 ^ 63 < 2 ^ 127"
    using Cons.prems(2) B(2) by (simp add: e algebra_simps)
  then have "i128 (s + shoelace e) = s + shoelace e"
    by (intro i128_id in_i128_abs le_less_trans [OF _ s]) simp
  then show ?case
    using Cons.IH [of "s + shoelace e"] Cons.prems(1) s B(1) by (simp add: e)
qed simp


text \<open>A \<open>Vec\<close> of 8-byte points has fewer than \<open>2 ^ 60\<close> elements.\<close>

definition vec_fits :: "'a list \<Rightarrow> bool" where
  "vec_fits l \<longleftrightarrow> length l < 2 ^ 60"

lemma ring_pairs_points:
  assumes "(a, b) \<in> set (ring_pairs r)"
  shows "a \<in> set r" and "b \<in> set r"
  using assms by (auto simp: ring_pairs_zip dest: set_zip_leftD set_zip_rightD)

lemma length_ring_pairs [simp]: "length (ring_pairs r) = length r"
  by (simp add: ring_pairs_def)

lemma signed_area2_exact:
  assumes "list_all point_ok r" and "vec_fits r"
  shows "signed_area2 r = sum_list (map shoelace (ring_pairs r))"
proof -
  have "int (length r) < 2 ^ 60" using assms(2) by (simp add: vec_fits_def)
  then have "\<bar>0\<bar> + int (length (ring_pairs r)) * 2 ^ 63 < 2 ^ 127" by simp
  moreover have "\<forall>(a, b) \<in> set (ring_pairs r). point_ok a \<and> point_ok b"
    using assms(1) ring_pairs_points by (fastforce simp: list_all_iff)
  ultimately show ?thesis
    unfolding signed_area2_def by (subst area_fold_exact) auto
qed

lemma vec_fits_rev [simp]: "vec_fits (rev r) = vec_fits r"
  by (simp add: vec_fits_def)

lemma list_all_rev [simp]: "list_all P (rev r) = list_all P r"
  by (simp add: list_all_iff)

lemma signed_area2_rev:
  assumes "list_all point_ok r" and "vec_fits r"
  shows "signed_area2 (rev r) = - signed_area2 r"
proof -
  have "sum_list (map (shoelace \<circ> prod.swap) l) = - sum_list (map shoelace l)" for l
    by (induction l) (auto simp: shoelace_swap)
  then show ?thesis
    using assms by (simp add: signed_area2_exact sum_ring_pairs_rev)
qed

section \<open>What the constructors guarantee\<close>

lemma pop_closing_prefix: "\<exists>n. pop_closing ps = take n ps"
proof (induction ps rule: pop_closing.induct)
  case (1 ps)
  show ?case
  proof (cases "1 < length ps \<and> hd ps = last ps")
    case True
    then obtain n where "pop_closing (butlast ps) = take n (butlast ps)" using 1 by blast
    then have "pop_closing ps = take (min n (length ps - 1)) ps"
      using True by (simp add: pop_closing.simps [of ps] butlast_conv_take min.commute)
    then show ?thesis by blast
  next
    case False
    then have "pop_closing ps = take (length ps) ps" by (auto simp: pop_closing.simps [of ps])
    then show ?thesis by blast
  qed
qed

lemma pop_closing_open: "length (pop_closing ps) \<le> 1 \<or> hd (pop_closing ps) \<noteq> last (pop_closing ps)"
  by (induction ps rule: pop_closing.induct) (subst (1 2 3) pop_closing.simps, auto)

lemma distinct_adj_take: "distinct_adj xs \<Longrightarrow> distinct_adj (take n xs)"
  by (metis append_take_drop_id distinct_adj_appendD1)

lemma dedup_ring_props:
  shows "set (dedup_ring ps) \<subseteq> set ps" and "length (dedup_ring ps) \<le> length ps"
    and "distinct_adj (dedup_ring ps)"
    and "2 \<le> length (dedup_ring ps) \<Longrightarrow> hd (dedup_ring ps) \<noteq> last (dedup_ring ps)"
proof -
  obtain n where n: "dedup_ring ps = take n (remdups_adj ps)"
    using pop_closing_prefix [of "remdups_adj ps"] by (auto simp: dedup_ring_def)
  show "set (dedup_ring ps) \<subseteq> set ps"
    unfolding n using set_take_subset [of n "remdups_adj ps"] by simp
  show "length (dedup_ring ps) \<le> length ps"
    unfolding n using remdups_adj_length [of ps] by (simp add: min.coboundedI1)
  show "distinct_adj (dedup_ring ps)"
    unfolding n by (simp add: distinct_adj_take)
  show "2 \<le> length (dedup_ring ps) \<Longrightarrow> hd (dedup_ring ps) \<noteq> last (dedup_ring ps)"
    using pop_closing_open [of "remdups_adj ps"] by (auto simp: dedup_ring_def)
qed

lemma dedup_ring_id:
  assumes "distinct_adj r" and "hd r \<noteq> last r"
  shows "dedup_ring r = r"
  using assms by (simp add: dedup_ring_def pop_closing.simps [of r] distinct_adj_altdef)


lemma ConvexPoly_new_ok:
  assumes "ConvexPoly_new ps r = Some c" and "list_all point_ok ps" and "vec_fits ps" and "in_i32 r"
  shows "convex_poly_ok c" and "ConvexPoly_new (pts c) (cp_radius c) = Some c"
    and "set (pts c) \<subseteq> set ps" and "cp_radius c = r"
proof -
  let ?d = "dedup_ring ps"
  define ring where "ring = (if signed_area2 ?d < 0 then rev ?d else ?d)"
  note D = dedup_ring_props [of ps]
  have c: "c = \<lparr>pts = ring, cp_radius = r\<rparr>" and r: "0 \<le> r" and len: "3 \<le> length ?d"
    and ne: "signed_area2 ?d \<noteq> 0" and turns: "turns_ok ring"
    using assms(1) by (auto simp: ConvexPoly_new_def Let_def ring_def split: if_splits)
  have ok: "list_all point_ok ?d" "vec_fits ?d"
    using D(1,2) assms(2,3) by (auto simp: list_all_iff vec_fits_def)
  have area: "0 < signed_area2 ring"
    using ne signed_area2_rev [OF ok] by (auto simp: ring_def)
  have adj: "distinct_adj ring" "hd ring \<noteq> last ring"
    using D(3,4) len by (auto simp: ring_def hd_rev last_rev)
  have "length ring = length ?d" by (simp add: ring_def)
  then have rok: "ring_ok ring"
    using adj len ok(1) by (auto simp: ring_ok_def ring_def)
  show "convex_poly_ok c"
    using rok area turns r assms(4) by (simp add: convex_poly_ok_def c)
  show "ConvexPoly_new (pts c) (cp_radius c) = Some c"
    using rok area turns r by (simp add: ConvexPoly_new_def c dedup_ring_id adj ring_ok_def Let_def)
  show "set (pts c) \<subseteq> set ps" using D(1) by (simp add: c ring_def)
  show "cp_radius c = r" by (simp add: c)
qed


lemma normalize_hole_ok:
  assumes "normalize_hole (dedup_ring h) = Some k" and "list_all point_ok h" and "vec_fits h"
  shows "ring_ok k" and "signed_area2 k < 0" and "normalize_hole (dedup_ring k) = Some k"
    and "set k \<subseteq> set h"
proof -
  let ?d = "dedup_ring h"
  note D = dedup_ring_props [of h]
  have k: "k = (if signed_area2 ?d > 0 then rev ?d else ?d)" and len: "3 \<le> length ?d"
    and ne: "signed_area2 ?d \<noteq> 0"
    using assms(1) by (auto simp: normalize_hole_def Let_def split: if_splits)
  have ok: "list_all point_ok ?d" "vec_fits ?d"
    using D(1,2) assms(2,3) by (auto simp: list_all_iff vec_fits_def)
  show area: "signed_area2 k < 0"
    using ne signed_area2_rev [OF ok] by (auto simp: k)
  have adj: "distinct_adj k" "hd k \<noteq> last k"
    using D(3,4) len by (auto simp: k hd_rev last_rev)
  have lk: "length k = length ?d" by (simp add: k)
  then show "ring_ok k"
    using adj len ok(1) by (auto simp: ring_ok_def k)
  show "normalize_hole (dedup_ring k) = Some k"
    using area len lk by (simp add: normalize_hole_def dedup_ring_id adj Let_def)
  show "set k \<subseteq> set h" using D(1) by (simp add: k)
qed

lemma in_set_map_filter: "k \<in> set (List.map_filter f hs) \<longleftrightarrow> (\<exists>h \<in> set hs. f h = Some k)"
  by (induction hs) (auto simp: List.map_filter_simps split: option.splits)

lemma map_filter_fixed:
  "(\<And>k. k \<in> set ks \<Longrightarrow> f (g k) = Some k) \<Longrightarrow> List.map_filter f (map g ks) = ks"
  by (induction ks) (auto simp: List.map_filter_simps)

lemma Polygon_new_ok:
  assumes "Polygon_new ol hs = Some p" and "list_all point_ok ol" and "vec_fits ol"
    and "list_all (\<lambda>h. list_all point_ok h \<and> vec_fits h) hs"
  shows "polygon_ok p" and "Polygon_new (outline p) (holes p) = Some p"
proof -
  let ?d = "dedup_ring ol"
  define ring where "ring = (if signed_area2 ?d < 0 then rev ?d else ?d)"
  define ks where "ks = List.map_filter normalize_hole (map dedup_ring hs)"
  note D = dedup_ring_props [of ol]
  have p: "p = \<lparr>outline = ring, holes = ks\<rparr>" and len: "3 \<le> length ?d" and ne: "signed_area2 ?d \<noteq> 0"
    using assms(1) by (auto simp: Polygon_new_def Let_def ring_def ks_def split: if_splits)
  have ok: "list_all point_ok ?d" "vec_fits ?d"
    using D(1,2) assms(2,3) by (auto simp: list_all_iff vec_fits_def)
  have area: "0 < signed_area2 ring"
    using ne signed_area2_rev [OF ok] by (auto simp: ring_def)
  have adj: "distinct_adj ring" "hd ring \<noteq> last ring"
    using D(3,4) len by (auto simp: ring_def hd_rev last_rev)
  have "length ring = length ?d" by (simp add: ring_def)
  then have rok: "ring_ok ring"
    using adj len ok(1) by (auto simp: ring_ok_def ring_def)
  have hole: "ring_ok k \<and> signed_area2 k < 0 \<and> normalize_hole (dedup_ring k) = Some k"
    if kin: "k \<in> set ks" for k
  proof -
    obtain h where "h \<in> set hs" "normalize_hole (dedup_ring h) = Some k"
      using kin by (auto simp: ks_def in_set_map_filter)
    then show ?thesis using assms(4) normalize_hole_ok by (simp add: list_all_iff)
  qed
  show "polygon_ok p"
    using rok area hole by (simp add: polygon_ok_def p list_all_iff)
  have "List.map_filter normalize_hole (map dedup_ring ks) = ks"
    using hole by (intro map_filter_fixed) simp
  then show "Polygon_new (outline p) (holes p) = Some p"
    using rok area by (simp add: Polygon_new_def p dedup_ring_id adj ring_ok_def Let_def)
qed

section \<open>Properties\<close>

text \<open>C20. The convex-polygon constructor is a normaliser with a contract: what it accepts is a ring
  of at least three points with no repeated neighbour, counter-clockwise (positive doubled area),
  with no clockwise turn, made of the given points; and constructing the result again returns it
  unchanged, which is what lets deserialisation run the same checks.\<close>

theorem ConvexPoly_new_contract:
  assumes "ConvexPoly_new ps r = Some c" and "list_all point_ok ps" and "vec_fits ps" and "in_i32 r"
  shows "convex_poly_ok c \<and> set (pts c) \<subseteq> set ps \<and> cp_radius c = r \<and>
    ConvexPoly_new (pts c) (cp_radius c) = Some c"
  using ConvexPoly_new_ok [OF assms] by blast

theorem ConvexPoly_new_contract_witness:
  "convex_poly_ok \<lparr>pts = [Point_new 4 0, Point_new 4 4, Point_new 0 4, Point_new 0 0], cp_radius = 2\<rparr>"
proof -
  let ?ps = "[Point_new 0 0, Point_new 0 4, Point_new 0 4, Point_new 4 4, Point_new 4 0, Point_new 0 0]"
  have "ConvexPoly_new ?ps 2 = Some \<lparr>pts = [Point_new 4 0, Point_new 4 4, Point_new 0 4, Point_new 0 0], cp_radius = 2\<rparr>"
    by code_simp
  from ConvexPoly_new_contract [OF this] show ?thesis
    by (simp add: point_ok_def in_i32_def vec_fits_def)
qed

text \<open>C21. The polygon constructor normalises an outline with holes: an accepted polygon has a
  counter-clockwise outline and clockwise holes, each a ring of at least three points with no
  repeated neighbour; degenerate holes are dropped; and constructing the result again returns it
  unchanged.\<close>

theorem Polygon_new_contract:
  assumes "Polygon_new ol hs = Some p" and "list_all point_ok ol" and "vec_fits ol"
    and "list_all (\<lambda>h. list_all point_ok h \<and> vec_fits h) hs"
  shows "polygon_ok p \<and> Polygon_new (outline p) (holes p) = Some p"
  using Polygon_new_ok [OF assms] by blast

theorem Polygon_new_contract_witness:
  "polygon_ok \<lparr>outline = [Point_new 0 0, Point_new 9 0, Point_new 9 9],
     holes = [[Point_new 3 2, Point_new 3 1, Point_new 2 1]]\<rparr>"
proof -
  let ?ol = "[Point_new 0 0, Point_new 9 0, Point_new 9 9]"
  let ?hs = "[[Point_new 2 1, Point_new 3 1, Point_new 3 2], [Point_new 5 5, Point_new 6 6]]"
  have "Polygon_new ?ol ?hs = Some \<lparr>outline = ?ol, holes = [[Point_new 3 2, Point_new 3 1, Point_new 2 1]]\<rparr>"
    by code_simp
  from Polygon_new_contract [OF this] show ?thesis
    by (simp add: point_ok_def in_i32_def vec_fits_def)
qed

end
