(* ===== verification/Geom_Region.thy ===== *)
theory Geom_Region
  imports Geom_Plane Geom_Shape
begin

text \<open>
  Even-odd regions of the real plane, the specification of a polygon with holes: the points on an
  edge, and the points whose rightward ray hits an odd number of edges. The main facts are that the
  parity of the hits cannot change along a path that touches no edge (so every straight path into a
  region meets its boundary), that the distance to a region from outside is the distance to its
  boundary, and that two rings whose edges do not meet bound overlapping regions only if a vertex of
  one is in the other. No code is modelled here.
\<close>

type_synonym redge = "rpt \<times> rpt"

definition ray_hit :: "rpt \<Rightarrow> redge \<Rightarrow> bool" where
  "ray_hit x e \<longleftrightarrow> (case e of (a, b) \<Rightarrow>
     (snd a > snd x) \<noteq> (snd b > snd x) \<and>
     (if snd b > snd a then xorient a b x > 0 else xorient a b x < 0))"

definition boundary :: "redge list \<Rightarrow> rpt set" where
  "boundary es = (\<Union>(a, b) \<in> set es. segm a b)"

definition region :: "redge list \<Rightarrow> rpt set" where
  "region es = boundary es \<union> {x. odd (length (filter (ray_hit x) es))}"

definition balanced :: "redge list \<Rightarrow> bool" where
  "balanced es \<longleftrightarrow> (\<forall>f :: rpt \<Rightarrow> int. (\<Sum>e\<leftarrow>es. f (fst e)) = (\<Sum>e\<leftarrow>es. f (snd e)))"

section \<open>Moving a point without touching an edge\<close>

text \<open>Where an edge passes the height of a point, and on which side.\<close>

lemma ray_hit_foot:
  assumes "(snd a > snd x) \<noteq> (snd b > snd x)"
  shows "\<exists>z. z \<in> segm a b \<and> snd z = snd x \<and> (ray_hit x (a, b) \<longleftrightarrow> fst x < fst z)"
proof -
  have ne: "snd b - snd a \<noteq> 0" and btw: "min (snd a) (snd b) \<le> snd x" "snd x \<le> max (snd a) (snd b)"
    using assms by auto
  let ?s = "(snd x - snd a) / (snd b - snd a)"
  have s: "0 \<le> ?s" "?s \<le> 1" using ratio_unit [of "snd a" "snd b" "snd x"] ne btw by auto
  have y: "snd (lerp a b ?s) = snd x" using ne by (simp add: lerp_alt)
  have o: "xorient a b x = (snd b - snd a) * (fst (lerp a b ?s) - fst x)"
  proof -
    have "(snd b - snd a) * (?s * (fst b - fst a)) = (snd x - snd a) * (fst b - fst a)"
      using ne by simp
    then show ?thesis by (simp add: xorient_def lerp_alt algebra_simps)
  qed
  have "ray_hit x (a, b) \<longleftrightarrow> fst x < fst (lerp a b ?s)"
  proof (cases "snd b > snd a")
    case True
    then show ?thesis using assms by (simp add: ray_hit_def o zero_less_mult_iff)
  next
    case False
    then have "snd b < snd a" using ne by simp
    then show ?thesis using assms False by (simp add: ray_hit_def o mult_less_0_iff)
  qed
  then show ?thesis using segmI [OF s, of a b] y by metis
qed

lemma segm_trans:
  assumes "x \<in> segm a b" "y \<in> segm a b" "z \<in> segm x y"
  shows "z \<in> segm a b"
proof -
  obtain s u r where s: "0 \<le> s" "s \<le> 1" "x = lerp a b s" and u: "0 \<le> u" "u \<le> 1" "y = lerp a b u"
    and r: "0 \<le> r" "r \<le> 1" "z = lerp x y r" using assms by (auto simp: segm_def)
  have "z = lerp a b ((1 - r) * s + r * u)" by (simp add: r(3) s(3) u(3) lerp_lerp)
  moreover have "0 \<le> (1 - r) * s + r * u" "(1 - r) * s + r * u \<le> 1"
    using lerp_between [OF r(1,2), of s u] s u by linarith+
  ultimately show ?thesis using segmI by metis
qed

text \<open>Inside the strip between two heights, an edge that misses \<open>segm p q\<close> stays on one side.\<close>

lemma same_side:
  assumes pq: "snd p < snd q" and miss: "\<not> (\<exists>x. x \<in> segm a b \<and> x \<in> segm p q)"
    and x: "x \<in> segm a b" "snd p \<le> snd x" "snd x \<le> snd q"
    and y: "y \<in> segm a b" "snd p \<le> snd y" "snd y \<le> snd q"
  shows "xorient p q x < 0 \<longleftrightarrow> xorient p q y < 0"
proof (rule ccontr)
  assume H: "\<not> ?thesis"
  let ?f = "xorient p q x" and ?g = "xorient p q y"
  have d: "?f - ?g \<noteq> 0" using H by auto
  define r where "r = ?f / (?f - ?g)"
  have r: "0 \<le> r" "r \<le> 1" using H d unfolding r_def by (auto simp: divide_simps)
  define z where "z = lerp x y r"
  have o: "xorient p q z = 0"
    unfolding z_def xorient_lerp r_def using d by (simp add: divide_simps)
  have h: "snd p \<le> snd z" "snd z \<le> snd q"
    using lerp_between [OF r, of "snd x" "snd y"] x y by (auto simp: z_def lerp_def)
  obtain \<alpha> where \<alpha>: "z = lerp p q \<alpha>" using collinear_param [OF _ o] pq by auto
  have "0 \<le> \<alpha>" "\<alpha> \<le> 1"
    using lerp_unit [of "snd p" "snd q" \<alpha>] pq h by (auto simp: \<alpha> lerp_alt)
  then have "z \<in> segm p q" using \<alpha> segmI by metis
  moreover have "z \<in> segm a b" using segm_trans [OF x(1) y(1)] segmI [OF r] by (simp add: z_def)
  ultimately show False using miss by blast
qed

lemma side_at_start: "snd z = snd p \<Longrightarrow> snd p < snd q \<Longrightarrow> xorient p q z < 0 \<longleftrightarrow> fst p < fst z"
  by (simp add: xorient_def mult_less_0_iff zero_less_mult_iff)

lemma side_at_end:
  assumes "snd z = snd q" "snd p < snd q"
  shows "xorient p q z < 0 \<longleftrightarrow> fst q < fst z"
proof -
  have "xorient p q z = (snd q - snd p) * (fst q - fst z)"
    using assms(1) by (simp add: xorient_def algebra_simps)
  then show ?thesis using assms(2) by (simp add: mult_less_0_iff)
qed

text \<open>
  The bookkeeping of one edge: whether the ray from \<open>p\<close> and the ray from \<open>q\<close> hit it differ exactly
  when one of its ends, and not the other, is in the half-open strip to the right of \<open>segm p q\<close>.
\<close>

definition swept :: "rpt \<Rightarrow> rpt \<Rightarrow> rpt \<Rightarrow> bool" where
  "swept p q v \<longleftrightarrow> snd v > snd p \<and> \<not> snd v > snd q \<and> xorient p q v < 0"

lemma ray_hit_no: "(snd a > snd x) = (snd b > snd x) \<Longrightarrow> \<not> ray_hit x (a, b)"
  by (simp add: ray_hit_def)

lemma edge_balance_flat:
  assumes "snd p = snd q" and miss: "\<not> (\<exists>x. x \<in> segm a b \<and> x \<in> segm p q)"
  shows "ray_hit p (a, b) \<longleftrightarrow> ray_hit q (a, b)"
proof (cases "(snd a > snd p) \<noteq> (snd b > snd p)")
  case False
  then show ?thesis using ray_hit_no [of p a b] ray_hit_no [of q a b] assms(1) by simp
next
  case True
  obtain z where z: "z \<in> segm a b" "snd z = snd p" "ray_hit p (a, b) \<longleftrightarrow> fst p < fst z"
    using ray_hit_foot [OF True] by blast
  obtain w where w: "w \<in> segm a b" "snd w = snd q" "ray_hit q (a, b) \<longleftrightarrow> fst q < fst w"
    using ray_hit_foot [of q a b] True unfolding assms(1) by blast
  have "w = z"
  proof -
    obtain s u where su: "z = lerp a b s" "w = lerp a b u" using z(1) w(1) by (auto simp: segm_def)
    have "s * (snd b - snd a) = u * (snd b - snd a)" using z(2) w(2) assms(1) unfolding su lerp_alt snd_conv by linarith
    moreover have "snd b - snd a \<noteq> 0" using True by auto
    ultimately show ?thesis by (simp add: su)
  qed
  moreover have "z \<notin> segm p q" using miss z(1) by blast
  then have "\<not> xbox p q z" using z(2) assms(1) by (auto simp: segm_iff xorient_def)
  ultimately show ?thesis using z w assms(1) by (auto simp: xbox_def min_def max_def split: if_splits)
qed

lemma edge_balance_up:
  assumes pq: "snd p < snd q" and miss: "\<not> (\<exists>x. x \<in> segm a b \<and> x \<in> segm p q)"
  shows "(ray_hit p (a, b) \<longleftrightarrow> ray_hit q (a, b)) \<longleftrightarrow> (swept p q a \<longleftrightarrow> swept p q b)"
proof -
  note side = same_side [OF pq miss]
  have foot_p: "\<exists>z. z \<in> segm a b \<and> snd z = snd p \<and> (ray_hit p (a, b) \<longleftrightarrow> xorient p q z < 0)"
    if "(snd a > snd p) \<noteq> (snd b > snd p)"
    using ray_hit_foot [OF that] side_at_start [OF _ pq] by metis
  have foot_q: "\<exists>z. z \<in> segm a b \<and> snd z = snd q \<and> (ray_hit q (a, b) \<longleftrightarrow> xorient p q z < 0)"
    if "(snd a > snd q) \<noteq> (snd b > snd q)"
    using ray_hit_foot [OF that] side_at_end [OF _ pq] by metis
  have one: "ray_hit p (a, b) \<longleftrightarrow> xorient p q x < 0"
    if "(snd a > snd p) \<noteq> (snd b > snd p)" "x \<in> segm a b" "snd p \<le> snd x" "snd x \<le> snd q" for x
    using foot_p [OF that(1)] side [OF _ _ _ that(2-4)] pq by auto
  have two: "ray_hit q (a, b) \<longleftrightarrow> xorient p q x < 0"
    if "(snd a > snd q) \<noteq> (snd b > snd q)" "x \<in> segm a b" "snd p \<le> snd x" "snd x \<le> snd q" for x
    using foot_q [OF that(1)] side [OF _ _ _ that(2-4)] pq by auto
  consider (same) "(snd a > snd p) = (snd b > snd p)" "(snd a > snd q) = (snd b > snd q)"
    | (p) "(snd a > snd p) \<noteq> (snd b > snd p)" "(snd a > snd q) = (snd b > snd q)"
    | (q) "(snd a > snd p) = (snd b > snd p)" "(snd a > snd q) \<noteq> (snd b > snd q)"
    | (both) "(snd a > snd p) \<noteq> (snd b > snd p)" "(snd a > snd q) \<noteq> (snd b > snd q)" by blast
  then show ?thesis
  proof cases
    case same
    then show ?thesis
      using ray_hit_no [of p a b] ray_hit_no [of q a b] side [of a b] by (auto simp: swept_def)
  next
    case p
    then show ?thesis
      using ray_hit_no [of q a b] one [of a] one [of b] pq by (auto simp: swept_def)
  next
    case q
    then show ?thesis
      using ray_hit_no [of p a b] two [of a] two [of b] pq by (auto simp: swept_def)
  next
    case both
    obtain z where "z \<in> segm a b" "snd z = snd p" "ray_hit p (a, b) \<longleftrightarrow> xorient p q z < 0"
      using foot_p [OF both(1)] by blast
    then show ?thesis using two [OF both(2), of z] both pq by (auto simp: swept_def)
  qed
qed

lemma edge_balance:
  assumes "snd p \<le> snd q" and miss: "\<not> (\<exists>x. x \<in> segm a b \<and> x \<in> segm p q)"
  shows "(ray_hit p (a, b) \<longleftrightarrow> ray_hit q (a, b)) \<longleftrightarrow> (swept p q a \<longleftrightarrow> swept p q b)"
proof (cases "snd p = snd q")
  case True
  then show ?thesis using edge_balance_flat [OF True miss] by (auto simp: swept_def)
next
  case False
  then show ?thesis using edge_balance_up miss assms(1) by simp
qed

lemma parity_sum:
  assumes "\<And>e. e \<in> set es \<Longrightarrow> (P e \<longleftrightarrow> Q e) \<longleftrightarrow> (W (fst e) \<longleftrightarrow> W (snd e))"
  shows "even (int (length (filter P es)) + int (length (filter Q es))
    + (\<Sum>e\<leftarrow>es. of_bool (W (fst e))) + (\<Sum>e\<leftarrow>es. of_bool (W (snd e))))"
  using assms by (induction es) (auto simp: of_bool_def)

lemma parity_invariant:
  assumes "balanced es" and "segm p q \<inter> boundary es = {}"
  shows "odd (length (filter (ray_hit p) es)) \<longleftrightarrow> odd (length (filter (ray_hit q) es))"
proof -
  have up: "odd (length (filter (ray_hit p) es)) \<longleftrightarrow> odd (length (filter (ray_hit q) es))"
    if le: "snd p \<le> snd q" and no: "segm p q \<inter> boundary es = {}" for p q
  proof -
    have "(ray_hit p e \<longleftrightarrow> ray_hit q e) \<longleftrightarrow> (swept p q (fst e) \<longleftrightarrow> swept p q (snd e))" if e: "e \<in> set es" for e
    proof -
      have "segm (fst e) (snd e) \<subseteq> boundary es" using e by (cases e) (auto simp: boundary_def)
      then have "\<not> (\<exists>x. x \<in> segm (fst e) (snd e) \<and> x \<in> segm p q)" using no by blast
      from edge_balance [OF le this] show ?thesis by simp
    qed
    from parity_sum [of es "ray_hit p" "ray_hit q", OF this]
    show ?thesis using assms(1) [unfolded balanced_def, rule_format, of "\<lambda>v. of_bool (swept p q v)"] by auto
  qed
  show ?thesis
  proof (cases "snd p \<le> snd q")
    case True
    then show ?thesis using up assms(2) by blast
  next
    case False
    then show ?thesis using up [of q p] assms(2) by (simp add: segm_commute [of q p])
  qed
qed

text \<open>Every straight path from outside a region into it meets its boundary.\<close>

lemma region_path:
  assumes "balanced es" and "p \<notin> region es" and "q \<in> region es"
  shows "\<exists>z. z \<in> segm p q \<and> z \<in> boundary es"
proof (rule ccontr)
  assume "\<not> ?thesis"
  then have no: "segm p q \<inter> boundary es = {}" by blast
  then have "q \<notin> boundary es" using segm_ends(2) [of q p] by blast
  then show False using parity_invariant [OF assms(1) no] assms(2,3) by (auto simp: region_def)
qed

section \<open>Distance to a region\<close>

lemma boundary_region: "boundary es \<subseteq> region es"
  by (auto simp: region_def)

lemma boundary_nonempty: "es \<noteq> [] \<Longrightarrow> boundary es \<noteq> {}"
  by (cases es) (auto simp: boundary_def split: prod.splits)

lemma segm_closer: "z \<in> segm p q \<Longrightarrow> d2 p z \<le> d2 p q"
proof -
  assume "z \<in> segm p q"
  then obtain s where s: "0 \<le> s" "s \<le> 1" "z = lerp p q s" by (auto simp: segm_def)
  have "d2 p z = s\<^sup>2 * d2 p q"
    by (simp add: s(3) d2_def lerp_alt power2_eq_square algebra_simps)
  moreover have "s\<^sup>2 \<le> 1" using s by (simp add: power_le_one)
  ultimately show ?thesis by (simp add: mult_left_le_one_le)
qed

lemma sqdist_subset:
  assumes "B' \<subseteq> B" "A \<noteq> {}" "B' \<noteq> {}"
    and "\<And>p q. p \<in> A \<Longrightarrow> q \<in> B \<Longrightarrow> \<exists>z \<in> B'. \<exists>w \<in> A. d2 w z \<le> d2 p q"
  shows "sqdist A B = sqdist A B'"
proof (rule antisym)
  show "sqdist A B \<le> sqdist A B'"
    using assms(1-3) by (intro sqdist_ge) (auto intro: sqdist_le)
  show "sqdist A B' \<le> sqdist A B"
  proof (rule sqdist_ge)
    fix p q assume "p \<in> A" "q \<in> B"
    from assms(4) [OF this] obtain z w where "z \<in> B'" "w \<in> A" "d2 w z \<le> d2 p q" by blast
    then show "sqdist A B' \<le> d2 p q" using sqdist_le [of w A z B'] by linarith
  qed (use assms in auto)
qed

lemma sqdist_region_boundary:
  assumes "balanced es" and "es \<noteq> []" and "A \<noteq> {}" and "A \<inter> region es = {}"
  shows "sqdist A (region es) = sqdist A (boundary es)"
proof (rule sqdist_subset [OF boundary_region assms(3) boundary_nonempty [OF assms(2)]])
  fix p q assume p: "p \<in> A" and q: "q \<in> region es"
  then have "p \<notin> region es" using assms(4) by blast
  from region_path [OF assms(1) this q] obtain z where "z \<in> segm p q" "z \<in> boundary es" by blast
  then show "\<exists>z \<in> boundary es. \<exists>w \<in> A. d2 w z \<le> d2 p q" using segm_closer p by blast
qed

lemma sqdist_Un:
  assumes "A \<noteq> {}" "B \<noteq> {}" "C \<noteq> {}"
  shows "sqdist A (B \<union> C) = min (sqdist A B) (sqdist A C)"
proof (rule antisym)
  show "sqdist A (B \<union> C) \<le> min (sqdist A B) (sqdist A C)"
    using assms by (auto intro!: sqdist_ge sqdist_le)
  show "min (sqdist A B) (sqdist A C) \<le> sqdist A (B \<union> C)"
    using assms by (intro sqdist_ge) (auto simp: min_le_iff_disj intro: sqdist_le)
qed

lemma boundary_Cons: "boundary ((a, b) # es) = segm a b \<union> boundary es"
  by (simp add: boundary_def)

lemma boundary_Nil [simp]: "boundary [] = {}"
  by (simp add: boundary_def)

lemma segm_region_disjoint:
  assumes "balanced es" and "p \<notin> region es" and "segm p q \<inter> boundary es = {}"
  shows "segm p q \<inter> region es = {}"
proof (rule ccontr)
  assume "\<not> ?thesis"
  then obtain x where x: "x \<in> segm p q" "x \<in> region es" by blast
  from region_path [OF assms(1,2) x(2)] obtain z where "z \<in> segm p x" "z \<in> boundary es" by blast
  then show False using segm_trans [OF segm_ends(1) x(1)] assms(3) by blast
qed

section \<open>Two rings\<close>

lemma ring_sums:
  "(\<Sum>e\<leftarrow>ring_pairs r. f (fst e)) = (\<Sum>v\<leftarrow>r. f v)" "(\<Sum>e\<leftarrow>ring_pairs r. f (snd e)) = (\<Sum>v\<leftarrow>r. f v)"
  for f :: "'a \<Rightarrow> int"
proof -
  have "map fst (ring_pairs r) = r" "map snd (ring_pairs r) = rotate1 r"
    by (simp_all add: ring_pairs_zip)
  then show "(\<Sum>e\<leftarrow>ring_pairs r. f (fst e)) = (\<Sum>v\<leftarrow>r. f v)" "(\<Sum>e\<leftarrow>ring_pairs r. f (snd e)) = (\<Sum>v\<leftarrow>r. f v)"
    using sum_list_rotate1 [of f r] by (metis (no_types, lifting) map_map comp_def map_eq_conv)+
qed

lemma balanced_ring: "balanced (ring_pairs r)"
  by (simp add: balanced_def ring_sums)

lemma balanced_append: "balanced xs \<Longrightarrow> balanced ys \<Longrightarrow> balanced (xs @ ys)"
  by (simp add: balanced_def)

lemma balanced_concat: "(\<And>r. r \<in> set rs \<Longrightarrow> balanced (f r)) \<Longrightarrow> balanced (concat (map f rs))"
  by (induction rs) (auto simp: balanced_append balanced_def)

lemma chain_same:
  assumes "\<And>a b. (a, b) \<in> set (zip xs (tl xs)) \<Longrightarrow> P a \<longleftrightarrow> P b" and "x \<in> set xs"
  shows "P x \<longleftrightarrow> P (hd xs)"
  using assms
proof (induction xs)
  case (Cons a xs)
  show ?case
  proof (cases "xs = [] \<or> x = a")
    case False
    then obtain b ys where xs: "xs = b # ys" by (cases xs) auto
    have "P x \<longleftrightarrow> P (hd xs)" using Cons.prems False by (intro Cons.IH) (auto simp: xs)
    moreover have "P a \<longleftrightarrow> P b" by (intro Cons.prems(1)) (simp add: xs)
    ultimately show ?thesis by (simp add: xs)
  next
    case True
    then show ?thesis using Cons.prems(2) by auto
  qed
qed simp

lemma ring_same:
  assumes "\<And>a b. (a, b) \<in> set (ring_pairs r) \<Longrightarrow> P a \<longleftrightarrow> P b" and "x \<in> set r"
  shows "P x \<longleftrightarrow> P (r ! 0)"
proof -
  have "set (zip r (tl r)) \<subseteq> set (ring_pairs r)"
  proof
    fix p assume "p \<in> set (zip r (tl r))"
    then obtain i where i: "i < length (tl r)" "p = (r ! i, tl r ! i)" by (auto simp: set_zip)
    then have "r \<noteq> []" by auto
    then have "rotate1 r ! i = tl r ! i" using i(1) by (simp add: rotate1_hd_tl nth_append)
    then show "p \<in> set (ring_pairs r)" using i by (auto simp: ring_pairs_zip set_zip)
  qed
  then have "P x \<longleftrightarrow> P (hd r)" using chain_same [of r P x] assms by blast
  moreover have "r \<noteq> []" using assms(2) by auto
  ultimately show ?thesis by (simp add: hd_conv_nth)
qed

text \<open>A ring that does not meet the boundary of a region is inside it or outside it as a whole.\<close>

lemma ring_one_side:
  assumes "balanced es" and no: "boundary (ring_pairs r) \<inter> boundary es = {}"
    and w: "w \<in> boundary (ring_pairs r)" "w \<in> region es"
  shows "r ! 0 \<in> region es"
proof -
  have move: "y \<in> region es" if "x \<in> region es" "segm x y \<inter> boundary es = {}" for x y
    using region_path [OF assms(1) _ that(1), of y] that(2) segm_commute [of x y] by blast
  obtain a b where e: "(a, b) \<in> set (ring_pairs r)" and wab: "w \<in> segm a b"
    using w(1) by (auto simp: boundary_def)
  have edge: "segm a b \<inter> boundary es = {}" if "(a, b) \<in> set (ring_pairs r)" for a b
    using that no by (auto simp: boundary_def)
  have "a \<in> region es"
    using move [OF w(2), of a] edge [OF e] segm_trans [OF wab segm_ends(1)] by blast
  moreover have "a \<in> set r"
    using e by (auto simp: ring_pairs_zip dest: set_zip_leftD)
  moreover have "x \<in> region es \<longleftrightarrow> y \<in> region es" if "(x, y) \<in> set (ring_pairs r)" for x y
    using move [of x y] move [of y x] edge [OF that] segm_commute [of x y] by blast
  ultimately show ?thesis using ring_same [of r "\<lambda>v. v \<in> region es" a] by blast
qed

lemma above_not_in_region:
  assumes "\<And>a b. (a, b) \<in> set es \<Longrightarrow> snd a < snd y \<and> snd b < snd y"
  shows "y \<notin> region es"
proof -
  have "y \<notin> boundary es"
    using assms by (force simp: boundary_def segm_iff xbox_def)
  moreover have "filter (ray_hit y) es = []"
    using assms by (fastforce simp: filter_empty_conv ray_hit_def)
  ultimately show ?thesis by (simp add: region_def)
qed

lemma far_point: "\<exists>y. \<forall>(a, b) \<in> set es. snd a < snd y \<and> snd b < snd (y :: rpt)"
proof -
  let ?S = "insert 0 (snd ` fst ` set es \<union> snd ` snd ` set es)"
  define M where "M = Max ?S"
  have ge: "h \<le> M" if "h \<in> ?S" for h unfolding M_def by (rule Max_ge) (use that in auto)
  have "snd a < M + 1 \<and> snd b < M + 1" if "(a, b) \<in> set es" for a b
  proof -
    have "snd a \<in> ?S" "snd b \<in> ?S" using that by (force simp: image_iff)+
    note this [THEN ge]
    then show ?thesis by simp
  qed
  then show ?thesis by (intro exI [of _ "(0, M + 1)"]) auto
qed

lemma closed_hits: "closed {s. lerp x y s \<in> segm a b}"
proof -
  have "{s. lerp x y s \<in> segm a b} = {s. xorient a b (lerp x y s) = 0} \<inter>
    ({s. min (fst a) (fst b) \<le> fst (lerp x y s)} \<inter> {s. fst (lerp x y s) \<le> max (fst a) (fst b)} \<inter>
    {s. min (snd a) (snd b) \<le> snd (lerp x y s)} \<inter> {s. snd (lerp x y s) \<le> max (snd a) (snd b)})"
    by (auto simp: segm_iff xbox_def)
  then show ?thesis
    by (simp only:) (intro closed_Int closed_Collect_eq closed_Collect_le; simp add: xorient_def lerp_def; intro continuous_intros)
qed

lemma first_hit:
  assumes "w \<in> segm x y" "w \<in> boundary es"
  shows "\<exists>s. 0 \<le> s \<and> s \<le> 1 \<and> lerp x y s \<in> boundary es \<and> (\<forall>r. 0 \<le> r \<and> r < s \<longrightarrow> lerp x y r \<notin> boundary es)"
proof -
  let ?H = "{0..1} \<inter> {s. lerp x y s \<in> boundary es}"
  have "{s. lerp x y s \<in> boundary es} = (\<Union>(a, b) \<in> set es. {s. lerp x y s \<in> segm a b})"
    by (auto simp: boundary_def)
  then have "compact ?H"
    by (simp only:) (intro compact_Int_closed closed_UN compact_Icc; auto intro: closed_hits)
  moreover have "?H \<noteq> {}" using assms by (auto simp: segm_def)
  ultimately obtain s where "s \<in> ?H" "\<forall>r \<in> ?H. s \<le> r" using compact_attains_inf by blast
  then show ?thesis by (intro exI [of _ s]) force
qed

lemma stays_inside:
  assumes "balanced es" "x \<in> region es" "0 \<le> v" and no: "\<And>r. 0 \<le> r \<Longrightarrow> r \<le> v \<Longrightarrow> lerp x y r \<notin> boundary es"
  shows "lerp x y v \<in> region es"
proof (rule ccontr)
  assume "lerp x y v \<notin> region es"
  from region_path [OF assms(1) this assms(2)] obtain z where z: "z \<in> segm x (lerp x y v)" "z \<in> boundary es"
    using segm_commute by blast
  then obtain r where r: "0 \<le> r" "r \<le> 1" "z = lerp x (lerp x y v) r" by (auto simp: segm_def)
  have "z = lerp x y (r * v)" using lerp_lerp [of x y 0 v r] by (simp add: r(3))
  moreover have "0 \<le> r * v" "r * v \<le> v" using r(1,2) assms(3) by (auto simp: mult_left_le_one_le)
  ultimately show False using no z(2) by blast
qed

lemma rings_disjoint:
  assumes no: "boundary (ring_pairs ra) \<inter> boundary (ring_pairs rb) = {}"
    and va: "ra ! 0 \<notin> region (ring_pairs rb)" and vb: "rb ! 0 \<notin> region (ring_pairs ra)"
  shows "region (ring_pairs ra) \<inter> region (ring_pairs rb) = {}"
proof (rule ccontr)
  let ?A = "ring_pairs ra" and ?B = "ring_pairs rb"
  assume "\<not> ?thesis"
  then obtain x where x: "x \<in> region ?A" "x \<in> region ?B" by blast
  obtain y where "\<forall>(a, b) \<in> set (?A @ ?B). snd a < snd y \<and> snd b < snd (y :: rpt)" using far_point by blast
  then have y: "y \<notin> region ?A" "y \<notin> region ?B" by (auto intro!: above_not_in_region)
  have hit: "\<exists>w. w \<in> segm x y \<and> w \<in> boundary es" if "balanced es" "x \<in> region es" "y \<notin> region es" for es
    using region_path [OF that(1,3,2)] segm_commute [of x y] by blast
  obtain s where s: "0 \<le> s" "s \<le> 1" "lerp x y s \<in> boundary ?A" "\<And>r. 0 \<le> r \<and> r < s \<Longrightarrow> lerp x y r \<notin> boundary ?A"
    using hit [OF balanced_ring x(1) y(1)] first_hit by meson
  obtain u where u: "0 \<le> u" "u \<le> 1" "lerp x y u \<in> boundary ?B" "\<And>r. 0 \<le> r \<and> r < u \<Longrightarrow> lerp x y r \<notin> boundary ?B"
    using hit [OF balanced_ring x(2) y(2)] first_hit by meson
  have "s \<noteq> u" using s(3) u(3) no by blast
  then consider "s < u" | "u < s" by linarith
  then show False
  proof cases
    case 1
    then have "lerp x y s \<in> region ?B" using stays_inside [OF balanced_ring x(2) s(1), of y] u(4) by auto
    then show False using ring_one_side [OF balanced_ring no s(3)] va by blast
  next
    case 2
    then have "lerp x y u \<in> region ?A" using stays_inside [OF balanced_ring x(1) u(1), of y] s(4) by auto
    then show False using ring_one_side [OF balanced_ring _ u(3)] no vb by blast
  qed
qed

text \<open>A region bounded by one ring that meets no edge of another region, and whose first vertex is not
  in it, is disjoint from it; the other region may have any number of rings.\<close>

lemma ring_region_disjoint:
  assumes bal: "balanced es" and no: "region (ring_pairs rb) \<inter> boundary es = {}" and v: "rb ! 0 \<notin> region es"
  shows "region (ring_pairs rb) \<inter> region es = {}"
proof (rule ccontr)
  let ?B = "ring_pairs rb"
  assume "\<not> ?thesis"
  then obtain x where x: "x \<in> region ?B" "x \<in> region es" by blast
  obtain y where "\<forall>(a, b) \<in> set ?B. snd a < snd y \<and> snd b < snd (y :: rpt)" using far_point by blast
  then have y: "y \<notin> region ?B" by (auto intro!: above_not_in_region)
  have "\<exists>w. w \<in> segm x y \<and> w \<in> boundary ?B"
    using region_path [OF balanced_ring y x(1)] segm_commute [of x y] by blast
  then obtain s where s: "0 \<le> s" "s \<le> 1" "lerp x y s \<in> boundary ?B" "\<And>r. 0 \<le> r \<and> r < s \<Longrightarrow> lerp x y r \<notin> boundary ?B"
    using first_hit by meson
  have "lerp x y r \<notin> boundary es" if r: "0 \<le> r" "r \<le> s" for r
  proof (cases "r = s")
    case True
    then show ?thesis using s(3) boundary_region no by blast
  next
    case False
    then have "lerp x y r \<in> region ?B"
      using r by (intro stays_inside [OF balanced_ring x(1)]) (auto intro!: s(4))
    then show ?thesis using no by blast
  qed
  then have "lerp x y s \<in> region es" by (intro stays_inside [OF bal x(2) s(1)]) auto
  then show False using ring_one_side [OF bal _ s(3)] no boundary_region [of ?B] v by blast
qed

lemma sqdist_regions:
  assumes "balanced es" "balanced fs" "es \<noteq> []" "fs \<noteq> []" and disj: "region es \<inter> region fs = {}"
  shows "sqdist (region es) (region fs) = sqdist (boundary es) (boundary fs)"
proof -
  have ne: "region es \<noteq> {}" "boundary fs \<noteq> {}"
    using boundary_nonempty boundary_region assms(3,4) by blast+
  have "sqdist (region es) (region fs) = sqdist (region es) (boundary fs)"
    by (rule sqdist_region_boundary [OF assms(2,4) ne(1) disj])
  also have "\<dots> = sqdist (boundary fs) (boundary es)"
    using sqdist_region_boundary [OF assms(1,3) ne(2)] disj boundary_region [of fs]
    by (metis (no_types, lifting) disjoint_iff sqdist_commute subsetD)
  finally show ?thesis by (simp add: sqdist_commute)
qed

lemma region_in_box:
  assumes bal: "balanced es"
    and box: "\<And>a b. (a, b) \<in> set es \<Longrightarrow> x0 \<le> fst a \<and> fst a \<le> x1 \<and> y0 \<le> snd a \<and> snd a \<le> y1 \<and>
      x0 \<le> fst b \<and> fst b \<le> x1 \<and> y0 \<le> snd b \<and> snd b \<le> y1"
    and p: "p \<in> region es"
  shows "x0 \<le> fst p \<and> fst p \<le> x1 \<and> y0 \<le> snd p \<and> snd p \<le> y1"
proof -
  have bd: "x0 \<le> fst z \<and> fst z \<le> x1 \<and> y0 \<le> snd z \<and> snd z \<le> y1" if "z \<in> boundary es" for z
    using that box by (force simp: boundary_def segm_iff xbox_def min_def max_def split: if_splits)
  show ?thesis
  proof (cases "p \<in> boundary es")
    case False
    then have "odd (length (filter (ray_hit p) es))" using p by (simp add: region_def)
    then have "filter (ray_hit p) es \<noteq> []" by (intro notI) simp
    then obtain a b where ab: "(a, b) \<in> set es" "ray_hit p (a, b)" by (auto simp: filter_empty_conv)
    then have h: "(snd a > snd p) \<noteq> (snd b > snd p)" by (simp add: ray_hit_def)
    obtain z where z: "z \<in> segm a b" "fst p < fst z" using ray_hit_foot [OF h] ab(2) by blast
    then have "z \<in> boundary es" using ab(1) by (auto simp: boundary_def)
    then have up: "fst p \<le> x1" "y0 \<le> snd p" "snd p \<le> y1" using bd [of z] z(2) h box [OF ab(1)] by auto
    have "x0 \<le> fst p"
    proof (rule ccontr)
      assume left: "\<not> x0 \<le> fst p"
      let ?q = "(fst p, y1 + 1)"
      have "?q \<notin> region es" by (rule above_not_in_region) (use box in force)
      from region_path [OF bal this p] obtain w where w: "w \<in> segm ?q p" "w \<in> boundary es" by blast
      from w(1) have "fst w = fst p" by (auto simp: segm_def lerp_def algebra_simps)
      then show False using bd [OF w(2)] left by simp
    qed
    with up show ?thesis by simp
  qed (rule bd)
qed

end
