(* ===== verification/Geom_Kernel.thy ===== *)
theory Geom_Kernel
  imports Geom_Shape
begin

text \<open>
  \<open>crates/konnect-geom/src/predicates.rs\<close>, the distance kernel: every comparison the router makes
  between two shapes. Coordinates are doubled (\<open>p2\<close>), products are \<open>i128\<close>, and the one comparison
  of products of squares is done on \<open>(high, low)\<close> pairs of \<open>128 word\<close>s. The widths are written out
  in the definitions; the lemmas at the end show that on \<open>i32\<close> inputs none of them truncates, so
  that each primitive equals its formula over the reals (\<open>pt\<close> reads a doubled point there).
\<close>

unbundle bit_operations_syntax

section \<open>256-bit products\<close>

definition mask64 :: "128 word" where
  "mask64 = 0xFFFFFFFFFFFFFFFF"

definition mul_wide :: "128 word \<Rightarrow> 128 word \<Rightarrow> 128 word \<times> 128 word" where
  "mul_wide a b =
     (let a0 = a AND mask64; a1 = drop_bit 64 a;
          b0 = b AND mask64; b1 = drop_bit 64 b;
          p00 = a0 * b0; p01 = a0 * b1; p10 = a1 * b0; p11 = a1 * b1;
          mid = drop_bit 64 p00 + (p01 AND mask64) + (p10 AND mask64);
          lo = (p00 AND mask64) OR push_bit 64 (mid AND mask64);
          hi = p11 + drop_bit 64 p01 + drop_bit 64 p10 + drop_bit 64 mid
      in (hi, lo))"

definition cmp_products :: "128 word \<Rightarrow> 128 word \<Rightarrow> 128 word \<Rightarrow> 128 word \<Rightarrow> ordering" where
  "cmp_products a b c d = cmp (mul_wide a b) (mul_wide c d)"

section \<open>Doubled coordinates\<close>

record p2 =
  qx :: int
  qy :: int

definition dbl :: "point \<Rightarrow> p2" where
  "dbl p = \<lparr>qx = i64 (2 * px p), qy = i64 (2 * py p)\<rparr>"

definition T_CAP :: int where
  "T_CAP = 2 ^ 40"

datatype core = Core_Point p2 | Core_Seg p2 p2 | Core_Region "ring list"

fun core_of :: "shape \<Rightarrow> core" where
  "core_of (Segment s) = Core_Seg (dbl (seg_a s)) (dbl (seg_b s))"
| "core_of (Circle c) = Core_Point (dbl (center c))"
| "core_of (ConvexPoly p) = Core_Region [pts p]"
| "core_of (Polygon p) = Core_Region (Polygon_rings p)"

definition with_core :: "shape \<Rightarrow> (core \<Rightarrow> 'r) \<Rightarrow> 'r" where
  "with_core s f = f (core_of s)"

definition edges :: "ring list \<Rightarrow> (p2 \<times> p2) list" where
  "edges rings = concat (map (\<lambda>ring. map (\<lambda>(a, b). (dbl a, dbl b)) (ring_pairs ring)) rings)"

text \<open>The smallest of several comparisons against one threshold; stops at the first \<open>Less\<close>.\<close>

fun min_cmp_from :: "ordering \<Rightarrow> ordering list \<Rightarrow> ordering" where
  "min_cmp_from best [] = best"
| "min_cmp_from best (o1 # iter) = (if o1 = Less then o1 else min_cmp_from (min best o1) iter)"

definition min_cmp :: "ordering list \<Rightarrow> ordering" where
  "min_cmp iter = min_cmp_from Greater iter"

definition zero_cmp :: "int \<Rightarrow> ordering" where
  "zero_cmp t = cmp 0 t"

definition dist2 :: "p2 \<Rightarrow> p2 \<Rightarrow> 128 word" where
  "dist2 a b =
     (let dx = i64 (qx b - qx a); dy = i64 (qy b - qy a)
      in word_of_int (i128 (i128 (dx * dx) + i128 (dy * dy))))"

definition cmp_dist2 :: "128 word \<Rightarrow> int \<Rightarrow> ordering" where
  "cmp_dist2 d2 t = (if t \<ge> T_CAP then Less else cmp d2 (word_of_int (i128 (t * t))))"

definition orient :: "p2 \<Rightarrow> p2 \<Rightarrow> p2 \<Rightarrow> int" where
  "orient a b c =
     (let abx = i64 (qx b - qx a); aby = i64 (qy b - qy a);
          acx = i64 (qx c - qx a); acy = i64 (qy c - qy a)
      in i128 (i128 (abx * acy) - i128 (aby * acx)))"

definition within_box :: "p2 \<Rightarrow> p2 \<Rightarrow> p2 \<Rightarrow> bool" where
  "within_box a b p \<longleftrightarrow>
     min (qx a) (qx b) \<le> qx p \<and> qx p \<le> max (qx a) (qx b) \<and>
     min (qy a) (qy b) \<le> qy p \<and> qy p \<le> max (qy a) (qy b)"

definition seg_intersect :: "p2 \<Rightarrow> p2 \<Rightarrow> p2 \<Rightarrow> p2 \<Rightarrow> bool" where
  "seg_intersect a b c d =
     (let d1 = sgn (orient c d a); d2 = sgn (orient c d b);
          d3 = sgn (orient a b c); d4 = sgn (orient a b d)
      in if d1 * d2 < 0 \<and> d3 * d4 < 0 then True
         else (d1 = 0 \<and> within_box c d a) \<or> (d2 = 0 \<and> within_box c d b) \<or>
              (d3 = 0 \<and> within_box a b c) \<or> (d4 = 0 \<and> within_box a b d))"

definition point_seg_cmp :: "p2 \<Rightarrow> p2 \<Rightarrow> p2 \<Rightarrow> int \<Rightarrow> ordering" where
  "point_seg_cmp p a b t =
     (if t \<ge> T_CAP then Less
      else let abx = i64 (qx b - qx a); aby = i64 (qy b - qy a);
               apx = i64 (qx p - qx a); apy = i64 (qy p - qy a);
               l2 = i128 (i128 (abx * abx) + i128 (aby * aby));
               dot = i128 (i128 (apx * abx) + i128 (apy * aby))
        in if l2 = 0 \<or> dot \<le> 0 then cmp_dist2 (dist2 a p) t
           else if dot \<ge> l2 then cmp_dist2 (dist2 b p) t
           else let cross = word_of_int \<bar>i128 (i128 (abx * apy) - i128 (aby * apx))\<bar>;
                    tt = word_of_int (i128 (t * t))
             in cmp_products cross cross tt (word_of_int l2))"

definition seg_seg_cmp :: "p2 \<Rightarrow> p2 \<Rightarrow> p2 \<Rightarrow> p2 \<Rightarrow> int \<Rightarrow> ordering" where
  "seg_seg_cmp a b c d t =
     (if seg_intersect a b c d then zero_cmp t
      else min_cmp [point_seg_cmp a c d t, point_seg_cmp b c d t,
                    point_seg_cmp c a b t, point_seg_cmp d a b t])"

section \<open>Containment in rings\<close>

datatype containment = Inside | Boundary | Outside

fun point_in_edges :: "p2 \<Rightarrow> bool \<Rightarrow> (p2 \<times> p2) list \<Rightarrow> containment" where
  "point_in_edges p inside [] = (if inside then Inside else Outside)"
| "point_in_edges p inside ((a, b) # es) =
     (let o1 = orient a b p
      in if o1 = 0 \<and> within_box a b p then Boundary
         else if (qy a > qy p) \<noteq> (qy b > qy p)
              then let left = (if qy b > qy a then o1 > 0 else o1 < 0)
                   in point_in_edges p (if left then \<not> inside else inside) es
              else point_in_edges p inside es)"

definition point_in_rings :: "p2 \<Rightarrow> ring list \<Rightarrow> containment" where
  "point_in_rings p rings = point_in_edges p False (edges rings)"

section \<open>Cores\<close>

definition point_region_cmp :: "p2 \<Rightarrow> ring list \<Rightarrow> int \<Rightarrow> ordering" where
  "point_region_cmp p r t =
     (if point_in_rings p r \<noteq> Outside then zero_cmp t
      else min_cmp (map (\<lambda>(c, d). point_seg_cmp p c d t) (edges r)))"

definition seg_region_cmp :: "p2 \<Rightarrow> p2 \<Rightarrow> ring list \<Rightarrow> int \<Rightarrow> ordering" where
  "seg_region_cmp s0 s1 r t =
     (if point_in_rings s0 r \<noteq> Outside \<or> point_in_rings s1 r \<noteq> Outside \<or>
         list_ex (\<lambda>(c, d). seg_intersect s0 s1 c d) (edges r)
      then zero_cmp t
      else min_cmp (map (\<lambda>(c, d). seg_seg_cmp s0 s1 c d t) (edges r)))"

definition region_region_cmp :: "ring list \<Rightarrow> ring list \<Rightarrow> int \<Rightarrow> ordering" where
  "region_region_cmp ra rb t =
     (let crossing =
            list_ex (\<lambda>(a0, a1). list_ex (\<lambda>(b0, b1). seg_intersect a0 a1 b0 b1) (edges rb)) (edges ra)
      in if crossing \<or> point_in_rings (dbl (ra ! 0 ! 0)) rb \<noteq> Outside \<or>
            point_in_rings (dbl (rb ! 0 ! 0)) ra \<noteq> Outside
         then zero_cmp t
         else min_cmp (map (\<lambda>(a0, a1). min_cmp (map (\<lambda>(b0, b1). seg_seg_cmp a0 a1 b0 b1 t) (edges rb)))
                (edges ra)))"

fun core_cmp :: "core \<Rightarrow> core \<Rightarrow> int \<Rightarrow> ordering" where
  "core_cmp (Core_Point p) (Core_Point q) t = cmp_dist2 (dist2 p q) t"
| "core_cmp (Core_Point p) (Core_Seg c d) t = point_seg_cmp p c d t"
| "core_cmp (Core_Seg c d) (Core_Point p) t = point_seg_cmp p c d t"
| "core_cmp (Core_Seg a0 a1) (Core_Seg b0 b1) t = seg_seg_cmp a0 a1 b0 b1 t"
| "core_cmp (Core_Point p) (Core_Region r) t = point_region_cmp p r t"
| "core_cmp (Core_Region r) (Core_Point p) t = point_region_cmp p r t"
| "core_cmp (Core_Seg s0 s1) (Core_Region r) t = seg_region_cmp s0 s1 r t"
| "core_cmp (Core_Region r) (Core_Seg s0 s1) t = seg_region_cmp s0 s1 r t"
| "core_cmp (Core_Region ra) (Core_Region rb) t = region_region_cmp ra rb t"

section \<open>Public predicates\<close>

definition point_segment_distance_cmp :: "point \<Rightarrow> point \<Rightarrow> point \<Rightarrow> int \<Rightarrow> ordering" where
  "point_segment_distance_cmp p a b distance =
     (let t = i128 (2 * distance)
      in if t < 0 then Greater else point_seg_cmp (dbl p) (dbl a) (dbl b) t)"

definition segment_segment_distance_cmp ::
    "point \<Rightarrow> point \<Rightarrow> point \<Rightarrow> point \<Rightarrow> int \<Rightarrow> ordering" where
  "segment_segment_distance_cmp a b c d distance =
     (let t = i128 (2 * distance)
      in if t < 0 then Greater else seg_seg_cmp (dbl a) (dbl b) (dbl c) (dbl d) t)"

definition segment_polygon_distance_cmp :: "point \<Rightarrow> point \<Rightarrow> polygon \<Rightarrow> int \<Rightarrow> ordering" where
  "segment_polygon_distance_cmp a b poly distance =
     (let t = i128 (2 * distance)
      in if t < 0 then Greater
         else core_cmp (Core_Seg (dbl a) (dbl b)) (Core_Region (Polygon_rings poly)) t)"

definition segments_intersect :: "point \<Rightarrow> point \<Rightarrow> point \<Rightarrow> point \<Rightarrow> bool" where
  "segments_intersect a b c d = seg_intersect (dbl a) (dbl b) (dbl c) (dbl d)"

definition point_in_polygon :: "point \<Rightarrow> polygon \<Rightarrow> containment" where
  "point_in_polygon p poly = point_in_rings (dbl p) (Polygon_rings poly)"

definition gap_cmp :: "shape \<Rightarrow> shape \<Rightarrow> int \<Rightarrow> ordering" where
  "gap_cmp a b clearance =
     (let t = i128 (i128 (i128 (2 * clearance) + Shape_sweep2 a) + Shape_sweep2 b)
      in if t < 0 then Greater
         else with_core a (\<lambda>ca. with_core b (\<lambda>cb. core_cmp ca cb t)))"

definition has_clearance :: "shape \<Rightarrow> shape \<Rightarrow> int \<Rightarrow> bool" where
  "has_clearance a b clearance \<longleftrightarrow> gap_cmp a b clearance \<noteq> Less"

definition touches :: "shape \<Rightarrow> shape \<Rightarrow> bool" where
  "touches a b \<longleftrightarrow> gap_cmp a b 0 \<noteq> Greater"

definition point_shape_distance_cmp :: "point \<Rightarrow> int \<Rightarrow> shape \<Rightarrow> int \<Rightarrow> ordering" where
  "point_shape_distance_cmp p width shape clearance =
     (if clearance < 0 \<or> width < 0 then Greater
      else let t = i128 (i128 (i128 (2 * clearance) + width) + Shape_sweep2 shape)
        in with_core shape (\<lambda>c. core_cmp (Core_Point (dbl p)) c t))"

definition segment_shape_distance_cmp ::
    "point \<Rightarrow> point \<Rightarrow> int \<Rightarrow> shape \<Rightarrow> int \<Rightarrow> ordering" where
  "segment_shape_distance_cmp a b width shape clearance =
     (if clearance < 0 \<or> width < 0 then Greater
      else let t = i128 (i128 (i128 (2 * clearance) + width) + Shape_sweep2 shape)
        in with_core shape (\<lambda>c. core_cmp (Core_Seg (dbl a) (dbl b)) c t))"

section \<open>The 256-bit product is exact\<close>

lemma mask64_and: "x AND mask64 = take_bit 64 x" for x :: "128 word"
proof -
  have "mask64 = mask 64" by (simp add: mask64_def mask_numeral)
  then show ?thesis by (simp add: take_bit_eq_mask)
qed

lemma uint_low64: "uint (x AND mask64) = uint x mod 2 ^ 64" for x :: "128 word"
  by (simp only: mask64_and unsigned_take_bit_eq take_bit_eq_mod [of 64 "uint x"])

lemma uint_high64: "uint (drop_bit 64 x) = uint x div 2 ^ 64" for x :: "128 word"
  by (simp add: drop_bit_eq_div uint_div)

lemma uint128_bound: "0 \<le> uint x" "uint x < 2 ^ 128" for x :: "128 word"
  using uint_lt2p [of x] by simp_all

lemma uint128_mult:
  "uint x < 2 ^ 64 \<Longrightarrow> uint y < 2 ^ 64 \<Longrightarrow> uint (x * y) = uint x * uint y" for x y :: "128 word"
proof -
  assume "uint x < 2 ^ 64" "uint y < 2 ^ 64"
  then have "uint x * uint y \<le> (2 ^ 64 - 1) * (2 ^ 64 - 1)"
    by (intro mult_mono) auto
  then have "uint x * uint y < 2 ^ 128" by simp
  then show ?thesis using uint_mult_lem [of x y] by simp
qed

lemma uint128_of_int: "0 \<le> k \<Longrightarrow> k < 2 ^ 128 \<Longrightarrow> uint (word_of_int k :: 128 word) = k"
  by (simp only: uint_word_of_int_eq) (simp add: take_bit_int_eq_self)

lemma uint128_add: "uint x + uint y < 2 ^ 128 \<Longrightarrow> uint (x + y) = uint x + uint y" for x y :: "128 word"
  using uint_add_lem [of x y] by simp

lemma uint128_add_eq:
  "uint x = X \<Longrightarrow> uint y = Y \<Longrightarrow> X + Y < 2 ^ 128 \<Longrightarrow> uint (x + y) = X + Y" for x y :: "128 word"
  using uint128_add by blast

lemma uint_join64:
  fixes x y :: "128 word"
  shows "uint ((x AND mask64) OR push_bit 64 (y AND mask64)) =
    uint x mod 2 ^ 64 + 2 ^ 64 * (uint y mod 2 ^ 64)"
proof -
  have "(x AND mask64) OR push_bit 64 (y AND mask64) = (x AND mask64) + push_bit 64 (y AND mask64)"
    by (rule disjunctive_add_eq_or [symmetric])
       (auto simp: mask64_and bit_eq_iff bit_simps)
  moreover have p: "uint (push_bit 64 (y AND mask64)) = 2 ^ 64 * (uint y mod 2 ^ 64)"
  proof -
    have "2 ^ 64 * (uint y mod 2 ^ 64) < 2 ^ 128"
      using pos_mod_bound [of "2 ^ 64" "uint y"] by simp
    then show ?thesis
      using uint_mult_lem [of "y AND mask64" "2 ^ 64"]
      by (simp add: uint_low64 push_bit_eq_mult mult.commute)
  qed
  ultimately show ?thesis
    using pos_mod_bound [of "2 ^ 64" "uint x"] pos_mod_bound [of "2 ^ 64" "uint y"]
    by (simp add: uint128_add uint_low64)
qed

lemma mul_wide_exact:
  "uint (fst (mul_wide a b)) * 2 ^ 128 + uint (snd (mul_wide a b)) = uint a * uint b"
proof -
  define A0 A1 B0 B1 where "A0 = uint a mod 2 ^ 64" and "A1 = uint a div 2 ^ 64"
    and "B0 = uint b mod 2 ^ 64" and "B1 = uint b div 2 ^ 64"
  note D = A0_def A1_def B0_def B1_def
  have r: "0 \<le> A0" "A0 < 2 ^ 64" "0 \<le> A1" "A1 < 2 ^ 64" "0 \<le> B0" "B0 < 2 ^ 64" "0 \<le> B1" "B1 < 2 ^ 64"
    using uint128_bound [of a] uint128_bound [of b] by (auto simp: D pos_imp_zdiv_nonneg_iff)
  have ab: "uint a = A1 * 2 ^ 64 + A0" "uint b = B1 * 2 ^ 64 + B0"
    by (simp_all add: D)
  let ?m = "2 ^ 64 :: int"
  define P00 P01 P10 P11 where "P00 = A0 * B0" and "P01 = A0 * B1" and "P10 = A1 * B0" and "P11 = A1 * B1"
  note P = P00_def P01_def P10_def P11_def
  have le: "x * y \<le> (?m - 1) * (?m - 1)" "0 \<le> x * y"
    if "0 \<le> x" "x < ?m" "0 \<le> y" "y < ?m" for x y
    using that mult_mono [of x "?m - 1" y "?m - 1"] by simp_all
  have bnd: "0 \<le> P00" "P00 \<le> (?m - 1) * (?m - 1)" "0 \<le> P01" "P01 \<le> (?m - 1) * (?m - 1)"
    "0 \<le> P10" "P10 \<le> (?m - 1) * (?m - 1)" "0 \<le> P11" "P11 \<le> (?m - 1) * (?m - 1)"
    unfolding P by (intro le r)+
  have dv: "0 \<le> x div ?m" "x div ?m \<le> ?m - 2" if "0 \<le> x" "x \<le> (?m - 1) * (?m - 1)" for x
    using that by (auto simp: pos_imp_zdiv_nonneg_iff)
  define Q00 Q01 Q10 R00 R01 R10 where "Q00 = P00 div ?m" and "Q01 = P01 div ?m" and "Q10 = P10 div ?m"
    and "R00 = P00 mod ?m" and "R01 = P01 mod ?m" and "R10 = P10 mod ?m"
  note QR = Q00_def Q01_def Q10_def R00_def R01_def R10_def
  have Q: "0 \<le> Q00" "Q00 \<le> ?m - 2" "0 \<le> Q01" "Q01 \<le> ?m - 2" "0 \<le> Q10" "Q10 \<le> ?m - 2"
    unfolding QR by (intro dv bnd)+
  have R: "0 \<le> R00" "R00 < ?m" "0 \<le> R01" "R01 < ?m" "0 \<le> R10" "R10 < ?m"
    unfolding QR by simp_all
  define M where "M = Q00 + R01 + R10"
  have M: "0 \<le> M" "M \<le> 3 * ?m - 4" using Q R by (simp_all add: M_def)
  define QM RM where "QM = M div ?m" and "RM = M mod ?m"
  have QM: "0 \<le> QM" "QM \<le> 2"
    using M by (auto simp: QM_def pos_imp_zdiv_nonneg_iff)
  have half: "uint (a AND mask64) = A0" "uint (drop_bit 64 a) = A1"
    "uint (b AND mask64) = B0" "uint (drop_bit 64 b) = B1"
    by (simp_all only: uint_low64 uint_high64 D)
  have u: "uint ((a AND mask64) * (b AND mask64)) = P00" "uint ((a AND mask64) * drop_bit 64 b) = P01"
    "uint (drop_bit 64 a * (b AND mask64)) = P10" "uint (drop_bit 64 a * drop_bit 64 b) = P11"
    by (simp_all only: uint128_mult half r P)
  let ?mid = "drop_bit 64 ((a AND mask64) * (b AND mask64)) + ((a AND mask64) * drop_bit 64 b AND mask64)
     + (drop_bit 64 a * (b AND mask64) AND mask64)"
  have mid: "uint ?mid = M"
    unfolding M_def
    by (intro uint128_add_eq; (simp only: uint_low64 uint_high64 u QR; fail)?) (use Q R in simp_all)
  let ?hi = "drop_bit 64 a * drop_bit 64 b + drop_bit 64 ((a AND mask64) * drop_bit 64 b)
     + drop_bit 64 (drop_bit 64 a * (b AND mask64)) + drop_bit 64 ?mid"
  have hi: "uint ?hi = P11 + Q01 + Q10 + QM"
    by (intro uint128_add_eq; (simp only: uint_high64 u mid QR QM_def; fail)?)
       (use bnd(7,8) Q QM in simp_all)
  have "uint (fst (mul_wide a b)) = P11 + Q01 + Q10 + QM"
    using hi by (simp only: mul_wide_def Let_def fst_conv)
  moreover have "uint (snd (mul_wide a b)) = R00 + ?m * RM"
    using uint_join64 [of "(a AND mask64) * (b AND mask64)" ?mid]
    by (simp only: mul_wide_def Let_def snd_conv u mid R00_def RM_def)
  moreover have "uint a * uint b = P11 * 2 ^ 128 + (P01 + P10) * ?m + P00"
    by (simp add: ab P algebra_simps)
  moreover have "Q01 * ?m + R01 = P01" "Q10 * ?m + R10 = P10" "Q00 * ?m + R00 = P00" "QM * ?m + RM = M"
    by (simp_all only: QR QM_def RM_def div_mult_mod_eq)
  ultimately show ?thesis
    unfolding M_def by simp
qed


lemma radix_less:
  fixes h h' l l' m :: int
  assumes "0 \<le> l" "l < m" "0 \<le> l'" "l' < m"
  shows "h * m + l < h' * m + l' \<longleftrightarrow> h < h' \<or> h = h' \<and> l < l'"
proof (cases h h' rule: linorder_cases)
  case less
  then have "(h + 1) * m \<le> h' * m" using assms by (intro mult_right_mono) auto
  with less assms show ?thesis by (simp add: algebra_simps)
next
  case greater
  then have "(h' + 1) * m \<le> h * m" using assms by (intro mult_right_mono) auto
  with greater assms show ?thesis by (simp add: algebra_simps)
qed simp

lemma wide_pair_less:
  fixes a b :: "128 word \<times> 128 word"
  shows "a < b \<longleftrightarrow> uint (fst a) * 2 ^ 128 + uint (snd a) < uint (fst b) * 2 ^ 128 + uint (snd b)"
    and "a = b \<longleftrightarrow> uint (fst a) * 2 ^ 128 + uint (snd a) = uint (fst b) * 2 ^ 128 + uint (snd b)"
proof -
  let ?A = "uint (fst a) * 2 ^ 128 + uint (snd a)" and ?B = "uint (fst b) * 2 ^ 128 + uint (snd b)"
  note r = uint128_bound [of "snd a"] uint128_bound [of "snd b"]
  show lt: "a < b \<longleftrightarrow> ?A < ?B"
    unfolding radix_less [OF r]
    by (cases a; cases b) (auto simp: less_prod_def word_less_alt word_le_def word_uint_eq_iff)
  have gt: "b < a \<longleftrightarrow> ?B < ?A"
    unfolding radix_less [OF r(3,4,1,2)]
    by (cases a; cases b) (auto simp: less_prod_def word_less_alt word_le_def word_uint_eq_iff)
  show "a = b \<longleftrightarrow> ?A = ?B"
    using lt gt by (metis less_irrefl linorder_less_linear)
qed

lemma cmp_products_exact: "cmp_products a b c d = cmp (uint a * uint b) (uint c * uint d)"
  unfolding cmp_products_def
  by (rule cmp_cong) (simp_all only: wide_pair_less mul_wide_exact)

section \<open>No product of doubled coordinates truncates\<close>

definition p2_ok :: "p2 \<Rightarrow> bool" where
  "p2_ok q \<longleftrightarrow> \<bar>qx q\<bar> \<le> 2 ^ 32 \<and> \<bar>qy q\<bar> \<le> 2 ^ 32"

lemma dbl_exact:
  assumes "point_ok p"
  shows "dbl p = \<lparr>qx = 2 * px p, qy = 2 * py p\<rparr>" and "p2_ok (dbl p)"
proof -
  show e: "dbl p = \<lparr>qx = 2 * px p, qy = 2 * py p\<rparr>"
    using assms by (simp add: dbl_def point_ok_def in_i32_def i64_id in_i64_def)
  show "p2_ok (dbl p)"
    using assms by (auto simp: e p2_ok_def point_ok_def in_i32_def)
qed

lemma p2_diff:
  assumes "p2_ok a" and "p2_ok b"
  shows "i64 (qx b - qx a) = qx b - qx a" "i64 (qy b - qy a) = qy b - qy a"
    and "\<bar>qx b - qx a\<bar> \<le> 2 ^ 34" "\<bar>qy b - qy a\<bar> \<le> 2 ^ 34"
    and "\<bar>qx b - qx a\<bar> \<le> 2 ^ 33" "\<bar>qy b - qy a\<bar> \<le> 2 ^ 33"
  using assms by (auto simp: p2_ok_def intro!: i64_id in_i64_abs)

lemma orient_exact:
  assumes "p2_ok a" "p2_ok b" "p2_ok c"
  shows "orient a b c = (qx b - qx a) * (qy c - qy a) - (qy b - qy a) * (qx c - qx a)"
    and "\<bar>orient a b c\<bar> \<le> 2 ^ 69"
proof -
  note ab = p2_diff [OF assms(1,2)] and ac = p2_diff [OF assms(1,3)]
  show e: "orient a b c = (qx b - qx a) * (qy c - qy a) - (qy b - qy a) * (qx c - qx a)"
    by (simp only: orient_def Let_def ab ac i128_product_id i128_sum_id)
  show "\<bar>orient a b c\<bar> \<le> 2 ^ 69"
    unfolding e
    using abs_add_bound(2) [OF i128_product_id(2) [OF ab(3) ac(4)] i128_product_id(2) [OF ab(4) ac(3)]]
    by simp
qed

lemma dist2_exact:
  assumes "p2_ok a" "p2_ok b"
  shows "uint (dist2 a b) = (qx b - qx a)\<^sup>2 + (qy b - qy a)\<^sup>2"
    and "(qx b - qx a)\<^sup>2 + (qy b - qy a)\<^sup>2 < 2 ^ 80"
proof -
  note ab = p2_diff [OF assms]
  let ?s = "(qx b - qx a) * (qx b - qx a) + (qy b - qy a) * (qy b - qy a)"
  have b: "\<bar>(qx b - qx a) * (qx b - qx a)\<bar> \<le> 2 ^ 68" "\<bar>(qy b - qy a) * (qy b - qy a)\<bar> \<le> 2 ^ 68"
    by (intro i128_product_id ab)+
  have "dist2 a b = word_of_int ?s"
    by (simp only: dist2_def Let_def ab i128_product_id i128_sum_id)
  moreover have "0 \<le> ?s" "?s < 2 ^ 80" using b by auto
  moreover from this have "uint (word_of_int ?s :: 128 word) = ?s"
    by (intro uint128_of_int) auto
  ultimately show "uint (dist2 a b) = (qx b - qx a)\<^sup>2 + (qy b - qy a)\<^sup>2"
    and "(qx b - qx a)\<^sup>2 + (qy b - qy a)\<^sup>2 < 2 ^ 80"
    by (simp_all only: power2_eq_square)
qed

text \<open>A squared threshold below the cap fits; at the cap it exceeds every squared distance.\<close>

lemma square_threshold:
  assumes "0 \<le> t" "t < T_CAP"
  shows "uint (word_of_int (i128 (t * t)) :: 128 word) = t\<^sup>2"
proof -
  have "t * t \<le> 2 ^ 40 * 2 ^ 40" using assms by (intro mult_mono) (auto simp: T_CAP_def)
  then have "i128 (t * t) = t * t" "t * t < 2 ^ 128"
    using assms(1) by (auto intro!: i128_id in_i128_abs)
  then show ?thesis
    using assms(1) by (simp only: uint128_of_int power2_eq_square mult_nonneg_nonneg)
qed

lemma cmp_dist2_exact:
  assumes "p2_ok a" "p2_ok b" "0 \<le> t"
  shows "cmp_dist2 (dist2 a b) t = cmp ((qx b - qx a)\<^sup>2 + (qy b - qy a)\<^sup>2) (t\<^sup>2)"
proof (cases "t \<ge> T_CAP")
  case True
  then have "2 ^ 40 * 2 ^ 40 \<le> t * t" by (intro mult_mono) (auto simp: T_CAP_def)
  then have "(qx b - qx a)\<^sup>2 + (qy b - qy a)\<^sup>2 < t\<^sup>2"
    using dist2_exact(2) [OF assms(1,2)] by (simp add: power2_eq_square)
  with True show ?thesis by (simp add: cmp_dist2_def cmp_def)
next
  case False
  then show ?thesis
    using square_threshold [OF assms(3)] dist2_exact [OF assms(1,2)]
    by (simp add: cmp_dist2_def) (rule cmp_cong; simp add: word_less_alt word_uint_eq_iff)
qed

end
