(* ===== verification/Geom_Exact.thy ===== *)
theory Geom_Exact
  imports Geom_Region Geom_Kernel
begin

text \<open>
  The distance kernel is exact. Every comparison of \<open>Geom_Kernel\<close>, with its fixed-width products and
  its 256-bit comparison, equals the comparison of a real distance between point sets of the plane
  of \<open>Geom_Plane\<close> and \<open>Geom_Region\<close>: first on doubled points, then on cores, and at last in
  nanometres for the public predicates.
\<close>

section \<open>Reading doubled points in the plane\<close>

definition pt :: "p2 \<Rightarrow> rpt" where
  "pt q = (real_of_int (qx q), real_of_int (qy q))"

lemma cmp_of_int: "cmp (real_of_int a) (real_of_int b) = cmp a b"
  by (simp add: cmp_def)

lemma orient_pt: "p2_ok a \<Longrightarrow> p2_ok b \<Longrightarrow> p2_ok c \<Longrightarrow> xorient (pt a) (pt b) (pt c) = real_of_int (orient a b c)"
  by (simp add: orient_exact xorient_def pt_def)

lemma within_box_pt: "within_box a b p \<longleftrightarrow> xbox (pt a) (pt b) (pt p)"
  by (auto simp: within_box_def xbox_def pt_def min_def max_def)

lemma sgn_product_neg: "sgn x * sgn y < 0 \<longleftrightarrow> real_of_int x * real_of_int y < 0"
proof -
  have "sgn x * sgn y < 0 \<longleftrightarrow> x * y < 0" by (simp add: sgn_mult [symmetric] sgn_less)
  then show ?thesis by (metis of_int_mult of_int_less_0_iff)
qed

lemma seg_intersect_exact:
  assumes "p2_ok a" "p2_ok b" "p2_ok c" "p2_ok d"
  shows "seg_intersect a b c d \<longleftrightarrow> (\<exists>x. x \<in> segm (pt a) (pt b) \<and> x \<in> segm (pt c) (pt d))"
  unfolding xmeet_iff [symmetric] unfolding xmeet_def segm_iff seg_intersect_def Let_def sgn_product_neg
  using assms by (simp add: orient_pt within_box_pt sgn_eq_0_iff) blast

lemma d2_pt:
  "d2 (pt a) (pt b) = real_of_int ((qx b - qx a)\<^sup>2 + (qy b - qy a)\<^sup>2)"
  "d2 (pt b) (pt a) = real_of_int ((qx b - qx a)\<^sup>2 + (qy b - qy a)\<^sup>2)"
  by (simp_all add: d2_def pt_def power2_commute)

lemma cmp_dist2_pt:
  assumes "p2_ok a" "p2_ok b" "0 \<le> t"
  shows "cmp_dist2 (dist2 a b) t = cmp (d2 (pt b) (pt a)) ((real_of_int t)\<^sup>2)"
  using cmp_of_int [of "(qx b - qx a)\<^sup>2 + (qy b - qy a)\<^sup>2" "t\<^sup>2"]
  by (simp only: cmp_dist2_exact [OF assms] d2_pt(2) [of b a] of_int_power)

lemma cap_exceeds:
  assumes "p2_ok a" "p2_ok b" "T_CAP \<le> t"
  shows "d2 (pt b) (pt a) < (real_of_int t)\<^sup>2"
proof -
  have "(qx b - qx a)\<^sup>2 + (qy b - qy a)\<^sup>2 < 2 ^ 80" by (rule dist2_exact(2) [OF assms(1,2)])
  also have "2 ^ 40 * 2 ^ 40 \<le> t * t" using assms(3) by (intro mult_mono) (auto simp: T_CAP_def)
  then have "(2::int) ^ 80 \<le> t\<^sup>2" by (simp add: power2_eq_square)
  finally have "real_of_int ((qx b - qx a)\<^sup>2 + (qy b - qy a)\<^sup>2) < real_of_int (t\<^sup>2)" by linarith
  then show ?thesis by (simp only: d2_pt(2) [of b a] of_int_power)
qed

text \<open>The quotient of the foot case, compared without dividing.\<close>

lemma cmp_ratio: "0 < l \<Longrightarrow> cmp (x / l) y = cmp x (y * l)" for x y l :: real
  by (simp add: cmp_def field_simps)

lemma point_seg_cmp_exact:
  assumes ok: "p2_ok p" "p2_ok a" "p2_ok b" and t: "0 \<le> t"
  shows "point_seg_cmp p a b t = cmp (sqdist {pt p} (segm (pt a) (pt b))) ((real_of_int t)\<^sup>2)"
proof (cases "T_CAP \<le> t")
  case True
  have "sqdist {pt p} (segm (pt a) (pt b)) < (real_of_int t)\<^sup>2"
    using sqdist_le [of "pt p" "{pt p}" "pt a" "segm (pt a) (pt b)"] cap_exceeds [OF ok(2,1) True] by simp
  then show ?thesis using True by (simp add: point_seg_cmp_def cmp_def)
next
  case False
  note ab = p2_diff [OF ok(2,3)] and ap = p2_diff [OF ok(2,1)]
  define l where "l = (qx b - qx a)\<^sup>2 + (qy b - qy a)\<^sup>2"
  define k where "k = (qx p - qx a) * (qx b - qx a) + (qy p - qy a) * (qy b - qy a)"
  define c where "c = (qx b - qx a) * (qy p - qy a) - (qy b - qy a) * (qx p - qx a)"
  have l: "d2 (pt a) (pt b) = real_of_int l" "0 \<le> l" "l < 2 ^ 80"
    using dist2_exact(2) [OF ok(2,3)] by (simp_all add: d2_pt(1) l_def)
  have k: "xdot (pt a) (pt b) (pt p) = real_of_int k" by (simp add: xdot_def pt_def k_def)
  have c: "xorient (pt a) (pt b) (pt p) = real_of_int c" "\<bar>c\<bar> \<le> 2 ^ 69"
    using orient_exact [OF ok(2,3,1)] by (simp_all add: orient_pt [OF ok(2,3,1)] c_def)
  have code: "point_seg_cmp p a b t =
    (if l = 0 \<or> k \<le> 0 then cmp_dist2 (dist2 a p) t else if k \<ge> l then cmp_dist2 (dist2 b p) t
     else cmp_products (word_of_int \<bar>c\<bar>) (word_of_int \<bar>c\<bar>) (word_of_int (i128 (t * t))) (word_of_int l))"
    by (simp only: point_seg_cmp_def if_not_P [OF False] Let_def ab ap i128_product_id i128_sum_id
        l_def k_def c_def power2_eq_square)
  consider (start) "l = 0 \<or> k \<le> 0" | (stop) "\<not> (l = 0 \<or> k \<le> 0)" "l \<le> k" | (foot) "0 < k" "k < l" by linarith
  then show ?thesis
  proof cases
    case start
    then have "d2 (pt a) (pt b) = 0 \<or> xdot (pt a) (pt b) (pt p) \<le> 0" unfolding l k by simp
    then show ?thesis using start cmp_dist2_pt [OF ok(2,1) t] by (simp add: code sqdist_segm_start)
  next
    case stop
    then have "d2 (pt a) (pt b) \<le> xdot (pt a) (pt b) (pt p)" unfolding l k by simp
    then show ?thesis using stop cmp_dist2_pt [OF ok(3,1) t] by (simp add: code sqdist_segm_end)
  next
    case foot
    have u: "uint (word_of_int \<bar>c\<bar> :: 128 word) = \<bar>c\<bar>" "uint (word_of_int l :: 128 word) = l"
      using c(2) l(2,3) by (auto intro!: uint128_of_int)
    have "point_seg_cmp p a b t = cmp (\<bar>c\<bar> * \<bar>c\<bar>) (t\<^sup>2 * l)"
      using foot False t by (simp add: code cmp_products_exact u square_threshold)
    also have "\<dots> = cmp ((real_of_int c)\<^sup>2) ((real_of_int t)\<^sup>2 * real_of_int l)"
      using cmp_of_int [of "c\<^sup>2" "t\<^sup>2 * l"] by (simp add: power2_eq_square)
    also have "\<dots> = cmp ((real_of_int c)\<^sup>2 / real_of_int l) ((real_of_int t)\<^sup>2)"
      using foot by (simp add: cmp_ratio)
    also have "(real_of_int c)\<^sup>2 / real_of_int l = sqdist {pt p} (segm (pt a) (pt b))"
      using sqdist_segm_foot [of "pt a" "pt b" "pt p"] foot unfolding l c k by simp
    finally show ?thesis .
  qed
qed

section \<open>Minima of comparisons\<close>

lemma min_cmp_from_min: "min_cmp_from best os = foldr min os best"
proof (induction os arbitrary: best)
  case (Cons o1 os)
  have "foldr min os (min best o1) = min o1 (foldr min os best)" for os
    by (induction os) (simp_all add: min.left_commute min.commute)
  then show ?case using Cons.IH by (cases o1) auto
qed simp

lemma min_cmp_Cons: "min_cmp (o1 # os) = min o1 (min_cmp os)"
  by (simp add: min_cmp_def min_cmp_from_min)

lemma min_cmp_Nil [simp]: "min_cmp [] = Greater"
  by (simp add: min_cmp_def)

lemma min_Greater [simp]: "min o1 Greater = o1" "min Greater o1 = o1" for o1 :: ordering
  by (cases o1; simp)+

lemma zero_cmp_exact: "0 \<le> t \<Longrightarrow> zero_cmp t = cmp 0 ((real_of_int t)\<^sup>2)"
  by (simp add: zero_cmp_def cmp_def)

lemma seg_seg_cmp_exact:
  assumes ok: "p2_ok a" "p2_ok b" "p2_ok c" "p2_ok d" and t: "0 \<le> t"
  shows "seg_seg_cmp a b c d t = cmp (sqdist (segm (pt a) (pt b)) (segm (pt c) (pt d))) ((real_of_int t)\<^sup>2)"
proof (cases "seg_intersect a b c d")
  case True
  then have "sqdist (segm (pt a) (pt b)) (segm (pt c) (pt d)) = 0"
    using seg_intersect_exact [OF ok] sqdist_touch by blast
  then show ?thesis using True by (simp add: seg_seg_cmp_def zero_cmp_exact [OF t])
next
  case False
  then have "\<not> (\<exists>x. x \<in> segm (pt a) (pt b) \<and> x \<in> segm (pt c) (pt d))"
    using seg_intersect_exact [OF ok] by blast
  from sqdist_segm_segm [OF this] show ?thesis
    using False by (simp add: seg_seg_cmp_def min_cmp_Cons point_seg_cmp_exact ok t cmp_min min.assoc)
qed

lemma min_cmp_boundary:
  assumes "A \<noteq> {}" and "es \<noteq> []" and "\<And>e. e \<in> set es \<Longrightarrow> f e = cmp (sqdist A (segm (pt (fst e)) (pt (snd e)))) T"
  shows "min_cmp (map f es) = cmp (sqdist A (boundary (map (map_prod pt pt) es))) T"
  using assms(2,3)
proof (induction es)
  case (Cons e es)
  have b: "boundary (map (map_prod pt pt) (e # es)) = segm (pt (fst e)) (pt (snd e)) \<union> boundary (map (map_prod pt pt) es)"
    by (simp add: boundary_def split_beta)
  show ?case
  proof (cases "es = []")
    case True
    then show ?thesis unfolding b using Cons.prems(2) [of e] by (simp add: min_cmp_Cons)
  next
    case False
    then have "sqdist A (boundary (map (map_prod pt pt) (e # es))) =
      min (sqdist A (segm (pt (fst e)) (pt (snd e)))) (sqdist A (boundary (map (map_prod pt pt) es)))"
      unfolding b using assms(1) boundary_nonempty [of "map (map_prod pt pt) es"] by (intro sqdist_Un) auto
    then show ?thesis using Cons False by (simp add: min_cmp_Cons cmp_min del: list.map(2)) (simp add: min_cmp_Cons cmp_min)
  qed
qed simp

section \<open>Containment in rings\<close>

definition pt_edges :: "ring list \<Rightarrow> redge list" where
  "pt_edges rs = map (map_prod pt pt) (edges rs)"

definition rings_ok :: "ring list \<Rightarrow> bool" where
  "rings_ok rs \<longleftrightarrow> rs \<noteq> [] \<and> list_all (\<lambda>r. r \<noteq> [] \<and> list_all point_ok r) rs"

lemma edges_ok:
  assumes "rings_ok rs" and "e \<in> set (edges rs)"
  shows "p2_ok (fst e)" "p2_ok (snd e)"
proof -
  obtain r a b where r: "r \<in> set rs" "(a, b) \<in> set (ring_pairs r)" and e: "e = (dbl a, dbl b)"
    using assms(2) by (auto simp: edges_def)
  then have "point_ok a" "point_ok b"
    using assms(1) ring_pairs_points [OF r(2)] by (auto simp: rings_ok_def list_all_iff)
  then show "p2_ok (fst e)" "p2_ok (snd e)" by (simp_all add: e dbl_exact(2))
qed

lemma edges_nonempty: "rings_ok rs \<Longrightarrow> edges rs \<noteq> []"
  by (cases rs) (auto simp: rings_ok_def edges_def ring_pairs_zip zip_eq_Nil_iff)

lemma pt_edges_nonempty: "rings_ok rs \<Longrightarrow> pt_edges rs \<noteq> []"
  by (simp add: pt_edges_def edges_nonempty)

lemma ring_pairs_map: "ring_pairs (map f r) = map (map_prod f f) (ring_pairs r)"
  by (simp add: ring_pairs_zip rotate1_map zip_map_map map_prod_def)

lemma pt_edges_concat: "pt_edges rs = concat (map (\<lambda>r. ring_pairs (map (pt \<circ> dbl) r)) rs)"
  by (simp add: pt_edges_def edges_def ring_pairs_map map_concat comp_def map_prod_def case_prod_unfold)

lemma balanced_pt_edges: "balanced (pt_edges rs)"
  unfolding pt_edges_concat by (rule balanced_concat) (rule balanced_ring)

lemma point_in_edges_exact:
  assumes "p2_ok p" and "\<And>e. e \<in> set es \<Longrightarrow> p2_ok (fst e) \<and> p2_ok (snd e)"
  shows "point_in_edges p inside es =
    (if pt p \<in> boundary (map (map_prod pt pt) es) then Boundary
     else if inside \<noteq> odd (length (filter (ray_hit (pt p)) (map (map_prod pt pt) es))) then Inside else Outside)"
  using assms(2)
proof (induction es arbitrary: inside)
  case (Cons e es)
  obtain a b where e: "e = (a, b)" by (cases e)
  have ab: "p2_ok a" "p2_ok b" using Cons.prems [of e] by (simp_all add: e)
  have on: "orient a b p = 0 \<and> within_box a b p \<longleftrightarrow> pt p \<in> segm (pt a) (pt b)"
    using orient_pt [OF ab assms(1)] by (simp add: segm_iff within_box_pt)
  have hit: "ray_hit (pt p) (pt a, pt b) \<longleftrightarrow>
    (qy a > qy p) \<noteq> (qy b > qy p) \<and> (if qy b > qy a then orient a b p > 0 else orient a b p < 0)"
    using orient_pt [OF ab assms(1)] by (simp add: ray_hit_def) (simp add: pt_def)
  have IH: "point_in_edges p i es =
    (if pt p \<in> boundary (map (map_prod pt pt) es) then Boundary
     else if i \<noteq> odd (length (filter (ray_hit (pt p)) (map (map_prod pt pt) es))) then Inside else Outside)" for i
    using Cons by simp
  show ?case
    by (simp add: e Let_def on IH boundary_Cons hit) blast
qed (simp add: boundary_def)

lemma point_in_rings_exact:
  assumes "p2_ok p" and "rings_ok rs"
  shows "point_in_rings p rs = (if pt p \<in> boundary (pt_edges rs) then Boundary
     else if pt p \<in> region (pt_edges rs) then Inside else Outside)"
  using point_in_edges_exact [OF assms(1), of "edges rs" False] edges_ok [OF assms(2)]
  by (simp add: point_in_rings_def pt_edges_def region_def)

lemma point_in_rings_outside:
  "p2_ok p \<Longrightarrow> rings_ok rs \<Longrightarrow> point_in_rings p rs \<noteq> Outside \<longleftrightarrow> pt p \<in> region (pt_edges rs)"
  using boundary_region by (auto simp: point_in_rings_exact)

section \<open>Cores\<close>

fun core_set :: "core \<Rightarrow> rpt set" where
  "core_set (Core_Point p) = {pt p}"
| "core_set (Core_Seg a b) = segm (pt a) (pt b)"
| "core_set (Core_Region rs) = region (pt_edges rs)"

fun core_ok :: "core \<Rightarrow> bool" where
  "core_ok (Core_Point p) = p2_ok p"
| "core_ok (Core_Seg a b) = (p2_ok a \<and> p2_ok b)"
| "core_ok (Core_Region rs) = rings_ok rs"

text \<open>Two regions are compared exactly when both are bounded by one ring.\<close>

fun decidable_pair :: "core \<Rightarrow> core \<Rightarrow> bool" where
  "decidable_pair (Core_Region ra) (Core_Region rb) \<longleftrightarrow> length ra = 1 \<and> length rb = 1"
| "decidable_pair _ _ \<longleftrightarrow> True"

lemma point_region_cmp_exact:
  assumes p: "p2_ok p" and r: "rings_ok r" and t: "0 \<le> t"
  shows "point_region_cmp p r t = cmp (sqdist {pt p} (region (pt_edges r))) ((real_of_int t)\<^sup>2)"
proof (cases "pt p \<in> region (pt_edges r)")
  case True
  then have "sqdist {pt p} (region (pt_edges r)) = 0" by (intro sqdist_touch) auto
  then show ?thesis
    using True by (simp add: point_region_cmp_def point_in_rings_outside p r zero_cmp_exact t)
next
  case False
  have "min_cmp (map (\<lambda>(c, d). point_seg_cmp p c d t) (edges r)) =
    cmp (sqdist {pt p} (boundary (map (map_prod pt pt) (edges r)))) ((real_of_int t)\<^sup>2)"
    using edges_ok [OF r]
    by (intro min_cmp_boundary) (auto simp: edges_nonempty [OF r] point_seg_cmp_exact p t split_beta)
  moreover have "sqdist {pt p} (region (pt_edges r)) = sqdist {pt p} (boundary (pt_edges r))"
    using False by (intro sqdist_region_boundary balanced_pt_edges pt_edges_nonempty r) auto
  ultimately show ?thesis
    using False point_in_rings_outside [OF p r] by (simp add: point_region_cmp_def pt_edges_def)
qed

lemma boundary_meets:
  assumes "p2_ok a" "p2_ok b" "rings_ok r"
  shows "list_ex (\<lambda>(c, d). seg_intersect a b c d) (edges r) \<longleftrightarrow> segm (pt a) (pt b) \<inter> boundary (pt_edges r) \<noteq> {}"
  using edges_ok [OF assms(3)] assms(1,2)
  by (fastforce simp: list_ex_iff boundary_def pt_edges_def seg_intersect_exact)

lemma seg_region_cmp_exact:
  assumes ok: "p2_ok a" "p2_ok b" and r: "rings_ok r" and t: "0 \<le> t"
  shows "seg_region_cmp a b r t = cmp (sqdist (segm (pt a) (pt b)) (region (pt_edges r))) ((real_of_int t)\<^sup>2)"
proof (cases "segm (pt a) (pt b) \<inter> region (pt_edges r) = {}")
  case True
  then have "pt a \<notin> region (pt_edges r)" "pt b \<notin> region (pt_edges r)" using segm_ends by blast+
  moreover have "segm (pt a) (pt b) \<inter> boundary (pt_edges r) = {}" using True boundary_region by blast
  moreover have "min_cmp (map (\<lambda>(c, d). seg_seg_cmp a b c d t) (edges r)) =
    cmp (sqdist (segm (pt a) (pt b)) (boundary (map (map_prod pt pt) (edges r)))) ((real_of_int t)\<^sup>2)"
    using edges_ok [OF r]
    by (intro min_cmp_boundary) (auto simp: edges_nonempty [OF r] seg_seg_cmp_exact ok t split_beta)
  moreover have "sqdist (segm (pt a) (pt b)) (region (pt_edges r)) = sqdist (segm (pt a) (pt b)) (boundary (pt_edges r))"
    using True by (intro sqdist_region_boundary balanced_pt_edges pt_edges_nonempty r) auto
  ultimately show ?thesis
    by (simp add: seg_region_cmp_def point_in_rings_outside boundary_meets ok r pt_edges_def [symmetric])
next
  case False
  then have z: "sqdist (segm (pt a) (pt b)) (region (pt_edges r)) = 0" using sqdist_touch by blast
  have "pt a \<in> region (pt_edges r) \<or> segm (pt a) (pt b) \<inter> boundary (pt_edges r) \<noteq> {}"
    using False segm_region_disjoint [OF balanced_pt_edges] by blast
  then show ?thesis
    by (auto simp: seg_region_cmp_def point_in_rings_outside boundary_meets ok r z zero_cmp_exact t)
qed

lemma region_edges_meet:
  assumes "rings_ok ra" "rings_ok rb"
  shows "list_ex (\<lambda>(a0, a1). list_ex (\<lambda>(b0, b1). seg_intersect a0 a1 b0 b1) (edges rb)) (edges ra) \<longleftrightarrow>
    boundary (pt_edges ra) \<inter> boundary (pt_edges rb) \<noteq> {}"
proof -
  have edge: "list_ex (\<lambda>(b0, b1). seg_intersect (fst e) (snd e) b0 b1) (edges rb) \<longleftrightarrow>
    segm (pt (fst e)) (pt (snd e)) \<inter> boundary (pt_edges rb) \<noteq> {}" if "e \<in> set (edges ra)" for e
    using edges_ok [OF assms(1) that] boundary_meets [OF _ _ assms(2)] by blast
  have "boundary (pt_edges ra) = (\<Union>e \<in> set (edges ra). segm (pt (fst e)) (pt (snd e)))"
    by (auto simp: boundary_def pt_edges_def)
  then show ?thesis
    by (auto simp: list_ex_iff [of _ "edges ra"] case_prod_unfold edge [unfolded case_prod_unfold] simp del: split_paired_Ex)
qed

lemma edges_boundary_cmp:
  assumes "rings_ok ra" "rings_ok rb" "0 \<le> t"
  shows "min_cmp (map (\<lambda>(a0, a1). min_cmp (map (\<lambda>(b0, b1). seg_seg_cmp a0 a1 b0 b1 t) (edges rb))) (edges ra)) =
    cmp (sqdist (boundary (pt_edges ra)) (boundary (pt_edges rb))) ((real_of_int t)\<^sup>2)"
proof -
  have inner: "min_cmp (map (\<lambda>(b0, b1). seg_seg_cmp a0 a1 b0 b1 t) (edges rb)) =
    cmp (sqdist (segm (pt a0) (pt a1)) (boundary (map (map_prod pt pt) (edges rb)))) ((real_of_int t)\<^sup>2)"
    if "p2_ok a0" "p2_ok a1" for a0 a1
    using edges_ok [OF assms(2)]
    by (intro min_cmp_boundary) (auto simp: edges_nonempty [OF assms(2)] seg_seg_cmp_exact that assms(3) split_beta)
  have "min_cmp (map (\<lambda>(a0, a1). min_cmp (map (\<lambda>(b0, b1). seg_seg_cmp a0 a1 b0 b1 t) (edges rb))) (edges ra)) =
    cmp (sqdist (boundary (pt_edges rb)) (boundary (map (map_prod pt pt) (edges ra)))) ((real_of_int t)\<^sup>2)"
    using edges_ok [OF assms(1)] boundary_nonempty [OF pt_edges_nonempty [OF assms(2)]]
    by (intro min_cmp_boundary)
       (auto simp: edges_nonempty [OF assms(1)] inner pt_edges_def split_beta sqdist_commute [of "segm _ _"])
  then show ?thesis by (simp add: pt_edges_def [symmetric] sqdist_commute)
qed

lemma rings_ok_first: "rings_ok rs \<Longrightarrow> p2_ok (dbl (rs ! 0 ! 0))"
  by (cases rs) (auto simp: rings_ok_def list_all_iff dbl_exact(2))

lemma first_on_boundary:
  assumes "rings_ok rs"
  shows "pt (dbl (rs ! 0 ! 0)) \<in> boundary (pt_edges rs)"
proof -
  obtain r rs' where rs: "rs = r # rs'" "r \<noteq> []" using assms by (cases rs) (auto simp: rings_ok_def)
  have "q ! 0 \<in> boundary (ring_pairs q)" if "q \<noteq> []" for q :: "rpt list"
    using that by (cases q; cases "tl q") (auto simp: ring_pairs_zip boundary_def)
  from this [of "map (pt \<circ> dbl) r"] show ?thesis using rs by (auto simp: pt_edges_concat boundary_def)
qed

lemma region_region_cmp_code:
  assumes "rings_ok ra" "rings_ok rb" "0 \<le> t"
  shows "region_region_cmp ra rb t =
    (if boundary (pt_edges ra) \<inter> boundary (pt_edges rb) \<noteq> {} \<or> pt (dbl (ra ! 0 ! 0)) \<in> region (pt_edges rb)
        \<or> pt (dbl (rb ! 0 ! 0)) \<in> region (pt_edges ra)
     then cmp 0 ((real_of_int t)\<^sup>2) else cmp (sqdist (boundary (pt_edges ra)) (boundary (pt_edges rb))) ((real_of_int t)\<^sup>2))"
  using assms
  by (simp only: region_region_cmp_def Let_def region_edges_meet edges_boundary_cmp point_in_rings_outside
      rings_ok_first zero_cmp_exact)

lemma region_region_cmp_exact:
  assumes ra: "rings_ok ra" "length ra = 1" and rb: "rings_ok rb" "length rb = 1" and t: "0 \<le> t"
  shows "region_region_cmp ra rb t = cmp (sqdist (region (pt_edges ra)) (region (pt_edges rb))) ((real_of_int t)\<^sup>2)"
proof -
  obtain a b where ab: "ra = [a]" "rb = [b]" using ra(2) rb(2) by (auto simp: length_Suc_conv)
  have ne: "a \<noteq> []" "b \<noteq> []" using ra(1) rb(1) by (simp_all add: rings_ok_def ab)
  let ?A = "map (pt \<circ> dbl) a" and ?B = "map (pt \<circ> dbl) b"
  have e: "pt_edges ra = ring_pairs ?A" "pt_edges rb = ring_pairs ?B" by (simp_all add: ab pt_edges_concat)
  have first: "pt (dbl (ra ! 0 ! 0)) = ?A ! 0" "pt (dbl (rb ! 0 ! 0)) = ?B ! 0" using ne by (simp_all add: ab)
  note code = region_region_cmp_code [OF ra(1) rb(1) t]
  note on = first_on_boundary [OF ra(1)] first_on_boundary [OF rb(1)]
  show ?thesis
  proof (cases "region (pt_edges ra) \<inter> region (pt_edges rb) = {}")
    case True
    then have "\<not> (boundary (pt_edges ra) \<inter> boundary (pt_edges rb) \<noteq> {} \<or>
      pt (dbl (ra ! 0 ! 0)) \<in> region (pt_edges rb) \<or> pt (dbl (rb ! 0 ! 0)) \<in> region (pt_edges ra))"
      using on boundary_region by blast
    then show ?thesis
      using sqdist_regions [OF balanced_pt_edges balanced_pt_edges _ _ True] pt_edges_nonempty ra(1) rb(1)
      by (simp only: code if_False not_False_eq_True simp_thms)
  next
    case False
    then have "sqdist (region (pt_edges ra)) (region (pt_edges rb)) = 0" using sqdist_touch by blast
    moreover have "boundary (pt_edges ra) \<inter> boundary (pt_edges rb) \<noteq> {} \<or>
      pt (dbl (ra ! 0 ! 0)) \<in> region (pt_edges rb) \<or> pt (dbl (rb ! 0 ! 0)) \<in> region (pt_edges ra)"
      using False rings_disjoint [of ?A ?B] unfolding e first by blast
    ultimately show ?thesis by (simp add: code)
  qed
qed

text \<open>With holes the comparison is still symmetric, and never below the true one.\<close>

lemma region_region_cmp_ge:
  assumes "rings_ok ra" "rings_ok rb" "0 \<le> t"
  shows "cmp (sqdist (region (pt_edges ra)) (region (pt_edges rb))) ((real_of_int t)\<^sup>2) \<le> region_region_cmp ra rb t"
proof -
  let ?A = "pt_edges ra" and ?B = "pt_edges rb"
  have on: "pt (dbl (ra ! 0 ! 0)) \<in> region ?A" "pt (dbl (rb ! 0 ! 0)) \<in> region ?B"
    using first_on_boundary boundary_region assms(1,2) by blast+
  have ne: "boundary ?A \<noteq> {}" "boundary ?B \<noteq> {}"
    using boundary_nonempty pt_edges_nonempty assms(1,2) by blast+
  have "sqdist (region ?A) (region ?B) \<le> sqdist (boundary ?A) (boundary ?B)"
    using ne boundary_region by (intro sqdist_ge sqdist_le) blast+
  moreover have "sqdist (region ?A) (region ?B) = 0"
    if "boundary ?A \<inter> boundary ?B \<noteq> {} \<or> pt (dbl (ra ! 0 ! 0)) \<in> region ?B \<or> pt (dbl (rb ! 0 ! 0)) \<in> region ?A"
    using that on boundary_region sqdist_touch by blast
  ultimately show ?thesis
    unfolding region_region_cmp_code [OF assms] by (auto intro!: cmp_mono)
qed

lemma region_region_cmp_commute:
  assumes "rings_ok ra" "rings_ok rb" "0 \<le> t"
  shows "region_region_cmp ra rb t = region_region_cmp rb ra t"
  unfolding region_region_cmp_code [OF assms] region_region_cmp_code [OF assms(2,1,3)]
  by (simp add: Int_commute disj_commute sqdist_commute)

lemma core_cmp_exact:
  assumes "core_ok a" "core_ok b" "decidable_pair a b" "0 \<le> t"
  shows "core_cmp a b t = cmp (sqdist (core_set a) (core_set b)) ((real_of_int t)\<^sup>2)"
proof -
  note flip = sqdist_commute [of "segm _ _" "{_}"] sqdist_commute [of "region _" "{_}"] sqdist_commute [of "region _" "segm _ _"]
  note exact = cmp_dist2_pt point_seg_cmp_exact seg_seg_cmp_exact point_region_cmp_exact
    seg_region_cmp_exact region_region_cmp_exact
  show ?thesis
    using assms by (cases a; cases b) (simp_all add: exact flip d2_commute)
qed

lemma core_cmp_commute:
  assumes "core_ok a" "core_ok b" "0 \<le> t"
  shows "core_cmp a b t = core_cmp b a t"
proof (cases "decidable_pair a b")
  case True
  then have "decidable_pair b a" by (cases a; cases b) auto
  with True show ?thesis using assms by (simp add: core_cmp_exact sqdist_commute)
next
  case False
  then show ?thesis using assms region_region_cmp_commute by (cases a; cases b) auto
qed

lemma core_cmp_ge:
  assumes "core_ok a" "core_ok b" "0 \<le> t"
  shows "cmp (sqdist (core_set a) (core_set b)) ((real_of_int t)\<^sup>2) \<le> core_cmp a b t"
proof (cases "decidable_pair a b")
  case True
  then show ?thesis using assms by (simp add: core_cmp_exact)
next
  case False
  then show ?thesis using assms region_region_cmp_ge by (cases a; cases b) auto
qed

section \<open>Nanometres\<close>

definition rp :: "point \<Rightarrow> rpt" where
  "rp p = (real_of_int (px p), real_of_int (py p))"

definition scale2 :: "rpt \<Rightarrow> rpt" where
  "scale2 x = (2 * fst x, 2 * snd x)"

definition halve :: "rpt \<Rightarrow> rpt" where
  "halve x = (fst x / 2, snd x / 2)"

lemma scale2_halve [simp]: "scale2 (halve x) = x" "halve (scale2 x) = x"
  by (simp_all add: scale2_def halve_def)

lemma in_scale2_image: "x \<in> scale2 ` A \<longleftrightarrow> halve x \<in> A"
  by (metis image_iff scale2_halve)

lemma pt_dbl: "point_ok p \<Longrightarrow> pt (dbl p) = scale2 (rp p)"
  by (simp add: pt_def dbl_exact scale2_def rp_def)

lemma d2_scale2: "d2 (scale2 x) (scale2 y) = 4 * d2 x y"
  by (simp add: d2_def scale2_def power2_eq_square algebra_simps)

lemma sqdist_scale2: "A \<noteq> {} \<Longrightarrow> B \<noteq> {} \<Longrightarrow> sqdist (scale2 ` A) (scale2 ` B) = 4 * sqdist A B"
proof (rule antisym)
  assume ne: "A \<noteq> {}" "B \<noteq> {}"
  have "sqdist (scale2 ` A) (scale2 ` B) \<le> 4 * d2 a b" if "a \<in> A" "b \<in> B" for a b
    using that sqdist_le [of "scale2 a" "scale2 ` A" "scale2 b" "scale2 ` B"] by (simp add: d2_scale2)
  then have "sqdist (scale2 ` A) (scale2 ` B) / 4 \<le> sqdist A B"
    using ne by (intro sqdist_ge) (auto simp: field_simps)
  then show "sqdist (scale2 ` A) (scale2 ` B) \<le> 4 * sqdist A B" by simp
  show "4 * sqdist A B \<le> sqdist (scale2 ` A) (scale2 ` B)"
    using ne by (intro sqdist_ge) (auto simp: d2_scale2 intro: sqdist_le)
qed

lemma lerp_scale2: "lerp (scale2 a) (scale2 b) s = scale2 (lerp a b s)"
  by (simp add: lerp_def scale2_def algebra_simps)

lemma segm_scale2: "segm (scale2 a) (scale2 b) = scale2 ` segm a b"
  by (auto simp: segm_def lerp_scale2)

lemma boundary_scale2: "boundary (map (map_prod scale2 scale2) es) = scale2 ` boundary es"
  by (simp add: boundary_def image_UN case_prod_unfold segm_scale2)

lemma xorient_scale2: "xorient (scale2 a) (scale2 b) x = 4 * xorient a b (halve x)"
  by (simp add: xorient_def scale2_def halve_def field_simps)

lemma ray_hit_scale2: "ray_hit x (map_prod scale2 scale2 e) \<longleftrightarrow> ray_hit (halve x) e"
proof -
  have s: "snd (scale2 v) > snd x \<longleftrightarrow> snd v > snd (halve x)" "snd (scale2 v) > snd (scale2 w) \<longleftrightarrow> snd v > snd w" for v w
    by (auto simp: scale2_def halve_def)
  show ?thesis by (cases e) (simp add: ray_hit_def xorient_scale2 s zero_less_mult_iff mult_less_0_iff)
qed

lemma region_scale2: "region (map (map_prod scale2 scale2) es) = scale2 ` region es"
proof -
  have "length (filter (ray_hit x) (map (map_prod scale2 scale2) es)) = length (filter (ray_hit (halve x)) es)" for x
    by (induction es) (simp_all add: ray_hit_scale2)
  then show ?thesis
    unfolding region_def boundary_scale2 image_Un
    by (auto simp only: in_scale2_image mem_Collect_eq Un_iff set_eq_iff)
qed

definition rings_edges :: "ring list \<Rightarrow> redge list" where
  "rings_edges rs = concat (map (\<lambda>r. ring_pairs (map rp r)) rs)"

lemma pt_edges_scale2:
  assumes "rings_ok rs"
  shows "pt_edges rs = map (map_prod scale2 scale2) (rings_edges rs)"
proof -
  have "map (pt \<circ> dbl) r = map scale2 (map rp r)" if "r \<in> set rs" for r
    using assms that by (auto simp: rings_ok_def list_all_iff pt_dbl)
  then show ?thesis
    unfolding pt_edges_concat rings_edges_def
    by (simp add: map_concat ring_pairs_map [symmetric] cong: map_cong)
qed

text \<open>The core of a shape, its sweep radius, and the signed gap between two shapes.\<close>

fun shape_core :: "shape \<Rightarrow> rpt set" where
  "shape_core (Segment s) = segm (rp (seg_a s)) (rp (seg_b s))"
| "shape_core (Circle c) = {rp (center c)}"
| "shape_core (ConvexPoly p) = region (rings_edges [pts p])"
| "shape_core (Polygon p) = region (rings_edges (Polygon_rings p))"

fun shape_radius :: "shape \<Rightarrow> real" where
  "shape_radius (Segment s) = real_of_int (seg_width s) / 2"
| "shape_radius (Circle c) = real_of_int (radius c)"
| "shape_radius (ConvexPoly p) = real_of_int (cp_radius p)"
| "shape_radius (Polygon p) = 0"

definition shape_gap :: "shape \<Rightarrow> shape \<Rightarrow> real" where
  "shape_gap a b = sqrt (sqdist (shape_core a) (shape_core b)) - shape_radius a - shape_radius b"

lemma shape_rings_ok:
  "convex_poly_ok p \<Longrightarrow> rings_ok [pts p]" "polygon_ok q \<Longrightarrow> rings_ok (Polygon_rings q)"
  by (force simp: convex_poly_ok_def polygon_ok_def rings_ok_def ring_ok_def Polygon_rings_def list_all_iff)+

lemma core_of_exact:
  assumes "shape_ok s"
  shows "core_ok (core_of s)" and "core_set (core_of s) = scale2 ` shape_core s" and "shape_core s \<noteq> {}"
    and "real_of_int (Shape_sweep2 s) = 2 * shape_radius s" and "0 \<le> Shape_sweep2 s" "Shape_sweep2 s \<le> 2 ^ 32"
proof -
  show "core_ok (core_of s)"
    using assms by (cases s) (auto simp: segment_ok_def circle_ok_def dbl_exact(2) shape_rings_ok)
  show "core_set (core_of s) = scale2 ` shape_core s"
    using assms
    by (cases s) (auto simp: segment_ok_def circle_ok_def pt_dbl segm_scale2 region_scale2 pt_edges_scale2 shape_rings_ok)
  show "shape_core s \<noteq> {}"
  proof -
    have "region (rings_edges rs) \<noteq> {}" if "rings_ok rs" for rs
      using pt_edges_nonempty [OF that] pt_edges_scale2 [OF that] boundary_nonempty boundary_region by fastforce
    then show ?thesis using assms by (cases s) (auto simp: shape_rings_ok)
  qed
  show "real_of_int (Shape_sweep2 s) = 2 * shape_radius s" "0 \<le> Shape_sweep2 s" "Shape_sweep2 s \<le> 2 ^ 32"
    using assms
    by (cases s; simp add: segment_ok_def circle_ok_def convex_poly_ok_def in_i32_def i64_id in_i64_def)+
qed

lemma cmp_sqrt:
  assumes "0 \<le> x" "0 \<le> y"
  shows "cmp (sqrt x) y = cmp x (y\<^sup>2)"
  using assms real_sqrt_less_iff [of x "y\<^sup>2"] real_sqrt_eq_iff [of x "y\<^sup>2"] by (simp add: cmp_def)

lemma cmp_scale: "0 < k \<Longrightarrow> cmp (k * x) (k * y) = cmp x y" for k x y :: real
  by (simp add: cmp_def)

lemma cmp_shift: "cmp (x - k) y = cmp x (y + k)" for k x y :: real
  by (auto simp: cmp_def)

text \<open>A comparison of doubled cores with a doubled threshold, in nanometres.\<close>

lemma cmp_nm:
  assumes ne: "A \<noteq> {}" "B \<noteq> {}"
  shows "cmp (sqrt (sqdist A B)) (real_of_int t / 2) =
    (if t < 0 then Greater else cmp (sqdist (scale2 ` A) (scale2 ` B)) ((real_of_int t)\<^sup>2))"
proof (cases "t < 0")
  case True
  then have "real_of_int t / 2 < 0" by simp
  also have "0 \<le> sqrt (sqdist A B)" by (rule real_sqrt_ge_zero [OF sqdist_nonneg [OF ne]])
  finally show ?thesis using True by (simp add: cmp_def)
next
  case False
  then have "cmp (sqrt (sqdist A B)) (real_of_int t / 2) = cmp (4 * sqdist A B) (4 * (real_of_int t / 2)\<^sup>2)"
    using sqdist_nonneg [OF ne] by (simp add: cmp_scale cmp_sqrt)
  then show ?thesis using False by (simp add: sqdist_scale2 ne power_divide)
qed

lemma i128_threshold:
  assumes "in_i64 c" "0 \<le> x" "x \<le> 2 ^ 32" "0 \<le> y" "y \<le> 2 ^ 32"
  shows "i128 (i128 (i128 (2 * c) + x) + y) = 2 * c + x + y"
  using assms by (simp add: i128_id in_i128_def in_i64_def)

definition no_hole_pair :: "shape \<Rightarrow> shape \<Rightarrow> bool" where
  "no_hole_pair a b \<longleftrightarrow> (case (a, b) of (Polygon p, Polygon q) \<Rightarrow> holes p = [] \<and> holes q = []
     | (Polygon p, ConvexPoly _) \<Rightarrow> holes p = [] | (ConvexPoly _, Polygon q) \<Rightarrow> holes q = [] | _ \<Rightarrow> True)"

lemma decidable_core: "no_hole_pair a b \<Longrightarrow> decidable_pair (core_of a) (core_of b)"
  by (cases a; cases b) (auto simp: no_hole_pair_def Polygon_rings_def)

text \<open>\<open>gap_cmp\<close> without its truncations.\<close>

lemma gap_cmp_code:
  assumes "shape_ok a" "shape_ok b" "in_i64 c"
  defines "t \<equiv> 2 * c + Shape_sweep2 a + Shape_sweep2 b"
  shows "gap_cmp a b c = (if t < 0 then Greater else core_cmp (core_of a) (core_of b) t)"
    and "cmp (shape_gap a b) (real_of_int c) = (if t < 0 then Greater
      else cmp (sqdist (core_set (core_of a)) (core_set (core_of b))) ((real_of_int t)\<^sup>2))"
proof -
  note A = core_of_exact [OF assms(1)] and B = core_of_exact [OF assms(2)]
  have t: "real_of_int t / 2 = real_of_int c + shape_radius b + shape_radius a"
    using A(4) B(4) by (simp add: t_def)
  show "gap_cmp a b c = (if t < 0 then Greater else core_cmp (core_of a) (core_of b) t)"
    using A(5,6) B(5,6) by (simp add: gap_cmp_def i128_threshold [OF assms(3)] t_def with_core_def)
  have "cmp (shape_gap a b) (real_of_int c) = cmp (sqrt (sqdist (shape_core a) (shape_core b))) (real_of_int t / 2)"
    unfolding t shape_gap_def by (simp only: cmp_shift)
  also have "\<dots> = (if t < 0 then Greater
      else cmp (sqdist (core_set (core_of a)) (core_set (core_of b))) ((real_of_int t)\<^sup>2))"
    unfolding A(2) B(2) by (rule cmp_nm [OF A(3) B(3)])
  finally show "cmp (shape_gap a b) (real_of_int c) = (if t < 0 then Greater
      else cmp (sqdist (core_set (core_of a)) (core_set (core_of b))) ((real_of_int t)\<^sup>2))" .
qed

lemma gap_cmp_gap:
  assumes "shape_ok a" "shape_ok b" "no_hole_pair a b" "in_i64 c"
  shows "gap_cmp a b c = cmp (shape_gap a b) (real_of_int c)"
  using core_cmp_exact [OF core_of_exact(1) core_of_exact(1) decidable_core] assms by (simp add: gap_cmp_code)

lemma gap_cmp_commute: "shape_ok a \<Longrightarrow> shape_ok b \<Longrightarrow> in_i64 c \<Longrightarrow> gap_cmp a b c = gap_cmp b a c"
  using core_cmp_commute [OF core_of_exact(1) core_of_exact(1)] by (simp add: gap_cmp_code algebra_simps)

text \<open>Holes or not, the comparison is never below the true one.\<close>

lemma gap_cmp_ge:
  assumes "shape_ok a" "shape_ok b" "in_i64 c"
  shows "cmp (shape_gap a b) (real_of_int c) \<le> gap_cmp a b c"
  unfolding gap_cmp_code [OF assms] using core_cmp_ge [OF core_of_exact(1) core_of_exact(1)] assms
  by (auto simp only: not_less order.refl split: if_split)

section \<open>Copper: the swept point sets of two shapes\<close>

definition copper :: "shape \<Rightarrow> rpt set" where
  "copper s = {x. \<exists>c \<in> shape_core s. d2 x c \<le> (shape_radius s)\<^sup>2}"

definition as_complex :: "rpt \<Rightarrow> complex" where
  "as_complex x = Complex (fst x) (snd x)"

lemma dist_complex: "sqrt (d2 x y) = cmod (as_complex x - as_complex y)"
  by (simp add: d2_def as_complex_def cmod_def)

lemma dist_triangle4: "sqrt (d2 p q) \<le> sqrt (d2 p x) + sqrt (d2 x y) + sqrt (d2 y q)"
proof -
  have "as_complex p - as_complex q =
    (as_complex p - as_complex x) + ((as_complex x - as_complex y) + (as_complex y - as_complex q))" by simp
  then show ?thesis
    unfolding dist_complex
    using norm_triangle_ineq [of "as_complex p - as_complex x" "(as_complex x - as_complex y) + (as_complex y - as_complex q)"]
      norm_triangle_ineq [of "as_complex x - as_complex y" "as_complex y - as_complex q"] by simp
qed

lemma d2_lerp_lerp: "d2 (lerp p q s) (lerp p q u) = (u - s)\<^sup>2 * d2 p q"
  by (simp add: d2_def lerp_alt power2_eq_square algebra_simps)

text \<open>Two discs whose centres are \<open>D\<close> apart come within \<open>max 0 (D - r1 - r2)\<close> of each other.\<close>

lemma discs_closest:
  assumes r: "0 \<le> r1" "0 \<le> r2"
  shows "\<exists>x y. d2 x p \<le> r1\<^sup>2 \<and> d2 y q \<le> r2\<^sup>2 \<and> sqrt (d2 x y) = max 0 (sqrt (d2 p q) - r1 - r2)"
proof -
  define D where "D = sqrt (d2 p q)"
  have D: "0 \<le> D" "d2 p q = D\<^sup>2" by (simp_all add: D_def)
  define s where "s = (if D \<le> r1 then 1 else r1 / D)"
  define u where "u = (if D \<le> r1 + r2 then s else 1 - r2 / D)"
  have s: "0 \<le> s" "s * D \<le> r1" and u: "0 \<le> 1 - u" "(1 - u) * D \<le> r2" and su: "(u - s) * D = max 0 (D - r1 - r2)"
    using D(1) r by (auto simp: s_def u_def field_simps)
  let ?x = "lerp p q s" and ?y = "lerp p q u"
  have "d2 ?x p = (s * D)\<^sup>2" "d2 ?y q = ((1 - u) * D)\<^sup>2" "d2 ?x ?y = ((u - s) * D)\<^sup>2"
    using d2_lerp_lerp [of p q s 0] d2_lerp_lerp [of p q u 1] d2_lerp_lerp [of p q s u]
    by (simp_all add: D(2) power_mult_distrib)
  moreover have "(s * D)\<^sup>2 \<le> r1\<^sup>2" "((1 - u) * D)\<^sup>2 \<le> r2\<^sup>2"
    using s u D(1) by (intro power_mono; simp)+
  ultimately show ?thesis
    unfolding D_def [symmetric] by (intro exI [of _ ?x] exI [of _ ?y]) (simp add: su)
qed

lemma shape_radius_nonneg: "shape_ok s \<Longrightarrow> 0 \<le> shape_radius s"
  by (cases s) (auto simp: segment_ok_def circle_ok_def convex_poly_ok_def)

text \<open>The signed gap bounds every pair of copper points, and pairs come arbitrarily close to it.\<close>

lemma shape_gap_le:
  assumes ok: "shape_ok a" "shape_ok b" and x: "x \<in> copper a" and y: "y \<in> copper b"
  shows "shape_gap a b \<le> sqrt (d2 x y)"
proof -
  obtain c d where c: "c \<in> shape_core a" "d2 x c \<le> (shape_radius a)\<^sup>2" and d: "d \<in> shape_core b" "d2 y d \<le> (shape_radius b)\<^sup>2"
    using x y by (auto simp: copper_def simp del: split_paired_Ex)
  have "sqrt (d2 c x) \<le> shape_radius a" "sqrt (d2 y d) \<le> shape_radius b"
    using c(2) d(2) shape_radius_nonneg ok by (auto simp: real_le_lsqrt d2_commute [of c] intro!: real_le_lsqrt)
  moreover have "sqrt (sqdist (shape_core a) (shape_core b)) \<le> sqrt (d2 c d)"
    using sqdist_le [OF c(1) d(1)] by simp
  ultimately show ?thesis using dist_triangle4 [of c d x y] unfolding shape_gap_def by linarith
qed

lemma shape_gap_approached:
  assumes ok: "shape_ok a" "shape_ok b" and m: "shape_gap a b < m" "0 < m"
  shows "\<exists>x \<in> copper a. \<exists>y \<in> copper b. sqrt (d2 x y) < m"
proof -
  let ?r = "m + shape_radius a + shape_radius b"
  have nn: "0 \<le> shape_radius a" "0 \<le> shape_radius b" using shape_radius_nonneg ok by auto
  have "\<exists>c \<in> shape_core a. \<exists>d \<in> shape_core b. sqrt (d2 c d) < ?r"
  proof (rule ccontr)
    assume no: "\<not> ?thesis"
    have "?r\<^sup>2 \<le> sqdist (shape_core a) (shape_core b)"
    proof (rule sqdist_ge)
      fix c d assume "c \<in> shape_core a" "d \<in> shape_core b"
      then have "?r \<le> sqrt (d2 c d)" using no by force
      then have "?r\<^sup>2 \<le> (sqrt (d2 c d))\<^sup>2" using nn m by (intro power_mono) auto
      then show "?r\<^sup>2 \<le> d2 c d" by simp
    qed (use core_of_exact(3) ok in auto)
    then have "?r \<le> sqrt (sqdist (shape_core a) (shape_core b))" using nn m by (intro real_le_rsqrt)
    then show False using m(1) by (simp add: shape_gap_def)
  qed
  then obtain c d where cd: "c \<in> shape_core a" "d \<in> shape_core b" "sqrt (d2 c d) < ?r" by blast
  from discs_closest [OF nn, of c d] obtain x y
    where xy: "d2 x c \<le> (shape_radius a)\<^sup>2" "d2 y d \<le> (shape_radius b)\<^sup>2"
      "sqrt (d2 x y) = max 0 (sqrt (d2 c d) - shape_radius a - shape_radius b)" by blast
  then have "x \<in> copper a" "y \<in> copper b" using cd by (auto simp: copper_def simp del: split_paired_Ex)
  moreover have "sqrt (d2 x y) < m" using xy(3) cd(3) m(2) by simp
  ultimately show ?thesis by blast
qed

text \<open>The shape of every threshold predicate: double, refuse a negative threshold, compare cores.\<close>

lemma threshold_cmp:
  assumes "core_ok a" "core_ok b" "decidable_pair a b"
    and "core_set a = scale2 ` A" "core_set b = scale2 ` B" and ne: "A \<noteq> {}" "B \<noteq> {}" and "in_i64 d"
  shows "(let t = i128 (2 * d) in if t < 0 then Greater else core_cmp a b t) =
    cmp (sqrt (sqdist A B)) (real_of_int d)"
proof -
  have "i128 (2 * d) = 2 * d" using assms(8) by (simp add: i128_id in_i128_def in_i64_def)
  then show ?thesis
    using cmp_nm [OF ne, of "2 * d"] core_cmp_exact [OF assms(1-3), of "2 * d"] assms(4,5) by simp
qed

lemma core_nm [simp]:
  "point_ok p \<Longrightarrow> core_ok (Core_Point (dbl p))"
  "point_ok p \<Longrightarrow> core_set (Core_Point (dbl p)) = scale2 ` {rp p}"
  "point_ok a \<Longrightarrow> point_ok b \<Longrightarrow> core_ok (Core_Seg (dbl a) (dbl b))"
  "point_ok a \<Longrightarrow> point_ok b \<Longrightarrow> core_set (Core_Seg (dbl a) (dbl b)) = scale2 ` segm (rp a) (rp b)"
  by (simp_all add: dbl_exact(2) pt_dbl segm_scale2)

section \<open>Properties of the public predicates\<close>

text \<open>C3. The clearance test is exact: for well-formed shapes and any \<open>i64\<close> clearance, \<open>gap_cmp\<close> is
  the comparison of the real edge-to-edge gap (the distance of the cores in the plane minus both
  sweep radii) with the clearance. Regions with holes are included against segments and circles;
  two regions are compared exactly when neither has a hole.\<close>

theorem gap_cmp_exact:
  assumes "shape_ok a" "shape_ok b" "no_hole_pair a b" "in_i64 c"
  shows "gap_cmp a b c = cmp (shape_gap a b) (real_of_int c)"
  by (rule gap_cmp_gap [OF assms])

theorem gap_cmp_exact_witness:
  "shape_gap (Segment \<lparr>seg_a = Point_new 0 0, seg_b = Point_new 80 60, seg_width = 3\<rparr>)
     (Circle \<lparr>center = Point_new 1 32, radius = 2\<rparr>) > 21
   \<and> shape_gap (Segment \<lparr>seg_a = Point_new 0 0, seg_b = Point_new 80 60, seg_width = 3\<rparr>)
     (Circle \<lparr>center = Point_new 1 32, radius = 2\<rparr>) < 22"
proof -
  let ?s = "Segment \<lparr>seg_a = Point_new 0 0, seg_b = Point_new 80 60, seg_width = 3\<rparr>"
  let ?c = "Circle \<lparr>center = Point_new 1 32, radius = 2\<rparr>"
  have ok: "shape_ok ?s" "shape_ok ?c" "no_hole_pair ?s ?c" "in_i64 21" "in_i64 22"
    by (simp_all add: segment_ok_def circle_ok_def point_ok_def in_i32_def in_i64_def no_hole_pair_def)
  have "gap_cmp ?s ?c 21 = Greater" "gap_cmp ?s ?c 22 = Less" by code_simp+
  then show ?thesis
    using gap_cmp_exact [OF ok(1-4)] gap_cmp_exact [OF ok(1-3,5)] by (simp add: cmp_def split: if_splits)
qed

text \<open>C18. For every pair of well-formed shapes, holes or not, the comparison does not depend on the order
  of its arguments and is never below the true one: a reported violation is a real one.\<close>

theorem gap_cmp_symmetric_sound:
  assumes "shape_ok a" "shape_ok b" "in_i64 c"
  shows "gap_cmp a b c = gap_cmp b a c \<and> cmp (shape_gap a b) (real_of_int c) \<le> gap_cmp a b c"
  using gap_cmp_commute gap_cmp_ge assms by blast

theorem gap_cmp_symmetric_sound_witness:
  "shape_gap (Polygon \<lparr>outline = [Point_new 0 0, Point_new 9 0, Point_new 9 9, Point_new 0 9],
       holes = [[Point_new 2 2, Point_new 2 6, Point_new 6 6, Point_new 6 2]]\<rparr>)
     (ConvexPoly \<lparr>pts = [Point_new 3 (- 3), Point_new 5 (- 3), Point_new 4 4], cp_radius = 1\<rparr>) < 1"
proof -
  let ?p = "Polygon \<lparr>outline = [Point_new 0 0, Point_new 9 0, Point_new 9 9, Point_new 0 9],
       holes = [[Point_new 2 2, Point_new 2 6, Point_new 6 6, Point_new 6 2]]\<rparr>"
  let ?q = "ConvexPoly \<lparr>pts = [Point_new 3 (- 3), Point_new 5 (- 3), Point_new 4 4], cp_radius = 1\<rparr>"
  have "shape_ok ?p" "shape_ok ?q" "in_i64 1" by code_simp+
  note all = gap_cmp_symmetric_sound [OF this]
  have "gap_cmp ?p ?q 1 = Less" by code_simp
  then show ?thesis using all [THEN conjunct2] by (simp only: cmp_le_Less of_int_1)
qed

text \<open>C11. \<open>has_clearance\<close> decides the design rule on the copper itself: for a positive clearance, and
  shapes that are not two regions of which one has a hole, it holds exactly when every point of one
  shape's copper is at least that far from every point of the other's.\<close>

theorem has_clearance_copper:
  assumes "shape_ok a" "shape_ok b" "no_hole_pair a b" "in_i64 c" "0 < c"
  shows "has_clearance a b c \<longleftrightarrow> (\<forall>x \<in> copper a. \<forall>y \<in> copper b. real_of_int c \<le> sqrt (d2 x y))"
proof -
  have "has_clearance a b c \<longleftrightarrow> real_of_int c \<le> shape_gap a b"
    unfolding has_clearance_def gap_cmp_gap [OF assms(1-4)] by (auto simp: cmp_def)
  also have "\<dots> \<longleftrightarrow> (\<forall>x \<in> copper a. \<forall>y \<in> copper b. real_of_int c \<le> sqrt (d2 x y))"
    using shape_gap_le [OF assms(1,2)] shape_gap_approached [OF assms(1,2), of "real_of_int c"] assms(5)
    by (meson not_le of_int_0_less_iff order.trans)
  finally show ?thesis .
qed

theorem has_clearance_copper_witness:
  "{(x, y). x \<in> copper (Circle \<lparr>center = Point_new 0 0, radius = 10\<rparr>) \<and>
     y \<in> copper (Segment \<lparr>seg_a = Point_new 30 (- 7), seg_b = Point_new 30 40, seg_width = 4\<rparr>) \<and>
     sqrt (d2 x y) < 18} = {}"
proof -
  let ?c = "Circle \<lparr>center = Point_new 0 0, radius = 10\<rparr>"
  let ?s = "Segment \<lparr>seg_a = Point_new 30 (- 7), seg_b = Point_new 30 40, seg_width = 4\<rparr>"
  have "shape_ok ?c" "shape_ok ?s" "no_hole_pair ?c ?s" "in_i64 18" "0 < (18 :: int)"
    by (simp_all add: segment_ok_def circle_ok_def point_ok_def in_i32_def in_i64_def no_hole_pair_def)
  note iff = has_clearance_copper [OF this]
  have "has_clearance ?c ?s 18" by code_simp
  then show ?thesis using iff by (auto simp: not_less [symmetric] simp del: not_less split_paired_All)
qed

text \<open>The three distance predicates equal the comparison of a real distance with the threshold, for
  all \<open>i32\<close> points and every \<open>i64\<close> distance, negative and huge ones included: point to segment,
  segment to segment, and segment to a polygon with holes (whose inside counts as distance zero).\<close>

theorem distance_cmp_exact:
  assumes "point_ok a" "point_ok b" "point_ok c" "point_ok d" "polygon_ok poly" "in_i64 distance"
  shows "point_segment_distance_cmp a c d distance =
      cmp (sqrt (sqdist {rp a} (segm (rp c) (rp d)))) (real_of_int distance)
    \<and> segment_segment_distance_cmp a b c d distance =
      cmp (sqrt (sqdist (segm (rp a) (rp b)) (segm (rp c) (rp d)))) (real_of_int distance)
    \<and> segment_polygon_distance_cmp a b poly distance =
      cmp (sqrt (sqdist (segm (rp a) (rp b)) (shape_core (Polygon poly)))) (real_of_int distance)"
proof (intro conjI)
  note ok = assms(1-4) and i = assms(6)
  show "point_segment_distance_cmp a c d distance = cmp (sqrt (sqdist {rp a} (segm (rp c) (rp d)))) (real_of_int distance)"
    using threshold_cmp [OF core_nm(1,3) _ core_nm(2,4) _ _ i, of a c d] ok
    by (simp add: point_segment_distance_cmp_def Let_def split: if_splits)
  show "segment_segment_distance_cmp a b c d distance =
      cmp (sqrt (sqdist (segm (rp a) (rp b)) (segm (rp c) (rp d)))) (real_of_int distance)"
    using threshold_cmp [OF core_nm(3,3) _ core_nm(4,4) _ _ i, of a b c d] ok
    by (simp add: segment_segment_distance_cmp_def Let_def split: if_splits)
  have P: "shape_ok (Polygon poly)" using assms(5) by simp
  show "segment_polygon_distance_cmp a b poly distance =
      cmp (sqrt (sqdist (segm (rp a) (rp b)) (shape_core (Polygon poly)))) (real_of_int distance)"
    using threshold_cmp [OF core_nm(3) core_of_exact(1) [OF P] _ core_nm(4) core_of_exact(2) [OF P] _ core_of_exact(3) [OF P] i, of a b] ok
    by (simp add: segment_polygon_distance_cmp_def Let_def split: if_splits)
qed


theorem distance_cmp_exact_witness:
  "sqrt (sqdist (segm (0, 0) (80, 60)) (segm (- 7, 34) (1, 32))) = 25"
proof -
  let ?a = "Point_new 0 0" and ?b = "Point_new 80 60" and ?c = "Point_new (- 7) 34" and ?d = "Point_new 1 32"
  let ?poly = "\<lparr>outline = [Point_new 0 0, Point_new 9 0, Point_new 9 9], holes = []\<rparr>"
  have "point_ok ?a" "point_ok ?b" "point_ok ?c" "point_ok ?d" "polygon_ok ?poly" "in_i64 25"
    by code_simp+
  note exact = distance_cmp_exact [OF this]
  have "segment_segment_distance_cmp ?a ?b ?c ?d 25 = Equal" by code_simp
  then show ?thesis using exact by (simp add: rp_def cmp_def split: if_splits)
qed

text \<open>The segment-crossing test is exact: it holds if and only if the two closed segments have a
  common point in the real plane, touching ends, overlaps and degenerate segments included.\<close>

theorem segments_intersect_exact:
  assumes "point_ok a" "point_ok b" "point_ok c" "point_ok d"
  shows "segments_intersect a b c d \<longleftrightarrow> segm (rp a) (rp b) \<inter> segm (rp c) (rp d) \<noteq> {}"
proof -
  have "segments_intersect a b c d \<longleftrightarrow> (\<exists>x. x \<in> scale2 ` segm (rp a) (rp b) \<and> x \<in> scale2 ` segm (rp c) (rp d))"
    using assms by (simp add: segments_intersect_def seg_intersect_exact dbl_exact(2) pt_dbl segm_scale2 del: split_paired_Ex)
  then show ?thesis by (metis (no_types, lifting) disjoint_iff in_scale2_image scale2_halve(2))
qed

theorem segments_intersect_exact_witness:
  "segm (0, 0) (10, 4) \<inter> segm (5, 2) (5, 90) \<noteq> {} \<and> segm (0, 0) (10, 4) \<inter> segm (5, 3) (5, 90) = {}"
proof -
  let ?a = "Point_new 0 0" and ?b = "Point_new 10 4" and ?c = "Point_new 5 2" and ?c' = "Point_new 5 3" and ?d = "Point_new 5 90"
  have ok: "point_ok ?a" "point_ok ?b" "point_ok ?c" "point_ok ?d" "point_ok ?c'" by code_simp+
  have "segments_intersect ?a ?b ?c ?d" "\<not> segments_intersect ?a ?b ?c' ?d" by code_simp+
  then show ?thesis
    using segments_intersect_exact [OF ok(1-4)] segments_intersect_exact [OF ok(1,2,5,4)] by (simp add: rp_def)
qed

text \<open>C17. Point location in a polygon with holes is exact: \<open>Boundary\<close> for the points of an edge of any
  ring, \<open>Inside\<close> for the rest of the even-odd region, \<open>Outside\<close> otherwise; and the answer cannot
  change along a straight path that touches no edge.\<close>

theorem point_in_polygon_exact:
  assumes "point_ok p" "point_ok q" "polygon_ok poly"
  shows "point_in_polygon p poly = (if rp p \<in> boundary (rings_edges (Polygon_rings poly)) then Boundary
      else if rp p \<in> shape_core (Polygon poly) then Inside else Outside)
    \<and> (segm (rp p) (rp q) \<inter> boundary (rings_edges (Polygon_rings poly)) = {} \<longrightarrow>
      point_in_polygon p poly = point_in_polygon q poly)"
proof -
  let ?es = "rings_edges (Polygon_rings poly)"
  have rok: "rings_ok (Polygon_rings poly)" using assms(3) by (rule shape_rings_ok(2))
  have loc: "point_in_polygon p poly = (if rp p \<in> boundary ?es then Boundary
      else if rp p \<in> region ?es then Inside else Outside)" if "point_ok p" for p
    using that by (simp add: point_in_polygon_def point_in_rings_exact dbl_exact(2) rok pt_dbl pt_edges_scale2
        boundary_scale2 region_scale2 in_scale2_image)
  have bal: "balanced ?es" unfolding rings_edges_def by (rule balanced_concat) (rule balanced_ring)
  have "rp p \<in> region ?es \<longleftrightarrow> rp q \<in> region ?es" "rp p \<notin> boundary ?es" "rp q \<notin> boundary ?es"
    if no: "segm (rp p) (rp q) \<inter> boundary ?es = {}"
  proof -
    show "rp p \<in> region ?es \<longleftrightarrow> rp q \<in> region ?es"
      using region_path [OF bal, of "rp p" "rp q"] region_path [OF bal, of "rp q" "rp p"] no
        segm_commute [of "rp p" "rp q"] by blast
    show "rp p \<notin> boundary ?es" "rp q \<notin> boundary ?es" using no segm_ends by blast+
  qed
  then show ?thesis using loc assms(1,2) by simp
qed

theorem point_in_polygon_exact_witness:
  "(5, 5) \<notin> shape_core (Polygon \<lparr>outline = [Point_new 0 0, Point_new 10 0, Point_new 10 10, Point_new 0 10],
     holes = [[Point_new 4 4, Point_new 4 6, Point_new 6 6, Point_new 6 4]]\<rparr>)"
proof -
  let ?poly = "\<lparr>outline = [Point_new 0 0, Point_new 10 0, Point_new 10 10, Point_new 0 10],
     holes = [[Point_new 4 4, Point_new 4 6, Point_new 6 6, Point_new 6 4]]\<rparr>"
  have "point_ok (Point_new 5 5)" "point_ok (Point_new 5 5)" "polygon_ok ?poly" by code_simp+
  note exact = point_in_polygon_exact [OF this]
  have "point_in_polygon (Point_new 5 5) ?poly = Outside" by code_simp
  then show ?thesis using exact by (simp add: rp_def split: if_splits)
qed

lemma swept_cmp_nonneg:
  assumes "point_ok a" "point_ok b" "in_i32 w" "0 \<le> w" "shape_ok s" "in_i64 c" "0 \<le> c"
  shows "point_shape_distance_cmp a w s c =
      cmp (sqrt (sqdist {rp a} (shape_core s)) - real_of_int w / 2 - shape_radius s) (real_of_int c)
    \<and> segment_shape_distance_cmp a b w s c = gap_cmp (Segment \<lparr>seg_a = a, seg_b = b, seg_width = w\<rparr>) s c"
proof -
  note S = core_of_exact [OF assms(5)]
  define t where "t = 2 * c + w + Shape_sweep2 s"
  have w: "w \<le> 2 ^ 32" using assms(3) by (simp add: in_i32_def)
  have t: "i128 (i128 (i128 (2 * c) + w) + Shape_sweep2 s) = t" "0 \<le> t"
    using i128_threshold [OF assms(6,4) w S(5,6)] assms(4,7) S(5) by (simp_all add: t_def)
  have half: "real_of_int t / 2 = real_of_int c + shape_radius s + real_of_int w / 2"
    using S(4) by (simp add: t_def)
  have "decidable_pair (Core_Point (dbl a)) (core_of s)" by simp
  from core_cmp_exact [OF core_nm(1) [OF assms(1)] S(1) this t(2)]
  have "point_shape_distance_cmp a w s c = cmp (sqrt (sqdist {rp a} (shape_core s))) (real_of_int t / 2)"
    using assms(1,4,7) cmp_nm [of "{rp a}" "shape_core s" t] S(2,3) t(2)
    by (simp add: point_shape_distance_cmp_def with_core_def t del: core_set.simps)
  moreover have "segment_shape_distance_cmp a b w s c = gap_cmp (Segment \<lparr>seg_a = a, seg_b = b, seg_width = w\<rparr>) s c"
    using assms(4,7) t by (simp add: segment_shape_distance_cmp_def gap_cmp_def with_core_def)
  ultimately show ?thesis unfolding half by (simp only: cmp_shift simp_thms)
qed

text \<open>C19. The swept tests need no shape to be built: with a width and a clearance that are not negative
  the disc test compares the real distance minus both radii with the clearance, odd widths included,
  and the track test is \<open>gap_cmp\<close> of the track's segment. With a negative width or clearance both
  report that there is room, whatever the shapes (\<open>swept_negative_clearance\<close> shows that \<open>gap_cmp\<close>
  of the segment need not).\<close>

theorem swept_cmp_exact:
  assumes "point_ok a" "point_ok b" "in_i32 w" "shape_ok s" "in_i64 c"
  shows "if 0 \<le> c \<and> 0 \<le> w
    then point_shape_distance_cmp a w s c = cmp (sqrt (sqdist {rp a} (shape_core s)) - real_of_int w / 2 - shape_radius s) (real_of_int c) \<and>
      segment_shape_distance_cmp a b w s c = gap_cmp (Segment \<lparr>seg_a = a, seg_b = b, seg_width = w\<rparr>) s c
    else point_shape_distance_cmp a w s c = Greater \<and> segment_shape_distance_cmp a b w s c = Greater"
  using swept_cmp_nonneg [OF assms(1,2,3) _ assms(4,5)]
  by (auto simp: point_shape_distance_cmp_def segment_shape_distance_cmp_def)

theorem swept_cmp_exact_witness:
  "sqrt (sqdist {(0, 0)} (segm (10, - 3) (10, 8))) - 5 / 2 - 3 / 2 = 6"
proof -
  let ?s = "Segment \<lparr>seg_a = Point_new 10 (- 3), seg_b = Point_new 10 8, seg_width = 3\<rparr>"
  have "point_ok (Point_new 0 0)" "point_ok (Point_new 0 0)" "in_i32 5" "shape_ok ?s" "in_i64 6"
    by code_simp+
  note exact = swept_cmp_exact [OF this]
  have "point_shape_distance_cmp (Point_new 0 0) 5 ?s 6 = Equal" by code_simp
  then show ?thesis using exact by (simp add: rp_def cmp_def split: if_splits)
qed

text \<open>Where the swept test is not \<open>gap_cmp\<close> of the segment: copper that overlaps deeply, and a negative clearance.\<close>

lemma swept_negative_clearance:
  "segment_shape_distance_cmp (Point_new 0 0) (Point_new 100 0) 20 (Circle \<lparr>center = Point_new 50 0, radius = 10\<rparr>) (- 1) = Greater"
  "gap_cmp (Segment \<lparr>seg_a = Point_new 0 0, seg_b = Point_new 100 0, seg_width = 20\<rparr>) (Circle \<lparr>center = Point_new 50 0, radius = 10\<rparr>) (- 1) = Less"
  by code_simp+

end
