(* ===== verification/Geom_Index.thy ===== *)
theory Geom_Index
  imports Geom_Exact "HOL-Library.Multiset"
begin

text \<open>
  \<open>crates/konnect-geom/src/index.rs\<close> and \<open>polyindex.rs\<close>: the layer index over bounding boxes and the
  polygon with an edge index. The R-tree itself is the crate \<open>rstar\<close>, which is not part of the
  repository: it is the parameter \<open>R\<close>, a record of the tree operations the code calls, and
  \<open>rtree_law R\<close> says what its documentation promises (a query returns the stored entries whose
  envelopes intersect, in any order). The lemmas show that visiting only the edges near the other
  shape loses nothing: the indexed answers are the exact ones.
\<close>

section \<open>Entries and trees\<close>

record index_entry =
  entry_id :: nat
  entry_bbox :: bbox

type_synonym aabb = "(int \<times> int) \<times> (int \<times> int)"

record 'tr rtree =
  rt_new :: 'tr
  rt_bulk_load :: "index_entry list \<Rightarrow> 'tr"
  rt_insert :: "'tr \<Rightarrow> index_entry \<Rightarrow> 'tr"
  rt_remove :: "'tr \<Rightarrow> index_entry \<Rightarrow> 'tr \<times> index_entry option"
  rt_size :: "'tr \<Rightarrow> nat"
  rt_locate :: "'tr \<Rightarrow> aabb \<Rightarrow> index_entry list"

definition envelope :: "bbox \<Rightarrow> aabb" where
  "envelope b = ((px (bmin b), py (bmin b)), (px (bmax b), py (bmax b)))"

definition aabb_meet :: "aabb \<Rightarrow> aabb \<Rightarrow> bool" where
  "aabb_meet e f \<longleftrightarrow> fst (fst e) \<le> fst (snd f) \<and> fst (fst f) \<le> fst (snd e) \<and>
     snd (fst e) \<le> snd (snd f) \<and> snd (fst f) \<le> snd (snd e)"

text \<open>The documented behaviour of the tree; \<open>contents\<close> is the multiset of entries it stores.\<close>

definition rtree_law :: "'tr rtree \<Rightarrow> ('tr \<Rightarrow> index_entry multiset) \<Rightarrow> bool" where
  "rtree_law R contents \<longleftrightarrow>
     contents (rt_new R) = {#} \<and>
     (\<forall>es. contents (rt_bulk_load R es) = mset es) \<and>
     (\<forall>t e. contents (rt_insert R t e) = add_mset e (contents t)) \<and>
     (\<forall>t e. rt_remove R t e = (if e \<in># contents t then (fst (rt_remove R t e), Some e) else (t, None)) \<and>
        (e \<in># contents t \<longrightarrow> contents (fst (rt_remove R t e)) = contents t - {#e#})) \<and>
     (\<forall>t. rt_size R t = size (contents t)) \<and>
     (\<forall>t q. mset (rt_locate R t q) = filter_mset (\<lambda>e. aabb_meet (envelope (entry_bbox e)) q) (contents t))"

section \<open>The layer index\<close>

record 'tr layer_index =
  tree :: 'tr

definition LayerIndex_new :: "'tr rtree \<Rightarrow> 'tr layer_index" where
  "LayerIndex_new R = \<lparr>tree = rt_new R\<rparr>"

definition LayerIndex_bulk_load :: "'tr rtree \<Rightarrow> index_entry list \<Rightarrow> 'tr layer_index" where
  "LayerIndex_bulk_load R entries = \<lparr>tree = rt_bulk_load R entries\<rparr>"

definition LayerIndex_insert :: "'tr rtree \<Rightarrow> 'tr layer_index \<Rightarrow> index_entry \<Rightarrow> 'tr layer_index" where
  "LayerIndex_insert R li entry = li\<lparr>tree := rt_insert R (tree li) entry\<rparr>"

definition LayerIndex_remove :: "'tr rtree \<Rightarrow> 'tr layer_index \<Rightarrow> index_entry \<Rightarrow> 'tr layer_index \<times> bool" where
  "LayerIndex_remove R li entry =
     (let (t, found) = rt_remove R (tree li) entry in (li\<lparr>tree := t\<rparr>, found \<noteq> None))"

definition LayerIndex_len :: "'tr rtree \<Rightarrow> 'tr layer_index \<Rightarrow> nat" where
  "LayerIndex_len R li = rt_size R (tree li)"

definition LayerIndex_is_empty :: "'tr rtree \<Rightarrow> 'tr layer_index \<Rightarrow> bool" where
  "LayerIndex_is_empty R li \<longleftrightarrow> rt_size R (tree li) = 0"

definition LayerIndex_query_entries :: "'tr rtree \<Rightarrow> 'tr layer_index \<Rightarrow> bbox \<Rightarrow> index_entry list" where
  "LayerIndex_query_entries R li b = rt_locate R (tree li) (envelope b)"

definition LayerIndex_query :: "'tr rtree \<Rightarrow> 'tr layer_index \<Rightarrow> bbox \<Rightarrow> nat list" where
  "LayerIndex_query R li b = remdups_adj (sort (map entry_id (LayerIndex_query_entries R li b)))"

section \<open>One index per layer\<close>

record 'tr layered_index =
  layers :: "'tr layer_index list"

definition LayeredIndex_new :: "'tr rtree \<Rightarrow> nat \<Rightarrow> 'tr layered_index" where
  "LayeredIndex_new R layer_count = \<lparr>layers = map (\<lambda>_. LayerIndex_new R) [0..<layer_count]\<rparr>"

definition LayeredIndex_layer :: "'tr layered_index \<Rightarrow> nat \<Rightarrow> 'tr layer_index option" where
  "LayeredIndex_layer ix layer = (if layer < length (layers ix) then Some (layers ix ! layer) else None)"

definition LayeredIndex_set_layer :: "'tr layered_index \<Rightarrow> nat \<Rightarrow> 'tr layer_index \<Rightarrow> 'tr layered_index" where
  "LayeredIndex_set_layer ix layer index =
     (if layer < length (layers ix) then ix\<lparr>layers := (layers ix)[layer := index]\<rparr> else ix)"

section \<open>The indexed polygon\<close>

record 'tr indexed_polygon =
  ip_poly :: polygon
  ip_edges :: "(point \<times> point) list"
  ip_tree :: "'tr layer_index"
  ip_bbox :: bbox

text \<open>\<open>i as u32\<close> keeps the low 32 bits of an edge's position.\<close>

definition IndexedPolygon_new :: "'tr rtree \<Rightarrow> polygon \<Rightarrow> 'tr indexed_polygon" where
  "IndexedPolygon_new R poly =
     (let edges = concat (map ring_pairs (Polygon_rings poly));
          entries = map (\<lambda>(i, a, b). \<lparr>entry_id = nat (int i mod 2 ^ 32), entry_bbox = BBox_new a b\<rparr>) (enumerate 0 edges);
          bbox = Polygon_bbox poly
      in \<lparr>ip_poly = poly, ip_edges = edges, ip_tree = LayerIndex_bulk_load R entries, ip_bbox = bbox\<rparr>)"

definition clamp_coord :: "int \<Rightarrow> int" where
  "clamp_coord v = max 0 (min v (2 ^ 31 - 1))"

text \<open>The doubled edges a box query visits, in tree order.\<close>

definition visit :: "'tr rtree \<Rightarrow> 'tr indexed_polygon \<Rightarrow> bbox \<Rightarrow> (p2 \<times> p2) list" where
  "visit R ip q = map (\<lambda>e. case ip_edges ip ! entry_id e of (a, b) \<Rightarrow> (dbl a, dbl b))
     (LayerIndex_query_entries R (ip_tree ip) q)"

definition IndexedPolygon_containment :: "'tr rtree \<Rightarrow> 'tr indexed_polygon \<Rightarrow> point \<Rightarrow> containment" where
  "IndexedPolygon_containment R ip p =
     (if \<not> BBox_contains (ip_bbox ip) p then Outside
      else let q = dbl p; ray = BBox_new p (Point_new (px (bmax (ip_bbox ip))) (py p))
        in point_in_edges q False (visit R ip ray))"

text \<open>\<open>as i32\<close> truncates; \<open>/\<close> on \<open>i64\<close> rounds toward zero.\<close>

definition undbl :: "p2 \<Rightarrow> point" where
  "undbl p = Point_new (i32 (sgn (qx p) * (\<bar>qx p\<bar> div 2))) (i32 (sgn (qy p) * (\<bar>qy p\<bar> div 2)))"

fun core_probe :: "core \<Rightarrow> point" where
  "core_probe (Core_Point p) = undbl p"
| "core_probe (Core_Seg a b) = undbl a"
| "core_probe (Core_Region r) = r ! 0 ! 0"

definition IndexedPolygon_gap_cmp :: "'tr rtree \<Rightarrow> 'tr indexed_polygon \<Rightarrow> shape \<Rightarrow> int \<Rightarrow> ordering" where
  "IndexedPolygon_gap_cmp R ip shape clearance =
     (let t = i128 (i128 (2 * clearance) + Shape_sweep2 shape)
      in if t < 0 then Greater
         else let reach = BBox_inflate (Shape_bbox shape) (clamp_coord clearance)
           in if \<not> BBox_intersects reach (ip_bbox ip) then Greater
              else with_core shape (\<lambda>core.
                if IndexedPolygon_containment R ip (core_probe core) \<noteq> Outside then zero_cmp t
                else min_cmp (map (\<lambda>(a, b). core_cmp core (Core_Seg a b) t) (visit R ip reach))))"

definition IndexedPolygon_touches :: "'tr rtree \<Rightarrow> 'tr indexed_polygon \<Rightarrow> shape \<Rightarrow> bool" where
  "IndexedPolygon_touches R ip shape =
     (let t = Shape_sweep2 shape; reach = Shape_bbox shape
      in if \<not> BBox_intersects reach (ip_bbox ip) then False
         else with_core shape (\<lambda>core.
           IndexedPolygon_containment R ip (core_probe core) \<noteq> Outside \<or>
           list_ex (\<lambda>(a, b). core_cmp core (Core_Seg a b) t \<noteq> Greater) (visit R ip reach)))"

definition IndexedPolygon_gap_cmp_polygon ::
    "'tr rtree \<Rightarrow> 'tr indexed_polygon \<Rightarrow> 'tr indexed_polygon \<Rightarrow> int \<Rightarrow> ordering" where
  "IndexedPolygon_gap_cmp_polygon R ip other clearance =
     (let t = i128 (2 * clearance)
      in if t < 0 then Greater
         else let c = clamp_coord clearance
           in if \<not> BBox_intersects (BBox_inflate (ip_bbox ip) c) (ip_bbox other) then Greater
              else if IndexedPolygon_containment R other (outline (ip_poly ip) ! 0) \<noteq> Outside \<or>
                      IndexedPolygon_containment R ip (outline (ip_poly other) ! 0) \<noteq> Outside
              then zero_cmp t
              else let (small, large) = (if length (ip_edges ip) \<le> length (ip_edges other) then (ip, other) else (other, ip));
                       window = BBox_inflate (ip_bbox large) c
                in min_cmp (concat (map (\<lambda>(a, b).
                     let eb = BBox_new a b
                     in if \<not> BBox_intersects eb window then []
                        else map (\<lambda>(c0, c1). seg_seg_cmp (dbl a) (dbl b) c0 c1 t) (visit R large (BBox_inflate eb c)))
                     (ip_edges small))))"

definition IndexedPolygon_point_distance_cmp :: "'tr rtree \<Rightarrow> 'tr indexed_polygon \<Rightarrow> point \<Rightarrow> int \<Rightarrow> ordering" where
  "IndexedPolygon_point_distance_cmp R ip p distance =
     (let t = i128 (2 * distance)
      in if t < 0 then Greater
         else if IndexedPolygon_containment R ip p \<noteq> Outside then zero_cmp t
         else let q = dbl p
           in min_cmp (map (\<lambda>(a, b). point_seg_cmp q a b t)
                (visit R ip (BBox_inflate (BBox_point p) (clamp_coord distance)))))"

section \<open>What a query visits\<close>

definition poly_edges :: "polygon \<Rightarrow> (point \<times> point) list" where
  "poly_edges poly = concat (map ring_pairs (Polygon_rings poly))"

text \<open>
  The polygons the index is exact for: valid, at most \<open>2 ^ 32\<close> edges, and no hole outside the box of
  the outline (the only box the index stores for the whole region).
\<close>

definition indexable :: "polygon \<Rightarrow> bool" where
  "indexable poly \<longleftrightarrow> polygon_ok poly \<and> int (length (poly_edges poly)) \<le> 2 ^ 32 \<and>
     list_all (list_all (BBox_contains (Polygon_bbox poly))) (holes poly)"

lemma edges_poly: "edges (Polygon_rings poly) = map (map_prod dbl dbl) (poly_edges poly)"
  by (simp add: edges_def poly_edges_def map_concat comp_def map_prod_def)

lemma aabb_meet_bbox: "aabb_meet (envelope b) (envelope c) \<longleftrightarrow> BBox_intersects b c"
  by (auto simp: aabb_meet_def envelope_def BBox_intersects_def)

lemma enumerate_map:
  assumes "\<And>i x. (i, x) \<in> set (enumerate 0 xs) \<Longrightarrow> G (F (i, x)) = g x \<and> P (F (i, x)) = Q x"
  shows "map G (filter P (map F (enumerate 0 xs))) = map g (filter Q xs)"
proof -
  have "map G (filter P (map F ys)) = map g (filter Q (map snd ys))"
    if "set ys \<subseteq> set (enumerate 0 xs)" for ys
    using that assms by (induction ys) auto
  from this [of "enumerate 0 xs"] show ?thesis by simp
qed

lemma rtree_lawD:
  assumes "rtree_law R contents"
  shows "contents (rt_bulk_load R es) = mset es"
    and "mset (rt_locate R t q) = filter_mset (\<lambda>e. aabb_meet (envelope (entry_bbox e)) q) (contents t)"
  using assms unfolding rtree_law_def by blast+

lemma visit_mset:
  assumes law: "rtree_law R contents" and len: "int (length (poly_edges poly)) \<le> 2 ^ 32"
  shows "mset (visit R (IndexedPolygon_new R poly) q) =
    mset (map (map_prod dbl dbl) (filter (\<lambda>(a, b). BBox_intersects (BBox_new a b) q) (poly_edges poly)))"
proof -
  let ?E = "poly_edges poly"
  let ?F = "\<lambda>(i, a, b). \<lparr>entry_id = nat (int i mod 2 ^ 32), entry_bbox = BBox_new a b\<rparr>"
  let ?G = "\<lambda>e. case ?E ! entry_id e of (a, b) \<Rightarrow> (dbl a, dbl b)"
  let ?P = "\<lambda>e. aabb_meet (envelope (entry_bbox e)) (envelope q)"
  have "mset (visit R (IndexedPolygon_new R poly) q) =
    image_mset ?G (filter_mset ?P (mset (map ?F (enumerate 0 ?E))))"
    by (simp add: visit_def IndexedPolygon_new_def Let_def LayerIndex_query_entries_def
        LayerIndex_bulk_load_def rtree_lawD [OF law] poly_edges_def)
  also have "\<dots> = mset (map ?G (filter ?P (map ?F (enumerate 0 ?E))))"
    by (simp only: mset_map mset_filter)
  also have "map ?G (filter ?P (map ?F (enumerate 0 ?E))) =
    map (map_prod dbl dbl) (filter (\<lambda>(a, b). BBox_intersects (BBox_new a b) q) ?E)"
  proof (rule enumerate_map)
    fix i x assume "(i, x) \<in> set (enumerate 0 ?E)"
    then have i: "i < length ?E" "x = ?E ! i" by (auto simp: in_set_enumerate_eq)
    then have "nat (int i mod 2 ^ 32) = i" using len by simp
    moreover obtain a b where "?E ! i = (a, b)" by fastforce
    ultimately show "?G (?F (i, x)) = map_prod dbl dbl x \<and> ?P (?F (i, x)) = (case x of (a, b) \<Rightarrow> BBox_intersects (BBox_new a b) q)"
      using i by (simp add: aabb_meet_bbox)
  qed
  finally show ?thesis .
qed

section \<open>Containment through the index\<close>

lemma boundary_pt: "x \<in> boundary (map (map_prod pt pt) es) \<longleftrightarrow> (\<exists>e \<in> set es. x \<in> segm (pt (fst e)) (pt (snd e)))"
  by (simp add: boundary_def case_prod_unfold)

lemma point_in_edges_sub:
  assumes p: "p2_ok p" and ok: "\<And>x. x \<in> set xs \<Longrightarrow> p2_ok (fst (f x)) \<and> p2_ok (snd (f x))"
    and sub: "mset es = mset (map f (filter Q xs))"
    and keep: "\<And>x. x \<in> set xs \<Longrightarrow> pt p \<in> segm (pt (fst (f x))) (pt (snd (f x))) \<or> ray_hit (pt p) (map_prod pt pt (f x)) \<Longrightarrow> Q x"
  shows "point_in_edges p inside es = point_in_edges p inside (map f xs)"
proof -
  have in_set: "set es = f ` {x \<in> set xs. Q x}" using sub by (metis mset_eq_setD set_filter set_map)
  have on: "pt p \<in> boundary (map (map_prod pt pt) es) \<longleftrightarrow> pt p \<in> boundary (map (map_prod pt pt) (map f xs))"
    unfolding boundary_pt set_map in_set using keep by blast
  let ?H = "ray_hit (pt p) \<circ> map_prod pt pt"
  have "length (filter ?H es) = size (filter_mset ?H (mset es))" by (metis mset_filter size_mset)
  also have "\<dots> = length (filter ?H (map f (filter Q xs)))" unfolding sub by (metis mset_filter size_mset)
  also have "filter ?H (map f (filter Q xs)) = filter ?H (map f xs)"
    using keep by (induction xs) auto
  finally have hits: "length (filter (ray_hit (pt p)) (map (map_prod pt pt) es)) =
    length (filter (ray_hit (pt p)) (map (map_prod pt pt) (map f xs)))" by (simp add: filter_map comp_def)
  have "\<And>e. e \<in> set es \<Longrightarrow> p2_ok (fst e) \<and> p2_ok (snd e)" "\<And>e. e \<in> set (map f xs) \<Longrightarrow> p2_ok (fst e) \<and> p2_ok (snd e)"
    using in_set ok by auto
  then show ?thesis by (simp only: point_in_edges_exact [OF p] on hits)
qed

lemma poly_points_in_box:
  assumes "indexable poly" "(a, b) \<in> set (poly_edges poly)"
  shows "point_ok a" "point_ok b" "BBox_contains (Polygon_bbox poly) a" "BBox_contains (Polygon_bbox poly) b"
proof -
  obtain r where r: "r \<in> set (Polygon_rings poly)" "a \<in> set r" "b \<in> set r"
  proof -
    obtain r where "r \<in> set (Polygon_rings poly)" "(a, b) \<in> set (ring_pairs r)"
      using assms(2) by (auto simp: poly_edges_def)
    then show ?thesis using ring_pairs_points that by metis
  qed
  have ok: "list_all point_ok r" using assms(1) r(1)
    by (auto simp: indexable_def polygon_ok_def Polygon_rings_def ring_ok_def list_all_iff)
  show "point_ok a" "point_ok b" using ok r by (auto simp: list_all_iff)
  have "BBox_contains (Polygon_bbox poly) v" if v: "v \<in> set r" for v
  proof (cases "r = outline poly")
    case True
    then have "outline poly \<noteq> []" using v by auto
    then obtain bb where bb: "BBox_from_points (outline poly) = Some bb" by (cases "outline poly") auto
    from BBox_from_points_contains [OF _ this, of v] show ?thesis
      using ok v True by (simp add: Polygon_bbox_def bb)
  next
    case False
    then have "r \<in> set (holes poly)" using r(1) by (auto simp: Polygon_rings_def)
    then show ?thesis using assms(1) v by (auto simp: indexable_def list_all_iff)
  qed
  then show "BBox_contains (Polygon_bbox poly) a" "BBox_contains (Polygon_bbox poly) b" using r by auto
qed

lemma ip_fields:
  "ip_bbox (IndexedPolygon_new R poly) = Polygon_bbox poly"
  "ip_poly (IndexedPolygon_new R poly) = poly"
  "ip_edges (IndexedPolygon_new R poly) = poly_edges poly"
  by (simp_all add: IndexedPolygon_new_def Let_def poly_edges_def)

text \<open>An edge that passes through \<open>p\<close>, or that its rightward ray hits, has a box that meets the ray.\<close>

lemma ray_meets_edge:
  assumes ok: "point_ok p" "point_ok a" "point_ok b"
    and box: "BBox_contains bb p" "BBox_contains bb a"
    and hit: "pt (dbl p) \<in> segm (pt (dbl a)) (pt (dbl b)) \<or> ray_hit (pt (dbl p)) (pt (dbl a), pt (dbl b))"
  shows "BBox_intersects (BBox_new a b) (BBox_new p (Point_new (px (bmax bb)) (py p)))"
proof -
  have e: "pt (dbl v) = (2 * real_of_int (px v), 2 * real_of_int (py v))" if "point_ok v" for v
    using that by (simp add: pt_dbl scale2_def rp_def)
  note dbls = e [OF ok(1)] e [OF ok(2)] e [OF ok(3)]
  have "min (py a) (py b) \<le> py p \<and> py p \<le> max (py a) (py b) \<and> px p \<le> max (px a) (px b)"
    using hit
  proof
    assume "pt (dbl p) \<in> segm (pt (dbl a)) (pt (dbl b))"
    then have "xbox (pt (dbl a)) (pt (dbl b)) (pt (dbl p))" by (simp add: segm_iff)
    then show ?thesis by (simp add: dbls xbox_def min_def max_def split: if_splits)
  next
    assume h: "ray_hit (pt (dbl p)) (pt (dbl a), pt (dbl b))"
    then have ne: "(snd (pt (dbl a)) > snd (pt (dbl p))) \<noteq> (snd (pt (dbl b)) > snd (pt (dbl p)))" by (simp add: ray_hit_def)
    from ray_hit_foot [OF ne] h obtain z where "z \<in> segm (pt (dbl a)) (pt (dbl b))" "fst (pt (dbl p)) < fst z" by blast
    then have "2 * real_of_int (px p) < max (2 * real_of_int (px a)) (2 * real_of_int (px b))"
      by (simp add: segm_iff xbox_def dbls)
    then show ?thesis using ne by (auto simp: dbls max_def min_def split: if_splits)
  qed
  then show ?thesis
    using box by (auto simp: BBox_intersects_def BBox_new_def BBox_contains_def)
qed


lemma outside_box:
  assumes ix: "indexable poly" and p: "point_ok p" "\<not> BBox_contains (Polygon_bbox poly) p"
  shows "rp p \<notin> region (rings_edges (Polygon_rings poly))"
proof
  let ?b = "Polygon_bbox poly"
  assume "rp p \<in> region (rings_edges (Polygon_rings poly))"
  moreover have "balanced (rings_edges (Polygon_rings poly))"
    unfolding rings_edges_def by (rule balanced_concat) (rule balanced_ring)
  moreover have "real_of_int (px (bmin ?b)) \<le> fst a \<and> fst a \<le> real_of_int (px (bmax ?b)) \<and>
      real_of_int (py (bmin ?b)) \<le> snd a \<and> snd a \<le> real_of_int (py (bmax ?b)) \<and>
      real_of_int (px (bmin ?b)) \<le> fst b \<and> fst b \<le> real_of_int (px (bmax ?b)) \<and>
      real_of_int (py (bmin ?b)) \<le> snd b \<and> snd b \<le> real_of_int (py (bmax ?b))"
    if e: "(a, b) \<in> set (rings_edges (Polygon_rings poly))" for a b
  proof -
    have "rings_edges (Polygon_rings poly) = map (map_prod rp rp) (poly_edges poly)"
      by (simp add: rings_edges_def poly_edges_def map_concat ring_pairs_map comp_def)
    then obtain u v where "(u, v) \<in> set (poly_edges poly)" "a = rp u" "b = rp v" using e by auto
    then show ?thesis using poly_points_in_box [OF ix] by (auto simp: BBox_contains_def rp_def)
  qed
  ultimately have "BBox_contains ?b p"
    using region_in_box [of "rings_edges (Polygon_rings poly)" "px (bmin ?b)" "px (bmax ?b)" "py (bmin ?b)" "py (bmax ?b)" "rp p"]
    by (simp add: BBox_contains_def rp_def)
  then show False using p(2) by simp
qed

lemma region_pt_iff:
  assumes "rings_ok rs" "point_ok p"
  shows "pt (dbl p) \<in> region (pt_edges rs) \<longleftrightarrow> rp p \<in> region (rings_edges rs)"
  by (simp add: pt_edges_scale2 [OF assms(1)] region_scale2 pt_dbl [OF assms(2)] in_scale2_image)

lemma containment_plain:
  assumes law: "rtree_law R contents" and ix: "indexable poly" and p: "point_ok p"
  shows "IndexedPolygon_containment R (IndexedPolygon_new R poly) p = point_in_polygon p poly"
proof (cases "BBox_contains (Polygon_bbox poly) p")
  case True
  let ?ray = "BBox_new p (Point_new (px (bmax (Polygon_bbox poly))) (py p))"
  have len: "int (length (poly_edges poly)) \<le> 2 ^ 32" using ix by (simp add: indexable_def)
  have "point_in_edges (dbl p) False (visit R (IndexedPolygon_new R poly) ?ray) =
    point_in_edges (dbl p) False (map (map_prod dbl dbl) (poly_edges poly))"
  proof (rule point_in_edges_sub [OF dbl_exact(2) [OF p] _ visit_mset [OF law len]])
    fix x assume x: "x \<in> set (poly_edges poly)"
    obtain a b where ab: "x = (a, b)" by (cases x)
    note P = poly_points_in_box [OF ix x [unfolded ab]]
    show "p2_ok (fst (map_prod dbl dbl x)) \<and> p2_ok (snd (map_prod dbl dbl x))"
      using P by (simp add: ab dbl_exact(2))
    assume "pt (dbl p) \<in> segm (pt (fst (map_prod dbl dbl x))) (pt (snd (map_prod dbl dbl x))) \<or>
      ray_hit (pt (dbl p)) (map_prod pt pt (map_prod dbl dbl x))"
    then show "case x of (a, b) \<Rightarrow> BBox_intersects (BBox_new a b) ?ray"
      using ray_meets_edge [OF p P(1,2) True P(3)] by (simp add: ab)
  qed
  then show ?thesis
    using True by (simp add: IndexedPolygon_containment_def Let_def ip_fields point_in_polygon_def point_in_rings_def edges_poly)
next
  case False
  have rok: "rings_ok (Polygon_rings poly)" using ix shape_rings_ok(2) by (simp add: indexable_def)
  have "rp p \<notin> region (rings_edges (Polygon_rings poly))" by (rule outside_box [OF ix p False])
  then have "point_in_polygon p poly = Outside"
    using point_in_rings_outside [OF dbl_exact(2) [OF p] rok] region_pt_iff [OF rok p] by (auto simp: point_in_polygon_def)
  then show ?thesis using False by (simp add: IndexedPolygon_containment_def ip_fields)
qed

section \<open>Edges out of reach are farther than the clearance\<close>

lemma min_cmp_ge: "x \<le> min_cmp os \<longleftrightarrow> (\<forall>o1 \<in> set os. x \<le> o1)"
proof (induction os)
  case Nil
  then show ?case by (cases x) simp_all
qed (simp add: min_cmp_Cons)

lemma min_cmp_skip:
  assumes "set os' \<subseteq> set os" and "\<And>o1. o1 \<in> set os \<Longrightarrow> o1 \<noteq> Greater \<Longrightarrow> o1 \<in> set os'"
  shows "min_cmp os' = min_cmp os"
proof (rule antisym)
  have top: "x \<le> Greater" for x by (cases x) simp_all
  have "min_cmp os' \<le> o1" if "o1 \<in> set os" for o1
  proof (cases "o1 = Greater")
    case False
    then have "o1 \<in> set os'" using assms(2) that by blast
    then show ?thesis using min_cmp_ge [of "min_cmp os'" os'] by blast
  qed (simp add: top)
  then show "min_cmp os' \<le> min_cmp os" by (simp add: min_cmp_ge)
  show "min_cmp os \<le> min_cmp os'" using assms(1) min_cmp_ge [of "min_cmp os" os] by (auto simp: min_cmp_ge)
qed

lemma sqdist_sep:
  assumes ne: "A \<noteq> {}" "B \<noteq> {}" and f: "f = fst \<or> f = snd"
    and sep: "\<And>a. a \<in> A \<Longrightarrow> f a \<le> m" "\<And>b. b \<in> B \<Longrightarrow> n \<le> f b" and k: "0 \<le> k" "m + k < n"
  shows "k\<^sup>2 < sqdist A B"
proof -
  have "(n - m)\<^sup>2 \<le> sqdist A B"
  proof (rule sqdist_ge [OF ne])
    fix a b assume "a \<in> A" "b \<in> B"
    then have "n - m \<le> f b - f a" using sep by fastforce
    then have "(n - m)\<^sup>2 \<le> (f b - f a)\<^sup>2" using k by (intro power_mono) auto
    also have "\<dots> \<le> d2 a b" using f by (auto simp: d2_def power2_commute)
    finally show "(n - m)\<^sup>2 \<le> d2 a b" .
  qed
  moreover have "k\<^sup>2 < (n - m)\<^sup>2" using k by (intro power_strict_mono) auto
  ultimately show ?thesis by linarith
qed

definition in_box :: "bbox \<Rightarrow> rpt \<Rightarrow> bool" where
  "in_box b x \<longleftrightarrow> real_of_int (px (bmin b)) \<le> fst x \<and> fst x \<le> real_of_int (px (bmax b)) \<and>
     real_of_int (py (bmin b)) \<le> snd x \<and> snd x \<le> real_of_int (py (bmax b))"

lemma inflate_corners:
  assumes "bbox_ok b" "0 \<le> d"
  shows "px (bmin (BBox_inflate b d)) = sat32 (px (bmin b) - d)" "py (bmin (BBox_inflate b d)) = sat32 (py (bmin b) - d)"
    and "px (bmax (BBox_inflate b d)) = sat32 (px (bmax b) + d)" "py (bmax (BBox_inflate b d)) = sat32 (py (bmax b) + d)"
proof -
  have c: "px (bmin b) \<le> px (BBox_center b)" "px (BBox_center b) \<le> px (bmax b)"
    "py (bmin b) \<le> py (BBox_center b)" "py (BBox_center b) \<le> py (bmax b)"
    using BBox_center_in [OF assms(1)] by (simp_all add: BBox_contains_def)
  have ok: "in_i32 (px (BBox_center b))" "in_i32 (py (BBox_center b))"
    using BBox_center_ok [of b] by (simp_all add: point_ok_def)
  have lo: "sat32 (u - d) \<le> k" "k \<le> sat32 (v + d)" if "u \<le> k" "k \<le> v" "in_i32 k" for u v k
    using sat32_mono [of "u - d" k] sat32_mono [of k "v + d"] sat32_id [OF that(3)] that assms(2) by auto
  show "px (bmin (BBox_inflate b d)) = sat32 (px (bmin b) - d)" "py (bmin (BBox_inflate b d)) = sat32 (py (bmin b) - d)"
    "px (bmax (BBox_inflate b d)) = sat32 (px (bmax b) + d)" "py (bmax (BBox_inflate b d)) = sat32 (py (bmax b) + d)"
    using lo [OF c(1,2) ok(1)] lo [OF c(3,4) ok(2)]
    by (simp_all add: BBox_inflate_def Let_def min_absorb1 max_absorb1)
qed

lemma sat32_less: "in_i32 k \<Longrightarrow> sat32 v < k \<Longrightarrow> v < k" "in_i32 k \<Longrightarrow> k < sat32 v \<Longrightarrow> k < v"
  by (auto simp: sat32_def in_i32_def min_def max_def split: if_splits)

lemma sat32_twice: "0 \<le> r \<Longrightarrow> 0 \<le> c \<Longrightarrow> sat32 (sat32 (v + r) + c) = sat32 (v + r + c)"
    "0 \<le> r \<Longrightarrow> 0 \<le> c \<Longrightarrow> sat32 (sat32 (v - r) - c) = sat32 (v - r - c)" if "in_i32 v"
  using that by (auto simp: sat32_def in_i32_def min_def max_def)

lemma boxes_apart:
  assumes A: "A \<noteq> {}" "\<And>x. x \<in> A \<Longrightarrow> in_box b x" and B: "B \<noteq> {}" "\<And>x. x \<in> B \<Longrightarrow> in_box bb x"
    and ok: "bbox_ok b" "bbox_ok bb" and rc: "0 \<le> r" "0 \<le> c" and k: "0 \<le> k" "k \<le> real_of_int (r + c)"
    and apart: "\<not> BBox_intersects (BBox_inflate (BBox_inflate b r) c) bb"
  shows "k\<^sup>2 < sqdist A B"
proof -
  let ?q = "BBox_inflate (BBox_inflate b r) c"
  have i: "in_i32 (px (bmin b))" "in_i32 (py (bmin b))" "in_i32 (px (bmax b))" "in_i32 (py (bmax b))"
    "in_i32 (px (bmin bb))" "in_i32 (py (bmin bb))" "in_i32 (px (bmax bb))" "in_i32 (py (bmax bb))"
    using ok by (simp_all add: bbox_ok_def point_ok_def)
  have q: "px (bmin ?q) = sat32 (px (bmin b) - r - c)" "py (bmin ?q) = sat32 (py (bmin b) - r - c)"
    "px (bmax ?q) = sat32 (px (bmax b) + r + c)" "py (bmax ?q) = sat32 (py (bmax b) + r + c)"
    using i rc by (simp_all add: inflate_corners ok(1) BBox_inflate_ok sat32_twice)
  from apart consider "px (bmax bb) < px (bmin ?q)" | "px (bmax ?q) < px (bmin bb)"
    | "py (bmax bb) < py (bmin ?q)" | "py (bmax ?q) < py (bmin bb)"
    by (auto simp: BBox_intersects_def not_le)
  moreover have left: "k\<^sup>2 < sqdist A B"
    if "f = fst \<or> f = snd" "lo + r + c < hi" "\<And>x. x \<in> A \<Longrightarrow> f x \<le> real_of_int lo" "\<And>x. x \<in> B \<Longrightarrow> real_of_int hi \<le> f x" for f lo hi
    using sqdist_sep [OF A(1) B(1) that(1,3,4) k(1)] that(2) k(2) by simp
  moreover have "k\<^sup>2 < sqdist A B"
    if "f = fst \<or> f = snd" "lo < hi - r - c" "\<And>x. x \<in> B \<Longrightarrow> f x \<le> real_of_int lo" "\<And>x. x \<in> A \<Longrightarrow> real_of_int hi \<le> f x" for f lo hi
    using sqdist_sep [OF B(1) A(1) that(1,3,4) k(1)] that(2) k(2) sqdist_commute [of A B] by simp
  ultimately show ?thesis
    using A(2) B(2) sat32_less i unfolding q in_box_def by (metis (no_types, lifting))
qed

lemma half_up_ge: "in_i32 w \<Longrightarrow> 0 \<le> w \<Longrightarrow> real_of_int w / 2 \<le> real_of_int (half_up w) \<and> 0 \<le> half_up w"
proof -
  assume w: "in_i32 w" "0 \<le> w"
  have e: "sgn w * (\<bar>w\<bar> div 2) + sgn w * (\<bar>w\<bar> mod 2) = w div 2 + w mod 2"
    using w(2) by (cases "w = 0") (auto simp: sgn_if)
  have i: "in_i32 (w div 2 + w mod 2)" using w by (auto simp: in_i32_def)
  have "w \<le> 2 * (w div 2 + w mod 2)" "0 \<le> w div 2 + w mod 2" using w(2) by presburger+
  then have "real_of_int w \<le> real_of_int (2 * (w div 2 + w mod 2))" "0 \<le> w div 2 + w mod 2" by (simp_all only: of_int_le_iff)
  then show ?thesis unfolding half_up_def e i32_id [OF i] by simp
qed

lemma in_box_segm:
  assumes "point_ok a" "point_ok b" "x \<in> segm (rp a) (rp b)"
  shows "in_box (BBox_new a b) x"
  using assms(3) by (auto simp: segm_iff xbox_def in_box_def BBox_new_def rp_def)

lemma BBox_inflate_0: "bbox_ok b \<Longrightarrow> BBox_inflate b 0 = b"
  using inflate_corners [of b 0] by (auto simp: bbox_ok_def point_ok_def sat32_id)

lemma from_points_box:
  assumes "list_all point_ok ps" "ps \<noteq> []"
  shows "bbox_ok (the (BBox_from_points ps))" and "p \<in> set ps \<Longrightarrow> BBox_contains (the (BBox_from_points ps)) p"
proof -
  obtain b where b: "BBox_from_points ps = Some b" using assms(2) by (cases ps) auto
  show "bbox_ok (the (BBox_from_points ps))" using BBox_from_points_least(1) [OF assms(1) b] b by simp
  show "p \<in> set ps \<Longrightarrow> BBox_contains (the (BBox_from_points ps)) p"
    using BBox_from_points_contains [OF assms(1) b] b by simp
qed

lemma rings_in_box:
  assumes "\<And>r p. r \<in> set rs \<Longrightarrow> p \<in> set r \<Longrightarrow> BBox_contains b p" and "x \<in> region (rings_edges rs)"
  shows "in_box b x"
proof -
  have bal: "balanced (rings_edges rs)"
    unfolding rings_edges_def by (rule balanced_concat) (rule balanced_ring)
  have "real_of_int (px (bmin b)) \<le> fst u \<and> fst u \<le> real_of_int (px (bmax b)) \<and>
      real_of_int (py (bmin b)) \<le> snd u \<and> snd u \<le> real_of_int (py (bmax b)) \<and>
      real_of_int (px (bmin b)) \<le> fst v \<and> fst v \<le> real_of_int (px (bmax b)) \<and>
      real_of_int (py (bmin b)) \<le> snd v \<and> snd v \<le> real_of_int (py (bmax b))"
    if e: "(u, v) \<in> set (rings_edges rs)" for u v
  proof -
    obtain r where r: "r \<in> set rs" "(u, v) \<in> set (ring_pairs (map rp r))"
      using e by (auto simp: rings_edges_def)
    then have "u \<in> rp ` set r" "v \<in> rp ` set r" using ring_pairs_points [OF r(2)] by auto
    then show ?thesis using assms(1) [OF r(1)] by (auto simp: BBox_contains_def rp_def)
  qed
  from region_in_box [OF bal this assms(2)] show ?thesis by (simp add: in_box_def)
qed

lemma indexable_ring_points:
  assumes "indexable poly" "r \<in> set (Polygon_rings poly)" "v \<in> set r"
  shows "BBox_contains (Polygon_bbox poly) v"
proof -
  obtain i where i: "i < length r" "r ! i = v" using assms(3) by (auto simp: in_set_conv_nth)
  then have "(v, r ! ((i + 1) mod length r)) \<in> set (ring_pairs r)" by (auto simp: ring_pairs_def)
  then have "(v, r ! ((i + 1) mod length r)) \<in> set (poly_edges poly)" using assms(2) by (auto simp: poly_edges_def)
  then show ?thesis using poly_points_in_box [OF assms(1)] by blast
qed

lemma indexable_box:
  assumes "indexable poly"
  shows "bbox_ok (Polygon_bbox poly)" and "x \<in> region (rings_edges (Polygon_rings poly)) \<Longrightarrow> in_box (Polygon_bbox poly) x"
proof -
  have "list_all point_ok (outline poly)" "outline poly \<noteq> []"
    using assms by (auto simp: indexable_def polygon_ok_def ring_ok_def)
  then show "bbox_ok (Polygon_bbox poly)" using from_points_box(1) by (simp add: Polygon_bbox_def)
  show "x \<in> region (rings_edges (Polygon_rings poly)) \<Longrightarrow> in_box (Polygon_bbox poly) x"
    using indexable_ring_points [OF assms] by (intro rings_in_box)
qed

text \<open>Shapes with a connected core: everything but a polygon with holes.\<close>

fun solid :: "shape \<Rightarrow> bool" where
  "solid (Polygon p) \<longleftrightarrow> holes p = []"
| "solid _ \<longleftrightarrow> True"

lemma shape_bbox_core:
  assumes ok: "shape_ok s" "solid s"
  shows "\<exists>b r. bbox_ok b \<and> 0 \<le> r \<and> shape_radius s \<le> real_of_int r \<and> Shape_bbox s = BBox_inflate b r \<and>
    (\<forall>x \<in> shape_core s. in_box b x)"
proof (cases s)
  case (Segment g)
  then show ?thesis
    using ok half_up_ge [of "seg_width g"] in_box_segm [of "seg_a g" "seg_b g"]
    by (intro exI [of _ "BBox_new (seg_a g) (seg_b g)"] exI [of _ "half_up (seg_width g)"])
       (auto simp: segment_ok_def Segment_bbox_def BBox_new_ok)
next
  case (Circle c)
  then show ?thesis
    using ok BBox_point_ok [of "center c"]
    by (intro exI [of _ "BBox_point (center c)"] exI [of _ "radius c"])
       (auto simp: circle_ok_def Circle_bbox_def in_box_def BBox_point_def rp_def)
next
  case (ConvexPoly p)
  have "list_all point_ok (pts p)" "pts p \<noteq> []" using ok ConvexPoly by (auto simp: convex_poly_ok_def ring_ok_def)
  note B = from_points_box [OF this]
  have "in_box (the (BBox_from_points (pts p))) x" if "x \<in> region (rings_edges [pts p])" for x
    using that B(2) by (intro rings_in_box [of "[pts p]"]) auto
  then show ?thesis
    using ok ConvexPoly B(1)
    by (intro exI [of _ "the (BBox_from_points (pts p))"] exI [of _ "cp_radius p"])
       (auto simp: convex_poly_ok_def ConvexPoly_bbox_def)
next
  case (Polygon p)
  have "list_all point_ok (outline p)" "outline p \<noteq> []" using ok Polygon by (auto simp: polygon_ok_def ring_ok_def)
  note B = from_points_box [OF this]
  have "in_box (the (BBox_from_points (outline p))) x" if "x \<in> region (rings_edges (Polygon_rings p))" for x
    using that B(2) ok Polygon by (intro rings_in_box [of "Polygon_rings p"]) (auto simp: Polygon_rings_def)
  then show ?thesis
    using Polygon B(1)
    by (intro exI [of _ "the (BBox_from_points (outline p))"] exI [of _ 0])
       (auto simp: Polygon_bbox_def BBox_inflate_0)
qed

text \<open>A set in a box that the reach of a shape does not meet is farther than the clearance.\<close>

lemma out_of_reach:
  assumes ok: "shape_ok s" "solid s" and B: "B \<noteq> {}" "\<And>x. x \<in> B \<Longrightarrow> in_box bb x" "bbox_ok bb"
    and c: "c < 2 ^ 31" and t: "t = 2 * c + Shape_sweep2 s" "0 \<le> t"
    and apart: "\<not> BBox_intersects (BBox_inflate (Shape_bbox s) (clamp_coord c)) bb"
  shows "(real_of_int t)\<^sup>2 < sqdist (core_set (core_of s)) (scale2 ` B)"
proof -
  note S = core_of_exact [OF ok(1)]
  obtain b r where b: "bbox_ok b" "0 \<le> r" "shape_radius s \<le> real_of_int r" "Shape_bbox s = BBox_inflate b r"
    "\<And>x. x \<in> shape_core s \<Longrightarrow> in_box b x" using shape_bbox_core [OF ok] by blast
  have "real_of_int c + shape_radius s = real_of_int t / 2" using S(4) t(1) by simp
  moreover have "0 \<le> clamp_coord c" "c \<le> clamp_coord c" using c by (auto simp: clamp_coord_def)
  moreover have "0 \<le> real_of_int t / 2" using t(2) by simp
  ultimately have "(real_of_int t / 2)\<^sup>2 < sqdist (shape_core s) B"
    using boxes_apart [OF S(3) b(5) B(1,2) b(1) B(3) b(2), of "clamp_coord c" "real_of_int t / 2"] apart b(3,4)
    by simp
  then show ?thesis using S(2,3) B(1) by (simp add: sqdist_scale2 power_divide)
qed

section \<open>The indexed comparisons\<close>

lemma undbl_dbl: "point_ok p \<Longrightarrow> undbl (dbl p) = p"
proof -
  assume ok: "point_ok p"
  have h: "sgn (2 * v) * (\<bar>2 * v\<bar> div 2) = v" for v :: int
    by (cases v "0 :: int" rule: linorder_cases) (auto simp: abs_if sgn_if)
  show ?thesis using ok by (simp add: undbl_def dbl_exact(1) h point_ok_def i32_id)
qed

lemma ring_start_on_boundary: "r \<noteq> [] \<Longrightarrow> r ! 0 \<in> boundary (ring_pairs r)" for r :: "rpt list"
  by (cases r; cases "tl r") (auto simp: ring_pairs_zip boundary_def)

lemma BBox_intersects_commute: "BBox_intersects b c \<longleftrightarrow> BBox_intersects c b"
  by (auto simp: BBox_intersects_def)

lemma core_probe_in:
  assumes "shape_ok s"
  shows "point_ok (core_probe (core_of s))" and "rp (core_probe (core_of s)) \<in> shape_core s"
proof -
  have ring: "point_ok (r ! 0) \<and> rp (r ! 0) \<in> region (rings_edges (r # rs))" if "ring_ok r" for r rs
  proof -
    have r: "r \<noteq> []" "list_all point_ok r" using that by (auto simp: ring_ok_def)
    then have "rp (r ! 0) \<in> boundary (rings_edges (r # rs))"
      using ring_start_on_boundary [of "map rp r"] by (auto simp: boundary_def rings_edges_def)
    then show ?thesis using boundary_region r by (auto simp: list_all_iff)
  qed
  show "point_ok (core_probe (core_of s))" "rp (core_probe (core_of s)) \<in> shape_core s"
    using assms ring
    by (cases s; auto simp: segment_ok_def circle_ok_def undbl_dbl convex_poly_ok_def polygon_ok_def Polygon_rings_def)+
qed

text \<open>A connected core with a point outside a region is as far from the region as from its boundary.\<close>

lemma solid_region_boundary:
  assumes s: "shape_ok s" "solid s" and rs: "rings_ok rs" and out: "rp (core_probe (core_of s)) \<notin> region (rings_edges rs)"
  shows "sqdist (core_set (core_of s)) (region (pt_edges rs)) = sqdist (core_set (core_of s)) (boundary (pt_edges rs))"
proof (cases "core_set (core_of s) \<inter> boundary (pt_edges rs) = {}")
  case False
  then show ?thesis using sqdist_touch boundary_region [of "pt_edges rs"]
    by (metis (no_types, lifting) disjoint_iff subsetD)
next
  case True
  note P = core_probe_in [OF s(1)] and C = core_of_exact [OF s(1)]
  have out': "pt (dbl (core_probe (core_of s))) \<notin> region (pt_edges rs)"
    using out region_pt_iff [OF rs P(1)] by simp
  have "core_set (core_of s) \<inter> region (pt_edges rs) = {}"
  proof (cases s)
    case (Segment g)
    then show ?thesis
      using True out' s(1) segm_region_disjoint [OF balanced_pt_edges, of "pt (dbl (seg_a g))" rs "pt (dbl (seg_b g))"]
      by (simp add: segment_ok_def undbl_dbl)
  next
    case (Circle c)
    then show ?thesis using out' s(1) by (simp add: circle_ok_def undbl_dbl)
  next
    case (ConvexPoly p)
    then have "pts p \<noteq> []" using s(1) by (auto simp: convex_poly_ok_def ring_ok_def)
    then show ?thesis
      using ConvexPoly True out' ring_region_disjoint [OF balanced_pt_edges, of "map (pt \<circ> dbl) (pts p)" rs]
      by (simp add: pt_edges_concat [of "[pts p]"])
  next
    case (Polygon p)
    then have "outline p \<noteq> []" "Polygon_rings p = [outline p]"
      using s by (auto simp: polygon_ok_def ring_ok_def Polygon_rings_def)
    then show ?thesis
      using Polygon True out' ring_region_disjoint [OF balanced_pt_edges, of "map (pt \<circ> dbl) (outline p)" rs]
      by (simp add: pt_edges_concat [of "[outline p]"])
  qed
  then show ?thesis
    using C(2,3) by (intro sqdist_region_boundary balanced_pt_edges pt_edges_nonempty rs) auto
qed

lemma solid_decidable: "solid s \<Longrightarrow> decidable_pair (core_of s) (Core_Seg a b)"
  by (cases "core_of s") auto

text \<open>The loop over the visited edges computes the comparison with the whole boundary.\<close>

lemma visit_min_cmp:
  assumes law: "rtree_law R contents" and ix: "indexable poly" and s: "shape_ok s" "solid s"
    and c: "c < 2 ^ 31" and t: "t = 2 * c + Shape_sweep2 s" "0 \<le> t"
  shows "min_cmp (map (\<lambda>(a, b). core_cmp (core_of s) (Core_Seg a b) t)
      (visit R (IndexedPolygon_new R poly) (BBox_inflate (Shape_bbox s) (clamp_coord c)))) =
    cmp (sqdist (core_set (core_of s)) (boundary (pt_edges (Polygon_rings poly)))) ((real_of_int t)\<^sup>2)"
proof -
  let ?q = "BBox_inflate (Shape_bbox s) (clamp_coord c)" and ?C = "core_set (core_of s)" and ?T = "(real_of_int t)\<^sup>2"
  let ?f = "\<lambda>(a, b). core_cmp (core_of s) (Core_Seg a b) t"
  note S = core_of_exact [OF s(1)]
  have len: "int (length (poly_edges poly)) \<le> 2 ^ 32" using ix by (simp add: indexable_def)
  have rok: "rings_ok (Polygon_rings poly)" using ix shape_rings_ok(2) by (simp add: indexable_def)
  have exact: "?f e = cmp (sqdist ?C (segm (pt (fst e)) (pt (snd e)))) ?T" if "e \<in> set (edges (Polygon_rings poly))" for e
    using core_cmp_exact [OF S(1) _ solid_decidable [OF s(2)] t(2), of "fst e" "snd e"] edges_ok [OF rok that]
    by (simp add: case_prod_unfold)
  have in_set: "set (visit R (IndexedPolygon_new R poly) ?q) =
    map_prod dbl dbl ` {e \<in> set (poly_edges poly). BBox_intersects (BBox_new (fst e) (snd e)) ?q}"
    using arg_cong [OF visit_mset [OF law len, of ?q], of set_mset]
    by (simp only: set_mset_mset set_map set_filter case_prod_unfold)
  have skip: "?f (map_prod dbl dbl e) = Greater"
    if e: "e \<in> set (poly_edges poly)" "\<not> BBox_intersects (BBox_new (fst e) (snd e)) ?q" for e
  proof -
    have P: "point_ok (fst e)" "point_ok (snd e)" using poly_points_in_box [OF ix, of "fst e" "snd e"] e(1) by auto
    have "?T < sqdist ?C (scale2 ` segm (rp (fst e)) (rp (snd e)))"
      by (rule out_of_reach [OF s segm_nonempty in_box_segm [OF P] BBox_new_ok [OF P] c t])
         (assumption, subst BBox_intersects_commute, rule e(2))
    moreover have "map_prod dbl dbl e \<in> set (edges (Polygon_rings poly))" using e(1) by (simp add: edges_poly)
    ultimately show ?thesis using exact [of "map_prod dbl dbl e"] P by (simp add: pt_dbl segm_scale2 cmp_def)
  qed
  have "min_cmp (map ?f (visit R (IndexedPolygon_new R poly) ?q)) = min_cmp (map ?f (edges (Polygon_rings poly)))"
  proof (rule min_cmp_skip)
    show "set (map ?f (visit R (IndexedPolygon_new R poly) ?q)) \<subseteq> set (map ?f (edges (Polygon_rings poly)))"
      unfolding set_map in_set edges_poly by blast
    show "o1 \<in> set (map ?f (visit R (IndexedPolygon_new R poly) ?q))"
      if o1: "o1 \<in> set (map ?f (edges (Polygon_rings poly)))" "o1 \<noteq> Greater" for o1
    proof -
      have "o1 \<in> (\<lambda>e. ?f (map_prod dbl dbl e)) ` set (poly_edges poly)"
        using o1(1) by (simp only: set_map edges_poly image_image)
      then obtain e where e: "e \<in> set (poly_edges poly)" "o1 = ?f (map_prod dbl dbl e)" by (elim imageE)
      have "BBox_intersects (BBox_new (fst e) (snd e)) ?q" using skip [OF e(1)] e(2) o1(2) by metis
      then have "map_prod dbl dbl e \<in> set (visit R (IndexedPolygon_new R poly) ?q)" unfolding in_set using e(1) by blast
      then show ?thesis unfolding set_map e(2) by (rule imageI)
    qed
  qed
  also have "\<dots> = cmp (sqdist ?C (boundary (map (map_prod pt pt) (edges (Polygon_rings poly))))) ?T"
    using S(2,3) exact by (intro min_cmp_boundary edges_nonempty [OF rok]) auto
  finally show ?thesis by (simp add: pt_edges_def)
qed

lemma i128_two: "in_i64 c \<Longrightarrow> i128 (2 * c) = 2 * c"
  by (simp add: i128_id in_i128_def in_i64_def)

lemma containment_region:
  assumes "rtree_law R contents" "indexable poly" "point_ok p"
  shows "IndexedPolygon_containment R (IndexedPolygon_new R poly) p \<noteq> Outside \<longleftrightarrow>
    rp p \<in> region (rings_edges (Polygon_rings poly))"
proof -
  have rok: "rings_ok (Polygon_rings poly)" using assms(2) shape_rings_ok(2) by (simp add: indexable_def)
  show ?thesis
    using containment_plain [OF assms] point_in_rings_outside [OF dbl_exact(2) [OF assms(3)] rok] region_pt_iff [OF rok assms(3)]
    by (simp add: point_in_polygon_def)
qed

lemma indexed_gap_gap:
  assumes law: "rtree_law R contents" and ix: "indexable poly" and s: "shape_ok s" "solid s"
    and c: "in_i64 c" "c < 2 ^ 31"
  shows "IndexedPolygon_gap_cmp R (IndexedPolygon_new R poly) s c = cmp (shape_gap (Polygon poly) s) (real_of_int c)"
proof -
  let ?ip = "IndexedPolygon_new R poly" and ?A = "region (pt_edges (Polygon_rings poly))" and ?C = "core_set (core_of s)"
  define t where "t = 2 * c + Shape_sweep2 s"
  have pok: "shape_ok (Polygon poly)" using ix by (simp add: indexable_def)
  have rok: "rings_ok (Polygon_rings poly)" using ix shape_rings_ok(2) by (simp add: indexable_def)
  note S = core_of_exact [OF s(1)] and P = core_probe_in [OF s(1)]
  have ti: "i128 (i128 (2 * c) + Shape_sweep2 s) = t"
    using i128_threshold [OF c(1) S(5,6), of 0] c(1) S(5,6) by (simp add: t_def i128_two i128_id in_i128_def in_i64_def)
  have goal: "cmp (shape_gap (Polygon poly) s) (real_of_int c) =
    (if t < 0 then Greater else cmp (sqdist ?C ?A) ((real_of_int t)\<^sup>2))"
    using gap_cmp_code(2) [OF pok s(1) c(1)] by (simp add: t_def sqdist_commute)
  show ?thesis
  proof (cases "t < 0")
    case True
    then show ?thesis unfolding goal by (simp add: IndexedPolygon_gap_cmp_def Let_def ti)
  next
    case False
    then have t: "0 \<le> t" by simp
    let ?reach = "BBox_inflate (Shape_bbox s) (clamp_coord c)"
    have code: "IndexedPolygon_gap_cmp R ?ip s c = (if \<not> BBox_intersects ?reach (Polygon_bbox poly) then Greater
      else if rp (core_probe (core_of s)) \<in> region (rings_edges (Polygon_rings poly)) then zero_cmp t
      else cmp (sqdist ?C (boundary (pt_edges (Polygon_rings poly)))) ((real_of_int t)\<^sup>2))"
      using False
      by (simp only: IndexedPolygon_gap_cmp_def Let_def ti if_False ip_fields with_core_def
          containment_region [OF law ix P(1)] visit_min_cmp [OF law ix s c(2) t_def t])
    consider (far) "\<not> BBox_intersects ?reach (Polygon_bbox poly)"
      | (inside) "BBox_intersects ?reach (Polygon_bbox poly)" "rp (core_probe (core_of s)) \<in> region (rings_edges (Polygon_rings poly))"
      | (near) "BBox_intersects ?reach (Polygon_bbox poly)" "rp (core_probe (core_of s)) \<notin> region (rings_edges (Polygon_rings poly))"
      by blast
    then show ?thesis
    proof cases
      case far
      have "region (rings_edges (Polygon_rings poly)) \<noteq> {}" using core_of_exact(3) [OF pok] by simp
      from out_of_reach [OF s this indexable_box(2) [OF ix] indexable_box(1) [OF ix] c(2) t_def t far]
      have "(real_of_int t)\<^sup>2 < sqdist ?C ?A" by (simp add: pt_edges_scale2 [OF rok] region_scale2)
      then show ?thesis unfolding goal code using far False by (simp add: cmp_def)
    next
      case inside
      then have "scale2 (rp (core_probe (core_of s))) \<in> ?C \<and> scale2 (rp (core_probe (core_of s))) \<in> ?A"
        using P(2) S(2) by (simp add: pt_edges_scale2 [OF rok] region_scale2)
      then have "sqdist ?C ?A = 0" using sqdist_touch by blast
      then show ?thesis unfolding goal code using inside False by (simp add: zero_cmp_exact)
    next
      case near
      then show ?thesis unfolding goal code using False solid_region_boundary [OF s rok near(2)] by simp
    qed
  qed
qed

lemma min_cmp_Greater: "min_cmp os \<noteq> Greater \<longleftrightarrow> (\<exists>o1 \<in> set os. o1 \<noteq> Greater)"
proof -
  have "min_cmp os = Greater \<longleftrightarrow> Greater \<le> min_cmp os" by (cases "min_cmp os") simp_all
  also have "\<dots> \<longleftrightarrow> (\<forall>o1 \<in> set os. o1 = Greater)"
    unfolding min_cmp_ge by (metis ordering_le_simps(3) ordering_le_simps(6) ordering.exhaust order_refl)
  finally show ?thesis by blast
qed

lemma Shape_bbox_ok: "shape_ok s \<Longrightarrow> solid s \<Longrightarrow> bbox_ok (Shape_bbox s)"
  using shape_bbox_core BBox_inflate_ok by metis

lemma indexed_touches_gap:
  assumes "shape_ok s" "solid s"
  shows "IndexedPolygon_touches R ip s \<longleftrightarrow> IndexedPolygon_gap_cmp R ip s 0 \<noteq> Greater"
proof -
  note S = core_of_exact [OF assms(1)]
  have t: "i128 (i128 (2 * 0) + Shape_sweep2 s) = Shape_sweep2 s" using S(5,6) by (simp add: i128_id in_i128_def)
  have r: "BBox_inflate (Shape_bbox s) (clamp_coord 0) = Shape_bbox s"
    using BBox_inflate_0 [OF Shape_bbox_ok [OF assms]] by (simp add: clamp_coord_def)
  have z: "zero_cmp (Shape_sweep2 s) \<noteq> Greater" using S(5) by (simp add: zero_cmp_def cmp_def)
  show ?thesis
    unfolding IndexedPolygon_touches_def IndexedPolygon_gap_cmp_def Let_def t r with_core_def
    using S(5) z by (simp add: min_cmp_Greater list_ex_iff case_prod_unfold)
qed

lemma indexed_point_distance_gap:
  assumes law: "rtree_law R contents" and ix: "indexable poly" and p: "point_ok p" and d: "in_i64 d" "d < 2 ^ 31"
  shows "IndexedPolygon_point_distance_cmp R (IndexedPolygon_new R poly) p d =
    cmp (sqrt (sqdist {rp p} (shape_core (Polygon poly)))) (real_of_int d)"
proof -
  let ?s = "Circle \<lparr>center = p, radius = 0\<rparr>" and ?A = "region (pt_edges (Polygon_rings poly))"
  have s: "shape_ok ?s" "solid ?s" using p by (simp_all add: circle_ok_def in_i32_def)
  have rok: "rings_ok (Polygon_rings poly)" using ix shape_rings_ok(2) by (simp add: indexable_def)
  have box: "Shape_bbox ?s = BBox_point p" using p by (simp add: Circle_bbox_def BBox_inflate_0 BBox_point_ok)
  have sw: "Shape_sweep2 ?s = 0" by (simp add: i64_id in_i64_def)
  have A: "?A = scale2 ` shape_core (Polygon poly)" by (simp add: pt_edges_scale2 [OF rok] region_scale2)
  have goal: "cmp (sqrt (sqdist {rp p} (shape_core (Polygon poly)))) (real_of_int d) =
    (if 2 * d < 0 then Greater else cmp (sqdist {pt (dbl p)} ?A) ((real_of_int (2 * d))\<^sup>2))"
    using cmp_nm [of "{rp p}" "shape_core (Polygon poly)" "2 * d"] core_of_exact(3) [of "Polygon poly"] ix
    unfolding A by (simp add: pt_dbl p indexable_def)
  show ?thesis
  proof (cases "d < 0")
    case True
    then show ?thesis unfolding goal by (simp add: IndexedPolygon_point_distance_cmp_def i128_two d(1))
  next
    case False
    then have t: "2 * d = 2 * d + Shape_sweep2 ?s" "0 \<le> 2 * d" unfolding sw by simp_all
    note loop = visit_min_cmp [OF law ix s d(2) t]
    have pr: "core_probe (core_of ?s) = p" using p by (simp add: undbl_dbl)
    have in_iff: "IndexedPolygon_containment R (IndexedPolygon_new R poly) p \<noteq> Outside \<longleftrightarrow> pt (dbl p) \<in> ?A"
      using containment_region [OF law ix p] region_pt_iff [OF rok p] by simp
    have code: "IndexedPolygon_point_distance_cmp R (IndexedPolygon_new R poly) p d =
      (if pt (dbl p) \<in> ?A then zero_cmp (2 * d)
       else cmp (sqdist {pt (dbl p)} (boundary (pt_edges (Polygon_rings poly)))) ((real_of_int (2 * d))\<^sup>2))"
      using loop [unfolded box] False
      by (simp add: IndexedPolygon_point_distance_cmp_def i128_two d(1) in_iff)
    show ?thesis
    proof (cases "pt (dbl p) \<in> ?A")
      case True
      then have "sqdist {pt (dbl p)} ?A = 0" by (intro sqdist_touch) auto
      then show ?thesis unfolding goal code using True False zero_cmp_exact [of "2 * d"] by simp
    next
      case out: False
      then have "sqdist {pt (dbl p)} ?A = sqdist {pt (dbl p)} (boundary (pt_edges (Polygon_rings poly)))"
        using solid_region_boundary [OF s rok] region_pt_iff [OF rok p] pr by simp
      then show ?thesis unfolding goal code using out False by simp
    qed
  qed
qed

lemma min_cmp_append: "min_cmp (xs @ ys) = min (min_cmp xs) (min_cmp ys)"
  by (induction xs) (simp_all add: min_cmp_Cons min.assoc)

lemma min_cmp_concat: "min_cmp (concat xss) = min_cmp (map min_cmp xss)"
  by (induction xss) (simp_all add: min_cmp_append min_cmp_Cons)

text \<open>The double loop of \<open>gap_cmp_polygon\<close>: the small polygon's edges against the index of the large one.\<close>

lemma polygon_loop:
  assumes law: "rtree_law R contents" and ix: "indexable pa" "indexable pb"
    and c: "0 \<le> c" "c < 2 ^ 31" "clamp_coord c = c"
  shows "min_cmp (concat (map (\<lambda>(a, b). let eb = BBox_new a b
      in if \<not> BBox_intersects eb (BBox_inflate (Polygon_bbox pb) c) then []
         else map (\<lambda>(c0, c1). seg_seg_cmp (dbl a) (dbl b) c0 c1 (2 * c)) (visit R (IndexedPolygon_new R pb) (BBox_inflate eb c)))
      (poly_edges pa))) =
    cmp (sqdist (boundary (pt_edges (Polygon_rings pa))) (boundary (pt_edges (Polygon_rings pb)))) ((real_of_int (2 * c))\<^sup>2)"
proof -
  let ?B = "boundary (pt_edges (Polygon_rings pb))" and ?T = "(real_of_int (2 * c))\<^sup>2"
  have rok: "rings_ok (Polygon_rings pa)" "rings_ok (Polygon_rings pb)" using ix shape_rings_ok(2) by (simp_all add: indexable_def)
  have Bne: "?B \<noteq> {}" using boundary_nonempty pt_edges_nonempty rok(2) by blast
  have row: "min_cmp (let eb = BBox_new a b
      in if \<not> BBox_intersects eb (BBox_inflate (Polygon_bbox pb) c) then []
         else map (\<lambda>(c0, c1). seg_seg_cmp (dbl a) (dbl b) c0 c1 (2 * c)) (visit R (IndexedPolygon_new R pb) (BBox_inflate eb c)))
    = cmp (sqdist (segm (pt (dbl a)) (pt (dbl b))) ?B) ?T" if e: "(a, b) \<in> set (poly_edges pa)" for a b
  proof -
    let ?s = "Segment \<lparr>seg_a = a, seg_b = b, seg_width = 0\<rparr>"
    have P: "point_ok a" "point_ok b" using poly_points_in_box [OF ix(1) e] by auto
    have s: "shape_ok ?s" "solid ?s" using P by (simp_all add: segment_ok_def in_i32_def)
    have box: "Shape_bbox ?s = BBox_new a b"
      using P by (simp add: Segment_bbox_def half_up_def i32_id in_i32_def BBox_inflate_0 BBox_new_ok)
    have t: "2 * c = 2 * c + Shape_sweep2 ?s" "0 \<le> 2 * c" using c(1) by simp_all
    have loop: "min_cmp (map (\<lambda>(c0, c1). seg_seg_cmp (dbl a) (dbl b) c0 c1 (2 * c))
        (visit R (IndexedPolygon_new R pb) (BBox_inflate (BBox_new a b) c))) =
      cmp (sqdist (segm (pt (dbl a)) (pt (dbl b))) ?B) ?T"
      using visit_min_cmp [OF law ix(2) s c(2) t] by (simp add: box [simplified] c(3))
    show ?thesis
    proof (cases "BBox_intersects (BBox_new a b) (BBox_inflate (Polygon_bbox pb) c)")
      case True
      then show ?thesis using loop by simp
    next
      case False
      have inB: "in_box (Polygon_bbox pb) x" if "x \<in> boundary (rings_edges (Polygon_rings pb))" for x
        using that boundary_region indexable_box(2) [OF ix(2)] by blast
      have ne: "boundary (rings_edges (Polygon_rings pb)) \<noteq> {}"
        using Bne by (simp add: pt_edges_scale2 [OF rok(2)] boundary_scale2)
      have apart: "\<not> BBox_intersects (BBox_inflate (BBox_inflate (Polygon_bbox pb) 0) c) (BBox_new a b)"
        using False BBox_intersects_commute indexable_box(1) [OF ix(2)] by (metis BBox_inflate_0)
      have "(real_of_int c)\<^sup>2 < sqdist (boundary (rings_edges (Polygon_rings pb))) (segm (rp a) (rp b))"
        using boxes_apart [OF ne inB segm_nonempty in_box_segm [OF P] indexable_box(1) [OF ix(2)] BBox_new_ok [OF P] order.refl c(1), where k = "real_of_int c"]
          apart c(1) by simp
      then have "?T < sqdist (segm (pt (dbl a)) (pt (dbl b))) ?B"
        using ne by (simp add: pt_edges_scale2 [OF rok(2)] boundary_scale2 pt_dbl P segm_scale2 sqdist_scale2 sqdist_commute power_mult_distrib)
      then show ?thesis using False by (simp add: cmp_def)
    qed
  qed
  let ?g = "\<lambda>(a, b). let eb = BBox_new a b
      in if \<not> BBox_intersects eb (BBox_inflate (Polygon_bbox pb) c) then []
         else map (\<lambda>(c0, c1). seg_seg_cmp (dbl a) (dbl b) c0 c1 (2 * c)) (visit R (IndexedPolygon_new R pb) (BBox_inflate eb c))"
  have "min_cmp (concat (map ?g (poly_edges pa))) = min_cmp (map (\<lambda>e. min_cmp (?g e)) (poly_edges pa))"
    by (simp add: min_cmp_concat comp_def)
  also have "map (\<lambda>e. min_cmp (?g e)) (poly_edges pa) =
      map (\<lambda>(a, b). cmp (sqdist (segm (pt a) (pt b)) ?B) ?T) (edges (Polygon_rings pa))"
    using row by (auto simp: edges_poly)
  also have "min_cmp \<dots> = cmp (sqdist ?B (boundary (map (map_prod pt pt) (edges (Polygon_rings pa))))) ?T"
    using Bne by (intro min_cmp_boundary edges_nonempty [OF rok(1)]) (auto simp: sqdist_commute)
  finally show ?thesis by (simp add: pt_edges_def sqdist_commute)
qed

lemma sorted_distinct_adj: "sorted xs \<Longrightarrow> distinct_adj xs \<Longrightarrow> distinct xs"
proof (induction xs)
  case (Cons x xs)
  then show ?case by (cases xs) (auto simp: distinct_adj_Cons order.antisym)
qed simp

lemma polygon_first: "ring_ok (outline p) \<Longrightarrow> Polygon_rings p ! 0 ! 0 = outline p ! 0 \<and> point_ok (outline p ! 0)"
  by (cases "outline p") (auto simp: Polygon_rings_def ring_ok_def)

lemma indexed_polygons_plain:
  assumes law: "rtree_law R contents" and ix: "indexable pa" "indexable pb" and c: "in_i64 c" "c < 2 ^ 31"
  shows "IndexedPolygon_gap_cmp_polygon R (IndexedPolygon_new R pa) (IndexedPolygon_new R pb) c =
    gap_cmp (Polygon pa) (Polygon pb) c"
proof (cases "c < 0")
  case True
  then show ?thesis
    by (simp add: IndexedPolygon_gap_cmp_polygon_def gap_cmp_def i128_two c(1) Let_def)
next
  case False
  let ?A = "pt_edges (Polygon_rings pa)" and ?B = "pt_edges (Polygon_rings pb)" and ?T = "(real_of_int (2 * c))\<^sup>2"
  have rok: "rings_ok (Polygon_rings pa)" "rings_ok (Polygon_rings pb)" using ix shape_rings_ok(2) by (simp_all add: indexable_def)
  have f: "Polygon_rings pa ! 0 ! 0 = outline pa ! 0" "point_ok (outline pa ! 0)"
    "Polygon_rings pb ! 0 ! 0 = outline pb ! 0" "point_ok (outline pb ! 0)"
    using polygon_first ix by (auto simp: indexable_def polygon_ok_def)
  have cl: "0 \<le> c" "clamp_coord c = c" using False c(2) by (auto simp: clamp_coord_def)
  have probe: "IndexedPolygon_containment R (IndexedPolygon_new R pb) (outline pa ! 0) \<noteq> Outside \<longleftrightarrow> pt (dbl (outline pa ! 0)) \<in> region ?B"
    "IndexedPolygon_containment R (IndexedPolygon_new R pa) (outline pb ! 0) \<noteq> Outside \<longleftrightarrow> pt (dbl (outline pb ! 0)) \<in> region ?A"
    using containment_region [OF law ix(2) f(2)] containment_region [OF law ix(1) f(4)] region_pt_iff [OF rok(2) f(2)] region_pt_iff [OF rok(1) f(4)]
    by simp_all
  have plain: "gap_cmp (Polygon pa) (Polygon pb) c = region_region_cmp (Polygon_rings pa) (Polygon_rings pb) (2 * c)"
    using False i128_threshold [OF c(1), of 0 0] by (simp add: gap_cmp_def with_core_def)
  have loop: "IndexedPolygon_gap_cmp_polygon R (IndexedPolygon_new R pa) (IndexedPolygon_new R pb) c =
    (if \<not> BBox_intersects (BBox_inflate (Polygon_bbox pa) c) (Polygon_bbox pb) then Greater
     else if pt (dbl (outline pa ! 0)) \<in> region ?B \<or> pt (dbl (outline pb ! 0)) \<in> region ?A then cmp 0 ?T
     else cmp (sqdist (boundary ?A) (boundary ?B)) ?T)"
    using False polygon_loop [OF law ix cl(1) c(2) cl(2)] polygon_loop [OF law ix(2,1) cl(1) c(2) cl(2)]
    by (simp add: IndexedPolygon_gap_cmp_polygon_def i128_two c(1) cl(2) ip_fields probe zero_cmp_exact sqdist_commute
        del: of_int_mult)
  show ?thesis
  proof (cases "BBox_intersects (BBox_inflate (Polygon_bbox pa) c) (Polygon_bbox pb)")
    case True
    then show ?thesis
      unfolding plain loop region_region_cmp_code [OF rok mult_nonneg_nonneg [OF zero_le_numeral cl(1)]] f
      using sqdist_touch by (auto simp: disjoint_iff simp del: split_paired_All split_paired_Ex)
  next
    case apart: False
    let ?pa = "Polygon pa" and ?pb = "Polygon pb"
    have ne: "shape_core ?pa \<noteq> {}" "shape_core ?pb \<noteq> {}" using core_of_exact(3) [of ?pa] core_of_exact(3) [of ?pb] ix by (simp_all add: indexable_def)
    have "(real_of_int c)\<^sup>2 < sqdist (shape_core ?pa) (shape_core ?pb)"
      using boxes_apart [OF ne(1) _ ne(2) _ indexable_box(1) [OF ix(1)] indexable_box(1) [OF ix(2)] order.refl cl(1), where k = "real_of_int c"]
        indexable_box(2) [OF ix(1)] indexable_box(2) [OF ix(2)] apart cl(1) BBox_inflate_0 [OF indexable_box(1) [OF ix(1)]] by simp
    then have "?T < sqdist (region ?A) (region ?B)"
      using ne by (simp add: pt_edges_scale2 rok region_scale2 sqdist_scale2 power_mult_distrib)
    then have "cmp (sqdist (region ?A) (region ?B)) ?T = Greater" by (simp add: cmp_def)
    then have "Greater \<le> region_region_cmp (Polygon_rings pa) (Polygon_rings pb) (2 * c)"
      using region_region_cmp_ge [OF rok, of "2 * c"] cl(1) by simp
    then have "region_region_cmp (Polygon_rings pa) (Polygon_rings pb) (2 * c) = Greater"
      by (cases "region_region_cmp (Polygon_rings pa) (Polygon_rings pb) (2 * c)") simp_all
    then show ?thesis unfolding plain loop using apart by simp
  qed
qed

section \<open>A tree that satisfies the law\<close>

text \<open>The list of all entries, scanned by every query: the law can hold.\<close>

definition scan_rtree :: "index_entry list rtree" where
  "scan_rtree = \<lparr>rt_new = [], rt_bulk_load = (\<lambda>es. es), rt_insert = (\<lambda>t e. e # t),
     rt_remove = (\<lambda>t e. if e \<in> set t then (remove1 e t, Some e) else (t, None)),
     rt_size = length, rt_locate = (\<lambda>t q. filter (\<lambda>e. aabb_meet (envelope (entry_bbox e)) q) t)\<rparr>"

lemma scan_rtree_law: "rtree_law scan_rtree mset"
  by (auto simp: rtree_law_def scan_rtree_def)


section \<open>Properties\<close>

definition plane_piece :: polygon where
  "plane_piece = \<lparr>outline = [Point_new 0 0, Point_new 100 0, Point_new 100 100, Point_new 0 100],
     holes = [[Point_new 40 40, Point_new 40 60, Point_new 60 60, Point_new 60 40]]\<rparr>"

lemma plane_piece_indexable: "indexable plane_piece"
  unfolding plane_piece_def by code_simp

text \<open>Containment through the edge index, which visits only the edges whose boxes meet the rightward
  ray and in whatever order the tree yields them, gives the answer of the plain kernel.\<close>

theorem indexed_containment_plain:
  assumes "rtree_law R contents" "indexable poly" "point_ok p"
  shows "IndexedPolygon_containment R (IndexedPolygon_new R poly) p = point_in_polygon p poly"
  by (rule containment_plain [OF assms])

theorem indexed_containment_plain_witness:
  "IndexedPolygon_containment scan_rtree (IndexedPolygon_new scan_rtree plane_piece) (Point_new 50 50) = Outside"
proof -
  have p: "point_ok (Point_new 50 50)" by code_simp
  have "point_in_polygon (Point_new 50 50) plane_piece = Outside" unfolding plane_piece_def by code_simp
  then show ?thesis using indexed_containment_plain [OF scan_rtree_law plane_piece_indexable p] by simp
qed

text \<open>C15. The indexed gap test, which looks only at the edges within reach, is exact: for every solid
  shape (no holes) and every clearance below \<open>2 ^ 31\<close> it compares the real gap between the region
  and the shape with the clearance, and \<open>touches\<close> says whether that gap is at most zero.\<close>

theorem indexed_gap_exact:
  assumes "rtree_law R contents" "indexable poly" "shape_ok s" "solid s" "in_i64 c" "c < 2 ^ 31"
  shows "IndexedPolygon_gap_cmp R (IndexedPolygon_new R poly) s c = cmp (shape_gap (Polygon poly) s) (real_of_int c)
    \<and> (IndexedPolygon_touches R (IndexedPolygon_new R poly) s \<longleftrightarrow> shape_gap (Polygon poly) s \<le> 0)"
proof -
  have "IndexedPolygon_touches R (IndexedPolygon_new R poly) s \<longleftrightarrow> cmp (shape_gap (Polygon poly) s) 0 \<noteq> Greater"
    using indexed_touches_gap [OF assms(3,4), of R "IndexedPolygon_new R poly"] indexed_gap_gap [OF assms(1-4), of 0] by (simp add: in_i64_def)
  then show ?thesis using indexed_gap_gap [OF assms] by (auto simp: cmp_def)
qed

theorem indexed_gap_exact_witness:
  "shape_gap (Polygon plane_piece) (Circle \<lparr>center = Point_new 50 50, radius = 4\<rparr>) = 6"
proof -
  let ?s = "Circle \<lparr>center = Point_new 50 50, radius = 4\<rparr>"
  have h: "shape_ok ?s" "solid ?s" "in_i64 6" "(6 :: int) < 2 ^ 31" by code_simp+
  have "IndexedPolygon_gap_cmp scan_rtree (IndexedPolygon_new scan_rtree plane_piece) ?s 6 = Equal"
    unfolding plane_piece_def scan_rtree_def by code_simp
  then show ?thesis
    using indexed_gap_exact [OF scan_rtree_law plane_piece_indexable h, THEN conjunct1] by (simp add: cmp_iff)
qed

text \<open>C16. For every clearance below \<open>2 ^ 31\<close>, two regions whose holes lie inside the box of the outline
  compare through their indexes as the plain kernel compares them, although only the pairs of edges
  within reach are visited; and the indexed point distance compares the real distance from the point
  to the region (zero inside) with the clearance. (\<open>indexed_limits\<close> shows what happens beyond these bounds.)\<close>

theorem indexed_polygons_and_points:
  assumes "rtree_law R contents" "indexable pa" "indexable pb" "in_i64 c" "c < 2 ^ 31" "point_ok p"
  shows "IndexedPolygon_gap_cmp_polygon R (IndexedPolygon_new R pa) (IndexedPolygon_new R pb) c =
      gap_cmp (Polygon pa) (Polygon pb) c
    \<and> IndexedPolygon_point_distance_cmp R (IndexedPolygon_new R pa) p c =
      cmp (sqrt (sqdist {rp p} (shape_core (Polygon pa)))) (real_of_int c)"
  using indexed_polygons_plain [OF assms(1-5)] indexed_point_distance_gap [OF assms(1,2,6,4,5)] by blast

theorem indexed_polygons_and_points_witness:
  "sqrt (sqdist {(130, 140)} (shape_core (Polygon plane_piece))) = 50"
proof -
  have h: "in_i64 50" "(50 :: int) < 2 ^ 31" "point_ok (Point_new 130 140)" by code_simp+
  have "IndexedPolygon_point_distance_cmp scan_rtree (IndexedPolygon_new scan_rtree plane_piece) (Point_new 130 140) 50 = Equal"
    unfolding plane_piece_def scan_rtree_def by code_simp
  then show ?thesis
    using indexed_polygons_and_points [OF scan_rtree_law plane_piece_indexable plane_piece_indexable h, THEN conjunct2]
    by (simp add: cmp_iff rp_def)
qed

text \<open>The two limits of the statement that the indexed answers are identical for every input. A
  clearance beyond \<open>i32::MAX\<close> is clamped before the box test, so a region more than \<open>2 ^ 31\<close> away is
  reported clear by the index and too close by the plain kernel; and a polygon the constructor
  accepts whose hole lies outside the box of the outline is answered differently inside that hole.
  Both hold for every tree, as the code returns before it asks the tree.\<close>

theorem indexed_limits:
  "gap_cmp (Polygon \<lparr>outline = [Point_new 2147483000 0, Point_new 2147483600 0, Point_new 2147483600 9], holes = []\<rparr>)
      (Circle \<lparr>center = Point_new (- 2147483648) 0, radius = 0\<rparr>) 4294967296 = Less
   \<and> IndexedPolygon_gap_cmp R
      (IndexedPolygon_new R \<lparr>outline = [Point_new 2147483000 0, Point_new 2147483600 0, Point_new 2147483600 9], holes = []\<rparr>)
      (Circle \<lparr>center = Point_new (- 2147483648) 0, radius = 0\<rparr>) 4294967296 = Greater
   \<and> Polygon_new [Point_new 0 0, Point_new 4 0, Point_new 4 4] [[Point_new 20 0, Point_new 24 4, Point_new 24 0]]
      = Some \<lparr>outline = [Point_new 0 0, Point_new 4 0, Point_new 4 4], holes = [[Point_new 20 0, Point_new 24 4, Point_new 24 0]]\<rparr>
   \<and> point_in_polygon (Point_new 23 1)
      \<lparr>outline = [Point_new 0 0, Point_new 4 0, Point_new 4 4], holes = [[Point_new 20 0, Point_new 24 4, Point_new 24 0]]\<rparr> = Inside
   \<and> IndexedPolygon_containment R (IndexedPolygon_new R
      \<lparr>outline = [Point_new 0 0, Point_new 4 0, Point_new 4 4], holes = [[Point_new 20 0, Point_new 24 4, Point_new 24 0]]\<rparr>)
      (Point_new 23 1) = Outside"
proof (intro conjI)
  let ?far = "\<lparr>outline = [Point_new 2147483000 0, Point_new 2147483600 0, Point_new 2147483600 9], holes = []\<rparr>"
  let ?disc = "Circle \<lparr>center = Point_new (- 2147483648) 0, radius = 0\<rparr>"
  let ?isle = "\<lparr>outline = [Point_new 0 0, Point_new 4 0, Point_new 4 4], holes = [[Point_new 20 0, Point_new 24 4, Point_new 24 0]]\<rparr>"
  show "gap_cmp (Polygon ?far) ?disc 4294967296 = Less" by code_simp
  have "\<not> BBox_intersects (BBox_inflate (Shape_bbox ?disc) (clamp_coord 4294967296)) (Polygon_bbox ?far)"
    "\<not> i128 (i128 (2 * 4294967296) + Shape_sweep2 ?disc) < 0" by code_simp+
  then show "IndexedPolygon_gap_cmp R (IndexedPolygon_new R ?far) ?disc 4294967296 = Greater"
    by (simp only: IndexedPolygon_gap_cmp_def Let_def ip_fields if_False not_False_eq_True if_True)
  show "Polygon_new [Point_new 0 0, Point_new 4 0, Point_new 4 4] [[Point_new 20 0, Point_new 24 4, Point_new 24 0]] = Some ?isle"
    by code_simp
  show "point_in_polygon (Point_new 23 1) ?isle = Inside" by code_simp
  have "\<not> BBox_contains (Polygon_bbox ?isle) (Point_new 23 1)" by code_simp
  then show "IndexedPolygon_containment R (IndexedPolygon_new R ?isle) (Point_new 23 1) = Outside"
    by (simp only: IndexedPolygon_containment_def ip_fields if_True not_False_eq_True)
qed

text \<open>A layer query returns, in ascending order and without repetition, exactly the ids of the stored
  entries whose boxes intersect the query box, whatever the tree's history; an entry just inserted
  is counted and found, and removing it reports success and restores the entries stored before.\<close>

theorem layer_query_spec:
  assumes "rtree_law R contents"
  shows "sorted (LayerIndex_query R li b) \<and> distinct (LayerIndex_query R li b)
    \<and> set (LayerIndex_query R li b) = {entry_id e | e. e \<in># contents (tree li) \<and> BBox_intersects (entry_bbox e) b}
    \<and> contents (tree (LayerIndex_insert R li e)) = add_mset e (contents (tree li))
    \<and> LayerIndex_len R (LayerIndex_insert R li e) = Suc (LayerIndex_len R li)
    \<and> snd (LayerIndex_remove R (LayerIndex_insert R li e) e)
    \<and> contents (tree (fst (LayerIndex_remove R (LayerIndex_insert R li e) e))) = contents (tree li)
    \<and> (e \<notin># contents (tree li) \<longrightarrow> LayerIndex_remove R li e = (li, False))"
proof -
  note law = assms [unfolded rtree_law_def]
  have ids: "set (LayerIndex_query R li b) = entry_id ` set_mset (mset (LayerIndex_query_entries R li b))"
    by (simp add: LayerIndex_query_def)
  have "set (LayerIndex_query R li b) = {entry_id e | e. e \<in># contents (tree li) \<and> BBox_intersects (entry_bbox e) b}"
    unfolding ids LayerIndex_query_entries_def rtree_lawD [OF assms] aabb_meet_bbox by auto
  moreover have "sorted (LayerIndex_query R li b) \<and> distinct (LayerIndex_query R li b)"
    by (simp add: LayerIndex_query_def sorted_distinct_adj)
  moreover have ins: "contents (tree (LayerIndex_insert R li e)) = add_mset e (contents (tree li))"
    using law by (simp add: LayerIndex_insert_def)
  moreover have "LayerIndex_len R (LayerIndex_insert R li e) = Suc (LayerIndex_len R li)"
    using law ins by (simp add: LayerIndex_len_def)
  moreover have "rt_remove R (tree (LayerIndex_insert R li e)) e = (fst (rt_remove R (tree (LayerIndex_insert R li e)) e), Some e)"
    "contents (fst (rt_remove R (tree (LayerIndex_insert R li e)) e)) = contents (tree li)"
    using law ins by (simp_all, metis add_mset_remove_trivial union_single_eq_member)
  moreover have "e \<notin># contents (tree li) \<longrightarrow> rt_remove R (tree li) e = (tree li, None)" using law by metis
  ultimately show ?thesis by (auto simp: LayerIndex_remove_def split: prod.splits)
qed

theorem layer_query_spec_witness:
  "set (LayerIndex_query scan_rtree (LayerIndex_bulk_load scan_rtree
     [\<lparr>entry_id = 7, entry_bbox = BBox_new (Point_new 0 0) (Point_new 10 10)\<rparr>,
      \<lparr>entry_id = 3, entry_bbox = BBox_new (Point_new 5 5) (Point_new 20 20)\<rparr>]) (BBox_point (Point_new 8 8))) = {3, 7}
   \<and> sorted (LayerIndex_query scan_rtree (LayerIndex_bulk_load scan_rtree
     [\<lparr>entry_id = 7, entry_bbox = BBox_new (Point_new 0 0) (Point_new 10 10)\<rparr>,
      \<lparr>entry_id = 3, entry_bbox = BBox_new (Point_new 5 5) (Point_new 20 20)\<rparr>]) (BBox_point (Point_new 8 8)))"
proof -
  let ?li = "LayerIndex_bulk_load scan_rtree
     [\<lparr>entry_id = 7, entry_bbox = BBox_new (Point_new 0 0) (Point_new 10 10)\<rparr>,
      \<lparr>entry_id = 3, entry_bbox = BBox_new (Point_new 5 5) (Point_new 20 20)\<rparr>]"
  note spec = layer_query_spec [OF scan_rtree_law, of ?li "BBox_point (Point_new 8 8)"]
  have "LayerIndex_query scan_rtree ?li (BBox_point (Point_new 8 8)) = [3, 7]" unfolding scan_rtree_def by code_simp
  then show ?thesis using spec [THEN conjunct1] by auto
qed

end
