(* ===== verification/File_System.thy ===== *)
theory File_System
  imports Konnect_Prelude "HOL-Library.AList" "HOL-Library.Sublist" "HOL-Library.List_Lexorder" "HOL-Library.Char_ord"
begin

text \<open>
  The part of the operating system the document writers use, and the writers themselves
  (\<open>crates/konnect-sexp/src/writer.rs\<close>).

  \<^item> A file tree is an association list from absolute paths (lists of names) to nodes; \<open>canonicalize\<close>
    follows symbolic links as the system does (at most 40 of them).
  \<^item> A computation takes the world and returns a result and the world: a value, an error, or the
    process was killed. Every system call first consults the \<open>faults\<close> of the world, which say whether
    it proceeds, fails with an I/O error, or is the point at which the process dies; an empty list
    means that everything proceeds. Quantifying over the faults covers every crash and I/O failure.
  \<^item> \<open>env\<close> holds what is not in the repository: the uuid and temporary-name generators, the process id,
    the JSON codec of the journal.
\<close>

section \<open>Paths and trees\<close>

type_synonym path = "string list"

datatype node = File string | Dir | Symlink bool path

type_synonym tree = "(path \<times> node) list"

definition lookup :: "tree \<Rightarrow> path \<Rightarrow> node option" where
  "lookup fs p = (if p = [] then Some Dir else map_of fs p)"

definition put :: "tree \<Rightarrow> path \<Rightarrow> node \<Rightarrow> tree" where
  "put fs p n = AList.update p n fs"

definition del :: "tree \<Rightarrow> path \<Rightarrow> tree" where
  "del fs p = AList.delete p fs"

lemma lookup_put [simp]: "p \<noteq> [] \<Longrightarrow> lookup (put fs p n) q = (if q = p then Some n else lookup fs q)"
  by (simp add: lookup_def put_def update_conv')

lemma lookup_del [simp]: "p \<noteq> [] \<Longrightarrow> lookup (del fs p) q = (if q = p then None else lookup fs q)"
  by (simp add: lookup_def del_def delete_conv')

lemma lookup_Nil [simp]: "lookup fs [] = Some Dir"
  by (simp add: lookup_def)

text \<open>A path as the caller gives it. The names are Rust's path components: no empty name and no dot.\<close>

datatype pathbuf = Abs path | Rel path

fun joined :: "path \<Rightarrow> pathbuf \<Rightarrow> path" where
  "joined base (Abs p) = p"
| "joined base (Rel p) = base @ p"

definition file_name :: "path \<Rightarrow> string option" where
  "file_name p = (if p = [] \<or> last p = ''..'' then None else Some (last p))"

text \<open>\<open>std::fs::canonicalize\<close>: resolve the rest of the path below the canonical directory \<open>cur\<close>.\<close>

function walk :: "nat \<Rightarrow> tree \<Rightarrow> path \<Rightarrow> path \<Rightarrow> path option" where
  "walk links fs cur [] = Some cur"
| "walk links fs cur (c # cs) =
     (if c = ''..'' then walk links fs (butlast cur) cs
      else case lookup fs (cur @ [c]) of
          None \<Rightarrow> None
        | Some Dir \<Rightarrow> walk links fs (cur @ [c]) cs
        | Some (File _) \<Rightarrow> (if cs = [] then Some (cur @ [c]) else None)
        | Some (Symlink absolute target) \<Rightarrow>
            (if links = 0 then None
             else walk (links - 1) fs (if absolute then [] else cur) (target @ cs)))"
  by pat_completeness auto
termination
  by (relation "measures [\<lambda>(links, fs, cur, cs). links, \<lambda>(links, fs, cur, cs). length cs]") auto

definition canonicalize :: "tree \<Rightarrow> path \<Rightarrow> path option" where
  "canonicalize fs p = walk 40 fs [] p"

section \<open>Errors, results, the world\<close>

datatype io_kind = NotFound | AlreadyExists | OtherIo

text \<open>The error type of the code. \<open>Panicked\<close> is not one of its values: it stands for a failed assertion.\<close>

datatype sexp_error =
    Parse nat string
  | Io io_kind
  | MissingNode string
  | InvalidValue
  | Conflict path
  | KiCadEditorLocked path path
  | ItemConflict path string string
  | TransactionConflict path path
  | Panicked

datatype 'a outcome = Ok 'a | Err sexp_error | Killed

datatype fault = Proceed | Fail | Kill

record world =
  files :: tree
  faults :: "fault list"
  counter :: nat
  nonce :: nat

type_synonym 'a io = "world \<Rightarrow> 'a outcome \<times> world"

definition io_return :: "'a \<Rightarrow> 'a io" where
  "io_return x w = (Ok x, w)"

definition io_throw :: "sexp_error \<Rightarrow> 'a io" where
  "io_throw e w = (Err e, w)"

definition io_bind :: "'a io \<Rightarrow> ('a \<Rightarrow> 'b io) \<Rightarrow> 'b io" where
  "io_bind m k w = (case m w of (Ok x, w') \<Rightarrow> k x w' | (Err e, w') \<Rightarrow> (Err e, w') | (Killed, w') \<Rightarrow> (Killed, w'))"

definition io_then :: "unit io \<Rightarrow> 'b io \<Rightarrow> 'b io" where
  "io_then m k = io_bind m (\<lambda>_. k)"

fun io_for :: "('a \<Rightarrow> unit io) \<Rightarrow> 'a list \<Rightarrow> unit io" where
  "io_for f [] = io_return ()"
| "io_for f (x # xs) = io_then (f x) (io_for f xs)"

definition io_when :: "bool \<Rightarrow> sexp_error \<Rightarrow> unit io" where
  "io_when c e = (if c then io_throw e else io_return ())"

text \<open>One system call: consult the faults, then act on the tree.\<close>

definition syscall :: "(tree \<Rightarrow> (sexp_error + 'a) \<times> tree) \<Rightarrow> 'a io" where
  "syscall f w =
     (case faults w of
        Fail # rest \<Rightarrow> (Err (Io OtherIo), w\<lparr>faults := rest\<rparr>)
      | Kill # rest \<Rightarrow> (Killed, w\<lparr>faults := rest\<rparr>)
      | _ \<Rightarrow> (case f (files w) of
          (Inl e, fs) \<Rightarrow> (Err e, w\<lparr>files := fs, faults := tl (faults w)\<rparr>)
        | (Inr x, fs) \<Rightarrow> (Ok x, w\<lparr>files := fs, faults := tl (faults w)\<rparr>)))"

text \<open>\<open>symlink_metadata\<close>: \<open>None\<close> is "not found"; below a regular file the error is another one.\<close>

definition sys_metadata :: "path \<Rightarrow> node option io" where
  "sys_metadata p = syscall (\<lambda>fs.
     ((case lookup fs (butlast p) of Some (File _) \<Rightarrow> Inl (Io OtherIo) | _ \<Rightarrow> Inr (lookup fs p)), fs))"

definition sys_canonicalize :: "path \<Rightarrow> path io" where
  "sys_canonicalize p = syscall (\<lambda>fs. ((case canonicalize fs p of None \<Rightarrow> Inl (Io NotFound) | Some q \<Rightarrow> Inr q), fs))"

definition read_file :: "tree \<Rightarrow> path \<Rightarrow> sexp_error + string" where
  "read_file fs p = (case canonicalize fs p of None \<Rightarrow> Inl (Io NotFound)
     | Some q \<Rightarrow> (case lookup fs q of Some (File s) \<Rightarrow> Inr s | _ \<Rightarrow> Inl (Io OtherIo)))"

definition sys_read :: "path \<Rightarrow> string io" where
  "sys_read p = syscall (\<lambda>fs. (read_file fs p, fs))"

definition sys_create_new :: "path \<Rightarrow> bool io" where
  "sys_create_new p = syscall (\<lambda>fs.
     if lookup fs p \<noteq> None then (Inr False, fs)
     else if lookup fs (butlast p) \<noteq> Some Dir then (Inl (Io NotFound), fs)
     else (Inr True, put fs p (File [])))"

definition sys_write :: "path \<Rightarrow> string \<Rightarrow> unit io" where
  "sys_write p s = syscall (\<lambda>fs. (Inr (), put fs p (File s)))"

definition sys_rename :: "path \<Rightarrow> path \<Rightarrow> unit io" where
  "sys_rename p q = syscall (\<lambda>fs. case lookup fs p of
       None \<Rightarrow> (Inl (Io NotFound), fs)
     | Some n \<Rightarrow> if lookup fs q = Some Dir then (Inl (Io OtherIo), fs) else (Inr (), put (del fs p) q n))"

definition sys_rename_noclobber :: "path \<Rightarrow> path \<Rightarrow> unit io" where
  "sys_rename_noclobber p q = syscall (\<lambda>fs. case lookup fs p of
       None \<Rightarrow> (Inl (Io NotFound), fs)
     | Some n \<Rightarrow> if lookup fs q \<noteq> None then (Inl (Io AlreadyExists), fs) else (Inr (), put (del fs p) q n))"

definition sys_remove :: "path \<Rightarrow> unit io" where
  "sys_remove p = syscall (\<lambda>fs. case lookup fs p of
       None \<Rightarrow> (Inl (Io NotFound), fs)
     | Some Dir \<Rightarrow> (Inl (Io OtherIo), fs)
     | Some _ \<Rightarrow> (Inr (), del fs p))"

definition sys_sync_dir :: "path \<Rightarrow> unit io" where
  "sys_sync_dir p = syscall (\<lambda>fs. if lookup fs p = Some Dir then (Inr (), fs) else (Inl (Io NotFound), fs))"

definition sys_read_dir :: "path \<Rightarrow> path list io" where
  "sys_read_dir p = syscall (\<lambda>fs.
     if lookup fs p = Some Dir then (Inr (remdups (filter (\<lambda>q. q \<noteq> [] \<and> butlast q = p) (map fst fs))), fs)
     else (Inl (Io NotFound), fs))"

text \<open>\<open>Path::exists\<close> and \<open>Path::is_file\<close> follow links and answer \<open>false\<close> on an error.\<close>

definition probe :: "(node option \<Rightarrow> bool) \<Rightarrow> path \<Rightarrow> bool io" where
  "probe f p w = (case syscall (\<lambda>fs. (Inr (f (case canonicalize fs p of None \<Rightarrow> None | Some q \<Rightarrow> lookup fs q)), fs)) w of
       (Err _, w') \<Rightarrow> (Ok False, w') | r \<Rightarrow> r)"

definition sys_exists :: "path \<Rightarrow> bool io" where
  "sys_exists = probe (\<lambda>n. n \<noteq> None)"

definition sys_is_file :: "path \<Rightarrow> bool io" where
  "sys_is_file = probe (\<lambda>n. case n of Some (File _) \<Rightarrow> True | _ \<Rightarrow> False)"

section \<open>The platform\<close>

record env =
  uuid :: "nat \<Rightarrow> string"
  temp_name :: "nat \<Rightarrow> string"
  process_id :: nat

text \<open>\<open>format!\<close> of an unsigned integer.\<close>

fun decimal :: "nat \<Rightarrow> string" where
  "decimal n = (if n < 10 then [char_of (48 + n)] else decimal (n div 10) @ [char_of (48 + n mod 10)])"

declare decimal.simps [simp del]

section \<open>KiCad's editor lock\<close>

definition lower :: "char \<Rightarrow> char" where
  "lower c = (if 65 \<le> (of_char c :: nat) \<and> (of_char c :: nat) \<le> 90 then char_of (of_char c + 32 :: nat) else c)"

text \<open>The part after the last dot, unless that dot is the first character.\<close>

definition extension :: "string \<Rightarrow> string option" where
  "extension name =
     (let tail = takeWhile (\<lambda>c. c \<noteq> CHR ''.'') (rev name)
      in if length tail = length name \<or> length tail + 1 = length name then None else Some (rev tail))"

definition kicad_editor_lock_path :: "tree \<Rightarrow> path \<Rightarrow> path option" where
  "kicad_editor_lock_path fs p =
     (let resolved = (case canonicalize fs p of Some q \<Rightarrow> q
            | None \<Rightarrow> (case (if p = [] then None else canonicalize fs (butlast p), file_name p) of
                (Some parent, Some name) \<Rightarrow> parent @ [name] | _ \<Rightarrow> p));
          is_design_document = (case file_name resolved of None \<Rightarrow> False
            | Some name \<Rightarrow> (case extension name of None \<Rightarrow> False
                | Some e \<Rightarrow> map lower e = ''kicad_sch'' \<or> map lower e = ''kicad_pcb''))
      in if \<not> is_design_document then None
         else case file_name resolved of None \<Rightarrow> None
           | Some name \<Rightarrow> Some (butlast resolved @ [''~'' @ name @ ''.lck'']))"

definition sys_lock_path :: "path \<Rightarrow> path option io" where
  "sys_lock_path p w = (Ok (kicad_editor_lock_path (files w) p), w)"

text \<open>Anything at the lock path, and any failure to look, refuses the write.\<close>

definition ensure_kicad_design_document_is_closed_with :: "path \<Rightarrow> path \<Rightarrow> unit io" where
  "ensure_kicad_design_document_is_closed_with p lock_path w =
     (case sys_metadata lock_path w of
        (Ok None, w') \<Rightarrow> (Ok (), w')
      | (Ok (Some _), w') \<Rightarrow> (Err (KiCadEditorLocked p lock_path), w')
      | (Err _, w') \<Rightarrow> (Err (KiCadEditorLocked p lock_path), w')
      | (Killed, w') \<Rightarrow> (Killed, w'))"

definition ensure_kicad_design_document_is_closed :: "path \<Rightarrow> unit io" where
  "ensure_kicad_design_document_is_closed p =
     io_bind (sys_lock_path p) (\<lambda>lock. case lock of None \<Rightarrow> io_return ()
       | Some lock_path \<Rightarrow> ensure_kicad_design_document_is_closed_with p lock_path)"

section \<open>Atomic writes\<close>

definition sync_parent_directory :: "path \<Rightarrow> unit io" where
  "sync_parent_directory parent = sys_sync_dir parent"

definition scratch_path_for :: "'e env_scheme \<Rightarrow> path \<Rightarrow> path io" where
  "scratch_path_for E p w =
     (let name = (case file_name p of Some n \<Rightarrow> n | None \<Rightarrow> ''unnamed'');
          n = counter w
      in (Ok (butlast p @ [name @ ''.'' @ decimal (process_id E) @ ''.'' @ decimal n @ ''.kicad_tmp'']),
          w\<lparr>counter := n + 1\<rparr>))"

definition SCRATCH_ATTEMPTS :: nat where
  "SCRATCH_ATTEMPTS = 16"

fun scratch_loop :: "nat \<Rightarrow> 'e env_scheme \<Rightarrow> path \<Rightarrow> path io" where
  "scratch_loop 0 E p = io_throw (Io AlreadyExists)"
| "scratch_loop (Suc n) E p =
     io_bind (scratch_path_for E p) (\<lambda>candidate.
       io_bind (sys_create_new candidate) (\<lambda>created.
         if created then io_return candidate else scratch_loop n E p))"

definition create_scratch_file :: "'e env_scheme \<Rightarrow> path \<Rightarrow> path io" where
  "create_scratch_file E p = scratch_loop SCRATCH_ATTEMPTS E p"

text \<open>\<open>ScratchGuard\<close>: on an error the scratch file is removed if that succeeds; a killed process
  removes nothing.\<close>

definition guarded :: "path \<Rightarrow> unit io \<Rightarrow> unit io" where
  "guarded tmp m w = (case m w of
       (Err e, w') \<Rightarrow> (case sys_remove tmp w' of (Killed, w'') \<Rightarrow> (Killed, w'') | (_, w'') \<Rightarrow> (Err e, w''))
     | r \<Rightarrow> r)"

definition write_atomic_unlocked :: "'e env_scheme \<Rightarrow> path \<Rightarrow> string \<Rightarrow> unit io" where
  "write_atomic_unlocked E p content =
     io_then (ensure_kicad_design_document_is_closed p)
       (io_bind (create_scratch_file E p) (\<lambda>tmp_path.
         io_then (guarded tmp_path
             (io_then (sys_write tmp_path content)
             (io_then (ensure_kicad_design_document_is_closed p)
               (sys_rename tmp_path p))))
           (sync_parent_directory (butlast p))))"

text \<open>\<open>tempfile\<close> creates a file under an unused name; dropping it removes the file.\<close>

definition temp_path :: "'e env_scheme \<Rightarrow> path \<Rightarrow> path io" where
  "temp_path E parent w = (Ok (parent @ [''.konnect-'' @ temp_name E (nonce w)]), w\<lparr>nonce := nonce w + 1\<rparr>)"

definition write_new_atomic_unlocked :: "'e env_scheme \<Rightarrow> path \<Rightarrow> string \<Rightarrow> unit io" where
  "write_new_atomic_unlocked E p content =
     io_then (ensure_kicad_design_document_is_closed p)
       (io_bind (temp_path E (butlast p)) (\<lambda>temporary.
         io_bind (sys_create_new temporary) (\<lambda>created.
           io_then (io_when (\<not> created) (Io AlreadyExists))
             (io_then (guarded temporary
               (io_then (sys_write temporary content)
               (io_then (ensure_kicad_design_document_is_closed p)
                 (sys_rename_noclobber temporary p))))
             (sync_parent_directory (butlast p))))))"

section \<open>Documents and their locks\<close>

text \<open>The lock a document is guarded by is named by a hash of its canonical directory and its name;
  the pair stands for it. Lock files are in Konnect's own state directory, outside the project.\<close>

definition open_document_lock :: "path \<Rightarrow> (path \<times> string) io" where
  "open_document_lock p =
     io_bind (sys_canonicalize (butlast p)) (\<lambda>canonical_parent.
       case file_name p of None \<Rightarrow> io_throw InvalidValue
         | Some name \<Rightarrow> syscall (\<lambda>fs. (Inr (canonical_parent, name), fs)))"

definition read_string_unlocked :: "path \<Rightarrow> string io" where
  "read_string_unlocked p = sys_read p"

section \<open>Reasoning about computations\<close>

text \<open>
  \<open>hoare P m Q X\<close>: from a tree in \<open>P\<close>, whatever the faults, a normal return of \<open>x\<close> leaves a tree in
  \<open>Q x\<close>, and an error or a kill leaves a tree in \<open>X\<close>.
\<close>

definition hoare :: "(tree \<Rightarrow> bool) \<Rightarrow> 'a io \<Rightarrow> ('a \<Rightarrow> tree \<Rightarrow> bool) \<Rightarrow> (tree \<Rightarrow> bool) \<Rightarrow> bool" where
  "hoare P m Q X \<longleftrightarrow> (\<forall>w. P (files w) \<longrightarrow> (case m w of
     (Ok x, w') \<Rightarrow> Q x (files w') | (Err _, w') \<Rightarrow> X (files w') | (Killed, w') \<Rightarrow> X (files w')))"

named_theorems hoare_rules "triples of the computations"

lemma hoare_return [hoare_rules]: "hoare (Q x) (io_return x) Q X"
  by (simp add: hoare_def io_return_def)

lemma hoare_throw [hoare_rules]: "hoare X (io_throw e) Q X"
  by (simp add: hoare_def io_throw_def)

lemma hoare_bind:
  assumes "hoare P m R X" and "\<And>x. hoare (R x) (k x) Q X"
  shows "hoare P (io_bind m k) Q X"
  unfolding hoare_def io_bind_def
proof (intro allI impI)
  fix w :: world assume "P (files w)"
  then have m: "case m w of (Ok x, w') \<Rightarrow> R x (files w') | (Err _, w') \<Rightarrow> X (files w') | (Killed, w') \<Rightarrow> X (files w')"
    using assms(1) by (simp add: hoare_def)
  show "case (case m w of (Ok x, w') \<Rightarrow> k x w' | (Err e, w') \<Rightarrow> (Err e, w') | (Killed, w') \<Rightarrow> (Killed, w')) of
      (Ok x, w') \<Rightarrow> Q x (files w') | (Err _, w') \<Rightarrow> X (files w') | (Killed, w') \<Rightarrow> X (files w')"
  proof (cases "m w")
    case (Pair r w')
    then show ?thesis using m assms(2) by (cases r) (auto simp: hoare_def)
  qed
qed

lemma hoare_then:
  assumes "hoare P m (\<lambda>_. R) X" and "hoare R k Q X"
  shows "hoare P (io_then m k) Q X"
  unfolding io_then_def using assms by (rule hoare_bind)

lemma hoare_conseq:
  assumes "hoare P m Q X" and "\<And>fs. P' fs \<Longrightarrow> P fs" and "\<And>x fs. Q x fs \<Longrightarrow> Q' x fs" and "\<And>fs. X fs \<Longrightarrow> X' fs"
  shows "hoare P' m Q' X'"
  unfolding hoare_def
proof (intro allI impI)
  fix w :: world assume "P' (files w)"
  then have "case m w of (Ok x, w') \<Rightarrow> Q x (files w') | (Err _, w') \<Rightarrow> X (files w') | (Killed, w') \<Rightarrow> X (files w')"
    using assms(1,2) by (simp add: hoare_def)
  then show "case m w of (Ok x, w') \<Rightarrow> Q' x (files w') | (Err _, w') \<Rightarrow> X' (files w') | (Killed, w') \<Rightarrow> X' (files w')"
    using assms(3,4) by (auto split: prod.splits outcome.splits)
qed

lemma hoare_pre: "hoare P m Q X \<Longrightarrow> (\<And>fs. P' fs \<Longrightarrow> P fs) \<Longrightarrow> hoare P' m Q X"
  by (rule hoare_conseq)

lemma hoare_if:
  assumes "c \<Longrightarrow> hoare P m Q X" and "\<not> c \<Longrightarrow> hoare P k Q X"
  shows "hoare P (if c then m else k) Q X"
  using assms by simp

lemma hoare_when: "(\<And>fs. P fs \<Longrightarrow> c \<Longrightarrow> X fs) \<Longrightarrow> hoare P (io_when c e) (\<lambda>_ fs. P fs \<and> \<not> c) X"
  by (simp add: hoare_def io_when_def io_throw_def io_return_def)

text \<open>A fault leaves the tree alone, so a call is judged by what it does when it proceeds.\<close>

lemma hoare_syscall:
  assumes "\<And>fs. P fs \<Longrightarrow> X fs"
    and "\<And>fs. P fs \<Longrightarrow> (case f fs of (Inl _, fs') \<Rightarrow> X fs' | (Inr x, fs') \<Rightarrow> Q x fs')"
  shows "hoare P (syscall f) Q X"
  unfolding hoare_def syscall_def
proof (intro allI impI)
  fix w :: world assume P: "P (files w)"
  note ok = assms(2) [OF P] and x = assms(1) [OF P]
  obtain r fs' where f: "f (files w) = (r, fs')" by fastforce
  show "case (case faults w of Fail # rest \<Rightarrow> (Err (Io OtherIo), w\<lparr>faults := rest\<rparr>)
      | Kill # rest \<Rightarrow> (Killed, w\<lparr>faults := rest\<rparr>)
      | _ \<Rightarrow> (case f (files w) of
          (Inl e, fs) \<Rightarrow> (Err e, w\<lparr>files := fs, faults := tl (faults w)\<rparr>)
        | (Inr x, fs) \<Rightarrow> (Ok x, w\<lparr>files := fs, faults := tl (faults w)\<rparr>))) of
      (Ok x, w') \<Rightarrow> Q x (files w') | (Err _, w') \<Rightarrow> X (files w') | (Killed, w') \<Rightarrow> X (files w')"
    using ok x f by (auto split: list.splits fault.splits sum.splits)
qed

lemma hoare_for:
  assumes "\<And>x. x \<in> set xs \<Longrightarrow> hoare P (f x) (\<lambda>_. P) X" and "\<And>fs. P fs \<Longrightarrow> X fs"
  shows "hoare P (io_for f xs) (\<lambda>_. P) X"
  using assms by (induction xs) (auto intro: hoare_then hoare_return)

text \<open>The same with an invariant indexed by what has been processed.\<close>

lemma hoare_for_prefix:
  assumes "\<And>xs x ys. all = xs @ x # ys \<Longrightarrow> hoare (I xs) (f x) (\<lambda>_. I (xs @ [x])) X"
  shows "hoare (I []) (io_for f all) (\<lambda>_. I all) X"
proof -
  have "hoare (I xs) (io_for f ys) (\<lambda>_. I all) X" if "all = xs @ ys" for xs ys
    using that
  proof (induction ys arbitrary: xs)
    case Nil
    then show ?case using hoare_return [of "\<lambda>_. I all" "()" X] by simp
  next
    case (Cons y ys)
    then show ?case using assms [of xs y ys] by (auto intro!: hoare_then)
  qed
  from this [of "[]" all] show ?thesis by simp
qed

section \<open>Computations that only look\<close>

definition readonly :: "'a io \<Rightarrow> bool" where
  "readonly m \<longleftrightarrow> (\<forall>w. files (snd (m w)) = files w)"

named_theorems readonly_rules "computations that do not change the tree"

lemma readonly_hoare:
  assumes "readonly m" "\<And>fs. P fs \<Longrightarrow> X fs"
  shows "hoare P m (\<lambda>_. P) X"
  using assms by (auto simp: hoare_def readonly_def split: prod.splits outcome.splits) (metis snd_conv)+

lemma readonly_return [readonly_rules]: "readonly (io_return x)"
  and readonly_throw [readonly_rules]: "readonly (io_throw e)"
  and readonly_when [readonly_rules]: "readonly (io_when c e)"
  by (simp_all add: readonly_def io_return_def io_throw_def io_when_def)

lemma readonly_bind [readonly_rules]: "readonly m \<Longrightarrow> (\<And>x. readonly (k x)) \<Longrightarrow> readonly (io_bind m k)"
  by (simp add: readonly_def io_bind_def split: prod.splits outcome.splits) (metis snd_conv)

lemma readonly_then [readonly_rules]: "readonly m \<Longrightarrow> readonly k \<Longrightarrow> readonly (io_then m k)"
  unfolding io_then_def by (rule readonly_bind)

lemma readonly_for [readonly_rules]: "(\<And>x. readonly (f x)) \<Longrightarrow> readonly (io_for f xs)"
  by (induction xs) (auto intro: readonly_rules)

lemma readonly_if [readonly_rules]: "readonly m \<Longrightarrow> readonly k \<Longrightarrow> readonly (if c then m else k)"
  by simp

lemma readonly_syscall: "(\<And>fs. snd (f fs) = fs) \<Longrightarrow> readonly (syscall f)"
  by (auto simp: readonly_def syscall_def split: list.splits fault.splits prod.splits sum.splits) (metis snd_conv)+

lemma readonly_calls [readonly_rules]:
  "readonly (sys_metadata p)" "readonly (sys_canonicalize p)" "readonly (sys_read p)"
  "readonly (sys_sync_dir p)" "readonly (sys_read_dir p)"
  unfolding sys_metadata_def sys_canonicalize_def sys_read_def sys_sync_dir_def sys_read_dir_def
  by (auto intro!: readonly_syscall)

lemma readonly_catch: "readonly m \<Longrightarrow> readonly (\<lambda>w. case m w of (Err _, w') \<Rightarrow> (Ok x, w') | r \<Rightarrow> r)"
  unfolding readonly_def by (intro allI) (erule_tac x = w in allE, auto split: prod.splits outcome.splits)

lemma readonly_probe [readonly_rules]: "readonly (sys_exists p)" "readonly (sys_is_file p)"
proof -
  have "readonly (probe f p)" for f
    unfolding probe_def [abs_def] by (rule readonly_catch) (rule readonly_syscall, simp)
  then show "readonly (sys_exists p)" "readonly (sys_is_file p)" by (simp_all add: sys_exists_def sys_is_file_def)
qed

lemma readonly_closed [readonly_rules]: "readonly (ensure_kicad_design_document_is_closed p)"
proof -
  have "readonly (ensure_kicad_design_document_is_closed_with p l)" for l
    using readonly_calls(1) [of l]
    by (auto simp: readonly_def ensure_kicad_design_document_is_closed_with_def split: prod.splits outcome.splits option.splits)
       (metis snd_conv)+
  moreover have "readonly (sys_lock_path p)" by (simp add: readonly_def sys_lock_path_def)
  ultimately show ?thesis
    unfolding ensure_kicad_design_document_is_closed_def
    by (auto intro!: readonly_bind readonly_return split: option.splits)
qed

section \<open>What an atomic write can leave behind\<close>

text \<open>Names of scratch and temporary files; journals of transactions are not among them.\<close>

definition is_temp :: "path \<Rightarrow> bool" where
  "is_temp q \<longleftrightarrow> q \<noteq> [] \<and> (suffix ''.kicad_tmp'' (last q) \<or>
     prefix ''.konnect-'' (last q) \<and> \<not> prefix ''.konnect-transaction-'' (last q))"

definition env_ok :: "'e env_scheme \<Rightarrow> bool" where
  "env_ok E \<longleftrightarrow> (\<forall>n. \<not> prefix ''transaction-'' (temp_name E n))"

text \<open>Outside \<open>p\<close> nothing changes but for new scratch files.\<close>

definition kept :: "tree \<Rightarrow> tree \<Rightarrow> path \<Rightarrow> bool" where
  "kept fs0 fs p \<longleftrightarrow> (\<forall>q. q \<noteq> p \<longrightarrow> lookup fs q = lookup fs0 q \<or> lookup fs0 q = None \<and> is_temp q)"

text \<open>The tree is \<open>fs0\<close> with the scratch file \<open>tmp\<close> holding some text.\<close>

definition with_scratch :: "tree \<Rightarrow> path \<Rightarrow> string \<Rightarrow> tree \<Rightarrow> bool" where
  "with_scratch fs0 tmp s fs \<longleftrightarrow> tmp \<noteq> [] \<and> is_temp tmp \<and> lookup fs0 tmp = None \<and>
     (\<forall>q. lookup fs q = (if q = tmp then Some (File s) else lookup fs0 q))"

definition without_scratch :: "tree \<Rightarrow> path \<Rightarrow> tree \<Rightarrow> bool" where
  "without_scratch fs0 tmp fs \<longleftrightarrow> (\<forall>q. lookup fs q = lookup fs0 q) \<or> (\<exists>s. with_scratch fs0 tmp s fs)"

lemma hoare_guarded:
  assumes "hoare P m Q X" and "hoare X (sys_remove tmp) (\<lambda>_. X') X'" and "\<And>fs. X fs \<Longrightarrow> X' fs"
  shows "hoare P (guarded tmp m) Q X'"
  unfolding hoare_def guarded_def
proof (intro allI impI)
  fix w :: world assume "P (files w)"
  then have m: "case m w of (Ok x, w') \<Rightarrow> Q x (files w') | (Err _, w') \<Rightarrow> X (files w') | (Killed, w') \<Rightarrow> X (files w')"
    using assms(1) by (simp add: hoare_def)
  have rm: "X' (files (snd (sys_remove tmp w')))" if "X (files w')" for w'
  proof -
    have "case sys_remove tmp w' of (Ok x, w') \<Rightarrow> X' (files w') | (Err _, w') \<Rightarrow> X' (files w') | (Killed, w') \<Rightarrow> X' (files w')"
      using assms(2) that by (simp add: hoare_def)
    then show ?thesis by (auto split: prod.splits outcome.splits)
  qed
  obtain r w' where mw: "m w = (r, w')" by fastforce
  show "case (case m w of
       (Err e, w') \<Rightarrow> (case sys_remove tmp w' of (Killed, w'') \<Rightarrow> (Killed, w'') | (_, w'') \<Rightarrow> (Err e, w''))
     | r \<Rightarrow> r) of (Ok x, w') \<Rightarrow> Q x (files w') | (Err _, w') \<Rightarrow> X' (files w') | (Killed, w') \<Rightarrow> X' (files w')"
    using m rm [of w'] assms(3) by (auto simp: mw split: outcome.splits prod.splits)
qed

lemma create_new_scratch:
  assumes "c \<noteq> []" "is_temp c"
  shows "hoare (\<lambda>fs. \<forall>q. lookup fs q = lookup fs0 q) (sys_create_new c)
    (\<lambda>b fs. if b then with_scratch fs0 c [] fs else \<forall>q. lookup fs q = lookup fs0 q) (\<lambda>fs. \<forall>q. lookup fs q = lookup fs0 q)"
  unfolding sys_create_new_def using assms by (intro hoare_syscall) (auto simp: with_scratch_def)

lemma hoare_pure: "(\<And>w. fst (m w) = Ok (f w) \<and> files (snd (m w)) = files w) \<Longrightarrow> (\<And>w. R (f w)) \<Longrightarrow> hoare P m (\<lambda>x fs. P fs \<and> R x) X"
  by (auto simp: hoare_def split: prod.splits outcome.splits) (metis fst_conv outcome.distinct outcome.inject(1) snd_conv)+

lemma scratch_name_temp: "is_temp (d @ [n @ CHR ''.'' # a @ CHR ''.'' # b @ ''.kicad_tmp''])"
  by (simp add: is_temp_def suffix_def)

lemma scratch_loop_creates:
  "hoare (\<lambda>fs. \<forall>q. lookup fs q = lookup fs0 q) (scratch_loop n E p)
    (\<lambda>tmp. with_scratch fs0 tmp []) (\<lambda>fs. \<forall>q. lookup fs q = lookup fs0 q)"
proof (induction n)
  case 0
  then show ?case using hoare_throw [of "\<lambda>fs. \<forall>q. lookup fs q = lookup fs0 q"] by simp
next
  case (Suc n)
  let ?S = "\<lambda>fs. \<forall>q. lookup fs q = lookup fs0 q"
  have "hoare ?S (scratch_path_for E p) (\<lambda>c fs. ?S fs \<and> c \<noteq> [] \<and> is_temp c) ?S"
    by (rule hoare_pure [where f = "\<lambda>w. the (case scratch_path_for E p w of (Ok x, _) \<Rightarrow> Some x | _ \<Rightarrow> None)"])
       (auto simp: scratch_path_for_def Let_def scratch_name_temp)
  moreover have "hoare (\<lambda>fs. ?S fs \<and> c \<noteq> [] \<and> is_temp c)
      (io_bind (sys_create_new c) (\<lambda>created. if created then io_return c else scratch_loop n E p))
      (\<lambda>tmp. with_scratch fs0 tmp []) ?S" for c
  proof (cases "c \<noteq> [] \<and> is_temp c")
    case True
    then have c: "c \<noteq> []" "is_temp c" by auto
    have step: "hoare (\<lambda>fs. if b then with_scratch fs0 c [] fs else ?S fs) (if b then io_return c else scratch_loop n E p)
        (\<lambda>tmp. with_scratch fs0 tmp []) ?S" for b
      using Suc.IH hoare_return [of "\<lambda>tmp. with_scratch fs0 tmp []" c ?S] by (cases b) simp_all
    show ?thesis by (rule hoare_pre [OF hoare_bind [OF create_new_scratch [OF c] step]]) simp
  qed (auto simp: hoare_def)
  ultimately show ?case by (simp add: hoare_bind)
qed


text \<open>The three calls between creating the scratch file and disarming the guard.\<close>

lemma remove_scratch:
  "hoare (\<lambda>fs. (\<exists>s. with_scratch fs0 tmp s fs)) (sys_remove tmp) (\<lambda>_ fs. kept fs0 fs p \<and> (\<not> is_temp p \<longrightarrow> lookup fs p = lookup fs0 p))
    (\<lambda>fs. kept fs0 fs p \<and> (\<not> is_temp p \<longrightarrow> lookup fs p = lookup fs0 p))"
  unfolding sys_remove_def
  by (rule hoare_syscall) (auto simp: with_scratch_def kept_def split: option.splits node.splits if_splits)

lemma guarded_replace:
  assumes p: "p \<noteq> []" "\<not> is_temp p"
    and rename: "hoare (with_scratch fs0 tmp c) rename
      (\<lambda>_ fs. kept fs0 fs p \<and> lookup fs p = Some (File c)) (\<lambda>fs. \<exists>s. with_scratch fs0 tmp s fs)"
  shows "hoare (with_scratch fs0 tmp []) (guarded tmp (io_then (sys_write tmp c)
       (io_then (ensure_kicad_design_document_is_closed p) rename)))
    (\<lambda>_ fs. kept fs0 fs p \<and> lookup fs p = Some (File c)) (\<lambda>fs. kept fs0 fs p \<and> lookup fs p = lookup fs0 p)"
proof -
  let ?T = "\<lambda>fs. \<exists>s. with_scratch fs0 tmp s fs"
  have wr: "hoare (with_scratch fs0 tmp []) (sys_write tmp c) (\<lambda>_. with_scratch fs0 tmp c) ?T"
    unfolding sys_write_def by (rule hoare_syscall) (auto simp: with_scratch_def)
  have closed: "hoare (with_scratch fs0 tmp c) (ensure_kicad_design_document_is_closed p) (\<lambda>_. with_scratch fs0 tmp c) ?T"
    by (rule readonly_hoare [OF readonly_closed]) blast
  note body = hoare_then [OF wr hoare_then [OF closed rename]]
  have rm: "hoare ?T (sys_remove tmp) (\<lambda>_ fs. kept fs0 fs p \<and> lookup fs p = lookup fs0 p) (\<lambda>fs. kept fs0 fs p \<and> lookup fs p = lookup fs0 p)"
    using remove_scratch [of fs0 tmp p] p(2) by simp
  show ?thesis
    by (rule hoare_guarded [OF body rm]) (use p in \<open>auto simp: with_scratch_def kept_def split: if_splits\<close>)
qed

definition write_effect :: "tree \<Rightarrow> path \<Rightarrow> string \<Rightarrow> unit io \<Rightarrow> bool" where
  "write_effect fs0 p c m \<longleftrightarrow> hoare (\<lambda>fs. \<forall>q. lookup fs q = lookup fs0 q) m
     (\<lambda>_ fs. kept fs0 fs p \<and> lookup fs p = Some (File c))
     (\<lambda>fs. kept fs0 fs p \<and> (lookup fs p = lookup fs0 p \<or> lookup fs p = Some (File c)))"

lemma write_atomic_effect:
  assumes p: "p \<noteq> []" "\<not> is_temp p"
  shows "write_effect fs0 p c (write_atomic_unlocked E p c)"
proof -
  let ?S = "\<lambda>fs. \<forall>q. lookup fs q = lookup fs0 q"
  let ?Q = "\<lambda>fs. kept fs0 fs p \<and> lookup fs p = Some (File c)"
  let ?X = "\<lambda>fs. kept fs0 fs p \<and> (lookup fs p = lookup fs0 p \<or> lookup fs p = Some (File c))"
  have closed: "hoare ?S (ensure_kicad_design_document_is_closed p) (\<lambda>_. ?S) ?X"
    by (rule readonly_hoare [OF readonly_closed]) (simp add: kept_def)
  have scratch: "hoare ?S (create_scratch_file E p) (\<lambda>tmp. with_scratch fs0 tmp []) ?X"
    unfolding create_scratch_file_def
    by (rule hoare_conseq [OF scratch_loop_creates [of fs0]]) (auto simp: kept_def)
  have ren: "hoare (with_scratch fs0 tmp c) (sys_rename tmp p) (\<lambda>_. ?Q) (\<lambda>fs. \<exists>s. with_scratch fs0 tmp s fs)" for tmp
    unfolding sys_rename_def using p
    by (intro hoare_syscall) (auto simp: with_scratch_def kept_def split: option.splits if_splits)
  have body: "hoare (with_scratch fs0 tmp []) (guarded tmp (io_then (sys_write tmp c)
       (io_then (ensure_kicad_design_document_is_closed p) (sys_rename tmp p)))) (\<lambda>_. ?Q) ?X" for tmp
    by (rule hoare_conseq [OF guarded_replace [OF p ren]]) auto
  have sync: "hoare ?Q (sync_parent_directory (butlast p)) (\<lambda>_. ?Q) ?X"
    unfolding sync_parent_directory_def by (rule readonly_hoare) (auto intro: readonly_rules)
  show ?thesis
    unfolding write_effect_def write_atomic_unlocked_def
    by (rule hoare_then [OF closed hoare_bind [OF scratch hoare_then [OF body sync]]])
qed

lemma temp_path_temp: "env_ok E \<Longrightarrow> is_temp (d @ [''.konnect-'' @ temp_name E n])"
  by (auto simp: is_temp_def env_ok_def prefix_def)

lemma write_new_atomic_effect:
  assumes E: "env_ok E" and p: "p \<noteq> []" "\<not> is_temp p"
  shows "write_effect fs0 p c (write_new_atomic_unlocked E p c)"
proof -
  let ?S = "\<lambda>fs. \<forall>q. lookup fs q = lookup fs0 q"
  let ?Q = "\<lambda>fs. kept fs0 fs p \<and> lookup fs p = Some (File c)"
  let ?X = "\<lambda>fs. kept fs0 fs p \<and> (lookup fs p = lookup fs0 p \<or> lookup fs p = Some (File c))"
  have SX: "?S fs \<Longrightarrow> ?X fs" for fs by (simp add: kept_def)
  have closed: "hoare ?S (ensure_kicad_design_document_is_closed p) (\<lambda>_. ?S) ?X"
    by (rule readonly_hoare [OF readonly_closed]) (rule SX)
  have temp: "hoare ?S (temp_path E (butlast p)) (\<lambda>tmp fs. ?S fs \<and> tmp \<noteq> [] \<and> is_temp tmp) ?X"
    by (rule hoare_pure [where f = "\<lambda>w. butlast p @ [''.konnect-'' @ temp_name E (nonce w)]"])
       (use temp_path_temp [OF E] in \<open>auto simp: temp_path_def\<close>)
  have ren: "hoare (with_scratch fs0 tmp c) (sys_rename_noclobber tmp p) (\<lambda>_. ?Q) (\<lambda>fs. \<exists>s. with_scratch fs0 tmp s fs)" for tmp
    unfolding sys_rename_noclobber_def using p
    by (intro hoare_syscall) (auto simp: with_scratch_def kept_def split: option.splits if_splits)
  have body: "hoare (with_scratch fs0 tmp []) (guarded tmp (io_then (sys_write tmp c)
       (io_then (ensure_kicad_design_document_is_closed p) (sys_rename_noclobber tmp p)))) (\<lambda>_. ?Q) ?X" for tmp
    by (rule hoare_conseq [OF guarded_replace [OF p ren]]) auto
  have sync: "hoare ?Q (sync_parent_directory (butlast p)) (\<lambda>_. ?Q) ?X"
    unfolding sync_parent_directory_def by (rule readonly_hoare) (auto intro: readonly_rules)
  have created: "hoare (\<lambda>fs. ?S fs \<and> tmp \<noteq> [] \<and> is_temp tmp) (io_bind (sys_create_new tmp) (\<lambda>created.
       io_then (io_when (\<not> created) (Io AlreadyExists)) (io_then (guarded tmp (io_then (sys_write tmp c)
         (io_then (ensure_kicad_design_document_is_closed p) (sys_rename_noclobber tmp p)))) (sync_parent_directory (butlast p)))))
     (\<lambda>_. ?Q) ?X" for tmp
  proof (cases "tmp \<noteq> [] \<and> is_temp tmp")
    case True
    then have t: "tmp \<noteq> []" "is_temp tmp" by auto
    have mk: "hoare (\<lambda>fs. ?S fs \<and> tmp \<noteq> [] \<and> is_temp tmp) (sys_create_new tmp)
        (\<lambda>b fs. if b then with_scratch fs0 tmp [] fs else ?S fs) ?X"
      by (rule hoare_conseq [OF create_new_scratch [OF t, of fs0]]) (use SX in auto)
    have chk: "hoare (\<lambda>fs. if b then with_scratch fs0 tmp [] fs else ?S fs) (io_when (\<not> b) (Io AlreadyExists))
        (\<lambda>_. with_scratch fs0 tmp []) ?X" for b
      using SX by (cases b) (auto simp: hoare_def io_when_def io_return_def io_throw_def)
    show ?thesis by (rule hoare_bind [OF mk hoare_then [OF chk hoare_then [OF body sync]]])
  qed (auto simp: hoare_def)
  show ?thesis
    unfolding write_effect_def write_new_atomic_unlocked_def
    by (rule hoare_then [OF closed hoare_bind [OF temp created]])
qed

end
