(* ===== verification/Journal_Path.thy ===== *)
theory Journal_Path
  imports File_System "HOL-Library.Word"
begin

text \<open>
  \<open>journal_path_serde\<close> of \<open>crates/konnect-sexp/src/transaction.rs\<close>: how a journal stores a target path.
  A path that is Unicode is stored as a string, any other as the hexadecimal digits of its native bytes
  (Unix) or of its 16-bit units in little-endian order (Windows). Whether a native path is Unicode, and the
  string it then is, come from the platform (\<open>to_str\<close>, \<open>from_str\<close>).
\<close>

unbundle bit_operations_syntax

type_synonym byte = "8 word"

definition DIGITS :: string where
  "DIGITS = ''0123456789abcdef''"

fun encode_hex :: "byte list \<Rightarrow> string" where
  "encode_hex [] = []"
| "encode_hex (b # bs) = DIGITS ! unat (drop_bit 4 b) # DIGITS ! unat (b AND 15) # encode_hex bs"

definition byte_of :: "char \<Rightarrow> byte" where
  "byte_of c = of_char c"

definition hex_digit :: "byte \<Rightarrow> string + byte" where
  "hex_digit b =
     (if 48 \<le> b \<and> b \<le> 57 then Inr (b - 48)
      else if 97 \<le> b \<and> b \<le> 102 then Inr (b - 97 + 10)
      else if 65 \<le> b \<and> b \<le> 70 then Inr (b - 65 + 10)
      else Inl ''encoded transaction path contains a non-hex digit'')"

fun decode_pairs :: "char list \<Rightarrow> string + byte list" where
  "decode_pairs (c # d # cs) =
     (case hex_digit (byte_of c) of Inl e \<Rightarrow> Inl e
      | Inr high \<Rightarrow> (case hex_digit (byte_of d) of Inl e \<Rightarrow> Inl e
          | Inr low \<Rightarrow> (case decode_pairs cs of Inl e \<Rightarrow> Inl e | Inr bs \<Rightarrow> Inr ((push_bit 4 high OR low) # bs))))"
| "decode_pairs _ = Inr []"

definition decode_hex :: "string \<Rightarrow> string + byte list" where
  "decode_hex encoded =
     (if odd (length encoded) then Inl ''encoded transaction path has an odd number of hex digits''
      else decode_pairs encoded)"

section \<open>Native paths\<close>

datatype native = UnixBytes "byte list" | WideUnits "16 word list"

definition to_le_bytes :: "16 word \<Rightarrow> byte list" where
  "to_le_bytes u = [ucast u, ucast (drop_bit 8 u)]"

definition from_le_bytes :: "byte \<Rightarrow> byte \<Rightarrow> 16 word" where
  "from_le_bytes lo hi = ucast lo OR push_bit 8 (ucast hi)"

fun native_bytes :: "native \<Rightarrow> string \<times> byte list" where
  "native_bytes (UnixBytes bs) = (''unix-bytes-v1'', bs)"
| "native_bytes (WideUnits us) = (''windows-wide-le-v1'', concat (map to_le_bytes us))"

fun units_of :: "byte list \<Rightarrow> 16 word list" where
  "units_of (lo # hi # bs) = from_le_bytes lo hi # units_of bs"
| "units_of _ = []"

definition path_from_native_bytes :: "bool \<Rightarrow> string \<Rightarrow> byte list \<Rightarrow> string + native" where
  "path_from_native_bytes windows encoding bytes =
     (if windows then
        (if encoding \<noteq> ''windows-wide-le-v1'' \<or> odd (length bytes)
         then Inl ''transaction path encoding is not supported on this platform'' else Inr (WideUnits (units_of bytes)))
      else if encoding \<noteq> ''unix-bytes-v1'' then Inl ''transaction path encoding is not supported on this platform''
      else Inr (UnixBytes bytes))"

datatype stored_path = Unicode string | Encoded string string

definition serialize_path :: "(native \<Rightarrow> string option) \<Rightarrow> native \<Rightarrow> stored_path" where
  "serialize_path to_str p = (case to_str p of Some s \<Rightarrow> Unicode s
     | None \<Rightarrow> (let (encoding, bytes) = native_bytes p in Encoded encoding (encode_hex bytes)))"

definition deserialize_path :: "(string \<Rightarrow> native) \<Rightarrow> bool \<Rightarrow> stored_path \<Rightarrow> string + native" where
  "deserialize_path from_str windows s = (case s of Unicode u \<Rightarrow> Inr (from_str u)
     | Encoded encoding hex \<Rightarrow> (case decode_hex hex of Inl e \<Rightarrow> Inl e
         | Inr bytes \<Rightarrow> path_from_native_bytes windows encoding bytes))"

section \<open>Round trips\<close>

lemma hex_digit_DIGITS:
  assumes "n < 16"
  shows "hex_digit (byte_of (DIGITS ! n)) = Inr (of_nat n)"
proof -
  have "list_all (\<lambda>n. hex_digit (byte_of (DIGITS ! n)) = Inr (of_nat n)) [0..<16]" by code_simp
  then show ?thesis using assms by (simp add: list_all_iff)
qed

lemma high_nibble: "unat (drop_bit 4 (b :: byte)) < 16"
proof -
  have "unat b < 2 ^ LENGTH(8)" by (rule unsigned_less)
  then show ?thesis by (simp only: unat_drop_bit_eq) (simp add: drop_bit_eq_div)
qed

lemma low_nibble: "b AND 15 = take_bit 4 (b :: byte)" "unat (take_bit 4 (b :: byte)) < 16"
proof -
  have "(15 :: byte) = mask 4" by (simp add: mask_eq_exp_minus_1)
  then show "b AND 15 = take_bit 4 b" by (simp add: take_bit_eq_mask)
  have "unat (take_bit 4 b) = unat b mod 16" by (simp only: unsigned_take_bit_eq) (simp add: take_bit_eq_mod)
  then show "unat (take_bit 4 b) < 16" by simp
qed

lemma nibbles_join: "push_bit 4 (drop_bit 4 b) OR (b AND 15) = (b :: byte)"
  unfolding low_nibble by (rule bit_eqI) (auto simp: bit_simps)

lemma decode_encode_pairs: "decode_pairs (encode_hex bs) = Inr bs"
  by (induction bs) (simp_all add: hex_digit_DIGITS high_nibble low_nibble nibbles_join [unfolded low_nibble])

lemma length_encode_hex: "length (encode_hex bs) = 2 * length bs"
  by (induction bs) simp_all

lemma decode_encode_hex: "decode_hex (encode_hex bs) = Inr bs"
  by (simp add: decode_hex_def length_encode_hex decode_encode_pairs)

lemma from_to_le_bytes: "from_le_bytes (ucast u) (ucast (drop_bit 8 u)) = u"
  unfolding from_le_bytes_def by (rule bit_eqI) (auto simp: bit_simps)

lemma units_of_bytes: "units_of (concat (map to_le_bytes us)) = us"
  by (induction us) (simp_all add: to_le_bytes_def from_to_le_bytes)

lemma even_bytes: "even (length (concat (map to_le_bytes us)))"
  by (induction us) (simp_all add: to_le_bytes_def)

lemma decode_pairs_iff:
  "even (length s) \<Longrightarrow> (\<exists>bs. decode_pairs s = Inr bs) \<longleftrightarrow> list_all (\<lambda>c. \<exists>h. hex_digit (byte_of c) = Inr h) s"
proof (induction s rule: decode_pairs.induct)
  case (1 c d cs)
  then show ?case
    by (cases "hex_digit (byte_of c)"; cases "hex_digit (byte_of d)"; cases "decode_pairs cs") auto
qed auto

text \<open>C25. A journal path survives storage on both platforms: every native path, Unicode or not, is read back
  as the path it was, given only that a Unicode path is recovered from its string; and the hexadecimal decoder
  accepts exactly the texts of even length made of hexadecimal digits.\<close>

theorem journal_path_roundtrip:
  assumes "\<forall>p s. to_str p = Some s \<longrightarrow> from_str s = p"
  shows "deserialize_path from_str (\<exists>us. p = WideUnits us) (serialize_path to_str p) = Inr p \<and>
    ((\<exists>bs. decode_hex h = Inr bs) \<longleftrightarrow> even (length h) \<and> list_all (\<lambda>c. \<exists>d. hex_digit (byte_of c) = Inr d) h)"
proof
  show "deserialize_path from_str (\<exists>us. p = WideUnits us) (serialize_path to_str p) = Inr p"
    using assms
    by (cases p) (auto simp: serialize_path_def deserialize_path_def path_from_native_bytes_def decode_encode_hex units_of_bytes even_bytes
        split: option.splits)
  show "(\<exists>bs. decode_hex h = Inr bs) \<longleftrightarrow> even (length h) \<and> list_all (\<lambda>c. \<exists>d. hex_digit (byte_of c) = Inr d) h"
    using decode_pairs_iff [of h] by (simp add: decode_hex_def)
qed

theorem journal_path_roundtrip_witness:
  "serialize_path (\<lambda>_. None) (WideUnits [0xD800, 0x41]) = Encoded ''windows-wide-le-v1'' ''00d84100'' \<and>
   deserialize_path (\<lambda>_. UnixBytes []) True (Encoded ''windows-wide-le-v1'' ''00d84100'') = Inr (WideUnits [0xD800, 0x41])"
proof -
  have s: "serialize_path (\<lambda>_. None) (WideUnits [0xD800, 0x41]) = Encoded ''windows-wide-le-v1'' ''00d84100''" by code_simp
  from journal_path_roundtrip [of "\<lambda>_. None" "\<lambda>_. UnixBytes []" "WideUnits [0xD800, 0x41]"] s show ?thesis by auto
qed

end
