(* ===== verification/Sexp_Tree.thy ===== *)
theory Sexp_Tree
  imports Konnect_Prelude "HOL-Library.Sublist"
begin

text \<open>
  KiCad S-expression trees, their parser and their printer
  (\<open>crates/konnect-schematic-editor/src/sexp/{mod,parser,writer}.rs\<close>).

  Text is a list of bytes. The parser works on the rest of the input; an error carries the length of that
  rest, which \<open>parse\<close> turns into the position the code reports. The recursion of the code is bounded by fuel,
  and \<open>parse\<close> gives it twice the length of the input: the theorems show that this is always enough.
\<close>

datatype sexp = Atom string | Str string | Lst "sexp list"

section \<open>Accessors\<close>

fun tag :: "sexp \<Rightarrow> string option" where
  "tag (Lst (Atom s # _)) = Some s"
| "tag _ = None"

fun children :: "sexp \<Rightarrow> sexp list" where
  "children (Lst c) = c"
| "children _ = []"

definition args :: "sexp \<Rightarrow> sexp list" where
  "args n = (let c = children n in if c = [] then [] else tl c)"

definition find_node :: "sexp \<Rightarrow> string \<Rightarrow> sexp option" where
  "find_node n t = find (\<lambda>c. tag c = Some t) (args n)"

definition find_all :: "sexp \<Rightarrow> string \<Rightarrow> sexp list" where
  "find_all n t = filter (\<lambda>c. tag c = Some t) (args n)"

fun text_of :: "sexp \<Rightarrow> string option" where
  "text_of (Atom s) = Some s"
| "text_of (Str s) = Some s"
| "text_of (Lst _) = None"

fun find_map :: "('a \<Rightarrow> 'b option) \<Rightarrow> 'a list \<Rightarrow> 'b option" where
  "find_map f [] = None"
| "find_map f (x # xs) = (case f x of Some y \<Rightarrow> Some y | None \<Rightarrow> find_map f xs)"

lemma find_map_cong [fundef_cong]:
  "xs = ys \<Longrightarrow> (\<And>x. x \<in> set ys \<Longrightarrow> f x = g x) \<Longrightarrow> find_map f xs = find_map g ys"
  by (induction ys arbitrary: xs) (auto split: option.splits)

lemma find_map_Some: "find_map f xs = Some y \<Longrightarrow> \<exists>x \<in> set xs. f x = Some y"
  by (induction xs) (auto split: option.splits)

lemma find_map_None: "find_map f xs = None \<longleftrightarrow> (\<forall>x \<in> set xs. f x = None)"
  by (induction xs) (auto split: option.splits)

fun value_of :: "sexp \<Rightarrow> string option" where
  "value_of (Lst c) = find_map text_of (drop 1 c)"
| "value_of (Atom s) = Some s"
| "value_of (Str s) = Some s"

definition scalar_args :: "sexp \<Rightarrow> string list" where
  "scalar_args n = List.map_filter text_of (args n)"

definition bool_value :: "sexp \<Rightarrow> bool option" where
  "bool_value n = (case value_of n of None \<Rightarrow> None
     | Some v \<Rightarrow> if v = ''yes'' \<or> v = ''true'' then Some True
         else if v = ''no'' \<or> v = ''false'' then Some False else None)"

definition get_value :: "sexp \<Rightarrow> string \<Rightarrow> string option" where
  "get_value n t = Option.bind (find_node n t) value_of"

definition get_bool :: "sexp \<Rightarrow> string \<Rightarrow> bool option" where
  "get_bool n t = Option.bind (find_node n t) bool_value"

fun is_list :: "sexp \<Rightarrow> bool" where
  "is_list (Lst _) = True"
| "is_list _ = False"

definition tagged :: "string \<Rightarrow> sexp list \<Rightarrow> sexp" where
  "tagged t xs = Lst (Atom t # xs)"

section \<open>Parser\<close>

datatype parse_error = ParseError nat string

type_synonym 'a parsed = "parse_error + 'a \<times> string"

definition is_ws :: "char \<Rightarrow> bool" where
  "is_ws c \<longleftrightarrow> c = CHR '' '' \<or> c = CHR 0x09 \<or> c = CHR 0x0A \<or> c = CHR 0x0D"

definition is_delim :: "char \<Rightarrow> bool" where
  "is_delim c \<longleftrightarrow> is_ws c \<or> c = CHR ''('' \<or> c = CHR '')'' \<or> c = CHR 0x22"

definition skip_ws :: "string \<Rightarrow> string" where
  "skip_ws = dropWhile is_ws"

fun parse_string_loop :: "string \<Rightarrow> string parsed" where
  "parse_string_loop [] = Inl (ParseError 0 ''Unterminated string'')"
| "parse_string_loop (c # cs) =
     (if c = CHR 0x22 then Inr ([], cs)
      else if c = CHR 0x5C then
        (case cs of [] \<Rightarrow> Inl (ParseError 0 ''Unterminated escape'')
         | e # cs' \<Rightarrow>
             (let pushed = (if e = CHR 0x22 then [CHR 0x22] else if e = CHR 0x5C then [CHR 0x5C]
                else if e = CHR ''n'' then [CHR 0x0A] else if e = CHR ''t'' then [CHR 0x09]
                else if e = CHR ''r'' then [CHR 0x0D] else [CHR 0x5C, e])
              in case parse_string_loop cs' of Inl er \<Rightarrow> Inl er | Inr (s, r) \<Rightarrow> Inr (pushed @ s, r)))
      else (case parse_string_loop cs of Inl er \<Rightarrow> Inl er | Inr (s, r) \<Rightarrow> Inr (c # s, r)))"

definition parse_string :: "string \<Rightarrow> sexp parsed" where
  "parse_string cs = (case parse_string_loop cs of Inl e \<Rightarrow> Inl e | Inr (s, r) \<Rightarrow> Inr (Str s, r))"

definition parse_atom :: "string \<Rightarrow> sexp parsed" where
  "parse_atom s =
     (let a = takeWhile (\<lambda>c. \<not> is_delim c) s
      in if a = [] then Inl (ParseError (length s) ''Unexpected character'')
         else Inr (Atom a, dropWhile (\<lambda>c. \<not> is_delim c) s))"

fun parse_node :: "nat \<Rightarrow> string \<Rightarrow> sexp parsed option"
  and parse_list :: "nat \<Rightarrow> string \<Rightarrow> sexp list parsed option" where
  "parse_node 0 s = None"
| "parse_node (Suc n) s =
     (case skip_ws s of
        [] \<Rightarrow> Some (Inl (ParseError 0 ''Unexpected end of input''))
      | c # cs \<Rightarrow>
          if c = CHR ''('' then
            (case parse_list n cs of None \<Rightarrow> None
             | Some (Inl e) \<Rightarrow> Some (Inl e)
             | Some (Inr (xs, r)) \<Rightarrow> Some (Inr (Lst xs, r)))
          else if c = CHR 0x22 then Some (parse_string cs)
          else Some (parse_atom (c # cs)))"
| "parse_list 0 s = None"
| "parse_list (Suc n) s =
     (case skip_ws s of
        [] \<Rightarrow> Some (Inl (ParseError 0 ''Unclosed parenthesis''))
      | c # cs \<Rightarrow>
          if c = CHR '')'' then Some (Inr ([], cs))
          else (case parse_node n (c # cs) of None \<Rightarrow> None
             | Some (Inl e) \<Rightarrow> Some (Inl e)
             | Some (Inr (x, r)) \<Rightarrow>
                 (case parse_list n r of None \<Rightarrow> None
                  | Some (Inl e) \<Rightarrow> Some (Inl e)
                  | Some (Inr (xs, r')) \<Rightarrow> Some (Inr (x # xs, r')))))"

definition fuel_for :: "string \<Rightarrow> nat" where
  "fuel_for s = 2 * length s + 2"

text \<open>What the code returns: the first node, whatever follows it, or an error at a position.\<close>

definition parse :: "string \<Rightarrow> (parse_error + sexp) option" where
  "parse input = (case parse_node (fuel_for input) input of
       None \<Rightarrow> None
     | Some (Inl (ParseError left msg)) \<Rightarrow> Some (Inl (ParseError (length input - left) msg))
     | Some (Inr (x, _)) \<Rightarrow> Some (Inr x))"

section \<open>Printer\<close>

definition KICAD_INDENT :: string where
  "KICAD_INDENT = [CHR 0x09]"

definition LEGACY_INDENT :: string where
  "LEGACY_INDENT = ''  ''"

definition escape_char :: "char \<Rightarrow> string" where
  "escape_char c =
     (if c = CHR 0x22 then [CHR 0x5C, CHR 0x22] else if c = CHR 0x5C then [CHR 0x5C, CHR 0x5C]
      else if c = CHR 0x0A then [CHR 0x5C, CHR ''n''] else if c = CHR 0x09 then [CHR 0x5C, CHR ''t'']
      else if c = CHR 0x0D then [CHR 0x5C, CHR ''r''] else [c])"

definition write_indent :: "nat \<Rightarrow> string \<Rightarrow> string" where
  "write_indent depth indent = concat (replicate depth indent)"

text \<open>What goes before a child that is not the first one, and before the closing parenthesis.\<close>

definition child_gap :: "nat \<Rightarrow> bool \<Rightarrow> string \<Rightarrow> sexp \<Rightarrow> string" where
  "child_gap depth has_list_child indent child =
     (if depth = 0 then CHR 0x0A # write_indent 1 indent
      else if has_list_child \<and> is_list child then CHR 0x0A # write_indent (depth + 1) indent
      else '' '')"

definition close_gap :: "nat \<Rightarrow> bool \<Rightarrow> string \<Rightarrow> string" where
  "close_gap depth has_list_child indent =
     (if depth = 0 then [CHR 0x0A] else if has_list_child then CHR 0x0A # write_indent depth indent else [])"

fun write_node :: "sexp \<Rightarrow> nat \<Rightarrow> string \<Rightarrow> string" where
  "write_node (Atom s) depth indent = s"
| "write_node (Str s) depth indent = CHR 0x22 # concat (map escape_char s) @ [CHR 0x22]"
| "write_node (Lst []) depth indent = ''()''"
| "write_node (Lst (x # xs)) depth indent =
     (let has_list_child = list_ex is_list xs
      in ''('' @ write_node x (depth + 1) indent @
         concat (map (\<lambda>c. child_gap depth has_list_child indent c @ write_node c (depth + 1) indent) xs) @
         close_gap depth has_list_child indent @ '')'')"

definition write_with_indent :: "sexp \<Rightarrow> string \<Rightarrow> string" where
  "write_with_indent n indent = write_node n 0 indent @ [CHR 0x0A]"

definition write_sexp :: "sexp \<Rightarrow> string" where
  "write_sexp n = write_with_indent n LEGACY_INDENT"

text \<open>\<open>str::lines\<close>: split at line feeds, each with a carriage return before it if there is one.\<close>

fun split_lines :: "string \<Rightarrow> string list" where
  "split_lines [] = []"
| "split_lines (c # cs) =
     (if c = CHR 0x0A then [] # split_lines cs
      else if c = CHR 0x0D \<and> cs \<noteq> [] \<and> hd cs = CHR 0x0A then split_lines cs
      else case split_lines cs of [] \<Rightarrow> [[c]] | l # ls \<Rightarrow> (c # l) # ls)"

definition is_blank :: "char \<Rightarrow> bool" where
  "is_blank c \<longleftrightarrow> c = CHR '' '' \<or> c = CHR 0x09"

fun detect_loop :: "string list \<Rightarrow> string" where
  "detect_loop [] = KICAD_INDENT"
| "detect_loop (l # ls) =
     (let lead = takeWhile is_blank l
      in if dropWhile is_blank l = [] then detect_loop ls
         else if lead \<noteq> [] \<and> hd lead = CHR 0x09 then [CHR 0x09]
         else if lead \<noteq> [] then lead
         else detect_loop ls)"

definition detect_indent :: "string \<Rightarrow> string" where
  "detect_indent source = detect_loop (split_lines source)"

section \<open>The fuel is enough\<close>

lemma length_skip_ws: "length (skip_ws s) \<le> length s"
  by (simp add: skip_ws_def length_dropWhile_le)

lemma skip_ws_Cons: "skip_ws s = c # cs \<Longrightarrow> length cs < length s"
  using length_skip_ws [of s] by simp

lemma parse_string_loop_length: "parse_string_loop s = Inr (t, r) \<Longrightarrow> length r < length s"
proof (induction s arbitrary: t r rule: parse_string_loop.induct)
  case (2 c cs)
  show ?case
  proof (cases "c = CHR 0x22 \<or> c \<noteq> CHR 0x5C")
    case True
    then show ?thesis using 2 by (auto split: if_splits sum.splits)
  next
    case False
    then obtain e cs' where "cs = e # cs'" using 2(3) by (cases cs) auto
    then show ?thesis using False 2 by (fastforce split: sum.splits simp: Let_def)
  qed
qed simp

lemma parse_atom_length:
  assumes "parse_atom s = Inr (x, r)" shows "length r < length s"
proof -
  have "takeWhile (\<lambda>c. \<not> is_delim c) s \<noteq> []" "r = dropWhile (\<lambda>c. \<not> is_delim c) s"
    using assms by (auto simp: parse_atom_def Let_def split: if_splits)
  moreover have "length s = length (takeWhile (\<lambda>c. \<not> is_delim c) s) + length (dropWhile (\<lambda>c. \<not> is_delim c) s)"
    by (metis length_append takeWhile_dropWhile_id)
  ultimately show ?thesis by simp
qed

lemma parse_scalar_length:
  "parse_string s = Inr (x, r) \<Longrightarrow> length r < length s"
  by (auto simp: parse_string_def parse_string_loop_length split: sum.splits)

lemma parse_length:
  "parse_node n s = Some (Inr (x, r)) \<Longrightarrow> length r < length s"
  "parse_list n s = Some (Inr (xs, r)) \<Longrightarrow> length r < length s"
proof (induction n s and n s arbitrary: x r and xs r rule: parse_node_parse_list.induct)
  case (2 n s)
  then show ?case
    using length_skip_ws [of s]
    by (auto split: list.splits if_splits option.splits sum.splits dest!: parse_scalar_length parse_atom_length)
       (fastforce dest: skip_ws_Cons)
next
  case (4 n s)
  then obtain c cs where s: "skip_ws s = c # cs" by (auto split: list.splits)
  have "length (c # cs) \<le> length s" using length_skip_ws [of s] s by simp
  then show ?case using 4 s
    by (auto split: if_splits option.splits sum.splits) (metis (no_types, lifting) length_Cons less_Suc_eq less_trans_Suc order_less_le_trans order.strict_trans)
qed simp_all

lemma parse_fuel:
  "2 * length s + 1 \<le> n \<Longrightarrow> parse_node n s \<noteq> None"
  "2 * length s + 2 \<le> n \<Longrightarrow> parse_list n s \<noteq> None"
proof (induction n s and n s rule: parse_node_parse_list.induct)
  case (2 n s)
  show ?case
  proof (cases "skip_ws s")
    case (Cons c cs)
    then have "2 * length cs + 2 \<le> n" using 2(2) skip_ws_Cons [of s c cs] by simp
    then have "c = CHR ''('' \<Longrightarrow> parse_list n cs \<noteq> None" using 2 Cons by auto
    then show ?thesis using Cons by (auto split: option.splits sum.splits)
  qed auto
next
  case (4 n s)
  show ?case
  proof (cases "skip_ws s")
    case (Cons c cs)
    have l: "length (c # cs) \<le> length s" using length_skip_ws [of s] Cons by simp
    show ?thesis
    proof (cases "c = CHR '')''")
      case False
      have "parse_node n (c # cs) \<noteq> None" using 4(1) [OF Cons False] 4(3) l by simp
      moreover have "parse_list n r \<noteq> None" if "parse_node n (c # cs) = Some (Inr (x, r))" for x r
        using 4(2) [OF Cons False that refl refl] 4(3) l parse_length(1) [OF that] by simp
      ultimately show ?thesis using Cons False by (auto split: option.splits sum.splits)
    qed (use Cons in simp)
  qed simp
qed simp_all

section \<open>Round trip\<close>

fun wf_sexp :: "sexp \<Rightarrow> bool" where
  "wf_sexp (Atom s) \<longleftrightarrow> s \<noteq> [] \<and> list_all (\<lambda>c. \<not> is_delim c) s"
| "wf_sexp (Str s) \<longleftrightarrow> True"
| "wf_sexp (Lst xs) \<longleftrightarrow> list_all wf_sexp xs"

definition blank_text :: "string \<Rightarrow> bool" where
  "blank_text s \<longleftrightarrow> list_all is_ws s"

lemma skip_ws_blank: "blank_text g \<Longrightarrow> skip_ws (g @ s) = skip_ws s"
  by (simp add: skip_ws_def blank_text_def list_all_iff dropWhile_append2)

lemma parse_string_escaped: "parse_string_loop (concat (map escape_char s) @ CHR 0x22 # r) = Inr (s, r)"
  by (induction s) (auto simp: escape_char_def)

text \<open>A text after which a token ends.\<close>

definition ends_token :: "string \<Rightarrow> bool" where
  "ends_token r \<longleftrightarrow> r = [] \<or> is_delim (hd r)"

lemma parse_atom_text:
  assumes "s \<noteq> []" "list_all (\<lambda>c. \<not> is_delim c) s" "ends_token r"
  shows "parse_atom (s @ r) = Inr (Atom s, r)"
proof -
  have "takeWhile (\<lambda>c. \<not> is_delim c) r = []" "dropWhile (\<lambda>c. \<not> is_delim c) r = r"
    using assms(3) by (cases r; simp add: ends_token_def)+
  then show ?thesis using assms by (simp add: parse_atom_def list_all_iff)
qed

lemma not_delim: "\<not> is_delim c \<Longrightarrow> \<not> is_ws c \<and> c \<noteq> CHR ''('' \<and> c \<noteq> CHR '')'' \<and> c \<noteq> CHR 0x22"
  by (auto simp: is_delim_def)

lemma write_node_first:
  assumes "wf_sexp x"
  shows "\<exists>c cs. write_node x d ind = c # cs \<and> \<not> is_ws c \<and> c \<noteq> CHR '')''"
  using assms not_delim
  by (cases x; cases "children x") (auto simp: neq_Nil_conv is_ws_def Let_def)

lemma skip_ws_node:
  assumes "wf_sexp x"
  shows "skip_ws (write_node x d ind @ r) = write_node x d ind @ r"
  using write_node_first [OF assms, of d ind] by (auto simp: skip_ws_def)

lemma ends_token_gap: "blank_text g \<Longrightarrow> g \<noteq> [] \<Longrightarrow> ends_token (g @ s)" "blank_text g \<Longrightarrow> ends_token (g @ CHR '')'' # s)"
  by (cases g; simp add: ends_token_def is_delim_def blank_text_def)+

text \<open>Children separated by blank text, up to the closing parenthesis.\<close>

lemma parse_list_texts:
  assumes "\<And>x n r. x \<in> set xs \<Longrightarrow> ends_token r \<Longrightarrow> parse_node n (write_node x d ind @ r) \<in> {None, Some (Inr (x, r))}"
    and "\<And>x. x \<in> set xs \<Longrightarrow> wf_sexp x \<and> blank_text (gap x) \<and> gap x \<noteq> []" and "blank_text close"
  shows "parse_list n (concat (map (\<lambda>c. gap c @ write_node c d ind) xs) @ close @ CHR '')'' # r) \<in> {None, Some (Inr (xs, r))}"
  using assms
proof (induction xs arbitrary: n)
  case Nil
  then show ?case by (cases n) (simp_all add: skip_ws_blank, simp add: skip_ws_def is_ws_def)
next
  case (Cons x xs)
  let ?more = "concat (map (\<lambda>c. gap c @ write_node c d ind) xs) @ close @ CHR '')'' # r"
  have m: "ends_token ?more"
    using Cons.prems(2,3) ends_token_gap by (cases xs) auto
  show ?case
  proof (cases n)
    case (Suc k)
    obtain c cs where w: "write_node x d ind = c # cs" "c \<noteq> CHR '')''"
      using write_node_first [of x d ind] Cons.prems(2) [of x] by auto
    have "skip_ws (concat (map (\<lambda>c. gap c @ write_node c d ind) (x # xs)) @ close @ CHR '')'' # r) = c # cs @ ?more"
      using Cons.prems(2) [of x] skip_ws_node [of x d ind ?more] w by (simp add: skip_ws_blank)
    moreover have "parse_node k (c # cs @ ?more) \<in> {None, Some (Inr (x, ?more))}"
      using Cons.prems(1) [of x ?more k] m w by simp
    moreover have "parse_list k ?more \<in> {None, Some (Inr (xs, r))}"
      using Cons.IH [of k] Cons.prems by simp
    ultimately show ?thesis using w Suc by auto
  qed simp
qed

lemma parse_node_text:
  assumes "wf_sexp x" and "blank_text ind" and "ends_token r"
  shows "parse_node n (write_node x d ind @ r) \<in> {None, Some (Inr (x, r))}"
  using assms(1,3)
proof (induction x arbitrary: n d r)
  case (Atom s)
  then obtain c cs where s: "s = c # cs" "\<not> is_delim c" by (cases s) auto
  then show ?case
    using parse_atom_text [of s r] Atom skip_ws_node [of "Atom s" d ind r] not_delim by (cases n) auto
next
  case (Str s)
  then show ?case
    using skip_ws_node [of "Str s" d ind r] by (cases n) (auto simp: parse_string_def parse_string_escaped)
next
  case (Lst xs)
  have wi: "blank_text (write_indent k ind)" for k
    using assms(2) by (induction k) (auto simp: write_indent_def blank_text_def)
  have cg: "blank_text (child_gap d b ind c) \<and> child_gap d b ind c \<noteq> []" "blank_text (close_gap d b ind)" for b c
    using wi by (auto simp: child_gap_def close_gap_def blank_text_def is_ws_def)
  show ?case
  proof (cases n)
    case (Suc k)
    have first: "skip_ws (write_node (Lst xs) d ind @ r) = write_node (Lst xs) d ind @ r"
      by (rule skip_ws_node) (use Lst in simp)
    show ?thesis
    proof (cases xs)
      case Nil
      then show ?thesis using first Suc by (cases k) (auto simp: skip_ws_def is_ws_def)
    next
      case (Cons y ys)
      let ?b = "list_ex is_list ys"
      let ?tail = "concat (map (\<lambda>c. child_gap d ?b ind c @ write_node c (d + 1) ind) ys) @ close_gap d ?b ind @ CHR '')'' # r"
      have l: "parse_list m ?tail \<in> {None, Some (Inr (ys, r))}" for m
        by (rule parse_list_texts) (use Lst Cons cg in \<open>auto simp: list_all_iff\<close>)
      have e: "ends_token ?tail"
        using cg [of ?b] ends_token_gap by (cases ys) auto
      have y: "parse_node m (write_node y (d + 1) ind @ ?tail) \<in> {None, Some (Inr (y, ?tail))}" for m
        using Lst.IH [of y ?tail m "d + 1"] Lst.prems e Cons by simp
      obtain c cs where w: "write_node y (d + 1) ind = c # cs" "\<not> is_ws c" "c \<noteq> CHR '')''"
        using write_node_first [of y "d + 1" ind] Lst.prems Cons by auto
      have "parse_list k (write_node y (d + 1) ind @ ?tail) \<in> {None, Some (Inr (y # ys, r))}"
      proof (cases k)
        case (Suc m)
        then show ?thesis using y [of m] l [of m] w by (auto simp: skip_ws_def)
      qed simp
      then show ?thesis using first Suc Cons by (auto simp: Let_def)
    qed
  qed simp
qed

lemma parse_write:
  assumes "wf_sexp x" and "blank_text ind"
  shows "parse (write_with_indent x ind) = Some (Inr x)"
proof -
  let ?t = "write_with_indent x ind"
  have "parse_node (fuel_for ?t) ?t \<in> {None, Some (Inr (x, [CHR 0x0A]))}"
    unfolding write_with_indent_def
    by (rule parse_node_text [OF assms]) (simp add: ends_token_def is_delim_def is_ws_def)
  moreover have "parse_node (fuel_for ?t) ?t \<noteq> None" by (rule parse_fuel) (simp add: fuel_for_def)
  ultimately show ?thesis by (auto simp: parse_def)
qed

lemma parse_wf:
  "parse_node n s = Some (Inr (x, r)) \<Longrightarrow> wf_sexp x"
  "parse_list n s = Some (Inr (xs, r)) \<Longrightarrow> list_all wf_sexp xs"
proof (induction n s and n s arbitrary: x r and xs r rule: parse_node_parse_list.induct)
  case (2 n s)
  have a: "parse_atom t = Inr (x, r) \<Longrightarrow> wf_sexp x" for t
    by (auto simp: parse_atom_def Let_def list_all_iff dest: set_takeWhileD split: if_splits)
  have q: "parse_string t = Inr (x, r) \<Longrightarrow> wf_sexp x" for t
    by (auto simp: parse_string_def split: sum.splits)
  show ?case using 2 by (auto split: list.splits if_splits option.splits sum.splits dest: a q)
next
  case (4 n s)
  then show ?case by (auto split: list.splits if_splits option.splits sum.splits)
qed simp_all

lemma detect_blank: "blank_text (detect_indent source) \<and> detect_indent source \<noteq> []"
proof -
  have "blank_text (takeWhile is_blank l)" for l
    by (induction l) (simp_all add: blank_text_def is_blank_def is_ws_def)
  then have "blank_text (detect_loop ls) \<and> detect_loop ls \<noteq> []" for ls
    by (induction ls) (simp_all add: KICAD_INDENT_def Let_def, simp_all add: blank_text_def is_ws_def)
  then show ?thesis by (simp add: detect_indent_def)
qed

lemma parse_more_fuel:
  "parse_node n s = Some y \<Longrightarrow> parse_node (Suc n) s = Some y"
  "parse_list n s = Some z \<Longrightarrow> parse_list (Suc n) s = Some z"
proof (induction n s and n s arbitrary: y and z rule: parse_node_parse_list.induct)
  case (2 n s)
  then show ?case
    by (auto split: list.splits if_splits option.splits sum.splits simp del: parse_list.simps)
next
  case (4 n s)
  show ?case
  proof (cases "skip_ws s")
    case (Cons c cs)
    show ?thesis
    proof (cases "c = CHR '')''")
      case False
      obtain q where q: "parse_node n (c # cs) = Some q" using 4(3) Cons False by (auto split: option.splits)
      note q' = 4(1) [OF Cons False q]
      show ?thesis
      proof (cases q)
        case (Inl e)
        then show ?thesis using 4(3) q q' Cons False by (simp del: parse_node.simps)
      next
        case (Inr xr)
        obtain x r where xr: "xr = (x, r)" by fastforce
        obtain u where u: "parse_list n r = Some u" using 4(3) q Cons False Inr xr by (auto split: option.splits)
        have "parse_list (Suc n) r = Some u" using 4(2) [OF Cons False] q Inr xr u by simp
        then show ?thesis using 4(3) q q' u Cons False Inr xr by (simp del: parse_node.simps parse_list.simps(2) add: parse_list.simps(2) [of "Suc n" s] parse_list.simps(2) [of n s])
      qed
    qed (use 4 Cons in simp)
  qed (use 4 in simp)
qed simp_all

lemma parse_fuel_any:
  assumes "2 * length s + 1 \<le> n" "n \<le> m"
  shows "parse_node m s = parse_node n s"
proof -
  obtain y where y: "parse_node n s = Some y" using parse_fuel(1) [OF assms(1)] by auto
  have "parse_node m s = Some y"
    using assms(2) by (induction m rule: dec_induct) (simp_all add: y parse_more_fuel(1) del: parse_node.simps)
  then show ?thesis using y by simp
qed

text \<open>C26. The parser terminates on every input and what it returns does not depend on the bound on its
  recursion: any bound of at least twice the input length plus one gives the same node, rest or error.\<close>

theorem parse_terminates:
  "(\<exists>r. parse input = Some r) \<and> (\<forall>n. 2 * length input + 1 \<le> n \<longrightarrow> parse_node n input = parse_node (fuel_for input) input)"
proof
  have "parse_node (fuel_for input) input \<noteq> None" by (rule parse_fuel) (simp add: fuel_for_def)
  then show "\<exists>r. parse input = Some r"
    unfolding parse_def by (auto split: option.splits sum.splits parse_error.splits)
  show "\<forall>n. 2 * length input + 1 \<le> n \<longrightarrow> parse_node n input = parse_node (fuel_for input) input"
    using parse_fuel_any [of input] by (metis fuel_for_def add_le_mono1 nat_le_linear one_le_numeral add_left_mono)
qed

theorem parse_terminates_witness:
  "parse_node 9 ''(a))'' = parse_node (fuel_for ''(a))'') ''(a))'' \<and> parse ''(a))'' = Some (Inr (Lst [Atom ''a'']))"
proof -
  have "parse ''(a))'' = Some (Inr (Lst [Atom ''a'']))" by code_simp
  then show ?thesis using parse_terminates [of "''(a))''"] by simp
qed

text \<open>C8. Reading, printing and reading again gives the same tree, with the indentation detected in the source
  or any other blank one; and every tree whose atoms are tokens is read back from its printed text.\<close>

theorem sexp_roundtrip:
  assumes "parse source = Some (Inr x)" and "wf_sexp y" and "blank_text ind"
  shows "parse (write_with_indent x (detect_indent source)) = Some (Inr x) \<and>
    parse (write_with_indent x ind) = Some (Inr x) \<and> parse (write_with_indent y ind) = Some (Inr y) \<and> parse (write_sexp y) = Some (Inr y)"
proof -
  obtain r where "parse_node (fuel_for source) source = Some (Inr (x, r))"
    using assms(1) by (auto simp: parse_def split: option.splits sum.splits parse_error.splits)
  then have x: "wf_sexp x" by (rule parse_wf)
  have "blank_text LEGACY_INDENT" by (simp add: LEGACY_INDENT_def blank_text_def is_ws_def)
  then show ?thesis using parse_write x assms(2,3) detect_blank by (simp add: write_sexp_def)
qed

theorem sexp_roundtrip_witness:
  "parse ''(a   (b 1) (c))'' = Some (Inr (Lst [Atom ''a'', Lst [Atom ''b'', Atom ''1''], Lst [Atom ''c'']])) \<and>
   parse (write_with_indent (Lst [Atom ''a'', Lst [Atom ''b'', Atom ''1''], Lst [Atom ''c'']]) (detect_indent ''(a   (b 1) (c))''))
     = Some (Inr (Lst [Atom ''a'', Lst [Atom ''b'', Atom ''1''], Lst [Atom ''c'']]))"
proof -
  have s: "parse ''(a   (b 1) (c))'' = Some (Inr (Lst [Atom ''a'', Lst [Atom ''b'', Atom ''1''], Lst [Atom ''c'']]))" by code_simp
  have "wf_sexp (Str [])" "blank_text []" by (simp_all add: blank_text_def)
  from sexp_roundtrip [OF s this] s show ?thesis by simp
qed

end
