(* ===== verification/Sexp_Net.thy ===== *)
theory Sexp_Net
  imports Sexp_Tree
begin

text \<open>
  The read-only tree of \<open>crates/konnect-sexp/src/parser.rs\<close> (its accessors; the tree type has the same three
  constructors as the editor's) and the net nodes of \<open>crates/konnect-sexp/src/net.rs\<close>: reading a net by the
  shape of its node, the nets of a board, and how a new item must refer to a net.
  A hash set is a set.
\<close>

section \<open>Accessors of the read-only tree\<close>

fun node_children :: "sexp \<Rightarrow> sexp list option" where
  "node_children (Lst v) = Some v"
| "node_children _ = None"

definition node_head :: "sexp \<Rightarrow> string option" where
  "node_head n = (case node_children n of Some (x # _) \<Rightarrow> text_of x | _ \<Rightarrow> None)"

definition node_find :: "sexp \<Rightarrow> string \<Rightarrow> sexp option" where
  "node_find n t = (case node_children n of None \<Rightarrow> None | Some cs \<Rightarrow> find (\<lambda>c. node_head c = Some t) cs)"

definition node_find_all :: "sexp \<Rightarrow> string \<Rightarrow> sexp list" where
  "node_find_all n t = filter (\<lambda>c. node_head c = Some t) (case node_children n of Some cs \<Rightarrow> cs | None \<Rightarrow> [])"

definition nth_opt :: "'a list \<Rightarrow> nat \<Rightarrow> 'a option" where
  "nth_opt xs i = (if i < length xs then Some (xs ! i) else None)"

definition node_get :: "sexp \<Rightarrow> nat \<Rightarrow> sexp option" where
  "node_get n i = Option.bind (node_children n) (\<lambda>cs. nth_opt cs i)"

definition find_str :: "sexp \<Rightarrow> string \<Rightarrow> string option" where
  "find_str n t = Option.bind (node_find n t) (\<lambda>c. Option.bind (node_get c 1) text_of)"

section \<open>Net nodes\<close>

definition net_name :: "sexp \<Rightarrow> string option" where
  "net_name n = (case node_children n of None \<Rightarrow> None
     | Some cs \<Rightarrow> if node_head n \<noteq> Some ''net'' then None
         else (case nth_opt cs 1 of None \<Rightarrow> None
           | Some (Str name) \<Rightarrow> Some name
           | Some (Atom _) \<Rightarrow> (case nth_opt cs 2 of Some (Str name) \<Rightarrow> Some name | _ \<Rightarrow> None)
           | Some (Lst _) \<Rightarrow> None))"

definition net_id :: "sexp \<Rightarrow> string option" where
  "net_id n = (if node_head n \<noteq> Some ''net'' then None
     else (case node_children n of None \<Rightarrow> None
       | Some cs \<Rightarrow> (case nth_opt cs 1 of Some (Atom i) \<Rightarrow> Some i | _ \<Rightarrow> None)))"

text \<open>What one node adds to the names and to the ids.\<close>

definition net_keys_here :: "sexp \<Rightarrow> string set \<times> string set \<Rightarrow> string set \<times> string set" where
  "net_keys_here n acc =
     (if node_head n = Some ''net'' then
        (case net_name n of
           Some name \<Rightarrow> if name \<noteq> [] then (insert name (fst acc), snd acc) else acc
         | None \<Rightarrow> (case net_id n of
             Some i \<Rightarrow> if i \<noteq> ''0'' then (fst acc, insert i (snd acc)) else acc
           | None \<Rightarrow> acc))
      else acc)"

fun walk_nets :: "sexp \<Rightarrow> string set \<times> string set \<Rightarrow> string set \<times> string set" where
  "walk_nets (Lst cs) acc = fold walk_nets cs (net_keys_here (Lst cs) acc)"
| "walk_nets _ acc = acc"

definition collect_net_keys :: "sexp \<Rightarrow> string set" where
  "collect_net_keys tree = (let (names, ids) = walk_nets tree ({}, {}) in if names = {} then ids else names)"

definition count_distinct_nets :: "sexp \<Rightarrow> nat" where
  "count_distinct_nets tree = card (collect_net_keys tree)"

fun has_name_only_net :: "sexp \<Rightarrow> bool" where
  "has_name_only_net (Lst cs) =
     (node_head (Lst cs) = Some ''net'' \<and> (case nth_opt cs 1 of Some (Str _) \<Rightarrow> True | _ \<Rightarrow> False) \<or>
      list_ex has_name_only_net cs)"
| "has_name_only_net _ = False"

text \<open>\<open>str::parse::<u64>\<close>: an optional plus, at least one digit, and no more than 64 bits.\<close>

definition digit_val :: "char \<Rightarrow> nat option" where
  "digit_val c = (let n = (of_char c :: nat) in if 48 \<le> n \<and> n \<le> 57 then Some (n - 48) else None)"

fun digits_val :: "nat \<Rightarrow> string \<Rightarrow> nat option" where
  "digits_val acc [] = Some acc"
| "digits_val acc (c # cs) = (case digit_val c of None \<Rightarrow> None
     | Some d \<Rightarrow> if acc * 10 + d < 2 ^ 64 then digits_val (acc * 10 + d) cs else None)"

definition parse_u64 :: "string \<Rightarrow> nat option" where
  "parse_u64 s = (let ds = (if s \<noteq> [] \<and> hd s = CHR ''+'' then tl s else s) in if ds = [] then None else digits_val 0 ds)"

definition names_nets_in_place :: "sexp \<Rightarrow> bool" where
  "names_nets_in_place tree \<longleftrightarrow> has_name_only_net tree \<or>
     (case Option.bind (Option.bind (Option.bind (node_find tree ''version'') (\<lambda>n. node_get n 1)) text_of) parse_u64 of
        Some v \<Rightarrow> 20260101 \<le> v | None \<Rightarrow> False)"

datatype net_ref = ByName string | ById string string

fun zone_net_nodes :: "net_ref \<Rightarrow> string" where
  "zone_net_nodes (ByName name) = ''(net '' @ [CHR 0x22] @ name @ [CHR 0x22] @ '')''"
| "zone_net_nodes (ById i name) = ''(net '' @ i @ '') (net_name '' @ [CHR 0x22] @ name @ [CHR 0x22] @ '')''"

fun zone_layer_node :: "net_ref \<Rightarrow> string \<Rightarrow> string" where
  "zone_layer_node (ByName _) layer = ''(layers '' @ [CHR 0x22] @ layer @ [CHR 0x22] @ '')''"
| "zone_layer_node (ById _ _) layer = ''(layer '' @ [CHR 0x22] @ layer @ [CHR 0x22] @ '')''"

definition declared_here :: "sexp \<Rightarrow> string \<Rightarrow> string option" where
  "declared_here n name = (if node_head n = Some ''net'' \<and> net_name n = Some name then net_id n else None)"

fun find_declared_id :: "sexp \<Rightarrow> string \<Rightarrow> string option" where
  "find_declared_id (Lst cs) name =
     (case declared_here (Lst cs) name of Some i \<Rightarrow> Some i | None \<Rightarrow> find_map (\<lambda>c. find_declared_id c name) cs)"
| "find_declared_id _ name = None"

definition net_ref_for_write :: "sexp \<Rightarrow> string \<Rightarrow> net_ref option" where
  "net_ref_for_write tree name =
     (if names_nets_in_place tree then Some (ByName name)
      else map_option (\<lambda>i. ById i name) (find_declared_id tree name))"

section \<open>The nets of a board\<close>

fun subtrees :: "sexp \<Rightarrow> sexp set" where
  "subtrees (Lst cs) = insert (Lst cs) (\<Union>c \<in> set cs. subtrees c)"
| "subtrees x = {x}"

definition board_names :: "sexp \<Rightarrow> string set" where
  "board_names t = {name. name \<noteq> [] \<and> (\<exists>s \<in> subtrees t. net_name s = Some name)}"

definition board_ids :: "sexp \<Rightarrow> string set" where
  "board_ids t = {i. i \<noteq> ''0'' \<and> (\<exists>s \<in> subtrees t. net_name s = None \<and> net_id s = Some i)}"

lemma net_name_head: "net_name s = Some n \<Longrightarrow> node_head s = Some ''net''"
  by (auto simp: net_name_def split: option.splits if_splits)

lemma net_id_head: "net_id s = Some i \<Longrightarrow> node_head s = Some ''net''"
  by (auto simp: net_id_def split: if_splits)

lemma net_keys_here_eq:
  "net_keys_here s (N, I) =
     (N \<union> {name. name \<noteq> [] \<and> net_name s = Some name}, I \<union> {i. i \<noteq> ''0'' \<and> net_name s = None \<and> net_id s = Some i})"
  unfolding net_keys_here_def
  by (auto split: option.splits dest: net_name_head net_id_head)

lemma walk_nets_eq: "walk_nets t (N, I) = (N \<union> board_names t, I \<union> board_ids t)"
proof (induction t arbitrary: N I)
  case (Lst cs)
  have "fold walk_nets xs (A, B) = (A \<union> (\<Union>c \<in> set xs. board_names c), B \<union> (\<Union>c \<in> set xs. board_ids c))" if "set xs \<subseteq> set cs" for xs A B
    using that by (induction xs arbitrary: A B) (auto simp: Lst.IH)
  from this [of cs] show ?case
    by (auto simp: net_keys_here_eq board_names_def board_ids_def)
qed (auto simp: board_names_def board_ids_def net_name_def net_id_def)

lemma declared_here_eq: "declared_here s name = Some i \<longleftrightarrow> net_name s = Some name \<and> net_id s = Some i"
  unfolding declared_here_def by (auto dest: net_id_head)

lemma find_declared_Some: "find_declared_id t name = Some i \<Longrightarrow> \<exists>s \<in> subtrees t. net_name s = Some name \<and> net_id s = Some i"
proof (induction t)
  case (Lst cs)
  show ?case
  proof (cases "declared_here (Lst cs) name")
    case None
    then obtain c where c: "c \<in> set cs" "find_declared_id c name = Some i" using Lst.prems by (auto dest: find_map_Some)
    then show ?thesis using Lst.IH [OF c] by auto
  next
    case (Some j)
    then have "j = i" using Lst.prems by simp
    then have "net_name (Lst cs) = Some name \<and> net_id (Lst cs) = Some i" using Some declared_here_eq by simp
    then show ?thesis by auto
  qed
qed simp_all

lemma find_declared_None: "find_declared_id t name = None \<longleftrightarrow> \<not> (\<exists>s \<in> subtrees t. net_name s = Some name \<and> net_id s \<noteq> None)"
proof (induction t)
  case (Lst cs)
  have "declared_here (Lst cs) name = None \<longleftrightarrow> \<not> (net_name (Lst cs) = Some name \<and> net_id (Lst cs) \<noteq> None)"
    by (auto simp: declared_here_def dest: net_name_head)
  moreover have "find_map (\<lambda>c. find_declared_id c name) cs = None \<longleftrightarrow> (\<forall>c \<in> set cs. \<not> (\<exists>s \<in> subtrees c. net_name s = Some name \<and> net_id s \<noteq> None))"
    using Lst.IH by (auto simp: find_map_None)
  ultimately show ?case by (cases "declared_here (Lst cs) name") auto
qed (simp_all add: net_name_def)

text \<open>C27. The nets of a board. Whatever format wrote it, the collected keys are exactly the non-empty names that
  occur on net nodes anywhere in the tree, and only if there is none, the ids other than 0 of nameless net nodes;
  each net counts once. A new item refers to a net by name exactly on boards that name nets in place; otherwise
  the id written is the id of a node that declares this very name, and the request is refused exactly when no
  node declares it with an id.\<close>

theorem board_nets_spec:
  "collect_net_keys tree = (if board_names tree = {} then board_ids tree else board_names tree) \<and>
   count_distinct_nets tree = card (if board_names tree = {} then board_ids tree else board_names tree) \<and>
   (case net_ref_for_write tree name of
      Some (ByName n) \<Rightarrow> n = name \<and> names_nets_in_place tree
    | Some (ById i n) \<Rightarrow> n = name \<and> \<not> names_nets_in_place tree \<and> (\<exists>s \<in> subtrees tree. net_name s = Some name \<and> net_id s = Some i)
    | None \<Rightarrow> \<not> names_nets_in_place tree \<and> \<not> (\<exists>s \<in> subtrees tree. net_name s = Some name \<and> net_id s \<noteq> None))"
proof -
  have "collect_net_keys tree = (if board_names tree = {} then board_ids tree else board_names tree)"
    by (simp add: collect_net_keys_def walk_nets_eq)
  moreover have "case net_ref_for_write tree name of
      Some (ByName n) \<Rightarrow> n = name \<and> names_nets_in_place tree
    | Some (ById i n) \<Rightarrow> n = name \<and> \<not> names_nets_in_place tree \<and> (\<exists>s \<in> subtrees tree. net_name s = Some name \<and> net_id s = Some i)
    | None \<Rightarrow> \<not> names_nets_in_place tree \<and> \<not> (\<exists>s \<in> subtrees tree. net_name s = Some name \<and> net_id s \<noteq> None)"
  proof (cases "find_declared_id tree name")
    case None
    then show ?thesis using None [unfolded find_declared_None] by (simp add: net_ref_for_write_def)
  next
    case (Some i)
    then show ?thesis using find_declared_Some [OF Some] by (simp add: net_ref_for_write_def)
  qed
  ultimately show ?thesis by (simp add: count_distinct_nets_def)
qed

end
