(* ===== verification/Sexp_Read.thy ===== *)
theory Sexp_Read
  imports Sexp_Net File_System
begin

text \<open>
  The parser of \<open>crates/konnect-sexp/src/parser.rs\<close>, built from combinators of the \<open>nom\<close> library
  (\<open>multispace0\<close>, \<open>many0\<close>, \<open>escaped\<close>, \<open>take_while1\<close>; every failure is recoverable, so \<open>many0\<close> stops at the
  first one and keeps what it has). Text is UTF-8 bytes; \<open>ws_len\<close> recognises the encoded Unicode white space
  that \<open>char::is_whitespace\<close> accepts.
\<close>

section \<open>White space\<close>

definition byte_nat :: "char \<Rightarrow> nat" where
  "byte_nat c = of_char c"

text \<open>The number of bytes of the white-space character the text starts with; 0 if it starts with none.\<close>

fun ws_len :: "string \<Rightarrow> nat" where
  "ws_len [] = 0"
| "ws_len (a # s) =
     (let n = byte_nat a in
      if 9 \<le> n \<and> n \<le> 13 \<or> n = 32 then 1
      else case s of [] \<Rightarrow> 0
        | b # s' \<Rightarrow> (let m = byte_nat b in
            if n = 0xC2 \<and> (m = 0x85 \<or> m = 0xA0) then 2
            else case s' of [] \<Rightarrow> 0
              | c # _ \<Rightarrow> (let k = byte_nat c in
                  if n = 0xE1 \<and> m = 0x9A \<and> k = 0x80 \<or>
                     n = 0xE2 \<and> m = 0x80 \<and> (0x80 \<le> k \<and> k \<le> 0x8A \<or> k = 0xA8 \<or> k = 0xA9 \<or> k = 0xAF) \<or>
                     n = 0xE2 \<and> m = 0x81 \<and> k = 0x9F \<or> n = 0xE3 \<and> m = 0x80 \<and> k = 0x80
                  then 3 else 0)))"

lemma ws_len_le: "ws_len s \<le> length s"
  by (cases s) (auto simp: Let_def split: list.splits)

function trim_start :: "string \<Rightarrow> string" where
  "trim_start s = (if ws_len s = 0 then s else trim_start (drop (ws_len s) s))"
  by pat_completeness auto
termination
proof (relation "measure length")
  fix s :: string assume "ws_len s \<noteq> 0"
  then show "(drop (ws_len s) s, s) \<in> measure length" by (cases s) auto
qed simp

declare trim_start.simps [simp del]

definition all_ws :: "string \<Rightarrow> bool" where
  "all_ws s \<longleftrightarrow> trim_start s = []"

fun trim_end :: "string \<Rightarrow> string" where
  "trim_end [] = []"
| "trim_end (c # s) = (if all_ws (c # s) then [] else c # trim_end s)"

definition trim :: "string \<Rightarrow> string" where
  "trim s = trim_end (trim_start s)"

section \<open>Parser\<close>

fun unescape :: "string \<Rightarrow> string" where
  "unescape [] = []"
| "unescape (c # cs) =
     (if c \<noteq> CHR 0x5C then c # unescape cs
      else case cs of [] \<Rightarrow> [CHR 0x5C]
        | e # cs' \<Rightarrow>
            (if e = CHR ''n'' then [CHR 0x0A] else if e = CHR ''t'' then [CHR 0x09] else if e = CHR ''r'' then [CHR 0x0D]
             else if e = CHR 0x22 then [CHR 0x22] else if e = CHR 0x5C then [CHR 0x5C] else [CHR 0x5C, e]) @ unescape cs')"

text \<open>The raw content up to the first quote that is not escaped, and the text after that quote.\<close>

fun quoted_content :: "string \<Rightarrow> (string \<times> string) option" where
  "quoted_content [] = None"
| "quoted_content (c # cs) =
     (if c = CHR 0x22 then Some ([], cs)
      else if c = CHR 0x5C then
        (case cs of [] \<Rightarrow> None
         | e # cs' \<Rightarrow> map_option (\<lambda>(t, r). (c # e # t, r)) (quoted_content cs'))
      else map_option (\<lambda>(t, r). (c # t, r)) (quoted_content cs))"

definition read_quoted_string :: "string \<Rightarrow> (sexp \<times> string) option" where
  "read_quoted_string s = (case s of [] \<Rightarrow> None
     | c # cs \<Rightarrow> if c \<noteq> CHR 0x22 then None
         else map_option (\<lambda>(content, r). (Str (unescape content), r)) (quoted_content cs))"

fun atom_prefix :: "string \<Rightarrow> string" where
  "atom_prefix [] = []"
| "atom_prefix (c # cs) =
     (if 0 < ws_len (c # cs) \<or> c = CHR ''('' \<or> c = CHR '')'' \<or> c = CHR 0x22 then [] else c # atom_prefix cs)"

definition read_atom :: "string \<Rightarrow> (sexp \<times> string) option" where
  "read_atom s = (let a = atom_prefix s in if a = [] then None else Some (Atom a, drop (length a) s))"

fun read_sexp :: "nat \<Rightarrow> string \<Rightarrow> (sexp \<times> string) option option"
  and read_many :: "nat \<Rightarrow> string \<Rightarrow> (sexp list \<times> string) option" where
  "read_sexp 0 s = None"
| "read_sexp (Suc n) s =
     (case skip_ws s of
        [] \<Rightarrow> Some None
      | c # cs \<Rightarrow>
          if c = CHR ''('' then
            (case read_many n cs of None \<Rightarrow> None
             | Some (xs, r) \<Rightarrow> (case skip_ws r of
                 d # r' \<Rightarrow> if d = CHR '')'' then Some (Some (Lst xs, r')) else Some None
               | [] \<Rightarrow> Some None))
          else if c = CHR 0x22 then Some (read_quoted_string (c # cs))
          else Some (read_atom (c # cs)))"
| "read_many 0 s = None"
| "read_many (Suc n) s =
     (case read_sexp n s of None \<Rightarrow> None
      | Some None \<Rightarrow> Some ([], s)
      | Some (Some (x, r)) \<Rightarrow> map_option (\<lambda>(xs, r'). (x # xs, r')) (read_many n r))"

definition read_one :: "string \<Rightarrow> (sexp \<times> string) option" where
  "read_one s = (case read_sexp (fuel_for s) s of Some r \<Rightarrow> r | None \<Rightarrow> None)"

text \<open>Further top-level nodes, until the rest is blank or does not parse.\<close>

fun read_rest :: "nat \<Rightarrow> string \<Rightarrow> sexp list" where
  "read_rest 0 remaining = []"
| "read_rest (Suc n) remaining =
     (if trim remaining = [] then []
      else case read_one (trim remaining) of None \<Rightarrow> [] | Some (x, r) \<Rightarrow> x # read_rest n r)"

definition parse_sexp :: "string \<Rightarrow> sexp_error + sexp" where
  "parse_sexp input = (case read_one input of
       None \<Rightarrow> Inl (Parse 0 ''no S-expression'')
     | Some (x, r) \<Rightarrow>
         if trim r = [] then Inr x else Inr (Lst (x # read_rest (length r) r)))"

end
