(* ===== verification/Sexp_Text.thy ===== *)
theory Sexp_Text
  imports Sexp_Tree
begin

text \<open>
  Targeted text edits of \<open>crates/konnect-sexp/src/writer.rs\<close>: applying edits by byte offset, and finding
  blocks in a document by scanning it with a string-aware parenthesis counter. A text is its list of bytes;
  offsets are taken to be on character boundaries, as the code requires.
\<close>

section \<open>Edits\<close>

record sexp_edit =
  e_start :: nat
  e_end :: nat
  e_replacement :: string

definition SexpEdit_insert :: "nat \<Rightarrow> string \<Rightarrow> sexp_edit" where
  "SexpEdit_insert offset t = \<lparr>e_start = offset, e_end = offset, e_replacement = t\<rparr>"

definition SexpEdit_replace :: "nat \<Rightarrow> nat \<Rightarrow> string \<Rightarrow> sexp_edit" where
  "SexpEdit_replace a b t = \<lparr>e_start = a, e_end = b, e_replacement = t\<rparr>"

definition SexpEdit_delete :: "nat \<Rightarrow> nat \<Rightarrow> sexp_edit" where
  "SexpEdit_delete a b = \<lparr>e_start = a, e_end = b, e_replacement = []\<rparr>"

text \<open>\<open>None\<close> is the failed assertion.\<close>

definition replace_range :: "sexp_edit \<Rightarrow> string \<Rightarrow> string option" where
  "replace_range e content =
     (if e_start e \<le> e_end e \<and> e_end e \<le> length content
      then Some (take (e_start e) content @ e_replacement e @ drop (e_end e) content) else None)"

fun apply_in_order :: "sexp_edit list \<Rightarrow> string \<Rightarrow> string option" where
  "apply_in_order [] content = Some content"
| "apply_in_order (e # es) content = Option.bind (replace_range e content) (apply_in_order es)"

definition apply_edits :: "string \<Rightarrow> sexp_edit list \<Rightarrow> string option" where
  "apply_edits content edits = apply_in_order (sort_key (\<lambda>e. - int (e_start e)) edits) content"

section \<open>Blocks\<close>

text \<open>The string part of the scanner: the new (in string, escape) state when the byte is consumed by it.\<close>

definition string_step :: "bool \<Rightarrow> bool \<Rightarrow> char \<Rightarrow> (bool \<times> bool) option" where
  "string_step in_string escape_next b =
     (if escape_next then Some (in_string, False)
      else if in_string then
        (if b = CHR 0x5C then Some (True, True) else if b = CHR 0x22 then Some (False, False) else Some (True, False))
      else if b = CHR 0x22 then Some (True, False) else None)"

fun scan_block :: "nat \<Rightarrow> nat \<Rightarrow> bool \<Rightarrow> bool \<Rightarrow> string \<Rightarrow> nat option" where
  "scan_block i depth in_string escape_next [] = None"
| "scan_block i depth in_string escape_next (b # bs) =
     (case string_step in_string escape_next b of
        Some (s, e) \<Rightarrow> scan_block (i + 1) depth s e bs
      | None \<Rightarrow>
          if b = CHR ''('' then scan_block (i + 1) (depth + 1) False False bs
          else if b = CHR '')'' then
            (if depth - 1 = 0 then Some (i + 1) else scan_block (i + 1) (depth - 1) False False bs)
          else scan_block (i + 1) depth False False bs)"

definition find_balanced_block :: "string \<Rightarrow> nat \<Rightarrow> (nat \<times> nat) option" where
  "find_balanced_block content start_offset =
     (let skipped = length (takeWhile (\<lambda>b. b \<noteq> CHR ''('') (drop start_offset content));
          block_start = start_offset + skipped
      in if length content \<le> block_start then None
         else map_option (\<lambda>block_end. (block_start, block_end)) (scan_block block_start 0 False False (drop block_start content)))"

fun back_over_blanks :: "string \<Rightarrow> nat \<Rightarrow> nat" where
  "back_over_blanks content 0 = 0"
| "back_over_blanks content (Suc n) = (if is_blank (content ! n) then back_over_blanks content n else Suc n)"

definition back_over_newline :: "string \<Rightarrow> nat \<Rightarrow> nat" where
  "back_over_newline content ws_start =
     (if 0 < ws_start \<and> content ! (ws_start - 1) = CHR 0x0A
      then (if 0 < ws_start - 1 \<and> content ! (ws_start - 2) = CHR 0x0D then ws_start - 2 else ws_start - 1)
      else ws_start)"

definition find_block_with_leading_whitespace :: "string \<Rightarrow> nat \<Rightarrow> (nat \<times> nat) option" where
  "find_block_with_leading_whitespace content start_offset =
     (case find_balanced_block content start_offset of None \<Rightarrow> None
      | Some (block_start, block_end) \<Rightarrow>
          Some (back_over_newline content (back_over_blanks content block_start), block_end))"

definition tag_delimiter :: "string \<Rightarrow> bool" where
  "tag_delimiter after = (after = [] \<or> is_ws (hd after) \<or> hd after = CHR ''('' \<or> hd after = CHR '')'')"

fun scan_starts :: "string \<Rightarrow> nat \<Rightarrow> bool \<Rightarrow> bool \<Rightarrow> string \<Rightarrow> nat list" where
  "scan_starts t i in_string escape_next [] = []"
| "scan_starts t i in_string escape_next (b # bs) =
     (case string_step in_string escape_next b of
        Some (s, e) \<Rightarrow> scan_starts t (i + 1) s e bs
      | None \<Rightarrow>
          if b = CHR ''('' \<and> prefix t bs \<and> tag_delimiter (drop (length t) bs)
          then i # scan_starts t (i + 1) False False bs
          else scan_starts t (i + 1) False False bs)"

definition find_block_starts :: "string \<Rightarrow> string \<Rightarrow> nat list" where
  "find_block_starts content t = scan_starts t 0 False False content"

definition find_enclosing_block :: "string \<Rightarrow> string \<Rightarrow> nat \<Rightarrow> (nat \<times> nat) option" where
  "find_enclosing_block content t pos =
     find_map (\<lambda>start. case find_balanced_block content start of
         Some (a, b) \<Rightarrow> if pos < b then Some (a, b) else None | None \<Rightarrow> None)
       (filter (\<lambda>start. start \<le> pos) (rev (find_block_starts content t)))"

lemma scan_block_bounds: "scan_block i d s e bs = Some k \<Longrightarrow> i < k \<and> k \<le> i + length bs"
proof (induction bs arbitrary: i d s e)
  case (Cons b bs)
  show ?case
  proof (cases "string_step s e b")
    case None
    then show ?thesis using Cons.prems Cons.IH [of "i + 1"] by (fastforce split: if_splits)
  next
    case (Some st)
    then show ?thesis using Cons.prems Cons.IH [of "i + 1" d "fst st" "snd st"] by (cases st) simp
  qed
qed simp

lemma find_balanced_block_bounds:
  assumes "find_balanced_block content i = Some (a, b)"
  shows "i \<le> a \<and> a < b \<and> b \<le> length content"
  using assms scan_block_bounds [of a 0 False False "drop a content" b]
  by (auto simp: find_balanced_block_def Let_def split: if_splits)

function child_loop :: "string \<Rightarrow> nat \<Rightarrow> nat \<Rightarrow> nat \<Rightarrow> bool \<Rightarrow> bool \<Rightarrow> (nat \<times> nat) list" where
  "child_loop content parent_end i depth in_string escape_next =
     (if parent_end \<le> i then []
      else case string_step in_string escape_next (content ! i) of
          Some (s, e) \<Rightarrow> child_loop content parent_end (i + 1) depth s e
        | None \<Rightarrow>
            if content ! i = CHR ''('' \<and> depth = 1 then
              (case find_balanced_block content i of
                 None \<Rightarrow> []
               | Some blk \<Rightarrow> blk # child_loop content parent_end (snd blk) depth False False)
            else if content ! i = CHR ''('' then child_loop content parent_end (i + 1) (depth + 1) False False
            else if content ! i = CHR '')'' then
              (if depth = 0 then [] else child_loop content parent_end (i + 1) (depth - 1) False False)
            else child_loop content parent_end (i + 1) depth False False)"
  by pat_completeness auto
termination
  by (relation "measure (\<lambda>(content, parent_end, i, depth, s, e). parent_end - i)") (auto dest: find_balanced_block_bounds)

definition find_direct_child_blocks :: "string \<Rightarrow> string \<Rightarrow> (nat \<times> nat) list" where
  "find_direct_child_blocks content parent_tag =
     (case find_block_starts content parent_tag of [] \<Rightarrow> []
      | parent_start # _ \<Rightarrow> (case find_balanced_block content parent_start of None \<Rightarrow> []
          | Some (_, parent_end) \<Rightarrow> child_loop content parent_end parent_start 0 False False))"

definition find_enclosing_direct_child_block :: "string \<Rightarrow> string \<Rightarrow> nat \<Rightarrow> (nat \<times> nat) option" where
  "find_enclosing_direct_child_block content parent_tag pos =
     find (\<lambda>(a, b). a \<le> pos \<and> pos < b) (find_direct_child_blocks content parent_tag)"

section \<open>Edits are a simultaneous substitution\<close>

text \<open>All edits at once, on the text from offset \<open>off\<close> on, for edits in ascending order.\<close>

fun splice_edits :: "nat \<Rightarrow> string \<Rightarrow> sexp_edit list \<Rightarrow> string" where
  "splice_edits off s [] = s"
| "splice_edits off s (e # es) =
     take (e_start e - off) s @ e_replacement e @ splice_edits (e_end e) (drop (e_end e - off) s) es"

definition disjoint_edits :: "nat \<Rightarrow> sexp_edit list \<Rightarrow> bool" where
  "disjoint_edits n es \<longleftrightarrow> list_all (\<lambda>e. e_start e \<le> e_end e \<and> e_end e \<le> n) es \<and>
     sorted_wrt (\<lambda>a b. e_start a < e_start b \<and> e_end a \<le> e_start b) es"

lemma apply_in_order_append: "apply_in_order (xs @ ys) c = Option.bind (apply_in_order xs c) (apply_in_order ys)"
  by (induction xs arbitrary: c) (auto split: bind_splits)

lemma apply_rev_splice:
  assumes "disjoint_edits (length pre + length s) es" and "\<And>e. e \<in> set es \<Longrightarrow> length pre \<le> e_start e"
  shows "apply_in_order (rev es) (pre @ s) = Some (pre @ splice_edits (length pre) s es)"
  using assms
proof (induction es arbitrary: pre s)
  case (Cons e es)
  let ?k = "e_end e - length pre"
  have e: "length pre \<le> e_start e" "e_start e \<le> e_end e" "e_end e \<le> length pre + length s"
    using Cons.prems by (auto simp: disjoint_edits_def)
  have lp: "length (pre @ take ?k s) = e_end e" using e by simp
  have ls: "length (pre @ take ?k s) + length (drop ?k s) = length pre + length s" using e by simp
  have "apply_in_order (rev es) ((pre @ take ?k s) @ drop ?k s)
      = Some ((pre @ take ?k s) @ splice_edits (length (pre @ take ?k s)) (drop ?k s) es)"
    by (rule Cons.IH) (use Cons.prems ls lp in \<open>auto simp: disjoint_edits_def add.commute\<close>)
  then have "apply_in_order (rev es) (pre @ s) = Some ((pre @ take ?k s) @ splice_edits (e_end e) (drop ?k s) es)"
    unfolding lp by simp
  moreover have "take (e_start e) ((pre @ take ?k s) @ u) = pre @ take (e_start e - length pre) s" for u
    using e by (simp add: min_def)
  moreover have "drop (e_end e) ((pre @ take ?k s) @ u) = u" for u using lp by simp
  ultimately show ?case using e lp by (simp add: apply_in_order_append replace_range_def)
qed simp

lemma sort_key_desc:
  assumes "distinct (map e_start edits)"
  shows "sort_key (\<lambda>e. - int (e_start e)) edits = rev (sort_key e_start edits)"
proof (rule map_sorted_distinct_set_unique)
  let ?f = "\<lambda>e. - int (e_start e)"
  have d: "distinct (map e_start (sort_key e_start edits))" "distinct (map e_start (sort_key ?f edits))"
    using assms by (simp_all add: distinct_map)
  then show "distinct (map ?f (sort_key ?f edits))" "distinct (map ?f (rev (sort_key e_start edits)))"
    by (simp_all add: distinct_map inj_on_def)
  show "inj_on ?f (set (sort_key ?f edits) \<union> set (rev (sort_key e_start edits)))"
    using assms by (simp add: distinct_map inj_on_def)
  have "sorted (map e_start (sort_key e_start edits))" by simp
  then show "sorted (map ?f (rev (sort_key e_start edits)))"
    by (simp add: sorted_map sorted_wrt_rev)
qed simp_all

lemma apply_edits_disjoint:
  assumes "disjoint_edits (length content) (sort_key e_start edits)"
  shows "apply_edits content edits = Some (splice_edits 0 content (sort_key e_start edits))"
proof -
  have "sorted_wrt (<) (map e_start (sort_key e_start edits))"
    unfolding sorted_wrt_map
    by (rule sorted_wrt_mono_rel [of _ "\<lambda>a b. e_start a < e_start b \<and> e_end a \<le> e_start b"])
       (use assms in \<open>auto simp: disjoint_edits_def\<close>)
  then have "distinct (map e_start (sort_key e_start edits))" by (simp add: strict_sorted_iff)
  then have "distinct (map e_start edits)" by (simp add: distinct_map)
  then show ?thesis
    using apply_rev_splice [of "[]" content "sort_key e_start edits"] assms by (simp add: apply_edits_def sort_key_desc)
qed

text \<open>C28. Edits that do not overlap and start at different offsets are applied as one simultaneous substitution, in whatever order they are
  given: the text between them is kept, and each range is replaced. (Edits are given by offsets into the original
  text; the code applies them from the back.)\<close>

theorem apply_edits_splice:
  assumes "disjoint_edits (length content) (sort_key e_start edits)"
  shows "apply_edits content edits = Some (splice_edits 0 content (sort_key e_start edits))"
  using assms by (rule apply_edits_disjoint)

theorem apply_edits_splice_witness:
  "apply_edits ''(a b c)'' [SexpEdit_delete 5 6, SexpEdit_insert 1 ''x '', SexpEdit_replace 3 4 ''yy''] = Some ''(x a yy )''"
proof -
  have "disjoint_edits (length ''(a b c)'') (sort_key e_start [SexpEdit_delete 5 6, SexpEdit_insert 1 ''x '', SexpEdit_replace 3 4 ''yy''])"
    by code_simp
  from apply_edits_splice [OF this] show ?thesis by (simp add: SexpEdit_delete_def SexpEdit_insert_def SexpEdit_replace_def)
qed

section \<open>Scanning printed text\<close>

text \<open>Characters outside strings that the scanner passes over.\<close>

definition plain_text :: "string \<Rightarrow> bool" where
  "plain_text s \<longleftrightarrow> list_all (\<lambda>c. c \<noteq> CHR ''('' \<and> c \<noteq> CHR '')'' \<and> c \<noteq> CHR 0x22) s"

lemma scan_plain: "plain_text s \<Longrightarrow> scan_block i k False False (s @ r) = scan_block (i + length s) k False False r"
  by (induction s arbitrary: i) (auto simp: plain_text_def string_step_def)

lemma scan_escaped: "scan_block i k True False (concat (map escape_char s) @ r) = scan_block (i + length (concat (map escape_char s))) k True False r"
proof (induction s arbitrary: i)
  case (Cons c s)
  have "scan_block i k True False (escape_char c @ u) = scan_block (i + length (escape_char c)) k True False u" for i u
    by (auto simp: escape_char_def string_step_def)
  then show ?case by (simp add: Cons.IH add.assoc)
qed simp

lemma plain_ws: "blank_text s \<Longrightarrow> plain_text s"
  unfolding blank_text_def plain_text_def by (erule list.pred_mono_strong) (auto simp: is_ws_def)

lemma plain_atom: "wf_sexp (Atom s) \<Longrightarrow> plain_text s"
  unfolding plain_text_def wf_sexp.simps by (erule conjE, erule list.pred_mono_strong) (auto simp: is_delim_def)

lemma scan_children:
  assumes "\<And>x i r. x \<in> set xs \<Longrightarrow> scan_block i (Suc k) False False (write_node x d ind @ r) = scan_block (i + length (write_node x d ind)) (Suc k) False False r"
    and "\<And>x. x \<in> set xs \<Longrightarrow> plain_text (gap x)"
  shows "scan_block i (Suc k) False False (concat (map (\<lambda>c. gap c @ write_node c d ind) xs) @ r)
    = scan_block (i + length (concat (map (\<lambda>c. gap c @ write_node c d ind) xs))) (Suc k) False False r"
  using assms by (induction xs arbitrary: i) (simp_all add: scan_plain add.assoc)

lemma blank_write_indent: "blank_text ind \<Longrightarrow> blank_text (write_indent k ind)"
  by (induction k) (auto simp: write_indent_def blank_text_def)

lemma blank_gaps:
  assumes "blank_text ind"
  shows "blank_text (child_gap d b ind c)" "child_gap d b ind c \<noteq> []" "blank_text (close_gap d b ind)"
  using blank_write_indent [OF assms] by (auto simp: child_gap_def close_gap_def blank_text_def is_ws_def)

text \<open>A printed node, scanned inside a block, leaves the scanner at the same depth outside strings; scanned
  from its opening parenthesis it ends the block.\<close>

lemma scan_node:
  assumes "wf_sexp x" and ind: "blank_text ind"
  shows "scan_block i (Suc k) False False (write_node x d ind @ r) = scan_block (i + length (write_node x d ind)) (Suc k) False False r"
    and "is_list x \<Longrightarrow> scan_block i 0 False False (write_node x d ind @ r) = Some (i + length (write_node x d ind))"
  using assms(1)
proof (induction x arbitrary: i k d r)
  case (Atom s)
  case 1 show ?case using scan_plain [OF plain_atom [OF 1]] by simp
  case 2 then show ?case by simp
next
  case (Str s)
  case 1 show ?case by (simp add: string_step_def scan_escaped)
  case 2 then show ?case by simp
next
  case (Lst xs)
  have body: "scan_block i k False False (write_node (Lst xs) d ind @ r)
      = (if k = 0 then Some (i + length (write_node (Lst xs) d ind)) else scan_block (i + length (write_node (Lst xs) d ind)) k False False r)"
    if "wf_sexp (Lst xs)" for i k d r
  proof (cases xs)
    case Nil
    then show ?thesis by (simp add: string_step_def)
  next
    case (Cons y ys)
    let ?b = "list_ex is_list ys"
    have y: "scan_block i (Suc k) False False (write_node y (d + 1) ind @ r) = scan_block (i + length (write_node y (d + 1) ind)) (Suc k) False False r" for i r
      using Lst.IH(1) [of y] Cons that by simp
    have ys: "scan_block i (Suc k) False False (concat (map (\<lambda>c. child_gap d ?b ind c @ write_node c (d + 1) ind) ys) @ r)
      = scan_block (i + length (concat (map (\<lambda>c. child_gap d ?b ind c @ write_node c (d + 1) ind) ys))) (Suc k) False False r" for i r
      by (rule scan_children) (use Lst.IH(1) Cons that blank_gaps [OF ind] in \<open>auto simp: list_all_iff intro: plain_ws\<close>)
    show ?thesis
      by (simp add: Cons Let_def string_step_def y [simplified] ys [simplified] scan_plain [OF plain_ws [OF blank_gaps(3) [OF ind]]] add.assoc)
  qed
  case 1 then show ?case by (simp only: body) simp
  case 2 then show ?case by (simp only: body) simp
qed

lemma find_balanced_block_node:
  assumes "wf_sexp x" "is_list x" "blank_text ind"
  shows "find_balanced_block (pre @ write_node x d ind @ r) (length pre) = Some (length pre, length pre + length (write_node x d ind))"
proof -
  obtain u where w: "write_node x d ind = CHR ''('' # u"
    using assms(2) by (cases x; cases "children x") (auto simp: Let_def)
  then show ?thesis
    using scan_node(2) [OF assms(1,3,2), of "length pre" d r] by (simp add: find_balanced_block_def Let_def)
qed

declare child_loop.simps [simp del]

text \<open>Text without parentheses outside strings only moves the string state.\<close>

fun pass_text :: "bool \<Rightarrow> bool \<Rightarrow> string \<Rightarrow> (bool \<times> bool) option" where
  "pass_text s e [] = Some (s, e)"
| "pass_text s e (b # bs) = (case string_step s e b of
       Some (s', e') \<Rightarrow> pass_text s' e' bs
     | None \<Rightarrow> if b = CHR ''('' \<or> b = CHR '')'' then None else pass_text False False bs)"

lemma child_loop_pass:
  assumes "pass_text s e t = Some (s', e')" and "length pre + length t \<le> pend"
  shows "child_loop (pre @ t @ r) pend (length pre) k s e = child_loop (pre @ t @ r) pend (length pre + length t) k s' e'"
  using assms
proof (induction t arbitrary: pre s e)
  case (Cons b t)
  have *: "child_loop (pre @ (b # t) @ r) pend (length pre) k s e = child_loop (pre @ (b # t) @ r) pend (Suc (length pre)) k s2 e2"
    if "string_step s e b = Some (s2, e2) \<or> string_step s e b = None \<and> b \<noteq> CHR ''('' \<and> b \<noteq> CHR '')'' \<and> \<not> s2 \<and> \<not> e2" for s2 e2
    using that Cons.prems(2) by (subst child_loop.simps) (auto simp: nth_append)
  have "\<exists>s2 e2. (string_step s e b = Some (s2, e2) \<or> string_step s e b = None \<and> b \<noteq> CHR ''('' \<and> b \<noteq> CHR '')'' \<and> \<not> s2 \<and> \<not> e2) \<and>
      pass_text s2 e2 t = Some (s', e')"
    using Cons.prems(1) by (auto split: option.splits if_splits)
  then obtain s2 e2 where st: "string_step s e b = Some (s2, e2) \<or> string_step s e b = None \<and> b \<noteq> CHR ''('' \<and> b \<noteq> CHR '')'' \<and> \<not> s2 \<and> \<not> e2"
      and p: "pass_text s2 e2 t = Some (s', e')" by blast
  show ?case using * [OF st] Cons.IH [OF p, of "pre @ [b]"] Cons.prems(2) by simp
qed simp

lemma pass_append: "pass_text s e (t @ u) = (case pass_text s e t of None \<Rightarrow> None | Some (s', e') \<Rightarrow> pass_text s' e' u)"
  by (induction t arbitrary: s e) (auto split: option.splits)

lemma pass_plain: "plain_text t \<Longrightarrow> pass_text False False t = Some (False, False)"
  by (induction t) (auto simp: plain_text_def string_step_def)

lemma pass_escaped: "pass_text True False (concat (map escape_char s)) = Some (True, False)"
proof (induction s)
  case (Cons c s)
  have "pass_text True False (escape_char c) = Some (True, False)" by (auto simp: escape_char_def string_step_def)
  then show ?case by (simp add: pass_append Cons)
qed simp

lemma pass_scalar:
  assumes "wf_sexp x" "\<not> is_list x"
  shows "pass_text False False (write_node x d ind) = Some (False, False)"
  using assms pass_plain [OF plain_atom] by (cases x) (auto simp: pass_append pass_escaped string_step_def)

definition slices :: "string \<Rightarrow> (nat \<times> nat) list \<Rightarrow> string list" where
  "slices content ranges = map (\<lambda>(a, b). take (b - a) (drop a content)) ranges"

lemma child_loop_gap:
  assumes "blank_text g" "length pre + length g \<le> pend"
  shows "child_loop (pre @ g @ r) pend (length pre) k False False = child_loop (pre @ g @ r) pend (length pre + length g) k False False"
  by (rule child_loop_pass [OF pass_plain [OF plain_ws [OF assms(1)]] assms(2)])

lemma child_loop_node:
  assumes x: "wf_sexp x" and ind: "blank_text ind" and l: "length pre + length (write_node x d ind) \<le> pend"
    and content: "content = pre @ write_node x d ind @ r"
  shows "slices content (child_loop content pend (length pre) 1 False False)
    = (if is_list x then [write_node x d ind] else []) @ slices content (child_loop content pend (length pre + length (write_node x d ind)) 1 False False)"
proof (cases "is_list x")
  case False
  then show ?thesis unfolding content using child_loop_pass [OF pass_scalar [OF x False] l] by simp
next
  case True
  then obtain u where w: "write_node x d ind = CHR ''('' # u" by (cases x; cases "children x") (auto simp: Let_def)
  have "child_loop content pend (length pre) 1 False False
      = (length pre, length pre + length (write_node x d ind)) # child_loop content pend (length pre + length (write_node x d ind)) 1 False False"
    using l w find_balanced_block_node [OF x True ind, of pre d r]
    by (subst child_loop.simps) (simp add: content nth_append string_step_def)
  then show ?thesis using True by (simp add: slices_def content)
qed

lemma child_loop_children:
  assumes xs: "\<And>x. x \<in> set xs \<Longrightarrow> wf_sexp x \<and> blank_text (gap x)" and ind: "blank_text ind"
    and l: "length pre + length (concat (map (\<lambda>c. gap c @ write_node c d ind) xs)) \<le> pend"
  shows "slices (pre @ concat (map (\<lambda>c. gap c @ write_node c d ind) xs) @ r)
       (child_loop (pre @ concat (map (\<lambda>c. gap c @ write_node c d ind) xs) @ r) pend (length pre) 1 False False)
    = map (\<lambda>c. write_node c d ind) (filter is_list xs) @ slices (pre @ concat (map (\<lambda>c. gap c @ write_node c d ind) xs) @ r)
       (child_loop (pre @ concat (map (\<lambda>c. gap c @ write_node c d ind) xs) @ r) pend
         (length pre + length (concat (map (\<lambda>c. gap c @ write_node c d ind) xs))) 1 False False)"
  using xs l
proof (induction xs arbitrary: pre)
  case (Cons x xs)
  let ?rest = "concat (map (\<lambda>c. gap c @ write_node c d ind) xs) @ r"
  let ?content = "pre @ gap x @ write_node x d ind @ ?rest"
  have x: "wf_sexp x" "blank_text (gap x)" using Cons.prems(1) by auto
  have 1: "child_loop ?content pend (length pre) 1 False False = child_loop ?content pend (length (pre @ gap x)) 1 False False"
    using child_loop_gap [OF x(2), of pre pend "write_node x d ind @ ?rest"] Cons.prems(2) by simp
  have 2: "slices ?content (child_loop ?content pend (length (pre @ gap x)) 1 False False)
      = (if is_list x then [write_node x d ind] else []) @
        slices ?content (child_loop ?content pend (length (pre @ gap x @ write_node x d ind)) 1 False False)"
    using child_loop_node [OF x(1) ind, of "pre @ gap x" d pend ?content ?rest] Cons.prems(2) by (simp add: add.assoc)
  have 3: "slices ?content (child_loop ?content pend (length (pre @ gap x @ write_node x d ind)) 1 False False)
      = map (\<lambda>c. write_node c d ind) (filter is_list xs) @ slices ?content (child_loop ?content pend
         (length (pre @ gap x @ write_node x d ind) + length (concat (map (\<lambda>c. gap c @ write_node c d ind) xs))) 1 False False)"
    using Cons.IH [of "pre @ gap x @ write_node x d ind"] Cons.prems by (simp add: add.assoc)
  show ?case using 1 2 3 by (simp add: add.assoc)
qed simp

text \<open>C29. The scanner and the printer agree. On a printed node, finding the balanced block at its opening
  parenthesis gives exactly the text of that node, whatever stands before and after it; and on a printed
  document the direct children of the root are exactly the printed lists under the root, in order. Parentheses
  and quotes inside strings do not disturb either.\<close>

theorem blocks_of_printed_text:
  assumes "list_all wf_sexp cs" and "wf_sexp (Atom t)" and "blank_text ind"
    and "wf_sexp x" and "is_list x"
  shows "slices (write_with_indent (Lst (Atom t # cs)) ind) (find_direct_child_blocks (write_with_indent (Lst (Atom t # cs)) ind) t)
      = map (\<lambda>c. write_node c 1 ind) (filter is_list cs) \<and>
    find_balanced_block (pre @ write_node x d ind @ post) (length pre) = Some (length pre, length pre + length (write_node x d ind))"
proof -
  let ?b = "list_ex is_list cs"
  let ?body = "concat (map (\<lambda>c. child_gap 0 ?b ind c @ write_node c 1 ind) cs)"
  let ?root = "Lst (Atom t # cs)"
  define D where "D = write_with_indent ?root ind"
  define L where "L = length (write_node ?root 0 ind)"
  have node: "write_node ?root 0 ind = CHR ''('' # t @ ?body @ [CHR 0x0A, CHR '')'']"
    by (simp add: Let_def close_gap_def)
  have doc: "D = CHR ''('' # t @ ?body @ [CHR 0x0A, CHR '')'', CHR 0x0A]" unfolding D_def write_with_indent_def node by simp
  have gap: "?body @ [CHR 0x0A, CHR '')'', CHR 0x0A] = CHR 0x0A # tl (?body @ [CHR 0x0A, CHR '')'', CHR 0x0A])"
    by (cases cs) (auto simp: child_gap_def)
  have starts: "\<exists>more. find_block_starts D t = 0 # more"
    unfolding doc find_block_starts_def by (subst gap) (simp add: string_step_def tag_delimiter_def is_ws_def)
  have wf: "wf_sexp ?root" using assms by simp
  have fb: "find_balanced_block D 0 = Some (0, L)"
    using find_balanced_block_node [OF wf _ assms(3), of "[]" 0 "[CHR 0x0A]"] by (simp add: D_def L_def write_with_indent_def del: write_node.simps)
  have e: "L = 3 + length t + length ?body" unfolding L_def node by simp
  have 1: "child_loop D L 0 0 False False = child_loop D L 1 1 False False"
    by (subst child_loop.simps) (simp add: e doc string_step_def)
  have 2: "child_loop D L 1 1 False False = child_loop D L (length (CHR ''('' # t)) 1 False False"
    using child_loop_pass [OF pass_plain [OF plain_atom [OF assms(2)]], of "[CHR ''('']" L "?body @ [CHR 0x0A, CHR '')'', CHR 0x0A]" 1]
    by (simp add: doc e)
  have 3: "slices D (child_loop D L (length (CHR ''('' # t)) 1 False False)
      = map (\<lambda>c. write_node c 1 ind) (filter is_list cs) @ slices D (child_loop D L (length (CHR ''('' # t) + length ?body) 1 False False)"
    using child_loop_children [of cs "child_gap 0 ?b ind" ind "CHR ''('' # t" 1 L "[CHR 0x0A, CHR '')'', CHR 0x0A]"]
      assms(1,3) blank_gaps [OF assms(3)] by (simp add: doc e list_all_iff)
  have 4: "child_loop D L (length (CHR ''('' # t) + length ?body) 1 False False = []"
    by (subst child_loop.simps, subst child_loop.simps, subst child_loop.simps)
       (simp add: doc e nth_append string_step_def)
  show ?thesis
    using starts fb 1 2 3 4 find_balanced_block_node [OF assms(4,5,3)]
    by (auto simp: find_direct_child_blocks_def slices_def simp flip: D_def)
qed

theorem blocks_of_printed_text_witness:
  "slices (write_with_indent (Lst [Atom ''kicad_sch'', Lst [Atom ''text'', Str '')('' ], Lst [Atom ''wire'']]) '' '')
     (find_direct_child_blocks (write_with_indent (Lst [Atom ''kicad_sch'', Lst [Atom ''text'', Str '')('' ], Lst [Atom ''wire'']]) '' '') ''kicad_sch'')
   = [write_node (Lst [Atom ''text'', Str '')('' ]) 1 '' '', ''(wire)'']"
proof -
  have h: "list_all wf_sexp [Lst [Atom ''text'', Str '')('' ], Lst [Atom ''wire'']]" "wf_sexp (Atom ''kicad_sch'')" "blank_text '' ''"
     "wf_sexp (Lst [])" "is_list (Lst [])"
    by (code_simp, code_simp, code_simp, code_simp, code_simp)
  from blocks_of_printed_text [OF h, of "[]" 0 "[]"] show ?thesis by (simp add: Let_def close_gap_def)
qed

end
