(* ===== verification/Transaction.thy ===== *)
theory Transaction
  imports File_System
begin

text \<open>
  \<open>crates/konnect-sexp/src/transaction.rs\<close>: exact-precondition transactions over several project
  files, with a write-ahead journal. Each public operation is one definition over the world of
  \<open>File_System\<close>; the JSON codec of the journal is a parameter (\<open>to_json\<close>, \<open>from_json\<close>).

  The theorems: a transaction that is killed or fails at any system call leaves the project either
  untouched, or with a journal from which recovery completes every target, or complete; recovery
  never overwrites content that is neither image; abandoning moves only the journal.
\<close>

section \<open>Data\<close>

record file_transition =
  ft_path :: pathbuf
  ft_expected :: "string option"
  ft_replacement :: string

definition FileTransition_replace :: "pathbuf \<Rightarrow> string \<Rightarrow> string \<Rightarrow> file_transition" where
  "FileTransition_replace p expected replacement =
     \<lparr>ft_path = p, ft_expected = Some expected, ft_replacement = replacement\<rparr>"

definition FileTransition_create :: "pathbuf \<Rightarrow> string \<Rightarrow> file_transition" where
  "FileTransition_create p replacement = \<lparr>ft_path = p, ft_expected = None, ft_replacement = replacement\<rparr>"

record transaction_commit =
  tc_id :: string
  tc_files :: nat

record recovery_outcome =
  ro_id :: string
  completed_files :: nat

datatype target_state = Pending | Applied | Divergent

record target_status =
  ts_path :: path
  ts_state :: target_state

record transaction_status =
  st_id :: string
  st_journal :: path
  st_targets :: "target_status list"

record abandoned_transaction =
  ab_id :: string
  ab_journal :: path
  ab_abandoned_journal :: path
  was_valid :: bool

record journal_entry =
  je_path :: path
  je_expected :: "string option"
  je_replacement :: string

record journal =
  version :: nat
  j_id :: string
  entries :: "journal_entry list"

record tx_env = env +
  to_json :: "journal \<Rightarrow> string"
  from_json :: "string \<Rightarrow> journal option"

definition JOURNAL_VERSION :: nat where "JOURNAL_VERSION = 1"

definition JOURNAL_PREFIX :: string where "JOURNAL_PREFIX = ''.konnect-transaction-''"

definition JOURNAL_SUFFIX :: string where "JOURNAL_SUFFIX = ''.json''"

section \<open>Names\<close>

definition journal_path :: "path \<Rightarrow> string \<Rightarrow> path" where
  "journal_path base tid = base @ [JOURNAL_PREFIX @ tid @ JOURNAL_SUFFIX]"

definition abandoned_journal_path :: "path \<Rightarrow> string \<Rightarrow> path" where
  "abandoned_journal_path base tid = base @ [JOURNAL_PREFIX @ tid @ ''.abandoned'' @ JOURNAL_SUFFIX]"

definition id_char :: "char \<Rightarrow> bool" where
  "id_char c \<longleftrightarrow> (let n = (of_char c :: nat) in
     48 \<le> n \<and> n \<le> 57 \<or> 65 \<le> n \<and> n \<le> 90 \<or> 97 \<le> n \<and> n \<le> 122 \<or> c = CHR ''-'' \<or> c = CHR ''_'')"

definition valid_transaction_id :: "string \<Rightarrow> bool" where
  "valid_transaction_id tid \<longleftrightarrow> \<not> (tid = [] \<or> 128 < length tid \<or> \<not> list_all id_char tid)"

definition validate_transaction_id :: "string \<Rightarrow> unit io" where
  "validate_transaction_id tid = io_when (\<not> valid_transaction_id tid) InvalidValue"

definition strip_prefix :: "string \<Rightarrow> string \<Rightarrow> string option" where
  "strip_prefix s pre = (if prefix pre s then Some (drop (length pre) s) else None)"

definition strip_suffix :: "string \<Rightarrow> string \<Rightarrow> string option" where
  "strip_suffix s suf = (if suffix suf s then Some (take (length s - length suf) s) else None)"

definition is_journal_path :: "path \<Rightarrow> bool" where
  "is_journal_path p = (case file_name p of None \<Rightarrow> False
     | Some name \<Rightarrow> (case strip_prefix name JOURNAL_PREFIX of None \<Rightarrow> False
         | Some rest \<Rightarrow> (case strip_suffix rest JOURNAL_SUFFIX of None \<Rightarrow> False
             | Some tid \<Rightarrow> \<not> suffix ''.abandoned'' tid \<and> valid_transaction_id tid)))"

section \<open>Targets\<close>

definition canonical_directory :: "path \<Rightarrow> path io" where
  "canonical_directory p =
     io_bind (sys_canonicalize p) (\<lambda>canonical.
       io_bind (sys_metadata canonical) (\<lambda>n.
         if n \<noteq> Some Dir then io_throw InvalidValue else io_return canonical))"

definition normalize_target :: "path \<Rightarrow> pathbuf \<Rightarrow> path io" where
  "normalize_target base p =
     (let absolute = joined base p
      in case file_name absolute of None \<Rightarrow> io_throw InvalidValue
        | Some name \<Rightarrow>
            io_bind (sys_canonicalize (butlast absolute)) (\<lambda>canonical_parent.
              if \<not> prefix base canonical_parent then io_throw InvalidValue
              else io_return (drop (length base) (canonical_parent @ [name]))))"

fun normalize_loop :: "path \<Rightarrow> path list \<Rightarrow> file_transition list \<Rightarrow> journal_entry list io" where
  "normalize_loop base seen [] = io_return []"
| "normalize_loop base seen (t # ts) =
     io_bind (normalize_target base (ft_path t)) (\<lambda>relative.
       if relative \<in> set seen then io_throw InvalidValue
       else if ft_expected t = Some (ft_replacement t) then io_throw InvalidValue
       else io_bind (normalize_loop base (relative # seen) ts) (\<lambda>es.
         io_return (\<lparr>je_path = relative, je_expected = ft_expected t, je_replacement = ft_replacement t\<rparr> # es)))"

definition normalize_transitions :: "path \<Rightarrow> file_transition list \<Rightarrow> journal_entry list io" where
  "normalize_transitions base transitions =
     (if transitions = [] then io_throw InvalidValue
      else io_bind (normalize_loop base [] transitions) (\<lambda>es. io_return (sort_key je_path es)))"

fun validate_loop :: "path \<Rightarrow> path list \<Rightarrow> journal_entry list \<Rightarrow> unit io" where
  "validate_loop base seen [] = io_return ()"
| "validate_loop base seen (e # es) =
     io_bind (normalize_target base (Abs (base @ je_path e))) (\<lambda>normalized.
       if normalized \<noteq> je_path e \<or> normalized \<in> set seen then io_throw InvalidValue
       else validate_loop base (normalized # seen) es)"

definition validate_journal_entries :: "path \<Rightarrow> journal_entry list \<Rightarrow> unit io" where
  "validate_journal_entries base es = (if es = [] then io_throw InvalidValue else validate_loop base [] es)"

fun lock_entries :: "path \<Rightarrow> journal_entry list \<Rightarrow> (path \<times> string) list io" where
  "lock_entries base [] = io_return []"
| "lock_entries base (e # es) =
     io_bind (open_document_lock (base @ je_path e)) (\<lambda>lock.
       io_bind (lock_entries base es) (\<lambda>locks. io_return (lock # locks)))"

definition ensure_entries_are_closed :: "path \<Rightarrow> journal_entry list \<Rightarrow> unit io" where
  "ensure_entries_are_closed base = io_for (\<lambda>e. ensure_kicad_design_document_is_closed (base @ je_path e))"

definition read_content :: "path \<Rightarrow> string option io" where
  "read_content p w = (case read_string_unlocked p w of
       (Ok s, w') \<Rightarrow> (Ok (Some s), w')
     | (Err (Io NotFound), w') \<Rightarrow> (Ok None, w')
     | (Err e, w') \<Rightarrow> (Err e, w')
     | (Killed, w') \<Rightarrow> (Killed, w'))"

definition current_content :: "path \<Rightarrow> string option io" where
  "current_content p =
     io_bind (sys_metadata p) (\<lambda>n. case n of
         Some (Symlink _ _) \<Rightarrow> io_throw InvalidValue
       | None \<Rightarrow> io_return None
       | Some _ \<Rightarrow> read_content p)"

definition verify_before_images :: "path \<Rightarrow> path \<Rightarrow> journal_entry list \<Rightarrow> unit io" where
  "verify_before_images base jp = io_for (\<lambda>e.
     io_bind (current_content (base @ je_path e)) (\<lambda>c.
       io_when (c \<noteq> je_expected e) (TransactionConflict (base @ je_path e) jp)))"

definition verify_after_images :: "path \<Rightarrow> path \<Rightarrow> journal_entry list \<Rightarrow> unit io" where
  "verify_after_images base jp = io_for (\<lambda>e.
     io_bind (current_content (base @ je_path e)) (\<lambda>c.
       io_when (c \<noteq> Some (je_replacement e)) (TransactionConflict (base @ je_path e) jp)))"

definition apply_entry :: "'e env_scheme \<Rightarrow> path \<Rightarrow> journal_entry \<Rightarrow> unit io" where
  "apply_entry E base e =
     (if je_expected e \<noteq> None then write_atomic_unlocked E (base @ je_path e) (je_replacement e)
      else write_new_atomic_unlocked E (base @ je_path e) (je_replacement e))"

section \<open>The journal file\<close>

definition persist_journal :: "'e tx_env_scheme \<Rightarrow> path \<Rightarrow> journal \<Rightarrow> unit io" where
  "persist_journal E p j = write_new_atomic_unlocked E p (to_json E j)"

definition remove_journal :: "path \<Rightarrow> unit io" where
  "remove_journal p = io_then (sys_remove p) (sync_parent_directory (butlast p))"

definition active_journal_paths :: "path \<Rightarrow> path list io" where
  "active_journal_paths base =
     io_bind (sys_read_dir base) (\<lambda>ps. io_return (sort (filter is_journal_path ps)))"

definition read_validated_journal :: "'e tx_env_scheme \<Rightarrow> path \<Rightarrow> path \<Rightarrow> journal io" where
  "read_validated_journal E base p =
     io_bind (sys_metadata p) (\<lambda>n. case n of
         Some (File _) \<Rightarrow>
           io_bind (sys_read p) (\<lambda>source.
             case from_json E source of None \<Rightarrow> io_throw InvalidValue
               | Some j \<Rightarrow>
                   io_then (validate_transaction_id (j_id j))
                   (io_then (io_when (journal_path base (j_id j) \<noteq> p) InvalidValue)
                   (io_then (io_when (version j \<noteq> JOURNAL_VERSION) InvalidValue)
                   (io_then (validate_journal_entries base (entries j))
                     (io_return j)))))
       | None \<Rightarrow> io_throw (Io NotFound)
       | Some _ \<Rightarrow> io_throw InvalidValue)"

section \<open>Recovery\<close>

fun collect_pending :: "path \<Rightarrow> path \<Rightarrow> journal_entry list \<Rightarrow> journal_entry list io" where
  "collect_pending base jp [] = io_return []"
| "collect_pending base jp (e # es) =
     io_bind (current_content (base @ je_path e)) (\<lambda>c.
       if c = Some (je_replacement e) then collect_pending base jp es
       else if c = je_expected e then io_bind (collect_pending base jp es) (\<lambda>ps. io_return (e # ps))
       else io_throw (TransactionConflict (base @ je_path e) jp))"

definition recover_journal :: "'e tx_env_scheme \<Rightarrow> path \<Rightarrow> path \<Rightarrow> recovery_outcome io" where
  "recover_journal E base jp =
     io_bind (read_validated_journal E base jp) (\<lambda>j.
       io_bind (lock_entries base (entries j)) (\<lambda>_.
         io_then (ensure_entries_are_closed base (entries j))
           (io_bind (collect_pending base jp (entries j)) (\<lambda>pending.
             io_then (io_for (apply_entry E base) pending)
             (io_then (verify_after_images base jp (entries j))
             (io_then (remove_journal jp)
               (io_return \<lparr>ro_id = j_id j, completed_files = length pending\<rparr>)))))))"

fun recover_loop :: "'e tx_env_scheme \<Rightarrow> path \<Rightarrow> path list \<Rightarrow> recovery_outcome list io" where
  "recover_loop E base [] = io_return []"
| "recover_loop E base (p # ps) =
     io_bind (recover_journal E base p) (\<lambda>r. io_bind (recover_loop E base ps) (\<lambda>rs. io_return (r # rs)))"

definition recover_file_transactions :: "'e tx_env_scheme \<Rightarrow> path \<Rightarrow> recovery_outcome list io" where
  "recover_file_transactions E dir =
     io_bind (canonical_directory dir) (\<lambda>base.
       io_bind (active_journal_paths base) (\<lambda>journals. recover_loop E base journals))"

definition recover_file_transaction :: "'e tx_env_scheme \<Rightarrow> path \<Rightarrow> string \<Rightarrow> recovery_outcome io" where
  "recover_file_transaction E dir tid =
     io_bind (canonical_directory dir) (\<lambda>base.
       io_then (validate_transaction_id tid)
         (io_bind (sys_is_file (journal_path base tid)) (\<lambda>is_file.
           if \<not> is_file then io_throw InvalidValue else recover_journal E base (journal_path base tid))))"

section \<open>Commit\<close>

definition new_uuid :: "'e env_scheme \<Rightarrow> string io" where
  "new_uuid E w = (Ok (uuid E (nonce w)), w\<lparr>nonce := nonce w + 1\<rparr>)"

definition commit_entries :: "'e tx_env_scheme \<Rightarrow> path \<Rightarrow> string \<Rightarrow> journal_entry list \<Rightarrow> transaction_commit io" where
  "commit_entries E base tid es =
     (let jp = journal_path base tid; j = \<lparr>version = JOURNAL_VERSION, j_id = tid, entries = es\<rparr>
      in io_bind (lock_entries base es) (\<lambda>_.
           io_then (ensure_entries_are_closed base es)
           (io_then (verify_before_images base jp es)
           (io_then (persist_journal E jp j)
           (io_then (io_for (apply_entry E base) es)
           (io_then (verify_after_images base jp es)
           (io_then (remove_journal jp)
             (io_return \<lparr>tc_id = tid, tc_files = length es\<rparr>))))))))"

definition commit_file_transaction :: "'e tx_env_scheme \<Rightarrow> path \<Rightarrow> file_transition list \<Rightarrow> transaction_commit io" where
  "commit_file_transaction E dir transitions =
     io_bind (canonical_directory dir) (\<lambda>base.
       io_bind (recover_file_transactions E base) (\<lambda>_.
         io_bind (normalize_transitions base transitions) (\<lambda>es.
           io_bind (new_uuid E) (\<lambda>tid. commit_entries E base tid es))))"

section \<open>Inspection and abandoning\<close>

fun inspect_targets :: "path \<Rightarrow> journal_entry list \<Rightarrow> target_status list io" where
  "inspect_targets base [] = io_return []"
| "inspect_targets base (e # es) =
     io_bind (current_content (base @ je_path e)) (\<lambda>c.
       let state = (if c = Some (je_replacement e) then Applied else if c = je_expected e then Pending else Divergent)
       in io_bind (inspect_targets base es) (\<lambda>ts. io_return (\<lparr>ts_path = je_path e, ts_state = state\<rparr> # ts)))"

definition inspect_journal :: "path \<Rightarrow> path \<Rightarrow> journal \<Rightarrow> transaction_status io" where
  "inspect_journal base p j =
     io_bind (inspect_targets base (entries j)) (\<lambda>ts.
       io_return \<lparr>st_id = j_id j, st_journal = p, st_targets = ts\<rparr>)"

fun inspect_loop :: "'e tx_env_scheme \<Rightarrow> path \<Rightarrow> path list \<Rightarrow> transaction_status list io" where
  "inspect_loop E base [] = io_return []"
| "inspect_loop E base (p # ps) =
     io_bind (read_validated_journal E base p) (\<lambda>j.
       io_bind (lock_entries base (entries j)) (\<lambda>_.
         io_bind (inspect_journal base p j) (\<lambda>s.
           io_bind (inspect_loop E base ps) (\<lambda>ss. io_return (s # ss)))))"

definition inspect_file_transactions :: "'e tx_env_scheme \<Rightarrow> path \<Rightarrow> transaction_status list io" where
  "inspect_file_transactions E dir =
     io_bind (canonical_directory dir) (\<lambda>base.
       io_bind (active_journal_paths base) (\<lambda>journals. inspect_loop E base journals))"

definition abandon_check :: "'e tx_env_scheme \<Rightarrow> path \<Rightarrow> path \<Rightarrow> bool io" where
  "abandon_check E base p w =
     (case read_validated_journal E base p w of
        (Ok j, w') \<Rightarrow>
          io_bind (lock_entries base (entries j)) (\<lambda>_.
            io_bind (inspect_journal base p j) (\<lambda>s.
              if list_all (\<lambda>t. ts_state t \<noteq> Divergent) (st_targets s) then io_throw InvalidValue else io_return True)) w'
      | (Err (Io k), w') \<Rightarrow> (Err (Io k), w')
      | (Err _, w') \<Rightarrow> (Ok False, w')
      | (Killed, w') \<Rightarrow> (Killed, w'))"

definition abandon_file_transaction :: "'e tx_env_scheme \<Rightarrow> path \<Rightarrow> string \<Rightarrow> abandoned_transaction io" where
  "abandon_file_transaction E dir tid =
     io_bind (canonical_directory dir) (\<lambda>base.
       io_then (validate_transaction_id tid)
         (let p = journal_path base tid; abandoned = abandoned_journal_path base tid
          in io_bind (sys_is_file p) (\<lambda>is_file.
            if \<not> is_file then io_throw InvalidValue
            else io_bind (abandon_check E base p) (\<lambda>valid.
              io_bind (sys_exists abandoned) (\<lambda>there.
                if there then io_throw InvalidValue
                else io_then (sys_rename p abandoned)
                  (io_then (sync_parent_directory base)
                    (io_return \<lparr>ab_id = tid, ab_journal = p, ab_abandoned_journal = abandoned, was_valid = valid\<rparr>)))))))"

section \<open>Where targets are\<close>

definition real_dir :: "tree \<Rightarrow> path \<Rightarrow> bool" where
  "real_dir fs d \<longleftrightarrow> ''..'' \<notin> set d \<and> (\<forall>q. prefix q d \<longrightarrow> lookup fs q = Some Dir)"

definition target_real :: "tree \<Rightarrow> path \<Rightarrow> bool" where
  "target_real fs p \<longleftrightarrow> p \<noteq> [] \<and> last p \<noteq> ''..'' \<and> real_dir fs (butlast p)"

text \<open>What normalising a target establishes: its parent is canonical, and may still be a regular file.\<close>

definition target_canon :: "tree \<Rightarrow> path \<Rightarrow> bool" where
  "target_canon fs p \<longleftrightarrow> target_real fs p \<or> (\<exists>s. lookup fs (butlast p) = Some (File s))"

lemma real_dir_Nil [simp]: "real_dir fs []"
  by (simp add: real_dir_def)

lemma real_dir_snoc [simp]: "real_dir fs (d @ [c]) \<longleftrightarrow> real_dir fs d \<and> c \<noteq> ''..'' \<and> lookup fs (d @ [c]) = Some Dir"
  by (auto simp: real_dir_def)

lemma real_dir_butlast [simp]: "real_dir fs d \<Longrightarrow> real_dir fs (butlast d)"
  by (cases d rule: rev_cases) auto

lemma real_dir_append: "real_dir fs (d @ ds) \<Longrightarrow> real_dir fs d"
  by (auto simp: real_dir_def prefix_append)

lemma walk_real:
  "real_dir fs (cur @ cs) \<Longrightarrow> walk n fs cur (cs @ rest) = walk n fs (cur @ cs) rest"
proof (induction cs arbitrary: cur)
  case (Cons c cs)
  then have "real_dir fs ((cur @ [c]) @ cs)" by simp
  then have "real_dir fs (cur @ [c])" by (rule real_dir_append)
  then show ?case using Cons by simp
qed simp

lemma canonicalize_target:
  assumes "target_real fs p"
  shows "canonicalize fs p = walk 40 fs (butlast p) [last p]"
  using walk_real [of fs "[]" "butlast p" 40 "[last p]"] assms
  by (simp add: canonicalize_def target_real_def)

lemma walk_canonical:
  assumes "walk n fs cur cs = Some q" and "real_dir fs cur"
  shows "real_dir fs q \<or> (\<exists>s. lookup fs q = Some (File s))"
  using assms
  by (induction n fs cur cs rule: walk.induct) (auto split: if_splits option.splits node.splits)

lemma canonicalize_canon: "canonicalize fs p = Some q \<Longrightarrow> real_dir fs q \<or> (\<exists>s. lookup fs q = Some (File s))"
  unfolding canonicalize_def by (erule walk_canonical) simp

lemma syscall_ok: "syscall f w = (Ok x, w') \<Longrightarrow> f (files w) = (Inr x, files w')"
  by (auto simp: syscall_def split: list.splits fault.splits prod.splits sum.splits)

lemma syscall_err: "syscall f w = (Err e, w') \<Longrightarrow> e = Io OtherIo \<and> files w' = files w \<or> f (files w) = (Inl e, files w')"
  by (auto simp: syscall_def split: list.splits fault.splits prod.splits sum.splits)

lemma sys_read_target:
  assumes "sys_read p w = (r, w')" and "target_real (files w) p" and "lookup (files w) p = Some n" "\<forall>a t. n \<noteq> Symlink a t"
  shows "r = Ok s \<Longrightarrow> n = File s" and "r = Err e \<Longrightarrow> e = Io OtherIo"
  using assms
  by (auto simp: sys_read_def read_file_def canonicalize_target target_real_def split: node.splits dest!: syscall_ok syscall_err)

lemma current_content_ok:
  assumes "current_content p w = (Ok c, w')" and "target_canon (files w) p"
  shows "target_real (files w) p \<and> lookup (files w) p = map_option File c"
proof -
  obtain n w1 where m: "sys_metadata p w = (Ok n, w1)"
    using assms(1) by (auto simp: current_content_def io_bind_def split: prod.splits outcome.splits)
  then have n: "n = lookup (files w) p" "target_real (files w) p" and w1: "files w1 = files w"
    using assms(2) by (auto simp: sys_metadata_def target_canon_def dest!: syscall_ok split: option.splits node.splits)
  show ?thesis
  proof (cases n)
    case None
    then show ?thesis using assms(1) m n by (auto simp: current_content_def io_bind_def io_return_def)
  next
    case (Some x)
    then have x: "\<forall>a t. x \<noteq> Symlink a t" and rc: "read_content p w1 = (Ok c, w')"
      using assms(1) m by (auto simp: current_content_def io_bind_def io_throw_def split: node.splits)
    then show ?thesis
      using sys_read_target [of p w1 _ _ x] n Some w1
      by (auto simp: read_content_def read_string_unlocked_def split: prod.splits outcome.splits sexp_error.splits io_kind.splits)
  qed
qed

lemma readonly_content [readonly_rules]: "readonly (read_content p)" "readonly (current_content p)"
proof -
  show *: "readonly (read_content p)"
    using readonly_calls(3) [of p] unfolding readonly_def read_content_def read_string_unlocked_def
    by (auto split: prod.splits outcome.splits sexp_error.splits io_kind.splits) (metis snd_conv)+
  show "readonly (current_content p)"
    unfolding current_content_def
    by (intro readonly_rules) (auto split: option.splits node.splits intro: readonly_rules *)
qed

lemma hoare_content:
  assumes "\<And>fs. P fs \<Longrightarrow> target_canon fs p" and "\<And>fs. P fs \<Longrightarrow> X fs"
  shows "hoare P (current_content p) (\<lambda>c fs. P fs \<and> target_real fs p \<and> lookup fs p = map_option File c) X"
  unfolding hoare_def
proof (intro allI impI)
  fix w :: world assume P: "P (files w)"
  obtain r w' where r: "current_content p w = (r, w')" by fastforce
  have "files w' = files w" using readonly_content(2) [of p] r by (auto simp: readonly_def) (metis snd_conv)
  then show "case current_content p w of (Ok x, w') \<Rightarrow> P (files w') \<and> target_real (files w') p \<and> lookup (files w') p = map_option File x
    | (Err _, w') \<Rightarrow> X (files w') | (Killed, w') \<Rightarrow> X (files w')"
    using P assms current_content_ok [of p w] r by (auto split: outcome.splits)
qed

section \<open>What a commit can leave behind\<close>

definition targets :: "path \<Rightarrow> journal_entry list \<Rightarrow> path set" where
  "targets base es = (\<lambda>e. base @ je_path e) ` set es"

text \<open>Outside the targets and the journal, only new scratch files.\<close>

definition tx_frame :: "tree \<Rightarrow> path set \<Rightarrow> tree \<Rightarrow> bool" where
  "tx_frame fs0 T fs \<longleftrightarrow> (\<forall>q. q \<notin> T \<longrightarrow> lookup fs q = lookup fs0 q \<or> lookup fs0 q = None \<and> is_temp q)"

definition tx_untouched :: "tree \<Rightarrow> path \<Rightarrow> path \<Rightarrow> journal_entry list \<Rightarrow> tree \<Rightarrow> bool" where
  "tx_untouched fs0 base jp es fs \<longleftrightarrow>
     tx_frame fs0 (targets base es) fs \<and> lookup fs jp = lookup fs0 jp \<and> (\<forall>p \<in> targets base es. lookup fs p = lookup fs0 p)"

text \<open>The recorded before images are the contents the targets had, in real directories.\<close>

definition tx_images :: "tree \<Rightarrow> path \<Rightarrow> journal_entry list \<Rightarrow> bool" where
  "tx_images fs0 base es \<longleftrightarrow> (\<forall>e \<in> set es. target_real fs0 (base @ je_path e) \<and>
     lookup fs0 (base @ je_path e) = map_option File (je_expected e))"

definition tx_logged :: "tree \<Rightarrow> path \<Rightarrow> path \<Rightarrow> string \<Rightarrow> journal_entry list \<Rightarrow> tree \<Rightarrow> bool" where
  "tx_logged fs0 base jp txt es fs \<longleftrightarrow>
     tx_frame fs0 (insert jp (targets base es)) fs \<and> lookup fs jp = Some (File txt) \<and>
     tx_images fs0 base es \<and>
     (\<forall>e \<in> set es. lookup fs (base @ je_path e) = lookup fs0 (base @ je_path e) \<or>
        lookup fs (base @ je_path e) = Some (File (je_replacement e)))"

definition tx_done :: "tree \<Rightarrow> path \<Rightarrow> path \<Rightarrow> journal_entry list \<Rightarrow> tree \<Rightarrow> bool" where
  "tx_done fs0 base jp es fs \<longleftrightarrow>
     tx_frame fs0 (insert jp (targets base es)) fs \<and> lookup fs jp = None \<and> tx_images fs0 base es \<and>
     (\<forall>e \<in> set es. lookup fs (base @ je_path e) = Some (File (je_replacement e)))"

text \<open>What normalising gives: distinct targets with canonical parents; and the names the transaction
  makes up are not the caller's.\<close>

definition tx_targets_ok :: "tree \<Rightarrow> path \<Rightarrow> path \<Rightarrow> journal_entry list \<Rightarrow> bool" where
  "tx_targets_ok fs0 base jp es \<longleftrightarrow> distinct (map je_path es) \<and> jp \<noteq> [] \<and> \<not> is_temp jp \<and> lookup fs0 jp = None \<and>
     (\<forall>e \<in> set es. target_canon fs0 (base @ je_path e) \<and> je_path e \<noteq> [] \<and>
        \<not> is_temp (base @ je_path e) \<and> base @ je_path e \<noteq> jp)"

text \<open>After some of the entries have been applied.\<close>

definition tx_partial :: "tree \<Rightarrow> path \<Rightarrow> path \<Rightarrow> string \<Rightarrow> journal_entry list \<Rightarrow> journal_entry set \<Rightarrow> tree \<Rightarrow> bool" where
  "tx_partial fs0 base jp txt es D fs \<longleftrightarrow> tx_logged fs0 base jp txt es fs \<and> lookup fs0 jp = None \<and>
     (\<forall>e \<in> D. lookup fs (base @ je_path e) = Some (File (je_replacement e))) \<and> D \<subseteq> set es"

lemma readonly_open_lock [readonly_rules]: "readonly (open_document_lock p)"
  unfolding open_document_lock_def
  by (intro readonly_rules) (auto split: option.splits intro!: readonly_rules readonly_syscall)

lemma readonly_locks [readonly_rules]: "readonly (lock_entries base es)"
  by (induction es) (auto intro!: readonly_rules)

lemma readonly_entries_closed [readonly_rules]: "readonly (ensure_entries_are_closed base es)"
  unfolding ensure_entries_are_closed_def by (intro readonly_rules)

lemma real_dir_frame:
  assumes "real_dir fs0 d" and "\<And>q. lookup fs0 q = Some Dir \<Longrightarrow> lookup fs q = Some Dir"
  shows "real_dir fs d"
  using assms by (auto simp: real_dir_def)

lemma target_real_frame:
  assumes "target_real fs0 p" and "\<And>q. lookup fs0 q = Some Dir \<Longrightarrow> lookup fs q = Some Dir"
  shows "target_real fs p"
  using assms real_dir_frame by (auto simp: target_real_def)

lemma tx_partial_dirs:
  assumes "tx_partial fs0 base jp txt es D fs" "lookup fs0 q = Some Dir"
  shows "lookup fs q = Some Dir"
proof -
  have "q \<noteq> jp" "q \<notin> targets base es"
    using assms by (auto simp: tx_partial_def tx_logged_def tx_images_def targets_def)
  then show ?thesis using assms by (auto simp: tx_partial_def tx_logged_def tx_frame_def)
qed

text \<open>The loop both verifications are: every target has the wanted content.\<close>

lemma hoare_check_targets:
  fixes es :: "journal_entry list"
  assumes "\<And>fs e. P fs \<Longrightarrow> e \<in> set es \<Longrightarrow> target_canon fs (base @ je_path e)" and PX: "\<And>fs. P fs \<Longrightarrow> X fs"
  shows "hoare P (io_for (\<lambda>e. io_bind (current_content (base @ je_path e)) (\<lambda>c. io_when (c \<noteq> wanted e) (err e))) es)
    (\<lambda>_ fs. P fs \<and> (\<forall>e \<in> set es. target_real fs (base @ je_path e) \<and> lookup fs (base @ je_path e) = map_option File (wanted e))) X"
proof -
  define I where "I = (\<lambda>ds fs. P fs \<and> (\<forall>e \<in> set ds. target_real fs (base @ je_path e) \<and>
      lookup fs (base @ je_path (e :: journal_entry)) = map_option File (wanted e)))"
  have "hoare (I []) (io_for (\<lambda>e. io_bind (current_content (base @ je_path e)) (\<lambda>c. io_when (c \<noteq> wanted e) (err e))) es) (\<lambda>_. I es) X"
  proof (rule hoare_for_prefix)
    fix ds e rest assume "es = ds @ e # rest"
    then have "hoare (I ds) (current_content (base @ je_path e))
        (\<lambda>c fs. I ds fs \<and> target_real fs (base @ je_path e) \<and> lookup fs (base @ je_path e) = map_option File c) X"
      by (intro hoare_content) (use assms in \<open>auto simp: I_def\<close>)
    moreover have "hoare (\<lambda>fs. I ds fs \<and> target_real fs (base @ je_path e) \<and> lookup fs (base @ je_path e) = map_option File c)
        (io_when (c \<noteq> wanted e) (err e)) (\<lambda>_. I (ds @ [e])) X" for c
      by (rule hoare_conseq [OF hoare_when [where P = "\<lambda>fs. I ds fs \<and> target_real fs (base @ je_path e) \<and> lookup fs (base @ je_path e) = map_option File c" and X = X]])
        (use PX in \<open>auto simp: I_def\<close>)
    ultimately show "hoare (I ds) (io_bind (current_content (base @ je_path e)) (\<lambda>c. io_when (c \<noteq> wanted e) (err e)))
        (\<lambda>_. I (ds @ [e])) X"
      by (rule hoare_bind)
  qed
  then show ?thesis by (rule hoare_conseq) (auto simp: I_def)
qed

lemma verify_before_spec:
  assumes "\<And>fs e. P fs \<Longrightarrow> e \<in> set es \<Longrightarrow> target_canon fs (base @ je_path e)" and "\<And>fs. P fs \<Longrightarrow> X fs"
  shows "hoare P (verify_before_images base jp es)
    (\<lambda>_ fs. P fs \<and> (\<forall>e \<in> set es. target_real fs (base @ je_path e) \<and> lookup fs (base @ je_path e) = map_option File (je_expected e))) X"
  unfolding verify_before_images_def by (rule hoare_check_targets) (use assms in auto)

lemma verify_after_spec:
  assumes "\<And>fs e. P fs \<Longrightarrow> e \<in> set es \<Longrightarrow> target_canon fs (base @ je_path e)" and "\<And>fs. P fs \<Longrightarrow> X fs"
  shows "hoare P (verify_after_images base jp es)
    (\<lambda>_ fs. P fs \<and> (\<forall>e \<in> set es. target_real fs (base @ je_path e) \<and> lookup fs (base @ je_path e) = map_option File (Some (je_replacement e)))) X"
  unfolding verify_after_images_def by (rule hoare_check_targets) (use assms in auto)

lemma write_effect_apply:
  assumes "env_ok E" "base @ je_path e \<noteq> []" "\<not> is_temp (base @ je_path e)"
  shows "write_effect fs0 (base @ je_path e) (je_replacement e) (apply_entry E base e)"
  unfolding apply_entry_def using assms by (auto intro: write_atomic_effect write_new_atomic_effect)

text \<open>One write inside a transaction: from any tree of \<open>P\<close>, what is kept and the new or old content.\<close>

lemma hoare_write:
  assumes "\<And>fs0. write_effect fs0 p c m"
    and "\<And>fs0 fs. P fs0 \<Longrightarrow> kept fs0 fs p \<Longrightarrow> lookup fs p = Some (File c) \<Longrightarrow> Q fs"
    and "\<And>fs0 fs. P fs0 \<Longrightarrow> kept fs0 fs p \<Longrightarrow> lookup fs p = lookup fs0 p \<or> lookup fs p = Some (File c) \<Longrightarrow> X fs"
  shows "hoare P m (\<lambda>_. Q) X"
  unfolding hoare_def
proof (intro allI impI)
  fix w :: world assume P: "P (files w)"
  have "case m w of (Ok x, w') \<Rightarrow> kept (files w) (files w') p \<and> lookup (files w') p = Some (File c)
    | (Err _, w') \<Rightarrow> kept (files w) (files w') p \<and> (lookup (files w') p = lookup (files w) p \<or> lookup (files w') p = Some (File c))
    | (Killed, w') \<Rightarrow> kept (files w) (files w') p \<and> (lookup (files w') p = lookup (files w) p \<or> lookup (files w') p = Some (File c))"
    using assms(1) [of "files w"] unfolding write_effect_def hoare_def by simp
  then show "case m w of (Ok x, w') \<Rightarrow> Q (files w') | (Err _, w') \<Rightarrow> X (files w') | (Killed, w') \<Rightarrow> X (files w')"
    using assms(2,3) P by (auto split: prod.splits outcome.splits)
qed

lemma tx_partial_apply:
  assumes P: "tx_partial fs0 base jp txt es D fs1" and e: "e \<in> set es" and ok: "tx_targets_ok fs0 base jp es"
    and k: "kept fs1 fs (base @ je_path e)"
    and new: "lookup fs (base @ je_path e) = lookup fs1 (base @ je_path e) \<or> lookup fs (base @ je_path e) = Some (File (je_replacement e))"
  shows "tx_partial fs0 base jp txt es D fs"
    and "lookup fs (base @ je_path e) = Some (File (je_replacement e)) \<Longrightarrow> tx_partial fs0 base jp txt es (insert e D) fs"
proof -
  let ?p = "base @ je_path e"
  have other: "lookup fs q = lookup fs1 q" if "q \<noteq> ?p" "\<not> is_temp q" for q
    using k that by (auto simp: kept_def)
  have tgt: "lookup fs (base @ je_path d) = lookup fs1 (base @ je_path d)" if "d \<in> set es" "je_path d \<noteq> je_path e" for d
    using other ok that by (auto simp: tx_targets_ok_def)
  have jp: "lookup fs jp = lookup fs1 jp" using other ok e by (auto simp: tx_targets_ok_def)
  have same: "d = e" if "d \<in> set es" "je_path d = je_path e" for d
    using ok that e unfolding tx_targets_ok_def distinct_map by (blast dest: inj_onD)
  have fr: "tx_frame fs0 (insert jp (targets base es)) fs"
    using P k e unfolding tx_frame_def tx_partial_def tx_logged_def kept_def targets_def
    by (metis (no_types, lifting) image_eqI insert_iff)
  have img: "lookup fs (base @ je_path d) = lookup fs1 (base @ je_path d) \<or>
      lookup fs (base @ je_path d) = Some (File (je_replacement d))" if d: "d \<in> set es" for d
    using new tgt [OF d] same [OF d] by (cases "je_path d = je_path e") auto
  have log: "tx_logged fs0 base jp txt es fs"
    unfolding tx_logged_def
  proof (intro conjI ballI fr)
    show "lookup fs jp = Some (File txt)" using P jp by (simp add: tx_partial_def tx_logged_def)
    show "tx_images fs0 base es" using P by (simp add: tx_partial_def tx_logged_def)
    fix d assume d: "d \<in> set es"
    show "lookup fs (base @ je_path d) = lookup fs0 (base @ je_path d) \<or> lookup fs (base @ je_path d) = Some (File (je_replacement d))"
      using P d img [OF d] unfolding tx_partial_def tx_logged_def by metis
  qed
  have D: "lookup fs (base @ je_path d) = Some (File (je_replacement d))" if "d \<in> D" for d
    using P img that unfolding tx_partial_def by (metis subsetD)
  show "tx_partial fs0 base jp txt es D fs"
    using P log D unfolding tx_partial_def by blast
  show "tx_partial fs0 base jp txt es (insert e D) fs" if "lookup fs ?p = Some (File (je_replacement e))"
    using P log D e that unfolding tx_partial_def by blast
qed

text \<open>Applying entries of a logged transaction, in any number and order.\<close>

lemma apply_entries_spec:
  assumes E: "env_ok E" and ok: "tx_targets_ok fs0 base jp es" and ds: "set ds \<subseteq> set es"
  shows "hoare (tx_partial fs0 base jp txt es D) (io_for (apply_entry E base) ds)
    (\<lambda>_. tx_partial fs0 base jp txt es (D \<union> set ds)) (tx_logged fs0 base jp txt es)"
proof -
  have "hoare (tx_partial fs0 base jp txt es (D \<union> set [])) (io_for (apply_entry E base) ds)
    (\<lambda>_. tx_partial fs0 base jp txt es (D \<union> set ds)) (tx_logged fs0 base jp txt es)"
  proof (rule hoare_for_prefix)
    fix xs e ys assume "ds = xs @ e # ys"
    then have e: "e \<in> set es" using ds by auto
    then have "write_effect fs (base @ je_path e) (je_replacement e) (apply_entry E base e)" for fs
      using ok by (intro write_effect_apply E) (auto simp: tx_targets_ok_def)
    then show "hoare (tx_partial fs0 base jp txt es (D \<union> set xs)) (apply_entry E base e)
        (\<lambda>_. tx_partial fs0 base jp txt es (D \<union> set (xs @ [e]))) (tx_logged fs0 base jp txt es)"
    proof (rule hoare_write)
      fix fs1 fs assume P: "tx_partial fs0 base jp txt es (D \<union> set xs) fs1" and k: "kept fs1 fs (base @ je_path e)"
      show "tx_partial fs0 base jp txt es (D \<union> set (xs @ [e])) fs" if "lookup fs (base @ je_path e) = Some (File (je_replacement e))"
        using tx_partial_apply(2) [OF P e ok k _ that] that by simp
      show "tx_logged fs0 base jp txt es fs"
        if "lookup fs (base @ je_path e) = lookup fs1 (base @ je_path e) \<or> lookup fs (base @ je_path e) = Some (File (je_replacement e))"
        using tx_partial_apply(1) [OF P e ok k that] by (simp add: tx_partial_def)
    qed
  qed
  then show ?thesis by simp
qed

lemma tx_partial_target_real:
  assumes "tx_partial fs0 base jp txt es D fs" "e \<in> set es"
  shows "target_real fs (base @ je_path e)"
proof (rule target_real_frame)
  show "target_real fs0 (base @ je_path e)" using assms by (simp add: tx_partial_def tx_logged_def tx_images_def)
qed (rule tx_partial_dirs [OF assms(1)])

lemma persist_spec:
  assumes E: "env_ok E" and ok: "tx_targets_ok fs0 base jp es"
    and real: "tx_images fs0 base es"
  shows "hoare (\<lambda>fs. fs = fs0) (persist_journal E jp j) (\<lambda>_. tx_partial fs0 base jp (to_json E j) es {})
    (\<lambda>fs. tx_untouched fs0 base jp es fs \<or> tx_logged fs0 base jp (to_json E j) es fs)"
proof -
  have eff: "write_effect fs jp (to_json E j) (persist_journal E jp j)" for fs
    unfolding persist_journal_def using ok by (intro write_new_atomic_effect E) (auto simp: tx_targets_ok_def)
  show ?thesis
  proof (rule hoare_write [OF eff])
    fix fs1 fs assume "fs1 = fs0" and "kept fs1 fs jp"
    then have k: "lookup fs q = lookup fs0 q \<or> lookup fs0 q = None \<and> is_temp q" if "q \<noteq> jp" for q
      using that by (auto simp: kept_def)
    have tgt: "lookup fs (base @ je_path e) = lookup fs0 (base @ je_path e)" if "e \<in> set es" for e
      using k ok that by (auto simp: tx_targets_ok_def)
    have log: "tx_logged fs0 base jp (to_json E j) es fs" if "lookup fs jp = Some (File (to_json E j))"
      using k tgt that real unfolding tx_logged_def tx_frame_def by auto
    show "tx_partial fs0 base jp (to_json E j) es {} fs" if "lookup fs jp = Some (File (to_json E j))"
      using log [OF that] ok by (auto simp: tx_partial_def tx_targets_ok_def)
    show "tx_untouched fs0 base jp es fs \<or> tx_logged fs0 base jp (to_json E j) es fs"
      if "lookup fs jp = lookup fs1 jp \<or> lookup fs jp = Some (File (to_json E j))"
    proof (cases "lookup fs jp = lookup fs1 jp")
      case True
      then have "lookup fs q = lookup fs0 q \<or> lookup fs0 q = None \<and> is_temp q" for q
        using k \<open>fs1 = fs0\<close> by (cases "q = jp") auto
      then show ?thesis using tgt \<open>fs1 = fs0\<close> True unfolding tx_untouched_def tx_frame_def targets_def by auto
    qed (use log that in blast)
  qed
qed

lemma remove_journal_spec:
  assumes ok: "tx_targets_ok fs0 base jp es"
  shows "hoare (tx_partial fs0 base jp txt es (set es)) (remove_journal jp)
    (\<lambda>_. tx_done fs0 base jp es) (\<lambda>fs. tx_logged fs0 base jp txt es fs \<or> tx_done fs0 base jp es fs)"
proof -
  have "hoare (tx_partial fs0 base jp txt es (set es)) (sys_remove jp)
    (\<lambda>_. tx_done fs0 base jp es) (\<lambda>fs. tx_logged fs0 base jp txt es fs \<or> tx_done fs0 base jp es fs)"
    unfolding sys_remove_def
    by (rule hoare_syscall)
       (use ok in \<open>auto simp: tx_partial_def tx_logged_def tx_done_def tx_frame_def tx_targets_ok_def\<close>)
  moreover have "hoare (tx_done fs0 base jp es) (sync_parent_directory (butlast jp)) (\<lambda>_. tx_done fs0 base jp es)
     (\<lambda>fs. tx_logged fs0 base jp txt es fs \<or> tx_done fs0 base jp es fs)"
    unfolding sync_parent_directory_def by (rule readonly_hoare) (auto intro: readonly_rules)
  ultimately show ?thesis unfolding remove_journal_def by (rule hoare_then)
qed

text \<open>The part recovery shares with a commit: apply what is outstanding, verify, drop the journal.\<close>

lemma complete_spec:
  assumes E: "env_ok E" and ok: "tx_targets_ok fs0 base jp es" and ds: "set ds \<subseteq> set es"
  shows "hoare (tx_partial fs0 base jp txt es D)
    (io_then (io_for (apply_entry E base) ds) (io_then (verify_after_images base jp es) (io_then (remove_journal jp) (io_return r))))
    (\<lambda>r' fs. r' = r \<and> tx_done fs0 base jp es fs) (\<lambda>fs. tx_logged fs0 base jp txt es fs \<or> tx_done fs0 base jp es fs)"
    (is "hoare _ _ ?Q ?X")
proof (rule hoare_then)
  let ?D = "D \<union> set ds"
  show "hoare (tx_partial fs0 base jp txt es D) (io_for (apply_entry E base) ds) (\<lambda>_. tx_partial fs0 base jp txt es ?D) ?X"
    by (rule hoare_conseq [OF apply_entries_spec [OF E ok ds]]) auto
  have log: "tx_partial fs0 base jp txt es ?D fs \<Longrightarrow> ?X fs" for fs by (simp add: tx_partial_def)
  have "hoare (tx_partial fs0 base jp txt es ?D) (verify_after_images base jp es) (\<lambda>_. tx_partial fs0 base jp txt es (set es)) ?X"
    by (rule hoare_conseq [OF verify_after_spec [where P = "tx_partial fs0 base jp txt es ?D" and X = ?X]])
       (auto simp: target_canon_def tx_partial_target_real log, auto simp: tx_partial_def)
  moreover have "hoare (tx_done fs0 base jp es) (io_return r) ?Q ?X" by (rule hoare_pre [OF hoare_return]) simp
  ultimately show "hoare (tx_partial fs0 base jp txt es ?D)
      (io_then (verify_after_images base jp es) (io_then (remove_journal jp) (io_return r))) ?Q ?X"
    by (intro hoare_then [OF _ hoare_then [OF remove_journal_spec [OF ok]]])
qed

lemma commit_entries_atomic:
  assumes E: "env_ok E" and ok: "tx_targets_ok fs0 base (journal_path base tid) es"
  defines "jp \<equiv> journal_path base tid"
    and "txt \<equiv> to_json E \<lparr>version = JOURNAL_VERSION, j_id = tid, entries = es\<rparr>"
  shows "hoare (\<lambda>fs. fs = fs0) (commit_entries E base tid es)
    (\<lambda>r fs. r = \<lparr>tc_id = tid, tc_files = length es\<rparr> \<and> tx_done fs0 base jp es fs)
    (\<lambda>fs. tx_untouched fs0 base jp es fs \<or> tx_logged fs0 base jp txt es fs \<or> tx_done fs0 base jp es fs)"
    (is "hoare ?P _ ?Q ?X")
proof -
  let ?V = "\<lambda>fs. fs = fs0 \<and> (\<forall>e \<in> set es. target_real fs (base @ je_path e) \<and> lookup fs (base @ je_path e) = map_option File (je_expected e))"
  have PX: "?P fs \<Longrightarrow> ?X fs" for fs by (simp add: tx_untouched_def tx_frame_def)
  have lk: "hoare ?P (lock_entries base es) (\<lambda>_. ?P) ?X" by (rule readonly_hoare [OF readonly_locks PX])
  have cl: "hoare ?P (ensure_entries_are_closed base es) (\<lambda>_. ?P) ?X" by (rule readonly_hoare [OF readonly_entries_closed PX])
  have vb: "hoare ?P (verify_before_images base jp es) (\<lambda>_. ?V) ?X"
    by (rule verify_before_spec [OF _ PX]) (use ok in \<open>auto simp: tx_targets_ok_def\<close>)
  have pj: "hoare ?V (persist_journal E jp \<lparr>version = JOURNAL_VERSION, j_id = tid, entries = es\<rparr>) (\<lambda>_. tx_partial fs0 base jp txt es {}) ?X"
  proof (cases "?V fs0")
    case True
    then have real: "tx_images fs0 base es" by (simp add: tx_images_def)
    show ?thesis
      unfolding jp_def txt_def by (rule hoare_conseq [OF persist_spec [OF E ok real]]) auto
  qed (auto simp: hoare_def)
  have rest: "hoare (tx_partial fs0 base jp txt es {})
    (io_then (io_for (apply_entry E base) es) (io_then (verify_after_images base jp es) (io_then (remove_journal jp)
      (io_return \<lparr>tc_id = tid, tc_files = length es\<rparr>)))) ?Q ?X"
    by (rule hoare_conseq [OF complete_spec [OF E ok order.refl, folded jp_def]]) auto
  show ?thesis
    unfolding commit_entries_def Let_def jp_def [symmetric]
    by (rule hoare_bind [OF lk hoare_then [OF cl hoare_then [OF vb hoare_then [OF pj rest]]]])
qed

section \<open>Normalised targets\<close>

definition target_of :: "tree \<Rightarrow> path \<Rightarrow> pathbuf \<Rightarrow> path option" where
  "target_of fs base p = (case file_name (joined base p) of None \<Rightarrow> None
     | Some name \<Rightarrow> (case canonicalize fs (butlast (joined base p)) of None \<Rightarrow> None
         | Some q \<Rightarrow> if prefix base q then Some (drop (length base) (q @ [name])) else None))"

definition entry_of :: "tree \<Rightarrow> path \<Rightarrow> file_transition \<Rightarrow> journal_entry" where
  "entry_of fs base t = \<lparr>je_path = the (target_of fs base (ft_path t)), je_expected = ft_expected t, je_replacement = ft_replacement t\<rparr>"

text \<open>The entries of a transaction; none if a target has no place under \<open>base\<close> or occurs twice.\<close>

definition plan :: "tree \<Rightarrow> path \<Rightarrow> file_transition list \<Rightarrow> journal_entry list" where
  "plan fs base ts =
     (let es = map (entry_of fs base) ts
      in if list_all (\<lambda>t. target_of fs base (ft_path t) \<noteq> None) ts \<and> distinct (map je_path es) then sort_key je_path es else [])"

lemma target_of_Some:
  assumes "target_of fs base p = Some rel"
  shows "target_canon fs (base @ rel)" "rel \<noteq> []" "last rel = last (joined base p)"
proof -
  obtain q name where n: "file_name (joined base p) = Some name" and q: "canonicalize fs (butlast (joined base p)) = Some q"
      "prefix base q" "rel = drop (length base) (q @ [name])"
    using assms by (auto simp: target_of_def split: option.splits if_splits)
  have name: "name \<noteq> ''..''" "name = last (joined base p)" using n by (auto simp: file_name_def split: if_splits)
  from q obtain r where r: "q = base @ r" by (auto simp: prefix_def)
  then have rel: "rel = r @ [name]" using q by simp
  show "target_canon fs (base @ rel)"
    using canonicalize_canon [OF q(1)] r name rel by (simp add: target_canon_def target_real_def butlast_append)
  show "rel \<noteq> []" "last rel = last (joined base p)" using rel name by simp_all
qed

text \<open>For computations that only look, it is enough to follow a normal return.\<close>

lemma io_bind_ok:
  assumes "io_bind m k w = (Ok y, w')"
  obtains x w1 where "m w = (Ok x, w1)" "k x w1 = (Ok y, w')"
  using assms by (auto simp: io_bind_def split: prod.splits outcome.splits)

lemma io_then_ok:
  assumes "io_then m k w = (Ok y, w')"
  obtains w1 where "m w = (Ok (), w1)" "k w1 = (Ok y, w')"
  using assms unfolding io_then_def by (auto elim: io_bind_ok)

lemma readonly_files: "readonly m \<Longrightarrow> m w = (r, w') \<Longrightarrow> files w' = files w"
  unfolding readonly_def by (metis snd_conv)

lemma hoare_readonly:
  assumes "readonly m" and "\<And>w x w'. P (files w) \<Longrightarrow> m w = (Ok x, w') \<Longrightarrow> Q x (files w)" and "\<And>fs. P fs \<Longrightarrow> X fs"
  shows "hoare P m Q X"
  unfolding hoare_def
proof (intro allI impI)
  fix w :: world assume "P (files w)"
  then show "case m w of (Ok x, w') \<Rightarrow> Q x (files w') | (Err _, w') \<Rightarrow> X (files w') | (Killed, w') \<Rightarrow> X (files w')"
    using assms(2,3) readonly_files [OF assms(1)] by (auto split: prod.splits outcome.splits)
qed

lemma sys_canonicalize_ok: "sys_canonicalize p w = (Ok q, w') \<Longrightarrow> canonicalize (files w) p = Some q \<and> files w' = files w"
  unfolding sys_canonicalize_def by (auto dest!: syscall_ok split: option.splits)

lemma readonly_normalize_target [readonly_rules]: "readonly (normalize_target base p)"
  unfolding normalize_target_def Let_def
  by (auto split: option.splits intro!: readonly_rules)

lemma readonly_normalize_loop [readonly_rules]: "readonly (normalize_loop base seen ts)"
  by (induction ts arbitrary: seen) (auto intro!: readonly_rules)

lemma readonly_normalize [readonly_rules]: "readonly (normalize_transitions base ts)"
  unfolding normalize_transitions_def by (intro readonly_rules)

lemma readonly_validate_loop [readonly_rules]: "readonly (validate_loop base seen es)"
  by (induction es arbitrary: seen) (auto intro!: readonly_rules)

lemma readonly_validate [readonly_rules]: "readonly (validate_journal_entries base es)"
  unfolding validate_journal_entries_def by (intro readonly_rules)

lemma readonly_validate_id [readonly_rules]: "readonly (validate_transaction_id tid)"
  unfolding validate_transaction_id_def by (intro readonly_rules)

lemma readonly_read_journal [readonly_rules]: "readonly (read_validated_journal E base p)"
  unfolding read_validated_journal_def
  by (intro readonly_bind readonly_calls) (auto split: option.splits node.splits intro!: readonly_rules)

lemma readonly_active [readonly_rules]: "readonly (active_journal_paths base)"
  unfolding active_journal_paths_def by (intro readonly_rules)

lemma readonly_canonical [readonly_rules]: "readonly (canonical_directory dir)"
  unfolding canonical_directory_def by (intro readonly_rules)

lemma readonly_pending [readonly_rules]: "readonly (collect_pending base jp es)"
  by (induction es) (auto intro!: readonly_rules)

lemma normalize_target_ok:
  assumes "normalize_target base p w = (Ok rel, w')"
  shows "target_of (files w) base p = Some rel"
  using assms unfolding normalize_target_def Let_def
  by (auto simp: target_of_def io_throw_def io_return_def elim!: io_bind_ok dest!: sys_canonicalize_ok split: option.splits if_splits)

lemma normalize_loop_ok:
  assumes "normalize_loop base seen ts w = (Ok es, w')"
  shows "es = map (entry_of (files w) base) ts \<and> distinct (map je_path es) \<and> je_path ` set es \<inter> set seen = {} \<and>
       (\<forall>t \<in> set ts. target_of (files w) base (ft_path t) \<noteq> None)"
  using assms
proof (induction ts arbitrary: seen es w w')
  case Nil
  then show ?case by (simp add: io_return_def)
next
  case (Cons t ts)
  from Cons.prems obtain rel w1 where rel: "normalize_target base (ft_path t) w = (Ok rel, w1)" "rel \<notin> set seen"
      and k: "io_bind (normalize_loop base (rel # seen) ts) (\<lambda>es.
         io_return (\<lparr>je_path = rel, je_expected = ft_expected t, je_replacement = ft_replacement t\<rparr> # es)) w1 = (Ok es, w')"
    by (auto elim!: io_bind_ok simp: io_throw_def split: if_splits)
  then have w1: "files w1 = files w" and t: "target_of (files w) base (ft_path t) = Some rel"
    by (auto intro: readonly_files [OF readonly_normalize_target] normalize_target_ok)
  from k obtain es' w2 where es': "normalize_loop base (rel # seen) ts w1 = (Ok es', w2)"
      and es: "es = \<lparr>je_path = rel, je_expected = ft_expected t, je_replacement = ft_replacement t\<rparr> # es'"
    by (auto elim!: io_bind_ok simp: io_return_def)
  note ih = Cons.IH [OF es']
  show ?case
  proof (intro conjI)
    show "es = map (entry_of (files w) base) (t # ts)" using ih es t w1 by (simp add: entry_of_def)
    from ih have "je_path ` set es' \<inter> set (rel # seen) = {}" and dd: "distinct (map je_path es')" by blast+
    then have d: "rel \<notin> je_path ` set es'" "je_path ` set es' \<inter> set seen = {}" by auto
    show "distinct (map je_path es)" "je_path ` set es \<inter> set seen = {}" using es d dd rel by auto
    show "\<forall>t \<in> set (t # ts). target_of (files w) base (ft_path t) \<noteq> None" using ih t w1 by simp
  qed
qed

lemma normalize_ok:
  assumes "normalize_transitions base ts w = (Ok es, w')"
  shows "es = plan (files w) base ts \<and> distinct (map je_path es) \<and> (\<forall>t \<in> set ts. target_of (files w) base (ft_path t) \<noteq> None)"
proof -
  obtain es' w1 where "normalize_loop base [] ts w = (Ok es', w1)" "es = sort_key je_path es'"
    using assms by (auto simp: normalize_transitions_def io_throw_def io_return_def elim!: io_bind_ok split: if_splits)
  with normalize_loop_ok [of base "[]" ts w es' w1] show ?thesis
    by (auto simp: plan_def distinct_map list_all_iff Let_def)
qed

lemma validate_loop_ok:
  assumes "validate_loop base seen es w = (Ok u, w')"
  shows "distinct (map je_path es) \<and> je_path ` set es \<inter> set seen = {} \<and>
       (\<forall>e \<in> set es. target_of (files w) base (Abs (base @ je_path e)) = Some (je_path e))"
  using assms
proof (induction es arbitrary: seen w)
  case (Cons e es)
  from Cons.prems obtain w1 where e: "normalize_target base (Abs (base @ je_path e)) w = (Ok (je_path e), w1)" "je_path e \<notin> set seen"
      and k: "validate_loop base (je_path e # seen) es w1 = (Ok u, w')"
    by (auto elim!: io_bind_ok simp: io_throw_def split: if_splits)
  then have "files w1 = files w" "target_of (files w) base (Abs (base @ je_path e)) = Some (je_path e)"
    by (auto intro: readonly_files [OF readonly_normalize_target] normalize_target_ok)
  with Cons.IH [OF k] e show ?case by auto
qed simp

lemma io_when_ok: "io_when c e w = (Ok u, w') \<Longrightarrow> \<not> c \<and> w' = w"
  by (auto simp: io_when_def io_throw_def io_return_def split: if_splits)

lemma sys_metadata_ok: "sys_metadata p w = (Ok n, w') \<Longrightarrow> n = lookup (files w) p \<and> files w' = files w"
  unfolding sys_metadata_def by (auto dest!: syscall_ok split: option.splits node.splits)

text \<open>What a journal that passes the checks is.\<close>

definition valid_journal :: "'e tx_env_scheme \<Rightarrow> tree \<Rightarrow> path \<Rightarrow> path \<Rightarrow> journal \<Rightarrow> bool" where
  "valid_journal E fs base p j \<longleftrightarrow> (\<exists>s. lookup fs p = Some (File s) \<and> from_json E s = Some j) \<and>
     p = journal_path base (j_id j) \<and> valid_transaction_id (j_id j) \<and> version j = JOURNAL_VERSION \<and>
     entries j \<noteq> [] \<and> distinct (map je_path (entries j)) \<and>
     (\<forall>e \<in> set (entries j). target_of fs base (Abs (base @ je_path e)) = Some (je_path e))"

lemma read_validated_ok:
  assumes "read_validated_journal E base p w = (Ok j, w')" and "target_real (files w) p"
  shows "valid_journal E (files w) base p j"
proof -
  obtain n w1 where m: "sys_metadata p w = (Ok n, w1)"
      and k: "(case n of Some (File _) \<Rightarrow>
           io_bind (sys_read p) (\<lambda>source.
             case from_json E source of None \<Rightarrow> io_throw InvalidValue
               | Some j \<Rightarrow>
                   io_then (validate_transaction_id (j_id j))
                   (io_then (io_when (journal_path base (j_id j) \<noteq> p) InvalidValue)
                   (io_then (io_when (version j \<noteq> JOURNAL_VERSION) InvalidValue)
                   (io_then (validate_journal_entries base (entries j))
                     (io_return j)))))
       | None \<Rightarrow> io_throw (Io NotFound)
       | Some _ \<Rightarrow> io_throw InvalidValue) w1 = (Ok j, w')"
    using assms(1) unfolding read_validated_journal_def by (rule io_bind_ok)
  from m have n: "n = lookup (files w) p" "files w1 = files w" using sys_metadata_ok by auto
  from k obtain s where s: "n = Some (File s)"
    by (auto simp: io_throw_def split: option.splits node.splits)
  with k obtain source w2 j' where r: "sys_read p w1 = (Ok source, w2)" and j': "from_json E source = Some j'"
      and v: "io_then (validate_transaction_id (j_id j')) (io_then (io_when (journal_path base (j_id j') \<noteq> p) InvalidValue)
        (io_then (io_when (version j' \<noteq> JOURNAL_VERSION) InvalidValue)
        (io_then (validate_journal_entries base (entries j')) (io_return j')))) w2 = (Ok j, w')"
    by (auto simp: io_throw_def elim!: io_bind_ok split: option.splits)
  have src: "source = s" and w2: "files w2 = files w"
    using sys_read_target(1) [OF r, of "File s"] assms(2) n s readonly_files [OF readonly_calls(3) r] by auto
  from v obtain w3 where id: "valid_transaction_id (j_id j')" "journal_path base (j_id j') = p" "version j' = JOURNAL_VERSION"
      and e: "validate_journal_entries base (entries j') w2 = (Ok (), w3)" and j: "j = j'"
    unfolding validate_transaction_id_def by (auto elim!: io_then_ok dest!: io_when_ok simp: io_return_def)
  from e have "entries j' \<noteq> []" "validate_loop base [] (entries j') w2 = (Ok (), w3)"
    by (auto simp: validate_journal_entries_def io_throw_def split: if_splits)
  with validate_loop_ok [OF this(2)] show ?thesis
    using id j j' src s n w2 by (auto simp: valid_journal_def)
qed

lemma valid_journal_canon:
  assumes "valid_journal E fs base p j" "e \<in> set (entries j)"
  shows "target_canon fs (base @ je_path e)" "je_path e \<noteq> []"
  using assms target_of_Some [of fs base "Abs (base @ je_path e)" "je_path e"] by (auto simp: valid_journal_def)

section \<open>Recovery\<close>

lemma collect_pending_ok:
  assumes "collect_pending base jp es w = (Ok ps, w')" and "\<And>e. e \<in> set es \<Longrightarrow> target_canon (files w) (base @ je_path e)"
  shows "set ps \<subseteq> set es \<and> (\<forall>e \<in> set es. lookup (files w) (base @ je_path e) = Some (File (je_replacement e)) \<or>
     e \<in> set ps \<and> lookup (files w) (base @ je_path e) = map_option File (je_expected e))"
  using assms
proof (induction es arbitrary: ps w w')
  case Nil
  then show ?case by (simp add: io_return_def)
next
  case (Cons e es)
  from Cons.prems(1) obtain c w1 where c: "current_content (base @ je_path e) w = (Ok c, w1)"
      and k: "(if c = Some (je_replacement e) then collect_pending base jp es
       else if c = je_expected e then io_bind (collect_pending base jp es) (\<lambda>ps. io_return (e # ps))
       else io_throw (TransactionConflict (base @ je_path e) jp)) w1 = (Ok ps, w')"
    by (auto elim: io_bind_ok)
  have w1: "files w1 = files w" using readonly_files [OF readonly_content(2) c] .
  have e: "lookup (files w) (base @ je_path e) = map_option File c"
    using current_content_ok [OF c] Cons.prems(2) by simp
  have ih: "collect_pending base jp es w1 = (Ok qs, w2) \<Longrightarrow> set qs \<subseteq> set es \<and>
      (\<forall>e \<in> set es. lookup (files w) (base @ je_path e) = Some (File (je_replacement e)) \<or>
     e \<in> set qs \<and> lookup (files w) (base @ je_path e) = map_option File (je_expected e))" for qs w2
    using Cons.IH [of w1 qs w2] Cons.prems(2) w1 by simp
  show ?case
  proof (cases "c = Some (je_replacement e)")
    case True
    then show ?thesis using ih [of ps w'] k e by auto
  next
    case False
    then have ce: "c = je_expected e" and "io_bind (collect_pending base jp es) (\<lambda>ps. io_return (e # ps)) w1 = (Ok ps, w')"
      using k by (auto simp: io_throw_def split: if_splits)
    then obtain qs w2 where "collect_pending base jp es w1 = (Ok qs, w2)" "ps = e # qs"
      by (auto elim!: io_bind_ok simp: io_return_def)
    then show ?thesis using ih [of qs w2] e ce by auto
  qed
qed

text \<open>The targets are where a journal can complete them.\<close>

definition recoverable :: "tree \<Rightarrow> path \<Rightarrow> journal_entry list \<Rightarrow> bool" where
  "recoverable fs base es \<longleftrightarrow> (\<forall>e \<in> set es. lookup fs (base @ je_path e) \<in> {map_option File (je_expected e), Some (File (je_replacement e))})"

lemma target_real_journal: "real_dir fs base \<Longrightarrow> target_real fs (journal_path base tid)"
  by (simp add: target_real_def journal_path_def JOURNAL_PREFIX_def)

text \<open>Everything recovery does before it changes the tree.\<close>

definition recover_front :: "'e tx_env_scheme \<Rightarrow> path \<Rightarrow> path \<Rightarrow> (journal \<times> journal_entry list) io" where
  "recover_front E base jp = io_bind (read_validated_journal E base jp) (\<lambda>j.
     io_bind (lock_entries base (entries j)) (\<lambda>_.
       io_then (ensure_entries_are_closed base (entries j)) (io_bind (collect_pending base jp (entries j)) (\<lambda>ps. io_return (j, ps)))))"

lemma readonly_recover_front [readonly_rules]: "readonly (recover_front E base jp)"
  unfolding recover_front_def by (intro readonly_rules)

lemma recover_split:
  "recover_journal E base jp = io_bind (recover_front E base jp) (\<lambda>(j, pending).
     io_then (io_for (apply_entry E base) pending)
       (io_then (verify_after_images base jp (entries j))
       (io_then (remove_journal jp)
         (io_return \<lparr>ro_id = j_id j, completed_files = length pending\<rparr>))))"
  by (auto simp: recover_journal_def recover_front_def io_bind_def io_then_def io_return_def fun_eq_iff split: prod.splits outcome.splits)

lemma recover_front_ok:
  assumes "recover_front E base jp w = (Ok (j, ps), w')" and "target_real (files w) jp"
  shows "valid_journal E (files w) base jp j" and "set ps \<subseteq> set (entries j)" and "recoverable (files w) base (entries j)"
proof -
  obtain w1 w2 where v: "read_validated_journal E base jp w = (Ok j, w1)" and w2: "files w2 = files w1"
      and p: "collect_pending base jp (entries j) w2 = (Ok ps, w')"
    using assms(1) unfolding recover_front_def
    by (auto elim!: io_bind_ok io_then_ok simp: io_return_def)
       (metis readonly_files readonly_locks readonly_entries_closed)
  show vj: "valid_journal E (files w) base jp j" by (rule read_validated_ok [OF v assms(2)])
  have "files w1 = files w" using readonly_files [OF readonly_read_journal v] .
  then show "set ps \<subseteq> set (entries j)" "recoverable (files w) base (entries j)"
    using collect_pending_ok [OF p] valid_journal_canon(1) [OF vj] w2 by (auto simp: recoverable_def)
qed

lemma recover_divergent:
  assumes j: "lookup (files w) (journal_path base tid) = Some (File s)" "from_json E s = Some j" and base: "real_dir (files w) base"
    and no: "\<not> recoverable (files w) base (entries j)"
  shows "fst (recover_journal E base (journal_path base tid) w) \<noteq> Ok r"
    and "files (snd (recover_journal E base (journal_path base tid) w)) = files w"
proof -
  let ?jp = "journal_path base tid"
  obtain q w' where fw: "recover_front E base ?jp w = (q, w')" by fastforce
  have nok: "q \<noteq> Ok x" for x
  proof
    assume x: "q = Ok x"
    obtain j' ps where jps: "x = (j', ps)" by fastforce
    note f = recover_front_ok [OF _ target_real_journal [OF base], of E base tid j' ps w']
    then have "j' = j" using j fw x jps by (auto simp: valid_journal_def)
    then show False using f(3) fw x jps no by simp
  qed
  have "files w' = files w" using readonly_files [OF readonly_recover_front fw] .
  then show "fst (recover_journal E base ?jp w) \<noteq> Ok r" "files (snd (recover_journal E base ?jp w)) = files w"
    using fw nok unfolding recover_split by (auto simp: io_bind_def split: outcome.splits)
qed

lemma recover_logged:
  assumes E: "env_ok E" and ok: "tx_targets_ok fs0 base jp es" and base: "real_dir fs0 base" and jp: "jp = journal_path base tid"
    and codec: "from_json E txt = Some \<lparr>version = JOURNAL_VERSION, j_id = tid, entries = es\<rparr>"
  shows "hoare (tx_logged fs0 base jp txt es) (recover_journal E base jp)
    (\<lambda>r fs. ro_id r = tid \<and> tx_done fs0 base jp es fs) (\<lambda>fs. tx_logged fs0 base jp txt es fs \<or> tx_done fs0 base jp es fs)"
    (is "hoare ?P _ ?Q ?X")
proof -
  have part: "?P fs \<longleftrightarrow> tx_partial fs0 base jp txt es {} fs" for fs
    using ok by (auto simp: tx_partial_def tx_targets_ok_def)
  have front: "hoare ?P (recover_front E base jp)
      (\<lambda>(j, ps) fs. ?P fs \<and> j = \<lparr>version = JOURNAL_VERSION, j_id = tid, entries = es\<rparr> \<and> set ps \<subseteq> set es) ?X"
  proof (rule hoare_readonly [OF readonly_recover_front])
    fix w w' :: world and x assume P: "?P (files w)" and x: "recover_front E base jp w = (Ok x, w')"
    have "real_dir (files w) base"
      using base by (rule real_dir_frame) (use tx_partial_dirs P part in blast)
    then have rjp: "target_real (files w) jp" unfolding jp by (rule target_real_journal)
    show "(case x of (j, ps) \<Rightarrow> \<lambda>fs. ?P fs \<and> j = \<lparr>version = JOURNAL_VERSION, j_id = tid, entries = es\<rparr> \<and> set ps \<subseteq> set es) (files w)"
    proof (cases x)
      case (Pair j ps)
      note f = recover_front_ok [OF x [unfolded Pair] rjp]
      then have "j = \<lparr>version = JOURNAL_VERSION, j_id = tid, entries = es\<rparr>"
        using P codec by (auto simp: valid_journal_def tx_logged_def)
      then show ?thesis using Pair P f(2) by simp
    qed
  qed simp
  show ?thesis
    unfolding recover_split
  proof (rule hoare_bind [OF front], goal_cases)
    case (1 x)
    obtain j ps where x: "x = (j, ps)" by fastforce
    show ?case
    proof (cases "j = \<lparr>version = JOURNAL_VERSION, j_id = tid, entries = es\<rparr> \<and> set ps \<subseteq> set es")
      case True
      then have sub: "set ps \<subseteq> set es" and j: "entries j = es" "j_id j = tid" by simp_all
      show ?thesis
        unfolding x prod.case j
        by (intro hoare_conseq [OF complete_spec [OF E ok sub, of "txt" "{}"]]) (auto simp: part)
    qed (auto simp: x hoare_def)
  qed
qed

section \<open>Journals of a project\<close>

definition quiet :: "tree \<Rightarrow> path \<Rightarrow> bool" where
  "quiet fs base \<longleftrightarrow> (\<forall>q. butlast q = base \<and> is_journal_path q \<longrightarrow> lookup fs q = None)"

lemma is_journal_path_iff:
  "is_journal_path p \<longleftrightarrow> p \<noteq> [] \<and> (\<exists>tid. last p = JOURNAL_PREFIX @ tid @ JOURNAL_SUFFIX \<and> valid_transaction_id tid)"
proof
  assume "is_journal_path p"
  then show "p \<noteq> [] \<and> (\<exists>tid. last p = JOURNAL_PREFIX @ tid @ JOURNAL_SUFFIX \<and> valid_transaction_id tid)"
    by (auto simp: is_journal_path_def file_name_def strip_prefix_def strip_suffix_def prefix_def suffix_def split: option.splits if_splits)
next
  assume "p \<noteq> [] \<and> (\<exists>tid. last p = JOURNAL_PREFIX @ tid @ JOURNAL_SUFFIX \<and> valid_transaction_id tid)"
  then obtain tid where p: "p \<noteq> []" "last p = JOURNAL_PREFIX @ tid @ JOURNAL_SUFFIX" and v: "valid_transaction_id tid" by auto
  have n: "last p \<noteq> ''..''" using p by (auto simp: JOURNAL_PREFIX_def)
  have "\<not> suffix ''.abandoned'' tid"
  proof
    assume "suffix ''.abandoned'' tid"
    then have "CHR ''.'' \<in> set tid" by (auto simp: suffix_def)
    then show False using v by (auto simp: valid_transaction_id_def list_all_iff id_char_def Let_def)
  qed
  then show "is_journal_path p"
    using p n v by (simp add: is_journal_path_def file_name_def strip_prefix_def strip_suffix_def suffix_def)
qed

lemma journal_not_temp: "is_journal_path p \<Longrightarrow> \<not> is_temp p"
proof
  assume "is_journal_path p" "is_temp p"
  then obtain tid where n: "last p = JOURNAL_PREFIX @ tid @ JOURNAL_SUFFIX" and s: "suffix ''.kicad_tmp'' (last p)"
    by (auto simp: is_journal_path_iff is_temp_def JOURNAL_PREFIX_def)
  have "last (last p) = CHR ''n''" using n by (simp add: JOURNAL_SUFFIX_def)
  moreover have "last (last p) = CHR ''p''" using s by (auto simp: suffix_def)
  ultimately show False by simp
qed

lemma is_journal_path_journal: "valid_transaction_id tid \<Longrightarrow> is_journal_path (journal_path base tid)"
  by (auto simp: is_journal_path_iff journal_path_def)

lemma active_journal_ok:
  assumes "active_journal_paths base w = (Ok ps, w')"
  shows "distinct ps \<and> set ps = {q. butlast q = base \<and> is_journal_path q \<and> lookup (files w) q \<noteq> None}"
proof -
  obtain qs where qs: "qs = remdups (filter (\<lambda>q. q \<noteq> [] \<and> butlast q = base) (map fst (files w)))" "ps = sort (filter is_journal_path qs)"
    using assms unfolding active_journal_paths_def sys_read_dir_def
    by (auto elim!: io_bind_ok dest!: syscall_ok simp: io_return_def split: if_splits)
  have "q \<in> fst ` set (files w) \<longleftrightarrow> lookup (files w) q \<noteq> None" if "q \<noteq> []" for q
    using that by (simp add: lookup_def map_of_eq_None_iff)
  then have "set ps = {q. butlast q = base \<and> is_journal_path q \<and> lookup (files w) q \<noteq> None}"
    using qs by (auto simp: is_journal_path_iff)
  then show ?thesis using qs by simp
qed

lemma walk_frame:
  assumes "walk n fs0 cur cs = Some q" "lookup fs0 q = Some Dir"
    and "\<And>p x. lookup fs0 p = Some x \<Longrightarrow> (\<forall>s. x \<noteq> File s) \<Longrightarrow> lookup fs p = Some x"
  shows "walk n fs cur cs = Some q"
  using assms by (induction n fs0 cur cs rule: walk.induct) (auto split: if_splits option.splits node.splits)

lemma canonical_directory_ok:
  assumes "canonical_directory dir w = (Ok base, w')"
  shows "canonicalize (files w) dir = Some base \<and> real_dir (files w) base"
  using assms canonicalize_canon [of "files w" dir base] unfolding canonical_directory_def
  by (auto elim!: io_bind_ok dest!: sys_canonicalize_ok sys_metadata_ok simp: io_throw_def io_return_def split: if_splits)

lemma canonicalize_real: "real_dir fs d \<Longrightarrow> canonicalize fs d = Some d"
  using walk_real [of fs "[]" d 40 "[]"] by (simp add: canonicalize_def)

section \<open>States of one transaction\<close>

definition tx_state :: "tree \<Rightarrow> path \<Rightarrow> path \<Rightarrow> string \<Rightarrow> journal_entry list \<Rightarrow> tree \<Rightarrow> bool" where
  "tx_state fs0 base jp txt es fs \<longleftrightarrow>
     tx_untouched fs0 base jp es fs \<or> tx_logged fs0 base jp txt es fs \<or> tx_done fs0 base jp es fs"

definition tx_settled :: "tree \<Rightarrow> path \<Rightarrow> path \<Rightarrow> journal_entry list \<Rightarrow> tree \<Rightarrow> bool" where
  "tx_settled fs0 base jp es fs \<longleftrightarrow> tx_untouched fs0 base jp es fs \<or> tx_done fs0 base jp es fs"

definition tx_ok :: "tree \<Rightarrow> path \<Rightarrow> string \<Rightarrow> journal_entry list \<Rightarrow> bool" where
  "tx_ok fs0 base tid es \<longleftrightarrow> tx_targets_ok fs0 base (journal_path base tid) es \<and> valid_transaction_id tid \<and>
     quiet fs0 base \<and> real_dir fs0 base \<and> (\<forall>e \<in> set es. \<not> is_journal_path (base @ je_path e))"

lemma tx_state_nonfile:
  assumes "tx_state fs0 base jp txt es fs" and "lookup fs0 jp = None" and "lookup fs0 p = Some x" "\<forall>s. x \<noteq> File s"
  shows "lookup fs p = Some x"
proof -
  have "p \<noteq> jp" using assms by auto
  moreover have "p \<notin> targets base es" if "tx_images fs0 base es"
    using that assms(3,4) by (auto simp: tx_images_def targets_def)
  moreover have "lookup fs p = Some x" if "tx_untouched fs0 base jp es fs"
    using that assms(3) unfolding tx_untouched_def tx_frame_def by (metis option.distinct(1))
  ultimately show ?thesis
    using assms(1,3) by (auto simp: tx_state_def tx_logged_def tx_done_def tx_frame_def)
qed

lemma tx_journals:
  assumes ok: "tx_ok fs0 base tid es" and jp: "jp = journal_path base tid"
    and q: "butlast q = base" "is_journal_path q" "lookup fs q \<noteq> None"
  shows "\<not> tx_settled fs0 base jp es fs" and "tx_logged fs0 base jp txt es fs \<Longrightarrow> q = jp"
proof -
  have q0: "lookup fs0 q = None" "\<not> is_temp q" "q \<notin> targets base es"
    using ok q journal_not_temp by (auto simp: tx_ok_def quiet_def targets_def)
  have fr: "q \<in> T" if "tx_frame fs0 T fs" for T
    using that q0 q(3) unfolding tx_frame_def by metis
  show "q = jp" if "tx_logged fs0 base jp txt es fs"
    using that fr [of "insert jp (targets base es)"] q0 by (auto simp: tx_logged_def)
  show "\<not> tx_settled fs0 base jp es fs"
    using fr [of "insert jp (targets base es)"] fr [of "targets base es"] q0 q(3)
    by (auto simp: tx_settled_def tx_untouched_def tx_done_def)
qed

lemma io_bind_return [simp]: "io_bind (io_return x) k = k x"
  by (simp add: io_bind_def io_return_def fun_eq_iff)

lemma singleton_distinct: "distinct xs \<Longrightarrow> set xs = {x} \<Longrightarrow> xs = [x]"
  by (cases xs) (auto simp: subset_singleton_iff)

lemma recover_all_spec:
  assumes E: "env_ok E" and ok: "tx_ok fs0 base tid es" and dir: "canonicalize fs0 dir = Some base"
    and codec: "from_json E txt = Some \<lparr>version = JOURNAL_VERSION, j_id = tid, entries = es\<rparr>"
  defines "jp \<equiv> journal_path base tid"
  shows "hoare (tx_state fs0 base jp txt es) (recover_file_transactions E dir)
    (\<lambda>_. tx_settled fs0 base jp es) (tx_state fs0 base jp txt es)" (is "hoare ?P _ _ _")
proof -
  have jpe: "jp = journal_path base tid" by (simp add: jp_def)
  have tok: "tx_targets_ok fs0 base jp es" and jnone: "lookup fs0 jp = None" and base: "real_dir fs0 base"
    using ok by (auto simp: tx_ok_def jp_def tx_targets_ok_def)
  have bd: "lookup fs0 base = Some Dir" using base by (simp add: real_dir_def)
  have cd: "hoare ?P (canonical_directory dir) (\<lambda>b fs. ?P fs \<and> b = base) ?P"
  proof (rule hoare_readonly [OF readonly_canonical])
    fix w w' :: world and b assume P: "?P (files w)" and "canonical_directory dir w = (Ok b, w')"
    then have b: "canonicalize (files w) dir = Some b" using canonical_directory_ok by blast
    have "canonicalize (files w) dir = Some base"
      using walk_frame [OF dir [unfolded canonicalize_def] bd] tx_state_nonfile [OF P jnone] by (simp add: canonicalize_def)
    then show "?P (files w) \<and> b = base" using b P by simp
  qed simp
  let ?J = "\<lambda>ps fs. ps = [] \<and> tx_settled fs0 base jp es fs \<or> ps = [jp] \<and> tx_logged fs0 base jp txt es fs"
  have ls: "hoare ?P (active_journal_paths base) ?J ?P"
  proof (rule hoare_readonly [OF readonly_active])
    fix w w' :: world and ps assume P: "?P (files w)" and a: "active_journal_paths base w = (Ok ps, w')"
    note set = active_journal_ok [OF a]
    show "?J ps (files w)"
    proof (cases "tx_logged fs0 base jp txt es (files w)")
      case True
      have "butlast jp = base" "is_journal_path jp" "lookup (files w) jp \<noteq> None"
        using ok True is_journal_path_journal by (auto simp: jpe tx_ok_def tx_logged_def) (simp add: journal_path_def)
      then have "set ps = {jp}"
        using set tx_journals(2) [OF ok jpe _ _ _ True] by blast
      with set have "ps = [jp]" using singleton_distinct [of ps jp] by simp
      then show ?thesis using True by simp
    next
      case False
      then have "tx_settled fs0 base jp es (files w)" using P by (auto simp: tx_state_def tx_settled_def)
      then have "\<not> (butlast q = base \<and> is_journal_path q \<and> lookup (files w) q \<noteq> None)" for q
        using tx_journals(1) [OF ok jpe, of q "files w"] by blast
      then have "set ps = {}" using set by simp
      then show ?thesis using \<open>tx_settled fs0 base jp es (files w)\<close> by simp
    qed
  qed simp
  have lp: "hoare (?J ps) (recover_loop E base ps) (\<lambda>_. tx_settled fs0 base jp es) ?P" for ps
  proof -
    consider "ps = []" | "ps = [jp]" | "ps \<noteq> []" "ps \<noteq> [jp]" by blast
    then show ?thesis
    proof cases
      case 1
      then show ?thesis by (simp add: hoare_def io_return_def)
    next
      case 2
      have r: "hoare (tx_logged fs0 base jp txt es) (recover_journal E base jp) (\<lambda>_. tx_settled fs0 base jp es) ?P"
        by (rule hoare_conseq [OF recover_logged [OF E tok base jpe codec]])
           (auto simp: tx_settled_def tx_state_def)
      have ret: "hoare (tx_settled fs0 base jp es) (io_return y) (\<lambda>_. tx_settled fs0 base jp es) ?P" for y :: "recovery_outcome list"
        by (rule hoare_return)
      show ?thesis using 2 hoare_bind [OF r ret] by simp
    qed (simp add: hoare_def)
  qed
  show ?thesis
    unfolding recover_file_transactions_def
  proof (rule hoare_bind [OF cd], goal_cases)
    case (1 b)
    show ?case
    proof (cases "b = base")
      case True
      show ?thesis unfolding True by (rule hoare_pre [OF hoare_bind [OF ls lp]]) simp
    qed (simp add: hoare_def)
  qed
qed

section \<open>Commit\<close>

text \<open>Names Konnect makes up in a project directory.\<close>

definition konnect_name :: "string \<Rightarrow> bool" where
  "konnect_name name \<longleftrightarrow> is_temp [name] \<or> is_journal_path [name]"

text \<open>What the code relies on: temporary names are not those of journals, uuids are made of hexadecimal
  digits and dashes, and the journal of this transaction survives the codec.\<close>

definition tx_env_ok :: "'e tx_env_scheme \<Rightarrow> journal_entry list \<Rightarrow> bool" where
  "tx_env_ok E es \<longleftrightarrow> env_ok E \<and> (\<forall>n. valid_transaction_id (uuid E n)) \<and>
     (\<forall>n. let j = \<lparr>version = JOURNAL_VERSION, j_id = uuid E n, entries = es\<rparr> in from_json E (to_json E j) = Some j)"

lemma hoare_value: "hoare P (k a) Q X \<Longrightarrow> hoare (\<lambda>fs. P fs \<and> b = a) (k b) Q X"
  by (auto simp: hoare_def)

lemma distinct_map_sort_key: "distinct (map f xs) \<Longrightarrow> distinct (map f (sort_key f xs))"
  by (simp add: distinct_map)

lemma is_temp_last: "is_temp p \<longleftrightarrow> p \<noteq> [] \<and> is_temp [last p]"
  by (auto simp: is_temp_def)

lemma is_journal_last: "is_journal_path p \<longleftrightarrow> p \<noteq> [] \<and> is_journal_path [last p]"
  by (auto simp: is_journal_path_iff)

lemma set_plan: "e \<in> set (plan fs base ts) \<Longrightarrow> \<exists>t \<in> set ts. e = entry_of fs base t \<and> target_of fs base (ft_path t) = Some (je_path e)"
  by (auto simp: plan_def Let_def list_all_iff entry_of_def split: if_splits)

lemma plan_ok:
  assumes base: "real_dir fs base" and q: "quiet fs base" and v: "valid_transaction_id tid"
    and names: "\<And>t. t \<in> set ts \<Longrightarrow> \<not> konnect_name (last (joined base (ft_path t)))"
  shows "tx_ok fs base tid (plan fs base ts)"
proof -
  let ?jp = "journal_path base tid"
  have jp: "is_journal_path ?jp" by (rule is_journal_path_journal [OF v])
  have "butlast ?jp = base" by (simp add: journal_path_def)
  then have jn: "lookup fs ?jp = None" using q jp by (simp add: quiet_def)
  have d: "distinct (map je_path (plan fs base ts))"
    unfolding plan_def Let_def by (auto intro: distinct_map_sort_key simp del: map_map)
  have tgt: "target_canon fs (base @ je_path e) \<and> je_path e \<noteq> [] \<and> \<not> is_temp (base @ je_path e) \<and> \<not> is_journal_path (base @ je_path e)"
    if e: "e \<in> set (plan fs base ts)" for e
  proof -
    obtain t where t: "t \<in> set ts" "target_of fs base (ft_path t) = Some (je_path e)" using set_plan [OF e] by blast
    note r = target_of_Some [OF t(2)]
    have "\<not> konnect_name (last (base @ je_path e))" using names [OF t(1)] r by simp
    then show ?thesis using r is_temp_last [of "base @ je_path e"] is_journal_last [of "base @ je_path e"]
      by (auto simp: konnect_name_def)
  qed
  have "base @ je_path e \<noteq> ?jp" if "e \<in> set (plan fs base ts)" for e
    using tgt [OF that] jp by auto
  moreover have "?jp \<noteq> []" by (simp add: journal_path_def)
  ultimately show ?thesis
    unfolding tx_ok_def tx_targets_ok_def
    using d jp jn base q v tgt journal_not_temp [OF jp] by blast
qed

lemma readonly_quiet_recover:
  assumes dir: "canonicalize fs0 dir = Some base" and q: "quiet fs0 base"
  shows "hoare (\<lambda>fs. fs = fs0) (recover_file_transactions E dir) (\<lambda>_ fs. fs = fs0) (\<lambda>fs. fs = fs0)"
proof -
  have cd: "hoare (\<lambda>fs. fs = fs0) (canonical_directory dir) (\<lambda>b fs. fs = fs0 \<and> b = base) (\<lambda>fs. fs = fs0)"
    by (rule hoare_readonly [OF readonly_canonical]) (use dir canonical_directory_ok in fastforce)+
  have ls: "hoare (\<lambda>fs. fs = fs0) (active_journal_paths base) (\<lambda>ps fs. fs = fs0 \<and> ps = []) (\<lambda>fs. fs = fs0)"
  proof (rule hoare_readonly [OF readonly_active])
    fix w w' :: world and ps assume "files w = fs0" "active_journal_paths base w = (Ok ps, w')"
    then have "set ps = {}" using active_journal_ok [of base w ps w'] q by (auto simp: quiet_def)
    then show "files w = fs0 \<and> ps = []" using \<open>files w = fs0\<close> by simp
  qed
  have "hoare (\<lambda>fs. fs = fs0 \<and> ps = []) (recover_loop E base ps) (\<lambda>_ fs. fs = fs0) (\<lambda>fs. fs = fs0)" for ps
    by (cases ps) (simp_all add: hoare_def io_return_def)
  note all = hoare_bind [OF ls this]
  show ?thesis
    unfolding recover_file_transactions_def
    by (rule hoare_bind [OF cd hoare_value [where k = "\<lambda>b. io_bind (active_journal_paths b) (recover_loop E b)", OF all]])
qed

lemma commit_spec:
  assumes E: "tx_env_ok E (plan fs0 base ts)" and dir: "canonicalize fs0 dir = Some base" and base: "real_dir fs0 base" and q: "quiet fs0 base"
    and names: "\<And>t. t \<in> set ts \<Longrightarrow> \<not> konnect_name (last (joined base (ft_path t)))"
  defines "es \<equiv> plan fs0 base ts"
    and "jp \<equiv> \<lambda>n. journal_path base (uuid E n)"
    and "txt \<equiv> \<lambda>n. to_json E \<lparr>version = JOURNAL_VERSION, j_id = uuid E n, entries = plan fs0 base ts\<rparr>"
  shows "hoare (\<lambda>fs. fs = fs0) (commit_file_transaction E dir ts)
    (\<lambda>r fs. \<exists>n. r = \<lparr>tc_id = uuid E n, tc_files = length es\<rparr> \<and> tx_done fs0 base (jp n) es fs)
    (\<lambda>fs. \<exists>n. tx_state fs0 base (jp n) (txt n) es fs)" (is "hoare ?P _ ?Q ?X")
proof -
  have PX: "?P fs \<Longrightarrow> ?X fs" for fs by (simp add: tx_state_def tx_untouched_def tx_frame_def)
  have env: "env_ok E" and uu: "\<And>n. valid_transaction_id (uuid E n)" using E by (auto simp: tx_env_ok_def)
  have cd: "hoare ?P (canonical_directory dir) (\<lambda>b fs. fs = fs0 \<and> b = base) ?X"
    by (rule hoare_readonly [OF readonly_canonical _ PX]) (use dir canonical_directory_ok in fastforce)+
  have rc: "hoare ?P (recover_file_transactions E base) (\<lambda>_. ?P) ?X"
    by (rule hoare_conseq [OF readonly_quiet_recover [OF canonicalize_real [OF base] q]]) (use PX in auto)
  have nm: "hoare ?P (normalize_transitions base ts) (\<lambda>es' fs. fs = fs0 \<and> es' = es) ?X"
    by (rule hoare_readonly [OF readonly_normalize _ PX]) (use normalize_ok in \<open>auto simp: es_def\<close>)
  have uid: "hoare ?P (new_uuid E) (\<lambda>tid fs. fs = fs0 \<and> (\<exists>n. tid = uuid E n)) ?X"
    by (auto simp: hoare_def new_uuid_def)
  have ce: "hoare (\<lambda>fs. fs = fs0 \<and> (\<exists>n. tid = uuid E n)) (commit_entries E base tid es) ?Q ?X" for tid
  proof (cases "\<exists>n. tid = uuid E n")
    case True
    then obtain n where n: "tid = uuid E n" ..
    have ok: "tx_targets_ok fs0 base (journal_path base tid) es"
      using plan_ok [OF base q _ names] uu n by (simp add: tx_ok_def es_def)
    show ?thesis
      by (rule hoare_conseq [OF commit_entries_atomic [OF env ok]]) (auto simp: n tx_state_def jp_def txt_def es_def)
  qed (simp add: hoare_def)
  note put = hoare_value [where k = "\<lambda>es. io_bind (new_uuid E) (\<lambda>tid. commit_entries E base tid es)", OF hoare_bind [OF uid ce]]
  note all = hoare_value [where k = "\<lambda>b. io_bind (recover_file_transactions E b) (\<lambda>_.
      io_bind (normalize_transitions b ts) (\<lambda>es. io_bind (new_uuid E) (\<lambda>tid. commit_entries E b tid es)))", OF hoare_bind [OF rc hoare_bind [OF nm put]]]
  show ?thesis unfolding commit_file_transaction_def by (rule hoare_bind [OF cd all])
qed

text \<open>A process that runs recovery, possibly killed, any number of times; the flag says whether the last run
  returned normally.\<close>

inductive restarts :: "'e tx_env_scheme \<Rightarrow> path \<Rightarrow> tree \<Rightarrow> bool \<Rightarrow> tree \<Rightarrow> bool"
  for E dir fs where
  start: "restarts E dir fs False fs"
| recover: "restarts E dir fs b (files w) \<Longrightarrow> recover_file_transactions E dir w = (r, w') \<Longrightarrow>
    restarts E dir fs (\<exists>rs. r = Ok rs) (files w')"

lemma hoareD:
  assumes "hoare P m Q X" "P (files w)" "m w = (r, w')"
  shows "case r of Ok x \<Rightarrow> Q x (files w') | Err _ \<Rightarrow> X (files w') | Killed \<Rightarrow> X (files w')"
  using assms by (auto simp: hoare_def split: prod.splits outcome.splits)

lemma restarts_quiet:
  assumes "restarts E dir fs b fs'" and "canonicalize fs dir = Some base" and "quiet fs base"
  shows "fs' = fs"
  using assms(1)
proof (induction rule: restarts.induct)
  case (recover b w r w')
  then show ?case
    using hoareD [OF readonly_quiet_recover [OF assms(2,3)] recover.IH recover.hyps(2)] by (simp split: outcome.splits)
qed simp

lemma restarts_done:
  assumes rs: "restarts E dir fs b fs'" and dn: "tx_done fs0 base (journal_path base tid) es fs"
    and ok: "tx_ok fs0 base tid es" and dir: "canonicalize fs0 dir = Some base"
  shows "fs' = fs"
proof (rule restarts_quiet [OF rs])
  have st: "tx_state fs0 base (journal_path base tid) t es fs" for t using dn by (simp add: tx_state_def)
  have "lookup fs0 base = Some Dir" "lookup fs0 (journal_path base tid) = None"
    using ok by (auto simp: tx_ok_def real_dir_def tx_targets_ok_def)
  then show "canonicalize fs dir = Some base"
    using walk_frame [OF dir [unfolded canonicalize_def]] tx_state_nonfile [OF st] by (simp add: canonicalize_def)
  show "quiet fs base"
    using tx_journals(1) [OF ok refl, of _ fs] dn unfolding quiet_def tx_settled_def by blast
qed

lemma restarts_state:
  assumes "restarts E dir fs b fs'" and "tx_state fs0 base (journal_path base tid) txt es fs"
    and E: "env_ok E" and ok: "tx_ok fs0 base tid es" and dir: "canonicalize fs0 dir = Some base"
    and codec: "from_json E txt = Some \<lparr>version = JOURNAL_VERSION, j_id = tid, entries = es\<rparr>"
  shows "tx_state fs0 base (journal_path base tid) txt es fs' \<and> (b \<longrightarrow> tx_settled fs0 base (journal_path base tid) es fs')"
  using assms(1,2)
proof (induction rule: restarts.induct)
  case (recover b w r w')
  then have P: "tx_state fs0 base (journal_path base tid) txt es (files w)" by simp
  from hoareD [OF recover_all_spec [OF E ok dir codec] P recover.hyps(2)]
  show ?case by (cases r) (auto simp: tx_settled_def tx_state_def)
qed simp

end
