(* ===== verification/Transaction_Theorems.thy ===== *)
theory Transaction_Theorems
  imports Transaction
begin

text \<open>
  The properties of \<open>transaction.rs\<close>: atomicity of a commit under crashes and repeated recovery,
  recovery and abandoning never overwrite foreign content, inspection only looks.
  The small project \<open>demo\<close> is the concrete input the witnesses evaluate.
\<close>

section \<open>A small project\<close>

definition demo_entries :: "journal_entry list" where
  "demo_entries = [\<lparr>je_path = [''a''], je_expected = Some ''x'', je_replacement = ''y''\<rparr>,
     \<lparr>je_path = [''b''], je_expected = None, je_replacement = ''z''\<rparr>]"

definition demo_env :: tx_env where
  "demo_env = \<lparr>uuid = \<lambda>_. ''u'', temp_name = \<lambda>_. ''t'', process_id = 7, to_json = \<lambda>_. ''J'',
     from_json = \<lambda>_. Some \<lparr>version = 1, j_id = ''u'', entries = demo_entries\<rparr>\<rparr>"

definition demo_world :: "fault list \<Rightarrow> world" where
  "demo_world fl = \<lparr>files = [([''p''], Dir), ([''p'', ''a''], File ''x'')], faults = fl, counter = 0, nonce = 0\<rparr>"

definition demo_changes :: "file_transition list" where
  "demo_changes = [FileTransition_create (Rel [''b'']) ''z'', FileTransition_replace (Rel [''a'']) ''x'' ''y'']"

lemma tx_state_cases:
  assumes "tx_state fs0 base jp txt es fs" and "lookup fs0 jp = None"
  shows "\<forall>q. q \<notin> insert jp (targets base es) \<longrightarrow> lookup fs q = lookup fs0 q \<or> lookup fs0 q = None \<and> is_temp q"
    and "\<forall>e \<in> set es. lookup fs (base @ je_path e) \<in> {lookup fs0 (base @ je_path e), Some (File (je_replacement e))}"
  using assms by (auto simp: tx_state_def tx_untouched_def tx_logged_def tx_done_def tx_frame_def targets_def)

lemma tx_settled_cases:
  assumes "tx_settled fs0 base jp es fs" and "lookup fs0 jp = None"
  shows "lookup fs jp = None \<and> ((\<forall>e \<in> set es. lookup fs (base @ je_path e) = lookup fs0 (base @ je_path e)) \<or>
     (\<forall>e \<in> set es. lookup fs (base @ je_path e) = Some (File (je_replacement e))))"
  using assms by (auto simp: tx_settled_def tx_untouched_def tx_done_def targets_def)

text \<open>C1. Atomicity under crashes. A commit runs with an arbitrary sequence of faults: any system call may
  fail or be the point where the process dies. Afterwards recovery runs any number of times, again with
  arbitrary faults. At every moment each target holds its old content or its replacement, and nothing else
  in the file tree changed but scratch files and the journal; once a recovery (or the commit) has returned
  normally, the journal is gone and the targets are all old or all replaced; and when the commit returned
  normally, all are replaced and the old contents were the expected ones.\<close>

theorem transaction_atomic:
  assumes "tx_env_ok E es" and "es = plan (files w) base ts"
    and "canonicalize (files w) dir = Some base" and "lookup (files w) base = Some Dir" and "quiet (files w) base"
    and "list_all (\<lambda>t. \<not> konnect_name (last (joined base (ft_path t)))) ts"
    and "commit_file_transaction E dir ts w = (r, w1)" and "restarts E dir (files w1) settled fs"
  shows "\<exists>jp. butlast jp = base \<and> is_journal_path jp \<and>
    (\<forall>q. q \<notin> insert jp (targets base es) \<longrightarrow> lookup fs q = lookup (files w) q \<or> lookup (files w) q = None \<and> is_temp q) \<and>
    (\<forall>e \<in> set es. lookup fs (base @ je_path e) \<in> {lookup (files w) (base @ je_path e), Some (File (je_replacement e))}) \<and>
    (settled \<or> (\<exists>c. r = Ok c) \<longrightarrow> lookup fs jp = None \<and>
       ((\<forall>e \<in> set es. lookup fs (base @ je_path e) = lookup (files w) (base @ je_path e)) \<or>
        (\<forall>e \<in> set es. lookup fs (base @ je_path e) = Some (File (je_replacement e))))) \<and>
    ((\<exists>c. r = Ok c) \<longrightarrow> (\<forall>e \<in> set es. lookup fs (base @ je_path e) = Some (File (je_replacement e)) \<and>
       lookup (files w) (base @ je_path e) = map_option File (je_expected e)))"
proof -
  let ?fs0 = "files w" and ?jp = "\<lambda>n. journal_path base (uuid E n)"
  let ?j = "\<lambda>n. \<lparr>version = JOURNAL_VERSION, j_id = uuid E n, entries = es\<rparr>"
  have base: "real_dir ?fs0 base" using canonicalize_canon [OF assms(3)] assms(4) by auto
  have names: "\<not> konnect_name (last (joined base (ft_path t)))" if "t \<in> set ts" for t
    using assms(6) that by (simp add: list_all_iff)
  have env: "env_ok E" and uu: "\<And>n. valid_transaction_id (uuid E n)" and codec: "\<And>n. from_json E (to_json E (?j n)) = Some (?j n)"
    using assms(1) by (auto simp: tx_env_ok_def Let_def)
  have "case r of Ok c \<Rightarrow> \<exists>n. tx_done ?fs0 base (?jp n) es (files w1)
    | _ \<Rightarrow> \<exists>n. tx_state ?fs0 base (?jp n) (to_json E (?j n)) es (files w1)"
    using hoareD [OF commit_spec [OF _ assms(3) base assms(5) names, of E ts] _ assms(7)] assms(1)
    unfolding assms(2) by (cases r) auto
  then obtain n where st: "tx_state ?fs0 base (?jp n) (to_json E (?j n)) es (files w1)"
      and dn: "\<And>c. r = Ok c \<Longrightarrow> tx_done ?fs0 base (?jp n) es (files w1)"
    by (cases r) (auto simp: tx_state_def)
  have ok: "tx_ok ?fs0 base (uuid E n) es"
    unfolding assms(2) by (rule plan_ok [OF base assms(5) uu names])
  note rs = restarts_state [OF assms(8) _ env ok assms(3) codec]
  note st' = rs [OF st, THEN conjunct1] and se = rs [OF st, THEN conjunct2]
  have jn: "lookup ?fs0 (?jp n) = None" using ok by (simp add: tx_ok_def tx_targets_ok_def)
  have dn': "tx_done ?fs0 base (?jp n) es fs" if "r = Ok c" for c
    using restarts_done [OF assms(8) dn [OF that] ok assms(3)] dn [OF that] by simp
  then have se': "tx_settled ?fs0 base (?jp n) es fs" if "settled \<or> (\<exists>c. r = Ok c)"
    using that se by (auto simp: tx_settled_def)
  show ?thesis
  proof (intro exI conjI)
    show "butlast (?jp n) = base" "is_journal_path (?jp n)" by (simp_all add: is_journal_path_journal uu) (simp add: journal_path_def)
  qed (use tx_state_cases [OF st' jn] tx_settled_cases [OF se' jn] dn' in \<open>auto simp: tx_done_def tx_images_def\<close>)
qed

definition demo_killed :: world where
  "demo_killed = snd (commit_file_transaction demo_env [''p''] demo_changes (demo_world (replicate 22 Proceed @ [Kill])))"

lemma demo_env_ok: "tx_env_ok demo_env demo_entries"
  by (auto simp: tx_env_ok_def env_ok_def demo_env_def prefix_def valid_transaction_id_def id_char_def JOURNAL_VERSION_def)

lemma demo_plan: "plan (files (demo_world fl)) [''p''] demo_changes = demo_entries"
  unfolding demo_world_def world.simps by code_simp

lemma demo_quiet: "quiet (files (demo_world fl)) [''p'']"
  by (auto simp: quiet_def demo_world_def lookup_def is_journal_path_iff JOURNAL_PREFIX_def)

text \<open>The process dies after one of two targets has been replaced; the next recovery finishes the other.\<close>

theorem transaction_atomic_witness:
  "fst (commit_file_transaction demo_env [''p''] demo_changes (demo_world (replicate 22 Proceed @ [Kill]))) = Killed \<and>
   lookup (files demo_killed) [''p'', ''a''] = Some (File ''y'') \<and> lookup (files demo_killed) [''p'', ''b''] = None \<and>
   (\<exists>jp. lookup (files (snd (recover_file_transactions demo_env [''p''] demo_killed))) jp = None \<and> is_journal_path jp) \<and>
   lookup (files (snd (recover_file_transactions demo_env [''p''] demo_killed))) [''p'', ''b''] = Some (File ''z'')"
proof -
  let ?w = "demo_world (replicate 22 Proceed @ [Kill])"
  have k: "fst (commit_file_transaction demo_env [''p''] demo_changes ?w) = Killed" by code_simp
  have c: "commit_file_transaction demo_env [''p''] demo_changes ?w = (Killed, demo_killed)"
    using k by (simp add: demo_killed_def prod_eq_iff)
  have ab: "lookup (files demo_killed) [''p'', ''a''] = Some (File ''y'')" "lookup (files demo_killed) [''p'', ''b''] = None"
    by code_simp+
  have "fst (recover_file_transactions demo_env [''p''] demo_killed) = Ok [\<lparr>ro_id = ''u'', completed_files = 1\<rparr>]" by code_simp
  then have r: "recover_file_transactions demo_env [''p''] demo_killed
      = (Ok [\<lparr>ro_id = ''u'', completed_files = 1\<rparr>], snd (recover_file_transactions demo_env [''p''] demo_killed))"
    by (simp add: prod_eq_iff)
  have rs: "restarts demo_env [''p''] (files demo_killed) True (files (snd (recover_file_transactions demo_env [''p''] demo_killed)))"
    using restarts.recover [OF restarts.start r] by simp
  have dir: "canonicalize (files ?w) [''p''] = Some [''p'']" "lookup (files ?w) [''p''] = Some Dir"
    "list_all (\<lambda>t. \<not> konnect_name (last (joined [''p''] (ft_path t)))) demo_changes"
    by (code_simp, code_simp, code_simp)
  note all = transaction_atomic [OF demo_env_ok demo_plan [symmetric] dir(1,2) demo_quiet dir(3) c rs]
  have "lookup (files ?w) [''p'', ''a''] = Some (File ''x'')"
    "lookup (files (snd (recover_file_transactions demo_env [''p''] demo_killed))) [''p'', ''a''] = Some (File ''y'')" by code_simp+
  with all show ?thesis using k ab by (auto simp: demo_entries_def)
qed

section \<open>Recovery, inspection and abandoning of a given journal\<close>

lemma canonical_directory_value:
  "canonical_directory dir w = (Ok b, w') \<Longrightarrow> canonicalize (files w) dir = Some base \<Longrightarrow> b = base \<and> files w' = files w \<and> real_dir (files w) base"
  using canonical_directory_ok [of dir w b w'] readonly_files [OF readonly_canonical, of dir w "Ok b" w'] by auto

text \<open>A run that does not return normally and changes nothing.\<close>

definition refused :: "'a io \<Rightarrow> world \<Rightarrow> bool" where
  "refused m w \<longleftrightarrow> (\<forall>y. fst (m w) \<noteq> Ok y) \<and> files (snd (m w)) = files w"

lemma refused_throw: "refused (io_throw e) w"
  by (simp add: refused_def io_throw_def)

lemma refused_bind:
  assumes "readonly m" and "\<And>x w1. m w = (Ok x, w1) \<Longrightarrow> files w1 = files w \<Longrightarrow> refused (k x) w1"
  shows "refused (io_bind m k) w"
proof -
  obtain r w1 where m: "m w = (r, w1)" by fastforce
  then have "files w1 = files w" using readonly_files [OF assms(1)] by blast
  then show ?thesis using m assms(2) by (auto simp: refused_def io_bind_def split: outcome.splits)
qed

text \<open>C22. Recovery never touches divergent content: if a target of the journal holds neither its recorded
  before image nor its replacement, recovering that journal does not return normally, whatever the faults,
  and leaves the whole file tree exactly as it was, the journal included.\<close>

theorem recovery_preserves_divergent:
  assumes "canonicalize (files w) dir = Some base"
    and "lookup (files w) (journal_path base tid) = Some (File s)" and "from_json E s = Some j"
    and "\<not> recoverable (files w) base (entries j)"
  shows "fst (recover_file_transaction E dir tid w) \<noteq> Ok r \<and> files (snd (recover_file_transaction E dir tid w)) = files w"
proof -
  have core: "refused (recover_journal E base (journal_path base tid)) w2" if "files w2 = files w" "real_dir (files w) base" for w2
    using recover_divergent [of w2 base tid s E j] that assms by (simp add: refused_def)
  have "refused (recover_file_transaction E dir tid) w"
    unfolding recover_file_transaction_def
  proof (rule refused_bind [OF readonly_canonical])
    fix b w1 assume "canonical_directory dir w = (Ok b, w1)" and w1: "files w1 = files w"
    then have b: "b = base" and real: "real_dir (files w) base" using canonical_directory_value assms(1) by blast+
    show "refused (io_then (validate_transaction_id tid) (io_bind (sys_is_file (journal_path b tid)) (\<lambda>is_file.
        if \<not> is_file then io_throw InvalidValue else recover_journal E b (journal_path b tid)))) w1"
      unfolding io_then_def b
      by (intro refused_bind readonly_validate_id readonly_probe) (use core real w1 in \<open>auto intro: refused_throw\<close>)
  qed
  then show ?thesis by (simp add: refused_def)
qed

theorem recovery_preserves_divergent_witness:
  "fst (recover_file_transaction demo_env [''p''] ''u'' (demo_killed\<lparr>files := put (files demo_killed) [''p'', ''b''] (File ''foreign'')\<rparr>))
     = Err (TransactionConflict [''p'', ''b''] [''p'', ''.konnect-transaction-u.json'']) \<and>
   files (snd (recover_file_transaction demo_env [''p''] ''u'' (demo_killed\<lparr>files := put (files demo_killed) [''p'', ''b''] (File ''foreign'')\<rparr>)))
     = put (files demo_killed) [''p'', ''b''] (File ''foreign'')"
proof -
  let ?w = "demo_killed\<lparr>files := put (files demo_killed) [''p'', ''b''] (File ''foreign'')\<rparr>"
  have h: "canonicalize (files ?w) [''p''] = Some [''p'']" "lookup (files ?w) (journal_path [''p''] ''u'') = Some (File ''J'')"
      "from_json demo_env ''J'' = Some \<lparr>version = 1, j_id = ''u'', entries = demo_entries\<rparr>"
      "\<not> recoverable (files ?w) [''p''] (entries \<lparr>version = 1, j_id = ''u'', entries = demo_entries\<rparr>)"
    by (code_simp, code_simp, simp add: demo_env_def, code_simp)
  have "fst (recover_file_transaction demo_env [''p''] ''u'' ?w) = Err (TransactionConflict [''p'', ''b''] [''p'', ''.konnect-transaction-u.json''])"
    by code_simp
  with recovery_preserves_divergent [OF h] show ?thesis by simp
qed

lemma readonly_inspect_targets [readonly_rules]: "readonly (inspect_targets base es)"
  by (induction es) (auto simp: Let_def intro!: readonly_rules)

lemma readonly_inspect_journal [readonly_rules]: "readonly (inspect_journal base p j)"
  unfolding inspect_journal_def by (intro readonly_rules)

lemma readonly_inspect_loop [readonly_rules]: "readonly (inspect_loop E base ps)"
  by (induction ps) (auto intro!: readonly_rules)

text \<open>What the status of a target says of the tree.\<close>

definition status_right :: "tree \<Rightarrow> path \<Rightarrow> journal_entry \<Rightarrow> target_status \<Rightarrow> bool" where
  "status_right fs base e t \<longleftrightarrow> ts_path t = je_path e \<and>
     ts_state t = (if lookup fs (base @ je_path e) = Some (File (je_replacement e)) then Applied
       else if lookup fs (base @ je_path e) = map_option File (je_expected e) then Pending else Divergent)"

lemma inspect_targets_ok:
  assumes "inspect_targets base es w = (Ok ts, w')" and "\<And>e. e \<in> set es \<Longrightarrow> target_canon (files w) (base @ je_path e)"
  shows "list_all2 (status_right (files w) base) es ts"
  using assms
proof (induction es arbitrary: ts w w')
  case (Cons e es)
  from Cons.prems(1) obtain c w1 ts' w2 where c: "current_content (base @ je_path e) w = (Ok c, w1)"
      and r: "inspect_targets base es w1 = (Ok ts', w2)"
      and ts: "ts = \<lparr>ts_path = je_path e, ts_state = (if c = Some (je_replacement e) then Applied else if c = je_expected e then Pending else Divergent)\<rparr> # ts'"
    by (auto simp: Let_def io_return_def elim!: io_bind_ok)
  have w1: "files w1 = files w" using readonly_files [OF readonly_content(2) c] .
  have "lookup (files w) (base @ je_path e) = map_option File c" using current_content_ok [OF c] Cons.prems(2) by simp
  then have "status_right (files w) base e (hd ts)"
    unfolding ts by (cases c; cases "je_expected e") (auto simp: status_right_def)
  then show ?case using Cons.IH [OF r] Cons.prems(2) w1 ts by simp
qed (simp add: io_return_def)

lemma inspect_journal_ok:
  assumes "inspect_journal base p j w = (Ok st, w')" and "valid_journal E (files w) base p j"
  shows "st_id st = j_id j \<and> st_journal st = p \<and> list_all2 (status_right (files w) base) (entries j) (st_targets st)"
  using assms valid_journal_canon(1) [OF assms(2)] inspect_targets_ok
  unfolding inspect_journal_def by (fastforce elim!: io_bind_ok simp: io_return_def)

lemma list_all2_all: "list_all2 R xs ys \<Longrightarrow> (\<And>x y. R x y \<Longrightarrow> P x \<longleftrightarrow> Q y) \<Longrightarrow> (\<forall>x \<in> set xs. P x) \<longleftrightarrow> (\<forall>y \<in> set ys. Q y)"
  by (induction rule: list_all2_induct) auto

lemma divergent_iff:
  assumes "list_all2 (status_right fs base) es ts"
  shows "recoverable fs base es \<longleftrightarrow> (\<forall>t \<in> set ts. ts_state t \<noteq> Divergent)"
  unfolding recoverable_def by (rule list_all2_all [OF assms]) (auto simp: status_right_def split: if_splits)

lemma io_bind_err:
  assumes "io_bind m k w = (Err e, w')"
  obtains "m w = (Err e, w')" | x w1 where "m w = (Ok x, w1)" "k x w1 = (Err e, w')"
  using assms by (auto simp: io_bind_def split: prod.splits outcome.splits)

definition is_io :: "sexp_error \<Rightarrow> bool" where
  "is_io e \<longleftrightarrow> (\<exists>k. e = Io k)"

lemma sys_err_io:
  "sys_metadata p w = (Err e, w') \<Longrightarrow> is_io e" "sys_canonicalize p w = (Err e, w') \<Longrightarrow> is_io e"
  unfolding sys_metadata_def sys_canonicalize_def is_io_def by (auto dest!: syscall_err split: option.splits node.splits)

lemma normalize_target_err:
  assumes "normalize_target base p w = (Err e, w')" and "\<not> is_io e"
  shows "target_of (files w) base p = None"
proof (cases "file_name (joined base p)")
  case (Some name)
  then obtain q w1 where "sys_canonicalize (butlast (joined base p)) w = (Ok q, w1)" "\<not> prefix base q"
    using assms sys_err_io(2) unfolding normalize_target_def Let_def
    by (auto elim!: io_bind_err simp: io_return_def split: if_splits)
  then show ?thesis using Some by (auto simp: target_of_def dest!: sys_canonicalize_ok)
qed (simp add: target_of_def)

lemma validate_loop_err:
  assumes "validate_loop base seen es w = (Err e, w')" and "\<not> is_io e"
  shows "\<not> (distinct (map je_path es) \<and> je_path ` set es \<inter> set seen = {} \<and>
     (\<forall>e \<in> set es. target_of (files w) base (Abs (base @ je_path e)) = Some (je_path e)))"
  using assms(1)
proof (induction es arbitrary: seen w)
  case (Cons x xs)
  let ?t = "target_of (files w) base (Abs (base @ je_path x))"
  from Cons.prems have "normalize_target base (Abs (base @ je_path x)) w = (Err e, w') \<or>
      (\<exists>n w1. normalize_target base (Abs (base @ je_path x)) w = (Ok n, w1) \<and>
        (if n \<noteq> je_path x \<or> n \<in> set seen then io_throw InvalidValue else validate_loop base (n # seen) xs) w1 = (Err e, w'))"
    unfolding validate_loop.simps by (elim io_bind_err) blast+
  then show ?case
  proof (elim disjE exE conjE)
    assume "normalize_target base (Abs (base @ je_path x)) w = (Err e, w')"
    then have "?t = None" using normalize_target_err assms(2) by blast
    then show ?thesis by simp
  next
    fix n w1 assume n: "normalize_target base (Abs (base @ je_path x)) w = (Ok n, w1)"
      and k: "(if n \<noteq> je_path x \<or> n \<in> set seen then io_throw InvalidValue else validate_loop base (n # seen) xs) w1 = (Err e, w')"
    have t: "?t = Some n" by (rule normalize_target_ok [OF n])
    show ?thesis
    proof (cases "n \<noteq> je_path x \<or> n \<in> set seen")
      case False
      then have "validate_loop base (n # seen) xs w1 = (Err e, w')" using k by simp
      from Cons.IH [OF this] readonly_files [OF readonly_normalize_target n] False show ?thesis by auto
    qed (use t in auto)
  qed
qed (simp add: io_return_def)

lemma read_validated_err:
  assumes r: "read_validated_journal E base p w = (Err e, w')" and t: "target_real (files w) p" and e: "\<not> is_io e"
  shows "\<not> valid_journal E (files w) base p j"
proof
  assume v: "valid_journal E (files w) base p j"
  then obtain s where s: "lookup (files w) p = Some (File s)" "from_json E s = Some j" by (auto simp: valid_journal_def)
  from r e obtain n w1 where m: "sys_metadata p w = (Ok n, w1)"
    unfolding read_validated_journal_def using sys_err_io(1) by (auto elim!: io_bind_err)
  note n = sys_metadata_ok [OF m]
  from r m n s e obtain source w2 where rd: "sys_read p w1 = (Ok source, w2)"
      and k: "(case from_json E source of None \<Rightarrow> io_throw InvalidValue
               | Some j \<Rightarrow>
                   io_then (validate_transaction_id (j_id j))
                   (io_then (io_when (journal_path base (j_id j) \<noteq> p) InvalidValue)
                   (io_then (io_when (version j \<noteq> JOURNAL_VERSION) InvalidValue)
                   (io_then (validate_journal_entries base (entries j))
                     (io_return j))))) w2 = (Err e, w')"
    unfolding read_validated_journal_def
    by (auto elim!: io_bind_err) (metis is_io_def node.distinct(3) sys_read_target(2) t)
  have w2: "files w2 = files w" "source = s"
    using sys_read_target(1) [OF rd, of "File s"] t n s readonly_files [OF readonly_calls(3) rd] by auto
  have "validate_journal_entries base (entries j) w2 = (Err e, w')"
    using k w2 s v by (auto simp: io_then_def validate_transaction_id_def valid_journal_def io_when_def io_return_def elim!: io_bind_err)
  then have "validate_loop base [] (entries j) w2 = (Err e, w')"
    using v by (simp add: validate_journal_entries_def valid_journal_def)
  from validate_loop_err [OF this e] v w2 show False by (simp add: valid_journal_def)
qed

lemma readonly_abandon_check [readonly_rules]: "readonly (abandon_check E base p)"
  unfolding readonly_def
proof
  fix w :: world
  have k: "readonly (io_bind (lock_entries base (entries j)) (\<lambda>_. io_bind (inspect_journal base p j) (\<lambda>s.
      if list_all (\<lambda>t. ts_state t \<noteq> Divergent) (st_targets s) then io_throw InvalidValue else io_return True)))" for j
    by (intro readonly_rules)
  obtain r w1 where r: "read_validated_journal E base p w = (r, w1)" by fastforce
  have "files w1 = files w" using readonly_files [OF readonly_read_journal r] .
  then show "files (snd (abandon_check E base p w)) = files w"
    using k r unfolding abandon_check_def readonly_def by (auto split: outcome.splits sexp_error.splits)
qed

lemma abandon_check_ok:
  assumes "abandon_check E base p w = (Ok valid, w')" and "target_real (files w) p"
  shows "if valid then \<exists>j. valid_journal E (files w) base p j \<and> \<not> recoverable (files w) base (entries j)
    else \<forall>j. \<not> valid_journal E (files w) base p j"
proof -
  obtain r w1 where r: "read_validated_journal E base p w = (r, w1)" by fastforce
  show ?thesis
  proof (cases r)
    case (Ok j)
    have v: "valid_journal E (files w) base p j" by (rule read_validated_ok [OF r [unfolded Ok] assms(2)])
    have w1: "files w1 = files w" using readonly_files [OF readonly_read_journal r] .
    from assms(1) r Ok obtain w2 st w3 where l: "files w2 = files w1" and st: "inspect_journal base p j w2 = (Ok st, w3)"
        and d: "\<not> list_all (\<lambda>t. ts_state t \<noteq> Divergent) (st_targets st)" and valid: "valid"
      unfolding abandon_check_def
      by (auto elim!: io_bind_ok simp: io_throw_def io_return_def split: if_splits) (metis readonly_files readonly_locks)
    have "list_all2 (status_right (files w) base) (entries j) (st_targets st)"
      using inspect_journal_ok [OF st, of E] v l w1 by simp
    then show ?thesis using d valid v divergent_iff by (auto simp: list_all_iff)
  next
    case (Err e)
    then have "\<not> is_io e \<and> \<not> valid"
      using assms(1) r unfolding abandon_check_def is_io_def by (auto split: sexp_error.splits)
    then show ?thesis using read_validated_err [OF r [unfolded Err] assms(2)] by simp
  next
    case Killed
    then show ?thesis using assms(1) r by (simp add: abandon_check_def)
  qed
qed

definition abandon_tail :: "string \<Rightarrow> path \<Rightarrow> bool \<Rightarrow> abandoned_transaction io" where
  "abandon_tail tid base valid =
     io_then (sys_rename (journal_path base tid) (abandoned_journal_path base tid))
       (io_then (sync_parent_directory base)
         (io_return \<lparr>ab_id = tid, ab_journal = journal_path base tid, ab_abandoned_journal = abandoned_journal_path base tid, was_valid = valid\<rparr>))"

definition moved :: "tree \<Rightarrow> path \<Rightarrow> string \<Rightarrow> tree \<Rightarrow> bool" where
  "moved fs0 base tid fs \<longleftrightarrow> lookup fs (journal_path base tid) = None \<and>
     lookup fs (abandoned_journal_path base tid) = lookup fs0 (journal_path base tid) \<and>
     (\<forall>q. q \<noteq> journal_path base tid \<and> q \<noteq> abandoned_journal_path base tid \<longrightarrow> lookup fs q = lookup fs0 q)"

lemma journal_paths_distinct: "journal_path base tid \<noteq> abandoned_journal_path base tid" "journal_path base tid \<noteq> []"
    "abandoned_journal_path base tid \<noteq> []"
  by (auto simp: journal_path_def abandoned_journal_path_def JOURNAL_SUFFIX_def)

lemma abandon_tail_spec:
  "hoare (\<lambda>fs. fs = fs0) (abandon_tail tid base valid) (\<lambda>a fs. was_valid a = valid \<and> moved fs0 base tid fs) (\<lambda>fs. fs = fs0 \<or> moved fs0 base tid fs)"
  (is "hoare _ _ _ ?X")
proof -
  have rn: "hoare (\<lambda>fs. fs = fs0) (sys_rename (journal_path base tid) (abandoned_journal_path base tid)) (\<lambda>_. moved fs0 base tid) ?X"
    unfolding sys_rename_def
    by (rule hoare_syscall) (auto simp: moved_def journal_paths_distinct journal_paths_distinct(1) [symmetric] split: option.splits)
  have sy: "hoare (moved fs0 base tid) (sync_parent_directory base) (\<lambda>_. moved fs0 base tid) ?X"
    unfolding sync_parent_directory_def by (rule readonly_hoare) (auto intro: readonly_rules)
  have "hoare (moved fs0 base tid) (io_return a) (\<lambda>a' fs. a' = a \<and> moved fs0 base tid fs) ?X" for a :: abandoned_transaction
    by (simp add: hoare_def io_return_def)
  from hoare_then [OF rn hoare_then [OF sy this]] show ?thesis
    unfolding abandon_tail_def by (rule hoare_conseq) auto
qed

text \<open>C23. Abandoning moves the journal aside and nothing else: whatever the faults, no target and no other
  file changes, and the tree is either as before or has the journal under its abandoned name. It returns
  normally only for a journal that is not recoverable: a valid one with a divergent target, or one that
  does not pass validation at all.\<close>

theorem abandon_safe:
  assumes "abandon_file_transaction E dir tid w = (r, w')" and "canonicalize (files w) dir = Some base"
  shows "(files w' = files w \<or> moved (files w) base tid (files w')) \<and>
    (\<forall>a. r = Ok a \<longrightarrow> moved (files w) base tid (files w') \<and>
       (if was_valid a then \<exists>j. valid_journal E (files w) base (journal_path base tid) j \<and> \<not> recoverable (files w) base (entries j)
        else \<forall>j. \<not> valid_journal E (files w) base (journal_path base tid) j))"
proof -
  let ?p = "journal_path base tid" and ?fs0 = "files w"
  define V where "V = (\<lambda>valid. if valid then \<exists>j. valid_journal E ?fs0 base ?p j \<and> \<not> recoverable ?fs0 base (entries j)
        else \<forall>j. \<not> valid_journal E ?fs0 base ?p j)"
  let ?P = "\<lambda>fs. fs = ?fs0" and ?Q = "\<lambda>a fs. V (was_valid a) \<and> moved ?fs0 base tid fs" and ?X = "\<lambda>fs. fs = ?fs0 \<or> moved ?fs0 base tid fs"
  have cd: "hoare ?P (canonical_directory dir) (\<lambda>b fs. (?P fs \<and> real_dir ?fs0 base) \<and> b = base) ?X"
  proof (rule hoare_readonly [OF readonly_canonical])
    fix u u' :: world and b assume "files u = ?fs0" "canonical_directory dir u = (Ok b, u')"
    then show "(files u = ?fs0 \<and> real_dir ?fs0 base) \<and> b = base"
      using canonical_directory_value [of dir u b u' base] assms(2) by simp
  qed simp
  have ck: "hoare (\<lambda>fs. ?P fs \<and> real_dir ?fs0 base) (abandon_check E base ?p) (\<lambda>valid fs. ?P fs \<and> V valid) ?X"
  proof (rule hoare_readonly [OF readonly_abandon_check])
    fix u u' :: world and valid assume P: "files u = ?fs0 \<and> real_dir ?fs0 base" and c: "abandon_check E base ?p u = (Ok valid, u')"
    then have "target_real (files u) ?p" using target_real_journal by simp
    from abandon_check_ok [OF c this] P show "files u = ?fs0 \<and> V valid" by (cases valid) (auto simp: V_def)
  qed simp
  have tl: "hoare (\<lambda>fs. ?P fs \<and> V valid) (abandon_tail tid base valid) ?Q ?X" for valid
  proof (cases "V valid")
    case True
    then show ?thesis by (intro hoare_conseq [OF abandon_tail_spec [of ?fs0 tid base valid]]) auto
  qed (auto simp: hoare_def)
  have ex: "hoare (\<lambda>fs. ?P fs \<and> V valid) (io_bind (sys_exists (abandoned_journal_path base tid)) (\<lambda>there.
      if there then io_throw InvalidValue else abandon_tail tid base valid)) ?Q ?X" for valid
    by (rule hoare_bind [OF readonly_hoare [OF readonly_probe(1)]])
       (auto intro!: hoare_if tl hoare_pre [OF hoare_throw])
  have rest: "hoare (\<lambda>fs. ?P fs \<and> real_dir ?fs0 base) (io_then (validate_transaction_id tid) (io_bind (sys_is_file ?p) (\<lambda>is_file.
      if \<not> is_file then io_throw InvalidValue
      else io_bind (abandon_check E base ?p) (\<lambda>valid. io_bind (sys_exists (abandoned_journal_path base tid)) (\<lambda>there.
        if there then io_throw InvalidValue else abandon_tail tid base valid))))) ?Q ?X"
    by (rule hoare_then [OF readonly_hoare [OF readonly_validate_id] hoare_bind [OF readonly_hoare [OF readonly_probe(2)]]])
       (auto intro!: hoare_if hoare_bind [OF ck ex] hoare_pre [OF hoare_throw])
  have "hoare ?P (abandon_file_transaction E dir tid) ?Q ?X"
    unfolding abandon_file_transaction_def Let_def abandon_tail_def [symmetric]
    by (rule hoare_bind [OF cd hoare_value [where k = "\<lambda>base. io_then (validate_transaction_id tid) (io_bind (sys_is_file (journal_path base tid)) (\<lambda>is_file.
      if \<not> is_file then io_throw InvalidValue
      else io_bind (abandon_check E base (journal_path base tid)) (\<lambda>valid. io_bind (sys_exists (abandoned_journal_path base tid)) (\<lambda>there.
        if there then io_throw InvalidValue else abandon_tail tid base valid))))", OF rest]])
  from hoareD [OF this _ assms(1)] show ?thesis by (cases r) (auto simp: V_def split: if_splits)
qed

theorem abandon_safe_witness:
  "fst (abandon_file_transaction demo_env [''p''] ''u'' demo_killed) = Err InvalidValue \<and>
   files (snd (abandon_file_transaction demo_env [''p''] ''u'' demo_killed)) = files demo_killed"
proof -
  have f: "fst (abandon_file_transaction demo_env [''p''] ''u'' demo_killed) = Err InvalidValue"
    "canonicalize (files demo_killed) [''p''] = Some [''p'']"
    "lookup (files (snd (abandon_file_transaction demo_env [''p''] ''u'' demo_killed))) (journal_path [''p''] ''u'') \<noteq> None"
    by (code_simp, code_simp, code_simp)
  from abandon_safe [OF prod.collapse [symmetric] f(2), of demo_env "''u''"] f(1,3)
  show ?thesis by (auto simp: moved_def)
qed

text \<open>Inspection changes nothing, whatever happens; and when it returns, it lists every active journal of
  the project in order, each of them valid, with every target reported as applied, pending or divergent exactly
  according to the content it has.\<close>

theorem inspection_reports:
  assumes "inspect_file_transactions E dir w = (r, w')" and "canonicalize (files w) dir = Some base"
  shows "files w' = files w \<and> (\<forall>sts. r = Ok sts \<longrightarrow>
     sorted (map st_journal sts) \<and> distinct (map st_journal sts) \<and>
     set (map st_journal sts) = {q. butlast q = base \<and> is_journal_path q \<and> lookup (files w) q \<noteq> None} \<and>
     list_all (\<lambda>st. \<exists>j. valid_journal E (files w) base (st_journal st) j \<and> st_id st = j_id j \<and>
       list_all2 (status_right (files w) base) (entries j) (st_targets st)) sts)"
proof -
  have ro: "readonly (inspect_file_transactions E dir)" unfolding inspect_file_transactions_def by (intro readonly_rules)
  have loop: "map st_journal sts = ps \<and> list_all (\<lambda>st. \<exists>j. valid_journal E (files u) base (st_journal st) j \<and> st_id st = j_id j \<and>
       list_all2 (status_right (files u) base) (entries j) (st_targets st)) sts"
    if "inspect_loop E base ps u = (Ok sts, u')" "\<forall>p \<in> set ps. target_real (files u) p" for ps sts u u'
    using that
  proof (induction ps arbitrary: sts u)
    case (Cons p ps)
    from Cons.prems(1) obtain j u1 u2 st u3 sts' where v: "read_validated_journal E base p u = (Ok j, u1)"
        and l: "files u2 = files u1" and st: "inspect_journal base p j u2 = (Ok st, u3)"
        and lp: "inspect_loop E base ps u3 = (Ok sts', u')" and sts: "sts = st # sts'"
      by (auto elim!: io_bind_ok simp: io_return_def) (metis readonly_files readonly_locks)
    have u: "files u1 = files u" "files u3 = files u2"
      using readonly_files [OF readonly_read_journal v] readonly_files [OF readonly_inspect_journal st] by auto
    have vj: "valid_journal E (files u) base p j" using read_validated_ok [OF v] Cons.prems(2) by simp
    show ?case
      using Cons.IH [OF lp] Cons.prems(2) inspect_journal_ok [OF st, of E] vj l u sts by auto
  qed (simp add: io_return_def)
  have "sorted (map st_journal sts) \<and> distinct (map st_journal sts) \<and>
     set (map st_journal sts) = {q. butlast q = base \<and> is_journal_path q \<and> lookup (files w) q \<noteq> None} \<and>
     list_all (\<lambda>st. \<exists>j. valid_journal E (files w) base (st_journal st) j \<and> st_id st = j_id j \<and>
       list_all2 (status_right (files w) base) (entries j) (st_targets st)) sts" if r: "r = Ok sts" for sts
  proof -
    from assms(1) r obtain b w1 ps w2 where cd: "canonical_directory dir w = (Ok b, w1)" and a: "active_journal_paths b w1 = (Ok ps, w2)"
        and lp: "inspect_loop E b ps w2 = (Ok sts, w')"
      unfolding inspect_file_transactions_def by (auto elim!: io_bind_ok)
    have b: "b = base" "files w1 = files w" "real_dir (files w) base" using canonical_directory_value [OF cd assms(2)] by auto
    note act = active_journal_ok [OF a]
    have srt: "sorted ps" using a unfolding active_journal_paths_def by (auto elim!: io_bind_ok simp: io_return_def)
    have w2: "files w2 = files w" using readonly_files [OF readonly_active a] b by simp
    have "target_real (files w) p" if "p \<in> set ps" for p
    proof -
      have "p \<in> {q. butlast q = b \<and> is_journal_path q \<and> lookup (files w1) q \<noteq> None}" using act that by metis
      then show ?thesis using b by (auto simp: target_real_def is_journal_path_iff JOURNAL_PREFIX_def)
    qed
    then have lst: "map st_journal sts = ps" and ok: "list_all (\<lambda>st. \<exists>j. valid_journal E (files w) base (st_journal st) j \<and> st_id st = j_id j \<and>
       list_all2 (status_right (files w) base) (entries j) (st_targets st)) sts"
      using loop [of ps w2 sts w'] lp b w2 by auto
    have "set ps = {q. butlast q = base \<and> is_journal_path q \<and> lookup (files w) q \<noteq> None}" "distinct ps" using act b by auto
    then show ?thesis unfolding lst using srt ok by blast
  qed
  then show ?thesis using readonly_files [OF ro assms(1)] by blast
qed

theorem inspection_reports_witness:
  "fst (inspect_file_transactions demo_env [''p''] demo_killed) = Ok [\<lparr>st_id = ''u'', st_journal = [''p'', ''.konnect-transaction-u.json''],
     st_targets = [\<lparr>ts_path = [''a''], ts_state = Applied\<rparr>, \<lparr>ts_path = [''b''], ts_state = Pending\<rparr>]\<rparr>] \<and>
   files (snd (inspect_file_transactions demo_env [''p''] demo_killed)) = files demo_killed"
proof -
  have f: "fst (inspect_file_transactions demo_env [''p''] demo_killed) = Ok [\<lparr>st_id = ''u'', st_journal = [''p'', ''.konnect-transaction-u.json''],
     st_targets = [\<lparr>ts_path = [''a''], ts_state = Applied\<rparr>, \<lparr>ts_path = [''b''], ts_state = Pending\<rparr>]\<rparr>]"
    "canonicalize (files demo_killed) [''p''] = Some [''p'']"
    by (code_simp, code_simp)
  with inspection_reports [OF prod.collapse [symmetric] f(2), of demo_env] show ?thesis by simp
qed

section \<open>Single atomic writes\<close>

text \<open>Creating never gets past an existing file.\<close>

lemma write_new_refuses:
  assumes E: "env_ok E" and p: "\<not> is_temp p"
  shows "hoare (\<lambda>fs. lookup fs p = Some n) (write_new_atomic_unlocked E p c) (\<lambda>_ _. False) (\<lambda>fs. lookup fs p = Some n)"
    (is "hoare ?P _ ?F ?P")
proof -
  have temp: "hoare ?P (temp_path E (butlast p)) (\<lambda>tmp fs. ?P fs \<and> tmp \<noteq> [] \<and> is_temp tmp) ?P"
    by (rule hoare_pure [where f = "\<lambda>w. butlast p @ [''.konnect-'' @ temp_name E (nonce w)]"])
       (use temp_path_temp [OF E] in \<open>auto simp: temp_path_def\<close>)
  have "hoare ?P (io_bind (sys_create_new tmp) (\<lambda>created.
       io_then (io_when (\<not> created) (Io AlreadyExists)) (io_then (guarded tmp (io_then (sys_write tmp c)
         (io_then (ensure_kicad_design_document_is_closed p) (sys_rename_noclobber tmp p)))) (sync_parent_directory (butlast p))))) ?F ?P"
    if t: "tmp \<noteq> []" "is_temp tmp" for tmp
  proof -
    have ne: "tmp \<noteq> p" using t p by auto
    have mk: "hoare ?P (sys_create_new tmp) (\<lambda>_. ?P) ?P"
      unfolding sys_create_new_def by (rule hoare_syscall) (use t ne in auto)
    have wr: "hoare ?P (sys_write tmp c) (\<lambda>_. ?P) ?P"
      unfolding sys_write_def by (rule hoare_syscall) (use t ne in auto)
    have rn: "hoare ?P (sys_rename_noclobber tmp p) ?F ?P"
      unfolding sys_rename_noclobber_def by (rule hoare_syscall) (auto split: option.splits)
    have rm: "hoare ?P (sys_remove tmp) (\<lambda>_. ?P) ?P"
      unfolding sys_remove_def by (rule hoare_syscall) (use t ne in \<open>auto split: option.splits node.splits\<close>)
    have cl: "hoare ?P (ensure_kicad_design_document_is_closed p) (\<lambda>_. ?P) ?P" by (rule readonly_hoare [OF readonly_closed])
    have wh: "hoare ?P (io_when b (Io AlreadyExists)) (\<lambda>_. ?P) ?P" for b by (rule readonly_hoare [OF readonly_when])
    have gd: "hoare ?P (guarded tmp (io_then (sys_write tmp c)
         (io_then (ensure_kicad_design_document_is_closed p) (sys_rename_noclobber tmp p)))) (\<lambda>_ _. False) ?P"
      by (rule hoare_guarded [OF hoare_then [OF wr hoare_then [OF cl rn]] rm])
    have "hoare (\<lambda>_. False) (sync_parent_directory (butlast p)) ?F ?P" by (simp add: hoare_def)
    then show ?thesis by (rule hoare_bind [OF mk hoare_then [OF wh hoare_then [OF gd]]])
  qed
  then have "hoare (\<lambda>fs. ?P fs \<and> tmp \<noteq> [] \<and> is_temp tmp) (io_bind (sys_create_new tmp) (\<lambda>created.
       io_then (io_when (\<not> created) (Io AlreadyExists)) (io_then (guarded tmp (io_then (sys_write tmp c)
         (io_then (ensure_kicad_design_document_is_closed p) (sys_rename_noclobber tmp p)))) (sync_parent_directory (butlast p))))) ?F ?P" for tmp
    by (cases "tmp \<noteq> [] \<and> is_temp tmp") (auto intro: hoare_pre simp: hoare_def)
  note all = hoare_bind [OF temp this]
  have "hoare ?P (ensure_kicad_design_document_is_closed p) (\<lambda>_. ?P) ?P" by (rule readonly_hoare [OF readonly_closed])
  then show ?thesis
    unfolding write_new_atomic_unlocked_def by (rule hoare_then [OF _ all])
qed

text \<open>C24. A write is all or nothing. Whatever system call fails or kills the process, afterwards the target
  holds either what it held or the complete new content, no other file has changed except for a scratch file
  that may be left over, and a normal return means the new content is there. Creating a file never replaces
  one that exists: it does not return normally and the file keeps its content.\<close>

theorem atomic_write_all_or_nothing:
  assumes "env_ok E" and "p \<noteq> []" and "\<not> is_temp p"
    and "run = write_atomic_unlocked E p c \<or> run = write_new_atomic_unlocked E p c" and "run w = (r, w')"
  shows "(lookup (files w') p = lookup (files w) p \<or> lookup (files w') p = Some (File c)) \<and>
    (\<forall>q. q \<noteq> p \<longrightarrow> lookup (files w') q = lookup (files w) q \<or> lookup (files w) q = None \<and> is_temp q) \<and>
    (r = Ok () \<longrightarrow> lookup (files w') p = Some (File c)) \<and>
    (run = write_new_atomic_unlocked E p c \<and> lookup (files w) p \<noteq> None \<longrightarrow> r \<noteq> Ok () \<and> lookup (files w') p = lookup (files w) p)"
proof -
  have "write_effect (files w) p c run"
    using assms(4) write_atomic_effect [OF assms(2,3)] write_new_atomic_effect [OF assms(1,2,3)] by auto
  then have eff: "case r of Ok x \<Rightarrow> kept (files w) (files w') p \<and> lookup (files w') p = Some (File c)
      | _ \<Rightarrow> kept (files w) (files w') p \<and> (lookup (files w') p = lookup (files w) p \<or> lookup (files w') p = Some (File c))"
    unfolding write_effect_def using hoareD [where m = run and w = w and r = r and w' = w'] assms(5) by blast
  moreover have "r \<noteq> Ok () \<and> lookup (files w') p = lookup (files w) p"
    if "run = write_new_atomic_unlocked E p c" "lookup (files w) p = Some n" for n
    using hoareD [OF write_new_refuses [OF assms(1,3)] that(2) assms(5) [unfolded that(1)]] that by (cases r) auto
  ultimately show ?thesis by (cases r; cases "lookup (files w) p") (auto simp: kept_def)
qed

theorem atomic_write_all_or_nothing_witness:
  "fst (write_atomic_unlocked demo_env [''p'', ''a''] ''new'' (demo_world [Proceed, Proceed, Fail, Kill])) = Killed \<and>
   lookup (files (snd (write_atomic_unlocked demo_env [''p'', ''a''] ''new'' (demo_world [Proceed, Proceed, Fail, Kill])))) [''p'', ''a'']
     = Some (File ''x'')"
proof -
  let ?w = "demo_world [Proceed, Proceed, Fail, Kill]"
  have e: "env_ok demo_env" using demo_env_ok by (simp add: tx_env_ok_def)
  have t: "\<not> is_temp [''p'', ''a'']" by code_simp
  have v: "fst (write_atomic_unlocked demo_env [''p'', ''a''] ''new'' ?w) = Killed"
    "lookup (files (snd (write_atomic_unlocked demo_env [''p'', ''a''] ''new'' ?w))) [''p'', ''a''] \<noteq> Some (File ''new'')"
    "lookup (files ?w) [''p'', ''a''] = Some (File ''x'')"
    by (code_simp, code_simp, code_simp)
  from atomic_write_all_or_nothing [OF e _ t disjI1 [OF refl], of "''new''" ?w] v show ?thesis
    by (metis list.distinct(1) prod.collapse)
qed

end
