(* ===== verification/Document.thy ===== *)
theory Document
  imports Transaction_Theorems
begin

text \<open>
  The document operations of \<open>crates/konnect-sexp/src/writer.rs\<close> that take the document lock: plain
  atomic writes, compare-and-swap, and read-modify-write with a caller's update.
\<close>

definition write_atomic :: "'e env_scheme \<Rightarrow> path \<Rightarrow> string \<Rightarrow> unit io" where
  "write_atomic E p content = io_bind (open_document_lock p) (\<lambda>_. write_atomic_unlocked E p content)"

definition write_new_atomic :: "'e env_scheme \<Rightarrow> path \<Rightarrow> string \<Rightarrow> unit io" where
  "write_new_atomic E p content = io_bind (open_document_lock p) (\<lambda>_. write_new_atomic_unlocked E p content)"

definition write_atomic_if_unchanged :: "'e env_scheme \<Rightarrow> path \<Rightarrow> string \<Rightarrow> string \<Rightarrow> unit io" where
  "write_atomic_if_unchanged E p expected content =
     io_bind (open_document_lock p) (\<lambda>_.
       io_bind (read_string_unlocked p) (\<lambda>current.
         if current \<noteq> expected then io_throw (Conflict p)
         else io_then (write_atomic_unlocked E p content)
           (io_bind (sys_read p) (\<lambda>back. io_when (back \<noteq> content) (Conflict p)))))"

definition transact_atomic :: "'e env_scheme \<Rightarrow> path \<Rightarrow> (string \<Rightarrow> sexp_error + (string \<times> 'a)) \<Rightarrow> 'a io" where
  "transact_atomic E p update =
     io_bind (open_document_lock p) (\<lambda>_.
       io_bind (read_string_unlocked p) (\<lambda>current.
         case update current of Inl e \<Rightarrow> io_throw e
           | Inr (nxt, result) \<Rightarrow>
               io_then (if nxt \<noteq> current
                   then io_then (write_atomic_unlocked E p nxt) (io_bind (sys_read p) (\<lambda>back. io_when (back \<noteq> nxt) (Conflict p)))
                   else io_return ())
                 (io_return result)))"

definition read_consistent :: "path \<Rightarrow> string io" where
  "read_consistent p = io_bind (open_document_lock p) (\<lambda>_. read_string_unlocked p)"

lemma read_ok:
  assumes "target_real fs p" "lookup fs p = Some (File s)" "files w = fs" "sys_read p w = (Ok c, w')"
  shows "c = s"
  using sys_read_target(1) [OF assms(4), of "File s"] assms by auto

text \<open>One guarded replacement inside the lock: the content afterwards is the old or the new one, and a normal
  return means it is the new one and was read back.\<close>

lemma replace_and_check:
  assumes p: "p \<noteq> []" "\<not> is_temp p"
  shows "hoare (\<lambda>fs. \<forall>q. lookup fs q = lookup fs0 q)
    (io_then (write_atomic_unlocked E p c) (io_bind (sys_read p) (\<lambda>back. io_when (back \<noteq> c) (Conflict p))))
    (\<lambda>_ fs. kept fs0 fs p \<and> lookup fs p = Some (File c))
    (\<lambda>fs. kept fs0 fs p \<and> (lookup fs p = lookup fs0 p \<or> lookup fs p = Some (File c)))"
proof -
  let ?Q = "\<lambda>fs. kept fs0 fs p \<and> lookup fs p = Some (File c)"
  let ?X = "\<lambda>fs. kept fs0 fs p \<and> (lookup fs p = lookup fs0 p \<or> lookup fs p = Some (File c))"
  have w: "hoare (\<lambda>fs. \<forall>q. lookup fs q = lookup fs0 q) (write_atomic_unlocked E p c) (\<lambda>_. ?Q) ?X"
    using write_atomic_effect [OF p] by (simp add: write_effect_def)
  have "readonly (io_bind (sys_read p) (\<lambda>back. io_when (back \<noteq> c) (Conflict p)))" by (intro readonly_rules)
  then have "hoare ?Q (io_bind (sys_read p) (\<lambda>back. io_when (back \<noteq> c) (Conflict p))) (\<lambda>_. ?Q) ?X"
    by (rule readonly_hoare) simp
  then show ?thesis by (rule hoare_then [OF w])
qed

lemma read_current:
  assumes "target_real fs0 p" "lookup fs0 p = Some (File old)"
  shows "hoare (\<lambda>fs. fs = fs0) (io_bind (open_document_lock p) (\<lambda>_. read_string_unlocked p)) (\<lambda>c fs. fs = fs0 \<and> c = old) (\<lambda>fs. fs = fs0)"
proof (rule hoare_readonly)
  show "readonly (io_bind (open_document_lock p) (\<lambda>_. read_string_unlocked p))"
    unfolding read_string_unlocked_def by (intro readonly_rules)
  fix w w' :: world and c assume fs: "files w = fs0" and r: "io_bind (open_document_lock p) (\<lambda>_. read_string_unlocked p) w = (Ok c, w')"
  from r obtain l w1 where l: "open_document_lock p w = (Ok l, w1)" and rd: "sys_read p w1 = (Ok c, w')"
    unfolding read_string_unlocked_def by (rule io_bind_ok)
  have "files w1 = fs0" using readonly_files [OF readonly_open_lock l] fs by simp
  from read_ok [OF assms this rd] show "files w = fs0 \<and> c = old" using fs by simp
qed simp

lemma io_bind_assoc: "io_bind (io_bind m k) h = io_bind m (\<lambda>x. io_bind (k x) h)"
  by (auto simp: io_bind_def fun_eq_iff split: prod.splits outcome.splits)

lemma transact_effect:
  assumes real: "target_real fs0 p" and t: "\<not> is_temp p" and old: "lookup fs0 p = Some (File old)"
  shows "case update old of
       Inl e \<Rightarrow> hoare (\<lambda>fs. fs = fs0) (transact_atomic E p update) (\<lambda>_ _. False) (\<lambda>fs. fs = fs0)
     | Inr (nxt, x) \<Rightarrow> hoare (\<lambda>fs. fs = fs0) (transact_atomic E p update)
         (\<lambda>y fs. y = x \<and> kept fs0 fs p \<and> lookup fs p = Some (File nxt))
         (\<lambda>fs. kept fs0 fs p \<and> (lookup fs p = lookup fs0 p \<or> lookup fs p = Some (File nxt)))"
proof -
  define body where "body = (\<lambda>current. case update current of Inl e \<Rightarrow> io_throw e
           | Inr (nxt, result) \<Rightarrow>
               io_then (if nxt \<noteq> current
                   then io_then (write_atomic_unlocked E p nxt) (io_bind (sys_read p) (\<lambda>back. io_when (back \<noteq> nxt) (Conflict p)))
                   else io_return ())
                 (io_return result))"
  have t_def: "transact_atomic E p update = io_bind (io_bind (open_document_lock p) (\<lambda>_. read_string_unlocked p)) body"
    by (simp add: transact_atomic_def io_bind_assoc body_def)
  have p: "p \<noteq> []" using real by (simp add: target_real_def)
  note rd = read_current [OF real old]
  show ?thesis
  proof (cases "update old")
    case (Inl e)
    then have "hoare (\<lambda>fs. fs = fs0) (body old) (\<lambda>_ _. False) (\<lambda>fs. fs = fs0)" by (simp add: body_def hoare_throw)
    then show ?thesis using Inl hoare_bind [OF rd hoare_value [of _ body old]] by (simp add: t_def)
  next
    case (Inr nx)
    obtain nxt x where nx: "nx = (nxt, x)" by fastforce
    let ?Q = "\<lambda>fs. kept fs0 fs p \<and> lookup fs p = Some (File nxt)"
    let ?X = "\<lambda>fs. kept fs0 fs p \<and> (lookup fs p = lookup fs0 p \<or> lookup fs p = Some (File nxt))"
    have "hoare (\<lambda>fs. fs = fs0) (if nxt \<noteq> old
         then io_then (write_atomic_unlocked E p nxt) (io_bind (sys_read p) (\<lambda>back. io_when (back \<noteq> nxt) (Conflict p)))
         else io_return ()) (\<lambda>_. ?Q) ?X"
      using old by (intro hoare_if hoare_pre [OF replace_and_check [OF p t]] hoare_pre [OF hoare_return]) (auto simp: kept_def)
    moreover have "hoare ?Q (io_return x) (\<lambda>y fs. y = x \<and> ?Q fs) ?X" by (simp add: hoare_def io_return_def)
    ultimately have "hoare (\<lambda>fs. fs = fs0) (body old) (\<lambda>y fs. y = x \<and> ?Q fs) ?X"
      unfolding body_def Inr nx by (simp add: hoare_then)
    note all = hoare_value [where k = body and a = old, OF this]
    have "hoare (\<lambda>fs. fs = fs0) (io_bind (open_document_lock p) (\<lambda>_. read_string_unlocked p)) (\<lambda>c fs. fs = fs0 \<and> c = old) ?X"
      by (rule hoare_conseq [OF rd]) (auto simp: kept_def)
    from hoare_bind [OF this all] show ?thesis using Inr nx by (simp add: t_def)
  qed
qed

lemma unchanged_effect:
  assumes real: "target_real fs0 p" and t: "\<not> is_temp p" and old: "lookup fs0 p = Some (File old)"
  shows "hoare (\<lambda>fs. fs = fs0) (write_atomic_if_unchanged E p expected new)
     (\<lambda>_ fs. old = expected \<and> kept fs0 fs p \<and> lookup fs p = Some (File new))
     (\<lambda>fs. fs = fs0 \<or> old = expected \<and> kept fs0 fs p \<and> (lookup fs p = lookup fs0 p \<or> lookup fs p = Some (File new)))"
    (is "hoare ?P _ ?Q ?X")
proof -
  define body where "body = (\<lambda>current. if current \<noteq> expected then io_throw (Conflict p)
         else io_then (write_atomic_unlocked E p new)
           (io_bind (sys_read p) (\<lambda>back. io_when (back \<noteq> new) (Conflict p))))"
  have t_def: "write_atomic_if_unchanged E p expected new = io_bind (io_bind (open_document_lock p) (\<lambda>_. read_string_unlocked p)) body"
    by (simp add: write_atomic_if_unchanged_def io_bind_assoc body_def)
  have p: "p \<noteq> []" using real by (simp add: target_real_def)
  have rd: "hoare ?P (io_bind (open_document_lock p) (\<lambda>_. read_string_unlocked p)) (\<lambda>c fs. fs = fs0 \<and> c = old) ?X"
    by (rule hoare_conseq [OF read_current [OF real old]]) auto
  have "hoare ?P (body old) ?Q ?X"
    unfolding body_def
    by (intro hoare_if hoare_pre [OF hoare_throw] hoare_conseq [OF replace_and_check [OF p t, where ?fs0.0 = fs0]]) auto
  then show ?thesis unfolding t_def by (rule hoare_bind [OF rd hoare_value])
qed

text \<open>Read-modify-write under the document lock is a compare-and-swap. Starting from a regular file with
  content \<open>old\<close>, whatever the faults: nothing but the document (and scratch files) changes; if the update
  rejects, the error is passed on or an earlier one is, and the document is unchanged; otherwise the document
  holds \<open>old\<close> or the update's text, and a normal return yields the update's result with its text in the file.
  The conditional write replaces the document only if it holds the expected text.\<close>

theorem transact_atomic_spec:
  assumes "target_real (files w) p" and "\<not> is_temp p" and "lookup (files w) p = Some (File old)"
    and "transact_atomic E p update w = (r, w')" and "write_atomic_if_unchanged E p expected new w = (r2, w2)"
  shows "kept (files w) (files w') p \<and> kept (files w) (files w2) p \<and>
    (case update old of
       Inl e \<Rightarrow> files w' = files w \<and> (\<forall>x. r \<noteq> Ok x)
     | Inr (nxt, x) \<Rightarrow> lookup (files w') p \<in> {Some (File old), Some (File nxt)} \<and>
         (\<forall>y. r = Ok y \<longrightarrow> y = x \<and> lookup (files w') p = Some (File nxt))) \<and>
    (if old = expected then lookup (files w2) p \<in> {Some (File old), Some (File new)} \<and> (r2 = Ok () \<longrightarrow> lookup (files w2) p = Some (File new))
     else files w2 = files w \<and> r2 \<noteq> Ok ())"
proof -
  have k0: "kept (files w) (files w) p" by (simp add: kept_def)
  have u: "if old = expected then kept (files w) (files w2) p \<and> lookup (files w2) p \<in> {Some (File old), Some (File new)} \<and> (r2 = Ok () \<longrightarrow> lookup (files w2) p = Some (File new))
     else files w2 = files w \<and> r2 \<noteq> Ok ()"
    using hoareD [OF unchanged_effect [OF assms(1,2,3)] refl assms(5)] assms(3) k0 by (cases r2) auto
  have "kept (files w) (files w') p \<and> (case update old of
       Inl e \<Rightarrow> files w' = files w \<and> (\<forall>x. r \<noteq> Ok x)
     | Inr (nxt, x) \<Rightarrow> lookup (files w') p \<in> {Some (File old), Some (File nxt)} \<and>
         (\<forall>y. r = Ok y \<longrightarrow> y = x \<and> lookup (files w') p = Some (File nxt)))"
  proof (cases "update old")
    case (Inl e)
    then have "hoare (\<lambda>fs. fs = files w) (transact_atomic E p update) (\<lambda>_ _. False) (\<lambda>fs. fs = files w)"
      using transact_effect [OF assms(1,2,3), where update = update and E = E] by simp
    from hoareD [OF this refl assms(4)] Inl k0 show ?thesis by (cases r) auto
  next
    case (Inr nx)
    then have "hoare (\<lambda>fs. fs = files w) (transact_atomic E p update)
         (\<lambda>y fs. y = snd nx \<and> kept (files w) fs p \<and> lookup fs p = Some (File (fst nx)))
         (\<lambda>fs. kept (files w) fs p \<and> (lookup fs p = lookup (files w) p \<or> lookup fs p = Some (File (fst nx))))"
      using transact_effect [OF assms(1,2,3), where update = update and E = E] by (simp add: case_prod_beta)
    from hoareD [OF this refl assms(4)] Inr assms(3) show ?thesis by (cases r) (auto split: prod.splits)
  qed
  then show ?thesis using u k0 by (cases "old = expected") auto
qed

theorem transact_atomic_spec_witness:
  "fst (transact_atomic demo_env [''p'', ''a''] (\<lambda>s. Inr (s @ ''!'', length s)) (demo_world [])) = Ok 1 \<and>
   lookup (files (snd (transact_atomic demo_env [''p'', ''a''] (\<lambda>s. Inr (s @ ''!'', length s)) (demo_world [])))) [''p'', ''a''] = Some (File ''x!'') \<and>
   fst (write_atomic_if_unchanged demo_env [''p'', ''a''] ''other'' ''new'' (demo_world [])) = Err (Conflict [''p'', ''a'']) \<and>
   files (snd (write_atomic_if_unchanged demo_env [''p'', ''a''] ''other'' ''new'' (demo_world []))) = files (demo_world [])"
proof -
  have h: "target_real (files (demo_world [])) [''p'', ''a'']"
    by (auto simp: target_real_def real_dir_def demo_world_def lookup_def prefix_Cons)
  have t: "\<not> is_temp [''p'', ''a'']" "lookup (files (demo_world [])) [''p'', ''a''] = Some (File ''x'')"
    by (code_simp, code_simp)
  have v: "fst (transact_atomic demo_env [''p'', ''a''] (\<lambda>s. Inr (s @ ''!'', length s)) (demo_world [])) = Ok 1"
    "fst (write_atomic_if_unchanged demo_env [''p'', ''a''] ''other'' ''new'' (demo_world [])) = Err (Conflict [''p'', ''a''])"
    by (code_simp, code_simp)
  from transact_atomic_spec [OF h t prod.collapse [symmetric] prod.collapse [symmetric],
      where E = demo_env and update = "\<lambda>s. Inr (s @ ''!'', length s)" and expected = "''other''" and new = "''new''"] v
  show ?thesis by simp
qed

end
