(* ===== verification/Command.thy ===== *)
theory Command
  imports Sexp_Read Sexp_Text Document
begin

text \<open>
  Revision-aware, reversible schematic edit commands (\<open>crates/konnect-sexp/src/command.rs\<close>).
  A document is its text; its items are the blocks the scanner of \<open>Sexp_Text\<close> finds directly under the root,
  read with the parser of \<open>Sexp_Read\<close>. A fallible operation returns a sum; messages are dropped, the error
  constructors are kept.
\<close>

type_synonym 'a fallible = "sexp_error + 'a"

definition fbind :: "'a fallible \<Rightarrow> ('a \<Rightarrow> 'b fallible) \<Rightarrow> 'b fallible" where
  "fbind r k = (case r of Inl e \<Rightarrow> Inl e | Inr x \<Rightarrow> k x)"

fun fmap :: "('a \<Rightarrow> 'b fallible) \<Rightarrow> 'a list \<Rightarrow> 'b list fallible" where
  "fmap f [] = Inr []"
| "fmap f (x # xs) = fbind (f x) (\<lambda>y. fbind (fmap f xs) (\<lambda>ys. Inr (y # ys)))"

definition or_panic :: "'a option \<Rightarrow> 'a fallible" where
  "or_panic x = (case x of None \<Rightarrow> Inl Panicked | Some y \<Rightarrow> Inr y)"

definition guard_else :: "bool \<Rightarrow> sexp_error \<Rightarrow> unit fallible" where
  "guard_else c e = (if c then Inr () else Inl e)"

definition SCHEMATIC_ROOT :: string where
  "SCHEMATIC_ROOT = ''kicad_sch''"

section \<open>Revisions\<close>

record document_revision =
  rev_hash :: "64 word"
  rev_bytes :: nat

definition DocumentRevision_of :: "string \<Rightarrow> document_revision" where
  "DocumentRevision_of source =
     \<lparr>rev_hash = fold (\<lambda>byte hash. (xor hash (of_char byte)) * 0x100000001b3) source 0xcbf29ce484222325,
      rev_bytes = length source\<rparr>"

type_synonym item_id = string

definition ItemId_new :: "string \<Rightarrow> item_id fallible" where
  "ItemId_new v = (if trim v = [] then Inl InvalidValue else Inr v)"

datatype item_anchor = Before item_id | BeforeFooter | EndOfDocument

record item_change =
  ch_id :: item_id
  ch_before :: "string option"
  ch_after :: "string option"
  ch_anchor :: item_anchor

record schematic_command =
  c_label :: string
  base_revision :: document_revision
  require_unchanged_document :: bool
  changes :: "item_change list"

section \<open>Items of a document\<close>

record document_item =
  di_id :: "item_id option"
  di_kind :: "string option"
  di_start :: nat
  di_end :: nat
  di_source :: string

definition uuid_of :: "sexp \<Rightarrow> item_id option fallible" where
  "uuid_of n = (case Option.bind (Option.bind (node_find n ''uuid'') (\<lambda>u. node_get u 1)) text_of of
       None \<Rightarrow> Inr None
     | Some u \<Rightarrow> fbind (ItemId_new u) (\<lambda>i. Inr (Some i)))"

definition substring :: "string \<Rightarrow> nat \<Rightarrow> nat \<Rightarrow> string" where
  "substring s a b = take (b - a) (drop a s)"

definition document_item_of :: "string \<Rightarrow> nat \<times> nat \<Rightarrow> document_item fallible" where
  "document_item_of source = (\<lambda>(a, b). let block = substring source a b in
     fbind (parse_sexp block) (\<lambda>n. fbind (uuid_of n) (\<lambda>i.
       Inr \<lparr>di_id = i, di_kind = node_head n, di_start = a, di_end = b, di_source = block\<rparr>)))"

definition document_items :: "string \<Rightarrow> document_item list fallible" where
  "document_items source =
     (let ranges = find_direct_child_blocks source SCHEMATIC_ROOT
      in if ranges = [] then Inl (MissingNode SCHEMATIC_ROOT) else fmap (document_item_of source) ranges)"

definition block_id :: "string \<Rightarrow> item_id option fallible" where
  "block_id block = fbind (parse_sexp block) uuid_of"

definition require_block_id :: "string \<Rightarrow> item_id \<Rightarrow> unit fallible" where
  "require_block_id block expected = fbind (block_id block) (\<lambda>i. case i of
       Some actual \<Rightarrow> if actual = expected then Inr () else Inl InvalidValue
     | None \<Rightarrow> Inl (MissingNode expected))"

definition find_item :: "document_item list \<Rightarrow> item_id \<Rightarrow> document_item option" where
  "find_item items i = find (\<lambda>item. di_id item = Some i) items"

definition require_item :: "document_item list \<Rightarrow> item_id \<Rightarrow> document_item fallible" where
  "require_item items i = (case find_item items i of Some item \<Rightarrow> Inr item | None \<Rightarrow> Inl (MissingNode i))"

fun validate_changes_loop :: "item_id list \<Rightarrow> item_change list \<Rightarrow> unit fallible" where
  "validate_changes_loop seen [] = Inr ()"
| "validate_changes_loop seen (c # cs) =
     (if ch_id c \<in> set seen then Inl InvalidValue
      else if ch_before c = None \<and> ch_after c = None then Inl InvalidValue
      else fbind (case ch_before c of None \<Rightarrow> Inr () | Some b \<Rightarrow> require_block_id b (ch_id c)) (\<lambda>_.
        fbind (case ch_after c of None \<Rightarrow> Inr () | Some a \<Rightarrow> require_block_id a (ch_id c)) (\<lambda>_.
          validate_changes_loop (ch_id c # seen) cs)))"

definition validate_changes :: "item_change list \<Rightarrow> unit fallible" where
  "validate_changes cs = (if cs = [] then Inl InvalidValue else validate_changes_loop [] cs)"

section \<open>Places in the text\<close>

text \<open>The offset after the last line feed before \<open>offset\<close>, if there is one.\<close>

definition last_newline :: "string \<Rightarrow> nat \<Rightarrow> nat option" where
  "last_newline source offset =
     (let upto = take offset source; tail = takeWhile (\<lambda>c. c \<noteq> CHR 0x0A) (rev upto)
      in if length tail = length upto then None else Some (length upto - length tail))"

definition line_start :: "string \<Rightarrow> nat \<Rightarrow> nat" where
  "line_start source offset = (case last_newline source offset of None \<Rightarrow> 0 | Some k \<Rightarrow> k)"

definition leading_ws :: "string \<Rightarrow> string" where
  "leading_ws s = take (length s - length (trim_start s)) s"

definition line_indent :: "string \<Rightarrow> nat \<Rightarrow> string" where
  "line_indent source offset = leading_ws (substring source (line_start source offset) offset)"

definition is_footer :: "document_item \<Rightarrow> bool" where
  "is_footer item \<longleftrightarrow> di_kind item \<in> {Some ''sheet_instances'', Some ''symbol_instances'', Some ''embedded_fonts''}"

definition end_of_document :: "string \<Rightarrow> document_item list \<Rightarrow> (nat \<times> string \<times> string) fallible" where
  "end_of_document source items =
     (case find_block_starts source SCHEMATIC_ROOT of [] \<Rightarrow> Inl (MissingNode SCHEMATIC_ROOT)
      | root_start # _ \<Rightarrow> (case find_balanced_block source root_start of None \<Rightarrow> Inl (MissingNode SCHEMATIC_ROOT)
          | Some (_, root_end) \<Rightarrow>
              (let item_indent = (case find (\<lambda>item. di_id item \<noteq> None) items of None \<Rightarrow> [CHR 0x09]
                     | Some item \<Rightarrow> line_indent source (di_start item))
               in Inr (line_start source (root_end - 1), item_indent, [CHR 0x0A]))))"

definition before_item :: "string \<Rightarrow> document_item \<Rightarrow> nat \<times> string \<times> string" where
  "before_item source item = (di_start item, [], CHR 0x0A # line_indent source (di_start item))"

fun insertion_point :: "string \<Rightarrow> document_item list \<Rightarrow> item_anchor \<Rightarrow> (nat \<times> string \<times> string) fallible" where
  "insertion_point source items (Before i) = fbind (require_item items i) (\<lambda>item. Inr (before_item source item))"
| "insertion_point source items BeforeFooter = (case find is_footer items of
       Some item \<Rightarrow> Inr (before_item source item) | None \<Rightarrow> end_of_document source items)"
| "insertion_point source items EndOfDocument = end_of_document source items"

definition deletion_span :: "string \<Rightarrow> nat \<Rightarrow> nat \<Rightarrow> nat \<times> nat" where
  "deletion_span source item_start item_end =
     (let ls = line_start source item_start;
          rest = takeWhile (\<lambda>c. c \<noteq> CHR 0x0A) (drop item_end source);
          has_newline = length rest < length (drop item_end source);
          line_end = (if has_newline then item_end + length rest + 1 else item_end);
          after_content_end = (if item_end < line_end then line_end - 1 else line_end)
      in if all_ws (substring source ls item_start) \<and> all_ws (substring source item_end after_content_end)
         then (ls, line_end) else (item_start, item_end))"

definition inverse_label :: "string \<Rightarrow> string" where
  "inverse_label l = (if prefix ''Undo '' l then drop 5 l else ''Undo '' @ l)"

section \<open>Evaluating a command\<close>

record transaction_outcome =
  previous_revision :: document_revision
  to_revision :: document_revision
  rebased :: bool
  changed :: bool
  to_inverse :: schematic_command

definition edit_of_change :: "path \<Rightarrow> string \<Rightarrow> document_item list \<Rightarrow> item_change \<Rightarrow> sexp_edit fallible" where
  "edit_of_change p current items c =
     (case (ch_before c, find_item items (ch_id c)) of
        (Some expected, Some item) \<Rightarrow>
          if di_source item = expected then
            (let span = (if ch_after c = None then deletion_span current (di_start item) (di_end item) else (di_start item, di_end item))
             in Inr (SexpEdit_replace (fst span) (snd span) (case ch_after c of None \<Rightarrow> [] | Some a \<Rightarrow> a)))
          else Inl (ItemConflict p (ch_id c) ''target item was modified'')
      | (None, None) \<Rightarrow>
          (case ch_after c of None \<Rightarrow> Inl InvalidValue
           | Some replacement \<Rightarrow>
               fbind (insertion_point current items (ch_anchor c)) (\<lambda>(offset, pre, suf).
                 Inr (SexpEdit_insert offset (pre @ replacement @ suf))))
      | (Some _, None) \<Rightarrow> Inl (ItemConflict p (ch_id c) ''target item was deleted'')
      | (None, Some _) \<Rightarrow> Inl (ItemConflict p (ch_id c) ''target UUID was inserted''))"

definition inverse_change :: "item_change \<Rightarrow> item_change" where
  "inverse_change c = c\<lparr>ch_before := ch_after c, ch_after := ch_before c\<rparr>"

definition prepare_command :: "path \<Rightarrow> string \<Rightarrow> schematic_command \<Rightarrow> (string \<times> transaction_outcome) fallible" where
  "prepare_command p current command =
     (let prev = DocumentRevision_of current
      in if require_unchanged_document command \<and> prev \<noteq> base_revision command then Inl (Conflict p)
         else fbind (document_items current) (\<lambda>items.
           fbind (fmap (edit_of_change p current items) (changes command)) (\<lambda>edits.
             fbind (or_panic (apply_edits current edits)) (\<lambda>nxt.
               let rev = DocumentRevision_of nxt
               in Inr (nxt, \<lparr>previous_revision = prev, to_revision = rev, rebased = (prev \<noteq> base_revision command),
                    changed = (nxt \<noteq> current),
                    to_inverse = \<lparr>c_label = inverse_label (c_label command), base_revision = rev, require_unchanged_document = False,
                      changes = map inverse_change (changes command)\<rparr>\<rparr>)))))"

definition commit_command :: "'e env_scheme \<Rightarrow> path \<Rightarrow> schematic_command \<Rightarrow> transaction_outcome io" where
  "commit_command E p command =
     (case validate_changes (changes command) of Inl e \<Rightarrow> io_throw e
      | Inr _ \<Rightarrow> transact_atomic E p (\<lambda>current. prepare_command p current command))"

section \<open>Building commands\<close>

definition replace_item :: "string \<Rightarrow> item_id \<Rightarrow> string \<Rightarrow> string \<Rightarrow> schematic_command fallible" where
  "replace_item source i replacement label =
     fbind (document_items source) (\<lambda>items.
       fbind (require_item items i) (\<lambda>item.
         fbind (require_block_id replacement i) (\<lambda>_.
           Inr \<lparr>c_label = label, base_revision = DocumentRevision_of source, require_unchanged_document = False,
             changes = [\<lparr>ch_id = i, ch_before = Some (di_source item), ch_after = Some replacement, ch_anchor = EndOfDocument\<rparr>]\<rparr>)))"

definition replace_item_from_document :: "string \<Rightarrow> string \<Rightarrow> item_id \<Rightarrow> string \<Rightarrow> schematic_command fallible" where
  "replace_item_from_document source edited_source i label =
     fbind (document_items edited_source) (\<lambda>edited_items.
       fbind (require_item edited_items i) (\<lambda>item. replace_item source i (di_source item) label))"

definition check_change :: "document_item list \<Rightarrow> item_change \<Rightarrow> unit fallible" where
  "check_change items c =
     (case (ch_before c, find_item items (ch_id c)) of
        (Some expected, Some item) \<Rightarrow> if expected = di_source item then Inr () else Inl InvalidValue
      | (None, None) \<Rightarrow> Inr ()
      | (Some _, None) \<Rightarrow> Inl (MissingNode (ch_id c))
      | (None, Some _) \<Rightarrow> Inl InvalidValue)"

definition validate_against :: "schematic_command \<Rightarrow> string \<Rightarrow> unit fallible" where
  "validate_against command source =
     fbind (validate_changes (changes command)) (\<lambda>_.
       fbind (document_items source) (\<lambda>items.
         fbind (fmap (check_change items) (changes command)) (\<lambda>_. Inr ())))"

definition from_changes :: "string \<Rightarrow> string \<Rightarrow> item_change list \<Rightarrow> schematic_command fallible" where
  "from_changes source label cs =
     fbind (validate_changes cs) (\<lambda>_.
       let command = \<lparr>c_label = label, base_revision = DocumentRevision_of source, require_unchanged_document = False, changes = cs\<rparr>
       in fbind (validate_against command source) (\<lambda>_. Inr command))"

definition requiring_unchanged_document :: "schematic_command \<Rightarrow> schematic_command" where
  "requiring_unchanged_document command = command\<lparr>require_unchanged_document := True\<rparr>"

definition replace_items_from_document :: "string \<Rightarrow> string \<Rightarrow> item_id list \<Rightarrow> string \<Rightarrow> schematic_command fallible" where
  "replace_items_from_document source edited_source ids label =
     fbind (document_items source) (\<lambda>current_items.
       fbind (document_items edited_source) (\<lambda>edited_items.
         fbind (fmap (\<lambda>i. fbind (require_item current_items i) (\<lambda>b. fbind (require_item edited_items i) (\<lambda>a.
             Inr \<lparr>ch_id = i, ch_before = Some (di_source b), ch_after = Some (di_source a), ch_anchor = EndOfDocument\<rparr>))) ids) (\<lambda>cs.
           from_changes source label cs)))"

text \<open>A deleted item is anchored to the next item that survives.\<close>

definition deletion_anchor :: "item_id list \<Rightarrow> document_item list \<Rightarrow> item_anchor" where
  "deletion_anchor selected following =
     (case find (\<lambda>i. i \<notin> set selected) (List.map_filter di_id following) of
        Some i \<Rightarrow> Before i
      | None \<Rightarrow> if list_ex is_footer following then BeforeFooter else EndOfDocument)"

fun deletion_changes :: "item_id list \<Rightarrow> document_item list \<Rightarrow> item_change list" where
  "deletion_changes selected [] = []"
| "deletion_changes selected (item # following) =
     deletion_changes selected following @
     (case di_id item of None \<Rightarrow> []
      | Some i \<Rightarrow> if i \<in> set selected
          then [\<lparr>ch_id = i, ch_before = Some (di_source item), ch_after = None, ch_anchor = deletion_anchor selected following\<rparr>]
          else [])"

text \<open>The code looks the targets up in the iteration order of a hash set, so which of several missing items
  the error names is not determined; the model takes the order given.\<close>

definition delete_items :: "string \<Rightarrow> item_id list \<Rightarrow> string \<Rightarrow> schematic_command fallible" where
  "delete_items source ids label =
     fbind (document_items source) (\<lambda>items.
       if ids = [] then Inl InvalidValue
       else if \<not> distinct ids then Inl InvalidValue
       else fbind (fmap (require_item items) ids) (\<lambda>_. from_changes source label (deletion_changes ids items)))"

definition delete_item :: "string \<Rightarrow> item_id \<Rightarrow> string \<Rightarrow> schematic_command fallible" where
  "delete_item source i label = delete_items source [i] label"

definition insert_item :: "string \<Rightarrow> string \<Rightarrow> item_anchor \<Rightarrow> string \<Rightarrow> schematic_command fallible" where
  "insert_item source item anchor label =
     fbind (block_id (trim item)) (\<lambda>bid. case bid of None \<Rightarrow> Inl (MissingNode ''inserted schematic item UUID'')
       | Some i \<Rightarrow> fbind (document_items source) (\<lambda>items.
           if list_ex (\<lambda>existing. di_id existing = Some i) items then Inl InvalidValue
           else Inr \<lparr>c_label = label, base_revision = DocumentRevision_of source, require_unchanged_document = False,
             changes = [\<lparr>ch_id = i, ch_before = None, ch_after = Some (trim item), ch_anchor = anchor\<rparr>]\<rparr>))"

section \<open>Edits inside one item\<close>

fun quoted_loop :: "nat \<Rightarrow> nat option \<Rightarrow> bool \<Rightarrow> string \<Rightarrow> (nat \<times> nat) list" where
  "quoted_loop index start escaped [] = []"
| "quoted_loop index start escaped (b # bs) = (case start of
       Some content_start \<Rightarrow>
         if escaped then quoted_loop (index + 1) start False bs
         else if b = CHR 0x5C then quoted_loop (index + 1) start True bs
         else if b = CHR 0x22 then (content_start, index) # quoted_loop (index + 1) None False bs
         else quoted_loop (index + 1) start False bs
     | None \<Rightarrow> quoted_loop (index + 1) (if b = CHR 0x22 then Some (index + 1) else None) escaped bs)"

definition quoted_string_contents :: "string \<Rightarrow> (nat \<times> nat) list" where
  "quoted_string_contents source = quoted_loop 0 None False source"

definition replace_char :: "char \<Rightarrow> string \<Rightarrow> string \<Rightarrow> string" where
  "replace_char c r s = concat (map (\<lambda>x. if x = c then r else [x]) s)"

definition escape_quoted :: "string \<Rightarrow> string" where
  "escape_quoted v =
     replace_char (CHR 0x09) [CHR 0x5C, CHR ''t''] (replace_char (CHR 0x0A) [CHR 0x5C, CHR ''n'']
       (replace_char (CHR 0x22) [CHR 0x5C, CHR 0x22] (replace_char (CHR 0x5C) [CHR 0x5C, CHR 0x5C] v)))"

definition arg_is :: "sexp \<Rightarrow> string \<Rightarrow> bool" where
  "arg_is n v \<longleftrightarrow> Option.bind (node_get n 1) text_of = Some v"

definition block_where :: "string \<Rightarrow> (sexp \<Rightarrow> bool) \<Rightarrow> nat \<times> nat \<Rightarrow> bool" where
  "block_where source P = (\<lambda>(a, b). case parse_sexp (substring source a b) of Inl _ \<Rightarrow> False | Inr n \<Rightarrow> P n)"

definition set_property :: "string \<Rightarrow> item_id \<Rightarrow> string \<Rightarrow> string \<Rightarrow> string \<Rightarrow> schematic_command fallible" where
  "set_property source i property_name v label =
     fbind (document_items source) (\<lambda>items.
       fbind (require_item items i) (\<lambda>item.
         fbind (parse_sexp (di_source item)) (\<lambda>n. case node_head n of None \<Rightarrow> Inl (MissingNode i)
           | Some parent \<Rightarrow>
               (case find (block_where (di_source item) (\<lambda>p. node_head p = Some ''property'' \<and> arg_is p property_name))
                   (find_direct_child_blocks (di_source item) parent) of
                  None \<Rightarrow> Inl (MissingNode property_name)
                | Some (a, b) \<Rightarrow>
                    (case nth_opt (quoted_string_contents (substring (di_source item) a b)) 1 of None \<Rightarrow> Inl InvalidValue
                     | Some (va, vb) \<Rightarrow>
                         fbind (or_panic (apply_edits (di_source item) [SexpEdit_replace (a + va) (a + vb) (escape_quoted v)])) (\<lambda>replacement.
                           replace_item source i replacement label))))))"

definition symbol_has_instance_path :: "sexp \<Rightarrow> string \<Rightarrow> string \<Rightarrow> bool" where
  "symbol_has_instance_path n project_name pth = (case node_find n ''instances'' of None \<Rightarrow> False
     | Some instances \<Rightarrow> list_ex (\<lambda>project. arg_is project project_name \<and> list_ex (\<lambda>ip. arg_is ip pth) (node_find_all project ''path''))
         (node_find_all instances ''project''))"

definition symbol_property :: "sexp \<Rightarrow> string \<Rightarrow> string option" where
  "symbol_property n name =
     Option.bind (Option.bind (find (\<lambda>p. arg_is p name) (node_find_all n ''property'')) (\<lambda>p. node_get p 2)) text_of"

definition closing_line_start :: "string \<Rightarrow> nat fallible" where
  "closing_line_start source =
     (let tail = takeWhile (\<lambda>c. c \<noteq> CHR '')'') (rev source)
      in if length tail = length source then Inl InvalidValue
         else (let closing = length source - length tail - 1; ls = line_start source closing
               in Inr (if all_ws (substring source ls closing) then ls else closing)))"

definition closing_indent :: "string \<Rightarrow> nat \<Rightarrow> string fallible" where
  "closing_indent source ls =
     (let indent = takeWhile (\<lambda>c. c \<noteq> CHR '')'') (drop ls source)
      in if length source \<le> ls + length indent then Inl InvalidValue
         else if \<not> all_ws indent then Inl InvalidValue
         else Inr indent)"

definition insertion_prefix :: "string \<Rightarrow> nat \<Rightarrow> string" where
  "insertion_prefix source offset = (if suffix [CHR 0x0A] (take offset source) then [] else [CHR 0x0A])"

definition indentation_unit :: "string \<Rightarrow> string" where
  "indentation_unit indent = (if indent = [] \<or> CHR 0x09 \<in> set indent then [CHR 0x09] else ''  '')"

fun show_nat :: "nat \<Rightarrow> string" where
  "show_nat n = (if n < 10 then [char_of (48 + n)] else show_nat (n div 10) @ [char_of (48 + n mod 10)])"

declare show_nat.simps [simp del]

definition quoted_line :: "string \<Rightarrow> string \<Rightarrow> string \<Rightarrow> string" where
  "quoted_line indent tg escaped = indent @ ''('' @ tg @ '' '' @ [CHR 0x22] @ escaped @ [CHR 0x22]"

definition path_block :: "string \<Rightarrow> string \<Rightarrow> string \<Rightarrow> string \<Rightarrow> nat \<Rightarrow> string" where
  "path_block path_indent field_indent pth reference unit =
     quoted_line path_indent ''path'' pth @ [CHR 0x0A] @ quoted_line field_indent ''reference'' reference @ '')'' @ [CHR 0x0A] @
     field_indent @ ''(unit '' @ show_nat unit @ '')'' @ [CHR 0x0A] @ path_indent @ '')'' @ [CHR 0x0A]"

definition project_block :: "string \<Rightarrow> string \<Rightarrow> string \<Rightarrow> string \<Rightarrow> string \<Rightarrow> nat \<Rightarrow> string" where
  "project_block project_indent unit_indent project_name pth reference unit =
     quoted_line project_indent ''project'' project_name @ [CHR 0x0A] @
     path_block (project_indent @ unit_indent) (project_indent @ unit_indent @ unit_indent) pth reference unit @
     project_indent @ '')'' @ [CHR 0x0A]"

definition insert_in_project :: "string \<Rightarrow> nat \<Rightarrow> string \<Rightarrow> string \<Rightarrow> string \<Rightarrow> nat \<Rightarrow> string fallible" where
  "insert_in_project symbol origin project_source pth reference unit =
     fbind (closing_line_start project_source) (\<lambda>closing.
       fbind (closing_indent project_source closing) (\<lambda>ci.
         let ui = indentation_unit ci
         in or_panic (apply_edits symbol [SexpEdit_insert (origin + closing)
              (insertion_prefix project_source closing @ path_block (ci @ ui) (ci @ ui @ ui) pth reference unit)])))"

definition insert_in_instances :: "string \<Rightarrow> nat \<Rightarrow> string \<Rightarrow> string \<Rightarrow> string \<Rightarrow> string \<Rightarrow> nat \<Rightarrow> string fallible" where
  "insert_in_instances symbol origin instances_source project_name pth reference unit =
     fbind (closing_line_start instances_source) (\<lambda>closing.
       fbind (closing_indent instances_source closing) (\<lambda>ci.
         let ui = indentation_unit ci
         in or_panic (apply_edits symbol [SexpEdit_insert (origin + closing)
              (insertion_prefix instances_source closing @ project_block (ci @ ui) ui project_name pth reference unit)])))"

definition insert_new_instances :: "string \<Rightarrow> (nat \<times> nat) list \<Rightarrow> string \<Rightarrow> string \<Rightarrow> string \<Rightarrow> nat \<Rightarrow> string fallible" where
  "insert_new_instances symbol direct project_name pth reference unit =
     fbind (closing_line_start symbol) (\<lambda>closing.
       fbind (closing_indent symbol closing) (\<lambda>ci.
         let ui = indentation_unit ci;
             ii = (case direct of (a, _) # _ \<Rightarrow> line_indent symbol a | [] \<Rightarrow> ci @ ui)
         in or_panic (apply_edits symbol [SexpEdit_insert closing
              (insertion_prefix symbol closing @ ii @ ''(instances'' @ [CHR 0x0A] @
               project_block (ii @ ui) ui project_name pth reference unit @ ii @ '')'' @ [CHR 0x0A])])))"

definition insert_symbol_instance_path :: "string \<Rightarrow> string \<Rightarrow> string \<Rightarrow> string \<Rightarrow> nat \<Rightarrow> string fallible" where
  "insert_symbol_instance_path symbol project_name pth reference unit =
     (let direct = find_direct_child_blocks symbol ''symbol''
      in case find (block_where symbol (\<lambda>n. node_head n = Some ''instances'')) direct of
           Some (ia, ib) \<Rightarrow>
             (let instances_source = substring symbol ia ib
              in case find (block_where instances_source (\<lambda>n. node_head n = Some ''project'' \<and> arg_is n project_name))
                     (find_direct_child_blocks instances_source ''instances'') of
                   Some (pa, pb) \<Rightarrow>
                     insert_in_project symbol (ia + pa) (substring instances_source pa pb) (escape_quoted pth) (escape_quoted reference) unit
                 | None \<Rightarrow>
                     insert_in_instances symbol ia instances_source (escape_quoted project_name) (escape_quoted pth) (escape_quoted reference) unit)
         | None \<Rightarrow> insert_new_instances symbol direct (escape_quoted project_name) (escape_quoted pth) (escape_quoted reference) unit)"

definition parse_u32 :: "string \<Rightarrow> nat option" where
  "parse_u32 s = Option.bind (parse_u64 s) (\<lambda>v. if v < 2 ^ 32 then Some v else None)"

definition instance_change :: "string \<Rightarrow> string \<Rightarrow> document_item \<Rightarrow> item_change option fallible" where
  "instance_change project_name pth item =
     fbind (parse_sexp (di_source item)) (\<lambda>n.
       if node_find n ''lib_id'' = None \<or> symbol_has_instance_path n project_name pth then Inr None
       else case di_id item of None \<Rightarrow> Inl (MissingNode ''placed symbol UUID for instance patch'')
         | Some i \<Rightarrow>
             (let reference = (case symbol_property n ''Reference'' of None \<Rightarrow> [] | Some r \<Rightarrow> r);
                  unit = (case Option.bind (Option.bind (Option.bind (node_find n ''unit'') (\<lambda>u. node_get u 1)) text_of) parse_u32 of
                      None \<Rightarrow> 1 | Some u \<Rightarrow> u)
              in fbind (insert_symbol_instance_path (di_source item) project_name pth reference unit) (\<lambda>replacement.
                   Inr (Some \<lparr>ch_id = i, ch_before = Some (di_source item), ch_after = Some replacement, ch_anchor = EndOfDocument\<rparr>))))"

definition ensure_symbol_instance_path :: "string \<Rightarrow> string \<Rightarrow> string \<Rightarrow> string \<Rightarrow> schematic_command option fallible" where
  "ensure_symbol_instance_path source project_name pth label =
     fbind (document_items source) (\<lambda>items.
       fbind (fmap (instance_change project_name pth) (filter (\<lambda>item. di_kind item = Some ''symbol'') items)) (\<lambda>found.
         let cs = List.map_filter (\<lambda>x. x) found
         in if cs = [] then Inr None else fbind (from_changes source label cs) (\<lambda>c. Inr (Some c))))"

text \<open>Lines joined by line feeds, each indented.\<close>

fun join_lines :: "string list \<Rightarrow> string" where
  "join_lines [] = []"
| "join_lines [l] = l"
| "join_lines (l # ls) = l @ CHR 0x0A # join_lines ls"

definition place_pin :: "string \<Rightarrow> string \<Rightarrow> string fallible" where
  "place_pin sheet pin =
     fbind (closing_line_start sheet) (\<lambda>closing.
       let anchor = (case find (block_where sheet (\<lambda>n. node_head n = Some ''instances'')) (find_direct_child_blocks sheet ''sheet'') of
               Some (a, _) \<Rightarrow> a | None \<Rightarrow> closing);
           ls = (case last_newline sheet anchor of None \<Rightarrow> anchor | Some k \<Rightarrow> k);
           indent = (if all_ws (substring sheet ls anchor) then line_indent sheet anchor else [CHR 0x09]);
           formatted = join_lines (map (\<lambda>line. indent @ line) (split_lines pin));
           pre = (if suffix [CHR 0x0A] (take ls sheet) \<or> ls = 0 then [] else [CHR 0x0A])
       in or_panic (apply_edits sheet [SexpEdit_insert ls (pre @ formatted @ [CHR 0x0A])]))"

definition insert_sheet_pin :: "string \<Rightarrow> item_id \<Rightarrow> string \<Rightarrow> string \<Rightarrow> schematic_command fallible" where
  "insert_sheet_pin source sheet_id pin label =
     fbind (document_items source) (\<lambda>items.
       fbind (require_item items sheet_id) (\<lambda>sheet.
         fbind (parse_sexp (di_source sheet)) (\<lambda>sheet_node.
           if node_head sheet_node \<noteq> Some ''sheet'' then Inl InvalidValue
           else fbind (parse_sexp (trim pin)) (\<lambda>pin_node.
             if node_head pin_node \<noteq> Some ''pin'' then Inl InvalidValue
             else case Option.bind (node_get pin_node 1) text_of of None \<Rightarrow> Inl (MissingNode ''hierarchical pin name'')
               | Some pin_name \<Rightarrow>
                   if list_ex (\<lambda>existing. arg_is existing pin_name) (node_find_all sheet_node ''pin'') then Inl InvalidValue
                   else fbind (place_pin (di_source sheet) (trim pin)) (\<lambda>replacement.
                     replace_item source sheet_id replacement label)))))"

end
