(* ===== verification/Document_Layout.thy ===== *)
theory Document_Layout
  imports Command
begin

text \<open>
  The text of a document seen through the block scanner: gaps and one-block items under the root. Every
  document with items has such a layout, and the items of a laid-out document are its segments.
\<close>

section \<open>The layout of a document\<close>

text \<open>A document is the text before the root, the gaps and item blocks under it, the last gap, and the text
  after the closing parenthesis. A gap holds no parenthesis outside strings; an item is one balanced block.\<close>

definition one_block :: "string \<Rightarrow> bool" where
  "one_block x \<longleftrightarrow> x \<noteq> [] \<and> hd x = CHR ''('' \<and> find_balanced_block x 0 = Some (0, length x)"

fun segs_text :: "(string \<times> string) list \<Rightarrow> string" where
  "segs_text [] = []"
| "segs_text ((g, x) # segs) = g @ x @ segs_text segs"

fun good_segs :: "bool \<Rightarrow> bool \<Rightarrow> (string \<times> string) list \<Rightarrow> string \<Rightarrow> bool" where
  "good_segs s e [] gl \<longleftrightarrow> pass_text s e gl = Some (False, False)"
| "good_segs s e ((g, x) # segs) gl \<longleftrightarrow> pass_text s e g = Some (False, False) \<and> one_block x \<and> good_segs False False segs gl"

fun ranges :: "nat \<Rightarrow> (string \<times> string) list \<Rightarrow> (nat \<times> nat) list" where
  "ranges off [] = []"
| "ranges off ((g, x) # segs) =
     (off + length g, off + length g + length x) # ranges (off + length g + length x) segs"

definition layout :: "string \<Rightarrow> (string \<times> string) list \<Rightarrow> string \<Rightarrow> string \<Rightarrow> string" where
  "layout pre segs gl post = pre @ CHR ''('' # segs_text segs @ gl @ CHR '')'' # post"

lemma scan_shift: "scan_block (k + i) d s e bs = map_option ((+) k) (scan_block i d s e bs)"
proof (induction bs arbitrary: i d s e)
  case (Cons b bs)
  then show ?case using Cons [of "Suc i"] by (cases "string_step s e b") auto
qed simp

lemma scan_extend: "scan_block i d s e x = Some k \<Longrightarrow> scan_block i d s e (x @ r) = Some k"
proof (induction x arbitrary: i d s e)
  case (Cons b bs)
  then show ?case by (cases "string_step s e b") (auto split: if_splits)
qed simp

lemma one_block_scan: "one_block x \<longleftrightarrow> x \<noteq> [] \<and> hd x = CHR ''('' \<and> scan_block 0 0 False False x = Some (length x)"
  by (cases x) (auto simp: one_block_def find_balanced_block_def Let_def)

lemma scan_deeper:
  assumes "scan_block i (Suc d) s e x = Some (i + length x)"
  shows "scan_block i (Suc d + Suc k) s e (x @ r) = scan_block (i + length x) (Suc k) False False r"
  using assms
proof (induction x arbitrary: i d s e)
  case (Cons b bs)
  show ?case
  proof (cases "string_step s e b")
    case None
    show ?thesis
    proof (cases "b = CHR '')''")
      case True
      then show ?thesis using None Cons.prems Cons.IH [of "Suc i"] by (cases d) auto
    next
      case False
      then show ?thesis using None Cons.prems Cons.IH [of "Suc i" "if b = CHR ''('' then Suc d else d"] by (auto split: if_splits)
    qed
  next
    case (Some st)
    then show ?thesis using Cons.prems Cons.IH [of "Suc i"] by (cases st) simp
  qed
qed simp

lemma scan_one_block:
  assumes "one_block x"
  shows "scan_block i (Suc k) False False (x @ r) = scan_block (i + length x) (Suc k) False False r"
proof -
  obtain u where x: "x = CHR ''('' # u" using assms by (cases x) (auto simp: one_block_scan)
  have "scan_block (i + 0) 0 False False x = Some (i + length x)" using assms scan_shift [of i 0] by (simp add: one_block_scan)
  then have "scan_block (Suc i) (Suc 0) False False u = Some (Suc i + length u)" by (simp add: x string_step_def)
  from scan_deeper [OF this, of k r] show ?thesis by (simp add: x string_step_def)
qed

lemma scan_shallower:
  assumes "scan_block i (Suc d + Suc k) s e bs = Some m"
  shows "\<exists>x r. bs = x @ r \<and> scan_block i (Suc d) s e x = Some (i + length x) \<and> scan_block (i + length x) (Suc k) False False r = Some m"
  using assms
proof (induction bs arbitrary: i d s e)
  case (Cons b bs)
  have step: ?case if p: "scan_block (Suc i) (Suc d' + Suc k) s' e' bs = Some m"
     and eq: "\<And>u. scan_block i (Suc d) s e (b # u) = scan_block (Suc i) (Suc d') s' e' u" for d' s' e'
  proof -
    obtain x r where *: "bs = x @ r" "scan_block (Suc i) (Suc d') s' e' x = Some (Suc i + length x)"
       "scan_block (Suc i + length x) (Suc k) False False r = Some m" using Cons.IH [OF p] by blast
    show ?thesis by (rule exI [of _ "b # x"], rule exI [of _ r]) (use * in \<open>simp add: eq del: scan_block.simps\<close>)
  qed
  show ?case
  proof (cases "string_step s e b")
    case None
    consider "b = CHR ''(''" | "b = CHR '')''" "d = 0" | d' where "b = CHR '')''" "d = Suc d'" | "b \<noteq> CHR ''(''" "b \<noteq> CHR '')''"
      by (cases d) auto
    then show ?thesis
    proof cases
      case 1
      show ?thesis by (rule step [of "Suc d" False False]) (use None 1 Cons.prems in simp_all)
    next
      case 2
      then show ?thesis using None Cons.prems by (intro exI [of _ "[b]"] exI [of _ bs]) simp
    next
      case 3
      show ?thesis by (rule step [of d' False False]) (use None 3 Cons.prems in simp_all)
    next
      case 4
      show ?thesis by (rule step [of d False False]) (use None 4 Cons.prems in simp_all)
    qed
  next
    case (Some st)
    show ?thesis by (rule step [of d "fst st" "snd st"]) (use Some Cons.prems in \<open>simp_all split: prod.splits\<close>)
  qed
qed simp

lemma scan_pass:
  assumes "pass_text s e g = Some (s', e')"
  shows "scan_block i k s e (g @ r) = scan_block (i + length g) k s' e' r"
  using assms
proof (induction g arbitrary: i s e)
  case (Cons b g)
  then show ?case using Cons.IH [of _ _ "Suc i"] by (cases "string_step s e b") (auto split: if_splits)
qed simp

lemma find_balanced_one_block:
  assumes "one_block x"
  shows "find_balanced_block (pre @ x @ r) (length pre) = Some (length pre, length pre + length x)"
proof -
  obtain u where x: "x = CHR ''('' # u" using assms by (cases x) (auto simp: one_block_scan)
  have "scan_block (length pre + 0) 0 False False x = Some (length pre + length x)"
    using assms scan_shift [of "length pre" 0] by (simp add: one_block_scan)
  from scan_extend [OF this, of r] show ?thesis by (simp add: find_balanced_block_def Let_def x)
qed

lemma good_segs_cons:
  assumes "good_segs s' e' segs gl"
    and "string_step s e b = Some (s', e') \<or> string_step s e b = None \<and> b \<noteq> CHR ''('' \<and> b \<noteq> CHR '')'' \<and> \<not> s' \<and> \<not> e'"
  shows "\<exists>segs' gl'. good_segs s e segs' gl' \<and> segs_text segs' @ gl' = b # segs_text segs @ gl"
proof (cases segs)
  case Nil
  show ?thesis by (rule exI [of _ "[]"], rule exI [of _ "b # gl"]) (use assms Nil in auto)
next
  case (Cons y ys)
  obtain g x where y: "y = (g, x)" by (cases y)
  show ?thesis by (rule exI [of _ "(b # g, x) # ys"], rule exI [of _ gl]) (use assms Cons y in auto)
qed

lemma layout_of_scan:
  assumes "scan_block i (Suc 0) s e t = Some k"
  shows "\<exists>segs gl rest. t = segs_text segs @ gl @ CHR '')'' # rest \<and> good_segs s e segs gl"
  using assms
proof (induction "length t" arbitrary: i s e t rule: less_induct)
  case less
  then obtain b u where t: "t = b # u" by (cases t) auto
  have step: ?case if p: "scan_block (Suc i) (Suc 0) s' e' u = Some k"
      and st: "string_step s e b = Some (s', e') \<or> string_step s e b = None \<and> b \<noteq> CHR ''('' \<and> b \<noteq> CHR '')'' \<and> \<not> s' \<and> \<not> e'" for s' e'
  proof -
    have "length u < length t" using t by simp
    then obtain segs gl rest where *: "u = segs_text segs @ gl @ CHR '')'' # rest" "good_segs s' e' segs gl"
      using less.hyps [OF _ p] by blast
    obtain segs' gl' where "good_segs s e segs' gl'" "segs_text segs' @ gl' = b # segs_text segs @ gl"
      using good_segs_cons [OF *(2) st] by blast
    moreover have "t = (b # segs_text segs @ gl) @ CHR '')'' # rest" using t *(1) by simp
    ultimately have "t = segs_text segs' @ gl' @ CHR '')'' # rest \<and> good_segs s e segs' gl'" by (metis append.assoc)
    then show ?thesis by blast
  qed
  show ?case
  proof (cases "string_step s e b")
    case (Some st)
    obtain s' e' where st: "st = (s', e')" by (cases st)
    show ?thesis by (rule step [of s' e']) (use Some less.prems in \<open>simp_all add: t st\<close>)
  next
    case None
    then have se: "\<not> s" "\<not> e" by (auto simp: string_step_def split: if_splits)
    consider "b = CHR ''(''" | "b = CHR '')''" | "b \<noteq> CHR ''(''" "b \<noteq> CHR '')''" by auto
    then show ?thesis
    proof cases
      case 1
      have "scan_block (Suc i) (Suc 0 + Suc 0) False False u = Some k" using less.prems None 1 by (simp add: t)
      from scan_shallower [OF this] obtain x r where x: "u = x @ r" "scan_block (Suc i) (Suc 0) False False x = Some (Suc i + length x)"
          "scan_block (Suc i + length x) (Suc 0) False False r = Some k" by blast
      have "length r < length t" using t x(1) by simp
      then obtain segs gl rest where *: "r = segs_text segs @ gl @ CHR '')'' # rest" "good_segs False False segs gl"
        using less.hyps [OF _ x(3)] by blast
      have "map_option ((+) i) (scan_block 0 0 False False (b # x)) = Some (i + length (b # x))"
        using x(2) 1 scan_shift [of i 0 0 False False "b # x"] by (simp add: string_step_def)
      then have "one_block (b # x)" using 1 by (auto simp: one_block_scan)
      then have "t = segs_text (([], b # x) # segs) @ gl @ CHR '')'' # rest \<and> good_segs s e (([], b # x) # segs) gl"
        using *(2) se by (simp add: t x(1) *(1))
      then show ?thesis by blast
    next
      case 2
      then have "t = segs_text [] @ [] @ CHR '')'' # u \<and> good_segs s e [] []" using se t by simp
      then show ?thesis by blast
    next
      case 3
      show ?thesis by (rule step [of False False]) (use None 3 less.prems in \<open>simp_all add: t\<close>)
    qed
  qed
qed

lemma scan_good_segs:
  assumes "good_segs s e segs gl"
  shows "scan_block i (Suc 0) s e (segs_text segs @ gl @ CHR '')'' # rest) = Some (i + length (segs_text segs @ gl) + 1)"
  using assms
proof (induction segs arbitrary: i s e)
  case Nil
  then show ?case using scan_pass [of s e gl False False] by (simp add: string_step_def)
next
  case (Cons y segs)
  obtain g x where y: "y = (g, x)" by (cases y)
  have g: "scan_block i (Suc 0) s e (g @ r) = scan_block (i + length g) (Suc 0) False False r" for r
    by (rule scan_pass) (use Cons.prems y in simp)
  have x: "scan_block j (Suc 0) False False (x @ r) = scan_block (j + length x) (Suc 0) False False r" for j r
    by (rule scan_one_block) (use Cons.prems y in simp)
  show ?case using Cons.IH [of False False] Cons.prems y by (simp add: g x add.assoc)
qed

lemma child_loop_good_segs:
  assumes "good_segs s e segs gl"
    and "pend = length pre + length (segs_text segs @ gl) + 1"
  shows "child_loop (pre @ segs_text segs @ gl @ CHR '')'' # rest) pend (length pre) 1 s e = ranges (length pre) segs"
  using assms
proof (induction segs arbitrary: pre s e)
  case Nil
  let ?D = "pre @ gl @ CHR '')'' # rest"
  have 1: "child_loop ?D pend (length pre) 1 s e = child_loop ?D pend (length pre + length gl) 1 False False"
    by (rule child_loop_pass) (use Nil in auto)
  have 2: "child_loop ?D pend (Suc (length pre + length gl)) 0 False False = []" using Nil by (subst child_loop.simps) simp
  have "child_loop ?D pend (length pre + length gl) 1 False False = []"
    by (subst child_loop.simps) (use Nil 2 in \<open>simp add: nth_append string_step_def\<close>)
  then show ?case using 1 by simp
next
  case (Cons y segs)
  obtain g x where y: "y = (g, x)" by (cases y)
  let ?D = "pre @ g @ x @ segs_text segs @ gl @ CHR '')'' # rest"
  have x: "one_block x" using Cons.prems y by simp
  then obtain u where u: "x = CHR ''('' # u" by (cases x) (auto simp: one_block_def)
  have 1: "child_loop ?D pend (length pre) 1 s e = child_loop ?D pend (length (pre @ g)) 1 False False"
    using child_loop_pass [of s e g False False pre pend "x @ segs_text segs @ gl @ CHR '')'' # rest" 1] Cons.prems y by simp
  have 2: "child_loop ?D pend (length (pre @ g)) 1 False False
     = (length (pre @ g), length (pre @ g) + length x) # child_loop ?D pend (length (pre @ g) + length x) 1 False False"
    using find_balanced_one_block [OF x, of "pre @ g" "segs_text segs @ gl @ CHR '')'' # rest"] Cons.prems
    by (subst child_loop.simps) (simp add: y u string_step_def nth_append)
  have 3: "child_loop ?D pend (length (pre @ g) + length x) 1 False False = ranges (length (pre @ g) + length x) segs"
    using Cons.IH [of False False "pre @ g @ x"] Cons.prems y by (simp add: add.assoc)
  show ?case using 1 2 3 by (simp add: y add.assoc)
qed

lemma scan_starts_ge: "j \<in> set (scan_starts t i s e bs) \<Longrightarrow> i \<le> j"
proof (induction bs arbitrary: i s e)
  case (Cons b bs)
  then show ?case by (cases "string_step s e b") (fastforce split: if_splits)+
qed simp

definition no_parens :: "string \<Rightarrow> bool" where
  "no_parens t \<longleftrightarrow> CHR ''('' \<notin> set t \<and> CHR '')'' \<notin> set t"

lemma tag_here:
  assumes "no_parens t" "c = CHR ''('' \<or> c = CHR '')''"
  shows "prefix t (u @ c # r) \<and> tag_delimiter (drop (length t) (u @ c # r)) \<longleftrightarrow> prefix t u \<and> tag_delimiter (drop (length t) u)"
proof (cases "length t \<le> length u")
  case True
  have "prefix t w \<longleftrightarrow> take (length t) w = t" for w by (auto simp: prefix_def) (metis append_take_drop_id)
  then show ?thesis using True assms(2) by (cases "drop (length t) u") (auto simp: tag_delimiter_def)
next
  case False
  then have "\<not> prefix t u" using prefix_length_le by blast
  moreover have "\<not> prefix t (u @ c # r)"
  proof
    assume "prefix t (u @ c # r)"
    then obtain z where "u @ c # r = t @ z" by (auto simp: prefix_def)
    then have "c = (t @ z) ! length u" by (metis nth_append_length)
    then have "c \<in> set t" using False by (simp add: nth_append)
    then show False using assms by (auto simp: no_parens_def)
  qed
  ultimately show ?thesis by simp
qed

lemma first_start:
  assumes "no_parens t" "c = CHR ''('' \<or> c = CHR '')''" "c' = CHR ''('' \<or> c' = CHR '')''"
    and "scan_starts t i s e (pre @ CHR ''('' # g @ c # r) = (i + length pre) # ms"
  shows "\<exists>ms'. scan_starts t i s e (pre @ CHR ''('' # g @ c' # r') = (i + length pre) # ms'"
  using assms(4)
proof (induction pre arbitrary: i s e)
  case Nil
  show ?case
  proof (cases "string_step s e (CHR ''('')")
    case None
    show ?thesis
    proof (cases "prefix t g \<and> tag_delimiter (drop (length t) g)")
      case True
      then show ?thesis using None tag_here [OF assms(1,3), of g r'] by simp
    next
      case False
      then show ?thesis using None tag_here [OF assms(1,2), of g r] Nil scan_starts_ge [of i t "i + 1" False False "g @ c # r"] by auto
    qed
  next
    case (Some st)
    then show ?thesis using Nil scan_starts_ge [of i t "i + 1" "fst st" "snd st" "g @ c # r"] by (auto split: prod.splits)
  qed
next
  case (Cons b pre)
  show ?case
  proof (cases "string_step s e b")
    case None
    have eq: "prefix t (pre @ CHR ''('' # u) \<and> tag_delimiter (drop (length t) (pre @ CHR ''('' # u)) \<longleftrightarrow> prefix t pre \<and> tag_delimiter (drop (length t) pre)" for u
      using tag_here [OF assms(1)] by simp
    show ?thesis
    proof (cases "b = CHR ''('' \<and> prefix t pre \<and> tag_delimiter (drop (length t) pre)")
      case True
      then show ?thesis using Cons.prems None eq [of "g @ c # r"] by simp
    next
      case False
      then show ?thesis using Cons.prems Cons.IH [of "Suc i" False False] None eq [of "g @ c # r"] eq [of "g @ c' # r'"] by auto
    qed
  next
    case (Some st)
    then show ?thesis using Cons.prems Cons.IH [of "Suc i" "fst st" "snd st"] by (auto split: prod.splits)
  qed
qed

fun first_gap :: "(string \<times> string) list \<Rightarrow> string \<Rightarrow> string" where
  "first_gap [] gl = gl"
| "first_gap ((g, x) # segs) gl = g"

definition root_at :: "string \<Rightarrow> string \<Rightarrow> string \<Rightarrow> bool" where
  "root_at t pre g \<longleftrightarrow> (case find_block_starts (pre @ CHR ''('' # g @ [CHR '')'']) t of [] \<Rightarrow> False | j # _ \<Rightarrow> j = length pre)"

lemma segs_first:
  assumes "good_segs s e segs gl"
  obtains c r where "segs_text segs @ gl @ CHR '')'' # post = first_gap segs gl @ c # r" "c = CHR ''('' \<or> c = CHR '')''"
proof (cases segs)
  case Nil
  then show ?thesis using that by simp
next
  case (Cons y ys)
  obtain g x where y: "y = (g, x)" by (cases y)
  then obtain u where "x = CHR ''('' # u" using assms Cons by (cases x) (auto simp: one_block_def)
  then show ?thesis using that Cons y by simp
qed

lemma scan_starts_paren:
  "j \<in> set (scan_starts t i s e bs) \<Longrightarrow> \<exists>k. j = i + k \<and> k < length bs \<and> bs ! k = CHR ''(''"
proof (induction bs arbitrary: i s e)
  case (Cons b bs)
  have tail: ?case if j: "j \<in> set (scan_starts t (Suc i) s' e' bs)" for s' e'
  proof -
    obtain k where "j = Suc i + k" "k < length bs" "bs ! k = CHR ''(''" using Cons.IH [OF j] by blast
    then show ?thesis by (intro exI [of _ "Suc k"]) simp
  qed
  show ?case
  proof (cases "string_step s e b")
    case None
    then have "(j = i \<and> b = CHR ''('') \<or> j \<in> set (scan_starts t (Suc i) False False bs)" using Cons.prems by (auto split: if_splits)
    then show ?thesis using tail by auto
  next
    case (Some st)
    then show ?thesis using Cons.prems by (intro tail [of "fst st" "snd st"]) (auto split: prod.splits)
  qed
qed simp

lemma layout_exists:
  assumes "find_direct_child_blocks D t \<noteq> []" and t: "no_parens t"
  obtains pre segs gl post where "D = layout pre segs gl post" "good_segs False False segs gl" "root_at t pre (first_gap segs gl)"
proof -
  obtain p ps a b where p: "find_block_starts D t = p # ps" and ab: "find_balanced_block D p = Some (a, b)"
    using assms(1) by (auto simp: find_direct_child_blocks_def split: list.splits option.splits)
  have "p < length D" "D ! p = CHR ''(''" using scan_starts_paren [of p t 0 False False D] p by (auto simp: find_block_starts_def)
  then have D: "D = take p D @ CHR ''('' # drop (Suc p) D" by (metis id_take_nth_drop)
  define pre u where "pre = take p D" and "u = drop (Suc p) D"
  have lp: "length pre = p" using \<open>p < length D\<close> by (simp add: pre_def)
  have D: "D = pre @ CHR ''('' # u" using D by (simp add: pre_def u_def)
  have "scan_block (Suc p) (Suc 0) False False u = Some b"
    using ab unfolding find_balanced_block_def by (auto simp: D lp [symmetric] string_step_def Let_def split: if_splits)
  from layout_of_scan [OF this] obtain segs gl post where u: "u = segs_text segs @ gl @ CHR '')'' # post" and good: "good_segs False False segs gl"
    by blast
  obtain c r where cr: "segs_text segs @ gl @ CHR '')'' # post = first_gap segs gl @ c # r" "c = CHR ''('' \<or> c = CHR '')''"
    by (rule segs_first [OF good])
  have st: "scan_starts t 0 False False (pre @ CHR ''('' # first_gap segs gl @ c # r) = (0 + length pre) # ps"
    using p by (simp add: find_block_starts_def D u lp cr(1))
  have "root_at t pre (first_gap segs gl)"
    using first_start [OF t cr(2) _ st, of "CHR '')''" "[]"] by (auto simp: root_at_def find_block_starts_def)
  then show ?thesis using that good by (simp add: D u layout_def)
qed

lemma blocks_of_layout:
  assumes good: "good_segs False False segs gl" and r: "root_at t pre (first_gap segs gl)" and t: "no_parens t"
  shows "find_direct_child_blocks (layout pre segs gl post) t = ranges (length pre + 1) segs"
proof -
  let ?D = "layout pre segs gl post"
  obtain c r' where cr: "segs_text segs @ gl @ CHR '')'' # post = first_gap segs gl @ c # r'" "c = CHR ''('' \<or> c = CHR '')''"
    by (rule segs_first [OF good])
  obtain ms where "scan_starts t 0 False False (pre @ CHR ''('' # first_gap segs gl @ CHR '')'' # []) = (0 + length pre) # ms"
    using r by (auto simp: root_at_def find_block_starts_def split: list.splits)
  from first_start [OF t _ cr(2) this, of r'] obtain ms' where
    st: "find_block_starts ?D t = length pre # ms'" by (auto simp: find_block_starts_def layout_def cr(1))
  let ?e = "Suc (length pre) + length (segs_text segs @ gl) + 1"
  have "scan_block (length pre) 0 False False (CHR ''('' # segs_text segs @ gl @ CHR '')'' # post) = Some ?e"
    using scan_good_segs [OF good, of "Suc (length pre)" post] by (simp add: string_step_def)
  then have fb: "find_balanced_block ?D (length pre) = Some (length pre, ?e)"
    by (simp add: find_balanced_block_def layout_def Let_def)
  have 1: "child_loop ?D ?e (length pre) 0 False False = child_loop ?D ?e (Suc (length pre)) 1 False False"
    by (subst child_loop.simps) (simp add: layout_def nth_append string_step_def)
  have 2: "child_loop ?D ?e (Suc (length pre)) 1 False False = ranges (Suc (length pre)) segs"
    using child_loop_good_segs [OF good, of ?e "pre @ [CHR ''('']" post] by (simp add: layout_def)
  show ?thesis using st fb 1 2 by (simp add: find_direct_child_blocks_def)
qed

section \<open>Items of a laid-out document\<close>

definition item_at :: "nat \<Rightarrow> string \<Rightarrow> document_item fallible" where
  "item_at a x = fbind (parse_sexp x) (\<lambda>n. fbind (uuid_of n) (\<lambda>i.
     Inr \<lparr>di_id = i, di_kind = node_head n, di_start = a, di_end = a + length x, di_source = x\<rparr>))"

fun seg_items :: "nat \<Rightarrow> (string \<times> string) list \<Rightarrow> document_item list fallible" where
  "seg_items off [] = Inr []"
| "seg_items off ((g, x) # segs) =
     fbind (item_at (off + length g) x) (\<lambda>i. fbind (seg_items (off + length g + length x) segs) (\<lambda>is. Inr (i # is)))"

lemma items_of_ranges: "fmap (document_item_of (pre @ segs_text segs @ r)) (ranges (length pre) segs) = seg_items (length pre) segs"
proof (induction segs arbitrary: pre)
  case (Cons y segs)
  obtain g x where y: "y = (g, x)" by (cases y)
  show ?case using Cons [of "pre @ g @ x"]
    by (simp add: y document_item_of_def item_at_def substring_def add.assoc)
qed simp

lemma document_items_layout:
  assumes "good_segs False False segs gl" "root_at SCHEMATIC_ROOT pre (first_gap segs gl)" "segs \<noteq> []"
  shows "document_items (layout pre segs gl post) = seg_items (length pre + 1) segs"
proof -
  have t: "no_parens SCHEMATIC_ROOT" by code_simp
  have "ranges (length pre + 1) segs \<noteq> []" using assms(3) by (cases segs rule: segs_text.cases) auto
  then show ?thesis using blocks_of_layout [OF assms(1,2) t] items_of_ranges [of "pre @ [CHR ''('']" segs "gl @ CHR '')'' # post"]
    by (simp add: document_items_def layout_def)
qed

text \<open>The items of a list of segments, segment by segment.\<close>

definition item_matches :: "document_item \<Rightarrow> string \<times> string \<Rightarrow> bool" where
  "item_matches item s \<longleftrightarrow> di_source item = snd s \<and> block_id (snd s) = Inr (di_id item)"

lemma seg_items_matches:
  "seg_items off segs = Inr items \<Longrightarrow> list_all2 item_matches items segs \<and> map (\<lambda>i. (di_start i, di_end i)) items = ranges off segs"
proof (induction segs arbitrary: off items)
  case (Cons y segs)
  obtain g x where y: "y = (g, x)" by (cases y)
  obtain i "is" where i: "item_at (off + length g) x = Inr i" and s: "seg_items (off + length g + length x) segs = Inr is" and items: "items = i # is"
    using Cons.prems by (auto simp: y fbind_def split: sum.splits)
  have "item_matches i (g, x) \<and> di_start i = off + length g \<and> di_end i = off + length g + length x"
    using i by (auto simp: fbind_def item_at_def item_matches_def block_id_def split: sum.splits)
  then show ?case using Cons.IH [OF s] by (simp add: y items)
qed simp

lemma seg_items_exist:
  assumes "\<And>g x. (g, x) \<in> set segs \<Longrightarrow> \<exists>i. block_id x = Inr i"
  shows "\<exists>items. seg_items off segs = Inr items"
  using assms
proof (induction segs arbitrary: off)
  case (Cons y segs)
  obtain g x where y: "y = (g, x)" by (cases y)
  obtain i where i: "block_id x = Inr i" using Cons.prems y by auto
  obtain items where "seg_items (off + length g + length x) segs = Inr items" using Cons by fastforce
  then show ?case using i by (auto simp: y fbind_def item_at_def block_id_def split: sum.splits)
qed simp

end
