(* ===== verification/Command_Theorems.thy ===== *)
theory Command_Theorems
  imports Document_Layout
begin

text \<open>
  Correctness of the item commands of \<open>Command\<close>: replacements are local and conflict-checked, a commit goes
  through a document store (a locale, interpreted on \<open>transact_atomic\<close>), and undo restores the document.
\<close>

section \<open>Replacement commands\<close>

definition new_text :: "item_change list \<Rightarrow> item_id option \<Rightarrow> string option" where
  "new_text cs io = Option.bind io (\<lambda>i. Option.bind (find (\<lambda>c. ch_id c = i) cs) ch_after)"

definition changed_text :: "item_change list \<Rightarrow> string \<Rightarrow> string" where
  "changed_text cs x = (case block_id x of Inl _ \<Rightarrow> x
     | Inr io \<Rightarrow> (case new_text cs io of None \<Rightarrow> x | Some a \<Rightarrow> a))"

definition replaces :: "item_change \<Rightarrow> bool" where
  "replaces c \<longleftrightarrow> ch_before c \<noteq> None \<and> ch_after c \<noteq> None"

definition item_edit :: "item_change list \<Rightarrow> document_item \<Rightarrow> sexp_edit option" where
  "item_edit cs item = map_option (SexpEdit_replace (di_start item) (di_end item)) (new_text cs (di_id item))"

lemma find_distinct:
  "distinct (map f xs) \<Longrightarrow> x \<in> set xs \<Longrightarrow> find (\<lambda>y. f y = f x) xs = Some x"
  by (induction xs) (auto simp: image_iff)

lemma fbind_Inr [simp]: "fbind r k = Inr y \<longleftrightarrow> (\<exists>x. r = Inr x \<and> k x = Inr y)"
  by (cases r) (auto simp: fbind_def)

lemma fmap_Inr: "fmap f xs = Inr ys \<longleftrightarrow> list_all2 (\<lambda>x y. f x = Inr y) xs ys"
proof (induction xs arbitrary: ys)
  case (Cons x xs)
  then show ?case by (cases ys) auto
qed auto

lemma find_item_Some: "find_item items i = Some item \<Longrightarrow> item \<in> set items \<and> di_id item = Some i"
  by (auto simp: find_item_def find_Some_iff in_set_conv_nth)

lemma find_item_distinct:
  assumes "distinct (List.map_filter di_id items)" "item \<in> set items" "di_id item = Some i"
  shows "find_item items i = Some item"
  using assms
proof (induction items)
  case (Cons x items)
  have "i \<in> set (List.map_filter di_id items)" if "item \<in> set items"
    using that Cons.prems(3) by (auto simp: List.map_filter_def image_iff intro!: bexI [of _ item])
  then show ?case using Cons by (auto simp: find_item_def map_filter_simps split: option.splits)
qed simp

lemma splice_skip:
  assumes "\<And>e. e \<in> set es \<Longrightarrow> off + length u \<le> e_start e \<and> e_start e \<le> e_end e"
  shows "splice_edits off (u @ s) es = u @ splice_edits (off + length u) s es"
proof (cases es)
  case (Cons e es')
  then have "off + length u \<le> e_start e" "e_start e \<le> e_end e" using assms by auto
  then show ?thesis by (simp add: Cons)
qed simp

lemma ranges_ge: "(a, b) \<in> set (ranges off segs) \<Longrightarrow> off \<le> a \<and> a \<le> b"
  by (induction off segs rule: ranges.induct) fastforce+

lemma ranges_sorted:
  "(\<And>g x. (g, x) \<in> set segs \<Longrightarrow> x \<noteq> []) \<Longrightarrow> sorted_wrt (\<lambda>p q. fst p < fst q \<and> snd p \<le> fst q) (ranges off segs)"
proof (induction off segs rule: ranges.induct)
  case (2 off g x segs)
  have "x \<noteq> []" using 2(2) by auto
  then have "fst (off + length g, off + length g + length x) < fst q \<and> snd (off + length g, off + length g + length x) \<le> fst q"
    if "q \<in> set (ranges (off + length g + length x) segs)" for q
    using ranges_ge [of "fst q" "snd q" "off + length g + length x" segs] that by (cases x) auto
  moreover have "sorted_wrt (\<lambda>p q. fst p < fst q \<and> snd p \<le> fst q) (ranges (off + length g + length x) segs)"
    by (rule "2.IH") (use "2.prems" in auto)
  ultimately show ?case by simp
qed simp

lemma ranges_le: "(a, b) \<in> set (ranges off segs) \<Longrightarrow> b \<le> off + length (segs_text segs)"
  by (induction off segs rule: ranges.induct) fastforce+

lemma splice_items:
  assumes "list_all2 item_matches items segs" "map (\<lambda>i. (di_start i, di_end i)) items = ranges off segs"
  shows "splice_edits off (segs_text segs @ r) (List.map_filter (item_edit cs) items)
    = segs_text (map (\<lambda>(g, x). (g, changed_text cs x)) segs) @ r"
  using assms
proof (induction segs arbitrary: off items rule: list.induct)
  case (Cons y segs)
  obtain g x where y: "y = (g, x)" by (cases y)
  obtain item rest where items: "items = item # rest" using Cons.prems(1) by (cases items) auto
  have m: "item_matches item (g, x)" "list_all2 item_matches rest segs" using Cons.prems y items by auto
  have p: "di_start item = off + length g" "di_end item = off + length g + length x"
      "map (\<lambda>i. (di_start i, di_end i)) rest = ranges (off + length g + length x) segs"
    using Cons.prems y items by auto
  let ?es = "List.map_filter (item_edit cs) rest"
  have ge: "off + length g + length x \<le> e_start e \<and> e_start e \<le> e_end e" if "e \<in> set ?es" for e
  proof -
    obtain i where i: "i \<in> set rest" "e_start e = di_start i" "e_end e = di_end i"
      using \<open>e \<in> set ?es\<close> by (auto simp: List.map_filter_def item_edit_def SexpEdit_replace_def)
    then have "(di_start i, di_end i) \<in> set (ranges (off + length g + length x) segs)" unfolding p(3) [symmetric] by auto
    then show ?thesis using ranges_ge i by auto
  qed
  note IH = Cons.IH [OF m(2) p(3)]
  show ?case
  proof (cases "new_text cs (di_id item)")
    case None
    then have "item_edit cs item = None" by (simp add: item_edit_def)
    moreover have "changed_text cs x = x" using m(1) None by (simp add: changed_text_def item_matches_def)
    moreover have "splice_edits off ((g @ x) @ segs_text segs @ r) ?es = (g @ x) @ splice_edits (off + length (g @ x)) (segs_text segs @ r) ?es"
      by (rule splice_skip) (use ge in fastforce)
    ultimately show ?thesis using IH by (simp add: items y map_filter_simps add.assoc)
  next
    case (Some a)
    then have "item_edit cs item = Some (SexpEdit_replace (off + length g) (off + length g + length x) a)" using p by (simp add: item_edit_def)
    moreover have "changed_text cs x = a" using m(1) Some by (simp add: changed_text_def item_matches_def)
    ultimately show ?thesis using IH by (simp add: items y map_filter_simps SexpEdit_replace_def add.assoc)
  qed
qed (simp add: map_filter_simps)

lemma edit_of_replacement:
  assumes "replaces c"
  shows "edit_of_change p D items c = Inr e \<longleftrightarrow>
    (\<exists>item. find_item items (ch_id c) = Some item \<and> ch_before c = Some (di_source item) \<and>
       e = SexpEdit_replace (di_start item) (di_end item) (the (ch_after c)))"
  using assms by (cases "find_item items (ch_id c)") (auto simp: replaces_def edit_of_change_def split: if_splits)

text \<open>The edits of a replacement command, in ascending order, are those of the items it changes.\<close>

lemma sorted_item_edits:
  assumes items: "list_all2 item_matches items segs" "map (\<lambda>i. (di_start i, di_end i)) items = ranges off segs"
    and ne: "\<And>g x. (g, x) \<in> set segs \<Longrightarrow> x \<noteq> []"
    and d: "distinct (List.map_filter di_id items)" and dc: "distinct (map ch_id cs)" and rc: "list_all replaces cs"
    and ed: "fmap (edit_of_change p D items) cs = Inr edits"
  shows "sort_key e_start edits = List.map_filter (item_edit cs) items"
    and "disjoint_edits (off + length (segs_text segs)) (List.map_filter (item_edit cs) items)"
proof -
  define found :: "item_change \<Rightarrow> document_item" where "found c = the (find_item items (ch_id c))" for c
  have e: "find_item items (ch_id c) = Some (found c) \<and> ch_before c = Some (di_source (found c)) \<and>
      edit_of_change p D items c = Inr (SexpEdit_replace (di_start (found c)) (di_end (found c)) (the (ch_after c)))" if c: "c \<in> set cs" for c
  proof -
    obtain e where e: "edit_of_change p D items c = Inr e" using ed c unfolding fmap_Inr by (auto simp: list_all2_conv_all_nth in_set_conv_nth)
    have "replaces c" using rc c by (simp add: list_all_iff)
    from e [unfolded edit_of_replacement [OF this]] e show ?thesis by (auto simp: found_def)
  qed
  have edits: "edits = map (\<lambda>c. SexpEdit_replace (di_start (found c)) (di_end (found c)) (the (ch_after c))) cs"
    using ed e unfolding fmap_Inr by (auto simp: list_all2_conv_all_nth intro!: nth_equalityI)
  have sw: "sorted_wrt (\<lambda>a b. di_start a < di_start b \<and> di_end a \<le> di_start b) items"
  proof -
    have "sorted_wrt (\<lambda>p q. fst p < fst q \<and> snd p \<le> fst q) (map (\<lambda>i. (di_start i, di_end i)) items)"
      unfolding items(2) by (rule ranges_sorted) (use ne in auto)
    then show ?thesis by (simp add: sorted_wrt_map)
  qed
  let ?es = "List.map_filter (item_edit cs) items"
  have es: "?es = map (\<lambda>i. the (item_edit cs i)) (filter (\<lambda>i. item_edit cs i \<noteq> None) items)" by (simp add: List.map_filter_def comp_def)
  have st: "e_start (the (item_edit cs i)) = di_start i \<and> e_end (the (item_edit cs i)) = di_end i" if "item_edit cs i \<noteq> None" for i
    using that by (auto simp: item_edit_def SexpEdit_replace_def)
  have swe: "sorted_wrt (\<lambda>a b. e_start a < e_start b \<and> e_end a \<le> e_start b) ?es"
    unfolding es sorted_wrt_map by (rule sorted_wrt_mono_rel [OF _ sorted_wrt_filter [OF sw]]) (auto simp: st)
  have ids: "di_id (found c) = Some (ch_id c)" "found c \<in> set items" if "c \<in> set cs" for c
    using find_item_Some e that by blast+
  have nt: "new_text cs (Some (ch_id c)) = ch_after c" if "c \<in> set cs" for c
    using find_distinct [OF dc that] by (simp add: new_text_def)
  have ie: "item_edit cs (found c) = Some (SexpEdit_replace (di_start (found c)) (di_end (found c)) (the (ch_after c)))" if "c \<in> set cs" for c
    using that nt ids rc by (auto simp: item_edit_def list_all_iff replaces_def)
  have sets: "set edits = set ?es"
  proof (intro equalityI subsetI)
    fix x assume "x \<in> set edits"
    then obtain c where c: "c \<in> set cs" "x = SexpEdit_replace (di_start (found c)) (di_end (found c)) (the (ch_after c))" by (auto simp: edits)
    then show "x \<in> set ?es" unfolding es using ids(2) [OF c(1)] ie [OF c(1)] by (auto simp: image_iff intro!: bexI [of _ "found c"])
  next
    fix x assume "x \<in> set ?es"
    then obtain i where i: "i \<in> set items" "item_edit cs i = Some x" by (auto simp: es)
    then obtain c where c: "c \<in> set cs" "di_id i = Some (ch_id c)"
      by (auto simp: item_edit_def new_text_def bind_eq_Some_conv find_Some_iff intro: nth_mem)
    then have "found c = i" using find_item_distinct [OF d i(1) c(2)] by (simp add: found_def)
    then show "x \<in> set edits" using ie [OF c(1)] i(2) c(1) by (auto simp: edits)
  qed
  have dst: "distinct (map di_start items)"
    using sorted_wrt_mono_rel [OF _ sw, of "\<lambda>a b. di_start a < di_start b"] by (simp add: strict_sorted_iff flip: sorted_wrt_map)
  have "inj_on (\<lambda>c. di_start (found c)) (set cs)"
  proof (rule inj_onI)
    fix c c' assume c: "c \<in> set cs" "c' \<in> set cs" "di_start (found c) = di_start (found c')"
    then have "found c = found c'" using dst ids(2) by (auto simp: distinct_map inj_on_def)
    then have "ch_id c = ch_id c'" using ids(1) [OF c(1)] ids(1) [OF c(2)] by simp
    then show "c = c'" using dc c by (auto simp: distinct_map inj_on_def)
  qed
  then have de: "distinct (map e_start edits)"
    using dc by (auto simp: edits distinct_map comp_def SexpEdit_replace_def)
  have dse: "sorted_wrt (<) (map e_start ?es)"
    unfolding sorted_wrt_map by (rule sorted_wrt_mono_rel [OF _ swe]) auto
  show "sort_key e_start edits = ?es"
  proof (rule map_sorted_distinct_set_unique)
    show "inj_on e_start (set (sort_key e_start edits) \<union> set ?es)" using de sets by (simp add: distinct_map)
    show "distinct (map e_start (sort_key e_start edits))" using de by (simp add: distinct_map)
    show "sorted (map e_start ?es)" "distinct (map e_start ?es)" using dse by (simp_all add: strict_sorted_iff)
  qed (simp_all add: sets)
  have "di_start i \<le> di_end i \<and> di_end i \<le> off + length (segs_text segs)" if "i \<in> set items" for i
  proof -
    have "(di_start i, di_end i) \<in> set (ranges off segs)" unfolding items(2) [symmetric] using that by auto
    then show ?thesis using ranges_ge ranges_le by blast
  qed
  then show "disjoint_edits (off + length (segs_text segs)) ?es"
    using swe st by (auto simp: disjoint_edits_def es list_all_iff)
qed

definition inverse_of :: "string \<Rightarrow> schematic_command \<Rightarrow> schematic_command" where
  "inverse_of nxt command = \<lparr>c_label = inverse_label (c_label command), base_revision = DocumentRevision_of nxt,
     require_unchanged_document = False, changes = map inverse_change (changes command)\<rparr>"

definition outcome_of :: "string \<Rightarrow> string \<Rightarrow> schematic_command \<Rightarrow> transaction_outcome" where
  "outcome_of current nxt command = \<lparr>previous_revision = DocumentRevision_of current, to_revision = DocumentRevision_of nxt,
     rebased = (DocumentRevision_of current \<noteq> base_revision command), changed = (nxt \<noteq> current), to_inverse = inverse_of nxt command\<rparr>"

definition revision_ok :: "string \<Rightarrow> schematic_command \<Rightarrow> bool" where
  "revision_ok current command \<longleftrightarrow> (require_unchanged_document command \<longrightarrow> DocumentRevision_of current = base_revision command)"

lemma or_panic_Inr [simp]: "or_panic x = Inr y \<longleftrightarrow> x = Some y"
  by (cases x) (auto simp: or_panic_def)

lemma prepare_command_Inr:
  "prepare_command p current command = Inr r \<longleftrightarrow> revision_ok current command \<and>
     (\<exists>items edits nxt. document_items current = Inr items \<and> fmap (edit_of_change p current items) (changes command) = Inr edits \<and>
        apply_edits current edits = Some nxt \<and> r = (nxt, outcome_of current nxt command))"
  by (auto simp: prepare_command_def revision_ok_def outcome_of_def inverse_of_def Let_def)

lemma good_segs_blocks: "good_segs s e segs gl \<Longrightarrow> (g, x) \<in> set segs \<Longrightarrow> one_block x"
  by (induction s e segs gl rule: good_segs.induct) auto

lemma apply_item_edits:
  assumes good: "good_segs False False segs gl"
    and items: "seg_items (length pre + 1) segs = Inr items"
    and d: "distinct (List.map_filter di_id items)" "distinct (map ch_id cs)" "list_all replaces cs"
    and ed: "fmap (edit_of_change p D items) cs = Inr edits"
  shows "apply_edits (layout pre segs gl post) edits = Some (layout pre (map (\<lambda>(g, x). (g, changed_text cs x)) segs) gl post)"
proof -
  note m = seg_items_matches [OF items]
  have ne: "x \<noteq> []" if "(g, x) \<in> set segs" for g x using good_segs_blocks [OF good that] by (simp add: one_block_def)
  let ?es = "List.map_filter (item_edit cs) items" and ?r = "gl @ CHR '')'' # post"
  have *: "sort_key e_start edits = ?es" "disjoint_edits (length pre + 1 + length (segs_text segs)) ?es"
    using sorted_item_edits [OF m [THEN conjunct1] m [THEN conjunct2] _ d(1,2,3) ed] ne by blast+
  have "disjoint_edits (length (layout pre segs gl post)) ?es"
    using *(2) by (auto simp: disjoint_edits_def layout_def list_all_iff)
  then have a: "apply_edits (layout pre segs gl post) edits = Some (splice_edits 0 (layout pre segs gl post) ?es)"
    using *(1) apply_edits_disjoint by metis
  have "length pre + 1 \<le> e_start e \<and> e_start e \<le> e_end e" if "e \<in> set ?es" for e
  proof -
    obtain i where i: "i \<in> set items" "e_start e = di_start i" "e_end e = di_end i"
      using \<open>e \<in> set ?es\<close> by (auto simp: List.map_filter_def item_edit_def SexpEdit_replace_def)
    then have "(di_start i, di_end i) \<in> set (ranges (length pre + 1) segs)" unfolding m [THEN conjunct2, symmetric] by auto
    then show ?thesis using ranges_ge i by auto
  qed
  then have "splice_edits 0 ((pre @ [CHR ''('']) @ segs_text segs @ ?r) ?es = (pre @ [CHR ''('']) @ splice_edits (0 + length (pre @ [CHR ''(''])) (segs_text segs @ ?r) ?es"
    by (intro splice_skip) auto
  also have "splice_edits (0 + length (pre @ [CHR ''(''])) (segs_text segs @ ?r) ?es = segs_text (map (\<lambda>(g, x). (g, changed_text cs x)) segs) @ ?r"
    using splice_items [OF m [THEN conjunct1] m [THEN conjunct2], of ?r cs] by simp
  finally show ?thesis using a by (simp add: layout_def)
qed

lemma validate_loop_Inr:
  "validate_changes_loop seen cs = Inr () \<Longrightarrow> distinct (map ch_id cs) \<and> set (map ch_id cs) \<inter> set seen = {} \<and>
     (\<forall>c\<in>set cs. (\<forall>a. ch_after c = Some a \<longrightarrow> block_id a = Inr (Some (ch_id c))) \<and> (\<forall>b. ch_before c = Some b \<longrightarrow> block_id b = Inr (Some (ch_id c))))"
proof (induction cs arbitrary: seen)
  case (Cons c cs)
  have r: "require_block_id b i = Inr () \<Longrightarrow> block_id b = Inr (Some i)" for b i
    by (auto simp: require_block_id_def split: option.splits if_splits)
  have "validate_changes_loop (ch_id c # seen) cs = Inr ()" "ch_id c \<notin> set seen"
    "\<forall>a. ch_after c = Some a \<longrightarrow> block_id a = Inr (Some (ch_id c))" "\<forall>b. ch_before c = Some b \<longrightarrow> block_id b = Inr (Some (ch_id c))"
    using Cons.prems by (auto split: if_splits option.splits dest: r)
  then show ?case using Cons.IH [of "ch_id c # seen"] by auto
qed simp

lemma validate_changes_Inr:
  assumes "validate_changes cs = Inr ()"
  shows "distinct (map ch_id cs)"
    and "c \<in> set cs \<Longrightarrow> ch_after c = Some a \<Longrightarrow> block_id a = Inr (Some (ch_id c))"
    and "c \<in> set cs \<Longrightarrow> ch_before c = Some b \<Longrightarrow> block_id b = Inr (Some (ch_id c))"
  using validate_loop_Inr [of "[]" cs] assms by (auto simp: validate_changes_def split: if_splits)

definition distinct_items :: "string \<Rightarrow> bool" where
  "distinct_items D \<longleftrightarrow> (case document_items D of Inl _ \<Rightarrow> False | Inr items \<Rightarrow> distinct (List.map_filter di_id items))"

lemma new_text_inverse: "new_text (map inverse_change cs) io = Option.bind io (\<lambda>i. Option.bind (find (\<lambda>c. ch_id c = i) cs) ch_before)"
proof -
  have "find (\<lambda>c. ch_id c = i) (map inverse_change cs) = map_option inverse_change (find (\<lambda>c. ch_id c = i) cs)" for i
    by (induction cs) (auto simp: inverse_change_def)
  moreover have "Option.bind (map_option inverse_change x) ch_after = Option.bind x ch_before" for x by (cases x) (auto simp: inverse_change_def)
  ultimately show ?thesis by (simp add: new_text_def)
qed

lemma document_layout:
  assumes "document_items D = Inr items"
  obtains pre segs gl post where "D = layout pre segs gl post" "good_segs False False segs gl" "segs \<noteq> []"
    "root_at SCHEMATIC_ROOT pre (first_gap segs gl)" "seg_items (length pre + 1) segs = Inr items"
proof -
  have t: "no_parens SCHEMATIC_ROOT" by code_simp
  have ne: "find_direct_child_blocks D SCHEMATIC_ROOT \<noteq> []" using assms by (auto simp: document_items_def Let_def)
  obtain pre segs gl post where *: "D = layout pre segs gl post" "good_segs False False segs gl" "root_at SCHEMATIC_ROOT pre (first_gap segs gl)"
    by (rule layout_exists [OF ne t])
  have "segs \<noteq> []" using ne blocks_of_layout [OF *(2,3) t, of post] by (auto simp: *(1))
  then show ?thesis using that * assms document_items_layout [OF *(2,3), of post] by simp
qed

lemma matched_item:
  assumes "list_all2 item_matches items segs" "(g, x) \<in> set segs"
  obtains item where "item \<in> set items" "di_source item = x" "block_id x = Inr (di_id item)"
  using assms by (auto simp: list_all2_conv_all_nth in_set_conv_nth item_matches_def) (metis snd_conv)

lemma matched_seg:
  assumes "list_all2 item_matches items segs" "item \<in> set items"
  obtains g where "(g, di_source item) \<in> set segs" "block_id (di_source item) = Inr (di_id item)"
  using assms by (auto simp: list_all2_conv_all_nth in_set_conv_nth item_matches_def) (metis prod.collapse)

text \<open>Whether a replacement command is accepted.\<close>

lemma edits_exist:
  assumes "list_all replaces cs"
  shows "(\<exists>edits. fmap (edit_of_change p D items) cs = Inr edits) \<longleftrightarrow>
    (\<forall>c\<in>set cs. \<exists>item. find_item items (ch_id c) = Some item \<and> ch_before c = Some (di_source item))"
  using assms
proof (induction cs)
  case (Cons c cs)
  have "(\<exists>e. edit_of_change p D items c = Inr e) \<longleftrightarrow> (\<exists>item. find_item items (ch_id c) = Some item \<and> ch_before c = Some (di_source item))"
    using edit_of_replacement [of c p D items] Cons.prems by auto
  moreover have "(\<exists>edits. fmap (edit_of_change p D items) (c # cs) = Inr edits) \<longleftrightarrow>
      (\<exists>e. edit_of_change p D items c = Inr e) \<and> (\<exists>edits. fmap (edit_of_change p D items) cs = Inr edits)" by auto
  ultimately show ?case using Cons by simp
qed simp

lemma prepare_replacements:
  assumes lay: "D = layout pre segs gl post" "good_segs False False segs gl" "segs \<noteq> []"
      "root_at SCHEMATIC_ROOT pre (first_gap segs gl)" "seg_items (length pre + 1) segs = Inr items"
    and d: "distinct (List.map_filter di_id items)" "distinct (map ch_id (changes command))" "list_all replaces (changes command)"
  shows "prepare_command p D command = Inr r \<longleftrightarrow> revision_ok D command \<and>
     (\<forall>c\<in>set (changes command). \<exists>item. find_item items (ch_id c) = Some item \<and> ch_before c = Some (di_source item)) \<and>
     (let nxt = layout pre (map (\<lambda>(g, x). (g, changed_text (changes command) x)) segs) gl post in r = (nxt, outcome_of D nxt command))"
proof -
  have di: "document_items D = Inr items" unfolding lay(1) using document_items_layout [OF lay(2,4,3)] lay(5) by simp
  show ?thesis
    unfolding prepare_command_Inr di edits_exist [OF d(3), of p D items, symmetric]
    using apply_item_edits [OF lay(2,5) d, of p D _ post] by (auto simp: Let_def lay(1))
qed

section \<open>Replacing items is local, and undo is exact\<close>

definition block_change :: "item_change \<Rightarrow> bool" where
  "block_change c \<longleftrightarrow> replaces c \<and> one_block (the (ch_after c))"

lemma good_segs_map:
  assumes "good_segs s e segs gl" "\<And>g x. (g, x) \<in> set segs \<Longrightarrow> one_block (f x)"
  shows "good_segs s e (map (\<lambda>(g, x). (g, f x)) segs) gl"
  using assms by (induction s e segs gl rule: good_segs.induct) auto

lemma first_gap_map: "first_gap (map (\<lambda>(g, x). (g, f x)) segs) gl = first_gap segs gl"
  by (cases segs rule: segs_text.cases) auto

lemma ids_preserved:
  assumes "list_all2 item_matches items segs" "list_all2 item_matches items' (map (\<lambda>(g, x). (g, f x)) segs)"
    and "\<And>g x. (g, x) \<in> set segs \<Longrightarrow> block_id (f x) = block_id x"
  shows "map di_id items' = map di_id items"
proof (rule nth_equalityI)
  show "length (map di_id items') = length (map di_id items)" using assms(1,2) by (simp add: list_all2_conv_all_nth)
  fix k assume "k < length (map di_id items')"
  then have k: "k < length segs" "item_matches (items ! k) (segs ! k)" "item_matches (items' ! k) (fst (segs ! k), f (snd (segs ! k)))"
    using assms(1,2) by (auto simp: list_all2_conv_all_nth split: prod.splits)
  have "block_id (f (snd (segs ! k))) = block_id (snd (segs ! k))" using assms(3) k(1) by (metis nth_mem prod.collapse)
  then show "map di_id items' ! k = map di_id items ! k"
    using k assms(1,2) by (simp add: item_matches_def list_all2_lengthD)
qed

lemma map_filter_ids: "map di_id xs = map di_id ys \<Longrightarrow> List.map_filter di_id xs = List.map_filter di_id ys"
proof (induction xs arbitrary: ys)
  case (Cons x xs)
  then obtain y ys' where "ys = y # ys'" "di_id x = di_id y" "map di_id xs = map di_id ys'" by (cases ys) auto
  then show ?case using Cons.IH [of ys'] by (simp add: map_filter_simps split: option.split)
qed (simp add: map_filter_simps)

text \<open>An accepted replacement command with its document: the items are the segments', every target is an item
  with the expected block.\<close>

definition targets_match :: "document_item list \<Rightarrow> item_change list \<Rightarrow> bool" where
  "targets_match items cs \<longleftrightarrow> (\<forall>c\<in>set cs. \<exists>item. find_item items (ch_id c) = Some item \<and> ch_before c = Some (di_source item))"

definition applicable :: "document_item list \<Rightarrow> (string \<times> string) list \<Rightarrow> item_change list \<Rightarrow> bool" where
  "applicable items segs cs \<longleftrightarrow> list_all2 item_matches items segs \<and> distinct (List.map_filter di_id items) \<and>
     validate_changes cs = Inr () \<and> list_all replaces cs \<and> targets_match items cs"

lemma applicable_block_id: "applicable items segs cs \<Longrightarrow> (g, x) \<in> set segs \<Longrightarrow> \<exists>io. block_id x = Inr io"
  unfolding applicable_def by (metis matched_item)

lemma changed_text_cases:
  assumes ap: "applicable items segs cs" and gx: "(g, x) \<in> set segs"
  obtains io where "block_id x = Inr io" "new_text cs io = None" "changed_text cs x = x"
  | c a where "block_id x = Inr (Some (ch_id c))" "c \<in> set cs" "ch_after c = Some a" "ch_before c = Some x" "changed_text cs x = a"
proof -
  obtain io where io: "block_id x = Inr io" using applicable_block_id [OF ap gx] by blast
  have m: "list_all2 item_matches items segs" and d: "distinct (List.map_filter di_id items)" and t: "targets_match items cs"
    using ap by (auto simp: applicable_def)
  show ?thesis
  proof (cases "new_text cs io")
    case None
    then show ?thesis using that(1) io by (simp add: changed_text_def)
  next
    case (Some a)
    then obtain i c where ic: "io = Some i" "find (\<lambda>c. ch_id c = i) cs = Some c" "ch_after c = Some a"
      by (auto simp: new_text_def bind_eq_Some_conv)
    then have c: "c \<in> set cs" "ch_id c = i" by (auto simp: find_Some_iff)
    obtain item where item: "item \<in> set items" "di_source item = x" "di_id item = Some i"
      using matched_item [OF m gx] io ic(1) by (metis sum.inject(2))
    then have "ch_before c = Some x" using t c find_item_distinct [OF d item(1,3)] by (auto simp: targets_match_def)
    then show ?thesis by (intro that(2) [of c a]) (use Some io ic c in \<open>simp_all add: changed_text_def\<close>)
  qed
qed

lemma changed_text_keeps_id:
  assumes "applicable items segs cs" "(g, x) \<in> set segs"
  shows "block_id (changed_text cs x) = block_id x"
  using assms validate_changes_Inr(2) [of cs] by (cases rule: changed_text_cases [OF assms]) (auto simp: applicable_def)

lemma changed_text_block:
  assumes "applicable items segs cs" "(g, x) \<in> set segs" "list_all block_change cs" "one_block x"
  shows "one_block (changed_text cs x)"
  using assms(3,4) by (cases rule: changed_text_cases [OF assms(1,2)]) (auto simp: list_all_iff block_change_def)

lemma changed_text_inverse:
  assumes ap: "applicable items segs cs" and gx: "(g, x) \<in> set segs"
  shows "changed_text (map inverse_change cs) (changed_text cs x) = x"
proof (cases rule: changed_text_cases [OF ap gx])
  case (1 io)
  have "list_all replaces cs" using ap by (simp add: applicable_def)
  then have "ch_after c \<noteq> None" if "find (\<lambda>c. ch_id c = i) cs = Some c" for i c
    using that by (auto simp: find_Some_iff list_all_iff replaces_def)
  then have "new_text (map inverse_change cs) io = None" using 1(2) unfolding new_text_inverse
    by (cases io; cases "find (\<lambda>c. ch_id c = the io) cs") (fastforce simp: new_text_def)+
  then show ?thesis using 1 by (simp add: changed_text_def)
next
  case (2 c a)
  have dc: "distinct (map ch_id cs)" using ap validate_changes_Inr(1) by (auto simp: applicable_def)
  have "new_text (map inverse_change cs) (Some (ch_id c)) = Some x"
    using find_distinct [OF dc 2(2)] 2(4) by (simp add: new_text_inverse)
  then show ?thesis using changed_text_keeps_id [OF ap gx] 2(1) by (simp add: changed_text_def)
qed

lemma targets_match_inverse:
  assumes ap: "applicable items segs cs" and m': "list_all2 item_matches items' (map (\<lambda>(g, x). (g, changed_text cs x)) segs)"
    and d': "distinct (List.map_filter di_id items')"
  shows "targets_match items' (map inverse_change cs)"
proof -
  have m: "list_all2 item_matches items segs" and rc: "list_all replaces cs" and t: "targets_match items cs"
    and dc: "distinct (map ch_id cs)" using ap validate_changes_Inr(1) by (auto simp: applicable_def)
  have "\<exists>item. find_item items' (ch_id c) = Some item \<and> ch_after c = Some (di_source item)" if c: "c \<in> set cs" for c
  proof -
    obtain item where item: "find_item items (ch_id c) = Some item" using t c by (auto simp: targets_match_def)
    obtain g where g: "(g, di_source item) \<in> set segs" "block_id (di_source item) = Inr (di_id item)"
      using matched_seg [OF m] find_item_Some [OF item(1)] by blast
    have "new_text cs (di_id item) = ch_after c"
      using find_distinct [OF dc c] find_item_Some [OF item(1)] by (simp add: new_text_def)
    then have a: "ch_after c = Some (changed_text cs (di_source item))" using rc c g(2) by (auto simp: changed_text_def list_all_iff replaces_def)
    have "(g, changed_text cs (di_source item)) \<in> set (map (\<lambda>(g, x). (g, changed_text cs x)) segs)" using g(1) by force
    then obtain item' where item': "item' \<in> set items'" "di_source item' = changed_text cs (di_source item)"
        "block_id (changed_text cs (di_source item)) = Inr (di_id item')"
      by (rule matched_item [OF m'])
    then have "di_id item' = Some (ch_id c)" using changed_text_keeps_id [OF ap g(1)] g(2) find_item_Some [OF item(1)] by simp
    then show ?thesis using find_item_distinct [OF d' item'(1)] item'(2) a by simp
  qed
  then show ?thesis by (simp add: targets_match_def inverse_change_def)
qed

lemma applicable_of_document:
  assumes val: "validate_changes (changes command) = Inr ()" and rc: "list_all replaces (changes command)" and dist: "distinct_items current"
  obtains pre segs gl post items where "current = layout pre segs gl post" "good_segs False False segs gl" "segs \<noteq> []"
    "root_at SCHEMATIC_ROOT pre (first_gap segs gl)" "seg_items (length pre + 1) segs = Inr items" "document_items current = Inr items"
    "\<forall>p r. prepare_command p current command = Inr r \<longleftrightarrow> revision_ok current command \<and> applicable items segs (changes command) \<and>
       (let nxt = layout pre (map (\<lambda>(g, x). (g, changed_text (changes command) x)) segs) gl post in r = (nxt, outcome_of current nxt command))"
proof -
  obtain items where items: "document_items current = Inr items" "distinct (List.map_filter di_id items)"
    using dist by (auto simp: distinct_items_def split: sum.splits)
  obtain pre segs gl post where lay: "current = layout pre segs gl post" "good_segs False False segs gl" "segs \<noteq> []"
    "root_at SCHEMATIC_ROOT pre (first_gap segs gl)" "seg_items (length pre + 1) segs = Inr items"
    by (rule document_layout [OF items(1)])
  have "applicable items segs (changes command) \<longleftrightarrow>
      (\<forall>c\<in>set (changes command). \<exists>item. find_item items (ch_id c) = Some item \<and> ch_before c = Some (di_source item))"
    using seg_items_matches [OF lay(5)] items(2) val rc by (simp add: applicable_def targets_match_def)
  then show ?thesis using that [OF lay items(1)] prepare_replacements [OF lay items(2) validate_changes_Inr(1) [OF val] rc] by simp
qed

lemma undo_lemma:
  assumes prep: "prepare_command p current command = Inr (nxt, out)"
    and val: "validate_changes (changes command) = Inr ()" and bc: "list_all block_change (changes command)"
    and dist: "distinct_items current"
  shows "prepare_command q nxt (to_inverse out) = Inr (current, outcome_of nxt current (to_inverse out))"
proof -
  let ?cs = "changes command" and ?ics = "map inverse_change (changes command)"
  have rc: "list_all replaces ?cs" using bc by (auto simp: list_all_iff block_change_def)
  obtain pre segs gl post items where lay: "current = layout pre segs gl post" "good_segs False False segs gl" "segs \<noteq> []"
      "root_at SCHEMATIC_ROOT pre (first_gap segs gl)" "seg_items (length pre + 1) segs = Inr items" "document_items current = Inr items"
    and iff: "\<forall>p r. prepare_command p current command = Inr r \<longleftrightarrow> revision_ok current command \<and> applicable items segs ?cs \<and>
       (let nxt = layout pre (map (\<lambda>(g, x). (g, changed_text ?cs x)) segs) gl post in r = (nxt, outcome_of current nxt command))"
    by (rule applicable_of_document [OF val rc dist])
  have ap: "applicable items segs ?cs" and nxt: "nxt = layout pre (map (\<lambda>(g, x). (g, changed_text ?cs x)) segs) gl post"
    and out: "out = outcome_of current nxt command"
    using iff [THEN spec, of p, THEN spec, of "(nxt, out)"] prep by (simp_all add: Let_def)
  let ?segs = "map (\<lambda>(g, x). (g, changed_text ?cs x)) segs"
  have good': "good_segs False False ?segs gl"
    by (rule good_segs_map [OF lay(2)]) (use changed_text_block [OF ap _ bc] good_segs_blocks [OF lay(2)] in blast)
  have root': "root_at SCHEMATIC_ROOT pre (first_gap ?segs gl)" using lay(4) by (simp add: first_gap_map)
  have ids: "\<exists>i. block_id y = Inr i" if "(g, y) \<in> set ?segs" for g y
    using that applicable_block_id [OF ap] changed_text_keeps_id [OF ap] by fastforce
  obtain items' where items': "seg_items (length pre + 1) ?segs = Inr items'" using seg_items_exist ids by blast
  note m' = seg_items_matches [OF items', THEN conjunct1]
  have "map di_id items' = map di_id items"
    by (rule ids_preserved [OF _ m']) (use ap changed_text_keeps_id [OF ap] in \<open>auto simp: applicable_def\<close>)
  then have d': "distinct (List.map_filter di_id items')" using ap map_filter_ids [of items' items] by (simp add: applicable_def)
  have ics: "distinct (map ch_id ?ics)" "list_all replaces ?ics"
    using ap validate_changes_Inr(1) [OF val] by (auto simp: inverse_change_def comp_def list_all_iff replaces_def applicable_def)
  have "map (\<lambda>(g, x). (g, changed_text ?ics x)) ?segs = segs"
    using changed_text_inverse [OF ap] by (auto simp: comp_def intro!: map_idI)
  moreover have "?segs \<noteq> []" using lay(3) by simp
  moreover have "to_inverse out = inverse_of nxt command" by (simp add: out outcome_of_def)
  ultimately show ?thesis
    using prepare_replacements [OF nxt good' _ root' items' d', of "to_inverse out" q] ics targets_match_inverse [OF ap m' d']
    by (simp add: inverse_of_def revision_ok_def lay(1) Let_def targets_match_def)
qed

lemma validate_loop_iff:
  "validate_changes_loop seen cs = Inr () \<longleftrightarrow> distinct (map ch_id cs) \<and> set (map ch_id cs) \<inter> set seen = {} \<and>
     (\<forall>c\<in>set cs. (ch_before c \<noteq> None \<or> ch_after c \<noteq> None) \<and> (\<forall>a. ch_after c = Some a \<longrightarrow> block_id a = Inr (Some (ch_id c))) \<and>
        (\<forall>b. ch_before c = Some b \<longrightarrow> block_id b = Inr (Some (ch_id c))))"
proof (induction cs arbitrary: seen)
  case (Cons c cs)
  have r: "require_block_id b i = Inr () \<longleftrightarrow> block_id b = Inr (Some i)" for b i
    by (auto simp: require_block_id_def fbind_def split: option.splits if_splits sum.splits)
  show ?case using Cons.IH [of "ch_id c # seen"] by (cases "ch_before c"; cases "ch_after c") (auto simp: r)
qed simp

lemma validate_inverse:
  assumes "validate_changes cs = Inr ()"
  shows "validate_changes (map inverse_change cs) = Inr ()"
proof -
  have "cs \<noteq> []" "validate_changes_loop [] cs = Inr ()" using assms by (auto simp: validate_changes_def split: if_splits)
  then have "validate_changes_loop [] (map inverse_change cs) = Inr ()"
    unfolding validate_loop_iff by (auto simp: inverse_change_def comp_def)
  then show ?thesis using \<open>cs \<noteq> []\<close> by (simp add: validate_changes_def)
qed

text \<open>Why a change cannot be applied to a document with the given items.\<close>

definition conflict_reason :: "document_item list \<Rightarrow> item_change \<Rightarrow> string option" where
  "conflict_reason items c = (case (ch_before c, find_item items (ch_id c)) of
     (Some expected, Some item) \<Rightarrow> if di_source item = expected then None else Some ''target item was modified''
   | (Some _, None) \<Rightarrow> Some ''target item was deleted''
   | (None, Some _) \<Rightarrow> Some ''target UUID was inserted''
   | (None, None) \<Rightarrow> None)"

lemma edit_of_conflict:
  "conflict_reason items c = Some reason \<Longrightarrow> edit_of_change p D items c = Inl (ItemConflict p (ch_id c) reason)"
  by (auto simp: conflict_reason_def edit_of_change_def split: option.splits if_splits)

lemma fmap_Inl: "x \<in> set xs \<Longrightarrow> f x = Inl e \<Longrightarrow> \<exists>e'. fmap f xs = Inl e'"
  by (induction xs) (auto simp: fbind_def split: sum.splits)

lemma prepare_conflict:
  assumes "document_items current = Inr items" "c \<in> set (changes command)" "conflict_reason items c = Some reason"
  shows "\<exists>e. prepare_command p current command = Inl e"
    and "changes command = [c] \<Longrightarrow> revision_ok current command \<Longrightarrow> prepare_command p current command = Inl (ItemConflict p (ch_id c) reason)"
  using assms fmap_Inl [of c "changes command" "edit_of_change p current items", OF assms(2) edit_of_conflict [OF assms(3)]]
  by (auto simp: prepare_command_def fbind_def Let_def edit_of_conflict revision_ok_def)

section \<open>Committing through a document store\<close>

definition holds :: "tree \<Rightarrow> path \<Rightarrow> string \<Rightarrow> bool" where
  "holds fs p s \<longleftrightarrow> target_real fs p \<and> \<not> is_temp p \<and> lookup fs p = Some (File s)"

lemma kept_holds:
  assumes "holds fs0 p old" "kept fs0 fs p" "lookup fs p = Some (File s)"
  shows "holds fs p s"
proof -
  have "lookup fs q = Some Dir" if "lookup fs0 q = Some Dir" for q
    using assms that by (cases "q = p") (auto simp: holds_def kept_def)
  then show ?thesis using assms target_real_frame [of fs0 p fs] by (auto simp: holds_def)
qed

text \<open>The interface a command needs from the store of its document: an update either is refused, and nothing
  changes, or the document is replaced as a whole, whatever faults occur on the way.\<close>

locale document_store =
  fixes transact :: "path \<Rightarrow> (string \<Rightarrow> sexp_error + string \<times> 'a) \<Rightarrow> 'a io"
  assumes reject: "holds (files w) p old \<Longrightarrow> update old = Inl e \<Longrightarrow> transact p update w = (r, w') \<Longrightarrow>
      files w' = files w \<and> (\<forall>x. r \<noteq> Ok x)"
    and accept: "holds (files w) p old \<Longrightarrow> update old = Inr (nxt, x) \<Longrightarrow> transact p update w = (r, w') \<Longrightarrow>
      kept (files w) (files w') p \<and> (holds (files w') p old \<or> holds (files w') p nxt) \<and> (\<forall>y. r = Ok y \<longrightarrow> y = x \<and> holds (files w') p nxt)"
begin

lemma accepted_update:
  assumes "holds (files w) p old" "transact p update w = (Ok x, w')"
  obtains nxt where "update old = Inr (nxt, x)" "holds (files w') p nxt" "kept (files w) (files w') p"
proof (cases "update old")
  case (Inl e)
  then show ?thesis using reject [OF assms(1) Inl assms(2)] by simp
next
  case (Inr nx)
  obtain nxt y where nx: "nx = (nxt, y)" by fastforce
  then show ?thesis using accept [OF assms(1) _ assms(2), of nxt y] Inr that by auto
qed

text \<open>If a second update takes every result of the first back, running it after the first restores the document.\<close>

lemma undo_restores:
  assumes h: "holds (files w) p old" and do: "transact p update w = (Ok x, w1)" and undo: "transact p update' w1 = (r2, w2)"
    and inv: "\<And>nxt. update old = Inr (nxt, x) \<Longrightarrow> update' nxt = Inr (old, y)"
  shows "\<exists>nxt. update old = Inr (nxt, x) \<and> holds (files w1) p nxt \<and> kept (files w) (files w1) p \<and> kept (files w1) (files w2) p \<and>
    (holds (files w2) p nxt \<or> holds (files w2) p old) \<and> (\<forall>z. r2 = Ok z \<longrightarrow> z = y \<and> holds (files w2) p old)"
proof -
  obtain nxt where n: "update old = Inr (nxt, x)" "holds (files w1) p nxt" "kept (files w) (files w1) p"
    by (rule accepted_update [OF h do])
  then show ?thesis using accept [OF n(2) inv [OF n(1)] undo] by auto
qed

end

interpretation docs: document_store "transact_atomic E" for E :: "'e env_scheme"
proof unfold_locales
  fix w w' :: world and p old and update :: "string \<Rightarrow> sexp_error + string \<times> 'b" and e r
  assume h: "holds (files w) p old" and u: "update old = Inl e" and t: "transact_atomic E p update w = (r, w')"
  have "hoare (\<lambda>fs. fs = files w) (transact_atomic E p update) (\<lambda>_ _. False) (\<lambda>fs. fs = files w)"
    using transact_effect [of "files w" p old, where update = update and E = E] h u by (simp add: holds_def)
  from hoareD [OF this refl t] show "files w' = files w \<and> (\<forall>x. r \<noteq> Ok x)" by (cases r) auto
next
  fix w w' :: world and p old nxt and update :: "string \<Rightarrow> sexp_error + string \<times> 'b" and x r
  assume h: "holds (files w) p old" and u: "update old = Inr (nxt, x)" and t: "transact_atomic E p update w = (r, w')"
  have "hoare (\<lambda>fs. fs = files w) (transact_atomic E p update) (\<lambda>y fs. y = x \<and> kept (files w) fs p \<and> lookup fs p = Some (File nxt))
      (\<lambda>fs. kept (files w) fs p \<and> (lookup fs p = lookup (files w) p \<or> lookup fs p = Some (File nxt)))"
    using transact_effect [of "files w" p old, where update = update and E = E] h u by (simp add: holds_def)
  from hoareD [OF this refl t] kept_holds [OF h] h
  show "kept (files w) (files w') p \<and> (holds (files w') p old \<or> holds (files w') p nxt) \<and> (\<forall>y. r = Ok y \<longrightarrow> y = x \<and> holds (files w') p nxt)"
    by (cases r) (auto simp: holds_def)
qed

lemma found_iff:
  assumes m: "list_all2 item_matches items segs" and d: "distinct (List.map_filter di_id items)"
  shows "(\<exists>item. find_item items i = Some item \<and> b = Some (di_source item)) \<longleftrightarrow>
    (\<exists>g x. (g, x) \<in> set segs \<and> block_id x = Inr (Some i) \<and> b = Some x)"
proof
  assume "\<exists>item. find_item items i = Some item \<and> b = Some (di_source item)"
  then obtain item where item: "find_item items i = Some item" "b = Some (di_source item)" by blast
  then have i: "item \<in> set items" "di_id item = Some i" using find_item_Some by auto
  obtain g where "(g, di_source item) \<in> set segs" "block_id (di_source item) = Inr (di_id item)" by (rule matched_seg [OF m i(1)])
  then show "\<exists>g x. (g, x) \<in> set segs \<and> block_id x = Inr (Some i) \<and> b = Some x" using item i by auto
next
  assume "\<exists>g x. (g, x) \<in> set segs \<and> block_id x = Inr (Some i) \<and> b = Some x"
  then obtain g x where gx: "(g, x) \<in> set segs" "block_id x = Inr (Some i)" "b = Some x" by blast
  obtain item where item: "item \<in> set items" "di_source item = x" "block_id x = Inr (di_id item)" by (rule matched_item [OF m gx(1)])
  then have "find_item items i = Some item" using find_item_distinct [OF d] gx(2) by simp
  then show "\<exists>item. find_item items i = Some item \<and> b = Some (di_source item)" using item gx(3) by auto
qed

section \<open>Properties\<close>

text \<open>C7. Replacing items is local and guarded. On a document whose items have distinct UUIDs, a validated
  command that only replaces items is accepted exactly when every target is present with exactly the block the
  command was prepared against (and the revision is the prepared one, if the command requires that), whatever
  else changed meanwhile; its result is the document with the targets' blocks replaced and every other item and
  every gap between items kept byte for byte.\<close>

theorem replace_commands_local:
  assumes "validate_changes (changes command) = Inr ()" and "list_all replaces (changes command)" and "distinct_items current"
  shows "\<exists>pre segs gl post. current = layout pre segs gl post \<and> good_segs False False segs gl \<and>
    document_items current = seg_items (length pre + 1) segs \<and>
    (\<forall>p r. prepare_command p current command = Inr r \<longleftrightarrow> revision_ok current command \<and>
       (\<forall>c\<in>set (changes command). \<exists>g x. (g, x) \<in> set segs \<and> block_id x = Inr (Some (ch_id c)) \<and> ch_before c = Some x) \<and>
       (let nxt = layout pre (map (\<lambda>(g, x). (g, changed_text (changes command) x)) segs) gl post in r = (nxt, outcome_of current nxt command)))"
proof -
  let ?cs = "changes command"
  obtain pre segs gl post items where lay: "current = layout pre segs gl post" "good_segs False False segs gl" "segs \<noteq> []"
      "root_at SCHEMATIC_ROOT pre (first_gap segs gl)" "seg_items (length pre + 1) segs = Inr items" "document_items current = Inr items"
    and iff: "\<forall>p r. prepare_command p current command = Inr r \<longleftrightarrow> revision_ok current command \<and> applicable items segs ?cs \<and>
       (let nxt = layout pre (map (\<lambda>(g, x). (g, changed_text ?cs x)) segs) gl post in r = (nxt, outcome_of current nxt command))"
    by (rule applicable_of_document [OF assms])
  note m = seg_items_matches [OF lay(5), THEN conjunct1]
  have d: "distinct (List.map_filter di_id items)" using assms(3) lay(6) by (simp add: distinct_items_def)
  have "(\<exists>item. find_item items i = Some item \<and> b = Some (di_source item)) \<longleftrightarrow> (\<exists>g x. (g, x) \<in> set segs \<and> block_id x = Inr (Some i) \<and> b = Some x)" for i b
    by (rule found_iff [OF m d])
  then have "applicable items segs ?cs \<longleftrightarrow> (\<forall>c\<in>set ?cs. \<exists>g x. (g, x) \<in> set segs \<and> block_id x = Inr (Some (ch_id c)) \<and> ch_before c = Some x)"
    using m d assms by (simp add: applicable_def targets_match_def)
  note iff [unfolded this]
  moreover have "document_items current = seg_items (length pre + 1) segs" using lay(5,6) by simp
  ultimately show ?thesis using lay(1,2) by blast
qed

definition example_doc :: "string \<Rightarrow> string" where
  "example_doc b = ''(kicad_sch'' @ [CHR 0x0A] @ ''(a (uuid 1))'' @ [CHR 0x0A] @ b @ [CHR 0x0A] @ '')''"

definition example_old :: string where
  "example_old = ''(b (uuid 2))''"

definition example_new :: string where
  "example_new = ''(c '' @ [CHR 0x22] @ ''('' @ [CHR 0x22] @ ''(uuid 2))''"

definition example_command :: schematic_command where
  "example_command = \<lparr>c_label = ''edit'', base_revision = DocumentRevision_of (example_doc example_old), require_unchanged_document = False,
     changes = [\<lparr>ch_id = ''2'', ch_before = Some example_old, ch_after = Some example_new, ch_anchor = EndOfDocument\<rparr>]\<rparr>"

lemma example_valid:
  "validate_changes (changes example_command) = Inr ()" "list_all block_change (changes example_command)"
  "distinct_items (example_doc example_old)"
  by (code_simp, code_simp, code_simp)

theorem replace_commands_local_witness:
  "\<exists>pre segs gl post. example_doc example_old = layout pre segs gl post \<and>
     prepare_command [] (example_doc example_old) example_command
       = Inr (layout pre (map (\<lambda>(g, x). (g, changed_text (changes example_command) x)) segs) gl post,
          outcome_of (example_doc example_old) (example_doc example_new) example_command) \<and>
     layout pre (map (\<lambda>(g, x). (g, changed_text (changes example_command) x)) segs) gl post = example_doc example_new"
proof -
  have r: "list_all replaces (changes example_command)" by code_simp
  have v: "prepare_command [] (example_doc example_old) example_command
     = Inr (example_doc example_new, outcome_of (example_doc example_old) (example_doc example_new) example_command)" by code_simp
  obtain pre segs gl post where *: "example_doc example_old = layout pre segs gl post"
    "\<forall>p r. prepare_command p (example_doc example_old) example_command = Inr r \<longrightarrow>
       fst r = layout pre (map (\<lambda>(g, x). (g, changed_text (changes example_command) x)) segs) gl post"
    using replace_commands_local [OF example_valid(1) r example_valid(3)] by (auto simp: Let_def)
  have "example_doc example_new = layout pre (map (\<lambda>(g, x). (g, changed_text (changes example_command) x)) segs) gl post"
    using *(2) [THEN spec, of "[]", THEN spec, of "(example_doc example_new, outcome_of (example_doc example_old) (example_doc example_new) example_command)"] v
    by simp
  then show ?thesis using *(1) v by metis
qed

text \<open>C10. Undo is exact. A committed command that replaces items by single blocks returns the command that
  takes it back: committing that one, if nothing else changed meanwhile, either leaves the document as the first
  commit left it (when a fault stops it) or restores the original text byte for byte, and on a normal return it
  restores it and yields the original changes again; nothing but the document and scratch files is touched.\<close>

theorem commit_undo_restores:
  assumes "holds (files w) p current" and "list_all block_change (changes command)" and "distinct_items current"
    and "commit_command E p command w = (Ok out, w1)" and "commit_command E p (to_inverse out) w1 = (r2, w2)"
  shows "\<exists>nxt. prepare_command p current command = Inr (nxt, out) \<and> holds (files w1) p nxt \<and>
    kept (files w) (files w1) p \<and> kept (files w1) (files w2) p \<and> (holds (files w2) p nxt \<or> holds (files w2) p current) \<and>
    (\<forall>z. r2 = Ok z \<longrightarrow> holds (files w2) p current \<and> changes (to_inverse z) = changes command)"
proof -
  have v: "validate_changes (changes command) = Inr ()"
    using assms(4) by (cases "validate_changes (changes command)") (auto simp: commit_command_def io_throw_def)
  then have c1: "transact_atomic E p (\<lambda>cur. prepare_command p cur command) w = (Ok out, w1)" using assms(4) by (simp add: commit_command_def)
  obtain n0 where "prepare_command p current command = Inr (n0, out)" by (rule docs.accepted_update [OF assms(1) c1])
  then have inv: "changes (to_inverse out) = map inverse_change (changes command)"
    by (auto simp: prepare_command_Inr outcome_of_def inverse_of_def)
  then have c2: "transact_atomic E p (\<lambda>cur. prepare_command p cur (to_inverse out)) w1 = (r2, w2)"
    using assms(5) validate_inverse [OF v] by (simp add: commit_command_def)
  have "map inverse_change (changes (to_inverse out)) = changes command" unfolding inv by (simp add: inverse_change_def comp_def)
  then have taken_back: "changes (to_inverse (outcome_of nxt current (to_inverse out))) = changes command" for nxt
    by (simp add: outcome_of_def inverse_of_def)
  have "\<exists>y. (\<forall>nxt. prepare_command p current command = Inr (nxt, out) \<longrightarrow> prepare_command p nxt (to_inverse out) = Inr (current, y)) \<and>
      changes (to_inverse y) = changes command"
    using undo_lemma [OF \<open>prepare_command p current command = Inr (n0, out)\<close> v assms(2,3), of p] taken_back [of n0]
      \<open>prepare_command p current command = Inr (n0, out)\<close> by auto
  then obtain y where y: "\<And>nxt. prepare_command p current command = Inr (nxt, out) \<Longrightarrow> prepare_command p nxt (to_inverse out) = Inr (current, y)"
    "changes (to_inverse y) = changes command" by blast
  from docs.undo_restores [OF assms(1) c1 c2 y(1)] y(2) show ?thesis by auto
qed

definition example_world :: "string \<Rightarrow> world" where
  "example_world s = \<lparr>files = [([''p''], Dir), ([''p'', ''a.kicad_sch''], File s)], faults = [], counter = 0, nonce = 0\<rparr>"

abbreviation example_path :: path where
  "example_path \<equiv> [''p'', ''a.kicad_sch'']"

lemma example_holds: "holds (files (example_world s)) example_path s"
proof -
  have "\<not> is_temp example_path" by code_simp
  then show ?thesis by (auto simp: holds_def target_real_def real_dir_def example_world_def lookup_def prefix_Cons)
qed

definition first_commit :: "transaction_outcome outcome \<times> world" where
  "first_commit = commit_command demo_env example_path example_command (example_world (example_doc example_old))"

definition example_out :: transaction_outcome where
  "example_out = outcome_of (example_doc example_old) (example_doc example_new) example_command"

definition second_commit :: "transaction_outcome outcome \<times> world" where
  "second_commit = commit_command demo_env example_path (to_inverse example_out) (snd first_commit)"

theorem commit_undo_restores_witness:
  "holds (files (snd first_commit)) example_path (example_doc example_new) \<and> holds (files (snd second_commit)) example_path (example_doc example_old)"
proof -
  have "fst first_commit = Ok example_out" by code_simp
  then have 1: "commit_command demo_env example_path example_command (example_world (example_doc example_old)) = (Ok example_out, snd first_commit)"
    by (simp add: first_commit_def prod_eq_iff)
  have 2: "commit_command demo_env example_path (to_inverse example_out) (snd first_commit) = (fst second_commit, snd second_commit)"
    by (simp add: second_commit_def)
  have "\<exists>z. fst second_commit = Ok z"
    by (rule exI [of _ "outcome_of (example_doc example_new) (example_doc example_old) (to_inverse example_out)"]) code_simp
  moreover have "prepare_command example_path (example_doc example_old) example_command = Inr (example_doc example_new, example_out)" by code_simp
  ultimately show ?thesis
    using commit_undo_restores [OF example_holds example_valid(2,3) 1 2] by auto
qed

text \<open>C12. A stale command changes nothing. If the document requires to be unchanged and is not, the command is a
  conflict; if the target of some change was modified, deleted or (for an insertion) created meanwhile, the
  command is refused, with an item conflict that names the reason when it has only that change. In both cases
  the commit does not return normally and leaves the file tree as it was.\<close>

theorem stale_command_rejected:
  assumes "holds (files w) p current" and "commit_command E p command w = (r, w')"
    and "\<not> revision_ok current command \<or>
      (\<exists>items c reason. document_items current = Inr items \<and> c \<in> set (changes command) \<and> conflict_reason items c = Some reason)"
  shows "files w' = files w \<and> (\<forall>x. r \<noteq> Ok x) \<and>
    (\<not> revision_ok current command \<longrightarrow> prepare_command p current command = Inl (Conflict p)) \<and>
    (\<forall>items c reason. revision_ok current command \<and> document_items current = Inr items \<and> changes command = [c] \<and> conflict_reason items c = Some reason \<longrightarrow>
       prepare_command p current command = Inl (ItemConflict p (ch_id c) reason))"
proof -
  have rev: "\<not> revision_ok current command \<Longrightarrow> prepare_command p current command = Inl (Conflict p)"
    by (simp add: prepare_command_def revision_ok_def Let_def)
  have "\<exists>e. prepare_command p current command = Inl e" using assms(3) rev prepare_conflict(1) by blast
  then obtain e where e: "prepare_command p current command = Inl e" by blast
  have "files w' = files w \<and> (\<forall>x. r \<noteq> Ok x)"
  proof (cases "validate_changes (changes command)")
    case (Inl e')
    then show ?thesis using assms(2) by (auto simp: commit_command_def io_throw_def)
  next
    case (Inr u)
    then have "transact_atomic E p (\<lambda>cur. prepare_command p cur command) w = (r, w')" using assms(2) by (simp add: commit_command_def)
    from docs.reject [OF assms(1) e this] show ?thesis .
  qed
  then show ?thesis using rev prepare_conflict(2) by auto
qed

theorem stale_command_rejected_witness:
  "fst (commit_command demo_env example_path example_command (example_world (example_doc example_new)))
     = Err (ItemConflict example_path ''2'' ''target item was modified'') \<and>
   files (snd (commit_command demo_env example_path example_command (example_world (example_doc example_new)))) = files (example_world (example_doc example_new))"
proof -
  obtain items where items: "document_items (example_doc example_new) = Inr items"
    by (cases "document_items (example_doc example_new)") (use example_valid in \<open>code_simp, auto\<close>)
  have "case document_items (example_doc example_new) of Inl _ \<Rightarrow> False
     | Inr items \<Rightarrow> conflict_reason items (hd (changes example_command)) = Some ''target item was modified''" by code_simp
  then have c: "conflict_reason items (hd (changes example_command)) = Some ''target item was modified''" by (simp add: items)
  have "\<exists>items c reason. document_items (example_doc example_new) = Inr items \<and> c \<in> set (changes example_command) \<and> conflict_reason items c = Some reason"
    by (rule exI [of _ items], rule exI [of _ "hd (changes example_command)"]) (use items c in \<open>simp add: example_command_def\<close>)
  from stale_command_rejected [OF example_holds prod.collapse [symmetric] disjI2 [OF this], of demo_env]
  have "files (snd (commit_command demo_env example_path example_command (example_world (example_doc example_new)))) = files (example_world (example_doc example_new))" by simp
  moreover have "fst (commit_command demo_env example_path example_command (example_world (example_doc example_new)))
     = Err (ItemConflict example_path ''2'' ''target item was modified'')" by code_simp
  ultimately show ?thesis by simp
qed

definition mixed_undo :: "(string \<times> string) fallible" where
  "mixed_undo =
     (let doc = example_doc example_old in
      fbind (delete_items doc [''1''] ''delete'') (\<lambda>d.
      fbind (replace_item doc ''2'' ''(c (uuid 2))'' ''edit'') (\<lambda>r.
      fbind (from_changes doc ''delete components'' (changes d @ changes r)) (\<lambda>command.
      fbind (prepare_command [] doc command) (\<lambda>(nxt, out).
      fbind (prepare_command [] nxt (to_inverse out)) (\<lambda>(undone, _). Inr (nxt, undone)))))))"

text \<open>A limit of undo. The deletion planner puts deletions (each anchored before the next item that survives)
  and replacements into one command. When the surviving item is replaced too, the two edits of the inverse
  command start at the same offset, and the text edit applies the replacement to the text just inserted: here
  item 1 is deleted and item 2 replaced, the command is accepted, and its inverse is accepted as well, but what
  it produces has lost item 1 and holds both versions of item 2.\<close>

theorem mixed_undo_corrupts:
  "mixed_undo = Inr (''(kicad_sch'' @ [CHR 0x0A] @ ''(c (uuid 2))'' @ [CHR 0x0A] @ '')'',
     ''(kicad_sch'' @ [CHR 0x0A] @ ''(b (uuid 2))'' @ [CHR 0x0A] @ ''(c (uuid 2))'' @ [CHR 0x0A] @ '')'')"
  by code_simp

end
