(* ===== verification/Radix_Heap.thy ===== *)
theory Radix_Heap
  imports Konnect_Prelude "HOL-Library.Word"
begin

text \<open>
  The search's costs and priority queue (\<open>crates/konnect-route/src/compute/cost.rs\<close> and
  \<open>detail/search/heap.rs\<close>): saturating 32-bit costs, and a radix heap whose buckets are indexed by the highest bit
  in which a key differs from the last popped one. The queue's contract is the locale \<open>monotone_queue\<close>.
\<close>

unbundle bit_operations_syntax

type_synonym u32 = "32 word"

section \<open>Costs\<close>

datatype cost = Cost (cost_bits: u32)

definition INFINITE :: cost where
  "INFINITE = Cost (- 1)"

definition STEP_STRAIGHT :: cost where
  "STEP_STRAIGHT = Cost 1000"

definition STEP_DIAGONAL :: cost where
  "STEP_DIAGONAL = Cost 1414"

definition is_infinite :: "cost \<Rightarrow> bool" where
  "is_infinite c \<longleftrightarrow> c = INFINITE"

text \<open>\<open>u32::saturating_add\<close>: the sum, or \<open>u32::MAX\<close> if it wraps.\<close>

definition u32_saturating_add :: "u32 \<Rightarrow> u32 \<Rightarrow> u32" where
  "u32_saturating_add a b = (if a + b < a then - 1 else a + b)"

definition saturating_add :: "cost \<Rightarrow> cost \<Rightarrow> cost" where
  "saturating_add a b = Cost (u32_saturating_add (cost_bits a) (cost_bits b))"

definition Cost_scale :: "cost \<Rightarrow> u32 \<Rightarrow> u32 \<Rightarrow> cost" where
  "Cost_scale c num den =
     (if den = 0 \<or> is_infinite c then INFINITE
      else let v = ucast (cost_bits c) * ucast num div (ucast den :: 64 word)
           in Cost (if v \<le> ucast (- 1 :: u32) then ucast v else - 1))"

instantiation cost :: linorder
begin

definition less_eq_cost :: "cost \<Rightarrow> cost \<Rightarrow> bool" where
  "less_eq_cost a b \<longleftrightarrow> cost_bits a \<le> cost_bits b"

definition less_cost :: "cost \<Rightarrow> cost \<Rightarrow> bool" where
  "less_cost a b \<longleftrightarrow> cost_bits a < cost_bits b"

instance
  by standard (auto simp: less_eq_cost_def less_cost_def cost.expand)

end

definition amount :: "cost \<Rightarrow> nat" where
  "amount c = unat (cost_bits c)"

lemma u32_bound: "unat (x :: u32) < 2 ^ 32"
  using unsigned_less [of x] by simp

lemma unat_ucast64: "unat (ucast (x :: u32) :: 64 word) = unat x"
  using u32_bound [of x] by (simp add: unsigned_ucast_eq take_bit_nat_eq_self)

lemma amount_inj: "amount a = amount b \<longleftrightarrow> a = b"
  by (cases a; cases b) (auto simp: amount_def word_unat_eq_iff)

lemma amount_less_eq: "a \<le> b \<longleftrightarrow> amount a \<le> amount b"
  by (simp add: less_eq_cost_def amount_def word_le_nat_alt)

lemma amount_INFINITE: "amount INFINITE = 2 ^ 32 - 1"
  by (simp add: amount_def INFINITE_def unsigned_minus_1_eq_mask mask_eq_exp_minus_1)

lemma amount_le: "amount c \<le> 2 ^ 32 - 1"
  using u32_bound [of "cost_bits c"] by (simp add: amount_def)

lemma amount_saturating_add: "amount (saturating_add a b) = min (amount a + amount b) (2 ^ 32 - 1)"
proof -
  let ?a = "cost_bits a" and ?b = "cost_bits b"
  have ab: "unat ?a < 2 ^ 32" "unat ?b < 2 ^ 32" using u32_bound [of ?a] u32_bound [of ?b] by auto
  have s: "unat (?a + ?b) = (if unat ?a + unat ?b < 2 ^ 32 then unat ?a + unat ?b else unat ?a + unat ?b - 2 ^ 32)"
    using ab by (auto simp: unat_word_ariths mod_if)
  show ?thesis
    using s ab by (auto simp: amount_def saturating_add_def u32_saturating_add_def word_less_nat_alt unsigned_minus_1_eq_mask mask_eq_exp_minus_1)
qed

lemma amount_scale:
  assumes "den \<noteq> 0" "\<not> is_infinite c"
  shows "amount (Cost_scale c num den) = min (amount c * unat num div unat den) (2 ^ 32 - 1)"
proof -
  let ?v = "ucast (cost_bits c) * ucast num div (ucast den :: 64 word)"
  have l: "unat (cost_bits c) < 2 ^ 32" "unat num < 2 ^ 32"
    using u32_bound [of "cost_bits c"] u32_bound [of num] by auto
  then have "unat (cost_bits c) * unat num < 2 ^ 32 * 2 ^ 32" by (intro mult_strict_mono) auto
  then have v: "unat ?v = unat (cost_bits c) * unat num div unat den"
    by (simp add: unat_div_distrib unat_word_ariths unat_ucast64)
  have m: "unat (ucast (- 1 :: u32) :: 64 word) = 2 ^ 32 - 1"
    unfolding unat_ucast64 by (simp add: unsigned_minus_1_eq_mask mask_eq_exp_minus_1)
  have "unat (ucast ?v :: u32) = unat ?v" if "unat ?v \<le> 2 ^ 32 - 1"
    using that by (simp add: unsigned_ucast_eq take_bit_nat_eq_self)
  then show ?thesis
    using assms v m by (auto simp: Cost_scale_def Let_def amount_def word_le_nat_alt unsigned_minus_1_eq_mask mask_eq_exp_minus_1 min_def)
qed

section \<open>Radix heap\<close>

definition BUCKETS :: nat where
  "BUCKETS = 33"

type_synonym entry = "u32 \<times> u32"

record radix_heap =
  last_key :: u32
  len :: nat
  buckets :: "entry list list"

definition RadixHeap_new :: radix_heap where
  "RadixHeap_new = \<lparr>last_key = 0, len = 0, buckets = replicate BUCKETS []\<rparr>"

definition leading_zeros :: "u32 \<Rightarrow> nat" where
  "leading_zeros w = length (takeWhile (\<lambda>i. \<not> bit w i) (rev [0..<32]))"

definition bucket_of :: "u32 \<Rightarrow> u32 \<Rightarrow> nat" where
  "bucket_of key lst = 32 - leading_zeros (xor key lst)"

definition RadixHeap_clear :: "radix_heap \<Rightarrow> radix_heap" where
  "RadixHeap_clear h = \<lparr>last_key = 0, len = 0, buckets = map (\<lambda>_. []) (buckets h)\<rparr>"

definition RadixHeap_is_empty :: "radix_heap \<Rightarrow> bool" where
  "RadixHeap_is_empty h \<longleftrightarrow> len h = 0"

definition RadixHeap_floor :: "radix_heap \<Rightarrow> u32" where
  "RadixHeap_floor h = last_key h"

definition add_to :: "nat \<Rightarrow> entry \<Rightarrow> entry list list \<Rightarrow> entry list list" where
  "add_to i e bs = bs[i := bs ! i @ [e]]"

definition RadixHeap_push :: "u32 \<Rightarrow> u32 \<Rightarrow> radix_heap \<Rightarrow> radix_heap" where
  "RadixHeap_push key val h =
     (let k = max key (last_key h)
      in h\<lparr>buckets := add_to (bucket_of k (last_key h)) (k, val) (buckets h), len := len h + 1\<rparr>)"

fun min_key :: "entry list \<Rightarrow> u32 option" where
  "min_key [] = None"
| "min_key (e # es) = Some (case min_key es of None \<Rightarrow> fst e | Some m \<Rightarrow> min (fst e) m)"

text \<open>Spreading bucket \<open>i\<close> over the lower buckets, with the new floor.\<close>

definition spread :: "nat \<Rightarrow> u32 \<Rightarrow> entry list list \<Rightarrow> entry list list" where
  "spread i m bs = (fold (\<lambda>e. add_to (bucket_of (fst e) m) e) (bs ! i) (bs[i := []]))[i := []]"

definition pop_front :: "radix_heap \<Rightarrow> entry option \<times> radix_heap" where
  "pop_front h = (if buckets h ! 0 = [] then (None, h)
     else (Some (last (buckets h ! 0)), h\<lparr>buckets := (buckets h)[0 := butlast (buckets h ! 0)], len := len h - 1\<rparr>))"

definition RadixHeap_pop :: "radix_heap \<Rightarrow> entry option \<times> radix_heap" where
  "RadixHeap_pop h =
     (if buckets h ! 0 = [] then
        (if len h = 0 then (None, h)
         else case find (\<lambda>i. buckets h ! i \<noteq> []) [1..<BUCKETS] of None \<Rightarrow> (None, h)
           | Some i \<Rightarrow> (case min_key (buckets h ! i) of None \<Rightarrow> (None, h)
               | Some m \<Rightarrow> pop_front (h\<lparr>last_key := m, buckets := spread i m (buckets h)\<rparr>)))
      else pop_front h)"

subsection \<open>Buckets by quotients\<close>

lemma takeWhile_rev_upt: "N - length (takeWhile P (rev [0..<N])) \<le> i \<longleftrightarrow> (\<forall>n. i \<le> n \<and> n < N \<longrightarrow> P n)"
  by (induction N) (auto simp: less_Suc_eq)

lemma bucket_of_le: "bucket_of a b \<le> i \<longleftrightarrow> unat a div 2 ^ i = unat b div 2 ^ i"
proof -
  have "bucket_of a b \<le> i \<longleftrightarrow> (\<forall>n. i \<le> n \<and> n < 32 \<longrightarrow> \<not> bit (xor a b) n)"
    unfolding bucket_of_def leading_zeros_def by (rule takeWhile_rev_upt)
  also have "\<dots> \<longleftrightarrow> (\<forall>n. bit (unat a) (i + n) = bit (unat b) (i + n))"
  proof (rule iffI; rule allI)
    fix n assume *: "\<forall>n. i \<le> n \<and> n < 32 \<longrightarrow> \<not> bit (xor a b) n"
    show "bit (unat a) (i + n) = bit (unat b) (i + n)"
      using * [rule_format, of "i + n"] by (cases "i + n < 32") (auto simp: bit_xor_iff bit_unsigned_iff dest: bit_imp_le_length)
  next
    fix n assume *: "\<forall>n. bit (unat a) (i + n) = bit (unat b) (i + n)"
    show "i \<le> n \<and> n < 32 \<longrightarrow> \<not> bit (xor a b) n" using * [rule_format, of "n - i"] by (auto simp: bit_xor_iff bit_unsigned_iff)
  qed
  also have "\<dots> \<longleftrightarrow> drop_bit i (unat a) = drop_bit i (unat b)" by (simp add: bit_eq_iff bit_drop_bit_eq)
  finally show ?thesis by (simp add: drop_bit_eq_div)
qed

lemma bucket_of_range: "bucket_of a b < BUCKETS"
  by (simp add: bucket_of_def BUCKETS_def)

lemma bucket_of_0: "bucket_of a b = 0 \<longleftrightarrow> a = b"
  using bucket_of_le [of a b 0] by (simp add: word_unat_eq_iff)

lemma quotient_double: "n div 2 ^ i = 2 * (n div 2 ^ Suc i) + n div 2 ^ i mod 2" for n :: nat
proof -
  have "n div 2 ^ i div 2 = n div 2 ^ Suc i" by (metis div_mult2_eq power_Suc2)
  then show ?thesis by (metis mult_div_mod_eq)
qed

text \<open>At the highest differing bit, a key not below the floor has a one and the floor a zero.\<close>

lemma bucket_of_Suc:
  assumes "bucket_of k l = Suc i" "l \<le> k"
  shows "unat k div 2 ^ Suc i = unat l div 2 ^ Suc i" "unat k div 2 ^ i = 2 * (unat l div 2 ^ Suc i) + 1" "unat l div 2 ^ i = 2 * (unat l div 2 ^ Suc i)"
proof -
  have q: "unat k div 2 ^ Suc i = unat l div 2 ^ Suc i" using bucket_of_le [of k l "Suc i"] assms by simp
  have n: "unat k div 2 ^ i \<noteq> unat l div 2 ^ i" using bucket_of_le [of k l i] assms by simp
  have m: "unat l div 2 ^ i \<le> unat k div 2 ^ i" using assms(2) by (simp add: word_le_nat_alt div_le_mono)
  note k = quotient_double [of "unat k" i] and l = quotient_double [of "unat l" i]
  have "unat k div 2 ^ i mod 2 < 2" "unat l div 2 ^ i mod 2 < 2" by auto
  then have "unat k div 2 ^ i mod 2 = 1 \<and> unat l div 2 ^ i mod 2 = 0" using k l q n m by arith
  then show "unat k div 2 ^ Suc i = unat l div 2 ^ Suc i" "unat k div 2 ^ i = 2 * (unat l div 2 ^ Suc i) + 1" "unat l div 2 ^ i = 2 * (unat l div 2 ^ Suc i)"
    using k l q by auto
qed

lemma div_pow_mono: "n div 2 ^ i = m div 2 ^ i \<Longrightarrow> i \<le> j \<Longrightarrow> n div 2 ^ j = m div 2 ^ j" for n m :: nat
  by (metis div_mult2_eq le_add_diff_inverse power_add)

lemma bucket_of_less:
  assumes "bucket_of k l < bucket_of k' l" "l \<le> k'"
  shows "k < k'"
proof -
  obtain j where j: "bucket_of k' l = Suc j" using assms(1) by (cases "bucket_of k' l") auto
  have "unat k div 2 ^ j = unat l div 2 ^ j" using assms(1) j bucket_of_le [of k l j] by simp
  then have "unat k div 2 ^ j < unat k' div 2 ^ j" using bucket_of_Suc [OF j assms(2)] by simp
  then have "unat k < unat k'" by (meson div_le_mono linorder_not_less)
  then show ?thesis by (simp add: word_less_nat_alt)
qed

lemma bucket_of_refloor:
  assumes "bucket_of k l = bucket_of m l" "bucket_of m l \<noteq> 0" "l \<le> k" "l \<le> m"
  shows "bucket_of k m < bucket_of m l"
proof -
  obtain i where i: "bucket_of m l = Suc i" using assms(2) by (cases "bucket_of m l") auto
  then have "unat k div 2 ^ i = unat m div 2 ^ i" using bucket_of_Suc(2) [of k l i] bucket_of_Suc(2) [of m l i] assms by simp
  then show ?thesis using bucket_of_le [of k m i] i by simp
qed

lemma bucket_of_stable:
  assumes "bucket_of m l < bucket_of k l"
  shows "bucket_of k m = bucket_of k l"
proof (rule antisym)
  show "bucket_of k m \<le> bucket_of k l"
    unfolding bucket_of_le
    using bucket_of_le [of k l "bucket_of k l"] bucket_of_le [of m l "bucket_of k l"] assms by simp
  show "bucket_of k l \<le> bucket_of k m"
  proof (rule ccontr)
    let ?t = "max (bucket_of k m) (bucket_of m l)"
    assume "\<not> bucket_of k l \<le> bucket_of k m"
    then have t: "?t < bucket_of k l" using assms by simp
    have "unat k div 2 ^ ?t = unat m div 2 ^ ?t" "unat m div 2 ^ ?t = unat l div 2 ^ ?t"
      using bucket_of_le [of k m ?t] bucket_of_le [of m l ?t] by auto
    then have "bucket_of k l \<le> ?t" by (simp add: bucket_of_le)
    then show False using t by simp
  qed
qed

subsection \<open>Invariant and contents\<close>

text \<open>The entries pushed with one key, oldest first: a key is a stack.\<close>

definition stack_in :: "entry list list \<Rightarrow> u32 \<Rightarrow> u32 list" where
  "stack_in bs k = map snd (filter (\<lambda>e. fst e = k) (concat bs))"

definition stacks :: "radix_heap \<Rightarrow> u32 \<Rightarrow> u32 list" where
  "stacks h = stack_in (buckets h)"

definition buckets_ok :: "u32 \<Rightarrow> entry list list \<Rightarrow> bool" where
  "buckets_ok l bs \<longleftrightarrow> length bs = BUCKETS \<and> (\<forall>i < BUCKETS. \<forall>e \<in> set (bs ! i). l \<le> fst e \<and> bucket_of (fst e) l = i)"

definition heap_ok :: "radix_heap \<Rightarrow> bool" where
  "heap_ok h \<longleftrightarrow> buckets_ok (last_key h) (buckets h) \<and> len h = length (concat (buckets h))"

lemma concat_single:
  assumes "j < length bs" "\<And>i. i < length bs \<Longrightarrow> i \<noteq> j \<Longrightarrow> filter P (bs ! i) = []"
  shows "filter P (concat bs) = filter P (bs ! j)"
proof -
  have e: "filter P (concat xs) = []" if "\<forall>x\<in>set xs. filter P x = []" for xs using that by (induction xs) auto
  have bs: "bs = take j bs @ bs ! j # drop (Suc j) bs" using assms(1) by (simp add: id_take_nth_drop)
  have "\<forall>x\<in>set (take j bs). filter P x = []" using assms by (auto simp: in_set_conv_nth)
  moreover have "\<forall>x\<in>set (drop (Suc j) bs). filter P x = []" using assms by (auto simp: in_set_conv_nth)
  ultimately show ?thesis by (subst bs) (simp add: e)
qed

lemma stack_in_bucket:
  assumes "buckets_ok l bs"
  shows "stack_in bs k = map snd (filter (\<lambda>e. fst e = k) (bs ! bucket_of k l))"
  unfolding stack_in_def
  by (subst concat_single [of "bucket_of k l"]) (use assms bucket_of_range in \<open>auto simp: buckets_ok_def filter_empty_conv\<close>)

lemma length_concat_update:
  "i < length bs \<Longrightarrow> length (concat (bs[i := xs])) + length (bs ! i) = length (concat bs) + length xs"
proof (induction bs arbitrary: i)
  case (Cons b bs)
  then show ?case by (cases i) auto
qed simp

lemma add_to_length [simp]: "length (add_to i e bs) = length bs"
  by (simp add: add_to_def)

lemma push_ok:
  assumes "heap_ok h"
  shows "heap_ok (RadixHeap_push k v h)" and "stacks (RadixHeap_push k v h) = (stacks h)(max k (last_key h) := stacks h (max k (last_key h)) @ [v])"
proof -
  let ?k = "max k (last_key h)" and ?l = "last_key h" and ?bs = "buckets h"
  let ?b = "bucket_of ?k ?l"
  have ok: "buckets_ok ?l ?bs" and n: "len h = length (concat ?bs)" using assms by (auto simp: heap_ok_def)
  have b: "?b < length ?bs" using ok bucket_of_range by (simp add: buckets_ok_def)
  have ok': "buckets_ok ?l (add_to ?b (?k, v) ?bs)"
    using ok b by (auto simp: buckets_ok_def add_to_def nth_list_update)
  have "length (concat (add_to ?b (?k, v) ?bs)) = length (concat ?bs) + 1"
    using length_concat_update [OF b, of "?bs ! ?b @ [(?k, v)]"] by (simp add: add_to_def)
  then show "heap_ok (RadixHeap_push k v h)" using ok' n by (simp add: heap_ok_def RadixHeap_push_def Let_def)
  show "stacks (RadixHeap_push k v h) = (stacks h)(?k := stacks h ?k @ [v])"
  proof
    fix x
    have "stacks (RadixHeap_push k v h) x = stack_in (add_to ?b (?k, v) ?bs) x" by (simp add: stacks_def RadixHeap_push_def Let_def)
    also have "\<dots> = ((stacks h)(?k := stacks h ?k @ [v])) x"
      unfolding stack_in_bucket [OF ok'] stacks_def fun_upd_def stack_in_bucket [OF ok] using b by (auto simp: add_to_def nth_list_update)
    finally show "stacks (RadixHeap_push k v h) x = ((stacks h)(?k := stacks h ?k @ [v])) x" .
  qed
qed

lemma new_ok: "heap_ok RadixHeap_new" "stacks RadixHeap_new = (\<lambda>_. [])"
proof -
  have "concat (replicate n []) = []" for n :: nat by (induction n) auto
  then show "heap_ok RadixHeap_new" "stacks RadixHeap_new = (\<lambda>_. [])"
    by (auto simp: heap_ok_def buckets_ok_def RadixHeap_new_def stacks_def stack_in_def)
qed

lemma clear_new: "heap_ok h \<Longrightarrow> RadixHeap_clear h = RadixHeap_new"
  by (simp add: heap_ok_def buckets_ok_def RadixHeap_clear_def RadixHeap_new_def map_replicate_const)

lemma min_key_Some:
  "es \<noteq> [] \<Longrightarrow> \<exists>m. min_key es = Some m \<and> m \<in> fst ` set es \<and> (\<forall>e \<in> set es. m \<le> fst e)"
proof (induction es)
  case (Cons e es)
  then show ?case by (cases es) (auto simp: min_def split: option.splits)
qed simp

lemma fold_add_to:
  assumes "\<And>e. e \<in> set es \<Longrightarrow> f e < length bs"
  shows "length (fold (\<lambda>e. add_to (f e) e) es bs) = length bs \<and>
    (\<forall>j < length bs. fold (\<lambda>e. add_to (f e) e) es bs ! j = bs ! j @ filter (\<lambda>e. f e = j) es) \<and>
    length (concat (fold (\<lambda>e. add_to (f e) e) es bs)) = length (concat bs) + length es"
  using assms
proof (induction es arbitrary: bs)
  case (Cons e es)
  have "length (concat (add_to (f e) e bs)) = length (concat bs) + 1"
    using length_concat_update [of "f e" bs "bs ! f e @ [e]"] Cons.prems by (simp add: add_to_def)
  then show ?case using Cons.IH [of "add_to (f e) e bs"] Cons.prems by (auto simp: add_to_def nth_list_update)
qed simp

text \<open>Bucket \<open>i\<close> is the first one that is not empty, and \<open>m\<close> is its least key.\<close>

definition spreadable :: "u32 \<Rightarrow> nat \<Rightarrow> u32 \<Rightarrow> entry list list \<Rightarrow> bool" where
  "spreadable l i m bs \<longleftrightarrow> buckets_ok l bs \<and> 0 < i \<and> i < BUCKETS \<and> (\<forall>j < i. bs ! j = []) \<and>
     m \<in> fst ` set (bs ! i) \<and> (\<forall>e \<in> set (bs ! i). m \<le> fst e)"

lemma spreadableD:
  assumes "spreadable l i m bs"
  shows "buckets_ok l bs" "0 < i" "i < BUCKETS" "\<And>j. j < i \<Longrightarrow> bs ! j = []" "m \<in> fst ` set (bs ! i)" "\<And>e. e \<in> set (bs ! i) \<Longrightarrow> m \<le> fst e"
    "length bs = BUCKETS" "bucket_of m l = i" "l \<le> m"
  using assms by (auto simp: spreadable_def buckets_ok_def)

lemma spread_lower:
  assumes s: "spreadable l i m bs" and e: "e \<in> set (bs ! i)"
  shows "bucket_of (fst e) m < i"
proof -
  note sp = spreadableD [OF s]
  obtain d where d: "d \<in> set (bs ! i)" "m = fst d" using sp(5) by auto
  have "bucket_of m l = i" "l \<le> m" "bucket_of (fst e) l = i" "l \<le> fst e" using sp(1,3) d e by (auto simp: buckets_ok_def)
  then show ?thesis using bucket_of_refloor [of "fst e" l m] sp(2) by simp
qed

lemma spread_fold:
  assumes s: "spreadable l i m bs"
  defines "f \<equiv> fold (\<lambda>e. add_to (bucket_of (fst e) m) e) (bs ! i) (bs[i := []])"
  shows "length f = BUCKETS" "j < BUCKETS \<Longrightarrow> f ! j = bs[i := []] ! j @ filter (\<lambda>e. bucket_of (fst e) m = j) (bs ! i)"
    and "length (concat f) = length (concat (bs[i := []])) + length (bs ! i)"
  using fold_add_to [of "bs ! i" "\<lambda>e. bucket_of (fst e) m" "bs[i := []]"] bucket_of_range spreadableD(7) [OF s] by (auto simp: f_def)

lemma spread_high: "spreadable l i m bs \<Longrightarrow> i \<le> j \<Longrightarrow> filter (\<lambda>e. bucket_of (fst e) m = j) (bs ! i) = []"
  using spread_lower by (fastforce simp: filter_empty_conv)

lemma spread_nth:
  assumes s: "spreadable l i m bs" and j: "j < BUCKETS"
  shows "spread i m bs ! j = (if j < i then filter (\<lambda>e. bucket_of (fst e) m = j) (bs ! i) else if j = i then [] else bs ! j)"
  unfolding spread_def using spread_fold [OF s] spread_high [OF s, of j] spreadableD(3,4,7) [OF s] j by (auto simp: nth_list_update)

lemma spread_count:
  assumes s: "spreadable l i m bs"
  shows "length (concat (spread i m bs)) = length (concat bs)"
proof -
  let ?f = "fold (\<lambda>e. add_to (bucket_of (fst e) m) e) (bs ! i) (bs[i := []])"
  note sp = spreadableD [OF s] and f = spread_fold [OF s]
  have "?f ! i = []" using f(2) [OF sp(3)] spread_high [OF s, of i] sp by simp
  then have "length (concat (spread i m bs)) = length (concat ?f)"
    using length_concat_update [of i ?f "[]"] sp(3) f(1) by (simp add: spread_def)
  then show ?thesis using f(3) length_concat_update [of i bs "[]"] sp by simp
qed

lemma spread_ok:
  assumes s: "spreadable l i m bs"
  shows "buckets_ok m (spread i m bs)"
proof -
  note sp = spreadableD [OF s]
  have high: "m \<le> fst e \<and> bucket_of (fst e) m = j" if j: "i < j" "j < BUCKETS" and e: "e \<in> set (bs ! j)" for j e
  proof -
    have b: "bucket_of (fst e) l = j" "l \<le> fst e" using sp(1) j e by (auto simp: buckets_ok_def)
    then show ?thesis using sp(8) j bucket_of_less [of m l "fst e"] bucket_of_stable [of m l "fst e"] by auto
  qed
  have "m \<le> fst e \<and> bucket_of (fst e) m = j" if j: "j < BUCKETS" and e: "e \<in> set (spread i m bs ! j)" for j e
    using e high [of j e] sp(6) [of e] j unfolding spread_nth [OF s j] by (auto split: if_splits)
  moreover have "length (spread i m bs) = BUCKETS" using spread_fold(1) [OF s] by (simp add: spread_def)
  ultimately show ?thesis by (simp add: buckets_ok_def)
qed

lemma spread_stack:
  assumes s: "spreadable l i m bs"
  shows "stack_in (spread i m bs) k = stack_in bs k"
proof -
  note sp = spreadableD [OF s]
  let ?s = "filter (\<lambda>e. fst e = k)"
  have in_bucket: "bucket_of k l = j" if "e \<in> set (bs ! j)" "fst e = k" "j < BUCKETS" for e j using sp(1) that by (auto simp: buckets_ok_def)
  have "?s (spread i m bs ! bucket_of k m) = ?s (bs ! bucket_of k l)"
  proof (cases "\<exists>e \<in> set (bs ! i). fst e = k")
    case True
    then obtain e where e: "e \<in> set (bs ! i)" "fst e = k" by blast
    then have "bucket_of k m < i" "bucket_of k l = i" using spread_lower [OF s e(1)] in_bucket [OF e] sp(3) by auto
    then show ?thesis using spread_nth [OF s, of "bucket_of k m"] bucket_of_range by (auto intro!: filter_cong)
  next
    case False
    show ?thesis
    proof (cases "i < bucket_of k l")
      case True
      then show ?thesis using sp(8,9) bucket_of_stable [of m l k] spread_nth [OF s, of "bucket_of k l"] bucket_of_range by simp
    next
      case below: False
      have "?s (bs ! j) = []" if "i \<le> j" "j < BUCKETS" for j
        using that below False in_bucket by (fastforce simp: filter_empty_conv)
      moreover from this have "?s (bs ! bucket_of k l) = []" using below sp by (cases "bucket_of k l < i") auto
      moreover have "?s (filter P (bs ! i)) = []" for P using False by (auto simp: filter_empty_conv)
      ultimately show ?thesis using spread_nth [OF s, of "bucket_of k m"] bucket_of_range [of k m] by simp
    qed
  qed
  then show ?thesis by (simp add: stack_in_bucket [OF sp(1)] stack_in_bucket [OF spread_ok [OF s]])
qed

lemma spread_front:
  assumes s: "spreadable l i m bs"
  shows "spread i m bs ! 0 \<noteq> []"
proof -
  note sp = spreadableD [OF s]
  obtain d where d: "d \<in> set (bs ! i)" "fst d = m" using sp(5) by auto
  then have "d \<in> set (spread i m bs ! 0)" using sp(2) spread_nth [OF s, of 0] by (auto simp: bucket_of_0 BUCKETS_def)
  then show ?thesis by auto
qed

subsection \<open>Popping\<close>

lemma filter_butlast: "xs \<noteq> [] \<Longrightarrow> filter P (butlast xs) = (if P (last xs) then butlast (filter P xs) else filter P xs)"
  by (induction xs rule: rev_induct) auto

lemma pop_front_ok:
  assumes h: "heap_ok h" and ne: "buckets h ! 0 \<noteq> []"
  shows "stacks h (last_key h) \<noteq> [] \<and>
    pop_front h = (Some (last_key h, last (stacks h (last_key h))), snd (pop_front h)) \<and> heap_ok (snd (pop_front h)) \<and>
    stacks (snd (pop_front h)) = (stacks h)(last_key h := butlast (stacks h (last_key h))) \<and> last_key (snd (pop_front h)) = last_key h"
proof -
  let ?l = "last_key h" and ?bs = "buckets h"
  let ?b0 = "?bs ! 0"
  let ?bs' = "?bs[0 := butlast ?b0]"
  have ok: "buckets_ok ?l ?bs" and n: "len h = length (concat ?bs)" using h by (auto simp: heap_ok_def)
  have len: "0 < length ?bs" "0 < BUCKETS" using ok by (auto simp: buckets_ok_def BUCKETS_def)
  have key: "fst e = ?l" if "e \<in> set ?b0" for e using ok that len by (auto simp: buckets_ok_def bucket_of_0)
  have self: "bucket_of ?l ?l = 0" by (simp add: bucket_of_0)
  have all: "filter (\<lambda>e. fst e = ?l) ?b0 = ?b0" using key by (auto simp: filter_id_conv)
  have s: "stacks h ?l = map snd ?b0" by (simp add: stacks_def stack_in_bucket [OF ok] all self)
  have e: "last ?b0 = (?l, last (stacks h ?l))" using ne key [of "last ?b0"] by (simp add: s last_map prod_eq_iff)
  have ok': "buckets_ok ?l ?bs'" using ok by (auto simp: buckets_ok_def nth_list_update dest: in_set_butlastD)
  have "length (concat ?bs') = len h - 1" using length_concat_update [OF len(1), of "butlast ?b0"] ne n by (cases ?b0) auto
  moreover have "stack_in ?bs' k = ((stacks h)(?l := butlast (stacks h ?l))) k" for k
    unfolding stacks_def fun_upd_def stack_in_bucket [OF ok'] stack_in_bucket [OF ok]
    using len ne key [of "last ?b0"] by (auto simp: nth_list_update bucket_of_0 filter_butlast map_butlast self)
  moreover have "stack_in ?bs ?l \<noteq> []" using ne s by (simp add: stacks_def)
  ultimately show ?thesis using ne ok' e by (auto simp: pop_front_def heap_ok_def stacks_def fun_eq_iff)
qed

lemma entries_stack: "stacks h k \<noteq> [] \<longleftrightarrow> k \<in> fst ` set (concat (buckets h))"
  by (auto simp: stacks_def stack_in_def filter_empty_conv image_iff)

lemma stack_floor:
  assumes h: "heap_ok h" and k: "stacks h k \<noteq> []"
  shows "last_key h \<le> k"
proof -
  obtain b e where e: "b \<in> set (buckets h)" "e \<in> set b" "fst e = k" using k unfolding entries_stack by auto
  then obtain i where "i < length (buckets h)" "buckets h ! i = b" by (auto simp: in_set_conv_nth)
  then show ?thesis using h e by (auto simp: heap_ok_def buckets_ok_def)
qed

text \<open>An empty front bucket: the first bucket with entries is spread, which leaves the contents as they are.\<close>

lemma refill_ok:
  assumes h: "heap_ok h" and e: "buckets h ! 0 = []" and n: "len h \<noteq> 0"
  obtains i m where "find (\<lambda>i. buckets h ! i \<noteq> []) [1..<BUCKETS] = Some i" "min_key (buckets h ! i) = Some m"
    "spreadable (last_key h) i m (buckets h)"
proof -
  have ok: "buckets_ok (last_key h) (buckets h)" using h by (simp add: heap_ok_def)
  then have len: "length (buckets h) = BUCKETS" by (simp add: buckets_ok_def)
  have "concat (buckets h) \<noteq> []" using h n by (auto simp: heap_ok_def)
  then obtain j where j: "j < BUCKETS" "buckets h ! j \<noteq> []" using len by (auto simp: in_set_conv_nth)
  then have "find (\<lambda>i. buckets h ! i \<noteq> []) [1..<BUCKETS] \<noteq> None" using e by (cases j) (auto simp: find_None_iff)
  then obtain i where i: "find (\<lambda>i. buckets h ! i \<noteq> []) [1..<BUCKETS] = Some i" by blast
  then obtain t where t: "t < length [1..<BUCKETS]" "[1..<BUCKETS] ! t = i" "buckets h ! i \<noteq> []" "\<forall>s < t. buckets h ! ([1..<BUCKETS] ! s) = []"
    by (auto simp: find_Some_iff)
  then have it: "i = Suc t" "i < BUCKETS" by auto
  have low: "buckets h ! s = []" if "s < i" for s
    using t(4) [rule_format, of "s - 1"] e it that by (cases s) auto
  obtain m where m: "min_key (buckets h ! i) = Some m" "m \<in> fst ` set (buckets h ! i)" "\<forall>e \<in> set (buckets h ! i). m \<le> fst e"
    using min_key_Some [OF t(3)] by blast
  show ?thesis by (rule that [OF i m(1)]) (use ok it low m in \<open>auto simp: spreadable_def\<close>)
qed

lemma pop_ok:
  assumes h: "heap_ok h"
  shows "case RadixHeap_pop h of
      (None, h') \<Rightarrow> stacks h = (\<lambda>_. []) \<and> h' = h
    | (Some (k, v), h') \<Rightarrow> stacks h k \<noteq> [] \<and> v = last (stacks h k) \<and> (\<forall>k'. stacks h k' \<noteq> [] \<longrightarrow> k \<le> k') \<and>
        heap_ok h' \<and> stacks h' = (stacks h)(k := butlast (stacks h k)) \<and> last_key h' = k"
proof (cases "buckets h ! 0 = []")
  case False
  then show ?thesis using pop_front_ok [OF h] stack_floor [OF h] by (auto simp: RadixHeap_pop_def split: prod.splits)
next
  case e: True
  show ?thesis
  proof (cases "len h = 0")
    case True
    then have "concat (buckets h) = []" using h by (simp add: heap_ok_def del: concat_eq_Nil_conv)
    then show ?thesis using True e by (simp add: RadixHeap_pop_def stacks_def stack_in_def fun_eq_iff del: concat_eq_Nil_conv)
  next
    case False
    obtain i m where im: "find (\<lambda>i. buckets h ! i \<noteq> []) [1..<BUCKETS] = Some i" "min_key (buckets h ! i) = Some m"
      and s: "spreadable (last_key h) i m (buckets h)"
      by (rule refill_ok [OF h e False])
    let ?h = "h\<lparr>last_key := m, buckets := spread i m (buckets h)\<rparr>"
    have h': "heap_ok ?h" using spread_ok [OF s] spread_count [OF s] h by (simp add: heap_ok_def)
    have st: "stacks ?h = stacks h" using spread_stack [OF s] by (simp add: stacks_def fun_eq_iff)
    have "RadixHeap_pop h = pop_front ?h" using e False im by (simp add: RadixHeap_pop_def)
    then show ?thesis
      using pop_front_ok [OF h'] spread_front [OF s] stack_floor [OF h'] st by (auto split: prod.splits)
  qed
qed

section \<open>Monotone queues\<close>

datatype ('k, 'v) queue_op = Push 'k 'v | Pop | Clear

text \<open>Running a sequence of operations collects what the pops return.\<close>

fun run_ops :: "('k \<Rightarrow> 'v \<Rightarrow> 'q \<Rightarrow> 'q) \<Rightarrow> ('q \<Rightarrow> ('k \<times> 'v) option \<times> 'q) \<Rightarrow> ('q \<Rightarrow> 'q) \<Rightarrow> ('k, 'v) queue_op list \<Rightarrow> 'q \<Rightarrow> ('k \<times> 'v) option list \<times> 'q" where
  "run_ops push pop clear [] q = ([], q)"
| "run_ops push pop clear (Push k v # ops) q = run_ops push pop clear ops (push k v q)"
| "run_ops push pop clear (Clear # ops) q = run_ops push pop clear ops (clear q)"
| "run_ops push pop clear (Pop # ops) q = (case pop q of (r, q') \<Rightarrow> (case run_ops push pop clear ops q' of (rs, q'') \<Rightarrow> (r # rs, q'')))"

fun drain :: "('q \<Rightarrow> ('k \<times> 'v) option \<times> 'q) \<Rightarrow> nat \<Rightarrow> 'q \<Rightarrow> ('k \<times> 'v) list" where
  "drain pop 0 q = []"
| "drain pop (Suc n) q = (case pop q of (None, _) \<Rightarrow> [] | (Some e, q') \<Rightarrow> e # drain pop n q')"

text \<open>The abstract queue: a floor (the key of the last pop) and a stack per key. A push below the floor goes to
  the floor; a pop takes the top of the stack with the least key.\<close>

definition spec_push :: "'k :: linorder \<Rightarrow> 'v \<Rightarrow> 'k \<times> ('k \<Rightarrow> 'v list) \<Rightarrow> 'k \<times> ('k \<Rightarrow> 'v list)" where
  "spec_push k v = (\<lambda>(f, s). (f, s(max k f := s (max k f) @ [v])))"

definition spec_pop :: "'k :: linorder \<times> ('k \<Rightarrow> 'v list) \<Rightarrow> ('k \<times> 'v) option \<times> ('k \<times> ('k \<Rightarrow> 'v list))" where
  "spec_pop = (\<lambda>(f, s). if s = (\<lambda>_. []) then (None, (f, s))
     else let k = (LEAST k. s k \<noteq> []) in (Some (k, last (s k)), (k, s(k := butlast (s k)))))"

locale monotone_queue =
  fixes new :: 'q and push :: "'k :: linorder \<Rightarrow> 'v \<Rightarrow> 'q \<Rightarrow> 'q" and pop :: "'q \<Rightarrow> ('k \<times> 'v) option \<times> 'q"
    and clear :: "'q \<Rightarrow> 'q" and floor :: "'q \<Rightarrow> 'k" and stack :: "'q \<Rightarrow> 'k \<Rightarrow> 'v list" and invar :: "'q \<Rightarrow> bool"
  assumes new: "invar new" "stack new = (\<lambda>_. [])" and clear: "invar q \<Longrightarrow> clear q = new"
    and push: "invar q \<Longrightarrow> invar (push k v q)" "invar q \<Longrightarrow> stack (push k v q) = (stack q)(max k (floor q) := stack q (max k (floor q)) @ [v])"
    and floor: "invar q \<Longrightarrow> floor (push k v q) = floor q" "invar q \<Longrightarrow> stack q k \<noteq> [] \<Longrightarrow> floor q \<le> k"
    and pop_None: "invar q \<Longrightarrow> pop q = (None, q') \<Longrightarrow> stack q = (\<lambda>_. []) \<and> q' = q"
    and pop_Some: "invar q \<Longrightarrow> pop q = (Some (k, v), q') \<Longrightarrow> stack q k \<noteq> [] \<and> v = last (stack q k) \<and> (\<forall>k'. stack q k' \<noteq> [] \<longrightarrow> k \<le> k') \<and>
        invar q' \<and> stack q' = (stack q)(k := butlast (stack q k)) \<and> floor q' = k"
begin

definition abs_queue :: "'q \<Rightarrow> 'k \<times> ('k \<Rightarrow> 'v list)" where
  "abs_queue q = (floor q, stack q)"

lemma pop_refines:
  assumes "invar q" "pop q = (r, q')"
  shows "invar q' \<and> spec_pop (abs_queue q) = (r, abs_queue q')"
proof (cases r)
  case None
  then show ?thesis using pop_None [of q q'] assms by (auto simp: spec_pop_def abs_queue_def)
next
  case (Some e)
  obtain k v where kv: "e = (k, v)" by (cases e)
  have p: "stack q k \<noteq> []" "v = last (stack q k)" "\<And>k'. stack q k' \<noteq> [] \<Longrightarrow> k \<le> k'" "invar q'"
      "stack q' = (stack q)(k := butlast (stack q k))" "floor q' = k"
    using pop_Some [of q k v q'] assms Some kv by auto
  have "(LEAST k. stack q k \<noteq> []) = k" by (rule Least_equality) (use p in auto)
  moreover have "stack q \<noteq> (\<lambda>_. [])" using p(1) by auto
  ultimately show ?thesis using p Some kv by (simp add: spec_pop_def abs_queue_def)
qed

lemma run_refines:
  assumes "invar q" "run_ops push pop clear ops q = (rs, q')"
  shows "invar q' \<and> run_ops spec_push spec_pop (\<lambda>_. (floor new, \<lambda>_. [])) ops (abs_queue q) = (rs, abs_queue q')"
  using assms
proof (induction ops arbitrary: q rs)
  case (Cons x ops)
  show ?case
  proof (cases x)
    case (Push k v)
    then show ?thesis using Cons.IH [of "push k v q" rs] Cons.prems push floor(1) [of q k v] by (simp add: abs_queue_def spec_push_def)
  next
    case Pop
    obtain r q1 where r: "pop q = (r, q1)" by fastforce
    obtain rs1 where rs: "run_ops push pop clear ops q1 = (rs1, q')" "rs = r # rs1" using Cons.prems Pop r by (auto split: prod.splits)
    show ?thesis using pop_refines [OF Cons.prems(1) r] Cons.IH [OF _ rs(1)] rs(2) Pop by (simp split: prod.splits)
  next
    case Clear
    then show ?thesis using Cons.IH [of new rs] Cons.prems clear new by (simp add: abs_queue_def)
  qed
qed simp

lemma drain_sorted:
  "invar q \<Longrightarrow> sorted (map fst (drain pop n q)) \<and> (\<forall>e \<in> set (drain pop n q). floor q \<le> fst e)"
proof (induction n arbitrary: q)
  case (Suc n)
  obtain r q' where pq: "pop q = (r, q')" by fastforce
  show ?case
  proof (cases r)
    case None
    then show ?thesis using pq by simp
  next
    case (Some e)
    obtain k v where kv: "e = (k, v)" by (cases e)
    have p: "stack q k \<noteq> []" "invar q'" "floor q' = k" using pop_Some [of q k v q'] Suc.prems pq Some kv by auto
    have "floor q \<le> k" by (rule floor(2) [OF Suc.prems p(1)])
    then show ?thesis using Suc.IH [OF p(2)] p(3) pq Some kv by fastforce
  qed
qed simp

end

interpretation radix: monotone_queue RadixHeap_new RadixHeap_push RadixHeap_pop RadixHeap_clear RadixHeap_floor stacks heap_ok
proof unfold_locales
  show "heap_ok RadixHeap_new" "stacks RadixHeap_new = (\<lambda>_. [])" by (rule new_ok)+
qed (use push_ok stack_floor clear_new in \<open>auto simp: RadixHeap_floor_def RadixHeap_push_def Let_def dest: pop_ok\<close>)

section \<open>Properties\<close>

text \<open>C9. The radix heap is the search's priority queue: for every sequence of pushes, pops and clears, its pops
  return exactly what a queue with one stack per key returns that always pops the least key (the newest entry of
  that key, a push below the last popped key counting as a push at it). Keys popped one after the other without a
  push in between never decrease.\<close>

theorem radix_heap_refines:
  "fst (run_ops RadixHeap_push RadixHeap_pop RadixHeap_clear ops RadixHeap_new)
     = fst (run_ops spec_push spec_pop (\<lambda>_. (0, \<lambda>_. [])) ops (0, \<lambda>_. [])) \<and>
   sorted (map fst (drain RadixHeap_pop n (snd (run_ops RadixHeap_push RadixHeap_pop RadixHeap_clear ops RadixHeap_new))))"
proof -
  obtain rs h where r: "run_ops RadixHeap_push RadixHeap_pop RadixHeap_clear ops RadixHeap_new = (rs, h)" by fastforce
  have "radix.abs_queue RadixHeap_new = (0, \<lambda>_. [])" "RadixHeap_floor RadixHeap_new = 0"
    using new_ok(2) by (auto simp: radix.abs_queue_def RadixHeap_floor_def RadixHeap_new_def)
  then show ?thesis using radix.run_refines [OF new_ok(1) r] radix.drain_sorted r by simp
qed

text \<open>Cost arithmetic never makes a path cheaper: adding costs gives the exact sum cut off at the forbidden
  cost, so the order of the summands does not matter and no sum is below a summand; scaling gives the exact
  quotient rounded down, cut off the same way, and the forbidden cost stays forbidden.\<close>

theorem cost_arithmetic:
  "amount (fold saturating_add cs (Cost 0)) = min (sum_list (map amount cs)) (amount INFINITE) \<and>
   a \<le> saturating_add a b \<and> saturating_add a b = saturating_add b a \<and> saturating_add INFINITE b = INFINITE \<and>
   (if den = 0 \<or> is_infinite a then Cost_scale a num den = INFINITE
    else amount (Cost_scale a num den) = min (amount a * unat num div unat den) (amount INFINITE))"
proof -
  have "amount (fold saturating_add cs c) = min (amount c + sum_list (map amount cs)) (2 ^ 32 - 1)" for c
    by (induction cs arbitrary: c) (use amount_le in \<open>auto simp: amount_saturating_add min_def\<close>)
  moreover have "amount (Cost 0) = 0" by (simp add: amount_def)
  moreover have "a \<le> saturating_add a b" using amount_le by (simp add: amount_less_eq amount_saturating_add)
  moreover have "saturating_add a b = saturating_add b a" "saturating_add INFINITE b = INFINITE"
    by (simp_all add: amount_saturating_add amount_INFINITE add.commute flip: amount_inj)
  ultimately show ?thesis using amount_scale [of den a num] by (auto simp: amount_INFINITE Cost_scale_def)
qed

end
