(* ===== verification/Route_Board.thy ===== *)
theory Route_Board
  imports Geom_Index "HOL-Library.Char_ord" "HOL-Library.List_Lexorder"
begin

text \<open>
  The router's model of a board: \<open>crates/konnect-route/src/api.rs\<close> (ids, layer masks, item references) and \<open>board.rs\<close>
  (the board and its layer table, nets, pads, tracks, vias, zones; lookups; \<open>validate\<close>). Ids are \<^typ>\<open>nat\<close>, a layer mask
  is a \<open>32 word\<close>, text is its bytes. The two floating-point angles of footprints and pads, which nothing modelled here
  reads, are left out; lowering an arc to chords (trigonometry on \<open>f64\<close>) is the parameter \<open>arc_pts\<close>.
\<close>

section \<open>Ids and layer masks\<close>

type_synonym netid = nat
type_synonym footprint_id = nat
type_synonym pad_id = nat
type_synonym layer_id = nat
type_synonym layer_mask = "32 word"

definition LayerMask_EMPTY :: layer_mask where
  "LayerMask_EMPTY = 0"

definition LayerMask_single :: "layer_id \<Rightarrow> layer_mask" where
  "LayerMask_single layer = (if layer < 32 then push_bit layer 1 else 0)"

definition LayerMask_union :: "layer_mask \<Rightarrow> layer_mask \<Rightarrow> layer_mask" where
  "LayerMask_union m k = or m k"

definition LayerMask_intersection :: "layer_mask \<Rightarrow> layer_mask \<Rightarrow> layer_mask" where
  "LayerMask_intersection m k = and m k"

definition LayerMask_intersects :: "layer_mask \<Rightarrow> layer_mask \<Rightarrow> bool" where
  "LayerMask_intersects m k \<longleftrightarrow> and m k \<noteq> 0"

definition LayerMask_contains :: "layer_mask \<Rightarrow> layer_id \<Rightarrow> bool" where
  "LayerMask_contains m layer \<longleftrightarrow> LayerMask_intersects m (LayerMask_single layer)"

definition LayerMask_with :: "layer_mask \<Rightarrow> layer_id \<Rightarrow> layer_mask" where
  "LayerMask_with m layer = LayerMask_union m (LayerMask_single layer)"

definition LayerMask_span :: "layer_id \<Rightarrow> layer_id \<Rightarrow> layer_mask" where
  "LayerMask_span a b = foldl LayerMask_with LayerMask_EMPTY [min a b..<Suc (max a b)]"

definition LayerMask_is_empty :: "layer_mask \<Rightarrow> bool" where
  "LayerMask_is_empty m \<longleftrightarrow> m = 0"

definition LayerMask_iter :: "layer_mask \<Rightarrow> layer_id list" where
  "LayerMask_iter m = filter (\<lambda>l. and m (push_bit l 1) \<noteq> 0) [0..<32]"

definition LayerMask_count :: "layer_mask \<Rightarrow> nat" where
  "LayerMask_count m = length (filter (bit m) [0..<32])"

datatype ownership = Fixed | Locked | Routed netid nat

definition is_routed :: "ownership \<Rightarrow> bool" where
  "is_routed w \<longleftrightarrow> (case w of Routed _ _ \<Rightarrow> True | _ \<Rightarrow> False)"

datatype item_kind = Kind_Track | Kind_Arc | Kind_Via | Kind_Pad | Kind_Zone

definition kicad_type_name :: "item_kind \<Rightarrow> string" where
  "kicad_type_name k = (case k of Kind_Track \<Rightarrow> ''Track'' | Kind_Arc \<Rightarrow> ''Arc'' | Kind_Via \<Rightarrow> ''Via'' | Kind_Pad \<Rightarrow> ''Pad'' | Kind_Zone \<Rightarrow> ''Zone'')"

datatype item_ref = Ref_Pad nat | Ref_Track nat | Ref_Arc nat | Ref_Via nat | Ref_Zone nat

definition ItemRef_kind :: "item_ref \<Rightarrow> item_kind" where
  "ItemRef_kind i = (case i of Ref_Pad _ \<Rightarrow> Kind_Pad | Ref_Track _ \<Rightarrow> Kind_Track | Ref_Arc _ \<Rightarrow> Kind_Arc | Ref_Via _ \<Rightarrow> Kind_Via | Ref_Zone _ \<Rightarrow> Kind_Zone)"

text \<open>The derived order: by variant in the order of declaration, then by id.\<close>

definition item_rank :: "item_ref \<Rightarrow> nat \<times> nat" where
  "item_rank i = (case i of Ref_Pad n \<Rightarrow> (0, n) | Ref_Track n \<Rightarrow> (1, n) | Ref_Arc n \<Rightarrow> (2, n) | Ref_Via n \<Rightarrow> (3, n) | Ref_Zone n \<Rightarrow> (4, n))"

lemma item_rank_inj [simp]: "item_rank a = item_rank b \<longleftrightarrow> a = b"
  by (cases a; cases b) (auto simp: item_rank_def)

instantiation item_ref :: linorder
begin

definition less_eq_item_ref :: "item_ref \<Rightarrow> item_ref \<Rightarrow> bool" where
  "less_eq_item_ref a b \<longleftrightarrow> item_rank a \<le> item_rank b"

definition less_item_ref :: "item_ref \<Rightarrow> item_ref \<Rightarrow> bool" where
  "less_item_ref a b \<longleftrightarrow> item_rank a < item_rank b"

instance
  by standard (auto simp: less_eq_item_ref_def less_item_ref_def simp del: item_rank_inj simp flip: item_rank_inj)

end

record connection =
  conn_id :: nat
  conn_net :: netid
  conn_from :: item_ref
  conn_to :: item_ref

section \<open>The board\<close>

record board_outline =
  out_regions :: "polygon list"
  out_edges :: "segment list"
  out_bbox :: "bbox option"

datatype copper_layer_kind = Signal | Power | Mixed | Jumper

record copper_layer =
  cl_id :: layer_id
  cl_name :: string
  kicad_ordinal :: nat
  cl_kind :: copper_layer_kind

type_synonym layer_table = "copper_layer list"

record net =
  net_ident :: netid
  net_text :: string
  net_class :: nat
  net_pair :: "netid option"

datatype side = Front | Back

record courtyard =
  cy_side :: side
  cy_region :: polygon

record footprint =
  fp_id :: footprint_id
  reference :: "string option"
  fp_at :: point
  fp_side :: side
  fp_locked :: bool
  courtyards :: "courtyard list"
  pad_range :: "nat \<times> nat"

datatype pad_kind = Smd | ThroughHole | NpThroughHole | Connect

record drill =
  drill_shape :: shape
  plated :: bool

record pad =
  pad_ident :: pad_id
  pad_footprint :: footprint_id
  pad_number :: string
  pad_net :: "netid option"
  pad_kind_of :: pad_kind
  pad_center :: point
  pad_layers :: layer_mask
  pad_shapes :: "shape list"
  pad_drill :: "drill option"
  local_clearance :: "int option"
  approximated :: bool
  pad_ownership :: ownership
  pad_uuid :: "string option"

record track =
  track_ident :: nat
  track_net :: "netid option"
  track_layer :: layer_id
  track_seg :: segment
  track_ownership :: ownership
  track_uuid :: "string option"

record arc_track =
  arc_ident :: nat
  arc_net :: "netid option"
  arc_layer :: layer_id
  arc_start :: point
  arc_mid :: point
  arc_end :: point
  arc_width :: int
  arc_ownership :: ownership
  arc_uuid :: "string option"

record via =
  via_ident :: nat
  via_net :: "netid option"
  via_center :: point
  via_diameter :: int
  via_drill :: int
  via_layers :: layer_mask
  via_ownership :: ownership
  via_uuid :: "string option"

record zone_piece =
  zone_ident :: nat
  zone_net :: "netid option"
  zone_layer :: layer_id
  zone_region :: polygon
  filled :: bool
  zone_island :: bool
  zone_name :: "string option"
  zone_priority :: nat

record keepout_rules =
  no_tracks :: bool
  no_vias :: bool
  no_pads :: bool
  no_copperpour :: bool
  no_footprints :: bool

record keepout =
  keepout_ident :: nat
  keepout_name :: "string option"
  keepout_layers :: layer_mask
  keepout_region :: polygon
  keepout_rules_of :: keepout_rules

record route_board =
  board_outline_of :: board_outline
  layer_table_of :: layer_table
  routable :: layer_mask
  nets :: "net list"
  footprints :: "footprint list"
  pads :: "pad list"
  tracks :: "track list"
  arcs :: "arc_track list"
  vias :: "via list"
  zones :: "zone_piece list"
  keepouts :: "keepout list"

subsection \<open>Shapes of board items\<close>

definition reduce_union :: "bbox list \<Rightarrow> bbox option" where
  "reduce_union bs = (case bs of [] \<Rightarrow> None | b # bs \<Rightarrow> Some (foldl BBox_union b bs))"

definition courtyard_bbox :: "footprint \<Rightarrow> bbox option" where
  "courtyard_bbox f = reduce_union (map (Polygon_bbox \<circ> cy_region) (courtyards f))"

definition Pad_bbox :: "pad \<Rightarrow> bbox option" where
  "Pad_bbox p = reduce_union (map Shape_bbox (pad_shapes p) @ (case pad_drill p of None \<Rightarrow> [] | Some d \<Rightarrow> [Shape_bbox (drill_shape d)]))"

definition Via_shape :: "via \<Rightarrow> shape" where
  "Via_shape v = Circle (Circle_from_diameter (via_center v) (via_diameter v))"

definition Via_hole :: "via \<Rightarrow> shape" where
  "Via_hole v = Circle (Circle_from_diameter (via_center v) (via_drill v))"

text \<open>\<open>arc_pts start mid stop\<close> stands for \<open>approximate_arc\<close> on the inscribed side, under the caller's policy.\<close>

type_synonym arc_pts = "point \<Rightarrow> point \<Rightarrow> point \<Rightarrow> point list"

definition ArcTrack_segments :: "arc_pts \<Rightarrow> arc_track \<Rightarrow> segment list" where
  "ArcTrack_segments arc a =
     (let ps = arc (arc_start a) (arc_mid a) (arc_end a)
      in map (\<lambda>(p, q). \<lparr>seg_a = p, seg_b = q, seg_width = arc_width a\<rparr>) (zip ps (tl ps)))"

subsection \<open>Layer table\<close>

definition by_name :: "layer_table \<Rightarrow> string \<Rightarrow> layer_id option" where
  "by_name t name = map_option cl_id (find (\<lambda>l. cl_name l = name) t)"

definition LayerTable_all :: "layer_table \<Rightarrow> layer_mask" where
  "LayerTable_all t = foldl (\<lambda>m l. LayerMask_with m (cl_id l)) LayerMask_EMPTY t"

definition LayerTable_front :: "layer_table \<Rightarrow> layer_id option" where
  "LayerTable_front t = by_name t ''F.Cu''"

definition LayerTable_back :: "layer_table \<Rightarrow> layer_id option" where
  "LayerTable_back t = by_name t ''B.Cu''"

definition LayerTable_expand :: "layer_table \<Rightarrow> string \<Rightarrow> layer_mask" where
  "LayerTable_expand t token =
     (if token = ''*.Cu'' then LayerTable_all t
      else if token = ''F&B.Cu''
      then foldl LayerMask_with LayerMask_EMPTY (List.map_filter (\<lambda>l. l) [LayerTable_front t, LayerTable_back t])
      else (case by_name t token of None \<Rightarrow> 0 | Some l \<Rightarrow> LayerMask_single l))"

definition expand_all :: "layer_table \<Rightarrow> string list \<Rightarrow> layer_mask" where
  "expand_all t tokens = foldl (\<lambda>m tok. LayerMask_union m (LayerTable_expand t tok)) LayerMask_EMPTY tokens"

text \<open>\<open>str::parse::<u32>\<close>: an optional plus sign, then digits, within the type.\<close>

definition digit_of :: "char \<Rightarrow> nat option" where
  "digit_of c = (if of_char c \<in> {48..57 :: nat} then Some (of_char c - 48) else None)"

fun digits_of :: "nat \<Rightarrow> string \<Rightarrow> nat option" where
  "digits_of acc [] = Some acc"
| "digits_of acc (c # cs) = (case digit_of c of None \<Rightarrow> None
     | Some d \<Rightarrow> if 10 * acc + d < 2 ^ 32 then digits_of (10 * acc + d) cs else None)"

definition parse_u32_str :: "string \<Rightarrow> nat option" where
  "parse_u32_str s = (let ds = (case s of CHR ''+'' # cs \<Rightarrow> cs | _ \<Rightarrow> s) in if ds = [] then None else digits_of 0 ds)"

definition strip_affixes :: "string \<Rightarrow> string \<Rightarrow> string \<Rightarrow> string option" where
  "strip_affixes pre suf s =
     (if take (length pre) s = pre
      then let rest = drop (length pre) s
        in if length suf \<le> length rest \<and> drop (length rest - length suf) rest = suf
           then Some (take (length rest - length suf) rest) else None
      else None)"

definition stack_position :: "string \<Rightarrow> nat \<times> nat \<times> string" where
  "stack_position name =
     (if name = ''F.Cu'' then (0, 0, [])
      else if name = ''B.Cu'' then (2, 0, [])
      else case Option.bind (strip_affixes ''In'' ''.Cu'' name) parse_u32_str of
          Some n \<Rightarrow> (1, n, []) | None \<Rightarrow> (1, 2 ^ 32 - 1, name))"

definition from_layers :: "(string \<times> nat \<times> copper_layer_kind) list \<Rightarrow> layer_table" where
  "from_layers ls = map (\<lambda>(i, name, ordinal, kind). \<lparr>cl_id = as_u8 i, cl_name = name, kicad_ordinal = ordinal, cl_kind = kind\<rparr>)
     (enumerate 0 (sort_key (\<lambda>l. stack_position (fst l)) ls))"

subsection \<open>Lookups\<close>

definition layer_count :: "route_board \<Rightarrow> nat" where
  "layer_count b = length (layer_table_of b)"

text \<open>\<open>slice::binary_search_by\<close>: the halving loop of the standard library and its final comparison.\<close>

function bisect :: "(nat \<Rightarrow> ordering) \<Rightarrow> nat \<Rightarrow> nat \<Rightarrow> nat" where
  "bisect f base sz =
     (if sz \<le> 1 then base
      else let half = sz div 2; mid = base + half
        in bisect f (if f mid = Greater then base else mid) (sz - half))"
  by pat_completeness auto
termination
  by (relation "measure (\<lambda>(_, _, sz). sz)") auto

declare bisect.simps [simp del]

definition binary_search_by :: "('a \<Rightarrow> ordering) \<Rightarrow> 'a list \<Rightarrow> nat option" where
  "binary_search_by f xs =
     (if xs = [] then None
      else let i = bisect (\<lambda>i. f (xs ! i)) 0 (length xs) in if f (xs ! i) = Equal then Some i else None)"

definition net_by_name :: "route_board \<Rightarrow> string \<Rightarrow> netid option" where
  "net_by_name b name = map_option as_u32 (binary_search_by (\<lambda>n. cmp (net_text n) name) (nets b))"

definition pads_of_net :: "route_board \<Rightarrow> netid \<Rightarrow> pad list" where
  "pads_of_net b n = filter (\<lambda>p. pad_net p = Some n) (pads b)"

definition footprint_by_reference :: "route_board \<Rightarrow> string \<Rightarrow> footprint_id option" where
  "footprint_by_reference b r =
     (case map fp_id (filter (\<lambda>f. reference f = Some r) (footprints b)) of [first] \<Rightarrow> Some first | _ \<Rightarrow> None)"

text \<open>\<open>net_of\<close>; indexing out of range panics, the outer \<^const>\<open>None\<close>.\<close>

definition nth_or_panic :: "'a list \<Rightarrow> nat \<Rightarrow> 'a option" where
  "nth_or_panic xs i = (if i < length xs then Some (xs ! i) else None)"

definition net_of :: "route_board \<Rightarrow> item_ref \<Rightarrow> netid option option" where
  "net_of b i = (case i of
       Ref_Pad k \<Rightarrow> map_option pad_net (nth_or_panic (pads b) k)
     | Ref_Track k \<Rightarrow> map_option track_net (nth_or_panic (tracks b) k)
     | Ref_Arc k \<Rightarrow> map_option arc_net (nth_or_panic (arcs b) k)
     | Ref_Via k \<Rightarrow> map_option via_net (nth_or_panic (vias b) k)
     | Ref_Zone k \<Rightarrow> map_option zone_net (nth_or_panic (zones b) k))"

subsection \<open>Validation\<close>

datatype board_error = Copper_Layers nat | Net_At nat | Nets_Unsorted nat | Footprint_At nat | Pad_Range_At nat
  | Pad_At nat | Pad_Layers_At nat | Track_At nat | Arc_At nat | Via_At nat | Zone_At nat | Keepout_At nat | Routable_Mask

text \<open>A loop that returns its first error, and a sequence of them.\<close>

fun first_error :: "(nat \<Rightarrow> 'a \<Rightarrow> 'e option) \<Rightarrow> nat \<Rightarrow> 'a list \<Rightarrow> 'e option" where
  "first_error f i [] = None"
| "first_error f i (x # xs) = (case f i x of Some e \<Rightarrow> Some e | None \<Rightarrow> first_error f (Suc i) xs)"

fun first_of :: "'e option list \<Rightarrow> 'e option" where
  "first_of [] = None"
| "first_of (r # rs) = (case r of Some e \<Rightarrow> Some e | None \<Rightarrow> first_of rs)"

definition fail_if :: "bool \<Rightarrow> 'e \<Rightarrow> 'e option" where
  "fail_if c e = (if c then Some e else None)"

definition layer_ok :: "route_board \<Rightarrow> layer_id \<Rightarrow> bool" where
  "layer_ok b l \<longleftrightarrow> l < layer_count b"

definition mask_ok :: "route_board \<Rightarrow> layer_mask \<Rightarrow> bool" where
  "mask_ok b m \<longleftrightarrow> and m (not (LayerTable_all (layer_table_of b))) = 0"

definition validate_net :: "route_board \<Rightarrow> nat \<Rightarrow> net \<Rightarrow> board_error option" where
  "validate_net b i n = first_of [fail_if (net_ident n \<noteq> i) (Net_At i),
     fail_if (0 < i \<and> net_text n \<le> net_text (nets b ! (i - 1))) (Nets_Unsorted i)]"

definition validate_footprint :: "route_board \<Rightarrow> nat \<Rightarrow> footprint \<Rightarrow> board_error option" where
  "validate_footprint b i f = first_of [fail_if (fp_id f \<noteq> i) (Footprint_At i),
     (let (start, stop) = pad_range f
      in fail_if (stop < start \<or> length (pads b) < stop \<or>
           list_ex (\<lambda>p. pad_footprint p \<noteq> fp_id f) (take (stop - start) (drop start (pads b)))) (Pad_Range_At i))]"

definition validate_pad :: "route_board \<Rightarrow> nat \<Rightarrow> pad \<Rightarrow> board_error option" where
  "validate_pad b i p = first_of [fail_if (pad_ident p \<noteq> i \<or> length (footprints b) \<le> pad_footprint p) (Pad_At i),
     fail_if (\<not> mask_ok b (pad_layers p)) (Pad_Layers_At i)]"

definition validate :: "route_board \<Rightarrow> board_error option" where
  "validate b = first_of
     [fail_if (layer_count b = 0 \<or> 32 < layer_count b) (Copper_Layers (layer_count b)),
      first_error (validate_net b) 0 (nets b),
      first_error (validate_footprint b) 0 (footprints b),
      first_error (validate_pad b) 0 (pads b),
      first_error (\<lambda>i t. fail_if (track_ident t \<noteq> i \<or> \<not> layer_ok b (track_layer t)) (Track_At i)) 0 (tracks b),
      first_error (\<lambda>i a. fail_if (arc_ident a \<noteq> i \<or> \<not> layer_ok b (arc_layer a)) (Arc_At i)) 0 (arcs b),
      first_error (\<lambda>i v. fail_if (via_ident v \<noteq> i \<or> \<not> mask_ok b (via_layers v)) (Via_At i)) 0 (vias b),
      first_error (\<lambda>i z. fail_if (zone_ident z \<noteq> i \<or> \<not> layer_ok b (zone_layer z)) (Zone_At i)) 0 (zones b),
      first_error (\<lambda>i k. fail_if (keepout_ident k \<noteq> i \<or> \<not> mask_ok b (keepout_layers k)) (Keepout_At i)) 0 (keepouts b),
      fail_if (\<not> mask_ok b (routable b)) Routable_Mask]"

subsection \<open>Differential pairs\<close>

text \<open>The index is built by inserting in order, so a repeated name maps to its last position.\<close>

definition partner_name :: "string \<Rightarrow> string option" where
  "partner_name name =
     (if name = [] then None
      else let stem = butlast name; c = last name
        in if c = CHR ''+'' then Some (stem @ ''-'') else if c = CHR ''-'' then Some (stem @ ''+'')
           else if c = CHR ''P'' then Some (stem @ ''N'') else if c = CHR ''N'' then Some (stem @ ''P'') else None)"

definition name_index :: "string list \<Rightarrow> string \<Rightarrow> nat option" where
  "name_index names = map_of (rev (map (\<lambda>(i, n). (n, as_u32 i)) (enumerate 0 names)))"

definition pair_partners :: "string list \<Rightarrow> netid option list" where
  "pair_partners names = map (\<lambda>name. Option.bind (partner_name name) (name_index names)) names"

section \<open>Layer masks are sets\<close>

lemma bit_single: "bit (LayerMask_single l) k \<longleftrightarrow> l = k \<and> l < 32"
  by (auto simp: LayerMask_single_def bit_simps)

lemma mask_contains: "LayerMask_contains m l \<longleftrightarrow> l < 32 \<and> bit m l"
proof -
  have "and m (LayerMask_single l) = 0 \<longleftrightarrow> \<not> (l < 32 \<and> bit m l)"
    unfolding bit_eq_iff [of _ "0 :: layer_mask"] by (auto simp: bit_and_iff bit_single)
  then show ?thesis by (simp add: LayerMask_contains_def LayerMask_intersects_def)
qed

lemma mask_iter: "LayerMask_iter m = filter (bit m) [0..<32]"
proof -
  have "and m (push_bit l 1) \<noteq> 0 \<longleftrightarrow> bit m l" if "l < 32" for l
    using mask_contains [of m l] that by (simp add: LayerMask_contains_def LayerMask_intersects_def LayerMask_single_def)
  then show ?thesis unfolding LayerMask_iter_def by (intro filter_cong) auto
qed

lemma in_mask_iter [simp]: "l \<in> set (LayerMask_iter m) \<longleftrightarrow> l < 32 \<and> bit m l"
  by (auto simp: mask_iter)

lemma bit_word32: "bit (m :: layer_mask) k \<Longrightarrow> k < 32"
  using bit_imp_le_length [of m k] by simp

lemma mask_fold: "bit (foldl LayerMask_with m ls) k \<longleftrightarrow> bit m k \<or> k \<in> set ls \<and> k < 32"
proof (induction ls arbitrary: m)
  case (Cons l ls)
  then show ?case by (auto simp: LayerMask_with_def LayerMask_union_def bit_or_iff bit_single)
qed simp

lemma bit_LayerTable_all: "bit (LayerTable_all t) k \<longleftrightarrow> k \<in> cl_id ` set t \<and> k < 32"
proof -
  have "LayerTable_all t = foldl LayerMask_with LayerMask_EMPTY (map cl_id t)"
    by (simp add: LayerTable_all_def foldl_map)
  then show ?thesis by (simp add: mask_fold LayerMask_EMPTY_def)
qed

lemma mask_ok_iff: "mask_ok b m \<longleftrightarrow> (\<forall>l. bit m l \<longrightarrow> l \<in> cl_id ` set (layer_table_of b))"
  unfolding mask_ok_def bit_eq_iff [of _ "0 :: layer_mask"]
  using bit_word32 by (auto simp: bit_and_iff bit_not_iff bit_LayerTable_all)

section \<open>Lookups and validation\<close>

lemma first_error_None: "first_error f i xs = None \<longleftrightarrow> (\<forall>j < length xs. f (i + j) (xs ! j) = None)"
proof (induction xs arbitrary: i)
  case (Cons x xs)
  then show ?case by (auto simp: less_Suc_eq_0_disj split: option.splits)
qed simp

lemma first_of_None [simp]: "first_of rs = None \<longleftrightarrow> (\<forall>r \<in> set rs. r = None)"
  by (induction rs) (auto split: option.splits)

declare first_of.simps [simp del]

lemma fail_if_None [simp]: "fail_if c e = None \<longleftrightarrow> \<not> c"
  by (simp add: fail_if_def)

lemma bisect_finds:
  assumes "\<And>i. i < n \<Longrightarrow> f i = Greater \<longleftrightarrow> k < i" and "base \<le> k" "k < base + sz" "base + sz \<le> n"
  shows "bisect f base sz = k"
  using assms(2-)
proof (induction sz arbitrary: base rule: less_induct)
  case (less sz)
  show ?case
  proof (cases "sz \<le> 1")
    case False
    let ?mid = "base + sz div 2"
    have half: "1 \<le> sz div 2" "sz div 2 \<le> sz - sz div 2" "sz - sz div 2 < sz" using False by linarith+
    have "f ?mid = Greater \<longleftrightarrow> k < ?mid" using assms(1) less.prems(3) False by simp
    then have "bisect f base sz = bisect f (if k < ?mid then base else ?mid) (sz - sz div 2)"
      using False by (simp add: bisect.simps [of f base sz] Let_def)
    also have "\<dots> = k" using less.IH [OF half(3)] less.prems half by simp
    finally show ?thesis .
  qed (use less.prems in \<open>simp add: bisect.simps\<close>)
qed

lemma bisect_less: "0 < sz \<Longrightarrow> bisect f base sz < base + sz"
proof (induction sz arbitrary: base rule: less_induct)
  case (less sz)
  then show ?case
    using less.IH [of "sz - sz div 2" base] less.IH [of "sz - sz div 2" "base + sz div 2"]
    by (auto simp: bisect.simps [of f base sz] Let_def)
qed

lemma binary_search_strict:
  fixes g :: "'a \<Rightarrow> 'k :: linorder"
  assumes "\<And>i j. i < j \<Longrightarrow> j < length xs \<Longrightarrow> g (xs ! i) < g (xs ! j)"
  shows "binary_search_by (\<lambda>x. cmp (g x) key) xs = Some i \<longleftrightarrow> i < length xs \<and> g (xs ! i) = key"
proof -
  let ?f = "\<lambda>i. cmp (g (xs ! i)) key"
  have "bisect ?f 0 (length xs) = k" if k: "k < length xs" "g (xs ! k) = key" for k
  proof (rule bisect_finds [where n = "length xs"])
    show "?f i = Greater \<longleftrightarrow> k < i" if "i < length xs" for i
      using assms [of k i] assms [of i k] k that by (cases i k rule: linorder_cases) (auto simp: cmp_iff dest: less_asym)
  qed (use k in auto)
  moreover have "xs \<noteq> [] \<Longrightarrow> bisect ?f 0 (length xs) < length xs" using bisect_less [of "length xs" ?f 0] by simp
  ultimately show ?thesis by (auto simp: binary_search_by_def Let_def cmp_iff)
qed

text \<open>Nets strictly sorted by neighbours are strictly sorted.\<close>

lemma strict_by_neighbours:
  fixes g :: "nat \<Rightarrow> 'k :: order"
  assumes "\<And>i. 0 < i \<Longrightarrow> i < n \<Longrightarrow> g (i - 1) < g i" and "i < j" "j < n"
  shows "g i < g j"
  using assms(2,3)
proof (induction j)
  case (Suc j)
  have "g j < g (Suc j)" using assms(1) [of "Suc j"] Suc.prems by simp
  then show ?case using Suc by (cases "i = j") (auto intro: less_trans)
qed simp

definition board_wf :: "route_board \<Rightarrow> bool" where
  "board_wf b \<longleftrightarrow>
     layer_count b \<in> {1..32} \<and>
     map net_ident (nets b) = [0..<length (nets b)] \<and> sorted_wrt (<) (map net_text (nets b)) \<and>
     map fp_id (footprints b) = [0..<length (footprints b)] \<and>
     (\<forall>f \<in> set (footprints b). case pad_range f of (start, stop) \<Rightarrow>
        start \<le> stop \<and> stop \<le> length (pads b) \<and> (\<forall>k. start \<le> k \<and> k < stop \<longrightarrow> pad_footprint (pads b ! k) = fp_id f)) \<and>
     map pad_ident (pads b) = [0..<length (pads b)] \<and>
     (\<forall>p \<in> set (pads b). pad_footprint p < length (footprints b) \<and> mask_ok b (pad_layers p)) \<and>
     map track_ident (tracks b) = [0..<length (tracks b)] \<and> (\<forall>t \<in> set (tracks b). track_layer t < layer_count b) \<and>
     map arc_ident (arcs b) = [0..<length (arcs b)] \<and> (\<forall>a \<in> set (arcs b). arc_layer a < layer_count b) \<and>
     map via_ident (vias b) = [0..<length (vias b)] \<and> (\<forall>v \<in> set (vias b). mask_ok b (via_layers v)) \<and>
     map zone_ident (zones b) = [0..<length (zones b)] \<and> (\<forall>z \<in> set (zones b). zone_layer z < layer_count b) \<and>
     map keepout_ident (keepouts b) = [0..<length (keepouts b)] \<and> (\<forall>k \<in> set (keepouts b). mask_ok b (keepout_layers k)) \<and>
     mask_ok b (routable b)"

lemma map_is_upt: "map f xs = [0..<length xs] \<longleftrightarrow> (\<forall>i < length xs. f (xs ! i) = i)"
  by (subst list_eq_iff_nth_eq) auto

lemma validate_nets:
  "first_error (validate_net b) 0 (nets b) = None \<longleftrightarrow>
     map net_ident (nets b) = [0..<length (nets b)] \<and> sorted_wrt (<) (map net_text (nets b))"
proof -
  let ?N = "\<lambda>i. net_text (nets b ! i)"
  have "sorted_wrt (<) (map net_text (nets b)) \<longleftrightarrow> (\<forall>i < length (nets b). 0 < i \<longrightarrow> ?N (i - 1) < ?N i)"
    using strict_by_neighbours [of "length (nets b)" ?N] by (auto simp: sorted_wrt_iff_nth_less)
  then show ?thesis by (auto simp: first_error_None validate_net_def map_is_upt not_le)
qed

lemma validate_footprints:
  "first_error (validate_footprint b) 0 (footprints b) = None \<longleftrightarrow>
     map fp_id (footprints b) = [0..<length (footprints b)] \<and>
     (\<forall>f \<in> set (footprints b). case pad_range f of (start, stop) \<Rightarrow>
        start \<le> stop \<and> stop \<le> length (pads b) \<and> (\<forall>k. start \<le> k \<and> k < stop \<longrightarrow> pad_footprint (pads b ! k) = fp_id f))"
proof -
  have r: "list_ex P (take (stop - start) (drop start ps)) \<longleftrightarrow> (\<exists>k. start \<le> k \<and> k < stop \<and> P (ps ! k))"
    if "start \<le> stop" "stop \<le> length ps" for P start stop and ps :: "pad list"
  proof -
    have "set (take (stop - start) (drop start ps)) = {ps ! k | k. start \<le> k \<and> k < stop}"
    proof (intro set_eqI iffI)
      fix p assume "p \<in> {ps ! k | k. start \<le> k \<and> k < stop}"
      then obtain k where "p = ps ! (start + (k - start))" "start \<le> k" "k < stop" by auto
      then show "p \<in> set (take (stop - start) (drop start ps))"
        using that by (auto simp: in_set_conv_nth intro!: exI [of _ "k - start"])
    qed (use that in \<open>auto simp: in_set_conv_nth\<close>)
    then show ?thesis by (auto simp: list_ex_iff)
  qed
  have v: "validate_footprint b i f = None \<longleftrightarrow> fp_id f = i \<and> (case pad_range f of (start, stop) \<Rightarrow>
        start \<le> stop \<and> stop \<le> length (pads b) \<and> (\<forall>k. start \<le> k \<and> k < stop \<longrightarrow> pad_footprint (pads b ! k) = fp_id f))" for i f
    by (cases "pad_range f") (force simp: validate_footprint_def not_less r)
  show ?thesis by (auto simp: first_error_None v map_is_upt all_set_conv_all_nth)
qed

lemma validate_iff: "validate b = None \<longleftrightarrow> board_wf b"
proof -
  have item: "first_error (\<lambda>i x. fail_if (idf x = i \<longrightarrow> \<not> P x) (e i)) 0 xs = None \<longleftrightarrow>
      map idf xs = [0..<length xs] \<and> (\<forall>x \<in> set xs. P x)" for idf :: "'x \<Rightarrow> nat" and P and e :: "nat \<Rightarrow> board_error" and xs
    by (auto simp: first_error_None map_is_upt all_set_conv_all_nth)
  have pad: "first_error (validate_pad b) 0 (pads b) = None \<longleftrightarrow> map pad_ident (pads b) = [0..<length (pads b)] \<and>
      (\<forall>p \<in> set (pads b). pad_footprint p < length (footprints b) \<and> mask_ok b (pad_layers p))"
    by (auto simp: first_error_None validate_pad_def map_is_upt all_set_conv_all_nth not_le)
  show ?thesis
    unfolding validate_def board_wf_def layer_ok_def
    by (auto simp: item pad validate_nets validate_footprints)
qed

section \<open>Layer tables\<close>

lemma from_layers_length [simp]: "length (from_layers ls) = length ls"
  by (simp add: from_layers_def)

lemma from_layers_names: "map cl_name (from_layers ls) = map fst (sort_key (\<lambda>l. stack_position (fst l)) ls)"
  using map_map [of fst snd "enumerate 0 (sort_key (\<lambda>l. stack_position (fst l)) ls)"]
  by (simp add: from_layers_def case_prod_unfold comp_def)

lemma from_layers_nth:
  assumes "i < length ls"
  shows "cl_id (from_layers ls ! i) = as_u8 i"
    and "cl_name (from_layers ls ! i) = fst (sort_key (\<lambda>l. stack_position (fst l)) ls ! i)"
  using assms by (simp_all add: from_layers_def nth_enumerate_eq case_prod_unfold)

lemma from_layers_all: "length ls \<le> 32 \<Longrightarrow> set (LayerMask_iter (LayerTable_all (from_layers ls))) = {0..<length ls}"
proof -
  assume l: "length ls \<le> 32"
  have "map cl_id (from_layers ls) = [0..<length ls]"
    using l from_layers_nth [of _ ls] by (intro nth_equalityI) auto
  then have "cl_id ` set (from_layers ls) = {0..<length ls}" by (metis atLeastLessThan_upt list.set_map)
  then show ?thesis using l by (auto simp: bit_LayerTable_all)
qed

lemma find_first:
  assumes "distinct (map f xs)" "i < length xs"
  shows "find (\<lambda>x. f x = f (xs ! i)) xs = Some (xs ! i)"
  using assms
proof (induction xs arbitrary: i)
  case (Cons x xs)
  show ?case
  proof (cases i)
    case (Suc k)
    then have "f x \<noteq> f (xs ! k)" using Cons.prems by auto
    then show ?thesis using Suc Cons by simp
  qed simp
qed simp

lemma from_layers_by_name:
  assumes "length ls \<le> 32" "distinct (map fst ls)" "i < length ls"
  shows "by_name (from_layers ls) (cl_name (from_layers ls ! i)) = Some i"
proof -
  have "distinct (map cl_name (from_layers ls))"
    using assms(2) unfolding from_layers_names by (simp add: distinct_map)
  then have "find (\<lambda>l. cl_name l = cl_name (from_layers ls ! i)) (from_layers ls) = Some (from_layers ls ! i)"
    by (rule find_first) (simp add: assms(3))
  moreover have "cl_id (from_layers ls ! i) = i" using from_layers_nth(1) [OF assms(3)] assms(1,3) by simp
  ultimately show ?thesis by (simp only: by_name_def option.map)
qed

lemma from_layers_sorted: "sorted (map (stack_position \<circ> cl_name) (from_layers ls))"
proof -
  have "map (stack_position \<circ> cl_name) (from_layers ls) = map (stack_position \<circ> fst) (sort_key (\<lambda>l. stack_position (fst l)) ls)"
    by (metis from_layers_names map_map)
  then show ?thesis by (simp add: comp_def)
qed

lemma stack_position_extremes:
  shows "name \<noteq> ''F.Cu'' \<Longrightarrow> stack_position ''F.Cu'' < stack_position name"
    and "name \<noteq> ''B.Cu'' \<Longrightarrow> stack_position name < stack_position ''B.Cu''"
  by (auto simp: stack_position_def split: option.splits)

lemma from_layers_end:
  assumes "length ls \<le> 32" "distinct (map fst ls)" "name \<in> fst ` set ls"
  shows "\<exists>i < length ls. cl_name (from_layers ls ! i) = name \<and> by_name (from_layers ls) name = Some i \<and>
    (\<forall>j < length ls. j \<noteq> i \<longrightarrow> cl_name (from_layers ls ! j) \<noteq> name)"
proof -
  have "name \<in> set (map cl_name (from_layers ls))" using assms(3) unfolding from_layers_names by simp
  then obtain i where i: "i < length ls" "cl_name (from_layers ls ! i) = name" by (auto simp: in_set_conv_nth)
  moreover have "j = i" if "j < length ls" "cl_name (from_layers ls ! j) = name" for j
    using from_layers_by_name [OF assms(1,2) that(1)] from_layers_by_name [OF assms(1,2) i(1)] i(2) that(2) by (metis option.inject)
  moreover have "by_name (from_layers ls) name = Some i" using from_layers_by_name [OF assms(1,2) i(1)] i(2) by (simp only:)
  ultimately show ?thesis by blast
qed

lemma from_layers_front_back:
  assumes "length ls \<le> 32" "distinct (map fst ls)"
  shows "''F.Cu'' \<in> fst ` set ls \<Longrightarrow> by_name (from_layers ls) ''F.Cu'' = Some 0"
    and "''B.Cu'' \<in> fst ` set ls \<Longrightarrow> by_name (from_layers ls) ''B.Cu'' = Some (length ls - 1)"
proof -
  let ?p = "\<lambda>i. stack_position (cl_name (from_layers ls ! i))"
  have mono: "?p i \<le> ?p j" if "i \<le> j" "j < length ls" for i j
    using from_layers_sorted [of ls] that by (auto simp: sorted_iff_nth_mono)
  show "by_name (from_layers ls) ''F.Cu'' = Some 0" if "''F.Cu'' \<in> fst ` set ls"
    using from_layers_end [OF assms that] mono [of 0] stack_position_extremes(1) [of "cl_name (from_layers ls ! 0)"]
    by (metis gr_zeroI le0 less_trans not_less)
  show "by_name (from_layers ls) ''B.Cu'' = Some (length ls - 1)" if b: "''B.Cu'' \<in> fst ` set ls"
  proof -
    obtain i where i: "i < length ls" "cl_name (from_layers ls ! i) = ''B.Cu''" "by_name (from_layers ls) ''B.Cu'' = Some i"
        "\<And>j. j < length ls \<Longrightarrow> j \<noteq> i \<Longrightarrow> cl_name (from_layers ls ! j) \<noteq> ''B.Cu''"
      using from_layers_end [OF assms b] by blast
    have "i = length ls - 1"
      using i mono [of i "length ls - 1"] stack_position_extremes(2) [of "cl_name (from_layers ls ! (length ls - 1))"]
      by (cases "i = length ls - 1") (auto simp: not_less [symmetric])
    then show ?thesis using i(3) by simp
  qed
qed

lemma mask_iter_sorted: "sorted (LayerMask_iter m) \<and> LayerMask_count m = card (set (LayerMask_iter m))"
  using distinct_card [of "LayerMask_iter m"] by (simp add: mask_iter LayerMask_count_def sorted_wrt_filter)

lemma mask_iter_span: "set (LayerMask_iter (LayerMask_span a c)) = {min a c..max a c} \<inter> {..<32}"
  unfolding LayerMask_span_def by (auto simp: mask_fold LayerMask_EMPTY_def simp del: upt_Suc)

definition rect_at :: "int \<Rightarrow> int \<Rightarrow> int \<Rightarrow> int \<Rightarrow> shape" where
  "rect_at x y w h = ConvexPoly \<lparr>pts = [Point_new x y, Point_new (x + w) y, Point_new (x + w) (y + h), Point_new x (y + h)], cp_radius = 0\<rparr>"

definition demo_pad :: "nat \<Rightarrow> netid \<Rightarrow> layer_mask \<Rightarrow> int \<Rightarrow> pad" where
  "demo_pad i n m x = \<lparr>pad_ident = i, pad_footprint = 0, pad_number = ''1'', pad_net = Some n, pad_kind_of = Smd,
     pad_center = Point_new (x + 50) 50, pad_layers = m, pad_shapes = [rect_at x 0 100 100], pad_drill = None,
     local_clearance = None, approximated = False, pad_ownership = Fixed, pad_uuid = None\<rparr>"

text \<open>A two-layer board: net \<open>A\<close> with three pads, two of them joined by a track; net \<open>GND\<close> with two pads on a filled plane.\<close>

definition demo_board :: route_board where
  "demo_board = \<lparr>board_outline_of = \<lparr>out_regions = [], out_edges = [], out_bbox = None\<rparr>,
     layer_table_of = from_layers [(''B.Cu'', 2, Signal), (''F.Cu'', 0, Signal)], routable = 3,
     nets = [\<lparr>net_ident = 0, net_text = ''A'', net_class = 0, net_pair = None\<rparr>, \<lparr>net_ident = 1, net_text = ''GND'', net_class = 0, net_pair = None\<rparr>],
     footprints = [\<lparr>fp_id = 0, reference = Some ''U1'', fp_at = Point_new 0 0, fp_side = Front, fp_locked = False, courtyards = [], pad_range = (0, 5)\<rparr>],
     pads = [demo_pad 0 0 1 0, demo_pad 1 0 1 1000, demo_pad 2 0 1 3000, demo_pad 3 1 2 0, demo_pad 4 1 2 1000],
     tracks = [\<lparr>track_ident = 0, track_net = Some 0, track_layer = 0,
        track_seg = \<lparr>seg_a = Point_new 50 50, seg_b = Point_new 1050 50, seg_width = 20\<rparr>, track_ownership = Fixed, track_uuid = None\<rparr>],
     arcs = [], vias = [],
     zones = [\<lparr>zone_ident = 0, zone_net = Some 1, zone_layer = 1,
        zone_region = \<lparr>outline = [Point_new (- 500) (- 500), Point_new 2000 (- 500), Point_new 2000 500, Point_new (- 500) 500], holes = []\<rparr>,
        filled = True, zone_island = False, zone_name = None, zone_priority = 0\<rparr>],
     keepouts = []\<rparr>"

definition demo_stack :: "(string \<times> nat \<times> copper_layer_kind) list" where
  "demo_stack = [(''B.Cu'', 2, Signal), (''In2.Cu'', 6, Signal), (''F.Cu'', 0, Signal), (''In10.Cu'', 22, Power)]"

section \<open>Properties\<close>

text \<open>C13. Validation accepts exactly the well-formed boards: one to 32 copper layers, every id equal to its position,
  nets strictly sorted by name, pad ranges inside the pad list and owned by their footprint, every layer reference
  in the layer table. On such a board the binary search finds a net exactly by its name.\<close>

theorem validated_board:
  assumes "length (nets b) \<le> 2 ^ 32"
  shows "(validate b = None \<longleftrightarrow> board_wf b) \<and>
    (validate b = None \<longrightarrow> (net_by_name b name = Some i \<longleftrightarrow> i < length (nets b) \<and> net_text (nets b ! i) = name \<and> net_ident (nets b ! i) = i))"
proof -
  have "net_by_name b name = Some i \<longleftrightarrow> i < length (nets b) \<and> net_text (nets b ! i) = name" if wf: "board_wf b"
  proof -
    have "net_text (nets b ! i) < net_text (nets b ! j)" if "i < j" "j < length (nets b)" for i j
      using wf that by (auto simp: board_wf_def sorted_wrt_iff_nth_less)
    then have "binary_search_by (\<lambda>n. cmp (net_text n) name) (nets b) = Some k \<longleftrightarrow> k < length (nets b) \<and> net_text (nets b ! k) = name" for k
      by (rule binary_search_strict)
    moreover have "as_u32 k = k" if "k < length (nets b)" for k using that assms by simp
    ultimately show ?thesis unfolding net_by_name_def map_option_eq_Some by metis
  qed
  moreover have "net_ident (nets b ! i) = i" if "board_wf b" "i < length (nets b)"
    using that by (simp add: board_wf_def map_is_upt)
  ultimately show ?thesis by (auto simp: validate_iff)
qed


theorem validated_board_witness: "board_wf demo_board \<and> net_by_name demo_board ''GND'' = Some 1"
proof -
  have len: "length (nets demo_board) \<le> 2 ^ 32" by (simp add: demo_board_def)
  have "validate demo_board = None" by code_simp
  moreover have "net_text (nets demo_board ! 1) = ''GND''" "1 < length (nets demo_board)" "net_ident (nets demo_board ! 1) = 1"
    by (simp_all add: demo_board_def)
  ultimately show ?thesis using validated_board [OF len, of "''GND''" 1] by blast
qed

text \<open>C30. The copper stack. A table built from at most 32 named layers in any order lists them by stack position (front,
  inner layers by number, back) and numbers them by position: a layer is found under its name at its position,
  \<open>*.Cu\<close> expands to all of them, and the front and back layers are the first and the last. Masks are sets: iteration
  lists the members in ascending order, and a span holds the layers between its ends.\<close>

theorem layer_stack:
  assumes "length ls \<le> 32" "distinct (map fst ls)" "i < length ls"
  shows "sorted (map (stack_position \<circ> cl_name) (from_layers ls)) \<and> mset (map cl_name (from_layers ls)) = mset (map fst ls) \<and>
    by_name (from_layers ls) (cl_name (from_layers ls ! i)) = Some i \<and>
    LayerMask_iter (LayerTable_expand (from_layers ls) ''*.Cu'') = [0..<length ls] \<and>
    (''F.Cu'' \<in> fst ` set ls \<longrightarrow> LayerTable_front (from_layers ls) = Some 0) \<and>
    (''B.Cu'' \<in> fst ` set ls \<longrightarrow> LayerTable_back (from_layers ls) = Some (length ls - 1)) \<and>
    sorted (LayerMask_iter m) \<and> LayerMask_count m = card (set (LayerMask_iter m)) \<and>
    (LayerMask_contains m l \<longleftrightarrow> l \<in> set (LayerMask_iter m)) \<and>
    set (LayerMask_iter (LayerMask_span a c)) = {min a c..max a c} \<inter> {..<32}"
proof -
  have s: "sorted xs \<Longrightarrow> distinct xs \<Longrightarrow> set xs = {0..<n} \<Longrightarrow> xs = [0..<n]" for xs n
    by (metis distinct_upt set_upt sorted_distinct_set_unique sorted_upt)
  have "distinct (LayerMask_iter k)" for k by (simp add: mask_iter)
  then have "LayerMask_iter (LayerTable_expand (from_layers ls) ''*.Cu'') = [0..<length ls]"
    using from_layers_all [OF assms(1)] mask_iter_sorted by (intro s) (auto simp: LayerTable_expand_def)
  moreover have "mset (map cl_name (from_layers ls)) = mset (map fst ls)" unfolding from_layers_names by simp
  ultimately show ?thesis
    using from_layers_sorted from_layers_by_name [OF assms] from_layers_front_back [OF assms(1,2)] mask_iter_sorted mask_iter_span
    by (simp only: LayerTable_front_def LayerTable_back_def mask_contains in_mask_iter) blast
qed

theorem layer_stack_witness:
  "by_name (from_layers demo_stack) (cl_name (from_layers demo_stack ! 2)) = Some 2 \<and> LayerTable_back (from_layers demo_stack) = Some 3"
proof -
  have "length demo_stack \<le> 32" "distinct (map fst demo_stack)" "2 < length demo_stack" and b: "''B.Cu'' \<in> fst ` set demo_stack" "length demo_stack - 1 = 3"
    by (simp_all add: demo_stack_def)
  from layer_stack [OF this(1-3)] b show ?thesis by metis
qed

end
