(* ===== verification/Union_Find.thy ===== *)
theory Union_Find
  imports Konnect_Prelude
begin

text \<open>
  The disjoint sets of \<open>crates/konnect-route/src/connectivity.rs\<close> (\<open>UnionFind\<close>): union by size and path halving. The
  interface is the locale \<open>disjoint_sets\<close>; what joining a list of pairs gives is proved in it once.
\<close>

section \<open>Operations\<close>

record union_find =
  parent :: "nat list"
  uf_size :: "nat list"

definition UnionFind_new :: "nat \<Rightarrow> union_find" where
  "UnionFind_new n = \<lparr>parent = [0..<as_u32 n], uf_size = replicate n 1\<rparr>"

definition UnionFind_len :: "union_find \<Rightarrow> nat" where
  "UnionFind_len u = length (parent u)"

definition UnionFind_is_empty :: "union_find \<Rightarrow> bool" where
  "UnionFind_is_empty u \<longleftrightarrow> parent u = []"

text \<open>The loop of \<open>find\<close> with path halving, on the parents; \<open>None\<close> stands for an index out of bounds and for a loop
  that does not end.\<close>

partial_function (option) find_loop :: "nat list \<Rightarrow> nat \<Rightarrow> (nat list \<times> nat) option" where
  "find_loop p x =
     (if length p \<le> x then None
      else if p ! x = x then Some (p, x)
      else if length p \<le> p ! x then None
      else let grandparent = p ! (p ! x) in find_loop (p[x := grandparent]) grandparent)"

declare find_loop.simps [code]

definition UnionFind_find :: "union_find \<Rightarrow> nat \<Rightarrow> (union_find \<times> nat) option" where
  "UnionFind_find u x = map_option (\<lambda>(p, r). (u\<lparr>parent := p\<rparr>, r)) (find_loop (parent u) x)"

definition link :: "union_find \<Rightarrow> nat \<Rightarrow> nat \<Rightarrow> union_find" where
  "link u ra rb =
     (let (big, small) = (case cmp (uf_size u ! ra) (uf_size u ! rb) of
          Greater \<Rightarrow> (ra, rb) | Less \<Rightarrow> (rb, ra) | Equal \<Rightarrow> (min ra rb, max ra rb))
      in \<lparr>parent = (parent u)[small := big], uf_size = (uf_size u)[big := uf_size u ! big + uf_size u ! small]\<rparr>)"

definition UnionFind_union :: "union_find \<Rightarrow> nat \<Rightarrow> nat \<Rightarrow> (union_find \<times> bool) option" where
  "UnionFind_union u a b =
     Option.bind (UnionFind_find u a) (\<lambda>(u1, ra). Option.bind (UnionFind_find u1 b) (\<lambda>(u2, rb).
       if ra = rb then Some (u2, False) else Some (link u2 ra rb, True)))"

definition UnionFind_same :: "union_find \<Rightarrow> nat \<Rightarrow> nat \<Rightarrow> (union_find \<times> bool) option" where
  "UnionFind_same u a b =
     Option.bind (UnionFind_find u a) (\<lambda>(u1, ra). Option.bind (UnionFind_find u1 b) (\<lambda>(u2, rb). Some (u2, ra = rb)))"

section \<open>Invariant\<close>

text \<open>Parents are in range, sizes grow strictly towards the root, and the roots' sizes add up to the number of
  elements.\<close>

definition forest :: "nat list \<Rightarrow> nat list \<Rightarrow> bool" where
  "forest p s \<longleftrightarrow> length s = length p \<and> (\<forall>i < length p. p ! i < length p \<and> 0 < s ! i \<and> (p ! i \<noteq> i \<longrightarrow> s ! i < s ! (p ! i))) \<and>
     (\<Sum>i | i < length p \<and> p ! i = i. s ! i) = length p"

definition uf_ok :: "union_find \<Rightarrow> bool" where
  "uf_ok u \<longleftrightarrow> forest (parent u) (uf_size u)"

inductive root_of :: "nat list \<Rightarrow> nat \<Rightarrow> nat \<Rightarrow> bool" for p where
  here: "x < length p \<Longrightarrow> p ! x = x \<Longrightarrow> root_of p x x"
| up: "x < length p \<Longrightarrow> p ! x \<noteq> x \<Longrightarrow> root_of p (p ! x) r \<Longrightarrow> root_of p x r"

lemma root_of_step: "root_of p x r \<longleftrightarrow> x < length p \<and> (if p ! x = x then r = x else root_of p (p ! x) r)"
  by (subst root_of.simps) auto

lemma root_of_det: "root_of p x r \<Longrightarrow> root_of p x r' \<Longrightarrow> r = r'"
proof (induction arbitrary: r' rule: root_of.induct)
  case (here x)
  then show ?case by (subst (asm) root_of_step) simp
next
  case (up x r)
  then show ?case using root_of_step [of p x r'] by simp
qed

lemma root_of_root: "root_of p x r \<Longrightarrow> r < length p \<and> p ! r = r"
  by (induction rule: root_of.induct) auto

lemma forestD:
  assumes "forest p s" "i < length p"
  shows "p ! i < length p" "0 < s ! i" "p ! i \<noteq> i \<Longrightarrow> s ! i < s ! (p ! i)"
  using assms by (auto simp: forest_def)

lemma size_bound:
  assumes f: "forest p s"
  shows "i < length p \<Longrightarrow> s ! i \<le> length p"
proof (induction "sum_list s - s ! i" arbitrary: i rule: less_induct)
  case less
  have ln: "length s = length p" using f by (simp add: forest_def)
  show ?case
  proof (cases "p ! i = i")
    case True
    have "s ! i \<le> (\<Sum>i | i < length p \<and> p ! i = i. s ! i)" by (rule member_le_sum) (use less.prems True in auto)
    then show ?thesis using f by (simp add: forest_def)
  next
    case False
    note d = forestD [OF f less.prems]
    have "s ! (p ! i) \<le> sum_list s" by (rule member_le_sum_list) (use d(1) ln in auto)
    then have "s ! (p ! i) \<le> length p" using less.hyps [OF _ d(1)] d(3) [OF False] by auto
    then show ?thesis using d(3) [OF False] by simp
  qed
qed

lemma root_exists:
  assumes f: "forest p s"
  shows "i < length p \<Longrightarrow> \<exists>r. root_of p i r"
proof (induction "length p - s ! i" arbitrary: i rule: less_induct)
  case less
  show ?case
  proof (cases "p ! i = i")
    case True
    then show ?thesis using less.prems root_of.here by blast
  next
    case False
    note d = forestD [OF f less.prems]
    have "length p - s ! (p ! i) < length p - s ! i" using size_bound [OF f d(1)] d(3) [OF False] by simp
    then show ?thesis using less.hyps [OF _ d(1)] less.prems False root_of.up by blast
  qed
qed

text \<open>Pointing an element at its grandparent keeps the forest and every root.\<close>

lemma halve_root:
  assumes f: "forest p s" and x: "x < length p" "p ! x \<noteq> x"
  shows "root_of p y r \<Longrightarrow> root_of (p[x := p ! (p ! x)]) y r"
proof (induction rule: root_of.induct)
  case (here y)
  show ?case by (rule root_of.here) (use here x in \<open>auto simp: nth_list_update\<close>)
next
  case (up y r)
  show ?case
  proof (cases "y = x")
    case False
    show ?thesis by (rule root_of.up) (use up False in auto)
  next
    case True
    let ?g = "p ! (p ! x)"
    have g: "root_of (p[x := ?g]) (p ! x) r" using up True by simp
    have "s ! x < s ! ?g"
      using forestD [OF f x(1)] forestD(3) [OF f, of "p ! x"] x(2) by (cases "?g = p ! x") auto
    then have "?g \<noteq> x" by auto
    moreover have "root_of (p[x := ?g]) ?g r"
      using g root_of_step [of "p[x := ?g]" "p ! x" r] x by (cases "?g = p ! x") auto
    ultimately show ?thesis using x True root_of_step [of "p[x := ?g]" x r] by simp
  qed
qed

lemma halve_forest:
  assumes f: "forest p s" and x: "x < length p" "p ! x \<noteq> x"
  shows "forest (p[x := p ! (p ! x)]) s"
proof -
  let ?g = "p ! (p ! x)"
  have px: "p ! x < length p" using forestD [OF f x(1)] by simp
  have g: "?g < length p" "s ! x < s ! ?g"
    using forestD [OF f x(1)] forestD [OF f px] x(2) by (auto, cases "?g = p ! x", auto)
  have "{i. i < length p \<and> p[x := ?g] ! i = i} = {i. i < length p \<and> p ! i = i}"
    using g(2) x by (auto simp: nth_list_update split: if_splits)
  then show ?thesis using f g x unfolding forest_def by (auto simp: nth_list_update)
qed

lemma find_loop_ok:
  assumes "forest p s" "x < length p"
  shows "\<exists>p' r. find_loop p x = Some (p', r) \<and> forest p' s \<and> length p' = length p \<and> root_of p x r \<and> (\<forall>y z. root_of p y z \<longrightarrow> root_of p' y z)"
  using assms
proof (induction "length p - s ! x" arbitrary: p x rule: less_induct)
  case less
  show ?case
  proof (cases "p ! x = x")
    case True
    then show ?thesis using less.prems root_of.here [of x p] by (subst find_loop.simps) auto
  next
    case False
    let ?g = "p ! (p ! x)"
    let ?p = "p[x := ?g]"
    note d = forestD [OF less.prems]
    have g: "?g < length p" "s ! x < s ! ?g"
      using d forestD [OF less.prems(1) d(1)] False by (auto, cases "?g = p ! x", auto)
    have f: "forest ?p s" by (rule halve_forest [OF less.prems False])
    have "length ?p - s ! ?g < length p - s ! x" using size_bound [OF less.prems(1) g(1)] g(2) by simp
    from less.hyps [OF this f] g(1) obtain p' r where IH: "find_loop ?p ?g = Some (p', r)" "forest p' s" "length p' = length p"
        "root_of ?p ?g r" "\<forall>y z. root_of ?p y z \<longrightarrow> root_of p' y z" by auto
    obtain r' where r': "root_of p x r'" using root_exists [OF less.prems] by blast
    have "root_of ?p x r'" by (rule halve_root [OF less.prems False r'])
    then have "r' = r" using IH(4) root_of_det g less.prems(2) root_of_step [of ?p x r'] by (metis less_irrefl length_list_update nth_list_update_eq)
    moreover have "\<forall>y z. root_of p y z \<longrightarrow> root_of p' y z" using IH(5) halve_root [OF less.prems False] by blast
    ultimately show ?thesis using IH r' False d(1) less.prems(2) by (subst find_loop.simps) (auto simp: Let_def)
  qed
qed

section \<open>Joining\<close>

definition uf_root :: "nat list \<Rightarrow> nat \<Rightarrow> nat" where
  "uf_root p x = (THE r. root_of p x r)"

lemma root_eq: "root_of p x r \<Longrightarrow> uf_root p x = r"
  unfolding uf_root_def by (rule the_equality) (auto intro: root_of_det)

lemma root_root: "forest p s \<Longrightarrow> x < length p \<Longrightarrow> root_of p x (uf_root p x)"
  using root_exists root_eq by metis

lemma find_ok:
  assumes "uf_ok u" "x < UnionFind_len u"
  shows "\<exists>u'. UnionFind_find u x = Some (u', uf_root (parent u) x) \<and> uf_ok u' \<and> UnionFind_len u' = UnionFind_len u \<and>
    (\<forall>y < UnionFind_len u. uf_root (parent u') y = uf_root (parent u) y) \<and> parent u' ! uf_root (parent u) x = uf_root (parent u) x \<and> uf_size u' = uf_size u"
proof -
  have f: "forest (parent u) (uf_size u)" "x < length (parent u)" using assms by (auto simp: uf_ok_def UnionFind_len_def)
  from find_loop_ok [OF f] obtain p' r where p: "find_loop (parent u) x = Some (p', r)" "forest p' (uf_size u)" "length p' = length (parent u)"
      "root_of (parent u) x r" "\<forall>y z. root_of (parent u) y z \<longrightarrow> root_of p' y z" by blast
  have "uf_root p' y = uf_root (parent u) y" if "y < length (parent u)" for y using p(5) root_root [OF f(1) that] root_eq by blast
  moreover have "p' ! r = r" using p(4,5) root_of_root by blast
  ultimately show ?thesis using p root_eq [OF p(4)] by (simp add: UnionFind_find_def uf_ok_def UnionFind_len_def)
qed

lemma link_root:
  assumes b: "big < length p" "small < length p" "p ! big = big" "p ! small = small" "big \<noteq> small"
  shows "root_of p x r \<Longrightarrow> root_of (p[small := big]) x (if r = small then big else r)"
proof (induction rule: root_of.induct)
  case (here x)
  have big: "root_of (p[small := big]) big big" by (rule root_of.here) (use b in auto)
  show ?case
  proof (cases "x = small")
    case True
    then show ?thesis using b big root_of.up [of small "p[small := big]" big] by simp
  next
    case False
    then show ?thesis using here root_of.here [of x "p[small := big]"] by auto
  qed
next
  case (up x r)
  then have "x \<noteq> small" using b by auto
  then show ?case using up root_of.up [of x "p[small := big]"] by simp
qed

lemma link_forest:
  assumes f: "forest p s" and b: "big < length p" "small < length p" "p ! big = big" "p ! small = small" "big \<noteq> small" "s ! small \<le> s ! big"
  shows "forest (p[small := big]) (s[big := s ! big + s ! small])"
proof -
  let ?p = "p[small := big]" and ?s = "s[big := s ! big + s ! small]"
  have ln: "length s = length p" using f by (simp add: forest_def)
  note d = forestD [OF f]
  have 1: "?p ! i < length p \<and> 0 < ?s ! i \<and> (?p ! i \<noteq> i \<longrightarrow> ?s ! i < ?s ! (?p ! i))" if "i < length p" for i
    using d [OF that] d(2) [OF b(2)] b that ln by (auto simp: nth_list_update split: if_splits)
  let ?R = "{i. i < length p \<and> p ! i = i}"
  have roots: "{i. i < length p \<and> ?p ! i = i} = ?R - {small}" using b by (auto simp: nth_list_update split: if_splits)
  have "(\<Sum>i\<in>?R - {small}. ?s ! i) = (\<Sum>i\<in>?R - {small} - {big}. ?s ! i) + ?s ! big"
    using b by (subst sum.remove [of _ big]) auto
  also have "(\<Sum>i\<in>?R - {small} - {big}. ?s ! i) = (\<Sum>i\<in>?R - {small} - {big}. s ! i)" by (rule sum.cong) auto
  also have "(\<Sum>i\<in>?R - {small} - {big}. s ! i) + ?s ! big = (\<Sum>i\<in>?R - {small}. s ! i) + s ! small"
    using b ln by (subst (2) sum.remove [of _ big]) auto
  also have "\<dots> = (\<Sum>i\<in>?R. s ! i)" using b by (subst (2) sum.remove [of _ small]) auto
  finally show ?thesis using f 1 roots by (simp add: forest_def)
qed

lemma link_ok:
  assumes u: "uf_ok u" and r: "ra < UnionFind_len u" "rb < UnionFind_len u" "parent u ! ra = ra" "parent u ! rb = rb" "ra \<noteq> rb"
  shows "uf_ok (link u ra rb) \<and> UnionFind_len (link u ra rb) = UnionFind_len u \<and>
    (\<exists>b s. {b, s} = {ra, rb} \<and> b \<noteq> s \<and> (\<forall>x < UnionFind_len u. uf_root (parent (link u ra rb)) x = (if uf_root (parent u) x = s then b else uf_root (parent u) x)))"
proof -
  define bs where "bs = (case cmp (uf_size u ! ra) (uf_size u ! rb) of
          Greater \<Rightarrow> (ra, rb) | Less \<Rightarrow> (rb, ra) | Equal \<Rightarrow> (min ra rb, max ra rb))"
  obtain b s where bs: "bs = (b, s)" by fastforce
  have set: "{b, s} = {ra, rb}" "b \<noteq> s" and le: "uf_size u ! s \<le> uf_size u ! b"
    using bs r(5) by (auto simp: bs_def cmp_def min_def max_def split: if_splits)
  have l: "link u ra rb = \<lparr>parent = (parent u)[s := b], uf_size = (uf_size u)[b := uf_size u ! b + uf_size u ! s]\<rparr>"
    using bs by (simp add: link_def bs_def)
  have b: "b < length (parent u)" "s < length (parent u)" "parent u ! b = b" "parent u ! s = s"
    using set r by (auto simp: UnionFind_len_def doubleton_eq_iff)
  have f: "forest (parent u) (uf_size u)" using u by (simp add: uf_ok_def)
  have "uf_root ((parent u)[s := b]) x = (if uf_root (parent u) x = s then b else uf_root (parent u) x)" if "x < length (parent u)" for x
    by (rule root_eq [OF link_root [OF b set(2) root_root [OF f that]]])
  then show ?thesis using link_forest [OF f b set(2) le] set by (auto simp: l uf_ok_def UnionFind_len_def)
qed

section \<open>Connected elements\<close>

definition conn :: "('a \<times> 'a) set \<Rightarrow> ('a \<times> 'a) set" where
  "conn E = (E \<union> E\<inverse>)\<^sup>*"

lemma conn_refl [simp]: "(x, x) \<in> conn E"
  by (simp add: conn_def)

lemma conn_sym: "(x, y) \<in> conn E \<Longrightarrow> (y, x) \<in> conn E"
proof -
  have "sym (E \<union> E\<inverse>)" by (auto simp: sym_def)
  then show "(x, y) \<in> conn E \<Longrightarrow> (y, x) \<in> conn E" using sym_rtrancl unfolding conn_def by (blast dest: symD)
qed

lemma conn_trans: "(x, y) \<in> conn E \<Longrightarrow> (y, z) \<in> conn E \<Longrightarrow> (x, z) \<in> conn E"
  by (simp add: conn_def)

lemma conn_edge: "(x, y) \<in> E \<Longrightarrow> (x, y) \<in> conn E"
  by (simp add: conn_def r_into_rtrancl)

lemma conn_mono: "E \<subseteq> F \<Longrightarrow> conn E \<subseteq> conn F"
  unfolding conn_def by (rule rtrancl_mono) auto

lemma conn_insert:
  "(x, y) \<in> conn (insert (a, b) E) \<longleftrightarrow> (x, y) \<in> conn E \<or> (x, a) \<in> conn E \<and> (b, y) \<in> conn E \<or> (x, b) \<in> conn E \<and> (a, y) \<in> conn E"
proof
  assume "(x, y) \<in> conn (insert (a, b) E)"
  then have "(x, y) \<in> (insert (a, b) E \<union> (insert (a, b) E)\<inverse>)\<^sup>*" by (simp add: conn_def)
  then show "(x, y) \<in> conn E \<or> (x, a) \<in> conn E \<and> (b, y) \<in> conn E \<or> (x, b) \<in> conn E \<and> (a, y) \<in> conn E"
  proof (induction rule: rtrancl_induct)
    case (step y z)
    consider "(y, z) \<in> conn E" | "y = a" "z = b" | "y = b" "z = a" 
    proof -
      have "(y, z) \<in> E \<union> E\<inverse> \<or> y = a \<and> z = b \<or> y = b \<and> z = a" using step.hyps(2) by auto
      then show ?thesis using that by (auto simp: conn_def)
    qed
    then show ?case
    proof cases
      case 1
      then show ?thesis using step.IH by (blast intro: conn_trans)
    next
      case 2
      then show ?thesis using step.IH by (auto intro: conn_trans conn_sym)
    next
      case 3
      then show ?thesis using step.IH by (auto intro: conn_trans conn_sym)
    qed
  qed simp
next
  have sub: "conn E \<subseteq> conn (insert (a, b) E)" by (rule conn_mono) auto
  have ab: "(a, b) \<in> conn (insert (a, b) E)" by (simp add: conn_edge)
  assume "(x, y) \<in> conn E \<or> (x, a) \<in> conn E \<and> (b, y) \<in> conn E \<or> (x, b) \<in> conn E \<and> (a, y) \<in> conn E"
  then show "(x, y) \<in> conn (insert (a, b) E)"
    by (elim disjE conjE) (meson ab conn_sym [OF ab] conn_trans subsetD [OF sub])+
qed

lemma conn_redundant: "(a, b) \<in> conn E \<Longrightarrow> conn (insert (a, b) E) = conn E"
proof -
  assume ab: "(a, b) \<in> conn E"
  have "(x, y) \<in> conn (insert (a, b) E) \<longleftrightarrow> (x, y) \<in> conn E" for x y
    unfolding conn_insert by (meson ab conn_sym [OF ab] conn_trans)
  then show ?thesis by auto
qed

lemma root_at_root: "uf_ok u \<Longrightarrow> x < UnionFind_len u \<Longrightarrow> uf_root (parent u) x < UnionFind_len u \<and> parent u ! uf_root (parent u) x = uf_root (parent u) x"
  unfolding uf_ok_def UnionFind_len_def by (rule root_of_root [OF root_root])

lemma union_ok:
  assumes u: "uf_ok u" and ab: "a < UnionFind_len u" "b < UnionFind_len u"
  shows "\<exists>u'. UnionFind_union u a b = Some (u', uf_root (parent u) a \<noteq> uf_root (parent u) b) \<and> uf_ok u' \<and> UnionFind_len u' = UnionFind_len u \<and>
    (\<forall>x y. x < UnionFind_len u \<and> y < UnionFind_len u \<longrightarrow> (uf_root (parent u') x = uf_root (parent u') y \<longleftrightarrow>
       uf_root (parent u) x = uf_root (parent u) y \<or> {uf_root (parent u) x, uf_root (parent u) y} = {uf_root (parent u) a, uf_root (parent u) b}))"
proof -
  let ?n = "UnionFind_len u" and ?r = "uf_root (parent u)"
  obtain u1 where u1: "UnionFind_find u a = Some (u1, ?r a)" "uf_ok u1" "UnionFind_len u1 = ?n" "\<forall>y < ?n. uf_root (parent u1) y = ?r y"
    using find_ok [OF u ab(1)] by blast
  obtain u2 where u2: "UnionFind_find u1 b = Some (u2, ?r b)" "uf_ok u2" "UnionFind_len u2 = ?n" "\<forall>y < ?n. uf_root (parent u2) y = ?r y"
    using find_ok [OF u1(2), of b] u1(3,4) ab(2) by auto
  have roots: "?r a < ?n \<and> parent u2 ! ?r a = ?r a" "?r b < ?n \<and> parent u2 ! ?r b = ?r b"
    using root_at_root [OF u2(2), of a] root_at_root [OF u2(2), of b] u2(3,4) ab by auto
  show ?thesis
  proof (cases "?r a = ?r b")
    case True
    then show ?thesis using u1 u2 by (auto simp: UnionFind_union_def doubleton_eq_iff)
  next
    case False
    obtain g s where gs: "{g, s} = {?r a, ?r b}" "g \<noteq> s"
        "\<forall>x < ?n. uf_root (parent (link u2 (?r a) (?r b))) x = (if uf_root (parent u2) x = s then g else uf_root (parent u2) x)"
      and ok: "uf_ok (link u2 (?r a) (?r b))" "UnionFind_len (link u2 (?r a) (?r b)) = ?n"
      using link_ok [OF u2(2), of "?r a" "?r b"] roots False u2(3) by auto
    have "uf_root (parent (link u2 (?r a) (?r b))) x = uf_root (parent (link u2 (?r a) (?r b))) y \<longleftrightarrow> ?r x = ?r y \<or> {?r x, ?r y} = {?r a, ?r b}"
      if "x < ?n" "y < ?n" for x y
      using gs u2(4) that by (auto simp: doubleton_eq_iff)
    then show ?thesis using u1 u2 ok False by (auto simp: UnionFind_union_def)
  qed
qed

lemma same_ok:
  assumes u: "uf_ok u" and ab: "a < UnionFind_len u" "b < UnionFind_len u"
  shows "\<exists>u'. UnionFind_same u a b = Some (u', uf_root (parent u) a = uf_root (parent u) b) \<and> uf_ok u' \<and> UnionFind_len u' = UnionFind_len u \<and>
    (\<forall>y < UnionFind_len u. uf_root (parent u') y = uf_root (parent u) y)"
proof -
  let ?n = "UnionFind_len u" and ?r = "uf_root (parent u)"
  obtain u1 where u1: "UnionFind_find u a = Some (u1, ?r a)" "uf_ok u1" "UnionFind_len u1 = ?n" "\<forall>y < ?n. uf_root (parent u1) y = ?r y"
    using find_ok [OF u ab(1)] by blast
  obtain u2 where u2: "UnionFind_find u1 b = Some (u2, ?r b)" "uf_ok u2" "UnionFind_len u2 = ?n" "\<forall>y < ?n. uf_root (parent u2) y = ?r y"
    using find_ok [OF u1(2), of b] u1(3,4) ab(2) by auto
  show ?thesis using u1(1) u2 by (simp add: UnionFind_same_def)
qed

lemma uf_new_ok:
  assumes "n < 2 ^ 32"
  shows "uf_ok (UnionFind_new n)" "UnionFind_len (UnionFind_new n) = n" "x < n \<Longrightarrow> uf_root (parent (UnionFind_new n)) x = x"
proof -
  have p: "parent (UnionFind_new n) = [0..<n]" using assms by (simp add: UnionFind_new_def)
  have "{i. i < n \<and> [0..<n] ! i = i} = {..<n}" by auto
  then show "uf_ok (UnionFind_new n)" "UnionFind_len (UnionFind_new n) = n"
    using p by (auto simp: uf_ok_def forest_def UnionFind_len_def UnionFind_new_def)
  show "uf_root (parent (UnionFind_new n)) x = x" if "x < n"
    by (rule root_eq, rule root_of.here) (use p that in auto)
qed

section \<open>The interface\<close>

text \<open>Joining the pairs of a list that pass a test, skipping pairs that are joined already.\<close>

fun join_pairs :: "('u \<Rightarrow> nat \<Rightarrow> nat \<Rightarrow> ('u \<times> bool) option) \<Rightarrow> ('u \<Rightarrow> nat \<Rightarrow> nat \<Rightarrow> ('u \<times> bool) option) \<Rightarrow> (nat \<times> nat \<times> bool) list \<Rightarrow> 'u \<Rightarrow> 'u option" where
  "join_pairs same unite [] u = Some u"
| "join_pairs same unite ((a, b, t) # ps) u =
     Option.bind (same u a b) (\<lambda>(u', joined).
       if joined \<or> \<not> t then join_pairs same unite ps u'
       else Option.bind (unite u' a b) (\<lambda>(u'', _). join_pairs same unite ps u''))"

locale disjoint_sets =
  fixes new :: "nat \<Rightarrow> 'u" and len :: "'u \<Rightarrow> nat" and find :: "'u \<Rightarrow> nat \<Rightarrow> ('u \<times> nat) option"
    and unite :: "'u \<Rightarrow> nat \<Rightarrow> nat \<Rightarrow> ('u \<times> bool) option" and same :: "'u \<Rightarrow> nat \<Rightarrow> nat \<Rightarrow> ('u \<times> bool) option"
    and invar :: "'u \<Rightarrow> bool" and repr :: "'u \<Rightarrow> nat \<Rightarrow> nat" and capacity :: nat
  assumes new: "n < capacity \<Longrightarrow> invar (new n) \<and> len (new n) = n \<and> (\<forall>x < n. repr (new n) x = x)"
    and find: "invar u \<Longrightarrow> x < len u \<Longrightarrow>
      \<exists>u'. find u x = Some (u', repr u x) \<and> invar u' \<and> len u' = len u \<and> (\<forall>y < len u. repr u' y = repr u y)"
    and same: "invar u \<Longrightarrow> a < len u \<Longrightarrow> b < len u \<Longrightarrow>
      \<exists>u'. same u a b = Some (u', repr u a = repr u b) \<and> invar u' \<and> len u' = len u \<and> (\<forall>y < len u. repr u' y = repr u y)"
    and unite: "invar u \<Longrightarrow> a < len u \<Longrightarrow> b < len u \<Longrightarrow>
      \<exists>u'. unite u a b = Some (u', repr u a \<noteq> repr u b) \<and> invar u' \<and> len u' = len u \<and>
        (\<forall>x y. x < len u \<and> y < len u \<longrightarrow> (repr u' x = repr u' y \<longleftrightarrow> repr u x = repr u y \<or> {repr u x, repr u y} = {repr u a, repr u b}))"
begin

lemma join_pairs_conn:
  assumes "invar u" "\<forall>(a, b, t) \<in> set ps. a < len u \<and> b < len u"
    and "\<forall>x y. x < len u \<and> y < len u \<longrightarrow> (repr u x = repr u y \<longleftrightarrow> (x, y) \<in> conn E)"
  shows "\<exists>u'. join_pairs same unite ps u = Some u' \<and> invar u' \<and> len u' = len u \<and>
    (\<forall>x y. x < len u \<and> y < len u \<longrightarrow> (repr u' x = repr u' y \<longleftrightarrow> (x, y) \<in> conn (E \<union> {(a, b). (a, b, True) \<in> set ps})))"
  using assms
proof (induction ps arbitrary: u E)
  case (Cons q ps)
  obtain a b t where q: "q = (a, b, t)" by (cases q)
  have ab: "a < len u" "b < len u" using Cons.prems(2) q by auto
  obtain u1 where u1: "same u a b = Some (u1, repr u a = repr u b)" "invar u1" "len u1 = len u" "\<forall>y < len u. repr u1 y = repr u y"
    using same [OF Cons.prems(1) ab] by blast
  have r1: "\<forall>x y. x < len u1 \<and> y < len u1 \<longrightarrow> (repr u1 x = repr u1 y \<longleftrightarrow> (x, y) \<in> conn E)" using u1(3,4) Cons.prems(3) by simp
  have ps: "\<forall>(a, b, t) \<in> set ps. a < len u1 \<and> b < len u1" using Cons.prems(2) u1(3) by auto
  let ?P = "{(a, b). (a, b, True) \<in> set ps}"
  show ?case
  proof (cases "repr u a = repr u b \<or> \<not> t")
    case True
    have "conn (E \<union> {(c, d). (c, d, True) \<in> set (q # ps)}) = conn (E \<union> ?P)"
    proof (cases t)
      case tt: True
      then have "(a, b) \<in> conn (E \<union> ?P)" using True Cons.prems(3) ab conn_mono [of E "E \<union> ?P"] by auto
      moreover have "E \<union> {(c, d). (c, d, True) \<in> set (q # ps)} = insert (a, b) (E \<union> ?P)" using q tt by auto
      ultimately show ?thesis by (simp only: conn_redundant)
    next
      case False
      then have "{(c, d). (c, d, True) \<in> set (q # ps)} = ?P" using q by auto
      then show ?thesis by simp
    qed
    then show ?thesis using Cons.IH [OF u1(2) ps r1] u1(1,3) q True by simp
  next
    case False
    obtain u2 where u2: "unite u1 a b = Some (u2, repr u1 a \<noteq> repr u1 b)" "invar u2" "len u2 = len u1"
        "\<forall>x y. x < len u1 \<and> y < len u1 \<longrightarrow> (repr u2 x = repr u2 y \<longleftrightarrow> repr u1 x = repr u1 y \<or> {repr u1 x, repr u1 y} = {repr u1 a, repr u1 b})"
      using unite [OF u1(2), of a b] ab u1(3) by auto
    have r2: "\<forall>x y. x < len u2 \<and> y < len u2 \<longrightarrow> (repr u2 x = repr u2 y \<longleftrightarrow> (x, y) \<in> conn (insert (a, b) E))"
    proof (intro allI impI)
      fix x y assume xy: "x < len u2 \<and> y < len u2"
      have c: "repr u1 z = repr u1 w \<longleftrightarrow> (z, w) \<in> conn E" if "z < len u2" "w < len u2" for z w using r1 that u2(3) by simp
      have "a < len u2" "b < len u2" using ab u1(3) u2(3) by auto
      then show "repr u2 x = repr u2 y \<longleftrightarrow> (x, y) \<in> conn (insert (a, b) E)"
        using u2(3,4) xy c [of x y] c [of x a] c [of b y] c [of x b] c [of a y] by (auto simp: conn_insert doubleton_eq_iff)
    qed
    have "insert (a, b) E \<union> ?P = E \<union> {(c, d). (c, d, True) \<in> set (q # ps)}" using q False by auto
    then show ?thesis using Cons.IH [OF u2(2) _ r2] ps u1(1,3) u2(1,3) q False by simp
  qed
qed auto

lemma join_new:
  assumes "n < capacity" "\<forall>(a, b, t) \<in> set ps. a < n \<and> b < n"
  shows "\<exists>u. join_pairs same unite ps (new n) = Some u \<and> invar u \<and> len u = n \<and>
    (\<forall>x y. x < n \<and> y < n \<longrightarrow> (repr u x = repr u y \<longleftrightarrow> (x, y) \<in> conn {(a, b). (a, b, True) \<in> set ps}))"
proof -
  have "(x, y) \<in> conn {} \<longleftrightarrow> x = y" for x y :: nat by (simp add: conn_def)
  then show ?thesis using join_pairs_conn [of "new n" ps "{}"] new [OF assms(1)] assms(2) by auto
qed

end

interpretation uf: disjoint_sets UnionFind_new UnionFind_len UnionFind_find UnionFind_union UnionFind_same uf_ok "\<lambda>u. uf_root (parent u)" "2 ^ 32"
proof unfold_locales
  fix u x assume "uf_ok u" "x < UnionFind_len u"
  then show "\<exists>u'. UnionFind_find u x = Some (u', uf_root (parent u) x) \<and> uf_ok u' \<and> UnionFind_len u' = UnionFind_len u \<and> (\<forall>y < UnionFind_len u. uf_root (parent u') y = uf_root (parent u) y)"
    using find_ok by blast
qed (use uf_new_ok union_ok same_ok in auto)

section \<open>Property\<close>

text \<open>C14. The union-find answers connectivity. From a fresh structure over fewer than \<open>2 ^ 32\<close> elements, joining any
  list of pairs returns, and afterwards two elements are reported as one set exactly when a chain of joined pairs
  connects them; \<open>find\<close> returns for every element, and the same representative for exactly the elements of one
  set. No index is out of range and no loop runs forever.\<close>

theorem union_find_connects:
  assumes "n < 2 ^ 32" and "\<forall>(a, b) \<in> set ps. a < n \<and> b < n" and "x < n" and "y < n"
  shows "\<exists>u ux uy rx ry us. join_pairs UnionFind_same UnionFind_union (map (\<lambda>(a, b). (a, b, True)) ps) (UnionFind_new n) = Some u \<and>
    UnionFind_find u x = Some (ux, rx) \<and> UnionFind_find u y = Some (uy, ry) \<and> (rx = ry \<longleftrightarrow> (x, y) \<in> conn (set ps)) \<and>
    UnionFind_same u x y = Some (us, (x, y) \<in> conn (set ps)) \<and> rx < n \<and> ry < n"
proof -
  have "{(a, b). (a, b, True) \<in> set (map (\<lambda>(a, b). (a, b, True)) ps)} = set ps" by auto
  moreover have "\<forall>(a, b, t) \<in> set (map (\<lambda>(a, b). (a, b, True)) ps). a < n \<and> b < n" using assms(2) by auto
  ultimately obtain u where u: "join_pairs UnionFind_same UnionFind_union (map (\<lambda>(a, b). (a, b, True)) ps) (UnionFind_new n) = Some u" "uf_ok u" "UnionFind_len u = n"
      "\<forall>x y. x < n \<and> y < n \<longrightarrow> (uf_root (parent u) x = uf_root (parent u) y \<longleftrightarrow> (x, y) \<in> conn (set ps))"
    using uf.join_new [OF assms(1), of "map (\<lambda>(a, b). (a, b, True)) ps"] by metis
  have r: "uf_root (parent u) z < n" if "z < n" for z
    using root_at_root [OF u(2), of z] u(3) that by simp
  show ?thesis
    using u assms(3,4) find_ok [OF u(2), of x] find_ok [OF u(2), of y] same_ok [OF u(2), of x y] r by auto
qed

theorem union_find_connects_witness:
  "\<exists>u us. join_pairs UnionFind_same UnionFind_union [(0, 1, True), (2, 3, True), (3, 1, True)] (UnionFind_new 5) = Some u \<and>
     UnionFind_same u 0 2 = Some (us, True)"
proof -
  have "(0, 1) \<in> conn (set [(0, 1), (2, 3), (3, 1)])" "(3, 1) \<in> conn (set [(0, 1), (2, 3), (3, 1)])" "(2, 3) \<in> conn (set [(0, 1), (2, 3), (3, 1 :: nat)])"
    by (simp_all add: conn_edge)
  then have "(0, 2 :: nat) \<in> conn (set [(0, 1), (2, 3), (3, 1)])" by (meson conn_sym conn_trans)
  then show ?thesis using union_find_connects [of 5 "[(0, 1), (2, 3), (3, 1)]" 0 2] by auto
qed

end
