(* ===== verification/Connectivity.thy ===== *)
theory Connectivity
  imports Route_Board Union_Find
begin

text \<open>
  \<open>crates/konnect-route/src/connectivity.rs\<close>: which copper of a board is joined. \<open>build\<close> collects the copper of every item
  per layer, joins touching items of one net through a spatial index and the union-find, and groups the items of
  each net into islands; the rest reads the report. \<^const>\<open>None\<close> stands for a panic (an index out of range) or a loop
  without end. The R-tree is the parameter \<open>R\<close> and arc lowering the parameter \<open>arc\<close>.
\<close>

section \<open>The report\<close>

text \<open>An island is its sorted list of members.\<close>

type_synonym island = "item_ref list"

definition island_pads :: "island \<Rightarrow> pad_id list" where
  "island_pads items = List.map_filter (\<lambda>i. case i of Ref_Pad p \<Rightarrow> Some p | _ \<Rightarrow> None) items"

definition has_pad :: "island \<Rightarrow> bool" where
  "has_pad items \<longleftrightarrow> (case items of Ref_Pad _ # _ \<Rightarrow> True | _ \<Rightarrow> False)"

record net_connectivity =
  nc_net :: netid
  islands :: "island list"
  pad_count :: nat

definition pad_island_count :: "net_connectivity \<Rightarrow> nat" where
  "pad_island_count n = length (filter has_pad (islands n))"

definition connections_needed :: "net_connectivity \<Rightarrow> nat" where
  "connections_needed n = pad_island_count n - 1"

record connectivity_report =
  report_nets :: "net_connectivity list"
  unfilled_zones_skipped :: nat

section \<open>Building it\<close>

type_synonym placed = "(nat \<times> shape) list"

record build_state =
  nodes :: "(item_ref \<times> netid option) list"
  per_layer :: "placed list"

definition place :: "layer_id \<Rightarrow> nat \<Rightarrow> shape \<Rightarrow> placed list \<Rightarrow> placed list" where
  "place layer node s per = (if layer < length per then per[layer := per ! layer @ [(node, s)]] else per)"

text \<open>One turn of the five collecting loops: push the item, and place its copper if it has a net.\<close>

definition add_node :: "item_ref \<times> netid option \<times> (layer_id \<times> shape) list \<Rightarrow> build_state \<Rightarrow> build_state" where
  "add_node = (\<lambda>(item, net, copper) st.
     let node = as_u32 (length (nodes st))
     in \<lparr>nodes = nodes st @ [(item, net)],
        per_layer = (if net \<noteq> None then fold (\<lambda>(layer, s). place layer node s) copper (per_layer st) else per_layer st)\<rparr>)"

definition pad_node :: "pad \<Rightarrow> item_ref \<times> netid option \<times> (layer_id \<times> shape) list" where
  "pad_node p = (Ref_Pad (pad_ident p), pad_net p,
     concat (map (\<lambda>layer. map (\<lambda>s. (layer, s)) (pad_shapes p)) (LayerMask_iter (pad_layers p))))"

definition track_node :: "track \<Rightarrow> item_ref \<times> netid option \<times> (layer_id \<times> shape) list" where
  "track_node t = (Ref_Track (track_ident t), track_net t, [(track_layer t, Segment (track_seg t))])"

definition arc_node :: "arc_pts \<Rightarrow> arc_track \<Rightarrow> item_ref \<times> netid option \<times> (layer_id \<times> shape) list" where
  "arc_node arc a = (Ref_Arc (arc_ident a), arc_net a, map (\<lambda>s. (arc_layer a, Segment s)) (ArcTrack_segments arc a))"

definition via_node :: "via \<Rightarrow> item_ref \<times> netid option \<times> (layer_id \<times> shape) list" where
  "via_node v = (Ref_Via (via_ident v), via_net v, map (\<lambda>layer. (layer, Via_shape v)) (LayerMask_iter (via_layers v)))"

definition zone_node :: "zone_piece \<Rightarrow> item_ref \<times> netid option \<times> (layer_id \<times> shape) list" where
  "zone_node z = (Ref_Zone (zone_ident z), zone_net z, [(zone_layer z, Polygon (zone_region z))])"

fun add_zones :: "zone_piece list \<Rightarrow> build_state \<times> nat \<Rightarrow> build_state \<times> nat" where
  "add_zones [] acc = acc"
| "add_zones (z # zs) (st, skipped) =
     (if \<not> filled z then add_zones zs (st, skipped + (if zone_net z \<noteq> None then 1 else 0))
      else add_zones zs (add_node (zone_node z) st, skipped))"

definition collect :: "arc_pts \<Rightarrow> route_board \<Rightarrow> build_state \<times> nat" where
  "collect arc b =
     (let st0 = \<lparr>nodes = [], per_layer = replicate (layer_count b) []\<rparr>;
          st1 = fold (\<lambda>p. add_node (pad_node p)) (pads b) st0;
          st2 = fold (\<lambda>t. add_node (track_node t)) (tracks b) st1;
          st3 = fold (\<lambda>a. add_node (arc_node arc a)) (arcs b) st2;
          st4 = fold (\<lambda>v. add_node (via_node v)) (vias b) st3
      in add_zones (zones b) (st4, 0))"

text \<open>The pairs of a layer that reach the union-find: for each shape, the shapes of a query of its box that come later
  and belong to the same net, with the answer of the exact test. \<^const>\<open>join_pairs\<close> asks \<open>same\<close> first and unites
  the pairs that touch.\<close>

definition layer_index :: "'tr rtree \<Rightarrow> placed \<Rightarrow> 'tr layer_index" where
  "layer_index R shapes =
     LayerIndex_bulk_load R (map (\<lambda>(i, _, s). \<lparr>entry_id = as_u32 i, entry_bbox = Shape_bbox s\<rparr>) (enumerate 0 shapes))"

definition layer_pairs :: "'tr rtree \<Rightarrow> (item_ref \<times> netid option) list \<Rightarrow> placed \<Rightarrow> (nat \<times> nat \<times> bool) list" where
  "layer_pairs R ns shapes =
     (let index = layer_index R shapes
      in concat (map (\<lambda>(i, node_i, shape_i).
           let net_i = snd (ns ! node_i)
           in concat (map (\<lambda>j. let (node_j, shape_j) = shapes ! j
                in if j \<le> i \<or> snd (ns ! node_j) \<noteq> net_i then []
                   else [(node_i, node_j, touches shape_i shape_j)])
              (LayerIndex_query R index (Shape_bbox shape_i)))) (enumerate 0 shapes)))"

fun join_layers :: "'tr rtree \<Rightarrow> (item_ref \<times> netid option) list \<Rightarrow> placed list \<Rightarrow> union_find \<Rightarrow> union_find option" where
  "join_layers R ns [] u = Some u"
| "join_layers R ns (shapes # ls) u =
     Option.bind (join_pairs UnionFind_same UnionFind_union (layer_pairs R ns shapes) u) (join_layers R ns ls)"

text \<open>\<open>groups.entry(root).or_default().push(item)\<close> on a map kept in key order.\<close>

type_synonym groups = "(nat \<times> item_ref list) list"

fun push_group :: "nat \<Rightarrow> item_ref \<Rightarrow> groups \<Rightarrow> groups" where
  "push_group k x [] = [(k, [x])]"
| "push_group k x ((k', xs) # g) =
     (if k < k' then (k, [x]) # (k', xs) # g
      else if k = k' then (k', xs @ [x]) # g
      else (k', xs) # push_group k x g)"

definition is_pad_ref :: "item_ref \<Rightarrow> bool" where
  "is_pad_ref i \<longleftrightarrow> (case i of Ref_Pad _ \<Rightarrow> True | _ \<Rightarrow> False)"

fun group_nodes :: "nat \<Rightarrow> (item_ref \<times> netid option) list \<Rightarrow> union_find \<Rightarrow> groups list \<times> nat list \<Rightarrow> (groups list \<times> nat list) option" where
  "group_nodes i [] u acc = Some acc"
| "group_nodes i ((item, net) # ns) u (by_net, pad_counts) =
     (case net of
        None \<Rightarrow> group_nodes (Suc i) ns u (by_net, pad_counts)
      | Some n \<Rightarrow>
          if length by_net \<le> n then group_nodes (Suc i) ns u (by_net, pad_counts)
          else let pad_counts' = (if is_pad_ref item then pad_counts[n := pad_counts ! n + 1] else pad_counts)
            in Option.bind (UnionFind_find u (as_u32 i)) (\<lambda>(u', r).
                 group_nodes (Suc i) ns u' (by_net[n := push_group r item (by_net ! n)], pad_counts')))"

definition net_islands :: "nat \<Rightarrow> groups \<Rightarrow> nat \<Rightarrow> net_connectivity" where
  "net_islands n g npads = \<lparr>nc_net = as_u32 n, islands = sort (map (\<lambda>(_, items). sort items) g), pad_count = npads\<rparr>"

definition build :: "'tr rtree \<Rightarrow> arc_pts \<Rightarrow> route_board \<Rightarrow> connectivity_report option" where
  "build R arc b =
     (let (st, skipped) = collect arc b
      in Option.bind (join_layers R (nodes st) (per_layer st) (UnionFind_new (length (nodes st)))) (\<lambda>u.
         Option.bind (group_nodes 0 (nodes st) u (replicate (length (nets b)) [], replicate (length (nets b)) 0)) (\<lambda>(by_net, pad_counts).
           Some \<lparr>report_nets = map (\<lambda>(n, g). net_islands n g (pad_counts ! n)) (enumerate 0 by_net),
                 unfilled_zones_skipped = skipped\<rparr>)))"

section \<open>Reading the report\<close>

definition multi_pad_net_count :: "connectivity_report \<Rightarrow> nat" where
  "multi_pad_net_count r = length (filter (\<lambda>n. 2 \<le> pad_count n) (report_nets r))"

definition connection_count :: "connectivity_report \<Rightarrow> nat" where
  "connection_count r = sum_list (map connections_needed (report_nets r))"

text \<open>Setting the flags of the nets in a list; a net outside the board sets nothing.\<close>

definition net_mask :: "nat \<Rightarrow> netid option list \<Rightarrow> bool list" where
  "net_mask len ns = fold (\<lambda>n mask. case n of None \<Rightarrow> mask | Some k \<Rightarrow> mask[k := True]) ns (replicate len False)"

definition plane_net_mask :: "route_board \<Rightarrow> bool list" where
  "plane_net_mask b = net_mask (length (nets b)) (map zone_net (filter filled (zones b)))"

definition plane_nets :: "route_board \<Rightarrow> netid list" where
  "plane_nets b = (let mask = plane_net_mask b in map as_u32 (filter (\<lambda>i. mask ! i) [0..<length (nets b)]))"

definition net_has_routing_copper :: "route_board \<Rightarrow> bool list" where
  "net_has_routing_copper b = net_mask (length (nets b)) (map track_net (tracks b) @ map arc_net (arcs b) @ map via_net (vias b))"

definition on_plane :: "bool list \<Rightarrow> net_connectivity \<Rightarrow> bool" where
  "on_plane planes n \<longleftrightarrow> nc_net n < length planes \<and> planes ! nc_net n"

definition connection_split :: "connectivity_report \<Rightarrow> route_board \<Rightarrow> nat \<times> nat" where
  "connection_split r b =
     (let planes = plane_net_mask b
      in foldl (\<lambda>(plane, signal) n. if on_plane planes n then (plane + connections_needed n, signal) else (plane, signal + connections_needed n))
           (0, 0) (report_nets r))"

datatype net_status = Complete | Partial | NoCopper

definition is_routing_ref :: "item_ref \<Rightarrow> bool" where
  "is_routing_ref i \<longleftrightarrow> (case i of Ref_Track _ \<Rightarrow> True | Ref_Arc _ \<Rightarrow> True | Ref_Via _ \<Rightarrow> True | _ \<Rightarrow> False)"

definition net_status_of :: "connectivity_report \<Rightarrow> netid \<Rightarrow> net_status option" where
  "net_status_of r net =
     (if length (report_nets r) \<le> net then None
      else let n = report_nets r ! net
        in if pad_count n < 2 then None
           else Some (if pad_island_count n \<le> 1 then Complete
              else if list_ex (list_ex is_routing_ref) (islands n) then Partial else NoCopper))"

record completeness =
  multi_pad_nets :: nat
  complete :: nat
  partial :: nat
  no_copper :: nat
  connections_total :: nat
  plane_connections :: nat
  signal_connections :: nat

fun count_nets :: "bool list \<Rightarrow> net_connectivity list \<Rightarrow> completeness \<Rightarrow> completeness option" where
  "count_nets has [] out = Some out"
| "count_nets has (n # ns) out =
     (if pad_count n < 2 then count_nets has ns out
      else let out = out\<lparr>multi_pad_nets := multi_pad_nets out + 1\<rparr>
        in if pad_island_count n \<le> 1 then count_nets has ns (out\<lparr>complete := complete out + 1\<rparr>)
           else (case nth_or_panic has (nc_net n) of None \<Rightarrow> None
             | Some c \<Rightarrow> count_nets has ns
                 (if c then out\<lparr>partial := partial out + 1\<rparr> else out\<lparr>no_copper := no_copper out + 1\<rparr>)))"

definition completeness_of :: "connectivity_report \<Rightarrow> route_board \<Rightarrow> completeness option" where
  "completeness_of r b =
     map_option (\<lambda>out. out\<lparr>connections_total := connection_count r,
         plane_connections := fst (connection_split r b), signal_connections := snd (connection_split r b)\<rparr>)
       (count_nets (net_has_routing_copper b) (report_nets r)
          \<lparr>multi_pad_nets = 0, complete = 0, partial = 0, no_copper = 0, connections_total = 0, plane_connections = 0, signal_connections = 0\<rparr>)"

text \<open>\<open>out[p.index()] = Some(i as u32)\<close>\<close>

fun mark_pads :: "(pad_id \<times> nat) list \<Rightarrow> nat option list \<Rightarrow> nat option list option" where
  "mark_pads [] out = Some out"
| "mark_pads ((p, i) # ps) out = (if p < length out then mark_pads ps (out[p := Some (as_u32 i)]) else None)"

definition island_of_pads :: "connectivity_report \<Rightarrow> route_board \<Rightarrow> nat option list option" where
  "island_of_pads r b =
     mark_pads (concat (map (\<lambda>n. concat (map (\<lambda>(i, il). map (\<lambda>p. (p, i)) (island_pads il)) (enumerate 0 (islands n)))) (report_nets r)))
       (replicate (length (pads b)) None)"

record plane_join =
  pj_net :: netid
  pieces :: "nat list"
  pj_pads :: nat
  plane_islands :: nat
  joined_pads :: nat
  unjoined_pads :: "pad_id list"
  unjoined_smd_pads :: nat
  unjoined_islands :: nat
  unjoined_islands_with_copper :: nat

definition is_zone_ref :: "item_ref \<Rightarrow> bool" where
  "is_zone_ref i \<longleftrightarrow> (case i of Ref_Zone _ \<Rightarrow> True | _ \<Rightarrow> False)"

fun join_pads :: "route_board \<Rightarrow> pad_id list \<Rightarrow> plane_join \<Rightarrow> plane_join option" where
  "join_pads b [] j = Some j"
| "join_pads b (p # ps) j =
     (case nth_or_panic (pads b) p of None \<Rightarrow> None
      | Some pd \<Rightarrow> join_pads b ps (j\<lparr>unjoined_pads := unjoined_pads j @ [p],
          unjoined_smd_pads := unjoined_smd_pads j + (if pad_kind_of pd = Smd then 1 else 0)\<rparr>))"

fun join_islands :: "route_board \<Rightarrow> island list \<Rightarrow> plane_join \<Rightarrow> plane_join option" where
  "join_islands b [] j = Some j"
| "join_islands b (il # ils) j =
     (if list_ex is_zone_ref il
      then join_islands b ils (j\<lparr>plane_islands := plane_islands j + 1, joined_pads := joined_pads j + length (island_pads il)\<rparr>)
      else if \<not> has_pad il then join_islands b ils j
      else Option.bind (join_pads b (island_pads il) (j\<lparr>unjoined_islands := unjoined_islands j + 1,
             unjoined_islands_with_copper := unjoined_islands_with_copper j + (if list_ex is_routing_ref il then 1 else 0)\<rparr>))
           (join_islands b ils))"

fun plane_joins_loop :: "connectivity_report \<Rightarrow> route_board \<Rightarrow> netid list \<Rightarrow> plane_join list option" where
  "plane_joins_loop r b [] = Some []"
| "plane_joins_loop r b (net # ns) =
     (case nth_or_panic (report_nets r) net of None \<Rightarrow> plane_joins_loop r b ns
      | Some n \<Rightarrow> Option.bind (join_islands b (islands n)
            \<lparr>pj_net = net, pieces = map zone_ident (filter (\<lambda>z. filled z \<and> zone_net z = Some net) (zones b)), pj_pads = pad_count n,
             plane_islands = 0, joined_pads = 0, unjoined_pads = [], unjoined_smd_pads = 0, unjoined_islands = 0, unjoined_islands_with_copper = 0\<rparr>)
          (\<lambda>j. map_option (\<lambda>out. j\<lparr>unjoined_pads := sort (unjoined_pads j)\<rparr> # out) (plane_joins_loop r b ns)))"

definition plane_joins :: "connectivity_report \<Rightarrow> route_board \<Rightarrow> plane_join list option" where
  "plane_joins r b = plane_joins_loop r b (plane_nets b)"
section \<open>Touching copper has touching boxes\<close>

text \<open>Shapes of a board: well formed, with no hole outside the box of the outline.\<close>

fun placeable :: "shape \<Rightarrow> bool" where
  "placeable (Polygon p) \<longleftrightarrow> polygon_ok p \<and> list_all (list_all (BBox_contains (Polygon_bbox p))) (holes p)"
| "placeable s \<longleftrightarrow> shape_ok s"

lemma placeable_ok: "placeable s \<Longrightarrow> shape_ok s"
  by (cases s) auto

lemma placeable_box:
  assumes "placeable s"
  shows "\<exists>b r. bbox_ok b \<and> 0 \<le> r \<and> shape_radius s \<le> real_of_int r \<and> Shape_bbox s = BBox_inflate b r \<and>
    (\<forall>x \<in> shape_core s. in_box b x)"
proof (cases "solid s")
  case True
  then show ?thesis using shape_bbox_core placeable_ok assms by blast
next
  case False
  then obtain p where p: "s = Polygon p" by (cases s) auto
  have "list_all point_ok (outline p)" "outline p \<noteq> []" using assms p by (auto simp: polygon_ok_def ring_ok_def)
  note B = from_points_box [OF this]
  have "in_box (Polygon_bbox p) x" if "x \<in> region (rings_edges (Polygon_rings p))" for x
    using that B(2) assms p by (intro rings_in_box [of "Polygon_rings p"]) (auto simp: Polygon_rings_def Polygon_bbox_def list_all_iff)
  then show ?thesis
    using p B(1) by (intro exI [of _ "Polygon_bbox p"] exI [of _ 0]) (auto simp: Polygon_bbox_def BBox_inflate_0)
qed

lemma sat32_less_both: "sat32 u < sat32 v \<Longrightarrow> u < v"
  using sat32_mono [of v u] by (meson not_less)

lemma touches_boxes:
  assumes ok: "placeable a" "placeable b" and t: "touches a b"
  shows "BBox_intersects (Shape_bbox a) (Shape_bbox b)"
proof (rule ccontr)
  assume apart: "\<not> ?thesis"
  note ok' = ok [THEN placeable_ok]
  obtain ba ra where A: "bbox_ok ba" "0 \<le> ra" "shape_radius a \<le> real_of_int ra" "Shape_bbox a = BBox_inflate ba ra"
    "\<And>x. x \<in> shape_core a \<Longrightarrow> in_box ba x" using placeable_box [OF ok(1)] by blast
  obtain bb rb where B: "bbox_ok bb" "0 \<le> rb" "shape_radius b \<le> real_of_int rb" "Shape_bbox b = BBox_inflate bb rb"
    "\<And>x. x \<in> shape_core b \<Longrightarrow> in_box bb x" using placeable_box [OF ok(2)] by blast
  note ne = core_of_exact(3) [OF ok'(1)] core_of_exact(3) [OF ok'(2)]
  let ?k = "shape_radius a + shape_radius b"
  have k: "0 \<le> ?k" "?k \<le> real_of_int (ra + rb)" using shape_radius_nonneg ok' A(3) B(3) by auto
  have left: "?k\<^sup>2 < sqdist (shape_core a) (shape_core b)"
    if "f = fst \<or> f = snd" "lo + ra < hi - rb" "\<And>x. x \<in> shape_core a \<Longrightarrow> f x \<le> real_of_int lo" "\<And>x. x \<in> shape_core b \<Longrightarrow> real_of_int hi \<le> f x" for f lo hi
    using sqdist_sep [OF ne that(1,3,4) k(1)] that(2) k(2) by simp
  have right: "?k\<^sup>2 < sqdist (shape_core a) (shape_core b)"
    if "f = fst \<or> f = snd" "lo + rb < hi - ra" "\<And>x. x \<in> shape_core b \<Longrightarrow> f x \<le> real_of_int lo" "\<And>x. x \<in> shape_core a \<Longrightarrow> real_of_int hi \<le> f x" for f lo hi
    using sqdist_sep [OF ne(2,1) that(1,3,4) k(1)] that(2) k(2) sqdist_commute [of "shape_core a"] by simp
  from apart consider "px (bmax ba) + ra < px (bmin bb) - rb" | "px (bmax bb) + rb < px (bmin ba) - ra"
    | "py (bmax ba) + ra < py (bmin bb) - rb" | "py (bmax bb) + rb < py (bmin ba) - ra"
    unfolding A(4) B(4) BBox_intersects_def inflate_corners [OF A(1,2)] inflate_corners [OF B(1,2)] not_le de_Morgan_conj
    using sat32_less_both by blast
  then have "?k\<^sup>2 < sqdist (shape_core a) (shape_core b)"
  proof cases
    case 1
    show ?thesis by (rule left [of fst, OF _ 1]) (use A(5) B(5) in \<open>auto simp: in_box_def\<close>)
  next
    case 2
    show ?thesis by (rule right [of fst, OF _ 2]) (use A(5) B(5) in \<open>auto simp: in_box_def\<close>)
  next
    case 3
    show ?thesis by (rule left [of snd, OF _ 3]) (use A(5) B(5) in \<open>auto simp: in_box_def\<close>)
  next
    case 4
    show ?thesis by (rule right [of snd, OF _ 4]) (use A(5) B(5) in \<open>auto simp: in_box_def\<close>)
  qed
  then have "?k < sqrt (sqdist (shape_core a) (shape_core b))" using k(1) by (intro real_less_rsqrt)
  then have "cmp (shape_gap a b) (real_of_int 0) = Greater" by (simp add: shape_gap_def cmp_iff)
  then have "gap_cmp a b 0 = Greater"
    using gap_cmp_ge [OF ok', of 0] by (cases "gap_cmp a b 0") (auto simp: in_i64_def less_eq_ordering_def)
  then show False using t by (simp add: touches_def)
qed

lemma touches_commute: "placeable a \<Longrightarrow> placeable b \<Longrightarrow> touches a b \<longleftrightarrow> touches b a"
  using gap_cmp_commute [of a b 0] placeable_ok by (simp add: touches_def in_i64_def)

section \<open>What is collected\<close>

type_synonym board_node = "item_ref \<times> netid option \<times> (layer_id \<times> shape) list"

definition board_nodes :: "arc_pts \<Rightarrow> route_board \<Rightarrow> board_node list" where
  "board_nodes arc b = map pad_node (pads b) @ map track_node (tracks b) @ map (arc_node arc) (arcs b) @
     map via_node (vias b) @ map zone_node (filter filled (zones b))"

lemma add_zones_fold:
  "add_zones zs (st, k) = (fold add_node (map zone_node (filter filled zs)) st, k + length (filter (\<lambda>z. \<not> filled z \<and> zone_net z \<noteq> None) zs))"
  by (induction zs arbitrary: st k) auto

lemma collect_eq:
  "collect arc b = (fold add_node (board_nodes arc b) \<lparr>nodes = [], per_layer = replicate (layer_count b) []\<rparr>,
     length (filter (\<lambda>z. \<not> filled z \<and> zone_net z \<noteq> None) (zones b)))"
  by (simp add: collect_def board_nodes_def add_zones_fold fold_map comp_def)

lemma place_length [simp]: "length (place l n s per) = length per"
  by (simp add: place_def)

lemma fold_place:
  shows "length (fold (\<lambda>(l, s). place l node s) cs per) = length per"
    and "l < length per \<Longrightarrow> set (fold (\<lambda>(l, s). place l node s) cs per ! l) = set (per ! l) \<union> {(node, s) | s. (l, s) \<in> set cs}"
proof (induction cs arbitrary: per)
  case (Cons c cs)
  {
    case 1
    then show ?case using Cons by (cases c) auto
  next
    case 2
    have "set (place l' node s per ! l) = set (per ! l) \<union> {(node, s') | s'. (l, s') = (l', s)}" for l' s
      using 2 by (auto simp: place_def nth_list_update)
    moreover obtain l' s where "c = (l', s)" by fastforce
    ultimately show ?case using 2 Cons(2) [of "place l' node s per"] by auto
  }
qed auto

lemma add_node_fields:
  "nodes (add_node (r, n, cs) st) = nodes st @ [(r, n)]"
  "length (per_layer (add_node (r, n, cs) st)) = length (per_layer st)"
  "l < length (per_layer st) \<Longrightarrow> set (per_layer (add_node (r, n, cs) st) ! l) =
     set (per_layer st ! l) \<union> {(as_u32 (length (nodes st)), s) | s. n \<noteq> None \<and> (l, s) \<in> set cs}"
  using fold_place by (auto simp: add_node_def Let_def)

lemma Collect_less_Suc: "{f j s | j s. j < Suc n \<and> P j s} = {f 0 s | s. P 0 s} \<union> {f (Suc j) s | j s. j < n \<and> P (Suc j) s}"
  by (auto simp: less_Suc_eq_0_disj)

lemma fold_add_node:
  shows "nodes (fold add_node items st) = nodes st @ map (\<lambda>(r, n, _). (r, n)) items"
    and "length (per_layer (fold add_node items st)) = length (per_layer st)"
    and "l < length (per_layer st) \<Longrightarrow> set (per_layer (fold add_node items st) ! l) = set (per_layer st ! l) \<union>
      {(as_u32 (length (nodes st) + j), s) | j s. j < length items \<and> fst (snd (items ! j)) \<noteq> None \<and> (l, s) \<in> set (snd (snd (items ! j)))}"
proof (induction items arbitrary: st)
  case (Cons it items)
  obtain r n cs where it: "it = (r, n, cs)" by (cases it)
  {
    case 1
    then show ?case using Cons it by (simp add: add_node_fields)
  next
    case 2
    then show ?case using Cons it by (simp add: add_node_fields)
  next
    case 3
    let ?st = "add_node it st"
    have l: "l < length (per_layer ?st)" using 3 it by (simp add: add_node_fields)
    show ?case
      unfolding fold_simps Cons(3) [OF l] using 3 add_node_fields(3) [of l st r n cs]
      by (simp add: it Collect_less_Suc add_node_fields(1) Un_assoc)
  }
qed auto

section \<open>What is joined\<close>

lemma conn_eqI: "E \<subseteq> conn F \<Longrightarrow> F \<subseteq> conn E \<Longrightarrow> conn E = conn F"
proof -
  have "conn G \<subseteq> conn H" if "G \<subseteq> conn H" for G H :: "('a \<times> 'a) set"
  proof -
    have "G \<union> G\<inverse> \<subseteq> conn H" using that conn_sym [of _ _ H] by fast
    then have "(G \<union> G\<inverse>)\<^sup>* \<subseteq> (conn H)\<^sup>*" by (rule rtrancl_mono)
    then show ?thesis by (simp add: conn_def)
  qed
  then show "E \<subseteq> conn F \<Longrightarrow> F \<subseteq> conn E \<Longrightarrow> conn E = conn F" by blast
qed

lemma enumerate_image: "set (enumerate 0 xs) = (\<lambda>i. (i, xs ! i)) ` {..<length xs}"
  by (auto simp: in_set_enumerate_eq)

lemma Collect_image: "{f e | e. e \<in> h ` S \<and> P e} = {f (h j) | j. j \<in> S \<and> P (h j)}"
  by blast

lemma layer_index_query:
  assumes law: "rtree_law R contents" and len: "length shapes \<le> 2 ^ 32"
  shows "set (LayerIndex_query R (layer_index R shapes) q) = {j. j < length shapes \<and> BBox_intersects (Shape_bbox (snd (shapes ! j))) q}"
proof -
  let ?es = "map (\<lambda>(i, _, s). \<lparr>entry_id = as_u32 i, entry_bbox = Shape_bbox s\<rparr>) (enumerate 0 shapes)"
  have "set (LayerIndex_query R (layer_index R shapes) q) =
      entry_id ` set_mset (mset (LayerIndex_query_entries R (layer_index R shapes) q))"
    by (simp add: LayerIndex_query_def)
  also have "\<dots> = {entry_id e | e. e \<in> set ?es \<and> BBox_intersects (entry_bbox e) q}"
  proof -
    have "contents (tree (layer_index R shapes)) = mset ?es"
      by (simp add: layer_index_def LayerIndex_bulk_load_def rtree_lawD(1) [OF law])
    then show ?thesis
      unfolding LayerIndex_query_entries_def rtree_lawD(2) [OF law] set_mset_filter aabb_meet_bbox by (simp only: set_mset_mset) blast
  qed
  also have "\<dots> = {as_u32 j | j. j < length shapes \<and> BBox_intersects (Shape_bbox (snd (shapes ! j))) q}"
  proof -
    have "set ?es = (\<lambda>j. \<lparr>entry_id = as_u32 j, entry_bbox = Shape_bbox (snd (shapes ! j))\<rparr>) ` {..<length shapes}"
      unfolding set_map enumerate_image image_image case_prod_unfold by simp
    then show ?thesis
      using Collect_image [of entry_id "\<lambda>j. \<lparr>entry_id = as_u32 j, entry_bbox = Shape_bbox (snd (shapes ! j))\<rparr>" "{..<length shapes}"
          "\<lambda>e. BBox_intersects (entry_bbox e) q"] by (simp only: lessThan_iff index_entry.simps)
  qed
  also have "\<dots> = {j. j < length shapes \<and> BBox_intersects (Shape_bbox (snd (shapes ! j))) q}"
  proof -
    have "as_u32 j = j" if "j < length shapes" for j using that len by simp
    then show ?thesis by (metis (no_types, lifting))
  qed
  finally show ?thesis .
qed

lemma layer_pairs_mem:
  assumes "rtree_law R contents" "length shapes \<le> 2 ^ 32"
  shows "(x, y, t) \<in> set (layer_pairs R ns shapes) \<longleftrightarrow>
    (\<exists>i j s s'. i < j \<and> j < length shapes \<and> shapes ! i = (x, s) \<and> shapes ! j = (y, s') \<and>
       BBox_intersects (Shape_bbox s') (Shape_bbox s) \<and> snd (ns ! y) = snd (ns ! x) \<and> t = touches s s')"
proof -
  let ?q = "\<lambda>i. LayerIndex_query R (layer_index R shapes) (Shape_bbox (snd (shapes ! i)))"
  have "(x, y, t) \<in> set (layer_pairs R ns shapes) \<longleftrightarrow>
    (\<exists>i < length shapes. \<exists>j \<in> set (?q i). i < j \<and> snd (ns ! fst (shapes ! j)) = snd (ns ! fst (shapes ! i)) \<and>
       (x, y, t) = (fst (shapes ! i), fst (shapes ! j), touches (snd (shapes ! i)) (snd (shapes ! j))))"
    unfolding layer_pairs_def Let_def set_concat set_map case_prod_unfold enumerate_image
    by (auto simp: not_le split: if_splits)
  also have "\<dots> \<longleftrightarrow> (\<exists>i j s s'. i < j \<and> j < length shapes \<and> shapes ! i = (x, s) \<and> shapes ! j = (y, s') \<and>
       BBox_intersects (Shape_bbox s') (Shape_bbox s) \<and> snd (ns ! y) = snd (ns ! x) \<and> t = touches s s')"
  proof
    assume "\<exists>i < length shapes. \<exists>j \<in> set (?q i). i < j \<and> snd (ns ! fst (shapes ! j)) = snd (ns ! fst (shapes ! i)) \<and>
       (x, y, t) = (fst (shapes ! i), fst (shapes ! j), touches (snd (shapes ! i)) (snd (shapes ! j)))"
    then obtain i j where "i < j" "j \<in> set (?q i)" "snd (ns ! fst (shapes ! j)) = snd (ns ! fst (shapes ! i))"
       "x = fst (shapes ! i)" "y = fst (shapes ! j)" "t = touches (snd (shapes ! i)) (snd (shapes ! j))" by blast
    then show "\<exists>i j s s'. i < j \<and> j < length shapes \<and> shapes ! i = (x, s) \<and> shapes ! j = (y, s') \<and>
       BBox_intersects (Shape_bbox s') (Shape_bbox s) \<and> snd (ns ! y) = snd (ns ! x) \<and> t = touches s s'"
      unfolding layer_index_query [OF assms]
      by (intro exI [of _ i] exI [of _ j] exI [of _ "snd (shapes ! i)"] exI [of _ "snd (shapes ! j)"]) auto
  next
    assume "\<exists>i j s s'. i < j \<and> j < length shapes \<and> shapes ! i = (x, s) \<and> shapes ! j = (y, s') \<and>
       BBox_intersects (Shape_bbox s') (Shape_bbox s) \<and> snd (ns ! y) = snd (ns ! x) \<and> t = touches s s'"
    then obtain i j s s' where "i < j" "j < length shapes" "shapes ! i = (x, s)" "shapes ! j = (y, s')"
       "BBox_intersects (Shape_bbox s') (Shape_bbox s)" "snd (ns ! y) = snd (ns ! x)" "t = touches s s'" by blast
    then show "\<exists>i < length shapes. \<exists>j \<in> set (?q i). i < j \<and> snd (ns ! fst (shapes ! j)) = snd (ns ! fst (shapes ! i)) \<and>
       (x, y, t) = (fst (shapes ! i), fst (shapes ! j), touches (snd (shapes ! i)) (snd (shapes ! j)))"
      unfolding layer_index_query [OF assms] by (intro exI [of _ i] conjI bexI [of _ j]) auto
  qed
  finally show ?thesis .
qed

definition touching_on :: "(item_ref \<times> netid option) list \<Rightarrow> placed \<Rightarrow> (nat \<times> nat) set" where
  "touching_on ns shapes = {(x, y). snd (ns ! x) = snd (ns ! y) \<and> (\<exists>s s'. (x, s) \<in> set shapes \<and> (y, s') \<in> set shapes \<and> touches s s')}"

lemma layer_pairs_touching:
  assumes law: "rtree_law R contents" "length shapes \<le> 2 ^ 32" and ok: "\<And>x s. (x, s) \<in> set shapes \<Longrightarrow> placeable s"
  shows "{(x, y). (x, y, True) \<in> set (layer_pairs R ns shapes)} \<subseteq> touching_on ns shapes"
    and "touching_on ns shapes \<subseteq> conn {(x, y). (x, y, True) \<in> set (layer_pairs R ns shapes)}"
proof -
  show "{(x, y). (x, y, True) \<in> set (layer_pairs R ns shapes)} \<subseteq> touching_on ns shapes"
    unfolding layer_pairs_mem [OF law] touching_on_def by clarsimp (metis nth_mem order.strict_trans)
  show "touching_on ns shapes \<subseteq> conn {(x, y). (x, y, True) \<in> set (layer_pairs R ns shapes)}"
  proof (rule subrelI)
    fix x y assume "(x, y) \<in> touching_on ns shapes"
    then obtain s s' where xy: "snd (ns ! x) = snd (ns ! y)" "(x, s) \<in> set shapes" "(y, s') \<in> set shapes" "touches s s'"
      by (auto simp: touching_on_def)
    have b: "BBox_intersects (Shape_bbox s) (Shape_bbox s')" "touches s' s"
      using touches_boxes touches_commute ok xy by blast+
    obtain i j where ij: "i < length shapes" "shapes ! i = (x, s)" "j < length shapes" "shapes ! j = (y, s')"
      using xy(2,3) by (metis in_set_conv_nth)
    show "(x, y) \<in> conn {(x, y). (x, y, True) \<in> set (layer_pairs R ns shapes)}"
    proof (cases i j rule: linorder_cases)
      case less
      then have "(x, y, True) \<in> set (layer_pairs R ns shapes)"
        unfolding layer_pairs_mem [OF law] using ij b xy BBox_intersects_commute by metis
      then show ?thesis by (simp add: conn_edge)
    next
      case equal
      then show ?thesis using ij by simp
    next
      case greater
      then have "(y, x, True) \<in> set (layer_pairs R ns shapes)"
        unfolding layer_pairs_mem [OF law] using ij b xy by metis
      then show ?thesis by (simp add: conn_edge conn_sym)
    qed
  qed
qed

lemma join_pairs_append:
  "join_pairs same unite (ps @ qs) u = Option.bind (join_pairs same unite ps u) (join_pairs same unite qs)"
  by (induction same unite ps u rule: join_pairs.induct) (auto simp: Option.bind_assoc split: prod.splits intro!: bind_option_cong)

lemma join_layers_pairs:
  "join_layers R ns ls u = join_pairs UnionFind_same UnionFind_union (concat (map (layer_pairs R ns) ls)) u"
proof (induction ls arbitrary: u)
  case (Cons l ls)
  then have "join_layers R ns ls = join_pairs UnionFind_same UnionFind_union (concat (map (layer_pairs R ns) ls))" by (intro ext)
  then show ?case by (simp add: join_pairs_append)
qed simp

text \<open>Two items touch when they belong to the same net and their copper meets on some layer of the stack.\<close>

definition touching :: "nat \<Rightarrow> board_node list \<Rightarrow> (nat \<times> nat) set" where
  "touching layer_limit items = {(x, y). x < length items \<and> y < length items \<and>
     fst (snd (items ! x)) \<noteq> None \<and> fst (snd (items ! x)) = fst (snd (items ! y)) \<and>
     (\<exists>l s s'. l < layer_limit \<and> (l, s) \<in> set (snd (snd (items ! x))) \<and> (l, s') \<in> set (snd (snd (items ! y))) \<and> touches s s')}"

text \<open>The sizes the 32-bit node and shape numbers can hold, and well-formed copper.\<close>

definition board_fits :: "arc_pts \<Rightarrow> route_board \<Rightarrow> bool" where
  "board_fits arc b \<longleftrightarrow> int (length (board_nodes arc b)) < 2 ^ 32 \<and>
     list_all (\<lambda>shapes. int (length shapes) \<le> 2 ^ 32) (per_layer (fst (collect arc b))) \<and>
     list_all (\<lambda>(_, _, cs). list_all (\<lambda>(_, s). placeable s) cs) (board_nodes arc b)"

lemma board_fitsD:
  assumes "board_fits arc b" "st = fst (collect arc b)"
  shows "length (board_nodes arc b) < 2 ^ 32" "\<And>l. l < length (per_layer st) \<Longrightarrow> length (per_layer st ! l) \<le> 2 ^ 32"
    and "\<And>j l s. j < length (board_nodes arc b) \<Longrightarrow> (l, s) \<in> set (snd (snd (board_nodes arc b ! j))) \<Longrightarrow> placeable s"
proof -
  show "length (board_nodes arc b) < 2 ^ 32" using assms(1) by (simp add: board_fits_def)
  show "length (per_layer st ! l) \<le> 2 ^ 32" if "l < length (per_layer st)" for l
    using assms that by (simp add: board_fits_def list_all_length)
  show "placeable s" if "j < length (board_nodes arc b)" "(l, s) \<in> set (snd (snd (board_nodes arc b ! j)))" for j l s
  proof -
    have "board_nodes arc b ! j \<in> set (board_nodes arc b)" using that(1) by simp
    then show ?thesis using assms(1) that(2) unfolding board_fits_def list_all_iff case_prod_unfold by force
  qed
qed

lemma Collect_id_fst:
  assumes "\<And>j. j < n \<Longrightarrow> f j = j"
  shows "{(f j, s) | j s. j < n \<and> P j s} = {(j, s) | j s. j < n \<and> P j s}"
  by (rule Collect_cong) (metis assms)

lemma collected:
  assumes "board_fits arc b" "st = fst (collect arc b)"
  shows "nodes st = map (\<lambda>(r, n, _). (r, n)) (board_nodes arc b)" "length (per_layer st) = layer_count b"
    and "l < layer_count b \<Longrightarrow> set (per_layer st ! l) = {(j, s) | j s. j < length (board_nodes arc b) \<and>
      fst (snd (board_nodes arc b ! j)) \<noteq> None \<and> (l, s) \<in> set (snd (snd (board_nodes arc b ! j)))}"
proof -
  let ?items = "board_nodes arc b" and ?st0 = "\<lparr>nodes = [], per_layer = replicate (layer_count b) []\<rparr>"
  have st: "st = fold add_node ?items ?st0" using assms(2) by (simp add: collect_eq)
  show "nodes st = map (\<lambda>(r, n, _). (r, n)) ?items" "length (per_layer st) = layer_count b"
    unfolding st by (simp_all add: fold_add_node)
  assume l: "l < layer_count b"
  have "as_u32 j = j" if "j < length ?items" for j using board_fitsD(1) [OF assms] that by simp
  then show "set (per_layer st ! l) = {(j, s) | j s. j < length ?items \<and> fst (snd (?items ! j)) \<noteq> None \<and> (l, s) \<in> set (snd (snd (?items ! j)))}"
    unfolding st using l fold_add_node(3) [of l ?st0 ?items] by (simp add: Collect_id_fst)
qed

lemma join_ok:
  assumes law: "rtree_law R contents" and fit: "board_fits arc b" and st: "st = fst (collect arc b)"
  shows "\<exists>u. join_layers R (nodes st) (per_layer st) (UnionFind_new (length (nodes st))) = Some u \<and> uf_ok u \<and>
    UnionFind_len u = length (board_nodes arc b) \<and>
    (\<forall>x y. x < length (board_nodes arc b) \<and> y < length (board_nodes arc b) \<longrightarrow>
      (uf_root (parent u) x = uf_root (parent u) y \<longleftrightarrow> (x, y) \<in> conn (touching (layer_count b) (board_nodes arc b))))"
proof -
  let ?items = "board_nodes arc b" and ?ns = "nodes st"
  let ?ps = "concat (map (layer_pairs R ?ns) (per_layer st))"
  let ?n = "length ?items" and ?T = "touching (layer_count b) ?items"
  note C = collected [OF fit st] and F = board_fitsD [OF fit st]
  have len: "length ?ns = ?n" using C(1) by simp
  have net: "snd (?ns ! x) = fst (snd (?items ! x))" if "x < ?n" for x using that C(1) by (simp add: case_prod_unfold)
  have layer: "shapes \<in> set (per_layer st) \<longleftrightarrow> (\<exists>l < layer_count b. shapes = per_layer st ! l)" for shapes
    using C(2) by (auto simp: in_set_conv_nth)
  have small: "length shapes \<le> 2 ^ 32" if "shapes \<in> set (per_layer st)" for shapes using that layer C(2) F(2) by auto
  have ok: "placeable s" "x < ?n" if "shapes \<in> set (per_layer st)" "(x, s) \<in> set shapes" for shapes x s
    using that layer C(3) F(3) by auto
  have touch: "(\<Union>shapes \<in> set (per_layer st). touching_on ?ns shapes) = ?T"
  proof -
    have "(x, y) \<in> touching_on ?ns (per_layer st ! l) \<longleftrightarrow> x < ?n \<and> y < ?n \<and> fst (snd (?items ! x)) \<noteq> None \<and>
        fst (snd (?items ! x)) = fst (snd (?items ! y)) \<and> (\<exists>s s'. (l, s) \<in> set (snd (snd (?items ! x))) \<and> (l, s') \<in> set (snd (snd (?items ! y))) \<and> touches s s')"
      if "l < layer_count b" for x y l
      using net [of x] net [of y] unfolding touching_on_def C(3) [OF that] by auto
    moreover have "set (per_layer st) = (\<lambda>l. per_layer st ! l) ` {..<layer_count b}" using layer by auto
    ultimately show ?thesis unfolding touching_def by (auto cong: conj_cong) blast
  qed
  let ?E = "{(x, y). (x, y, True) \<in> set ?ps}"
  have E: "?E = (\<Union>shapes \<in> set (per_layer st). {(x, y). (x, y, True) \<in> set (layer_pairs R ?ns shapes)})" by auto
  have "?E \<subseteq> ?T" unfolding E touch [symmetric] by (rule UN_mono [OF order.refl]) (rule layer_pairs_touching(1) [OF law small ok(1)])
  moreover have "?T \<subseteq> conn ?E"
  proof -
    have "touching_on ?ns shapes \<subseteq> conn ?E" if "shapes \<in> set (per_layer st)" for shapes
    proof -
      have "{(x, y). (x, y, True) \<in> set (layer_pairs R ?ns shapes)} \<subseteq> ?E" using that by auto
      from order.trans [OF layer_pairs_touching(2) [OF law small [OF that] ok(1) [OF that]] conn_mono [OF this]] show ?thesis .
    qed
    then show ?thesis unfolding touch [symmetric] by (rule UN_least)
  qed
  moreover have "?T \<subseteq> conn ?T" by (auto intro: conn_edge)
  ultimately have conn: "conn ?E = conn ?T" by (intro conn_eqI) (rule order.trans)
  have "\<forall>(x, y, t) \<in> set ?ps. x < ?n \<and> y < ?n"
  proof (clarsimp, intro conjI)
    fix x y t shapes assume s: "shapes \<in> set (per_layer st)" "(x, y, t) \<in> set (layer_pairs R ?ns shapes)"
    then obtain s1 s2 where "(x, s1) \<in> set shapes" "(y, s2) \<in> set shapes"
      unfolding layer_pairs_mem [OF law small [OF s(1)]] by (metis nth_mem order.strict_trans)
    then show "x < ?n" "y < ?n" using ok(2) [OF s(1)] by blast+
  qed
  from uf.join_new [OF F(1) this] show ?thesis unfolding join_layers_pairs len conn by blast
qed

section \<open>What is grouped\<close>

fun group_all :: "(nat \<times> item_ref) list \<Rightarrow> groups \<Rightarrow> groups" where
  "group_all [] g = g"
| "group_all ((k, x) # kv) g = group_all kv (push_group k x g)"

lemma group_all_append [simp]: "group_all (kv @ kv') g = group_all kv' (group_all kv g)"
  by (induction kv g rule: group_all.induct) auto

lemma push_group_keys: "set (map fst (push_group k x g)) = insert k (set (map fst g))"
  by (induction k x g rule: push_group.induct) auto

lemma push_group_sorted: "sorted_wrt (<) (map fst g) \<Longrightarrow> sorted_wrt (<) (map fst (push_group k x g))"
proof (induction k x g rule: push_group.induct)
  case (2 k x k' xs g)
  then show ?case using push_group_keys [of k x g] by (auto simp del: list.set_map)
qed simp

lemma push_group_lookup:
  "sorted_wrt (<) (map fst g) \<Longrightarrow> map_of (push_group k x g) = (map_of g)(k \<mapsto> (case map_of g k of None \<Rightarrow> [x] | Some xs \<Rightarrow> xs @ [x]))"
proof (induction k x g rule: push_group.induct)
  case (2 k x k' xs g)
  have "map_of g k = None" if "k < k'" using 2(2) that by (auto simp: map_of_eq_None_iff)
  then show ?case using 2 by (auto simp: fun_eq_iff)
qed (auto simp: fun_eq_iff)

lemma push_group_mset: "mset (concat (map snd (push_group k x g))) = add_mset x (mset (concat (map snd g)))"
  by (induction k x g rule: push_group.induct) auto

lemma group_all_lookup:
  "sorted_wrt (<) (map fst (group_all kv [])) \<and>
   map_of (group_all kv []) k = (if filter (\<lambda>p. fst p = k) kv = [] then None else Some (map snd (filter (\<lambda>p. fst p = k) kv)))"
proof (induction kv arbitrary: k rule: rev_induct)
  case (snoc p kv)
  obtain k' x where p: "p = (k', x)" by fastforce
  have s: "sorted_wrt (<) (map fst (group_all kv []))" using snoc by blast
  show ?case using snoc [of k'] snoc [of k] push_group_sorted [OF s] by (auto simp: p push_group_lookup [OF s])
qed simp

lemma group_all_set:
  "set (group_all kv []) = {(k, map snd (filter (\<lambda>p. fst p = k) kv)) | k. k \<in> fst ` set kv}"
proof -
  have "distinct (map fst (group_all kv []))" using group_all_lookup [of kv] by (simp add: strict_sorted_iff)
  then have "(k, xs) \<in> set (group_all kv []) \<longleftrightarrow> k \<in> fst ` set kv \<and> xs = map snd (filter (\<lambda>p. fst p = k) kv)" for k xs
    using group_all_lookup [of kv k] map_of_eq_Some_iff [of "group_all kv []" k xs] by (force simp: filter_empty_conv split: if_splits)
  then show ?thesis by auto
qed

lemma group_all_mset: "mset (concat (map snd (group_all kv g))) = mset (concat (map snd g)) + mset (map snd kv)"
  by (induction kv arbitrary: g) (auto simp: push_group_mset)

definition keyed :: "(nat \<Rightarrow> nat) \<Rightarrow> netid \<Rightarrow> nat \<Rightarrow> (item_ref \<times> netid option) list \<Rightarrow> (nat \<times> item_ref) list" where
  "keyed rt n i ns = map (\<lambda>(j, item, _). (rt j, item)) (filter (\<lambda>(_, _, net). net = Some n) (enumerate i ns))"

lemma keyed_simps [simp]:
  "keyed rt n i [] = []"
  "keyed rt n i ((item, net) # ns) = (if net = Some n then [(rt i, item)] else []) @ keyed rt n (Suc i) ns"
  by (simp_all add: keyed_def)

lemma group_nodes_ok:
  assumes "uf_ok u" "i + length ns \<le> UnionFind_len u" "UnionFind_len u \<le> 2 ^ 32" "length pc = length by_net"
    and "\<And>y. y < UnionFind_len u \<Longrightarrow> uf_root (parent u) y = rt y"
  shows "\<exists>by' pc'. group_nodes i ns u (by_net, pc) = Some (by', pc') \<and> length by' = length by_net \<and> length pc' = length by_net \<and>
    (\<forall>n < length by_net. by' ! n = group_all (keyed rt n i ns) (by_net ! n) \<and>
       pc' ! n = pc ! n + length (filter (\<lambda>(item, net). net = Some n \<and> is_pad_ref item) ns))"
  using assms
proof (induction ns arbitrary: i u by_net pc)
  case (Cons q ns)
  obtain item net where q: "q = (item, net)" by fastforce
  have less: "Suc i + length ns \<le> UnionFind_len u" "i < 2 ^ 32" "i < UnionFind_len u" using Cons.prems(2,3) by auto
  show ?case
  proof (cases "\<exists>n. net = Some n \<and> n < length by_net")
    case False
    have "group_nodes i (q # ns) u (by_net, pc) = group_nodes (Suc i) ns u (by_net, pc)"
      using False by (auto simp: q not_less split: option.splits)
    moreover have "keyed rt n i (q # ns) = keyed rt n (Suc i) ns" "length (filter (\<lambda>(item, net). net = Some n \<and> is_pad_ref item) (q # ns)) =
        length (filter (\<lambda>(item, net). net = Some n \<and> is_pad_ref item) ns)" if "n < length by_net" for n using False that q by auto
    moreover obtain by' pc' where "group_nodes (Suc i) ns u (by_net, pc) = Some (by', pc')" "length by' = length by_net" "length pc' = length by_net"
        "\<forall>n < length by_net. by' ! n = group_all (keyed rt n (Suc i) ns) (by_net ! n) \<and>
          pc' ! n = pc ! n + length (filter (\<lambda>(item, net). net = Some n \<and> is_pad_ref item) ns)"
      using Cons.IH [OF Cons.prems(1) less(1) Cons.prems(3-5)] by blast
    ultimately show ?thesis by (intro exI [of _ by'] exI [of _ pc'] conjI allI impI) simp_all
  next
    case True
    then obtain n where n: "net = Some n" "n < length by_net" by blast
    obtain u' where u': "UnionFind_find u i = Some (u', rt i)" "uf_ok u'" "UnionFind_len u' = UnionFind_len u"
        "\<And>y. y < UnionFind_len u \<Longrightarrow> uf_root (parent u') y = rt y"
      using find_ok [OF Cons.prems(1) less(3)] Cons.prems(5) less(3) by auto
    let ?by = "by_net[n := push_group (rt i) item (by_net ! n)]"
    let ?pc = "if is_pad_ref item then pc[n := pc ! n + 1] else pc"
    have "group_nodes i (q # ns) u (by_net, pc) = group_nodes (Suc i) ns u' (?by, ?pc)"
      using n u'(1) less(2) by (simp add: q)
    moreover have "?by ! m = group_all (if net = Some m then [(rt i, item)] else []) (by_net ! m)" if "m < length by_net" for m
      using that n by auto
    moreover have "?pc ! m = pc ! m + (if net = Some m \<and> is_pad_ref item then 1 else 0)" if "m < length by_net" for m
      using that n Cons.prems(4) by auto
    ultimately show ?thesis
      using Cons.IH [OF u'(2), of "Suc i" ?pc ?by] u'(3,4) less(1) Cons.prems(3,4) by (auto simp: q)
  qed
qed simp

section \<open>What is reported\<close>

definition own :: "board_node list \<Rightarrow> netid \<Rightarrow> nat list" where
  "own items n = filter (\<lambda>x. fst (snd (items ! x)) = Some n) [0..<length items]"

text \<open>The component of an item, as the sorted list of its members.\<close>

definition component :: "nat \<Rightarrow> board_node list \<Rightarrow> nat \<Rightarrow> item_ref list" where
  "component layer_limit items x =
     sort (map (\<lambda>y. fst (items ! y)) (filter (\<lambda>y. (x, y) \<in> conn (touching layer_limit items)) [0..<length items]))"

lemma touching_net:
  assumes "(x, y) \<in> conn (touching k items)" "x < length items" "fst (snd (items ! x)) = Some n"
  shows "y < length items \<and> fst (snd (items ! y)) = Some n"
proof -
  have "(x, y) \<in> (touching k items \<union> (touching k items)\<inverse>)\<^sup>*" using assms(1) by (simp add: conn_def)
  then show ?thesis by (induction rule: rtrancl_induct) (use assms(2,3) in \<open>auto simp: touching_def\<close>)
qed

lemma enumerate_nth: "enumerate 0 xs = map (\<lambda>j. (j, xs ! j)) [0..<length xs]"
  by (rule nth_equalityI) (auto simp: nth_enumerate_eq)

lemma keyed_items:
  "keyed rt n 0 (map (\<lambda>(r, n, _). (r, n)) items) = map (\<lambda>j. (rt j, fst (items ! j))) (own items n)"
proof -
  have "filter (\<lambda>j. snd (map (\<lambda>(r, n, _). (r, n)) items ! j) = Some n) [0..<length items] = own items n"
    unfolding own_def by (rule filter_cong) (auto simp: case_prod_unfold)
  moreover have "map (\<lambda>j. (rt j, fst (map (\<lambda>(r, n, _). (r, n)) items ! j))) (own items n) = map (\<lambda>j. (rt j, fst (items ! j))) (own items n)"
    by (auto simp: own_def case_prod_unfold)
  ultimately show ?thesis
    unfolding keyed_def enumerate_nth by (simp add: filter_map comp_def case_prod_unfold)
qed

lemma mset_concat_sort: "mset (concat (sort xss)) = mset (concat xss)"
  by (simp add: mset_concat flip: sum_mset_sum_list)

lemma mset_concat_map_sort: "mset (concat (map sort xss)) = mset (concat xss)"
  by (induction xss) auto

lemma islands_of_groups:
  assumes rt: "\<And>x y. x < length items \<Longrightarrow> y < length items \<Longrightarrow> rt x = rt y \<longleftrightarrow> (x, y) \<in> conn (touching k items)"
    and g_def: "g = group_all (map (\<lambda>j. (rt j, fst (items ! j))) (own items n)) []"
  shows "set (islands (net_islands m g c)) = component k items ` set (own items n)"
    and "sorted (islands (net_islands m g c))"
    and "mset (concat (islands (net_islands m g c))) = mset (map (\<lambda>x. fst (items ! x)) (own items n))"
proof -
  let ?f = "\<lambda>x. sort (map (\<lambda>y. fst (items ! y)) (filter (\<lambda>y. rt y = rt x) (own items n)))"
  have comp: "?f x = component k items x" if x: "x \<in> set (own items n)" for x
  proof -
    have "filter (\<lambda>y. rt y = rt x) (own items n) = filter (\<lambda>y. (x, y) \<in> conn (touching k items)) [0..<length items]"
    proof -
      have "rt y = rt x \<longleftrightarrow> (x, y) \<in> conn (touching k items)" if "y < length items" for y
        using rt [of x y] x that by (auto simp: own_def)
      then show ?thesis
        unfolding own_def filter_filter using x touching_net [of x _ k items n] by (intro filter_cong) (auto simp: own_def)
    qed
    then show ?thesis by (simp add: component_def)
  qed
  have i: "islands (net_islands m g c) = sort (map (sort \<circ> snd) g)" by (simp add: net_islands_def case_prod_unfold comp_def)
  have "set g = (\<lambda>x. (rt x, map (\<lambda>y. fst (items ! y)) (filter (\<lambda>y. rt y = rt x) (own items n)))) ` set (own items n)"
    unfolding g_def group_all_set set_map image_image fst_conv by (auto simp: filter_map comp_def)
  then show "set (islands (net_islands m g c)) = component k items ` set (own items n)"
    unfolding i using comp by (simp add: image_image)
  show "sorted (islands (net_islands m g c))" by (simp add: i)
  have "mset (concat (islands (net_islands m g c))) = mset (concat (map snd g))"
    unfolding i mset_concat_sort by (metis map_map mset_concat_map_sort)
  then show "mset (concat (islands (net_islands m g c))) = mset (map (\<lambda>x. fst (items ! x)) (own items n))"
    by (simp add: g_def group_all_mset comp_def del: mset_map)
qed

text \<open>What \<open>build\<close> returns, net by net.\<close>

definition report_for :: "arc_pts \<Rightarrow> route_board \<Rightarrow> connectivity_report \<Rightarrow> bool" where
  "report_for arc b r \<longleftrightarrow> length (report_nets r) = length (nets b) \<and>
     unfilled_zones_skipped r = length (filter (\<lambda>z. \<not> filled z \<and> zone_net z \<noteq> None) (zones b)) \<and>
     (\<forall>n < length (nets b). let items = board_nodes arc b; net = report_nets r ! n in
        nc_net net = n \<and>
        set (islands net) = component (layer_count b) items ` set (own items n) \<and> sorted (islands net) \<and>
        mset (concat (islands net)) = mset (map (\<lambda>x. fst (items ! x)) (own items n)) \<and>
        pad_count net = length (filter (\<lambda>p. pad_net p = Some n) (pads b)))"

lemma pads_counted:
  "length (filter (\<lambda>(item, net). net = Some n \<and> is_pad_ref item) (map (\<lambda>(r, n, _). (r, n)) (board_nodes arc b))) =
     length (filter (\<lambda>p. pad_net p = Some n) (pads b))"
  by (simp add: board_nodes_def filter_map comp_def pad_node_def track_node_def arc_node_def via_node_def zone_node_def is_pad_ref_def)

lemma build_spec:
  assumes law: "rtree_law R contents" and fit: "board_fits arc b" and nets: "length (nets b) \<le> 2 ^ 32"
  shows "\<exists>r. build R arc b = Some r \<and> report_for arc b r"
proof -
  let ?items = "board_nodes arc b" and ?nn = "length (nets b)"
  define st where st: "st = fst (collect arc b)"
  have c: "collect arc b = (st, length (filter (\<lambda>z. \<not> filled z \<and> zone_net z \<noteq> None) (zones b)))" by (simp add: st collect_eq)
  note C = collected [OF fit st]
  obtain u where u: "join_layers R (nodes st) (per_layer st) (UnionFind_new (length (nodes st))) = Some u" "uf_ok u" "UnionFind_len u = length ?items"
      "\<And>x y. x < length ?items \<Longrightarrow> y < length ?items \<Longrightarrow> uf_root (parent u) x = uf_root (parent u) y \<longleftrightarrow> (x, y) \<in> conn (touching (layer_count b) ?items)"
    using join_ok [OF law fit st] by blast
  let ?rt = "uf_root (parent u)"
  obtain by' pc' where g: "group_nodes 0 (nodes st) u (replicate ?nn [], replicate ?nn 0) = Some (by', pc')" "length by' = ?nn"
      "\<And>n. n < ?nn \<Longrightarrow> by' ! n = group_all (keyed ?rt n 0 (nodes st)) [] \<and> pc' ! n = length (filter (\<lambda>(item, net). net = Some n \<and> is_pad_ref item) (nodes st))"
    using group_nodes_ok [OF u(2), of 0 "nodes st" "replicate ?nn 0" "replicate ?nn []" ?rt] u(3) C(1) board_fitsD(1) [OF fit st] by auto
  let ?r = "\<lparr>report_nets = map (\<lambda>(n, g). net_islands n g (pc' ! n)) (enumerate 0 by'),
     unfilled_zones_skipped = length (filter (\<lambda>z. \<not> filled z \<and> zone_net z \<noteq> None) (zones b))\<rparr>"
  have "build R arc b = Some ?r" using u(1) g(1) by (simp add: build_def c)
  moreover have "report_for arc b ?r"
    unfolding report_for_def Let_def
  proof (intro conjI allI impI)
    fix n assume n: "n < ?nn"
    have r: "report_nets ?r ! n = net_islands n (group_all (map (\<lambda>j. (?rt j, fst (?items ! j))) (own ?items n)) []) (pc' ! n)"
    proof -
      have "by' ! n = group_all (map (\<lambda>j. (?rt j, fst (?items ! j))) (own ?items n)) []"
        using g(3) [OF n] unfolding C(1) keyed_items by blast
      then show ?thesis using n g(2) by (simp add: nth_enumerate_eq)
    qed
    note I = islands_of_groups [of ?items ?rt, OF u(4) refl]
    show "set (islands (report_nets ?r ! n)) = component (layer_count b) ?items ` set (own ?items n)" unfolding r by (rule I(1))
    show "sorted (islands (report_nets ?r ! n))" unfolding r by (rule I(2))
    show "mset (concat (islands (report_nets ?r ! n))) = mset (map (\<lambda>x. fst (?items ! x)) (own ?items n))" unfolding r by (rule I(3))
    show "nc_net (report_nets ?r ! n) = n" unfolding r using n nets by (simp add: net_islands_def)
    show "pad_count (report_nets ?r ! n) = length (filter (\<lambda>p. pad_net p = Some n) (pads b))"
      unfolding r using g(3) [OF n] C(1) pads_counted by (simp add: net_islands_def)
  qed (use g(2) in simp_all)
  ultimately show ?thesis by blast
qed

lemma report_forD:
  assumes "report_for arc b r" "n < length (nets b)"
  shows "nc_net (report_nets r ! n) = n"
    and "set (islands (report_nets r ! n)) = component (layer_count b) (board_nodes arc b) ` set (own (board_nodes arc b) n)"
    and "mset (concat (islands (report_nets r ! n))) = mset (map (\<lambda>x. fst (board_nodes arc b ! x)) (own (board_nodes arc b) n))"
    and "pad_count (report_nets r ! n) = length (filter (\<lambda>p. pad_net p = Some n) (pads b))"
  using assms unfolding report_for_def Let_def by blast+

section \<open>Islands of well-formed boards\<close>

text \<open>On a validated board every item is referred to once.\<close>

lemma board_refs_distinct:
  assumes "board_wf b"
  shows "distinct (map fst (board_nodes arc b))"
proof -
  have "map fst (board_nodes arc b) = map Ref_Pad (map pad_ident (pads b)) @ map Ref_Track (map track_ident (tracks b)) @
      map Ref_Arc (map arc_ident (arcs b)) @ map Ref_Via (map via_ident (vias b)) @ map Ref_Zone (map zone_ident (filter filled (zones b)))"
    by (simp add: board_nodes_def pad_node_def track_node_def arc_node_def via_node_def zone_node_def comp_def)
  moreover have "distinct (map zone_ident (filter filled (zones b)))"
    using assms distinct_upt [of 0 "length (zones b)"] by (intro distinct_map_filter) (simp only: board_wf_def)
  moreover have "distinct (map c [0..<n])" if "inj c" for c :: "nat \<Rightarrow> item_ref" and n
    using that by (simp add: distinct_map inj_on_def)
  ultimately show ?thesis using assms by (auto simp: board_wf_def distinct_map inj_on_def simp del: map_map)
qed

lemma component_mem:
  "y < length items \<Longrightarrow> (x, y) \<in> conn (touching k items) \<Longrightarrow> fst (items ! y) \<in> set (component k items x)"
  by (auto simp: component_def)

lemma component_memD:
  assumes "distinct (map fst items)" "y < length items" "fst (items ! y) \<in> set (component k items x)"
  shows "(x, y) \<in> conn (touching k items)"
proof -
  obtain z where z: "z < length items" "fst (items ! z) = fst (items ! y)" "(x, z) \<in> conn (touching k items)"
    using assms(3) by (auto simp: component_def)
  then have "z = y" using assms(1,2) by (auto simp: distinct_conv_nth)
  then show ?thesis using z by simp
qed

lemma component_eq:
  assumes "distinct (map fst items)" "x < length items" "y < length items"
  shows "component k items x = component k items y \<longleftrightarrow> (x, y) \<in> conn (touching k items)"
proof
  assume "component k items x = component k items y"
  then show "(x, y) \<in> conn (touching k items)"
    using component_mem [of y items y k] component_memD [OF assms(1,3)] assms(3) by (metis conn_refl)
next
  assume xy: "(x, y) \<in> conn (touching k items)"
  have "filter (\<lambda>z. (x, z) \<in> conn (touching k items)) [0..<length items] = filter (\<lambda>z. (y, z) \<in> conn (touching k items)) [0..<length items]"
    by (rule filter_cong) (use xy conn_sym [OF xy] in \<open>auto intro: conn_trans\<close>)
  then show "component k items x = component k items y" by (simp add: component_def)
qed

lemma in_own [simp]: "x \<in> set (own items n) \<longleftrightarrow> x < length items \<and> fst (snd (items ! x)) = Some n"
  by (auto simp: own_def)

lemma same_island:
  assumes r: "report_for arc b r" and wf: "board_wf b" and n: "n < length (nets b)"
    and x: "x \<in> set (own (board_nodes arc b) n)" and y: "y \<in> set (own (board_nodes arc b) n)"
  shows "(\<exists>il \<in> set (islands (report_nets r ! n)). fst (board_nodes arc b ! x) \<in> set il \<and> fst (board_nodes arc b ! y) \<in> set il) \<longleftrightarrow>
    (x, y) \<in> conn (touching (layer_count b) (board_nodes arc b))" (is "?same \<longleftrightarrow> ?conn")
proof -
  let ?items = "board_nodes arc b" and ?k = "layer_count b"
  note d = board_refs_distinct [OF wf, of arc]
  show ?thesis
  proof
    assume ?same
    then obtain z where "z \<in> set (own ?items n)" "fst (?items ! x) \<in> set (component ?k ?items z)" "fst (?items ! y) \<in> set (component ?k ?items z)"
      using report_forD(2) [OF r n] by auto
    then have "(z, x) \<in> conn (touching ?k ?items)" "(z, y) \<in> conn (touching ?k ?items)"
      using x y component_memD [OF d] by auto
    from conn_trans [OF conn_sym [OF this(1)] this(2)] show ?conn .
  next
    assume ?conn
    then have "fst (?items ! x) \<in> set (component ?k ?items x)" "fst (?items ! y) \<in> set (component ?k ?items x)"
      using x y by (auto intro!: component_mem)
    then show ?same using x report_forD(2) [OF r n] by blast
  qed
qed

text \<open>Pads sort first, so the first member tells whether an island has a pad.\<close>

lemma has_pad_sorted: "sorted il \<Longrightarrow> has_pad il \<longleftrightarrow> (\<exists>i \<in> set il. is_pad_ref i)"
proof (cases il)
  case (Cons i js)
  assume s: "sorted il"
  have "is_pad_ref i" if "j \<in> set js" "is_pad_ref j" for j
  proof -
    have "item_rank i \<le> item_rank j" using s Cons that(1) by (simp add: less_eq_item_ref_def)
    then show ?thesis using that(2) by (cases i; cases j) (auto simp: is_pad_ref_def item_rank_def)
  qed
  moreover have "has_pad il \<longleftrightarrow> is_pad_ref i" by (cases i) (auto simp: has_pad_def Cons is_pad_ref_def)
  ultimately show ?thesis using Cons by auto
qed (simp add: has_pad_def)

lemma distinct_of_concat: "distinct (concat xss) \<Longrightarrow> [] \<notin> set xss \<Longrightarrow> distinct xss"
proof (induction xss)
  case (Cons xs xss)
  then have "xs \<notin> set xss" by (auto dest: in_set_conv_decomp [THEN iffD1] simp: neq_Nil_conv)
  then show ?case using Cons by auto
qed simp

lemma component_nonempty: "x < length items \<Longrightarrow> component k items x \<noteq> []"
  using component_mem [of x items x k] by auto

lemma islands_distinct:
  assumes r: "report_for arc b r" and wf: "board_wf b" and n: "n < length (nets b)"
  shows "distinct (islands (report_nets r ! n))"
proof (rule distinct_of_concat)
  let ?items = "board_nodes arc b"
  have "distinct (map (\<lambda>x. fst (?items ! x)) (own ?items n))"
  proof -
    have "inj_on (\<lambda>x. fst (?items ! x)) {..<length ?items}"
      using board_refs_distinct [OF wf, of arc] by (auto simp: distinct_conv_nth inj_on_def)
    moreover have "distinct (own ?items n)" by (simp add: own_def)
    ultimately show ?thesis unfolding distinct_map by (intro conjI) (auto elim: inj_on_subset simp: own_def)
  qed
  then show "distinct (concat (islands (report_nets r ! n)))" by (simp only: mset_eq_imp_distinct_iff [OF report_forD(3) [OF r n]])
  show "[] \<notin> set (islands (report_nets r ! n))" unfolding report_forD(2) [OF r n] using component_nonempty [of _ ?items "layer_count b"] by (metis imageE in_own)
qed

text \<open>The pad islands of a net are the components that hold its pads.\<close>

definition pad_nodes :: "route_board \<Rightarrow> netid \<Rightarrow> nat set" where
  "pad_nodes b n = {p. p < length (pads b) \<and> pad_net (pads b ! p) = Some n}"

lemma pad_node_nth: "p < length (pads b) \<Longrightarrow> board_nodes arc b ! p = pad_node (pads b ! p)"
  by (simp add: board_nodes_def nth_append)

lemma pad_nodes_own: "x \<in> pad_nodes b n \<longleftrightarrow> x \<in> set (own (board_nodes arc b) n) \<and> is_pad_ref (fst (board_nodes arc b ! x))"
proof -
  have len: "length (pads b) \<le> length (board_nodes arc b)" by (simp add: board_nodes_def)
  have "\<not> is_pad_ref (fst (board_nodes arc b ! x))" if x: "length (pads b) \<le> x" "x < length (board_nodes arc b)"
  proof -
    let ?rest = "map track_node (tracks b) @ map (arc_node arc) (arcs b) @ map via_node (vias b) @ map zone_node (filter filled (zones b))"
    have "board_nodes arc b ! x = ?rest ! (x - length (pads b))" "x - length (pads b) < length ?rest" using x by (auto simp: board_nodes_def nth_append)
    then have "board_nodes arc b ! x \<in> set ?rest" using nth_mem by metis
    then show ?thesis by (auto simp: track_node_def arc_node_def via_node_def zone_node_def is_pad_ref_def)
  qed
  then show ?thesis
    using pad_node_nth [of x b arc] len by (cases "x < length (pads b)") (auto simp: pad_nodes_def pad_node_def is_pad_ref_def)
qed

lemma pad_islands:
  assumes r: "report_for arc b r" and wf: "board_wf b" and n: "n < length (nets b)"
  shows "set (filter has_pad (islands (report_nets r ! n))) = component (layer_count b) (board_nodes arc b) ` pad_nodes b n"
    and "pad_island_count (report_nets r ! n) = card (component (layer_count b) (board_nodes arc b) ` pad_nodes b n)"
proof -
  let ?items = "board_nodes arc b" and ?k = "layer_count b"
  note d = board_refs_distinct [OF wf, of arc]
  have pad: "has_pad (component ?k ?items x) \<longleftrightarrow> (\<exists>p \<in> pad_nodes b n. (x, p) \<in> conn (touching ?k ?items))" if "x \<in> set (own ?items n)" for x
  proof -
    have "sorted (component ?k ?items x)" by (simp add: component_def)
    then have "has_pad (component ?k ?items x) \<longleftrightarrow> (\<exists>y < length ?items. (x, y) \<in> conn (touching ?k ?items) \<and> is_pad_ref (fst (?items ! y)))"
      by (subst has_pad_sorted) (auto simp: component_def)
    then show ?thesis using touching_net [of x _ ?k ?items n] that unfolding Bex_def pad_nodes_own [where arc = arc] by auto
  qed
  have eq: "component ?k ?items x = component ?k ?items p" if "x \<in> set (own ?items n)" "p \<in> pad_nodes b n" "(x, p) \<in> conn (touching ?k ?items)" for x p
    using component_eq [OF d] that pad_nodes_own [of p b n arc] by auto
  have "{il \<in> component ?k ?items ` set (own ?items n). has_pad il} = component ?k ?items ` pad_nodes b n"
  proof (intro set_eqI iffI)
    fix il assume "il \<in> {il \<in> component ?k ?items ` set (own ?items n). has_pad il}"
    then obtain x where x: "x \<in> set (own ?items n)" "il = component ?k ?items x" "has_pad il" by blast
    then obtain p where "p \<in> pad_nodes b n" "(x, p) \<in> conn (touching ?k ?items)" using pad by blast
    then show "il \<in> component ?k ?items ` pad_nodes b n" using eq x by blast
  next
    fix il assume "il \<in> component ?k ?items ` pad_nodes b n"
    then obtain p where p: "p \<in> pad_nodes b n" "il = component ?k ?items p" by blast
    then have o: "p \<in> set (own ?items n)" using pad_nodes_own [of p b n arc] by blast
    have "has_pad il" unfolding p(2) pad [OF o] by (rule bexI [OF conn_refl p(1)])
    then show "il \<in> {il \<in> component ?k ?items ` set (own ?items n). has_pad il}" using p(2) o by blast
  qed
  then show s: "set (filter has_pad (islands (report_nets r ! n))) = component ?k ?items ` pad_nodes b n"
    unfolding set_filter report_forD(2) [OF r n] .
  show "pad_island_count (report_nets r ! n) = card (component ?k ?items ` pad_nodes b n)"
    unfolding pad_island_count_def s [symmetric] by (rule distinct_card [symmetric]) (simp add: islands_distinct [OF r wf n])
qed

section \<open>Status and completeness\<close>

lemma net_mask_step: "length (fold (\<lambda>n mask. case n of None \<Rightarrow> mask | Some k \<Rightarrow> mask[k := True]) ns m) = length m \<and>
   (k < length m \<longrightarrow> fold (\<lambda>n mask. case n of None \<Rightarrow> mask | Some k \<Rightarrow> mask[k := True]) ns m ! k = (m ! k \<or> Some k \<in> set ns))"
proof (induction ns arbitrary: m)
  case (Cons n ns)
  then show ?case by (cases n; cases "n = Some k") auto
qed simp

lemma net_mask_nth: "length (net_mask len ns) = len" "k < len \<Longrightarrow> net_mask len ns ! k \<longleftrightarrow> Some k \<in> set ns"
  using net_mask_step [of ns "replicate len False" k] by (simp_all add: net_mask_def)

lemma nth_image_filter: "(\<lambda>x. xs ! x) ` {x. x < length xs \<and> P (xs ! x)} = {y \<in> set xs. P y}"
  by (auto simp: in_set_conv_nth)

text \<open>A net has a track, arc or via exactly when one of its islands does.\<close>

lemma routing_copper:
  assumes r: "report_for arc b r" and n: "n < length (nets b)"
  shows "list_ex (list_ex is_routing_ref) (islands (report_nets r ! n)) \<longleftrightarrow> net_has_routing_copper b ! n"
proof -
  let ?items = "board_nodes arc b"
  have c: "set (concat (islands (report_nets r ! n))) = fst ` {it \<in> set ?items. fst (snd it) = Some n}"
  proof -
    have "set (concat (islands (report_nets r ! n))) = (\<lambda>x. fst (?items ! x)) ` set (own ?items n)"
      using report_forD(3) [OF r n] by (metis mset_eq_setD set_map)
    also have "\<dots> = fst ` (\<lambda>x. ?items ! x) ` set (own ?items n)" by (simp only: image_image)
    also have "(\<lambda>x. ?items ! x) ` set (own ?items n) = {it \<in> set ?items. fst (snd it) = Some n}"
    proof -
      have "set (own ?items n) = {x. x < length ?items \<and> fst (snd (?items ! x)) = Some n}" by auto
      then show ?thesis using nth_image_filter [of ?items "\<lambda>it. fst (snd it) = Some n"] by (simp only:)
    qed
    finally show ?thesis .
  qed
  have l: "list_ex (list_ex is_routing_ref) xs \<longleftrightarrow> (\<exists>i \<in> set (concat xs). is_routing_ref i)" for xs by (auto simp: list_ex_iff)
  have "(\<exists>it \<in> set ?items. fst (snd it) = Some n \<and> is_routing_ref (fst it)) \<longleftrightarrow>
      Some n \<in> set (map track_net (tracks b) @ map arc_net (arcs b) @ map via_net (vias b))"
    unfolding board_nodes_def set_append set_map bex_Un bex_simps(7)
    by (simp add: pad_node_def track_node_def arc_node_def via_node_def zone_node_def is_routing_ref_def image_iff eq_commute [of "Some n"])
  also have "\<dots> \<longleftrightarrow> net_has_routing_copper b ! n" unfolding net_has_routing_copper_def net_mask_nth(2) [OF n] ..
  finally show ?thesis unfolding l c by blast
qed

definition status_count :: "connectivity_report \<Rightarrow> net_status \<Rightarrow> nat" where
  "status_count r s = length (filter (\<lambda>n. net_status_of r n = Some s) [0..<length (report_nets r)])"

definition status :: "bool list \<Rightarrow> net_connectivity \<Rightarrow> net_status option" where
  "status has n = (if pad_count n < 2 then None
     else Some (if pad_island_count n \<le> 1 then Complete else if has ! nc_net n then Partial else NoCopper))"

lemma count_nets_status:
  assumes "\<forall>n \<in> set ns. nc_net n < length has"
  shows "\<exists>c. count_nets has ns out = Some c \<and> multi_pad_nets c = multi_pad_nets out + length (filter (\<lambda>n. 2 \<le> pad_count n) ns) \<and>
    complete c = complete out + length (filter (\<lambda>n. status has n = Some Complete) ns) \<and>
    partial c = partial out + length (filter (\<lambda>n. status has n = Some Partial) ns) \<and>
    no_copper c = no_copper out + length (filter (\<lambda>n. status has n = Some NoCopper) ns)"
  using assms
proof (induction ns arbitrary: out)
  case (Cons n ns)
  then have ns: "\<forall>n \<in> set ns. nc_net n < length has" by simp
  show ?case
    using Cons.prems Cons.IH [OF ns, of out] Cons.IH [OF ns, of "out\<lparr>multi_pad_nets := multi_pad_nets out + 1, complete := complete out + 1\<rparr>"]
      Cons.IH [OF ns, of "out\<lparr>multi_pad_nets := multi_pad_nets out + 1, partial := partial out + 1\<rparr>"]
      Cons.IH [OF ns, of "out\<lparr>multi_pad_nets := multi_pad_nets out + 1, no_copper := no_copper out + 1\<rparr>"]
    by (cases "pad_count n < 2"; cases "pad_island_count n \<le> 1"; cases "has ! nc_net n") (auto simp: status_def nth_or_panic_def)
qed simp

lemma report_nets_map:
  assumes "report_for arc b r"
  shows "report_nets r = map (\<lambda>n. report_nets r ! n) [0..<length (nets b)]"
  using assms by (intro nth_equalityI) (auto simp: report_for_def)

lemma status_net_status:
  assumes r: "report_for arc b r"
  shows "length (filter (\<lambda>n. status (net_has_routing_copper b) n = Some s) (report_nets r)) = status_count r s"
proof -
  have len: "length (report_nets r) = length (nets b)" using r by (simp add: report_for_def)
  have "status (net_has_routing_copper b) (report_nets r ! n) = net_status_of r n" if "n < length (nets b)" for n
    using that len routing_copper [OF r that] report_forD(1) [OF r that] by (simp add: status_def net_status_of_def Let_def)
  then have "filter (\<lambda>n. status (net_has_routing_copper b) (report_nets r ! n) = Some s) [0..<length (nets b)] =
      filter (\<lambda>n. net_status_of r n = Some s) [0..<length (nets b)]" by (intro filter_cong) auto
  then show ?thesis unfolding status_count_def len by (subst report_nets_map [OF r]) (simp add: filter_map comp_def)
qed

lemma connection_split_sum: "fst (connection_split r b) + snd (connection_split r b) = connection_count r"
proof -
  have "fst (foldl (\<lambda>(plane, signal) n. if on_plane m n then (plane + connections_needed n, signal) else (plane, signal + connections_needed n)) acc ns) +
      snd (foldl (\<lambda>(plane, signal) n. if on_plane m n then (plane + connections_needed n, signal) else (plane, signal + connections_needed n)) acc ns) =
      fst acc + snd acc + sum_list (map connections_needed ns)" for m acc ns
    by (induction ns arbitrary: acc) (auto split: prod.splits)
  from this [of _ "(0, 0)"] show ?thesis by (simp add: connection_split_def connection_count_def)
qed

lemma completeness_ok:
  assumes r: "report_for arc b r"
  shows "\<exists>c. completeness_of r b = Some c \<and> complete c = status_count r Complete \<and> partial c = status_count r Partial \<and>
    no_copper c = status_count r NoCopper \<and> multi_pad_nets c = multi_pad_net_count r \<and> connections_total c = connection_count r \<and>
    plane_connections c + signal_connections c = connection_count r"
proof -
  have "\<forall>n \<in> set (report_nets r). nc_net n < length (net_has_routing_copper b)"
    using r by (auto simp: report_for_def Let_def in_set_conv_nth net_has_routing_copper_def net_mask_nth)
  from count_nets_status [OF this, of "\<lparr>multi_pad_nets = 0, complete = 0, partial = 0, no_copper = 0, connections_total = 0, plane_connections = 0, signal_connections = 0\<rparr>"]
  show ?thesis
    using connection_split_sum [of r b] status_net_status [OF r] by (auto simp: completeness_of_def multi_pad_net_count_def)
qed

lemma complete_iff:
  assumes r: "report_for arc b r" and wf: "board_wf b" and n: "n < length (nets b)"
  shows "net_status_of r n = Some Complete \<longleftrightarrow> 2 \<le> card (pad_nodes b n) \<and>
    (\<forall>p \<in> pad_nodes b n. \<forall>q \<in> pad_nodes b n. (p, q) \<in> conn (touching (layer_count b) (board_nodes arc b)))"
proof -
  let ?items = "board_nodes arc b" and ?k = "layer_count b"
  have fin: "finite (pad_nodes b n)" by (simp add: pad_nodes_def)
  have count: "pad_count (report_nets r ! n) = card (pad_nodes b n)"
    unfolding report_forD(4) [OF r n] pad_nodes_def by (rule length_filter_conv_card)
  have eq: "component ?k ?items p = component ?k ?items q \<longleftrightarrow> (p, q) \<in> conn (touching ?k ?items)" if "p \<in> pad_nodes b n" "q \<in> pad_nodes b n" for p q
    using component_eq [OF board_refs_distinct [OF wf]] that pad_nodes_own [of _ b n arc] by auto
  have "card (component ?k ?items ` pad_nodes b n) \<le> 1 \<longleftrightarrow> (\<forall>p \<in> pad_nodes b n. \<forall>q \<in> pad_nodes b n. component ?k ?items p = component ?k ?items q)"
    using fin by (auto simp: card_le_Suc0_iff_eq)
  also have "\<dots> \<longleftrightarrow> (\<forall>p \<in> pad_nodes b n. \<forall>q \<in> pad_nodes b n. (p, q) \<in> conn (touching ?k ?items))" using eq by blast
  finally have "pad_island_count (report_nets r ! n) \<le> 1 \<longleftrightarrow> (\<forall>p \<in> pad_nodes b n. \<forall>q \<in> pad_nodes b n. (p, q) \<in> conn (touching ?k ?items))"
    unfolding pad_islands(2) [OF r wf n] .
  moreover have "length (report_nets r) = length (nets b)" using r by (simp add: report_for_def)
  ultimately show ?thesis using n count by (auto simp: net_status_of_def Let_def)
qed

section \<open>Properties\<close>

lemma demo_fits: "board_fits (\<lambda>s m e. [s, e]) demo_board"
  unfolding demo_board_def by code_simp

lemma demo_items:
  shows "length (board_nodes (\<lambda>s m e. [s, e]) demo_board) = 7"
    and "board_nodes (\<lambda>s m e. [s, e]) demo_board ! 0 = (Ref_Pad 0, Some 0, [(0, rect_at 0 0 100 100)])"
    and "board_nodes (\<lambda>s m e. [s, e]) demo_board ! 1 = (Ref_Pad 1, Some 0, [(0, rect_at 1000 0 100 100)])"
    and "board_nodes (\<lambda>s m e. [s, e]) demo_board ! 5 =
      (Ref_Track 0, Some 0, [(0, Segment \<lparr>seg_a = Point_new 50 50, seg_b = Point_new 1050 50, seg_width = 20\<rparr>)])"
proof -
  let ?items = "board_nodes (\<lambda>s m e. [s, e]) demo_board"
  show "length ?items = 7" unfolding demo_board_def by code_simp
  show "?items ! 0 = (Ref_Pad 0, Some 0, [(0, rect_at 0 0 100 100)])" unfolding demo_board_def by code_simp
  show "?items ! 1 = (Ref_Pad 1, Some 0, [(0, rect_at 1000 0 100 100)])" unfolding demo_board_def by code_simp
  show "?items ! 5 = (Ref_Track 0, Some 0, [(0, Segment \<lparr>seg_a = Point_new 50 50, seg_b = Point_new 1050 50, seg_width = 20\<rparr>)])"
    unfolding demo_board_def by code_simp
qed

lemma demo_joined: "(0, 1) \<in> conn (touching (layer_count demo_board) (board_nodes (\<lambda>s m e. [s, e]) demo_board))"
proof -
  let ?T = "touching (layer_count demo_board) (board_nodes (\<lambda>s m e. [s, e]) demo_board)"
  let ?g = "Segment \<lparr>seg_a = Point_new 50 50, seg_b = Point_new 1050 50, seg_width = 20\<rparr>"
  have "touches (rect_at 0 0 100 100) ?g" "touches (rect_at 1000 0 100 100) ?g" "0 < layer_count demo_board" by code_simp+
  then have "(0, 5) \<in> ?T" "(1, 5) \<in> ?T" using demo_items by (auto simp: touching_def)
  from conn_trans [OF conn_edge [OF this(1)] conn_sym [OF conn_edge [OF this(2)]]] show ?thesis .
qed

text \<open>C5. Connectivity is exact. On a validated board with well-formed copper the report is always produced, and its
  islands are exactly the connected components of the board's copper: two items of a net are in one island exactly
  when a chain of items of that net leads from one to the other, each touching the next on a common copper layer.
  The spatial index never hides a touching pair. Every netted item is in exactly one island of its net, islands and
  their members are sorted, pads are counted per net, and unfilled zones join nothing.\<close>

theorem islands_exact:
  assumes "rtree_law R contents" "board_fits arc b" "validate b = None" "length (nets b) \<le> 2 ^ 32"
  shows "\<exists>r. build R arc b = Some r \<and> report_for arc b r \<and>
    (\<forall>n x y. n < length (nets b) \<and> x \<in> set (own (board_nodes arc b) n) \<and> y \<in> set (own (board_nodes arc b) n) \<longrightarrow>
      ((\<exists>il \<in> set (islands (report_nets r ! n)). fst (board_nodes arc b ! x) \<in> set il \<and> fst (board_nodes arc b ! y) \<in> set il) \<longleftrightarrow>
       (x, y) \<in> conn (touching (layer_count b) (board_nodes arc b))))"
  using build_spec [OF assms(1,2,4)] same_island assms(3) [unfolded validate_iff] by metis

theorem islands_exact_witness:
  "\<exists>r il. build scan_rtree (\<lambda>s m e. [s, e]) demo_board = Some r \<and> il \<in> set (islands (report_nets r ! 0)) \<and> Ref_Pad 0 \<in> set il \<and> Ref_Pad 1 \<in> set il"
proof -
  let ?items = "board_nodes (\<lambda>s m e. [s, e]) demo_board"
  have v: "validate demo_board = None" by code_simp
  have l: "length (nets demo_board) \<le> 2 ^ 32" "0 < length (nets demo_board)" by (simp_all add: demo_board_def)
  have i: "0 \<in> set (own ?items 0)" "1 \<in> set (own ?items 0)" "fst (?items ! 0) = Ref_Pad 0" "fst (?items ! 1) = Ref_Pad 1"
    using demo_items by simp_all
  obtain r where r: "build scan_rtree (\<lambda>s m e. [s, e]) demo_board = Some r"
      "\<And>n x y. n < length (nets demo_board) \<and> x \<in> set (own ?items n) \<and> y \<in> set (own ?items n) \<Longrightarrow>
        ((\<exists>il \<in> set (islands (report_nets r ! n)). fst (?items ! x) \<in> set il \<and> fst (?items ! y) \<in> set il) \<longleftrightarrow> (x, y) \<in> conn (touching (layer_count demo_board) ?items))"
    using islands_exact [OF scan_rtree_law demo_fits v l(1)] by blast
  from r(2) [of 0 0 1] i l(2) demo_joined show ?thesis using r(1) by auto
qed

text \<open>C31. The figures agree. A net with two or more pads is complete exactly when its pads are all joined by copper; the
  board-wide totals count the nets of each status, every net with two or more pads once; the connections still
  needed are, per net, one less than the number of separate groups of pads, and split into plane and signal nets
  without loss. Nothing panics.\<close>

theorem completeness_agrees:
  assumes "rtree_law R contents" "board_fits arc b" "validate b = None" "length (nets b) \<le> 2 ^ 32"
  shows "\<exists>r c. build R arc b = Some r \<and> completeness_of r b = Some c \<and>
    complete c = status_count r Complete \<and> partial c = status_count r Partial \<and> no_copper c = status_count r NoCopper \<and>
    multi_pad_nets c = multi_pad_net_count r \<and> connections_total c = connection_count r \<and>
    plane_connections c + signal_connections c = connection_count r \<and>
    (\<forall>n < length (nets b).
      connections_needed (report_nets r ! n) = card (component (layer_count b) (board_nodes arc b) ` pad_nodes b n) - 1 \<and>
      (net_status_of r n = Some Complete \<longleftrightarrow> 2 \<le> card (pad_nodes b n) \<and>
        (\<forall>p \<in> pad_nodes b n. \<forall>q \<in> pad_nodes b n. (p, q) \<in> conn (touching (layer_count b) (board_nodes arc b)))))"
proof -
  note wf = assms(3) [unfolded validate_iff]
  obtain r where r: "build R arc b = Some r" "report_for arc b r" using build_spec [OF assms(1,2,4)] by blast
  show ?thesis
    using completeness_ok [OF r(2)] r complete_iff [OF r(2) wf] pad_islands(2) [OF r(2) wf] unfolding connections_needed_def by metis
qed

theorem completeness_agrees_witness:
  "\<exists>r c. build scan_rtree (\<lambda>s m e. [s, e]) demo_board = Some r \<and> completeness_of r demo_board = Some c \<and>
     multi_pad_nets c = multi_pad_net_count r \<and> plane_connections c + signal_connections c = connections_total c"
proof -
  have v: "validate demo_board = None" by code_simp
  have l: "length (nets demo_board) \<le> 2 ^ 32" by (simp add: demo_board_def)
  show ?thesis using completeness_agrees [OF scan_rtree_law demo_fits v l] by metis
qed

end
