(* ===== verification/Connectivity_Tasks.thy ===== *)
theory Connectivity_Tasks
  imports Connectivity
begin

text \<open>
  The routing task list of \<open>crates/konnect-route/src/connectivity.rs\<close> (\<open>ConnectivityReport::connections\<close>): per net, Prim's
  algorithm over the pad islands, an edge being the closest pair of pads of two islands. The lemmas show that the
  edges form a minimum spanning tree.
\<close>

section \<open>The task list\<close>

definition pad_dist2 :: "route_board \<Rightarrow> pad_id \<Rightarrow> pad_id \<Rightarrow> int" where
  "pad_dist2 b p q = Vector_length2 (Point_sub (pad_center (pads b ! p)) (pad_center (pads b ! q)))"

text \<open>The closest pair of two islands: the first pair of least distance, in the order of the two loops.\<close>

definition closest :: "(pad_id \<Rightarrow> pad_id \<Rightarrow> int) \<Rightarrow> pad_id list \<Rightarrow> pad_id list \<Rightarrow> (int \<times> pad_id \<times> pad_id) option" where
  "closest d as bs = foldl (\<lambda>best (pa, pb).
     (case best of None \<Rightarrow> Some (d pa pb, pa, pb)
      | Some (bd, _, _) \<Rightarrow> if d pa pb < bd then Some (d pa pb, pa, pb) else best))
     None (concat (map (\<lambda>pa. map (\<lambda>pb. (pa, pb)) bs) as))"

definition edge_key :: "(int \<times> pad_id \<times> pad_id) option list \<Rightarrow> nat \<Rightarrow> int \<times> nat" where
  "edge_key best j = (case best ! j of None \<Rightarrow> 2 ^ 127 - 1 | Some e \<Rightarrow> fst e, j)"

definition next_island :: "bool list \<Rightarrow> (int \<times> pad_id \<times> pad_id) option list \<Rightarrow> nat option" where
  "next_island in_tree best =
     (case filter (\<lambda>j. \<not> in_tree ! j) [0..<length in_tree] of [] \<Rightarrow> None
      | j # js \<Rightarrow> Some (foldl (\<lambda>m j. if edge_key best j < edge_key best m then j else m) j js))"

definition relax :: "(int \<times> pad_id \<times> pad_id) option \<Rightarrow> (int \<times> pad_id \<times> pad_id) option \<Rightarrow> (int \<times> pad_id \<times> pad_id) option" where
  "relax best cand = (case best of None \<Rightarrow> cand
     | Some e \<Rightarrow> (case cand of None \<Rightarrow> best | Some c \<Rightarrow> if fst c < fst e then cand else best))"

fun prim_loop :: "(pad_id \<Rightarrow> pad_id \<Rightarrow> int) \<Rightarrow> pad_id list list \<Rightarrow> nat \<Rightarrow> bool list \<Rightarrow> (int \<times> pad_id \<times> pad_id) option list \<Rightarrow> (pad_id \<times> pad_id) list option" where
  "prim_loop d isls 0 in_tree best = Some []"
| "prim_loop d isls (Suc m) in_tree best =
     (case next_island in_tree best of None \<Rightarrow> None
      | Some nx \<Rightarrow> (case best ! nx of None \<Rightarrow> None
          | Some (_, from, to) \<Rightarrow>
              let in_tree' = in_tree[nx := True];
                  best' = map (\<lambda>j. if in_tree' ! j then best ! j else relax (best ! j) (closest d (isls ! nx) (isls ! j))) [0..<length isls]
              in map_option (\<lambda>es. (from, to) # es) (prim_loop d isls m in_tree' best')))"

text \<open>The tasks of one net. The first row of candidate edges measures every pad of every island, so a pad outside
  the board or an island without a pad panics there.\<close>

definition net_tasks :: "route_board \<Rightarrow> net_connectivity \<Rightarrow> (pad_id \<times> pad_id) list option" where
  "net_tasks b net =
     (let isls = map island_pads (filter has_pad (islands net)); k = length isls; d = pad_dist2 b
      in if k < 2 then Some []
         else if list_ex (\<lambda>ps. ps = [] \<or> list_ex (\<lambda>p. length (pads b) \<le> p) ps) isls then None
         else prim_loop d isls (k - 1) ((replicate k False)[0 := True])
           (map (\<lambda>j. if j \<noteq> 0 then closest d (isls ! 0) (isls ! j) else None) [0..<k]))"

fun connections_loop :: "route_board \<Rightarrow> net_connectivity list \<Rightarrow> connection list \<Rightarrow> connection list option" where
  "connections_loop b [] out = Some out"
| "connections_loop b (net # ns) out =
     (case net_tasks b net of None \<Rightarrow> None
      | Some es \<Rightarrow> connections_loop b ns (foldl (\<lambda>out (from, to). out @
          [\<lparr>conn_id = as_u32 (length out), conn_net = nc_net net, conn_from = Ref_Pad from, conn_to = Ref_Pad to\<rparr>]) out es))"

definition connections :: "connectivity_report \<Rightarrow> route_board \<Rightarrow> connection list option" where
  "connections r b = connections_loop b (report_nets r) []"

section \<open>Prim's algorithm\<close>

lemma closest_fold:
  "\<exists>w p q. foldl (\<lambda>best (pa, pb). (case best of None \<Rightarrow> Some (d pa pb, pa, pb)
      | Some (bd, _, _) \<Rightarrow> if d pa pb < bd then Some (d pa pb, pa, pb) else best)) (Some (d p0 q0, p0, q0)) ps = Some (w, p, q) \<and>
     (p, q) \<in> insert (p0, q0) (set ps) \<and> w = d p q \<and> (\<forall>(p', q') \<in> insert (p0, q0) (set ps). w \<le> d p' q')"
  for d :: "nat \<Rightarrow> nat \<Rightarrow> int"
proof (induction ps arbitrary: p0 q0)
  case (Cons e ps)
  obtain pa pb where e: "e = (pa, pb)" by fastforce
  show ?case
  proof (cases "d pa pb < d p0 q0")
    case True
    then show ?thesis using Cons.IH [of pa pb] e by fastforce
  next
    case False
    then show ?thesis using Cons.IH [of p0 q0] e by fastforce
  qed
qed simp

lemma closest_spec:
  assumes "as \<noteq> []" "bs \<noteq> []"
  shows "\<exists>p q. closest d as bs = Some (d p q, p, q) \<and> p \<in> set as \<and> q \<in> set bs \<and> (\<forall>p' \<in> set as. \<forall>q' \<in> set bs. d p q \<le> d p' q')"
proof -
  let ?ps = "concat (map (\<lambda>pa. map (\<lambda>pb. (pa, pb)) bs) as)"
  obtain a as' c bs' where ab: "as = a # as'" "bs = c # bs'" using assms by (meson neq_Nil_conv)
  then obtain ps where ps: "?ps = (a, c) # ps" by simp
  have set: "set ?ps = set as \<times> set bs" by auto
  obtain w p q where w: "closest d as bs = Some (w, p, q)" "(p, q) \<in> set ?ps" "w = d p q" "\<forall>(p', q') \<in> set ?ps. w \<le> d p' q'"
    using closest_fold [of d a c ps] unfolding closest_def ps by auto
  then show ?thesis unfolding set by auto
qed

text \<open>The island of least key among those outside the tree.\<close>

lemma next_island_spec:
  assumes "\<exists>j < length in_tree. \<not> in_tree ! j"
  shows "\<exists>nx. next_island in_tree best = Some nx \<and> nx < length in_tree \<and> \<not> in_tree ! nx \<and>
    (\<forall>j < length in_tree. \<not> in_tree ! j \<longrightarrow> edge_key best nx \<le> edge_key best j)"
proof -
  have fold: "foldl (\<lambda>m j. if edge_key best j < edge_key best m then j else m) i js \<in> insert i (set js) \<and>
      (\<forall>j \<in> insert i (set js). edge_key best (foldl (\<lambda>m j. if edge_key best j < edge_key best m then j else m) i js) \<le> edge_key best j)" for i js
  proof (induction js arbitrary: i)
    case (Cons j js)
    show ?case
      using Cons.IH [of "if edge_key best j < edge_key best i then j else i"]
      by (auto simp: not_less split: if_splits dest: order.strict_implies_order intro: order.trans)
  qed simp
  let ?js = "filter (\<lambda>j. \<not> in_tree ! j) [0..<length in_tree]"
  obtain i js where js: "?js = i # js" using assms by (metis (mono_tags, lifting) atLeastLessThan_iff filter_empty_conv le0 neq_Nil_conv set_upt)
  let ?nx = "foldl (\<lambda>m j. if edge_key best j < edge_key best m then j else m) i js"
  have "insert i (set js) = {j. j < length in_tree \<and> \<not> in_tree ! j}" using arg_cong [OF js, of set] by auto
  then show ?thesis using fold [of i js] by (intro exI [of _ ?nx]) (simp add: next_island_def js)
qed

subsection \<open>Exchanging an edge across a cut\<close>

text \<open>A relation that does not leave a set does not leave it in any number of steps.\<close>

lemma conn_closed:
  assumes "(x, y) \<in> conn E" "x \<in> A" and "\<And>u v. (u, v) \<in> E \<Longrightarrow> u \<in> A \<longleftrightarrow> v \<in> A"
  shows "y \<in> A"
proof -
  have "(x, y) \<in> (E \<union> E\<inverse>)\<^sup>*" using assms(1) by (simp add: conn_def)
  then show ?thesis by (induction rule: rtrancl_induct) (use assms(2,3) in auto)
qed

lemma crossing_edge:
  assumes "finite F" "(x, y) \<in> conn (F \<union> G)" "x \<in> A" "y \<notin> A" and G: "\<And>u v. (u, v) \<in> G \<Longrightarrow> u \<in> A \<longleftrightarrow> v \<in> A"
  shows "\<exists>u v. (u, v) \<in> F \<and> (u \<in> A \<longleftrightarrow> v \<notin> A) \<and> (u, v) \<in> conn (insert (x, y) (F - {(u, v)} \<union> G))"
proof -
  obtain H where H: "H \<subseteq> F" "(x, y) \<in> conn (H \<union> G)"
      and least: "\<And>H'. H' \<subseteq> F \<Longrightarrow> (x, y) \<in> conn (H' \<union> G) \<Longrightarrow> card H \<le> card H'"
    using ex_has_least_nat [of "\<lambda>H. H \<subseteq> F \<and> (x, y) \<in> conn (H \<union> G)" F card] assms(2) by auto
  have "\<not> (\<forall>(u, v) \<in> H. u \<in> A \<longleftrightarrow> v \<in> A)" using conn_closed [OF H(2) assms(3)] assms(4) G by blast
  then obtain u v where uv: "(u, v) \<in> H" "u \<in> A \<longleftrightarrow> v \<notin> A" by blast
  let ?E = "H - {(u, v)} \<union> G"
  have "card (H - {(u, v)}) < card H" using uv(1) H(1) assms(1) by (meson card_Diff1_less finite_subset)
  then have no: "(x, y) \<notin> conn ?E" using least [of "H - {(u, v)}"] H(1) by (meson Diff_subset not_le order.trans)
  have "H \<union> G = insert (u, v) ?E" using uv(1) by auto
  then have "(x, u) \<in> conn ?E \<and> (v, y) \<in> conn ?E \<or> (x, v) \<in> conn ?E \<and> (u, y) \<in> conn ?E"
    using H(2) no by (simp add: conn_insert)
  then have "(u, v) \<in> conn (insert (x, y) ?E)" unfolding conn_insert using conn_sym [of _ _ ?E] by meson
  moreover have "conn (insert (x, y) ?E) \<subseteq> conn (insert (x, y) (F - {(u, v)} \<union> G))" using H(1) by (intro conn_mono) auto
  ultimately show ?thesis using uv H(1) by blast
qed

subsection \<open>The loop\<close>

text \<open>The pads of a set of islands, and what is joined when the islands of the tree count as one.\<close>

definition pads_in :: "pad_id list list \<Rightarrow> nat set \<Rightarrow> pad_id set" where
  "pads_in isls S = (\<Union>i \<in> S. set (isls ! i))"

definition merged :: "pad_id list list \<Rightarrow> nat set \<Rightarrow> (pad_id \<times> pad_id) set" where
  "merged isls S = {(p, q). \<exists>i < length isls. p \<in> set (isls ! i) \<and> q \<in> set (isls ! i)} \<union> pads_in isls S \<times> pads_in isls S"

definition spans :: "pad_id list list \<Rightarrow> nat set \<Rightarrow> (pad_id \<times> pad_id) set \<Rightarrow> bool" where
  "spans isls S F \<longleftrightarrow> (\<forall>p \<in> pads_in isls {..<length isls}. \<forall>q \<in> pads_in isls {..<length isls}. (p, q) \<in> conn (F \<union> merged isls S))"

definition islands_ok :: "pad_id list list \<Rightarrow> bool" where
  "islands_ok isls \<longleftrightarrow> [] \<notin> set isls \<and> (\<forall>i < length isls. \<forall>j < length isls. i \<noteq> j \<longrightarrow> set (isls ! i) \<inter> set (isls ! j) = {})"

definition tree_set :: "bool list \<Rightarrow> nat set" where
  "tree_set in_tree = {j. j < length in_tree \<and> in_tree ! j}"

text \<open>The best candidates: for every island outside the tree, an edge of least length to it.\<close>

definition best_ok :: "(pad_id \<Rightarrow> pad_id \<Rightarrow> int) \<Rightarrow> pad_id list list \<Rightarrow> nat set \<Rightarrow> (int \<times> pad_id \<times> pad_id) option list \<Rightarrow> bool" where
  "best_ok d isls S best \<longleftrightarrow> (\<forall>j < length isls. j \<notin> S \<longrightarrow>
     (\<exists>p q. best ! j = Some (d p q, p, q) \<and> p \<in> pads_in isls S \<and> q \<in> set (isls ! j) \<and>
        (\<forall>p' \<in> pads_in isls S. \<forall>q' \<in> set (isls ! j). d p q \<le> d p' q')))"

lemma merged_cut:
  assumes "islands_ok isls" "S \<subseteq> {..<length isls}" "(u, v) \<in> merged isls S"
  shows "u \<in> pads_in isls S \<longleftrightarrow> v \<in> pads_in isls S"
proof -
  have "p \<in> pads_in isls S \<longleftrightarrow> i \<in> S" if "i < length isls" "p \<in> set (isls ! i)" for i p
    using assms(1,2) that unfolding pads_in_def islands_ok_def by blast
  then show ?thesis using assms(3) by (auto simp: merged_def)
qed

lemma best_ok_step:
  assumes ok: "islands_ok isls" and S: "S \<subseteq> {..<length isls}" "nx < length isls" and best: "best_ok d isls S best"
    and best': "\<And>j. j < length isls \<Longrightarrow> j \<notin> insert nx S \<Longrightarrow> best' ! j = relax (best ! j) (closest d (isls ! nx) (isls ! j))"
  shows "best_ok d isls (insert nx S) best'"
  unfolding best_ok_def
proof (intro allI impI)
  fix j assume j: "j < length isls" "j \<notin> insert nx S"
  have ne: "isls ! nx \<noteq> []" "isls ! j \<noteq> []" using ok S(2) j(1) by (metis islands_ok_def nth_mem)+
  obtain p q where pq: "best ! j = Some (d p q, p, q)" "p \<in> pads_in isls S" "q \<in> set (isls ! j)"
      "\<And>p' q'. p' \<in> pads_in isls S \<Longrightarrow> q' \<in> set (isls ! j) \<Longrightarrow> d p q \<le> d p' q'" using best j by (auto simp: best_ok_def)
  obtain s t where st: "closest d (isls ! nx) (isls ! j) = Some (d s t, s, t)" "s \<in> set (isls ! nx)" "t \<in> set (isls ! j)"
      "\<And>p' q'. p' \<in> set (isls ! nx) \<Longrightarrow> q' \<in> set (isls ! j) \<Longrightarrow> d s t \<le> d p' q'" using closest_spec [OF ne] by blast
  have ins: "pads_in isls (insert nx S) = set (isls ! nx) \<union> pads_in isls S" by (simp add: pads_in_def)
  show "\<exists>p q. best' ! j = Some (d p q, p, q) \<and> p \<in> pads_in isls (insert nx S) \<and> q \<in> set (isls ! j) \<and>
        (\<forall>p' \<in> pads_in isls (insert nx S). \<forall>q' \<in> set (isls ! j). d p q \<le> d p' q')"
  proof (cases "d s t < d p q")
    case True
    then have "\<forall>p' \<in> pads_in isls (insert nx S). \<forall>q' \<in> set (isls ! j). d s t \<le> d p' q'" using st(4) pq(4) unfolding ins by fastforce
    then show ?thesis using True best' [OF j] pq(1) st unfolding ins by (intro exI [of _ s] exI [of _ t]) (simp add: relax_def)
  next
    case False
    then have "\<forall>p' \<in> pads_in isls (insert nx S). \<forall>q' \<in> set (isls ! j). d p q \<le> d p' q'" using st(4) pq(4) unfolding ins by fastforce
    then show ?thesis using False best' [OF j] pq st(1) unfolding ins by (intro exI [of _ p] exI [of _ q]) (simp add: relax_def)
  qed
qed

lemma conn_least: "E \<subseteq> conn F \<Longrightarrow> conn E \<subseteq> conn F"
proof -
  assume E: "E \<subseteq> conn F"
  then have "conn (E \<union> F) = conn F" by (intro conn_eqI) (auto intro: conn_edge)
  then show ?thesis using conn_mono [of E "E \<union> F"] by simp
qed

text \<open>Adding an edge from the tree to an island joins that island to the tree.\<close>

lemma merged_insert:
  assumes "nx < length isls" "p \<in> pads_in isls S" "q \<in> set (isls ! nx)"
  shows "merged isls (insert nx S) \<subseteq> conn (insert (p, q) (merged isls S))"
proof (rule subrelI)
  fix u v assume uv: "(u, v) \<in> merged isls (insert nx S)"
  let ?C = "conn (insert (p, q) (merged isls S))"
  have same: "(a, c) \<in> ?C" if "(a, c) \<in> merged isls S" for a c using that by (simp add: conn_edge)
  have cross: "(a, c) \<in> ?C" if "a \<in> pads_in isls S" "c \<in> set (isls ! nx)" for a c
  proof -
    have "(a, p) \<in> merged isls S" "(q, c) \<in> merged isls S" using that assms by (auto simp: merged_def)
    then have ap: "(a, p) \<in> ?C" and qc: "(q, c) \<in> ?C" by (auto intro: same)
    have "(p, q) \<in> ?C" by (simp add: conn_edge)
    from conn_trans [OF conn_trans [OF ap this] qc] show ?thesis .
  qed
  consider "(u, v) \<in> merged isls S" | "u \<in> pads_in isls S" "v \<in> set (isls ! nx)" | "u \<in> set (isls ! nx)" "v \<in> pads_in isls S"
    using uv assms(1) by (auto simp: merged_def pads_in_def)
  then show "(u, v) \<in> ?C" by cases (rule same cross conn_sym [OF cross]; assumption)+
qed

lemma merged_mono: "S \<subseteq> S' \<Longrightarrow> merged isls S \<subseteq> merged isls S'"
  unfolding merged_def pads_in_def by blast

text \<open>Distances are not negative and symmetric on the pads of the islands.\<close>

definition metric_on :: "pad_id set \<Rightarrow> (pad_id \<Rightarrow> pad_id \<Rightarrow> int) \<Rightarrow> bool" where
  "metric_on P d \<longleftrightarrow> (\<forall>p \<in> P. \<forall>q \<in> P. 0 \<le> d p q \<and> d p q = d q p)"

lemma edge_weight_pos: "F \<subseteq> P \<times> P \<Longrightarrow> metric_on P d \<Longrightarrow> 0 \<le> (\<Sum>(p, q) \<in> F. d p q)"
  by (intro sum_nonneg) (auto simp: metric_on_def)

text \<open>One step of the exchange argument: an edge set that spans has an edge no shorter than the chosen one that the
  chosen one makes redundant.\<close>

lemma prim_exchange:
  fixes d :: "nat \<Rightarrow> nat \<Rightarrow> int"
  assumes ok: "islands_ok isls" and S: "S \<subseteq> {..<length isls}" "nx < length isls" "nx \<notin> S"
    and e: "p0 \<in> pads_in isls S" "q0 \<in> set (isls ! nx)"
    and least: "\<forall>j p q. j < length isls \<and> j \<notin> S \<and> p \<in> pads_in isls S \<and> q \<in> set (isls ! j) \<longrightarrow> d p0 q0 \<le> d p q"
    and d: "metric_on (pads_in isls {..<length isls}) d"
    and F: "finite F" "F \<subseteq> pads_in isls {..<length isls} \<times> pads_in isls {..<length isls}" "spans isls S F"
  shows "\<exists>F' \<subseteq> F. spans isls (insert nx S) F' \<and> d p0 q0 + (\<Sum>(p, q) \<in> F'. d p q) \<le> (\<Sum>(p, q) \<in> F. d p q)"
proof -
  let ?A = "pads_in isls S" and ?P = "pads_in isls {..<length isls}"
  have q0: "q0 \<notin> ?A" using ok S e(2) unfolding islands_ok_def pads_in_def by blast
  have "(p0, q0) \<in> conn (F \<union> merged isls S)" using F(3) e S unfolding spans_def pads_in_def by blast
  from crossing_edge [OF F(1) this e(1) q0 merged_cut [OF ok S(1)]] obtain u v
    where uv: "(u, v) \<in> F" "u \<in> ?A \<longleftrightarrow> v \<notin> ?A" "(u, v) \<in> conn (insert (p0, q0) (F - {(u, v)} \<union> merged isls S))" by blast
  let ?F = "F - {(u, v)}"
  have e': "(p0, q0) \<in> merged isls (insert nx S)" using e by (auto simp: merged_def pads_in_def)
  have mono: "merged isls S \<subseteq> merged isls (insert nx S)" by (rule merged_mono) auto
  have "conn (F \<union> merged isls S) \<subseteq> conn (?F \<union> merged isls (insert nx S))"
  proof (rule conn_least)
    have "conn (insert (p0, q0) (?F \<union> merged isls S)) \<subseteq> conn (?F \<union> merged isls (insert nx S))"
      using e' mono by (intro conn_mono) auto
    moreover have "?F \<union> merged isls (insert nx S) \<subseteq> conn (?F \<union> merged isls (insert nx S))" by (auto intro: conn_edge)
    ultimately show "F \<union> merged isls S \<subseteq> conn (?F \<union> merged isls (insert nx S))" using uv(3) mono by blast
  qed
  then have "spans isls (insert nx S) ?F" using F(3) unfolding spans_def by blast
  moreover have "d p0 q0 \<le> d u v"
  proof -
    have out: "\<exists>j < length isls. j \<notin> S \<and> x \<in> set (isls ! j)" if "x \<in> ?P" "x \<notin> ?A" for x using that by (auto simp: pads_in_def)
    have P: "u \<in> ?P" "v \<in> ?P" using uv(1) F(2) by auto
    then have "d u v = d v u" using d unfolding metric_on_def by blast
    then show ?thesis using P uv(2) least out [of u] out [of v] by metis
  qed
  moreover have "(\<Sum>(p, q) \<in> F. d p q) = d u v + (\<Sum>(p, q) \<in> ?F. d p q)" using sum.remove [OF F(1) uv(1), of "\<lambda>(p, q). d p q"] by simp
  ultimately show ?thesis by (intro exI [of _ ?F]) auto
qed

lemma prim_loop_tree:
  fixes d :: "nat \<Rightarrow> nat \<Rightarrow> int"
  assumes ok: "islands_ok isls" and d: "metric_on (pads_in isls {..<length isls}) d"
    and "length in_tree = length isls" "best_ok d isls (tree_set in_tree) best" "card {j. j < length isls \<and> \<not> in_tree ! j} = m"
  shows "\<exists>es. prim_loop d isls m in_tree best = Some es \<and> length es = m \<and>
    set es \<subseteq> pads_in isls {..<length isls} \<times> pads_in isls {..<length isls} \<and> spans isls (tree_set in_tree) (set es) \<and>
    (\<forall>F. finite F \<and> F \<subseteq> pads_in isls {..<length isls} \<times> pads_in isls {..<length isls} \<and> spans isls (tree_set in_tree) F \<longrightarrow>
       sum_list (map (\<lambda>(p, q). d p q) es) \<le> (\<Sum>(p, q) \<in> F. d p q))"
  using assms(3-)
proof (induction m arbitrary: in_tree best)
  case 0
  then have "tree_set in_tree = {..<length isls}" by (auto simp: tree_set_def)
  then have "spans isls (tree_set in_tree) {}" by (auto simp: spans_def merged_def intro!: conn_edge)
  then show ?case using edge_weight_pos [OF _ d] by auto
next
  case (Suc m)
  let ?S = "tree_set in_tree" and ?P = "pads_in isls {..<length isls}"
  have S: "?S \<subseteq> {..<length isls}" using Suc.prems(1) by (auto simp: tree_set_def)
  have out: "j \<notin> ?S \<longleftrightarrow> \<not> in_tree ! j" if "j < length isls" for j using that Suc.prems(1) by (auto simp: tree_set_def)
  have "\<exists>j < length in_tree. \<not> in_tree ! j" 
  proof (rule ccontr)
    assume "\<not> ?thesis"
    then have "{j. j < length isls \<and> \<not> in_tree ! j} = {}" using Suc.prems(1) by auto
    from arg_cong [OF this, of card] show False using Suc.prems(3) by simp
  qed
  then obtain nx where nx: "next_island in_tree best = Some nx" "nx < length isls" "nx \<notin> ?S"
      "\<And>j. j < length isls \<Longrightarrow> j \<notin> ?S \<Longrightarrow> edge_key best nx \<le> edge_key best j"
    using next_island_spec [of in_tree best] Suc.prems(1) out by metis
  obtain p0 q0 where e: "best ! nx = Some (d p0 q0, p0, q0)" "p0 \<in> pads_in isls ?S" "q0 \<in> set (isls ! nx)"
    using Suc.prems(2) nx(2,3) by (auto simp: best_ok_def)
  have least: "\<forall>j p q. j < length isls \<and> j \<notin> ?S \<and> p \<in> pads_in isls ?S \<and> q \<in> set (isls ! j) \<longrightarrow> d p0 q0 \<le> d p q"
  proof (intro allI impI)
    fix j p q assume j: "j < length isls \<and> j \<notin> ?S \<and> p \<in> pads_in isls ?S \<and> q \<in> set (isls ! j)"
    obtain p1 q1 where "best ! j = Some (d p1 q1, p1, q1)" "d p1 q1 \<le> d p q" using Suc.prems(2) j unfolding best_ok_def by blast
    moreover have "edge_key best nx \<le> edge_key best j" using nx(4) j by blast
    ultimately show "d p0 q0 \<le> d p q" using e(1) by (auto simp: edge_key_def)
  qed
  let ?in = "in_tree[nx := True]"
  let ?best = "map (\<lambda>j. if ?in ! j then best ! j else relax (best ! j) (closest d (isls ! nx) (isls ! j))) [0..<length isls]"
  have tree: "tree_set ?in = insert nx ?S" using nx(2) Suc.prems(1) by (auto simp: tree_set_def nth_list_update)
  have b: "best_ok d isls (tree_set ?in) ?best"
    unfolding tree
  proof (rule best_ok_step [OF ok S nx(2) Suc.prems(2)])
    fix j assume "j < length isls" "j \<notin> insert nx ?S"
    then show "?best ! j = relax (best ! j) (closest d (isls ! nx) (isls ! j))" using out by (auto simp: nth_list_update)
  qed
  have "{j. j < length isls \<and> \<not> in_tree ! j} = insert nx {j. j < length isls \<and> \<not> ?in ! j}"
    using nx(2,3) out Suc.prems(1) by (auto simp: nth_list_update)
  then have c: "card {j. j < length isls \<and> \<not> ?in ! j} = m" using Suc.prems(1,3) nx(2) by auto
  have l: "length ?in = length isls" using Suc.prems(1) by simp
  obtain es where es: "prim_loop d isls m ?in ?best = Some es" "length es = m" "set es \<subseteq> ?P \<times> ?P" "spans isls (insert nx ?S) (set es)"
      "\<And>F. finite F \<Longrightarrow> F \<subseteq> ?P \<times> ?P \<Longrightarrow> spans isls (insert nx ?S) F \<Longrightarrow> sum_list (map (\<lambda>(p, q). d p q) es) \<le> (\<Sum>(p, q) \<in> F. d p q)"
    using Suc.IH [OF l b c] unfolding tree by (elim exE conjE) (rule that, assumption+, blast)
  have "prim_loop d isls (Suc m) in_tree best = Some ((p0, q0) # es)" using nx(1) e(1) es(1) by (simp add: Let_def)
  moreover have "set ((p0, q0) # es) \<subseteq> ?P \<times> ?P" using es(3) e(2,3) S nx(2) by (auto simp: pads_in_def)
  moreover have "spans isls ?S (set ((p0, q0) # es))"
  proof -
    have "conn (set es \<union> merged isls (insert nx ?S)) \<subseteq> conn (set ((p0, q0) # es) \<union> merged isls ?S)"
    proof (rule conn_least)
      have "conn (insert (p0, q0) (merged isls ?S)) \<subseteq> conn (set ((p0, q0) # es) \<union> merged isls ?S)" by (intro conn_mono) auto
      moreover have "set es \<subseteq> conn (set ((p0, q0) # es) \<union> merged isls ?S)" by (auto intro: conn_edge)
      ultimately show "set es \<union> merged isls (insert nx ?S) \<subseteq> conn (set ((p0, q0) # es) \<union> merged isls ?S)"
        using merged_insert [OF nx(2) e(2,3)] by blast
    qed
    then show ?thesis using es(4) unfolding spans_def by blast
  qed
  moreover have "sum_list (map (\<lambda>(p, q). d p q) ((p0, q0) # es)) \<le> (\<Sum>(p, q) \<in> F. d p q)" if F: "finite F" "F \<subseteq> ?P \<times> ?P" "spans isls ?S F" for F
  proof -
    obtain F' where F': "F' \<subseteq> F" "spans isls (insert nx ?S) F'" "d p0 q0 + (\<Sum>(p, q) \<in> F'. d p q) \<le> (\<Sum>(p, q) \<in> F. d p q)"
      using prim_exchange [where d = d, OF ok S nx(2,3) e(2,3) least d F] by (elim exE conjE) (rule that)
    have "sum_list (map (\<lambda>(p, q). d p q) es) \<le> (\<Sum>(p, q) \<in> F'. d p q)"
      using F' F(1,2) by (intro es(5)) (auto elim: finite_subset)
    then show ?thesis using F'(3) by simp
  qed
  ultimately show ?case using es(2) by (intro exI [of _ "(p0, q0) # es"]) auto
qed

section \<open>The task list of a report\<close>

lemma pad_dist2_exact:
  assumes "list_all (\<lambda>p. point_ok (pad_center p)) (pads b)" "p < length (pads b)" "q < length (pads b)"
  shows "pad_dist2 b p q = (px (pad_center (pads b ! p)) - px (pad_center (pads b ! q)))\<^sup>2 + (py (pad_center (pads b ! p)) - py (pad_center (pads b ! q)))\<^sup>2"
proof -
  have ok: "point_ok (pad_center (pads b ! p))" "point_ok (pad_center (pads b ! q))" using assms by (auto simp: list_all_length)
  show ?thesis
    unfolding pad_dist2_def Vector_length2_def
    using Vector_products_exact(1) [OF Point_sub_small [OF ok] Point_sub_small [OF ok]] by (simp add: Point_sub_exact [OF ok] power2_eq_square)
qed

text \<open>The pad islands of a validated report are lists of pads of the board, disjoint and not empty, and two pads of a
  net are in one of them exactly when copper joins them.\<close>

definition pad_islands_of :: "net_connectivity \<Rightarrow> pad_id list list" where
  "pad_islands_of net = map island_pads (filter has_pad (islands net))"

lemma in_island_pads: "p \<in> set (island_pads il) \<longleftrightarrow> Ref_Pad p \<in> set il"
proof -
  have "(case i of Ref_Pad p \<Rightarrow> Some p | _ \<Rightarrow> None) = Some p \<longleftrightarrow> i = Ref_Pad p" for i by (cases i) auto
  then show ?thesis unfolding island_pads_def in_set_map_filter by simp
qed

lemma island_pads_component:
  assumes wf: "board_wf b" and q: "q \<in> pad_nodes b n"
  shows "set (island_pads (component (layer_count b) (board_nodes arc b) q)) =
    {p \<in> pad_nodes b n. (q, p) \<in> conn (touching (layer_count b) (board_nodes arc b))}"
proof -
  let ?items = "board_nodes arc b" and ?k = "layer_count b"
  note d = board_refs_distinct [OF wf, of arc]
  have q': "q < length ?items" "fst (snd (?items ! q)) = Some n" using q pad_nodes_own [of q b n arc] by auto
  have ref: "fst (?items ! p) = Ref_Pad p" if "p < length (pads b)" for p
    using that wf by (simp add: pad_node_nth pad_node_def board_wf_def map_is_upt)
  have "Ref_Pad p \<in> set (component ?k ?items q) \<longleftrightarrow> p \<in> pad_nodes b n \<and> (q, p) \<in> conn (touching ?k ?items)" for p
  proof
    assume "Ref_Pad p \<in> set (component ?k ?items q)"
    then obtain y where y: "y < length ?items" "(q, y) \<in> conn (touching ?k ?items)" "fst (?items ! y) = Ref_Pad p"
      by (auto simp: component_def)
    then have "y \<in> pad_nodes b n" using touching_net [OF y(2) q'] pad_nodes_own [of y b n arc] by (auto simp: is_pad_ref_def)
    moreover from this have "y = p" using ref [of y] y(3) by (simp add: pad_nodes_def)
    ultimately show "p \<in> pad_nodes b n \<and> (q, p) \<in> conn (touching ?k ?items)" using y(2) by simp
  next
    assume p: "p \<in> pad_nodes b n \<and> (q, p) \<in> conn (touching ?k ?items)"
    then show "Ref_Pad p \<in> set (component ?k ?items q)"
      using component_mem [of p ?items q ?k] ref [of p] pad_nodes_own [of p b n arc] by (auto simp: pad_nodes_def)
  qed
  then show ?thesis by (intro set_eqI) (simp only: in_island_pads mem_Collect_eq)
qed

lemma pad_islands_of_spec:
  assumes r: "report_for arc b r" and wf: "board_wf b" and n: "n < length (nets b)"
  defines "isls \<equiv> pad_islands_of (report_nets r ! n)"
  shows "islands_ok isls" and "pads_in isls {..<length isls} = pad_nodes b n" and "length isls = pad_island_count (report_nets r ! n)"
    and "\<And>p q. (\<exists>i < length isls. p \<in> set (isls ! i) \<and> q \<in> set (isls ! i)) \<longleftrightarrow>
      p \<in> pad_nodes b n \<and> q \<in> pad_nodes b n \<and> (p, q) \<in> conn (touching (layer_count b) (board_nodes arc b))"
proof -
  let ?T = "conn (touching (layer_count b) (board_nodes arc b))"
  let ?c = "\<lambda>q. {p \<in> pad_nodes b n. (q, p) \<in> ?T}"
  let ?ils = "filter has_pad (islands (report_nets r ! n))"
  have isls: "isls = map island_pads ?ils" by (simp add: isls_def pad_islands_of_def)
  show len: "length isls = pad_island_count (report_nets r ! n)" by (simp add: isls pad_island_count_def)
  have nth: "\<exists>q \<in> pad_nodes b n. ?ils ! i = component (layer_count b) (board_nodes arc b) q \<and> set (isls ! i) = ?c q" if "i < length isls" for i
  proof -
    have "?ils ! i \<in> set ?ils" using that by (intro nth_mem) (simp add: isls)
    then obtain q where "q \<in> pad_nodes b n" "?ils ! i = component (layer_count b) (board_nodes arc b) q"
      unfolding pad_islands(1) [OF r wf n] by blast
    then show ?thesis using island_pads_component [OF wf] that by (auto simp: isls)
  qed
  have ex: "\<exists>i < length isls. set (isls ! i) = ?c q" if "q \<in> pad_nodes b n" for q
  proof -
    have "component (layer_count b) (board_nodes arc b) q \<in> set ?ils" using that unfolding pad_islands(1) [OF r wf n] by blast
    then obtain i where "i < length ?ils" "?ils ! i = component (layer_count b) (board_nodes arc b) q" by (metis in_set_conv_nth)
    then show ?thesis using island_pads_component [OF wf that, of arc] by (intro exI [of _ i]) (simp add: isls)
  qed
  have sym: "(p, q) \<in> ?T \<Longrightarrow> (q, p) \<in> ?T" for p q by (rule conn_sym)
  show joined: "(\<exists>i < length isls. p \<in> set (isls ! i) \<and> q \<in> set (isls ! i)) \<longleftrightarrow> p \<in> pad_nodes b n \<and> q \<in> pad_nodes b n \<and> (p, q) \<in> ?T" for p q
  proof
    assume "\<exists>i < length isls. p \<in> set (isls ! i) \<and> q \<in> set (isls ! i)"
    then obtain i where i: "i < length isls" "p \<in> set (isls ! i)" "q \<in> set (isls ! i)" by blast
    obtain x where "set (isls ! i) = ?c x" using nth [OF i(1)] by blast
    then have "p \<in> ?c x" "q \<in> ?c x" using i by simp_all
    then show "p \<in> pad_nodes b n \<and> q \<in> pad_nodes b n \<and> (p, q) \<in> ?T" using conn_trans [OF sym [of x p]] by blast
  next
    assume pq: "p \<in> pad_nodes b n \<and> q \<in> pad_nodes b n \<and> (p, q) \<in> ?T"
    then have c: "p \<in> ?c p" "q \<in> ?c p" by auto
    obtain i where i: "i < length isls" "set (isls ! i) = ?c p" using ex pq by blast
    show "\<exists>i < length isls. p \<in> set (isls ! i) \<and> q \<in> set (isls ! i)" using i c by (intro exI [of _ i]) simp
  qed
  have "p \<in> pads_in isls {..<length isls} \<longleftrightarrow> p \<in> pad_nodes b n" for p using joined [of p p] by (auto simp: pads_in_def)
  then show "pads_in isls {..<length isls} = pad_nodes b n" by blast
  have "set (isls ! i) \<noteq> {}" if "i < length isls" for i using nth [OF that] by auto
  then have "[] \<notin> set isls" by (metis in_set_conv_nth list.set(1))
  moreover have "set (isls ! i) \<inter> set (isls ! j) = {}" if ij: "i < length isls" "j < length isls" "i \<noteq> j" for i j
  proof (rule ccontr)
    assume "set (isls ! i) \<inter> set (isls ! j) \<noteq> {}"
    then obtain p where p: "p \<in> set (isls ! i)" "p \<in> set (isls ! j)" by blast
    obtain x y where xy: "x \<in> pad_nodes b n" "y \<in> pad_nodes b n" "?ils ! i = component (layer_count b) (board_nodes arc b) x" "set (isls ! i) = ?c x"
        "?ils ! j = component (layer_count b) (board_nodes arc b) y" "set (isls ! j) = ?c y" using nth [OF ij(1)] nth [OF ij(2)] by blast
    then have "(x, y) \<in> ?T" using p conn_trans [OF _ sym [of y p]] by blast
    then have "?ils ! i = ?ils ! j"
      using component_eq [OF board_refs_distinct [OF wf, of arc]] xy pad_nodes_own [of _ b n arc] by auto
    then show False using islands_distinct [OF r wf n] ij by (simp add: isls nth_eq_iff_index_eq)
  qed
  ultimately show "islands_ok isls" by (simp add: islands_ok_def)
qed

text \<open>Joining pads directly or through the copper between them comes to the same.\<close>

lemma conn_contract:
  assumes F: "F \<subseteq> P \<times> P" and p: "p \<in> P" and q: "q \<in> P"
    and same_def: "same = {(u, v). u \<in> P \<and> v \<in> P \<and> (u, v) \<in> conn T}"
  shows "(p, q) \<in> conn (F \<union> same) \<longleftrightarrow> (p, q) \<in> conn (T \<union> F)"
proof
  have "F \<union> same \<subseteq> conn (T \<union> F)" using conn_mono [of T "T \<union> F"] by (auto simp: same_def intro: conn_edge)
  then show "(p, q) \<in> conn (F \<union> same) \<Longrightarrow> (p, q) \<in> conn (T \<union> F)" using conn_least by blast
next
  assume "(p, q) \<in> conn (T \<union> F)"
  then have "(p, q) \<in> ((T \<union> F) \<union> (T \<union> F)\<inverse>)\<^sup>*" by (simp add: conn_def)
  then have "\<exists>x \<in> P. (p, x) \<in> conn (F \<union> same) \<and> (x, q) \<in> conn T"
  proof (induction rule: rtrancl_induct)
    case base
    then show ?case using p by (intro bexI [of _ p]) auto
  next
    case (step y z)
    obtain x where x: "x \<in> P" "(p, x) \<in> conn (F \<union> same)" "(x, y) \<in> conn T" using step.IH by blast
    consider "(y, z) \<in> conn T" | "(y, z) \<in> F \<union> F\<inverse>" using step.hyps(2) conn_edge [of _ _ T] conn_sym [of _ _ T] by blast
    then show ?case
    proof cases
      case 1
      then show ?thesis using x conn_trans [OF x(3)] by blast
    next
      case 2
      have P: "y \<in> P" "z \<in> P" using 2 F by auto
      have "(x, y) \<in> F \<union> same" using x P by (simp add: same_def)
      moreover have "(y, z) \<in> conn (F \<union> same)" using 2 conn_edge [of _ _ "F \<union> same"] conn_sym [of z y "F \<union> same"] by auto
      ultimately have "(p, z) \<in> conn (F \<union> same)" using conn_trans [OF conn_trans [OF x(2) conn_edge]] by blast
      then show ?thesis using P(2) by (intro bexI [of _ z]) auto
    qed
  qed
  then obtain x where x: "x \<in> P" "(p, x) \<in> conn (F \<union> same)" "(x, q) \<in> conn T" by blast
  then have "(x, q) \<in> F \<union> same" using q by (simp add: same_def)
  from conn_trans [OF x(2) conn_edge [OF this]] show "(p, q) \<in> conn (F \<union> same)" .
qed

definition links :: "arc_pts \<Rightarrow> route_board \<Rightarrow> netid \<Rightarrow> (pad_id \<times> pad_id) set \<Rightarrow> bool" where
  "links arc b n F \<longleftrightarrow> (\<forall>p \<in> pad_nodes b n. \<forall>q \<in> pad_nodes b n. (p, q) \<in> conn (touching (layer_count b) (board_nodes arc b) \<union> F))"

lemma spans_links:
  assumes r: "report_for arc b r" and wf: "board_wf b" and n: "n < length (nets b)"
    and isls: "isls = pad_islands_of (report_nets r ! n)" and ne: "isls \<noteq> []" and F: "F \<subseteq> pad_nodes b n \<times> pad_nodes b n"
  shows "spans isls {0} F \<longleftrightarrow> links arc b n F"
proof -
  note I = pad_islands_of_spec [OF r wf n, folded isls]
  have "pads_in isls {0} \<times> pads_in isls {0} \<subseteq> {(p, q). \<exists>i < length isls. p \<in> set (isls ! i) \<and> q \<in> set (isls ! i)}"
    using ne by (auto simp: pads_in_def)
  then have m: "merged isls {0} = {(p, q). p \<in> pad_nodes b n \<and> q \<in> pad_nodes b n \<and> (p, q) \<in> conn (touching (layer_count b) (board_nodes arc b))}"
    unfolding merged_def I(4) by blast
  show ?thesis unfolding spans_def links_def I(2) m using conn_contract [OF F _ _ refl] by blast
qed

lemma net_tasks_spec:
  assumes r: "report_for arc b r" and wf: "board_wf b" and n: "n < length (nets b)"
    and c: "list_all (\<lambda>p. point_ok (pad_center p)) (pads b)"
  shows "\<exists>es. net_tasks b (report_nets r ! n) = Some es \<and> length es = connections_needed (report_nets r ! n) \<and>
    set es \<subseteq> pad_nodes b n \<times> pad_nodes b n \<and> links arc b n (set es) \<and>
    (\<forall>F. finite F \<and> F \<subseteq> pad_nodes b n \<times> pad_nodes b n \<and> links arc b n F \<longrightarrow>
       sum_list (map (\<lambda>(p, q). pad_dist2 b p q) es) \<le> (\<Sum>(p, q) \<in> F. pad_dist2 b p q))"
proof -
  define isls where isls: "isls = pad_islands_of (report_nets r ! n)"
  let ?k = "length isls" and ?P = "pad_nodes b n" and ?d = "pad_dist2 b"
  note I = pad_islands_of_spec [OF r wf n, folded isls]
  have need: "connections_needed (report_nets r ! n) = ?k - 1" by (simp add: connections_needed_def I(3))
  have d: "metric_on ?P ?d" unfolding metric_on_def by (auto simp: pad_nodes_def pad_dist2_exact [OF c] power2_commute)
  show ?thesis
  proof (cases "?k < 2")
    case True
    have "links arc b n {}"
      unfolding links_def
    proof (intro ballI)
      fix p q assume pq: "p \<in> ?P" "q \<in> ?P"
      obtain i j where "i < ?k" "j < ?k" "p \<in> set (isls ! i)" "q \<in> set (isls ! j)" using pq unfolding I(2) [symmetric] pads_in_def by blast
      moreover have "i = j" using calculation(1,2) True by linarith
      ultimately have "\<exists>i < ?k. p \<in> set (isls ! i) \<and> q \<in> set (isls ! i)" by blast
      then show "(p, q) \<in> conn (touching (layer_count b) (board_nodes arc b) \<union> {})" unfolding I(4) by simp
    qed
    moreover have "net_tasks b (report_nets r ! n) = Some []" using True by (simp add: net_tasks_def isls pad_islands_of_def)
    ultimately show ?thesis using need True edge_weight_pos [OF _ d] by auto
  next
    case False
    let ?in = "(replicate ?k False)[0 := True]" and ?best = "map (\<lambda>j. if j \<noteq> 0 then closest ?d (isls ! 0) (isls ! j) else None) [0..<?k]"
    have "p < length (pads b)" if "ps \<in> set isls" "p \<in> set ps" for ps p
    proof -
      have "p \<in> pads_in isls {..<?k}" using that unfolding pads_in_def by (metis UN_I in_set_conv_nth lessThan_iff)
      then show ?thesis unfolding I(2) pad_nodes_def by simp
    qed
    then have "\<not> list_ex (\<lambda>ps. ps = [] \<or> list_ex (\<lambda>p. length (pads b) \<le> p) ps) isls"
      using I(1) by (auto simp: islands_ok_def list_ex_iff not_le)
    then have t: "net_tasks b (report_nets r ! n) = prim_loop ?d isls (?k - 1) ?in ?best"
      unfolding net_tasks_def pad_islands_of_def [symmetric] isls [symmetric] Let_def using False by simp
    have k0: "0 < ?k" using False by linarith
    have tree: "tree_set ?in = {0}" using k0 by (auto simp: tree_set_def nth_list_update split: if_splits)
    have "best_ok ?d isls {0} ?best"
      unfolding best_ok_def
    proof (intro allI impI)
      fix j assume j: "j < ?k" "j \<notin> {0}"
      then have "isls ! 0 \<noteq> []" "isls ! j \<noteq> []" using I(1) False by (metis islands_ok_def nth_mem less_trans zero_less_iff_neq_zero insertI1)+
      from closest_spec [OF this, of ?d] show "\<exists>p q. ?best ! j = Some (?d p q, p, q) \<and> p \<in> pads_in isls {0} \<and> q \<in> set (isls ! j) \<and>
          (\<forall>p' \<in> pads_in isls {0}. \<forall>q' \<in> set (isls ! j). ?d p q \<le> ?d p' q')" using j by (simp add: pads_in_def)
    qed
    moreover have "{j. j < ?k \<and> \<not> ?in ! j} = {..<?k} - {0}" using k0 by (auto simp: nth_list_update split: if_splits)
    then have "card {j. j < ?k \<and> \<not> ?in ! j} = ?k - 1" using k0 by (simp add: card_Diff_singleton)
    ultimately obtain es where es: "prim_loop ?d isls (?k - 1) ?in ?best = Some es" "length es = ?k - 1" "set es \<subseteq> ?P \<times> ?P" "spans isls {0} (set es)"
        "\<forall>F. finite F \<and> F \<subseteq> ?P \<times> ?P \<and> spans isls {0} F \<longrightarrow> sum_list (map (\<lambda>(p, q). ?d p q) es) \<le> (\<Sum>(p, q) \<in> F. ?d p q)"
      using prim_loop_tree [OF I(1), of ?d ?in ?best "?k - 1"] d unfolding tree I(2) by auto
    have ne: "isls \<noteq> []" using False by auto
    have S: "spans isls {0} F \<longleftrightarrow> links arc b n F" if "F \<subseteq> ?P \<times> ?P" for F by (rule spans_links [OF r wf n isls ne that])
    show ?thesis unfolding t need using es S by (intro exI [of _ es]) (auto simp del: One_nat_def)
  qed
qed

lemma push_tasks:
  "foldl (\<lambda>out (from, to). out @ [\<lparr>conn_id = as_u32 (length out), conn_net = n, conn_from = Ref_Pad from, conn_to = Ref_Pad to\<rparr>]) out es =
     out @ map (\<lambda>(i, from, to). \<lparr>conn_id = as_u32 i, conn_net = n, conn_from = Ref_Pad from, conn_to = Ref_Pad to\<rparr>) (enumerate (length out) es)"
  by (induction es arbitrary: out) auto

lemma connections_loop_spec:
  assumes "\<And>net. net \<in> set ns \<Longrightarrow> net_tasks b net = Some (tk net)" "map conn_id out = map as_u32 [0..<length out]"
  shows "\<exists>cs. connections_loop b ns out = Some (out @ cs) \<and> map conn_id (out @ cs) = map as_u32 [0..<length (out @ cs)] \<and>
    map (\<lambda>c. (conn_net c, conn_from c, conn_to c)) cs = concat (map (\<lambda>net. map (\<lambda>(p, q). (nc_net net, Ref_Pad p, Ref_Pad q)) (tk net)) ns)"
  using assms
proof (induction ns arbitrary: out)
  case (Cons net ns)
  let ?new = "map (\<lambda>(i, from, to). \<lparr>conn_id = as_u32 i, conn_net = nc_net net, conn_from = Ref_Pad from, conn_to = Ref_Pad to\<rparr>) (enumerate (length out) (tk net))"
  have ids: "map conn_id (out @ ?new) = map as_u32 [0..<length (out @ ?new)]"
  proof -
    have "map conn_id ?new = map as_u32 (map fst (enumerate (length out) (tk net)))" unfolding map_map by (rule map_cong) auto
    also have "\<dots> = map as_u32 [length out..<length out + length (tk net)]" by simp
    finally show ?thesis unfolding map_append Cons.prems(2)
      using upt_add_eq_append [of 0 "length out" "length (tk net)"] by (simp del: map_map)
  qed
  have "map (\<lambda>c. (conn_net c, conn_from c, conn_to c)) ?new = map (\<lambda>(p, q). (nc_net net, Ref_Pad p, Ref_Pad q)) (map snd (enumerate (length out) (tk net)))"
    by (simp add: case_prod_unfold comp_def del: map_snd_enumerate)
  then have new: "map (\<lambda>c. (conn_net c, conn_from c, conn_to c)) ?new = map (\<lambda>(p, q). (nc_net net, Ref_Pad p, Ref_Pad q)) (tk net)" by simp
  obtain cs where cs: "connections_loop b ns (out @ ?new) = Some ((out @ ?new) @ cs)" "map conn_id ((out @ ?new) @ cs) = map as_u32 [0..<length ((out @ ?new) @ cs)]"
      "map (\<lambda>c. (conn_net c, conn_from c, conn_to c)) cs = concat (map (\<lambda>net. map (\<lambda>(p, q). (nc_net net, Ref_Pad p, Ref_Pad q)) (tk net)) ns)"
    using Cons.IH [OF _ ids] Cons.prems(1) by auto
  have "connections_loop b (net # ns) out = Some (out @ (?new @ cs))"
    using Cons.prems(1) [of net] cs(1) by (simp add: push_tasks)
  moreover have "map conn_id (out @ (?new @ cs)) = map as_u32 [0..<length (out @ (?new @ cs))]" using cs(2) by (simp only: append_assoc)
  moreover have "map (\<lambda>c. (conn_net c, conn_from c, conn_to c)) (?new @ cs) =
      concat (map (\<lambda>net. map (\<lambda>(p, q). (nc_net net, Ref_Pad p, Ref_Pad q)) (tk net)) (net # ns))"
    unfolding map_append new cs(3) by simp
  ultimately show ?case by blast
qed simp

lemma connections_spec:
  assumes r: "report_for arc b r" and wf: "board_wf b" and c: "list_all (\<lambda>p. point_ok (pad_center p)) (pads b)"
  shows "\<exists>cs tasks. connections r b = Some cs \<and> map conn_id cs = map as_u32 [0..<length cs] \<and> length cs = connection_count r \<and>
    map (\<lambda>c. (conn_net c, conn_from c, conn_to c)) cs = concat (map (\<lambda>n. map (\<lambda>(p, q). (n, Ref_Pad p, Ref_Pad q)) (tasks n)) [0..<length (nets b)]) \<and>
    (\<forall>n < length (nets b). length (tasks n) = connections_needed (report_nets r ! n) \<and>
      set (tasks n) \<subseteq> pad_nodes b n \<times> pad_nodes b n \<and> links arc b n (set (tasks n)) \<and>
      (\<forall>F. finite F \<and> F \<subseteq> pad_nodes b n \<times> pad_nodes b n \<and> links arc b n F \<longrightarrow>
         sum_list (map (\<lambda>(p, q). pad_dist2 b p q) (tasks n)) \<le> (\<Sum>(p, q) \<in> F. pad_dist2 b p q)))"
proof -
  let ?N = "length (nets b)"
  define tk where "tk net = the (net_tasks b net)" for net
  define tasks where "tasks n = tk (report_nets r ! n)" for n
  have T: "net_tasks b (report_nets r ! n) = Some (tasks n) \<and> length (tasks n) = connections_needed (report_nets r ! n) \<and>
      set (tasks n) \<subseteq> pad_nodes b n \<times> pad_nodes b n \<and> links arc b n (set (tasks n)) \<and>
      (\<forall>F. finite F \<and> F \<subseteq> pad_nodes b n \<times> pad_nodes b n \<and> links arc b n F \<longrightarrow>
         sum_list (map (\<lambda>(p, q). pad_dist2 b p q) (tasks n)) \<le> (\<Sum>(p, q) \<in> F. pad_dist2 b p q))" if "n < ?N" for n
    using net_tasks_spec [OF r wf that c] unfolding tasks_def tk_def by (elim exE conjE) (intro conjI; simp only: option.sel)
  note m = report_nets_map [OF r]
  have "net_tasks b net = Some (tk net)" if net: "net \<in> set (report_nets r)" for net
  proof -
    obtain n where "n < ?N" "net = report_nets r ! n" using net r by (auto simp: in_set_conv_nth report_for_def)
    then show ?thesis using T [of n] by (simp add: tasks_def)
  qed
  then have "\<exists>cs. connections_loop b (report_nets r) [] = Some cs \<and> map conn_id cs = map as_u32 [0..<length cs] \<and>
      map (\<lambda>c. (conn_net c, conn_from c, conn_to c)) cs = concat (map (\<lambda>net. map (\<lambda>(p, q). (nc_net net, Ref_Pad p, Ref_Pad q)) (tk net)) (report_nets r))"
    using connections_loop_spec [of "report_nets r" b tk "[]"] by simp
  then obtain cs where cs: "connections r b = Some cs" "map conn_id cs = map as_u32 [0..<length cs]"
      "map (\<lambda>c. (conn_net c, conn_from c, conn_to c)) cs = concat (map (\<lambda>net. map (\<lambda>(p, q). (nc_net net, Ref_Pad p, Ref_Pad q)) (tk net)) (report_nets r))"
    by (auto simp: connections_def)
  have "map (\<lambda>net. map (\<lambda>(p, q). (nc_net net, Ref_Pad p, Ref_Pad q)) (tk net)) (report_nets r) = map (\<lambda>n. map (\<lambda>(p, q). (n, Ref_Pad p, Ref_Pad q)) (tasks n)) [0..<?N]"
    by (subst m) (simp add: comp_def tasks_def report_forD(1) [OF r] cong: map_cong)
  then have e: "map (\<lambda>c. (conn_net c, conn_from c, conn_to c)) cs = concat (map (\<lambda>n. map (\<lambda>(p, q). (n, Ref_Pad p, Ref_Pad q)) (tasks n)) [0..<?N])"
    unfolding cs(3) by simp
  have "length cs = sum_list (map (\<lambda>n. length (tasks n)) [0..<?N])"
    using arg_cong [OF e, of length] by (simp add: length_concat comp_def)
  also have "\<dots> = sum_list (map (\<lambda>n. connections_needed (report_nets r ! n)) [0..<?N])"
    using T by (intro arg_cong [of _ _ sum_list] map_cong) auto
  also have "\<dots> = connection_count r" unfolding connection_count_def by (subst (2) m) (simp add: comp_def)
  finally show ?thesis using cs(1,2) e T by blast
qed

section \<open>Property\<close>

text \<open>C6. The task list is a minimum spanning tree. On a validated board the list is produced, numbered from zero, net by
  net, with as many connections as the report says are needed; on every net the connections together with the copper
  already there join all pads, and no other set of pad-to-pad connections that does so has a smaller total squared
  length.\<close>

theorem connections_minimum_tree:
  assumes "rtree_law R contents" "board_fits arc b" "validate b = None" "length (nets b) \<le> 2 ^ 32"
    and "list_all (\<lambda>p. point_ok (pad_center p)) (pads b)"
  shows "\<exists>r cs tasks. build R arc b = Some r \<and> connections r b = Some cs \<and> map conn_id cs = map as_u32 [0..<length cs] \<and>
    length cs = connection_count r \<and>
    map (\<lambda>c. (conn_net c, conn_from c, conn_to c)) cs = concat (map (\<lambda>n. map (\<lambda>(p, q). (n, Ref_Pad p, Ref_Pad q)) (tasks n)) [0..<length (nets b)]) \<and>
    (\<forall>n < length (nets b). length (tasks n) = connections_needed (report_nets r ! n) \<and>
      set (tasks n) \<subseteq> pad_nodes b n \<times> pad_nodes b n \<and> links arc b n (set (tasks n)) \<and>
      (\<forall>F. finite F \<and> F \<subseteq> pad_nodes b n \<times> pad_nodes b n \<and> links arc b n F \<longrightarrow>
         sum_list (map (\<lambda>(p, q). pad_dist2 b p q) (tasks n)) \<le> (\<Sum>(p, q) \<in> F. pad_dist2 b p q)))"
proof -
  obtain r where r: "build R arc b = Some r" "report_for arc b r" using build_spec [OF assms(1,2,4)] by blast
  have wf: "board_wf b" using assms(3) by (simp only: validate_iff)
  from connections_spec [OF r(2) wf assms(5)] obtain cs tasks where "connections r b = Some cs \<and> map conn_id cs = map as_u32 [0..<length cs] \<and>
    length cs = connection_count r \<and>
    map (\<lambda>c. (conn_net c, conn_from c, conn_to c)) cs = concat (map (\<lambda>n. map (\<lambda>(p, q). (n, Ref_Pad p, Ref_Pad q)) (tasks n)) [0..<length (nets b)]) \<and>
    (\<forall>n < length (nets b). length (tasks n) = connections_needed (report_nets r ! n) \<and>
      set (tasks n) \<subseteq> pad_nodes b n \<times> pad_nodes b n \<and> links arc b n (set (tasks n)) \<and>
      (\<forall>F. finite F \<and> F \<subseteq> pad_nodes b n \<times> pad_nodes b n \<and> links arc b n F \<longrightarrow>
         sum_list (map (\<lambda>(p, q). pad_dist2 b p q) (tasks n)) \<le> (\<Sum>(p, q) \<in> F. pad_dist2 b p q)))" by (elim exE)
  then show ?thesis using r(1) by (intro exI [of _ r] exI [of _ cs] exI [of _ tasks] conjI) (elim conjE, assumption)+
qed

theorem connections_minimum_tree_witness:
  "\<exists>r cs. build scan_rtree (\<lambda>s m e. [s, e]) demo_board = Some r \<and> connections r demo_board = Some cs \<and> length cs = connection_count r"
proof -
  have v: "validate demo_board = None" by code_simp
  have l: "length (nets demo_board) \<le> 2 ^ 32" by (simp add: demo_board_def)
  have c: "list_all (\<lambda>p. point_ok (pad_center p)) (pads demo_board)" by code_simp
  from connections_minimum_tree [OF scan_rtree_law demo_fits v l c] show ?thesis by (elim exE conjE) (intro exI conjI)
qed

end
