(* ===== verification/Rule_Condition.thy ===== *)
theory Rule_Condition
  imports Sexp_Read Route_Board "HOL-Library.While_Combinator"
begin

text \<open>
  The condition language of design rules, \<open>crates/konnect-route/src/rules/condition.rs\<close>: wildcard matching, tokens,
  the recursive-descent parser and evaluation. A Rust \<open>char\<close> is the string of its UTF-8 bytes, so a text is the
  concatenation of its characters. The Unicode lower-case tables of the standard library are the parameter
  \<open>unicode\<close>. A parser function takes fuel and returns \<^const>\<open>None\<close> when it runs out; \<open>parse_toks\<close> gives enough.
  An error keeps the reason as a constructor instead of its message.
\<close>

section \<open>Characters\<close>

type_synonym uchar = string

definition char_len :: "char \<Rightarrow> nat" where
  "char_len c = (let n = byte_nat c in if n < 0x80 then 1 else if n < 0xE0 then 2 else if n < 0xF0 then 3 else 4)"

function chars :: "string \<Rightarrow> uchar list" where
  "chars [] = []"
| "chars (c # s) = (c # take (char_len c - 1) s) # chars (drop (char_len c - 1) s)"
  by pat_completeness auto
termination
  by (relation "measure length") auto

record unicode =
  lower_char :: "uchar \<Rightarrow> uchar list"
  lower_str :: "string \<Rightarrow> string"

definition is_whitespace :: "uchar \<Rightarrow> bool" where
  "is_whitespace c \<longleftrightarrow> 0 < ws_len c"

definition is_ascii_alphabetic :: "uchar \<Rightarrow> bool" where
  "is_ascii_alphabetic c = (case c of [b] \<Rightarrow> (let n = byte_nat b in 65 \<le> n \<and> n \<le> 90 \<or> 97 \<le> n \<and> n \<le> 122) | _ \<Rightarrow> False)"

definition is_ascii_alphanumeric :: "uchar \<Rightarrow> bool" where
  "is_ascii_alphanumeric c \<longleftrightarrow>
     is_ascii_alphabetic c \<or> (case c of [b] \<Rightarrow> 48 \<le> byte_nat b \<and> byte_nat b \<le> 57 | _ \<Rightarrow> False)"

section \<open>Wildcards\<close>

record wildcard_state =
  wm_p :: nat
  wm_t :: nat
  wm_star :: "nat option"
  wm_retry :: nat
  wm_failed :: bool

definition wildcard_step :: "uchar list \<Rightarrow> uchar list \<Rightarrow> wildcard_state \<Rightarrow> wildcard_state" where
  "wildcard_step pat s st =
     (let p = wm_p st; t = wm_t st in
      if p < length pat \<and> (pat ! p = ''?'' \<or> pat ! p = s ! t) then st\<lparr>wm_p := p + 1, wm_t := t + 1\<rparr>
      else if p < length pat \<and> pat ! p = ''*'' then st\<lparr>wm_star := Some p, wm_retry := t, wm_p := p + 1\<rparr>
      else case wm_star st of
          Some k \<Rightarrow> st\<lparr>wm_p := k + 1, wm_retry := wm_retry st + 1, wm_t := wm_retry st + 1\<rparr>
        | None \<Rightarrow> st\<lparr>wm_failed := True\<rparr>)"

definition wildcard_run :: "uchar list \<Rightarrow> uchar list \<Rightarrow> wildcard_state option" where
  "wildcard_run pat s = while_option (\<lambda>st. \<not> wm_failed st \<and> wm_t st < length s) (wildcard_step pat s)
     \<lparr>wm_p = 0, wm_t = 0, wm_star = None, wm_retry = 0, wm_failed = False\<rparr>"

definition wildcard_match_chars :: "uchar list \<Rightarrow> uchar list \<Rightarrow> bool" where
  "wildcard_match_chars pat s = (case wildcard_run pat s of
       None \<Rightarrow> False
     | Some st \<Rightarrow> \<not> wm_failed st \<and> dropWhile (\<lambda>c. c = ''*'') (drop (wm_p st) pat) = [])"

definition fold_case :: "unicode \<Rightarrow> bool \<Rightarrow> string \<Rightarrow> uchar list" where
  "fold_case U case_sensitive s = (if case_sensitive then chars s else concat (map (lower_char U) (chars s)))"

definition wildcard_matches :: "unicode \<Rightarrow> string \<Rightarrow> string \<Rightarrow> bool \<Rightarrow> bool" where
  "wildcard_matches U pattern name case_sensitive =
     wildcard_match_chars (fold_case U case_sensitive pattern) (fold_case U case_sensitive name)"

definition is_wildcard :: "string \<Rightarrow> bool" where
  "is_wildcard s \<longleftrightarrow> ''*'' \<in> set (chars s) \<or> ''?'' \<in> set (chars s)"

section \<open>Expressions\<close>

datatype obj = Obj_A | Obj_B

datatype prop_name = NetName | NetClass | Type | Reference

datatype operand = Prop obj prop_name | Lit string

datatype expr =
    E_True
  | E_Or expr expr
  | E_And expr expr
  | E_Not expr
  | E_Cmp operand operand bool
  | IntersectsCourtyard obj footprint_id
  | EnclosedByArea obj string

record subject_view =
  view_prop :: "prop_name \<Rightarrow> string"
  intersects_courtyard :: "footprint_id \<Rightarrow> bool"
  enclosed_by_area :: "string \<Rightarrow> bool"

definition pick_obj :: "subject_view \<Rightarrow> subject_view option \<Rightarrow> obj \<Rightarrow> subject_view option" where
  "pick_obj a b x = (case x of Obj_A \<Rightarrow> Some a | Obj_B \<Rightarrow> b)"

definition operand_value :: "subject_view \<Rightarrow> subject_view option \<Rightarrow> operand \<Rightarrow> string \<times> bool" where
  "operand_value a b x = (case x of
       Lit s \<Rightarrow> (s, True)
     | Prop k p \<Rightarrow> (case pick_obj a b k of None \<Rightarrow> [] | Some v \<Rightarrow> view_prop v p, False))"

definition values_equal :: "unicode \<Rightarrow> string \<times> bool \<Rightarrow> string \<times> bool \<Rightarrow> bool" where
  "values_equal U x y = (case (x, y) of ((l, l_lit), (r, r_lit)) \<Rightarrow>
     if r_lit \<and> is_wildcard r then wildcard_matches U r l False
     else if l_lit \<and> is_wildcard l then wildcard_matches U l r False
     else lower_str U l = lower_str U r)"

fun eval :: "unicode \<Rightarrow> expr \<Rightarrow> subject_view \<Rightarrow> subject_view option \<Rightarrow> bool" where
  "eval U E_True a b = True"
| "eval U (E_Or l r) a b = (eval U l a b \<or> eval U r a b)"
| "eval U (E_And l r) a b = (eval U l a b \<and> eval U r a b)"
| "eval U (E_Not e) a b = (\<not> eval U e a b)"
| "eval U (E_Cmp lhs rhs negated) a b =
     (values_equal U (operand_value a b lhs) (operand_value a b rhs) \<noteq> negated)"
| "eval U (IntersectsCourtyard k f) a b = (case pick_obj a b k of None \<Rightarrow> False | Some v \<Rightarrow> intersects_courtyard v f)"
| "eval U (EnclosedByArea k area) a b = (case pick_obj a b k of None \<Rightarrow> False | Some v \<Rightarrow> enclosed_by_area v area)"

section \<open>Tokens\<close>

datatype tok = T_Ident string | T_Str string | T_And | T_Or | T_Not | T_Eq | T_Ne | T_LParen | T_RParen

datatype cond_error =
    Unterminated_String
  | Unsupported_Character uchar
  | Trailing_Input nat
  | Expected_Token tok "tok option"
  | Expects_String_Argument string "tok option"
  | Unknown_Footprint string
  | Unknown_Area string
  | Unsupported_Function string
  | Expected_Comparison "tok option"
  | Unsupported_Property string
  | Expected_Operand "tok option"
  | Not_A_Member string

definition ident_start :: "uchar \<Rightarrow> bool" where
  "ident_start c \<longleftrightarrow> is_ascii_alphabetic c \<or> c = ''_''"

definition ident_char :: "uchar \<Rightarrow> bool" where
  "ident_char c \<longleftrightarrow> is_ascii_alphanumeric c \<or> c = ''_'' \<or> c = ''.''"

definition push_tok :: "tok \<Rightarrow> cond_error + tok list \<Rightarrow> cond_error + tok list" where
  "push_tok t r = map_sum (\<lambda>e. e) (Cons t) r"

text \<open>The loop over \<open>chars[i..]\<close>.\<close>

function (sequential) tokenize_chars :: "uchar list \<Rightarrow> cond_error + tok list" where
  "tokenize_chars [] = Inr []"
| "tokenize_chars (c # cs) =
     (let next = (case cs of [] \<Rightarrow> None | d # _ \<Rightarrow> Some d) in
      if is_whitespace c then tokenize_chars cs
      else if c = ''('' then push_tok T_LParen (tokenize_chars cs)
      else if c = '')'' then push_tok T_RParen (tokenize_chars cs)
      else if c = ''&'' \<and> next = Some ''&'' then push_tok T_And (tokenize_chars (tl cs))
      else if c = ''|'' \<and> next = Some ''|'' then push_tok T_Or (tokenize_chars (tl cs))
      else if c = ''='' \<and> next = Some ''='' then push_tok T_Eq (tokenize_chars (tl cs))
      else if c = ''!'' \<and> next = Some ''='' then push_tok T_Ne (tokenize_chars (tl cs))
      else if c = ''!'' then push_tok T_Not (tokenize_chars cs)
      else if c = [CHR 0x27] then
        (case dropWhile (\<lambda>d. d \<noteq> [CHR 0x27]) cs of
           [] \<Rightarrow> Inl Unterminated_String
         | _ # rest \<Rightarrow> push_tok (T_Str (concat (takeWhile (\<lambda>d. d \<noteq> [CHR 0x27]) cs))) (tokenize_chars rest))
      else if ident_start c then
        push_tok (T_Ident (concat (takeWhile ident_char (c # cs)))) (tokenize_chars (dropWhile ident_char cs))
      else Inl (Unsupported_Character c))"
  by pat_completeness auto
termination
proof (relation "measure length")
  have "length (dropWhile P xs) \<le> length xs" for P and xs :: "uchar list"
    by (rule length_dropWhile_le)
  then show "\<And>c cs x. (dropWhile ident_char cs, c # cs) \<in> measure length"
    by (simp add: le_imp_less_Suc)
  show "(rest, c # cs) \<in> measure length" if "dropWhile (\<lambda>d. d \<noteq> [CHR 0x27]) cs = x # rest" for c x rest and cs :: "uchar list"
    using length_dropWhile_le [of "\<lambda>d. d \<noteq> [CHR 0x27]" cs] that by simp
qed (auto simp: le_imp_less_Suc)

definition tokenize :: "string \<Rightarrow> cond_error + tok list" where
  "tokenize src = tokenize_chars (chars src)"

section \<open>Parser\<close>

record name_resolver =
  resolve_footprint :: "string \<Rightarrow> footprint_id option"
  has_area :: "string \<Rightarrow> bool"

fun split_once :: "char \<Rightarrow> string \<Rightarrow> (string \<times> string) option" where
  "split_once c [] = None"
| "split_once c (x # s) = (if x = c then Some ([], s) else map_option (\<lambda>(a, b). (x # a, b)) (split_once c s))"

definition split_member :: "string \<Rightarrow> cond_error + obj \<times> string" where
  "split_member name = (case split_once CHR ''.'' name of
       None \<Rightarrow> Inl (Not_A_Member name)
     | Some (pre, member) \<Rightarrow>
         if pre = ''A'' then Inr (Obj_A, member) else if pre = ''B'' then Inr (Obj_B, member) else Inl (Not_A_Member name))"

definition bump :: "tok list \<Rightarrow> tok option \<times> tok list" where
  "bump ts = (case ts of [] \<Rightarrow> (None, []) | t # r \<Rightarrow> (Some t, r))"

definition expect :: "tok \<Rightarrow> tok list \<Rightarrow> cond_error + tok list" where
  "expect want ts = (case bump ts of (t, r) \<Rightarrow> if t = Some want then Inr r else Inl (Expected_Token want t))"

definition prop_of :: "string \<Rightarrow> prop_name option" where
  "prop_of s = (if s = ''NetName'' then Some NetName else if s = ''NetClass'' then Some NetClass
     else if s = ''Type'' then Some Type else if s = ''Reference'' then Some Reference else None)"

definition p_operand :: "tok list \<Rightarrow> cond_error + operand \<times> tok list" where
  "p_operand ts = (case bump ts of
       (Some (T_Str s), r) \<Rightarrow> Inr (Lit s, r)
     | (Some (T_Ident name), r) \<Rightarrow> (case split_member name of
           Inl e \<Rightarrow> Inl e
         | Inr (k, p) \<Rightarrow> (case prop_of p of None \<Rightarrow> Inl (Unsupported_Property p) | Some q \<Rightarrow> Inr (Prop k q, r)))
     | (t, r) \<Rightarrow> Inl (Expected_Operand t))"

definition call_of :: "name_resolver \<Rightarrow> string \<Rightarrow> string \<Rightarrow> cond_error + expr" where
  "call_of N name arg = (case split_member name of
       Inl e \<Rightarrow> Inl e
     | Inr (k, func) \<Rightarrow>
         if func = ''intersectsCourtyard'' then
           (case resolve_footprint N arg of Some f \<Rightarrow> Inr (IntersectsCourtyard k f) | None \<Rightarrow> Inl (Unknown_Footprint arg))
         else if func = ''enclosedByArea'' then
           (if has_area N arg then Inr (EnclosedByArea k arg) else Inl (Unknown_Area arg))
         else Inl (Unsupported_Function func))"

definition call :: "name_resolver \<Rightarrow> string \<Rightarrow> tok list \<Rightarrow> cond_error + expr \<times> tok list" where
  "call N name ts = (case bump ts of
       (Some (T_Str arg), r) \<Rightarrow> (case expect T_RParen r of
           Inl e \<Rightarrow> Inl e
         | Inr r' \<Rightarrow> map_sum (\<lambda>e. e) (\<lambda>x. (x, r')) (call_of N name arg))
     | (t, r) \<Rightarrow> Inl (Expects_String_Argument name t))"

definition comparison :: "tok list \<Rightarrow> cond_error + expr \<times> tok list" where
  "comparison ts = (case p_operand ts of Inl e \<Rightarrow> Inl e
     | Inr (lhs, r) \<Rightarrow> (case bump r of (t, r1) \<Rightarrow>
         if t = Some T_Eq \<or> t = Some T_Ne then
           (case p_operand r1 of Inl e \<Rightarrow> Inl e | Inr (rhs, r2) \<Rightarrow> Inr (E_Cmp lhs rhs (t = Some T_Ne), r2))
         else Inl (Expected_Comparison t)))"

type_synonym parse_result = "(cond_error + expr \<times> tok list) option"

definition and_then :: "parse_result \<Rightarrow> (expr \<Rightarrow> tok list \<Rightarrow> parse_result) \<Rightarrow> parse_result" where
  "and_then m k = (case m of None \<Rightarrow> None | Some (Inl e) \<Rightarrow> Some (Inl e) | Some (Inr (x, r)) \<Rightarrow> k x r)"

definition peek :: "tok list \<Rightarrow> tok option" where
  "peek ts = (case ts of [] \<Rightarrow> None | t # _ \<Rightarrow> Some t)"

text \<open>An identifier immediately followed by an opening parenthesis.\<close>

definition call_head :: "tok list \<Rightarrow> string option" where
  "call_head ts = (case ts of T_Ident name # T_LParen # _ \<Rightarrow> Some name | _ \<Rightarrow> None)"

function p_or :: "name_resolver \<Rightarrow> nat \<Rightarrow> tok list \<Rightarrow> parse_result"
  and or_loop :: "name_resolver \<Rightarrow> nat \<Rightarrow> expr \<Rightarrow> tok list \<Rightarrow> parse_result"
  and p_and :: "name_resolver \<Rightarrow> nat \<Rightarrow> tok list \<Rightarrow> parse_result"
  and and_loop :: "name_resolver \<Rightarrow> nat \<Rightarrow> expr \<Rightarrow> tok list \<Rightarrow> parse_result"
  and p_unary :: "name_resolver \<Rightarrow> nat \<Rightarrow> tok list \<Rightarrow> parse_result"
  and p_primary :: "name_resolver \<Rightarrow> nat \<Rightarrow> tok list \<Rightarrow> parse_result" where
  "p_or N 0 ts = None"
| "p_or N (Suc n) ts = and_then (p_and N n ts) (\<lambda>x r. or_loop N n x r)"
| "or_loop N 0 x ts = None"
| "or_loop N (Suc n) x ts =
     (if peek ts = Some T_Or then and_then (p_and N n (tl ts)) (\<lambda>y r. or_loop N n (E_Or x y) r) else Some (Inr (x, ts)))"
| "p_and N 0 ts = None"
| "p_and N (Suc n) ts = and_then (p_unary N n ts) (\<lambda>x r. and_loop N n x r)"
| "and_loop N 0 x ts = None"
| "and_loop N (Suc n) x ts =
     (if peek ts = Some T_And then and_then (p_unary N n (tl ts)) (\<lambda>y r. and_loop N n (E_And x y) r) else Some (Inr (x, ts)))"
| "p_unary N 0 ts = None"
| "p_unary N (Suc n) ts =
     (if peek ts = Some T_Not then and_then (p_unary N n (tl ts)) (\<lambda>x r. Some (Inr (E_Not x, r))) else p_primary N n ts)"
| "p_primary N 0 ts = None"
| "p_primary N (Suc n) ts =
     (if peek ts = Some T_LParen
      then and_then (p_or N n (tl ts)) (\<lambda>x r. Some (map_sum (\<lambda>e. e) (\<lambda>r'. (x, r')) (expect T_RParen r)))
      else case call_head ts of
          Some name \<Rightarrow> Some (call N name (tl (tl ts)))
        | None \<Rightarrow> Some (comparison ts))"
  by pat_completeness auto
termination
  by (relation "measure (\<lambda>x. case x of
        Inl (Inl (_, n, _)) \<Rightarrow> n | Inl (Inr (Inl (_, n, _))) \<Rightarrow> n | Inl (Inr (Inr (_, n, _))) \<Rightarrow> n
      | Inr (Inl (_, n, _)) \<Rightarrow> n | Inr (Inr (Inl (_, n, _))) \<Rightarrow> n | Inr (Inr (Inr (_, n, _))) \<Rightarrow> n)") auto

definition parse_toks :: "name_resolver \<Rightarrow> tok list \<Rightarrow> parse_result" where
  "parse_toks N ts = p_or N (5 * length ts + 5) ts"

text \<open>\<open>parse_condition\<close>; the fuel never runs out (\<open>parse_toks_total\<close>).\<close>

definition parse_condition :: "name_resolver \<Rightarrow> string \<Rightarrow> cond_error + expr" where
  "parse_condition N src = (case tokenize src of
       Inl e \<Rightarrow> Inl e
     | Inr ts \<Rightarrow> (case parse_toks N ts of
           Some (Inl e) \<Rightarrow> Inl e
         | Some (Inr (x, r)) \<Rightarrow> if r = [] then Inr x else Inl (Trailing_Input (length ts - length r))
         | None \<Rightarrow> Inl (Trailing_Input 0)))"

section \<open>Characters of a text\<close>

lemma concat_chars [simp]: "concat (chars s) = s"
  by (induction s rule: chars.induct) auto

section \<open>Wildcard matching\<close>

text \<open>What a pattern means: a star stands for any run of characters, a question mark for any one character.\<close>

fun wild :: "uchar list \<Rightarrow> uchar list \<Rightarrow> bool" where
  "wild [] s = (s = [])"
| "wild (c # pat) s =
     (if c = ''*'' then (\<exists>k \<in> {..length s}. wild pat (drop k s))
      else case s of [] \<Rightarrow> False | x # s' \<Rightarrow> (c = ''?'' \<or> c = x) \<and> wild pat s')"

definition char_fits :: "uchar \<Rightarrow> uchar \<Rightarrow> bool" where
  "char_fits c x \<longleftrightarrow> c = ''?'' \<or> c = x"

lemma wild_segment:
  "''*'' \<notin> set q \<Longrightarrow> wild (q @ r) s \<longleftrightarrow>
     length q \<le> length s \<and> list_all2 char_fits q (take (length q) s) \<and> wild r (drop (length q) s)"
  by (induction q arbitrary: s) (auto simp: char_fits_def split: list.splits)

lemma wild_star: "wild (''*'' # r) s \<longleftrightarrow> (\<exists>k \<le> length s. wild r (drop k s))"
  by auto

lemma wild_star_drop: "wild (''*'' # r) (drop k s) \<Longrightarrow> i \<le> k \<Longrightarrow> wild (''*'' # r) (drop i s)"
proof -
  assume w: "wild (''*'' # r) (drop k s)" and i: "i \<le> k"
  then obtain j where j: "j \<le> length s - k" "wild r (drop (j + k) s)" by (auto simp: wild_star)
  show ?thesis
  proof (cases "k \<le> length s")
    case True
    then show ?thesis using j i unfolding wild_star by (intro exI [of _ "j + k - i"]) auto
  next
    case False
    then have "wild r []" using j by simp
    then show ?thesis unfolding wild_star by (intro exI [of _ "length s - i"]) auto
  qed
qed

lemma wild_nil: "wild pat [] \<longleftrightarrow> dropWhile (\<lambda>c. c = ''*'') pat = []"
  by (induction pat) auto

lemma wild_drop_step:
  assumes "p < length pat" "t < length s" "pat ! p \<noteq> ''*''"
  shows "wild (drop p pat) (drop t s) \<longleftrightarrow> char_fits (pat ! p) (s ! t) \<and> wild (drop (Suc p) pat) (drop (Suc t) s)"
  using assms by (simp add: char_fits_def flip: Cons_nth_drop_Suc)

lemma wild_drop_star:
  assumes "p < length pat" "pat ! p = ''*''" "t \<le> length s"
  shows "wild (drop p pat) (drop t s) \<longleftrightarrow> (\<exists>k \<ge> t. k \<le> length s \<and> wild (drop (Suc p) pat) (drop k s))"
proof -
  have "wild (drop p pat) (drop t s) \<longleftrightarrow> wild (''*'' # drop (Suc p) pat) (drop t s)"
    using assms by (metis Cons_nth_drop_Suc)
  also have "\<dots> \<longleftrightarrow> (\<exists>k \<le> length s - t. wild (drop (Suc p) pat) (drop (k + t) s))"
    unfolding wild_star by simp
  also have "\<dots> \<longleftrightarrow> (\<exists>k \<ge> t. k \<le> length s \<and> wild (drop (Suc p) pat) (drop k s))"
  proof
    assume "\<exists>k \<ge> t. k \<le> length s \<and> wild (drop (Suc p) pat) (drop k s)"
    then obtain k where "t \<le> k" "k \<le> length s" "wild (drop (Suc p) pat) (drop k s)" by blast
    then show "\<exists>k \<le> length s - t. wild (drop (Suc p) pat) (drop (k + t) s)" by (intro exI [of _ "k - t"]) auto
  next
    assume "\<exists>k \<le> length s - t. wild (drop (Suc p) pat) (drop (k + t) s)"
    then obtain k where "k \<le> length s - t" "wild (drop (Suc p) pat) (drop (k + t) s)" by blast
    then show "\<exists>k \<ge> t. k \<le> length s \<and> wild (drop (Suc p) pat) (drop k s)" using assms(3) by (intro exI [of _ "k + t"]) auto
  qed
  finally show ?thesis .
qed

text \<open>
  The loop invariant. After a star at position \<open>k\<close>, the characters of the pattern since then are no stars and have been
  compared with the text from \<open>retry\<close> on; earlier starting points are excluded.
\<close>

definition segment_from :: "uchar list \<Rightarrow> wildcard_state \<Rightarrow> nat \<Rightarrow> bool" where
  "segment_from pat st k \<longleftrightarrow> k < wm_p st \<and> pat ! k = ''*'' \<and> wm_p st - Suc k = wm_t st - wm_retry st \<and>
     (\<forall>i. k < i \<and> i < wm_p st \<longrightarrow> pat ! i \<noteq> ''*'')"

definition wild_inv :: "uchar list \<Rightarrow> uchar list \<Rightarrow> wildcard_state \<Rightarrow> bool" where
  "wild_inv pat s st \<longleftrightarrow> wm_retry st \<le> wm_t st \<and> wm_t st \<le> length s \<and> wm_p st \<le> length pat \<and>
     (if wm_failed st then \<not> wild pat s
      else case wm_star st of
          None \<Rightarrow> wild pat s = wild (drop (wm_p st) pat) (drop (wm_t st) s)
        | Some k \<Rightarrow> segment_from pat st k \<and>
            wild pat s = (\<exists>j \<ge> wm_retry st. j \<le> length s \<and> wild (drop (Suc k) pat) (drop j s)) \<and>
            wild (drop (Suc k) pat) (drop (wm_retry st) s) = wild (drop (wm_p st) pat) (drop (wm_t st) s))"

lemma segment_match:
  assumes "segment_from pat st k" "wm_p st \<le> length pat" "wild (drop (Suc k) pat) (drop j s)"
  shows "wm_t st - wm_retry st \<le> length s - j" "wild (drop (wm_p st) pat) (drop (j + (wm_t st - wm_retry st)) s)"
proof -
  let ?q = "take (wm_p st - Suc k) (drop (Suc k) pat)"
  have p: "k < wm_p st" and d: "wm_p st - Suc k = wm_t st - wm_retry st"
    and n: "\<And>i. k < i \<Longrightarrow> i < wm_p st \<Longrightarrow> pat ! i \<noteq> ''*''"
    using assms(1) by (auto simp: segment_from_def)
  have len: "length ?q = wm_t st - wm_retry st" using assms(2) p d by auto
  have "''*'' \<notin> set ?q"
    using n p assms(2) by (fastforce simp: in_set_conv_nth)
  moreover have "drop (Suc k) pat = ?q @ drop (wm_p st) pat"
    using p append_take_drop_id [of "wm_p st - Suc k" "drop (Suc k) pat"] by simp
  ultimately have "length ?q \<le> length (drop j s) \<and> wild (drop (wm_p st) pat) (drop (length ?q) (drop j s))"
    using wild_segment [of ?q "drop (wm_p st) pat" "drop j s"] assms(3) by metis
  then show "wm_t st - wm_retry st \<le> length s - j" "wild (drop (wm_p st) pat) (drop (j + (wm_t st - wm_retry st)) s)"
    using len by (simp_all add: add.commute)
qed

lemma segment_reaches_star:
  assumes "segment_from pat st k" "wm_p st < length pat" "pat ! wm_p st = ''*''" "wm_retry st \<le> wm_t st" "wm_retry st \<le> j"
    and "wild (drop (Suc k) pat) (drop j s)"
  shows "wild (drop (wm_p st) pat) (drop (wm_t st) s)"
proof -
  have "wild (''*'' # drop (Suc (wm_p st)) pat) (drop (j + (wm_t st - wm_retry st)) s)"
    using segment_match(2) [OF assms(1) _ assms(6)] assms(2,3) by (metis Cons_nth_drop_Suc less_imp_le)
  then have "wild (''*'' # drop (Suc (wm_p st)) pat) (drop (wm_t st) s)"
    by (rule wild_star_drop) (use assms(4,5) in simp)
  then show ?thesis using assms(2,3) by (metis Cons_nth_drop_Suc)
qed

lemma wild_inv_step:
  assumes "wild_inv pat s st" "\<not> wm_failed st" "wm_t st < length s" "''*'' \<notin> set s"
  shows "wild_inv pat s (wildcard_step pat s st)"
proof -
  let ?p = "wm_p st" and ?t = "wm_t st"
  have star: "s ! ?t \<noteq> ''*''" using nth_mem [OF assms(3)] assms(4) by metis
  have wf: "wm_retry st \<le> ?t" "?p \<le> length pat" using assms(1) by (auto simp: wild_inv_def)
  consider (fit) "?p < length pat" "char_fits (pat ! ?p) (s ! ?t)"
    | (star) "?p < length pat" "pat ! ?p = ''*''"
    | (stuck) "?p < length pat \<Longrightarrow> pat ! ?p \<noteq> ''*'' \<and> \<not> char_fits (pat ! ?p) (s ! ?t)"
    by blast
  then show ?thesis
  proof cases
    case fit
    then have n: "pat ! ?p \<noteq> ''*''" using star by (auto simp: char_fits_def)
    have w: "wild (drop ?p pat) (drop ?t s) = wild (drop (Suc ?p) pat) (drop (Suc ?t) s)"
      using wild_drop_step [OF fit(1) assms(3) n] fit(2) by simp
    have "segment_from pat st k \<Longrightarrow> segment_from pat (st\<lparr>wm_p := Suc ?p, wm_t := Suc ?t\<rparr>) k" for k
      using n wf(1) by (auto simp: segment_from_def less_Suc_eq)
    then show ?thesis using assms fit w by (auto simp: wildcard_step_def char_fits_def wild_inv_def Let_def split: option.splits)
  next
    case star
    then have "\<not> char_fits (pat ! ?p) (s ! ?t)" using \<open>s ! ?t \<noteq> ''*''\<close> by (auto simp: char_fits_def)
    then have eq: "wildcard_step pat s st = st\<lparr>wm_star := Some ?p, wm_retry := ?t, wm_p := ?p + 1\<rparr>"
      using star by (simp add: wildcard_step_def char_fits_def Let_def)
    have "wild pat s = wild (drop ?p pat) (drop ?t s)"
    proof (cases "wm_star st")
      case None
      then show ?thesis using assms(1,2) by (simp add: wild_inv_def)
    next
      case (Some k)
      then have k: "segment_from pat st k" "wild pat s = (\<exists>j \<ge> wm_retry st. j \<le> length s \<and> wild (drop (Suc k) pat) (drop j s))"
          "wild (drop (Suc k) pat) (drop (wm_retry st) s) = wild (drop ?p pat) (drop ?t s)"
        using assms(1,2) by (auto simp: wild_inv_def)
      then show ?thesis using segment_reaches_star [OF k(1) star wf(1)] wf(1) assms(3) by (meson less_imp_le order.trans order_refl)
    qed
    then have "wild pat s = (\<exists>j \<ge> ?t. j \<le> length s \<and> wild (drop (Suc ?p) pat) (drop j s))"
      using wild_drop_star [OF star] assms(3) by simp
    then show ?thesis using star assms(2,3) by (auto simp: eq wild_inv_def segment_from_def)
  next
    case stuck
    have no: "\<not> wild (drop ?p pat) (drop ?t s)"
      using wild_drop_step [of ?p pat ?t s] stuck assms(3) wf(2) by (cases "?p < length pat") auto
    show ?thesis
    proof (cases "wm_star st")
      case None
      then show ?thesis using assms no stuck wf by (auto simp: wildcard_step_def char_fits_def Let_def wild_inv_def)
    next
      case (Some k)
      then have eq: "wildcard_step pat s st = st\<lparr>wm_p := k + 1, wm_retry := wm_retry st + 1, wm_t := wm_retry st + 1\<rparr>"
        using stuck by (auto simp: wildcard_step_def char_fits_def Let_def)
      have k: "segment_from pat st k" "wild pat s = (\<exists>j \<ge> wm_retry st. j \<le> length s \<and> wild (drop (Suc k) pat) (drop j s))"
          "\<not> wild (drop (Suc k) pat) (drop (wm_retry st) s)"
        using assms(1,2) Some no by (auto simp: wild_inv_def)
      then have "wild pat s = (\<exists>j \<ge> Suc (wm_retry st). j \<le> length s \<and> wild (drop (Suc k) pat) (drop j s))"
        by (metis Suc_le_eq Suc_leD le_neq_implies_less)
      then show ?thesis using Some assms(2,3) wf k(1) by (auto simp: eq wild_inv_def segment_from_def)
    qed
  qed
qed

text \<open>The loop ends: either the retry position moves right, or pattern and text are consumed.\<close>

definition wild_ok :: "uchar list \<Rightarrow> uchar list \<Rightarrow> wildcard_state \<Rightarrow> bool" where
  "wild_ok pat s st \<longleftrightarrow> wm_retry st \<le> wm_t st \<and> wm_t st \<le> length s \<and> wm_p st \<le> length pat \<and>
     (case wm_star st of None \<Rightarrow> True | Some k \<Rightarrow> k < length pat)"

definition wild_rank :: "uchar list \<Rightarrow> uchar list \<Rightarrow> wildcard_state \<Rightarrow> nat \<times> nat \<times> nat" where
  "wild_rank pat s st = (if wm_failed st then 0 else 1, length s - wm_retry st, length pat + length s - (wm_p st + wm_t st))"

lemma wild_ok_step:
  assumes "wild_ok pat s st" "\<not> wm_failed st" "wm_t st < length s"
  shows "wild_ok pat s (wildcard_step pat s st)" "wild_rank pat s (wildcard_step pat s st) < wild_rank pat s st"
  using assms by (auto simp: wild_ok_def wild_rank_def wildcard_step_def Let_def split: option.splits)

lemma wildcard_run_total: "\<exists>st. wildcard_run pat s = Some st"
  unfolding wildcard_run_def
proof (rule wf_while_option_Some [where P = "wild_ok pat s"])
  let ?R = "{(t, st). (wild_ok pat s st \<and> \<not> wm_failed st \<and> wm_t st < length s) \<and> t = wildcard_step pat s st}"
  have "?R \<subseteq> inv_image {(a, b). a < b} (wild_rank pat s)" using wild_ok_step(2) by auto
  moreover have "wf (inv_image {(a :: nat \<times> nat \<times> nat, b). a < b} (wild_rank pat s))" by (intro wf_inv_image wf)
  ultimately show "wf ?R" using wf_subset by blast
qed (auto simp: wild_ok_step(1), simp add: wild_ok_def)

lemma wildcard_exact_aux:
  assumes "''*'' \<notin> set s"
  shows "wildcard_match_chars pat s \<longleftrightarrow> wild pat s"
proof -
  obtain st where run: "wildcard_run pat s = Some st" using wildcard_run_total by blast
  have inv: "wild_inv pat s st"
    using run unfolding wildcard_run_def
    by (rule while_option_rule [rotated]) (auto intro: wild_inv_step [OF _ _ _ assms], simp add: wild_inv_def)
  have stop: "wm_failed st \<or> wm_t st = length s"
    using while_option_stop [OF run [unfolded wildcard_run_def]] inv by (auto simp: wild_inv_def)
  have "wild pat s = wild (drop (wm_p st) pat) []" if "\<not> wm_failed st"
  proof (cases "wm_star st")
    case None
    then show ?thesis using inv stop that by (simp add: wild_inv_def)
  next
    case (Some k)
    have t: "wm_t st = length s" using stop that by simp
    have k: "segment_from pat st k" "wild pat s = (\<exists>j \<ge> wm_retry st. j \<le> length s \<and> wild (drop (Suc k) pat) (drop j s))"
        "wild (drop (Suc k) pat) (drop (wm_retry st) s) = wild (drop (wm_p st) pat) []" "wm_retry st \<le> length s" "wm_p st \<le> length pat"
      using inv Some that t by (auto simp: wild_inv_def)
    have "j = wm_retry st" if "wm_retry st \<le> j" "j \<le> length s" "wild (drop (Suc k) pat) (drop j s)" for j
      using segment_match(1) [OF k(1,5) that(3)] that t by simp
    then show ?thesis unfolding k(2) k(3) [symmetric] using k(4) by blast
  qed
  then have "wm_failed st \<or> wild pat s = (dropWhile (\<lambda>c. c = ''*'') (drop (wm_p st) pat) = [])"
    unfolding wild_nil by blast
  moreover have "wm_failed st \<Longrightarrow> \<not> wild pat s" using inv by (simp add: wild_inv_def)
  ultimately show ?thesis using run by (auto simp: wildcard_match_chars_def simp del: dropWhile_eq_Nil_conv)
qed

text \<open>
  C32: The wildcard matcher always returns. On a name without a star it accepts exactly the names the pattern describes. On a name
  with a star it may refuse one: a star of the pattern that meets a star of the name is consumed as a literal, so \<open>*\<close> does not
  match \<open>*a\<close>.
\<close>

theorem wildcard_exact:
  "(\<exists>st. wildcard_run pat s = Some st) \<and>
   (''*'' \<notin> set s \<longrightarrow> wildcard_match_chars pat s = wild pat s) \<and>
   wild [''*''] [''*'', ''a''] \<and> \<not> wildcard_match_chars [''*''] [''*'', ''a'']"
proof -
  have "wild [''*''] [''*'', ''a''] \<and> \<not> wildcard_match_chars [''*''] [''*'', ''a'']" by code_simp
  then show ?thesis using wildcard_run_total wildcard_exact_aux by blast
qed

theorem wildcard_exact_witness:
  "''*'' \<notin> set [''u'', ''s'', ''P''] \<and> wildcard_match_chars [''u'', ''*'', ''P''] [''u'', ''s'', ''P'']"
proof -
  have "wild [''u'', ''*'', ''P''] [''u'', ''s'', ''P'']" by code_simp
  moreover have "''*'' \<notin> set [''u'', ''s'', ''P'']" by simp
  ultimately show ?thesis using wildcard_exact [of "[''u'', ''*'', ''P'']" "[''u'', ''s'', ''P'']"] by blast
qed

section \<open>The grammar of conditions\<close>

text \<open>
  The grammar the module documents, as derivations of token lists: \<open>\<or>\<close> binds weaker than \<open>\<and>\<close>, both to the left,
  negation binds strongest.
\<close>

inductive d_operand :: "operand \<Rightarrow> tok \<Rightarrow> bool" where
  lit: "d_operand (Lit s) (T_Str s)"
| prop_a: "prop_of p = Some q \<Longrightarrow> d_operand (Prop Obj_A q) (T_Ident (''A.'' @ p))"
| prop_b: "prop_of p = Some q \<Longrightarrow> d_operand (Prop Obj_B q) (T_Ident (''B.'' @ p))"

inductive d_call :: "name_resolver \<Rightarrow> expr \<Rightarrow> string \<Rightarrow> string \<Rightarrow> bool" for N where
  "pre = ''A'' \<and> k = Obj_A \<or> pre = ''B'' \<and> k = Obj_B \<Longrightarrow> resolve_footprint N arg = Some f \<Longrightarrow>
     d_call N (IntersectsCourtyard k f) (pre @ ''.intersectsCourtyard'') arg"
| "pre = ''A'' \<and> k = Obj_A \<or> pre = ''B'' \<and> k = Obj_B \<Longrightarrow> has_area N arg \<Longrightarrow>
     d_call N (EnclosedByArea k arg) (pre @ ''.enclosedByArea'') arg"

inductive d_or :: "name_resolver \<Rightarrow> expr \<Rightarrow> tok list \<Rightarrow> bool"
  and d_and :: "name_resolver \<Rightarrow> expr \<Rightarrow> tok list \<Rightarrow> bool"
  and d_unary :: "name_resolver \<Rightarrow> expr \<Rightarrow> tok list \<Rightarrow> bool"
  and d_primary :: "name_resolver \<Rightarrow> expr \<Rightarrow> tok list \<Rightarrow> bool" for N where
  or_one: "d_and N x ts \<Longrightarrow> d_or N x ts"
| or_more: "d_or N x ts \<Longrightarrow> d_and N y us \<Longrightarrow> d_or N (E_Or x y) (ts @ T_Or # us)"
| and_one: "d_unary N x ts \<Longrightarrow> d_and N x ts"
| and_more: "d_and N x ts \<Longrightarrow> d_unary N y us \<Longrightarrow> d_and N (E_And x y) (ts @ T_And # us)"
| negation: "d_unary N x ts \<Longrightarrow> d_unary N (E_Not x) (T_Not # ts)"
| plain: "d_primary N x ts \<Longrightarrow> d_unary N x ts"
| parens: "d_or N x ts \<Longrightarrow> d_primary N x (T_LParen # ts @ [T_RParen])"
| calls: "d_call N x name arg \<Longrightarrow> d_primary N x [T_Ident name, T_LParen, T_Str arg, T_RParen]"
| equals: "d_operand l t \<Longrightarrow> d_operand r u \<Longrightarrow> d_primary N (E_Cmp l r False) [t, T_Eq, u]"
| differs: "d_operand l t \<Longrightarrow> d_operand r u \<Longrightarrow> d_primary N (E_Cmp l r True) [t, T_Ne, u]"

lemmas d_intros = or_one or_more and_one and_more negation plain parens calls equals differs

subsection \<open>Leaves\<close>

lemma split_once_iff: "split_once c s = Some (a, b) \<longleftrightarrow> c \<notin> set a \<and> s = a @ c # b"
proof (induction s arbitrary: a)
  case (Cons x s)
  then show ?case by (cases a) auto
qed simp

lemma split_member_iff:
  "split_member name = Inr (k, p) \<longleftrightarrow> k = Obj_A \<and> name = ''A.'' @ p \<or> k = Obj_B \<and> name = ''B.'' @ p"
proof
  show "k = Obj_A \<and> name = ''A.'' @ p \<or> k = Obj_B \<and> name = ''B.'' @ p" if "split_member name = Inr (k, p)"
    using that by (auto simp: split_member_def split_once_iff split: option.splits if_splits simp del: split_once.simps)
qed (auto simp: split_member_def)

lemma split_member_simps [simp]:
  "split_member (''A.'' @ p) = Inr (Obj_A, p)" "split_member (''B.'' @ p) = Inr (Obj_B, p)"
  "split_member (CHR ''A'' # CHR ''.'' # p) = Inr (Obj_A, p)" "split_member (CHR ''B'' # CHR ''.'' # p) = Inr (Obj_B, p)"
  by (simp_all add: split_member_iff)

lemma map_sum_Inr: "map_sum f g x = Inr y \<longleftrightarrow> (\<exists>z. x = Inr z \<and> y = g z)"
  by (cases x) auto

lemma operand_complete: "d_operand x t \<Longrightarrow> p_operand (t # r) = Inr (x, r)"
  by (auto simp: p_operand_def bump_def d_operand.simps)

lemma operand_sound: "p_operand ts = Inr (x, r) \<Longrightarrow> \<exists>t. ts = t # r \<and> d_operand x t"
  by (auto simp: p_operand_def bump_def split_member_iff d_operand.simps split: list.splits tok.splits sum.splits option.splits)

lemma call_of_iff: "call_of N name arg = Inr x \<longleftrightarrow> d_call N x name arg"
  by (auto simp: call_of_def split_member_iff d_call.simps split: sum.splits option.splits if_splits)

lemma call_iff: "call N name ts = Inr (x, r) \<longleftrightarrow> (\<exists>arg. ts = T_Str arg # T_RParen # r \<and> d_call N x name arg)"
  by (auto simp: call_def bump_def expect_def map_sum_Inr split: list.splits tok.splits sum.splits if_splits
      simp flip: call_of_iff)

lemma comparison_sound:
  assumes "comparison ts = Inr (x, r)"
  shows "\<exists>us. ts = us @ r \<and> d_primary N x us"
proof -
  obtain lhs t r1 where l: "p_operand ts = Inr (lhs, r1)" "ts = t # r1" "d_operand lhs t"
    using assms operand_sound [of ts] by (auto simp: comparison_def split: sum.splits)
  obtain c r2 where c: "r1 = c # r2" "c = T_Eq \<or> c = T_Ne"
    using assms l(1) by (auto simp: comparison_def bump_def split: list.splits if_splits)
  obtain rhs u where u: "r2 = u # r" "d_operand rhs u" "x = E_Cmp lhs rhs (c = T_Ne)"
    using assms l(1) c operand_sound [of r2] by (auto simp: comparison_def bump_def split: sum.splits if_splits)
  have "d_primary N x [t, c, u]" using c(2) u(2,3) l(3) by (auto intro: d_intros)
  then show ?thesis using l(2) c(1) u(1) by (intro exI [of _ "[t, c, u]"]) simp
qed

lemma comparison_complete:
  assumes "d_operand lhs t" "d_operand rhs u" "c = T_Eq \<or> c = T_Ne"
  shows "comparison (t # c # u # r) = Inr (E_Cmp lhs rhs (c = T_Ne), r)"
  using assms by (auto simp: comparison_def operand_complete bump_def)

subsection \<open>Enough fuel, and what is consumed\<close>

lemma and_then_Some:
  "and_then m k = Some z \<longleftrightarrow> (\<exists>e. m = Some (Inl e) \<and> z = Inl e) \<or> (\<exists>x r. m = Some (Inr (x, r)) \<and> k x r = Some z)"
  by (auto simp: and_then_def split: option.splits sum.splits)

lemma and_then_Inr:
  "and_then m k = Some (Inr z) \<longleftrightarrow> (\<exists>x r. m = Some (Inr (x, r)) \<and> k x r = Some (Inr z))"
  by (auto simp: and_then_Some)

lemma peek_iff [simp]: "peek ts = Some t \<longleftrightarrow> (\<exists>r. ts = t # r)"
  by (cases ts) (auto simp: peek_def)

lemma call_head_iff: "call_head ts = Some name \<longleftrightarrow> (\<exists>r. ts = T_Ident name # T_LParen # r)"
  by (auto simp: call_head_def split: list.splits tok.splits)

lemma expect_iff: "expect t ts = Inr r \<longleftrightarrow> ts = t # r"
  by (auto simp: expect_def bump_def split: list.splits)

lemma parser_sound:
  "(p_or N n ts = Some (Inr (x, r)) \<longrightarrow> (\<exists>us. ts = us @ r \<and> d_or N x us)) \<and>
   (\<forall>y ws. or_loop N n y ts = Some (Inr (x, r)) \<longrightarrow> d_or N y ws \<longrightarrow> (\<exists>us. ts = us @ r \<and> d_or N x (ws @ us))) \<and>
   (p_and N n ts = Some (Inr (x, r)) \<longrightarrow> (\<exists>us. ts = us @ r \<and> d_and N x us)) \<and>
   (\<forall>y ws. and_loop N n y ts = Some (Inr (x, r)) \<longrightarrow> d_and N y ws \<longrightarrow> (\<exists>us. ts = us @ r \<and> d_and N x (ws @ us))) \<and>
   (p_unary N n ts = Some (Inr (x, r)) \<longrightarrow> (\<exists>us. ts = us @ r \<and> d_unary N x us)) \<and>
   (p_primary N n ts = Some (Inr (x, r)) \<longrightarrow> (\<exists>us. ts = us @ r \<and> d_primary N x us))"
proof (induction n arbitrary: ts x r)
  case (Suc n)
  have IH: "p_or N n ts = Some (Inr (x, r)) \<Longrightarrow> \<exists>us. ts = us @ r \<and> d_or N x us"
    "or_loop N n y ts = Some (Inr (x, r)) \<Longrightarrow> d_or N y ws \<Longrightarrow> \<exists>us. ts = us @ r \<and> d_or N x (ws @ us)"
    "p_and N n ts = Some (Inr (x, r)) \<Longrightarrow> \<exists>us. ts = us @ r \<and> d_and N x us"
    "and_loop N n y ts = Some (Inr (x, r)) \<Longrightarrow> d_and N y ws \<Longrightarrow> \<exists>us. ts = us @ r \<and> d_and N x (ws @ us)"
    "p_unary N n ts = Some (Inr (x, r)) \<Longrightarrow> \<exists>us. ts = us @ r \<and> d_unary N x us"
    "p_primary N n ts = Some (Inr (x, r)) \<Longrightarrow> \<exists>us. ts = us @ r \<and> d_primary N x us" for ts x r y ws
    using Suc.IH [of ts x r] by (simp_all only:)
  have "\<exists>us. ts = us @ r \<and> d_or N x us" if p: "p_or N (Suc n) ts = Some (Inr (x, r))"
  proof -
    obtain y q where y: "p_and N n ts = Some (Inr (y, q))" "or_loop N n y q = Some (Inr (x, r))"
      using p unfolding p_or.simps and_then_Inr by blast
    obtain us where us: "ts = us @ q" "d_and N y us" using IH(3) [OF y(1)] by blast
    obtain vs where "q = vs @ r" "d_or N x (us @ vs)" using IH(2) [OF y(2) or_one [OF us(2)]] by blast
    then show ?thesis using us(1) by (intro exI [of _ "us @ vs"]) simp
  qed
  moreover have "\<exists>us. ts = us @ r \<and> d_or N x (ws @ us)"
    if l: "or_loop N (Suc n) y ts = Some (Inr (x, r))" "d_or N y ws" for y ws
  proof (cases "peek ts = Some T_Or")
    case True
    then obtain ts' where t: "ts = T_Or # ts'" by auto
    obtain z q where z: "p_and N n ts' = Some (Inr (z, q))" "or_loop N n (E_Or y z) q = Some (Inr (x, r))"
      using l(1) unfolding or_loop.simps t and_then_Inr by (auto simp: and_then_Inr)
    obtain us where u: "ts' = us @ q" "d_and N z us" using IH(3) [OF z(1)] by blast
    obtain vs where "q = vs @ r" "d_or N x ((ws @ T_Or # us) @ vs)" using IH(2) [OF z(2) or_more [OF l(2) u(2)]] by blast
    then show ?thesis using t(1) u(1) by (intro exI [of _ "T_Or # us @ vs"]) simp
  qed (use l in \<open>simp del: peek_iff\<close>)
  moreover have "\<exists>us. ts = us @ r \<and> d_and N x us" if p: "p_and N (Suc n) ts = Some (Inr (x, r))"
  proof -
    obtain y q where y: "p_unary N n ts = Some (Inr (y, q))" "and_loop N n y q = Some (Inr (x, r))"
      using p unfolding p_and.simps and_then_Inr by blast
    obtain us where us: "ts = us @ q" "d_unary N y us" using IH(5) [OF y(1)] by blast
    obtain vs where "q = vs @ r" "d_and N x (us @ vs)" using IH(4) [OF y(2) and_one [OF us(2)]] by blast
    then show ?thesis using us(1) by (intro exI [of _ "us @ vs"]) simp
  qed
  moreover have "\<exists>us. ts = us @ r \<and> d_and N x (ws @ us)"
    if l: "and_loop N (Suc n) y ts = Some (Inr (x, r))" "d_and N y ws" for y ws
  proof (cases "peek ts = Some T_And")
    case True
    then obtain ts' where t: "ts = T_And # ts'" by auto
    obtain z q where z: "p_unary N n ts' = Some (Inr (z, q))" "and_loop N n (E_And y z) q = Some (Inr (x, r))"
      using l(1) unfolding and_loop.simps t and_then_Inr by (auto simp: and_then_Inr)
    obtain us where u: "ts' = us @ q" "d_unary N z us" using IH(5) [OF z(1)] by blast
    obtain vs where "q = vs @ r" "d_and N x ((ws @ T_And # us) @ vs)" using IH(4) [OF z(2) and_more [OF l(2) u(2)]] by blast
    then show ?thesis using t(1) u(1) by (intro exI [of _ "T_And # us @ vs"]) simp
  qed (use l in \<open>simp del: peek_iff\<close>)
  moreover have "\<exists>us. ts = us @ r \<and> d_unary N x us" if u: "p_unary N (Suc n) ts = Some (Inr (x, r))"
  proof (cases "peek ts = Some T_Not")
    case True
    then obtain ts' y where t: "ts = T_Not # ts'" "p_unary N n ts' = Some (Inr (y, r))" "x = E_Not y"
      using u by (auto simp: and_then_Inr)
    obtain us where "ts' = us @ r" "d_unary N y us" using IH(5) [OF t(2)] by blast
    then show ?thesis using t negation by (intro exI [of _ "T_Not # us"]) simp
  next
    case False
    then have "p_primary N n ts = Some (Inr (x, r))" using u by (simp del: peek_iff)
    then show ?thesis using IH(6) plain by meson
  qed
  moreover have "\<exists>us. ts = us @ r \<and> d_primary N x us" if u: "p_primary N (Suc n) ts = Some (Inr (x, r))"
  proof (cases "peek ts = Some T_LParen")
    case True
    then obtain ts' where t: "ts = T_LParen # ts'" "p_or N n ts' = Some (Inr (x, T_RParen # r))"
      using u by (auto simp: and_then_Inr map_sum_Inr expect_iff)
    obtain us where "ts' = us @ T_RParen # r" "d_or N x us" using IH(1) [OF t(2)] by blast
    then show ?thesis using t(1) parens by (intro exI [of _ "T_LParen # us @ [T_RParen]"]) simp
  next
    case False
    show ?thesis
    proof (cases "call_head ts")
      case None
      then have "comparison ts = Inr (x, r)" using u False by (simp del: peek_iff)
      then show ?thesis by (rule comparison_sound)
    next
      case (Some name)
      then obtain ts' where ts: "ts = T_Ident name # T_LParen # ts'" by (auto simp: call_head_iff)
      then obtain arg where "ts' = T_Str arg # T_RParen # r" "d_call N x name arg"
        using u Some by (auto simp: call_iff)
      then show ?thesis using calls ts by (intro exI [of _ "[T_Ident name, T_LParen, T_Str arg, T_RParen]"]) simp
    qed
  qed
  ultimately show ?case by (intro conjI allI impI; blast)
qed simp

lemma d_nonempty:
  shows "d_or N x ts \<Longrightarrow> ts \<noteq> []" "d_and N x ts \<Longrightarrow> ts \<noteq> []" "d_unary N x ts \<Longrightarrow> ts \<noteq> []" "d_primary N x ts \<Longrightarrow> ts \<noteq> []"
  by (induction rule: d_or_d_and_d_unary_d_primary.inducts) auto

lemma parser_consumes:
  "p_and N n ts = Some (Inr (x, r)) \<Longrightarrow> length r < length ts"
  "p_unary N n ts = Some (Inr (x, r)) \<Longrightarrow> length r < length ts"
  using parser_sound [of N n ts x r] d_nonempty by (auto simp: length_greater_0_conv [symmetric] simp del: length_greater_0_conv)

lemma and_then_None: "and_then m k = None \<longleftrightarrow> m = None \<or> (\<exists>x r. m = Some (Inr (x, r)) \<and> k x r = None)"
  by (auto simp: and_then_def split: option.splits sum.splits)

lemma parser_enough:
  "(5 * length ts + 4 \<le> n \<longrightarrow> p_or N n ts \<noteq> None) \<and> (\<forall>y. 5 * length ts + 1 \<le> n \<longrightarrow> or_loop N n y ts \<noteq> None) \<and>
   (5 * length ts + 3 \<le> n \<longrightarrow> p_and N n ts \<noteq> None) \<and> (\<forall>y. 5 * length ts + 1 \<le> n \<longrightarrow> and_loop N n y ts \<noteq> None) \<and>
   (5 * length ts + 2 \<le> n \<longrightarrow> p_unary N n ts \<noteq> None) \<and> (5 * length ts + 1 \<le> n \<longrightarrow> p_primary N n ts \<noteq> None)"
proof (induction n arbitrary: ts)
  case (Suc n)
  have IH: "5 * length ts + 4 \<le> n \<Longrightarrow> p_or N n ts \<noteq> None" "5 * length ts + 1 \<le> n \<Longrightarrow> or_loop N n y ts \<noteq> None"
    "5 * length ts + 3 \<le> n \<Longrightarrow> p_and N n ts \<noteq> None" "5 * length ts + 1 \<le> n \<Longrightarrow> and_loop N n y ts \<noteq> None"
    "5 * length ts + 2 \<le> n \<Longrightarrow> p_unary N n ts \<noteq> None" "5 * length ts + 1 \<le> n \<Longrightarrow> p_primary N n ts \<noteq> None" for ts y
    using Suc.IH [of ts] by blast+
  have "p_or N (Suc n) ts \<noteq> None" if "5 * length ts + 4 \<le> Suc n"
  proof -
    have "or_loop N n x r \<noteq> None" if "p_and N n ts = Some (Inr (x, r))" for x r
      by (rule IH(2)) (use parser_consumes(1) [OF that] \<open>5 * length ts + 4 \<le> Suc n\<close> in linarith)
    then show ?thesis using IH(3) [of ts] that by (simp add: and_then_None)
  qed
  moreover have "or_loop N (Suc n) y ts \<noteq> None" if "5 * length ts + 1 \<le> Suc n" for y
  proof (cases "peek ts = Some T_Or")
    case True
    then obtain us where ts: "ts = T_Or # us" by auto
    have "or_loop N n w r \<noteq> None" if "p_and N n us = Some (Inr (x, r))" for x r w
      by (rule IH(2)) (use parser_consumes(1) [OF that] \<open>5 * length ts + 1 \<le> Suc n\<close> ts in simp)
    then show ?thesis using IH(3) [of us] that ts by (simp add: and_then_None)
  qed (simp del: peek_iff)
  moreover have "p_and N (Suc n) ts \<noteq> None" if "5 * length ts + 3 \<le> Suc n"
  proof -
    have "and_loop N n x r \<noteq> None" if "p_unary N n ts = Some (Inr (x, r))" for x r
      by (rule IH(4)) (use parser_consumes(2) [OF that] \<open>5 * length ts + 3 \<le> Suc n\<close> in linarith)
    then show ?thesis using IH(5) [of ts] that by (simp add: and_then_None)
  qed
  moreover have "and_loop N (Suc n) y ts \<noteq> None" if "5 * length ts + 1 \<le> Suc n" for y
  proof (cases "peek ts = Some T_And")
    case True
    then obtain us where ts: "ts = T_And # us" by auto
    have "and_loop N n w r \<noteq> None" if "p_unary N n us = Some (Inr (x, r))" for x r w
      by (rule IH(4)) (use parser_consumes(2) [OF that] \<open>5 * length ts + 1 \<le> Suc n\<close> ts in simp)
    then show ?thesis using IH(5) [of us] that ts by (simp add: and_then_None)
  qed (simp del: peek_iff)
  moreover have "p_unary N (Suc n) ts \<noteq> None" if "5 * length ts + 2 \<le> Suc n"
    using IH(5) [of "tl ts"] IH(6) [of ts] that by (auto simp: and_then_None simp del: not_None_eq)
  moreover have "p_primary N (Suc n) ts \<noteq> None" if "5 * length ts + 1 \<le> Suc n"
    using IH(1) [of "tl ts"] that by (auto simp: and_then_None simp del: not_None_eq split: option.splits)
  ultimately show ?case by (intro conjI allI impI; blast)
qed simp

subsection \<open>Completeness\<close>

lemma and_then_mono:
  assumes "and_then m k = Some z" "\<And>z. m = Some z \<Longrightarrow> m' = Some z" "\<And>x r z. k x r = Some z \<Longrightarrow> k' x r = Some z"
  shows "and_then m' k' = Some z"
  using assms by (auto simp: and_then_Some)

lemma parser_mono:
  "\<forall>m \<ge> n. (p_or N n ts = Some z \<longrightarrow> p_or N m ts = Some z) \<and> (\<forall>y. or_loop N n y ts = Some z \<longrightarrow> or_loop N m y ts = Some z) \<and>
   (p_and N n ts = Some z \<longrightarrow> p_and N m ts = Some z) \<and> (\<forall>y. and_loop N n y ts = Some z \<longrightarrow> and_loop N m y ts = Some z) \<and>
   (p_unary N n ts = Some z \<longrightarrow> p_unary N m ts = Some z) \<and> (p_primary N n ts = Some z \<longrightarrow> p_primary N m ts = Some z)"
proof (induction n arbitrary: ts z)
  case (Suc n)
  have IH: "n \<le> m \<Longrightarrow> p_or N n ts = Some z \<Longrightarrow> p_or N m ts = Some z" "n \<le> m \<Longrightarrow> or_loop N n y ts = Some z \<Longrightarrow> or_loop N m y ts = Some z"
    "n \<le> m \<Longrightarrow> p_and N n ts = Some z \<Longrightarrow> p_and N m ts = Some z" "n \<le> m \<Longrightarrow> and_loop N n y ts = Some z \<Longrightarrow> and_loop N m y ts = Some z"
    "n \<le> m \<Longrightarrow> p_unary N n ts = Some z \<Longrightarrow> p_unary N m ts = Some z" "n \<le> m \<Longrightarrow> p_primary N n ts = Some z \<Longrightarrow> p_primary N m ts = Some z"
    for m ts z y
    using Suc.IH [of ts z] by (simp_all only:)
  show ?case
  proof (intro allI impI)
    fix m assume "Suc n \<le> m"
    then obtain k where m: "m = Suc k" "n \<le> k" by (cases m) auto
    have "p_or N (Suc n) ts = Some z \<longrightarrow> p_or N (Suc k) ts = Some z"
      using IH(2,3) [OF m(2)] by (auto elim!: and_then_mono)
    moreover have "or_loop N (Suc n) y ts = Some z \<longrightarrow> or_loop N (Suc k) y ts = Some z" for y
      using IH(2,3) [OF m(2)] by (auto elim!: and_then_mono)
    moreover have "p_and N (Suc n) ts = Some z \<longrightarrow> p_and N (Suc k) ts = Some z"
      using IH(4,5) [OF m(2)] by (auto elim!: and_then_mono)
    moreover have "and_loop N (Suc n) y ts = Some z \<longrightarrow> and_loop N (Suc k) y ts = Some z" for y
      using IH(4,5) [OF m(2)] by (auto elim!: and_then_mono)
    moreover have "p_unary N (Suc n) ts = Some z \<longrightarrow> p_unary N (Suc k) ts = Some z"
      using IH(5,6) [OF m(2)] by (auto elim!: and_then_mono)
    moreover have "p_primary N (Suc n) ts = Some z \<longrightarrow> p_primary N (Suc k) ts = Some z"
      using IH(1) [OF m(2)] by (auto elim!: and_then_mono)
    ultimately show "(p_or N (Suc n) ts = Some z \<longrightarrow> p_or N m ts = Some z) \<and> (\<forall>y. or_loop N (Suc n) y ts = Some z \<longrightarrow> or_loop N m y ts = Some z) \<and>
        (p_and N (Suc n) ts = Some z \<longrightarrow> p_and N m ts = Some z) \<and> (\<forall>y. and_loop N (Suc n) y ts = Some z \<longrightarrow> and_loop N m y ts = Some z) \<and>
        (p_unary N (Suc n) ts = Some z \<longrightarrow> p_unary N m ts = Some z) \<and> (p_primary N (Suc n) ts = Some z \<longrightarrow> p_primary N m ts = Some z)"
      unfolding m(1) by (intro conjI allI; blast)
  qed
qed simp

lemma parser_mono_rules:
  assumes "n \<le> m"
  shows "p_or N n ts = Some z \<Longrightarrow> p_or N m ts = Some z" "or_loop N n y ts = Some z \<Longrightarrow> or_loop N m y ts = Some z"
    "p_and N n ts = Some z \<Longrightarrow> p_and N m ts = Some z" "and_loop N n y ts = Some z \<Longrightarrow> and_loop N m y ts = Some z"
    "p_unary N n ts = Some z \<Longrightarrow> p_unary N m ts = Some z" "p_primary N n ts = Some z \<Longrightarrow> p_primary N m ts = Some z"
  using parser_mono [of n N ts z] assms by (simp_all only:)

lemma d_primary_head:
  "d_primary N x ts \<Longrightarrow> \<exists>t us. ts = t # us \<and> t \<noteq> T_Not"
  by (erule d_primary.cases) (auto elim: d_operand.cases)

lemma parser_complete:
  shows "d_or N x us \<Longrightarrow> peek r \<noteq> Some T_And \<Longrightarrow> or_loop N k x r = Some z \<Longrightarrow> \<exists>n. p_or N n (us @ r) = Some z"
    and "d_and N x us \<Longrightarrow> and_loop N k x r = Some z \<Longrightarrow> \<exists>n. p_and N n (us @ r) = Some z"
    and "d_unary N x us \<Longrightarrow> \<exists>n. p_unary N n (us @ r) = Some (Inr (x, r))"
    and "d_primary N x us \<Longrightarrow> \<exists>n. p_primary N n (us @ r) = Some (Inr (x, r))"
proof (induction arbitrary: r k z and r k z and r and r rule: d_or_d_and_d_unary_d_primary.inducts)
  case (or_one x ts)
  have "and_loop N 1 x r = Some (Inr (x, r))" using or_one.prems by simp
  then obtain n where n: "p_and N n (ts @ r) = Some (Inr (x, r))" using or_one.IH by blast
  have "p_or N (Suc (max n k)) (ts @ r) = Some z"
    using parser_mono_rules(3) [OF _ n, of "max n k"] parser_mono_rules(2) [OF _ or_one.prems(2), of "max n k"]
    by (simp add: and_then_def)
  then show ?case by blast
next
  case (or_more x ts y us)
  have "and_loop N 1 y r = Some (Inr (y, r))" using or_more.prems by simp
  then obtain n where n: "p_and N n (us @ r) = Some (Inr (y, r))" using or_more.IH by blast
  have "or_loop N (Suc (max n k)) x (T_Or # us @ r) = Some z"
    using parser_mono_rules(3) [OF _ n, of "max n k"] parser_mono_rules(2) [OF _ or_more.prems(2), of "max n k"]
    by (simp add: and_then_def)
  moreover have "peek (T_Or # us @ r) \<noteq> Some T_And" by simp
  ultimately have "\<exists>n. p_or N n (ts @ T_Or # us @ r) = Some z" using or_more.IH by metis
  then show ?case by simp
next
  case (and_one x ts)
  then obtain n where n: "p_unary N n (ts @ r) = Some (Inr (x, r))" by blast
  have "p_and N (Suc (max n k)) (ts @ r) = Some z"
    using parser_mono_rules(5) [OF _ n, of "max n k"] parser_mono_rules(4) [OF _ and_one.prems, of "max n k"]
    by (simp add: and_then_def)
  then show ?case by blast
next
  case (and_more x ts y us)
  obtain n where n: "p_unary N n (us @ r) = Some (Inr (y, r))" using and_more.IH by blast
  have "and_loop N (Suc (max n k)) x (T_And # us @ r) = Some z"
    using parser_mono_rules(5) [OF _ n, of "max n k"] parser_mono_rules(4) [OF _ and_more.prems, of "max n k"]
    by (simp add: and_then_def)
  then have "\<exists>n. p_and N n (ts @ T_And # us @ r) = Some z" using and_more.IH by metis
  then show ?case by simp
next
  case (negation x ts)
  then obtain n where "p_unary N n (ts @ r) = Some (Inr (x, r))" by blast
  then have "p_unary N (Suc n) ((T_Not # ts) @ r) = Some (Inr (E_Not x, r))" by (simp add: and_then_def)
  then show ?case by blast
next
  case (plain x ts)
  then obtain n where "p_primary N n (ts @ r) = Some (Inr (x, r))" by blast
  then have "p_unary N (Suc n) (ts @ r) = Some (Inr (x, r))" using d_primary_head [OF plain.IH(1)] by auto
  then show ?case by blast
next
  case (parens x ts)
  have "or_loop N 1 x (T_RParen # r) = Some (Inr (x, T_RParen # r))" by simp
  then obtain n where "p_or N n (ts @ T_RParen # r) = Some (Inr (x, T_RParen # r))" using parens.IH by (fastforce simp: peek_def)
  then have "p_primary N (Suc n) ((T_LParen # ts @ [T_RParen]) @ r) = Some (Inr (x, r))"
    by (simp add: and_then_def expect_def bump_def)
  then show ?case by blast
next
  case (calls x name arg)
  then have "p_primary N (Suc 0) ([T_Ident name, T_LParen, T_Str arg, T_RParen] @ r) = Some (Inr (x, r))"
    using call_iff by (simp add: call_head_def)
  then show ?case by blast
next
  case (equals lhs t rhs u)
  have "call_head (t # T_Eq # u # r) = None" "t \<noteq> T_LParen" using equals(1) by (auto simp: call_head_def d_operand.simps)
  then have "p_primary N (Suc 0) ([t, T_Eq, u] @ r) = Some (Inr (E_Cmp lhs rhs False, r))"
    using comparison_complete [OF equals, of T_Eq r] by simp
  then show ?case by blast
next
  case (differs lhs t rhs u)
  have "call_head (t # T_Ne # u # r) = None" "t \<noteq> T_LParen" using differs(1) by (auto simp: call_head_def d_operand.simps)
  then have "p_primary N (Suc 0) ([t, T_Ne, u] @ r) = Some (Inr (E_Cmp lhs rhs True, r))"
    using comparison_complete [OF differs, of T_Ne r] by simp
  then show ?case by blast
qed

lemma parse_toks_total: "parse_toks N ts \<noteq> None"
  using parser_enough [of ts "5 * length ts + 5" N] by (simp add: parse_toks_def)

lemma parse_toks_iff: "parse_toks N ts = Some (Inr (x, [])) \<longleftrightarrow> d_or N x ts"
proof
  assume "parse_toks N ts = Some (Inr (x, []))"
  then have p: "p_or N (5 * length ts + 5) ts = Some (Inr (x, []))" by (simp only: parse_toks_def)
  show "d_or N x ts" using parser_sound [of N "5 * length ts + 5" ts x "[]"] unfolding p by simp
next
  assume d: "d_or N x ts"
  have "or_loop N 1 x [] = Some (Inr (x, []))" by (simp add: peek_def)
  then obtain n where "p_or N n ts = Some (Inr (x, []))" using parser_complete(1) [OF d, of "[]" 1] by (auto simp: peek_def)
  then have big: "p_or N (max n (5 * length ts + 5)) ts = Some (Inr (x, []))" by (rule parser_mono_rules(1) [rotated]) simp
  obtain z where z: "p_or N (5 * length ts + 5) ts = Some z" using parse_toks_total [of N ts] by (auto simp: parse_toks_def)
  have "p_or N (max n (5 * length ts + 5)) ts = Some z" by (rule parser_mono_rules(1) [OF _ z]) simp
  then show "parse_toks N ts = Some (Inr (x, []))" using big z by (simp add: parse_toks_def)
qed

lemma d_or_unique: "d_or N x ts \<Longrightarrow> d_or N y ts \<Longrightarrow> x = y"
  using parse_toks_iff [of N ts x, THEN iffD2] parse_toks_iff [of N ts y, THEN iffD2] by simp

text \<open>
  C33: A condition is accepted exactly when its tokens derive from the documented grammar, and the compiled expression is the one
  the derivation gives; the grammar is unambiguous, and the parser never runs out of fuel.
\<close>

theorem condition_grammar:
  "(parse_condition N src = Inr x) = (\<exists>ts. tokenize src = Inr ts \<and> d_or N x ts) \<and>
   (d_or N x ts \<and> d_or N y ts \<longrightarrow> x = y) \<and> parse_toks N ts \<noteq> None"
proof -
  have "(parse_condition N src = Inr x) = (\<exists>ts. tokenize src = Inr ts \<and> parse_toks N ts = Some (Inr (x, [])))"
    using parse_toks_total by (auto simp: parse_condition_def split: sum.splits option.splits if_splits)
  moreover have "d_or N x ts \<and> d_or N y ts \<longrightarrow> x = y" using d_or_unique by blast
  ultimately show ?thesis using parse_toks_total by (simp only: parse_toks_iff simp_thms)
qed

definition demo_names :: name_resolver where
  "demo_names = \<lparr>resolve_footprint = (\<lambda>r. if r = ''IC7'' then Some 7 else None), has_area = (\<lambda>a. a = ''zone_a'')\<rparr>"

lemma demo_condition:
  "parse_condition demo_names (''A.Type == '' @ [CHR 0x27] @ ''Via'' @ [CHR 0x27] @ '' && !A.enclosedByArea('' @ [CHR 0x27] @ ''zone_a'' @ [CHR 0x27] @ '')'') =
     Inr (E_And (E_Cmp (Prop Obj_A Type) (Lit ''Via'') False) (E_Not (EnclosedByArea Obj_A ''zone_a'')))"
  by code_simp

theorem condition_grammar_witness:
  "\<exists>ts. {x. d_or demo_names x ts} = {E_And (E_Cmp (Prop Obj_A Type) (Lit ''Via'') False) (E_Not (EnclosedByArea Obj_A ''zone_a''))}"
proof -
  obtain ts where ts: "d_or demo_names (E_And (E_Cmp (Prop Obj_A Type) (Lit ''Via'') False) (E_Not (EnclosedByArea Obj_A ''zone_a''))) ts"
    using condition_grammar [THEN conjunct1] demo_condition by blast
  then have "d_or demo_names x ts \<longleftrightarrow> x = E_And (E_Cmp (Prop Obj_A Type) (Lit ''Via'') False) (E_Not (EnclosedByArea Obj_A ''zone_a''))" for x
    using condition_grammar [THEN conjunct2, THEN conjunct1] by blast
  then show ?thesis by blast
qed

end
