(* ===== verification/Rule_Netclass.thy ===== *)
theory Rule_Netclass
  imports Rule_Condition
begin

text \<open>
  Net class resolution, \<open>crates/konnect-route/src/rules/netclass.rs\<close>: patterns (regular expressions or wildcards), bus
  notation, explicit assignments, precedence, and the membership report. The third-party \<open>regex\<close> crate is the parameter
  \<open>rx\<close>: \<open>rx p\<close> is the match function of the compiled pattern, or \<^const>\<open>None\<close> if it does not compile. Bus notation is
  ASCII, so its functions work on the bytes of a text.
\<close>

type_synonym class_id = nat

type_synonym regex = "string \<Rightarrow> (string \<Rightarrow> bool) option"

record net_class_rules =
  class_name :: string
  class_clearance :: int
  class_track_width :: int
  class_via_diameter :: int
  class_via_drill :: int
  diff_pair_width :: "int option"
  diff_pair_gap :: "int option"

section \<open>Patterns\<close>

record matcher =
  m_regex :: "(string \<Rightarrow> bool) option"
  m_wildcard :: "uchar list"

definition ends_with :: "string \<Rightarrow> string \<Rightarrow> bool" where
  "ends_with s suf \<longleftrightarrow> length suf \<le> length s \<and> drop (length s - length suf) s = suf"

definition anchored_regex :: "regex \<Rightarrow> string \<Rightarrow> (string \<Rightarrow> bool) option" where
  "anchored_regex rx pattern =
     (if list_ex (\<lambda>c. c \<in> set (''.^$*+?()[]{}|'' @ [CHR 0x5C])) pattern
      then rx ((if take 1 pattern = ''^'' then [] else ''^'') @ pattern @
               (if \<not> ends_with pattern ''$'' \<or> ends_with pattern (CHR 0x5C # ''$'') then ''$'' else []))
      else None)"

definition Matcher_new :: "regex \<Rightarrow> string \<Rightarrow> matcher" where
  "Matcher_new rx pattern = \<lparr>m_regex = anchored_regex rx pattern, m_wildcard = chars pattern\<rparr>"

definition Matcher_matches :: "matcher \<Rightarrow> string \<Rightarrow> uchar list \<Rightarrow> bool" where
  "Matcher_matches m name name_chars \<longleftrightarrow>
     wildcard_match_chars (m_wildcard m) name_chars \<or> (case m_regex m of None \<Rightarrow> False | Some r \<Rightarrow> r name)"

section \<open>Bus notation\<close>

definition formatting :: "char option \<Rightarrow> bool" where
  "formatting c \<longleftrightarrow> c = Some CHR ''_'' \<or> c = Some CHR ''^'' \<or> c = Some CHR ''~''"

text \<open>The check of a vector's prefix.\<close>

fun prefix_ok :: "char option \<Rightarrow> string \<Rightarrow> bool" where
  "prefix_ok prev [] = True"
| "prefix_ok prev (c # cs) =
     (if c = CHR '' '' \<or> c = CHR '']'' \<or> (c = CHR ''{'' \<and> \<not> formatting prev) then False else prefix_ok (Some c) cs)"

definition without_suffix :: "string \<Rightarrow> string \<Rightarrow> string option" where
  "without_suffix s suf = (if ends_with s suf then Some (take (length s - length suf) s) else None)"

definition bare_prefix :: "string \<Rightarrow> string" where
  "bare_prefix p = (case find_map (without_suffix p) [''_{'', ''^{'', ''~{''] of None \<Rightarrow> p | Some q \<Rightarrow> q)"

fun split_dots :: "string \<Rightarrow> (string \<times> string) option" where
  "split_dots [] = None"
| "split_dots (c # s) = (if c = CHR ''.'' \<and> take 1 s = ''.'' then Some ([], tl s)
     else map_option (\<lambda>(a, b). (c # a, b)) (split_dots s))"

definition all_digits :: "string \<Rightarrow> bool" where
  "all_digits s = list_all (\<lambda>c. digit_val c \<noteq> None) s"

definition width_of :: "string \<Rightarrow> string \<Rightarrow> nat" where
  "width_of a b =
     (if 1 < length a \<and> take 1 a = ''0'' then length a else if 1 < length b \<and> take 1 b = ''0'' then length b else 0)"

definition zero_pad :: "nat \<Rightarrow> nat \<Rightarrow> string" where
  "zero_pad width n = (let d = decimal n in replicate (width - length d) CHR ''0'' @ d)"

definition bus_vector :: "string \<Rightarrow> string list option" where
  "bus_vector s = (case split_once CHR ''['' s of None \<Rightarrow> None
     | Some (raw_prefix, rest) \<Rightarrow>
       if \<not> prefix_ok None raw_prefix then None
       else case split_once CHR '']'' rest of None \<Rightarrow> None
         | Some (interval, tail) \<Rightarrow>
           (case split_dots interval of None \<Rightarrow> None
            | Some (a, b) \<Rightarrow>
              if a = [] \<or> b = [] \<or> \<not> all_digits a \<or> \<not> all_digits b then None
              else case (parse_u64 a, parse_u64 b) of
                  (Some m, Some n) \<Rightarrow>
                    if m = n \<or> \<not> list_all (\<lambda>c. c \<in> set ''}+-PN'') tail \<or> 4096 < max m n - min m n then None
                    else Some (map (\<lambda>k. bare_prefix raw_prefix @ zero_pad (width_of a b) k @ filter (\<lambda>c. c \<noteq> CHR ''}'') tail)
                           [min m n..<Suc (max m n)])
                | _ \<Rightarrow> None))"

text \<open>\<open>bus_group\<close>: the prefix up to a brace that is not formatting, then the members.\<close>

fun group_start :: "char option \<Rightarrow> bool \<Rightarrow> string \<Rightarrow> string option" where
  "group_start prev escaped [] = None"
| "group_start prev escaped (c # cs) =
     (if escaped then group_start (Some c) False cs
      else if c = CHR 0x5C then group_start (Some c) True cs
      else if c = CHR ''{'' \<and> \<not> formatting prev then Some cs
      else if c = CHR '' '' \<or> c = CHR ''['' \<or> c = CHR '']'' then None
      else group_start (Some c) False cs)"

fun group_members :: "nat \<Rightarrow> char option \<Rightarrow> string \<Rightarrow> string list \<Rightarrow> string \<Rightarrow> string list option" where
  "group_members depth prev cur members [] = None"
| "group_members depth prev cur members (c # cs) =
     (if c = CHR ''{'' then
        (if formatting prev then group_members (depth + 1) (Some c) (cur @ [c]) members cs else None)
      else if c = CHR ''}'' then
        (if 0 < depth then group_members (depth - 1) (Some c) (cur @ [c]) members cs
         else Some (if cur = [] then members else members @ [cur]))
      else if (c = CHR '' '' \<or> c = CHR '','') \<and> depth = 0 then
        group_members depth (Some c) [] (if cur = [] then members else members @ [cur]) cs
      else group_members depth (Some c) (cur @ [c]) members cs)"

definition bus_group :: "string \<Rightarrow> string list option" where
  "bus_group s = (case group_start None False s of None \<Rightarrow> None | Some rest \<Rightarrow> group_members 0 None [] [] rest)"

lemma group_start_length: "group_start prev e s = Some r \<Longrightarrow> length r < length s"
  by (induction prev e s rule: group_start.induct) (auto split: if_splits)

lemma group_members_length:
  "group_members d prev cur ms s = Some out \<Longrightarrow> list_all (\<lambda>m. length m < n) ms \<Longrightarrow> length cur + length s < n \<Longrightarrow>
     list_all (\<lambda>m. length m < n) out"
proof (induction d prev cur ms s rule: group_members.induct)
  case (2 d prev cur ms c cs)
  then show ?case by (simp split: if_splits) auto
qed simp

lemma bus_group_length:
  assumes "bus_group s = Some ms" "m \<in> set ms"
  shows "length m < length s"
proof -
  obtain r where r: "group_start None False s = Some r" "group_members 0 None [] [] r = Some ms"
    using assms(1) by (auto simp: bus_group_def split: option.splits)
  show ?thesis
    using group_members_length [OF r(2), of "length s"] group_start_length [OF r(1)] assms(2) by (simp add: list_all_iff)
qed

text \<open>The members of a group are shorter than the group, so the expansion ends.\<close>

function bus_members :: "string \<Rightarrow> string list option" where
  "bus_members s = (case bus_vector s of
       Some v \<Rightarrow> Some v
     | None \<Rightarrow> (case bus_group s of
           None \<Rightarrow> None
         | Some ms \<Rightarrow> Some (concat (map (\<lambda>m. case bus_members m of Some inner \<Rightarrow> inner | None \<Rightarrow> [m]) ms))))"
  by pat_completeness auto
termination
  by (relation "measure length") (auto dest: bus_group_length)

declare bus_members.simps [simp del]

section \<open>Resolution to one class\<close>

record netclass_resolver =
  res_patterns :: "(matcher \<times> class_id) list"
  res_explicit :: "string \<rightharpoonup> class_id list"
  res_rank :: "(int \<times> string) list"

record resolved =
  res_class :: class_id
  res_ambiguous :: bool

definition expand_pattern :: "string \<Rightarrow> string list" where
  "expand_pattern p = (case bus_members p of None \<Rightarrow> [p] | Some ms \<Rightarrow> ms)"

definition NetclassResolver_new ::
  "regex \<Rightarrow> net_class_rules list \<Rightarrow> int option list \<Rightarrow> (string \<times> class_id) list \<Rightarrow> (string \<rightharpoonup> class_id list) \<Rightarrow> netclass_resolver" where
  "NetclassResolver_new rx classes priorities patterns explicit =
     \<lparr>res_patterns = concat (map (\<lambda>(p, i). map (\<lambda>m. (Matcher_new rx m, i)) (expand_pattern p)) patterns),
      res_explicit = explicit,
      res_rank = map (\<lambda>(i, c). (if i = 0 then 2 ^ 63 - 1
          else case nth_opt priorities i of Some (Some p) \<Rightarrow> p | _ \<Rightarrow> int i, class_name c)) (enumerate 0 classes)\<rparr>"

text \<open>\<open>pick\<close>; a class id names a class of the table, so the rank exists.\<close>

definition rank_of :: "netclass_resolver \<Rightarrow> class_id \<Rightarrow> int \<times> string" where
  "rank_of r c = res_rank r ! c"

definition pick_class :: "netclass_resolver \<Rightarrow> class_id list \<Rightarrow> resolved option" where
  "pick_class r found =
     (case remdups_adj (sort_key (rank_of r) found) of
        [] \<Rightarrow> None
      | c # cs \<Rightarrow> Some \<lparr>res_class = c, res_ambiguous = (cs \<noteq> [])\<rparr>)"

definition DEFAULT :: resolved where
  "DEFAULT = \<lparr>res_class = 0, res_ambiguous = False\<rparr>"

definition matching_classes :: "netclass_resolver \<Rightarrow> string \<Rightarrow> class_id list" where
  "matching_classes r name = map snd (filter (\<lambda>(m, _). Matcher_matches m name (chars name)) (res_patterns r))"

text \<open>The loop over bus members: the class they share, \<^const>\<open>None\<close> when it returns the default.\<close>

fun shared_class :: "class_id option \<Rightarrow> class_id list \<Rightarrow> class_id option" where
  "shared_class cls [] = cls"
| "shared_class cls (c # cs) =
     (if c = 0 \<or> (case cls of None \<Rightarrow> False | Some d \<Rightarrow> d \<noteq> c) then None else shared_class (Some c) cs)"

function resolve_depth :: "netclass_resolver \<Rightarrow> string \<Rightarrow> nat \<Rightarrow> resolved" where
  "resolve_depth r name depth =
     (if name = [] then DEFAULT
      else case Option.bind (res_explicit r name) (pick_class r) of
        Some x \<Rightarrow> x
      | None \<Rightarrow> (case pick_class r (matching_classes r name) of
          Some x \<Rightarrow> x
        | None \<Rightarrow>
            if depth < 4 then
              (case bus_members name of
                 None \<Rightarrow> DEFAULT
               | Some members \<Rightarrow>
                   (case shared_class None (map (\<lambda>m. res_class (resolve_depth r m (depth + 1))) members) of
                      None \<Rightarrow> DEFAULT
                    | Some c \<Rightarrow> \<lparr>res_class = c, res_ambiguous = False\<rparr>))
            else DEFAULT))"
  by pat_completeness auto
termination
  by (relation "measure (\<lambda>(_, _, depth). 5 - depth)") auto

declare resolve_depth.simps [simp del]

definition resolve :: "netclass_resolver \<Rightarrow> string \<Rightarrow> resolved" where
  "resolve r name = resolve_depth r name 0"

section \<open>Membership\<close>

record netclass_membership =
  mem_patterns :: "(matcher \<times> nat \<times> string) list"
  mem_explicit :: "string \<rightharpoonup> string list"
  mem_complete :: "string set"

record membership =
  mem_classes :: "string list"
  via_bus_members :: "string list"
  mem_entries :: "nat list"

definition no_membership :: membership where
  "no_membership = \<lparr>mem_classes = [], via_bus_members = [], mem_entries = []\<rparr>"

definition NetclassMembership_new ::
  "regex \<Rightarrow> (string \<times> string) list \<Rightarrow> (string \<rightharpoonup> string list) \<Rightarrow> string set \<Rightarrow> netclass_membership" where
  "NetclassMembership_new rx patterns explicit full =
     \<lparr>mem_patterns = concat (map (\<lambda>(i, p, c). map (\<lambda>m. (Matcher_new rx m, i, c)) (expand_pattern p))
          (filter (\<lambda>(_, p, _). p \<noteq> []) (enumerate 0 patterns))),
      mem_explicit = explicit, mem_complete = full\<rparr>"

definition identity_of :: "netclass_membership \<Rightarrow> string \<Rightarrow> membership \<Rightarrow> string" where
  "identity_of r name m = (case mem_classes m of
       [] \<Rightarrow> ''Default''
     | [one] \<Rightarrow> if one = ''Default'' \<or> one \<in> mem_complete r then one else ''composite for '' @ name
     | _ \<Rightarrow> ''composite for '' @ name)"

definition own_membership :: "netclass_membership \<Rightarrow> string \<Rightarrow> membership" where
  "own_membership r name =
     (let hits = filter (\<lambda>(m, _). Matcher_matches m name (chars name)) (mem_patterns r)
      in \<lparr>mem_classes = remdups_adj (sort ((case mem_explicit r name of None \<Rightarrow> [] | Some cs \<Rightarrow> cs) @ map (snd \<circ> snd) hits)),
          via_bus_members = [], mem_entries = remdups_adj (sort (map (fst \<circ> snd) hits))\<rparr>)"

text \<open>The loop over the members of a bus: what they share and the entries used.\<close>

fun shared_membership ::
  "(string \<times> membership) option \<Rightarrow> nat list \<Rightarrow> (string \<times> membership) list \<Rightarrow> ((string \<times> membership) \<times> nat list) option" where
  "shared_membership shared used [] = (case shared of None \<Rightarrow> None | Some x \<Rightarrow> Some (x, used))"
| "shared_membership shared used ((i, got) # rest) =
     (case shared of
        Some (first, m) \<Rightarrow> if first \<noteq> i then None else shared_membership shared (used @ mem_entries got) rest
      | None \<Rightarrow> shared_membership (Some (i, got)) (used @ mem_entries got) rest)"

function of_depth :: "netclass_membership \<Rightarrow> string \<Rightarrow> nat \<Rightarrow> membership" where
  "of_depth r name depth =
     (if name = [] then no_membership
      else let own = own_membership r name in
        if mem_classes own \<noteq> [] then own
        else if 4 \<le> depth then no_membership
        else case bus_members name of
            None \<Rightarrow> no_membership
          | Some members \<Rightarrow>
              (let others = filter (\<lambda>m. m \<noteq> name) members in
               case shared_membership None []
                   (map (\<lambda>m. let got = of_depth r m (depth + 1) in (identity_of r m got, got)) others) of
                 Some ((i, got), used) \<Rightarrow>
                   if i \<noteq> ''Default''
                   then \<lparr>mem_classes = mem_classes got, via_bus_members = remdups_adj others, mem_entries = remdups_adj (sort used)\<rparr>
                   else no_membership
               | None \<Rightarrow> no_membership))"
  by pat_completeness auto
termination
  by (relation "measure (\<lambda>(_, _, depth). 5 - depth)") auto

declare of_depth.simps [simp del]

definition membership_of :: "netclass_membership \<Rightarrow> string \<Rightarrow> membership" where
  "membership_of r name = of_depth r name 0"

section \<open>What resolution gives\<close>

text \<open>The class of highest precedence, ambiguous if there are several.\<close>

definition best_of :: "netclass_resolver \<Rightarrow> class_id list \<Rightarrow> resolved \<Rightarrow> bool" where
  "best_of r cs x \<longleftrightarrow> res_class x \<in> set cs \<and> (\<forall>d \<in> set cs. rank_of r (res_class x) \<le> rank_of r d) \<and>
     (res_ambiguous x \<longleftrightarrow> set cs \<noteq> {res_class x})"

lemma remdups_adj_single: "remdups_adj xs = [c] \<longleftrightarrow> xs \<noteq> [] \<and> set xs = {c}"
proof
  assume "xs \<noteq> [] \<and> set xs = {c}"
  then have "xs = replicate (length xs) c" "length xs \<noteq> 0" by (auto intro: replicate_eqI)
  then show "remdups_adj xs = [c]" by (metis remdups_adj_replicate)
next
  assume "remdups_adj xs = [c]"
  then show "xs \<noteq> [] \<and> set xs = {c}" by (metis list.distinct(1) list.simps(15) list.set(1) remdups_adj.simps(1) remdups_adj_set)
qed

lemma pick_class_None [simp]: "pick_class r cs = None \<longleftrightarrow> cs = []"
proof -
  have "remdups_adj (sort_key (rank_of r) cs) = [] \<longleftrightarrow> cs = []"
    by (metis length_0_conv length_sort remdups_adj_Nil_iff)
  then show ?thesis by (auto simp: pick_class_def split: list.splits)
qed

lemma pick_class_best: "pick_class r cs = Some x \<Longrightarrow> best_of r cs x"
proof -
  assume "pick_class r cs = Some x"
  then obtain c rest where c: "remdups_adj (sort_key (rank_of r) cs) = c # rest" "x = \<lparr>res_class = c, res_ambiguous = (rest \<noteq> [])\<rparr>"
    by (auto simp: pick_class_def split: list.splits)
  let ?s = "sort_key (rank_of r) cs"
  have hd: "hd ?s = c" "?s \<noteq> []" using c(1) hd_remdups_adj [of ?s] by (auto simp del: hd_remdups_adj)
  then obtain t where t: "?s = c # t" by (cases ?s) auto
  have "sorted (map (rank_of r) (c # t))" using sorted_sort_key [of "rank_of r" cs] unfolding t .
  moreover have cs: "set cs = set (c # t)" using set_sort [of "rank_of r" cs] unfolding t by simp
  ultimately have min: "\<forall>d \<in> set cs. rank_of r c \<le> rank_of r d" and mem: "c \<in> set cs" by auto
  have "rest = [] \<longleftrightarrow> set cs = {c}" using remdups_adj_single [of ?s c] c(1) hd(2) by simp
  then show ?thesis using min mem c(2) by (auto simp: best_of_def)
qed

lemma shared_class_Some:
  "shared_class cls cs = Some c \<longleftrightarrow>
     (cls = Some c \<or> cls = None \<and> cs \<noteq> []) \<and> (\<forall>d \<in> set cs. d = c) \<and> (cs \<noteq> [] \<longrightarrow> c \<noteq> 0)"
  by (induction cls cs rule: shared_class.induct) (auto split: option.splits)

definition bus_class :: "netclass_resolver \<Rightarrow> string \<Rightarrow> class_id \<Rightarrow> bool" where
  "bus_class r name c \<longleftrightarrow> c \<noteq> 0 \<and>
     (\<exists>ms. bus_members name = Some ms \<and> ms \<noteq> [] \<and> (\<forall>m \<in> set ms. res_class (resolve_depth r m 1) = c))"

text \<open>The classes that apply to a name itself: its assignments, or else the patterns that match it.\<close>

definition own_classes :: "netclass_resolver \<Rightarrow> string \<Rightarrow> class_id list" where
  "own_classes r name = (case res_explicit r name of
       Some (c # cs) \<Rightarrow> c # cs | _ \<Rightarrow> matching_classes r name)"

lemma resolve_own:
  assumes "name \<noteq> []" "own_classes r name \<noteq> []"
  shows "best_of r (own_classes r name) (resolve r name)"
proof (cases "Option.bind (res_explicit r name) (pick_class r)")
  case (Some x)
  then obtain cs where cs: "res_explicit r name = Some cs" "pick_class r cs = Some x" by (auto split: bind_splits)
  then have "cs \<noteq> []" by (metis option.distinct(1) pick_class_None)
  then have "own_classes r name = cs" using cs(1) by (cases cs) (auto simp: own_classes_def)
  then show ?thesis using pick_class_best [OF cs(2)] assms(1) Some by (simp add: resolve_def resolve_depth.simps [of r name])
next
  case None
  then have m: "own_classes r name = matching_classes r name"
    by (auto simp: own_classes_def split: option.splits list.splits)
  then obtain x where x: "pick_class r (matching_classes r name) = Some x" using assms(2) by (cases "pick_class r (matching_classes r name)") auto
  then show ?thesis using pick_class_best [OF x] assms(1) None m by (simp add: resolve_def resolve_depth.simps [of r name])
qed

lemma resolve_bus:
  assumes "name \<noteq> []" "own_classes r name = []"
  shows "\<not> res_ambiguous (resolve r name)"
    and "bus_class r name c \<Longrightarrow> res_class (resolve r name) = c"
    and "res_class (resolve r name) \<noteq> 0 \<Longrightarrow> bus_class r name (res_class (resolve r name))"
proof -
  have m: "matching_classes r name = []" and n: "Option.bind (res_explicit r name) (pick_class r) = None"
    using assms(2) by (auto simp: own_classes_def split: option.splits list.splits)
  have eq: "resolve r name = (case bus_members name of None \<Rightarrow> DEFAULT
      | Some ms \<Rightarrow> (case shared_class None (map (\<lambda>m. res_class (resolve_depth r m 1)) ms) of
          None \<Rightarrow> DEFAULT | Some c \<Rightarrow> \<lparr>res_class = c, res_ambiguous = False\<rparr>))"
    using assms(1) n pick_class_None [of r "matching_classes r name"] m
    by (simp add: resolve_def resolve_depth.simps [of r name] del: pick_class_None cong: option.case_cong)
  have sh: "shared_class None (map (\<lambda>m. res_class (resolve_depth r m 1)) ms) = Some c \<longleftrightarrow>
      ms \<noteq> [] \<and> (\<forall>m \<in> set ms. res_class (resolve_depth r m 1) = c) \<and> c \<noteq> 0" for ms c
    by (auto simp: shared_class_Some)
  show "\<not> res_ambiguous (resolve r name)" by (simp add: eq DEFAULT_def split: option.splits)
  show "res_class (resolve r name) = c" if b: "bus_class r name c"
  proof -
    obtain ms where ms: "bus_members name = Some ms" "shared_class None (map (\<lambda>m. res_class (resolve_depth r m 1)) ms) = Some c"
      using b unfolding bus_class_def sh by blast
    then show ?thesis by (simp add: eq)
  qed
  show "res_class (resolve r name) \<noteq> 0 \<Longrightarrow> bus_class r name (res_class (resolve r name))"
    using sh by (auto simp: eq bus_class_def DEFAULT_def simp del: One_nat_def split: option.splits)
qed

text \<open>In a resolver built from a class table, every other class is preferred to the default.\<close>

lemma default_last:
  assumes "0 < c" "c < length classes" "length classes < 2 ^ 63" "\<forall>p \<in> set priorities. case p of None \<Rightarrow> True | Some k \<Rightarrow> k < 2 ^ 63 - 1"
  shows "rank_of (NetclassResolver_new rx classes priorities patterns explicit) c
       < rank_of (NetclassResolver_new rx classes priorities patterns explicit) 0"
proof -
  have "nth_opt priorities c = Some (Some k) \<Longrightarrow> k < 2 ^ 63 - 1" for k
    using assms(4) by (auto simp: nth_opt_def split: if_splits dest!: nth_mem [of c priorities])
  moreover have "int c < 2 ^ 63 - 1"
  proof -
    have "int (c + 1) < int (2 ^ 63)" using assms(2,3) unfolding of_nat_less_iff by linarith
    then show ?thesis by simp
  qed
  moreover have "0 < length classes" using assms(1,2) by linarith
  ultimately show ?thesis
    using assms(1,2) by (auto simp: rank_of_def NetclassResolver_new_def nth_enumerate_eq case_prod_unfold split: option.splits)
qed

text \<open>
  C34: A net takes the class of highest precedence among its explicit assignments, or else among the patterns that match it, and is
  ambiguous exactly when there are several; a net with neither takes the class its bus members share, else the default. In a
  table built from a project the default is chosen only when nothing else applies.
\<close>

theorem netclass_resolution:
  assumes "name \<noteq> []" "r = NetclassResolver_new rx classes priorities patterns explicit"
    and "length classes < 2 ^ 63" "\<forall>p \<in> set priorities. case p of None \<Rightarrow> True | Some k \<Rightarrow> k < 2 ^ 63 - 1"
    and "set (own_classes r name) \<subseteq> {..<length classes}"
  shows "if own_classes r name \<noteq> []
      then best_of r (own_classes r name) (resolve r name) \<and>
        (res_class (resolve r name) = 0 \<longleftrightarrow> set (own_classes r name) = {0})
      else \<not> res_ambiguous (resolve r name) \<and>
        (\<forall>c. c \<noteq> 0 \<longrightarrow> (res_class (resolve r name) = c \<longleftrightarrow> bus_class r name c))"
proof (cases "own_classes r name = []")
  case False
  have best: "best_of r (own_classes r name) (resolve r name)" by (rule resolve_own [OF assms(1) False])
  have "set (own_classes r name) = {0}" if z: "res_class (resolve r name) = 0"
  proof -
    have "d = 0" if "d \<in> set (own_classes r name)" for d
      using best that z default_last [of d classes priorities rx patterns explicit] assms(2-5)
      by (cases "d = 0") (auto simp: best_of_def dest!: bspec [where x = d])
    then show ?thesis using False by (cases "own_classes r name") auto
  qed
  then show ?thesis using best False by (auto simp: best_of_def)
next
  case True
  have "bus_class r name c \<Longrightarrow> c \<noteq> 0" for c by (simp add: bus_class_def)
  then show ?thesis using resolve_bus [OF assms(1) True] True by auto
qed

definition demo_classes :: "net_class_rules list" where
  "demo_classes = map (\<lambda>n. \<lparr>class_name = n, class_clearance = 200000, class_track_width = 250000, class_via_diameter = 600000,
     class_via_drill = 300000, diff_pair_width = None, diff_pair_gap = None\<rparr>) [''Default'', ''Fast'', ''Bus'']"

definition demo_resolver :: netclass_resolver where
  "demo_resolver = NetclassResolver_new (\<lambda>_. None) demo_classes [None, Some 4, Some 2] [(''CLK*'', 1), (''CLK?'', 2)] [''VCC'' \<mapsto> [1]]"

lemma demo_own: "own_classes demo_resolver ''CLK1'' = [1, 2]"
  by code_simp

lemma demo_rank: "rank_of demo_resolver 1 = (4, ''Fast'')" "rank_of demo_resolver 2 = (2, ''Bus'')"
  by (simp_all add: rank_of_def demo_resolver_def NetclassResolver_new_def demo_classes_def nth_opt_def)

lemma demo_pick: "pick_class demo_resolver [1, 2] = Some \<lparr>res_class = 2, res_ambiguous = True\<rparr>"
  using demo_rank by (simp add: pick_class_def)

lemma demo_explicit: "res_explicit demo_resolver = [''VCC'' \<mapsto> [1]]"
  by (simp add: demo_resolver_def NetclassResolver_new_def)

lemma demo_matching: "matching_classes demo_resolver ''CLK1'' = [1, 2]" "matching_classes demo_resolver ''CLK2'' = [1, 2]"
  "matching_classes demo_resolver ''B{CLK1 CLK2}'' = []"
  by code_simp+

lemma demo_resolve:
  "resolve_depth demo_resolver ''CLK1'' d = \<lparr>res_class = 2, res_ambiguous = True\<rparr>"
  "resolve_depth demo_resolver ''CLK2'' d = \<lparr>res_class = 2, res_ambiguous = True\<rparr>"
  by (subst resolve_depth.simps, simp add: demo_explicit demo_matching demo_pick [simplified])+

lemma demo_members: "bus_members ''B{CLK1 CLK2}'' = Some [''CLK1'', ''CLK2'']"
  by code_simp

lemma demo_bus: "resolve demo_resolver ''B{CLK1 CLK2}'' = \<lparr>res_class = 2, res_ambiguous = False\<rparr>"
  unfolding resolve_def
  by (subst resolve_depth.simps) (simp add: demo_explicit demo_matching demo_members demo_resolve pick_class_def)

theorem netclass_resolution_witness:
  "best_of demo_resolver [1, 2] (resolve demo_resolver ''CLK1'') \<and> bus_class demo_resolver ''B{CLK1 CLK2}'' 2"
proof -
  note res = netclass_resolution [OF _ demo_resolver_def, simplified demo_classes_def, simplified]
  have "own_classes demo_resolver ''B{CLK1 CLK2}'' = []" by (simp add: own_classes_def demo_explicit demo_matching)
  then have "\<forall>c > 0. (c = 2) = bus_class demo_resolver ''B{CLK1 CLK2}'' c" using res [of "''B{CLK1 CLK2}''"] demo_bus by simp
  then have "bus_class demo_resolver ''B{CLK1 CLK2}'' 2" by (metis zero_less_numeral)
  moreover have "best_of demo_resolver [1, 2] (resolve demo_resolver ''CLK1'')" using res [of "''CLK1''"] demo_own by auto
  ultimately show ?thesis by blast
qed

end
