(* ===== verification/Rule_Table.thy ===== *)
theory Rule_Table
  imports Rule_Netclass
begin

text \<open>
  The rule table of the router, \<open>crates/konnect-route/src/rules/mod.rs\<close>: reading net classes and board minimums from a
  project file, compiling the design rules file, and the rule queries. A JSON value is the datatype \<open>json\<close>, its text
  parser a parameter, as are the conversions of millimetres, lengths and angles (arithmetic on \<open>f64\<close>); a finite
  \<open>f64\<close> is a \<^typ>\<open>rat\<close>. Reasons of inert rules are kept as constructors instead of messages.
\<close>

section \<open>Inputs\<close>

datatype json = J_Null | J_Bool bool | J_Number rat "int option" | J_String string | J_Array "json list" | J_Object "(string \<times> json) list"

definition json_get :: "json \<Rightarrow> string \<Rightarrow> json option" where
  "json_get v key = (case v of J_Object m \<Rightarrow> map_of m key | _ \<Rightarrow> None)"

text \<open>Indexing: a missing key is null.\<close>

definition json_at :: "json \<Rightarrow> string \<Rightarrow> json" where
  "json_at v key = (case json_get v key of None \<Rightarrow> J_Null | Some x \<Rightarrow> x)"

definition json_str :: "json \<Rightarrow> string option" where
  "json_str v = (case v of J_String s \<Rightarrow> Some s | _ \<Rightarrow> None)"

definition json_list :: "json \<Rightarrow> json list" where
  "json_list v = (case v of J_Array xs \<Rightarrow> xs | _ \<Rightarrow> [])"

definition json_f64 :: "json \<Rightarrow> rat option" where
  "json_f64 v = (case v of J_Number x _ \<Rightarrow> Some x | _ \<Rightarrow> None)"

definition json_i64 :: "json \<Rightarrow> int option" where
  "json_i64 v = (case v of J_Number _ i \<Rightarrow> i | _ \<Rightarrow> None)"

record rule_env =
  env_unicode :: unicode
  env_regex :: regex
  parse_json :: "string \<Rightarrow> json option"
  mm_to_nm :: "rat \<Rightarrow> int option"
  parse_length_nm :: "string \<Rightarrow> rat option"
  parse_angle_deg :: "string \<Rightarrow> rat option"

section \<open>Subjects and answers\<close>

record rule_subject =
  rs_kind :: item_kind
  rs_net :: "netid option"
  rs_footprint :: "footprint_id option"
  rs_courtyards :: "footprint_id list"
  rs_areas :: "string list"
  rs_local :: "int option"

definition RuleSubject_new :: "item_kind \<Rightarrow> netid option \<Rightarrow> rule_subject" where
  "RuleSubject_new kind n =
     \<lparr>rs_kind = kind, rs_net = n, rs_footprint = None, rs_courtyards = [], rs_areas = [], rs_local = None\<rparr>"

definition with_footprint :: "rule_subject \<Rightarrow> footprint_id \<Rightarrow> rule_subject" where
  "with_footprint s f = s\<lparr>rs_footprint := Some f\<rparr>"

definition with_courtyards :: "rule_subject \<Rightarrow> footprint_id list \<Rightarrow> rule_subject" where
  "with_courtyards s fs = s\<lparr>rs_courtyards := fs\<rparr>"

definition with_areas :: "rule_subject \<Rightarrow> string list \<Rightarrow> rule_subject" where
  "with_areas s as = s\<lparr>rs_areas := as\<rparr>"

definition with_local_clearance :: "rule_subject \<Rightarrow> int option \<Rightarrow> rule_subject" where
  "with_local_clearance s c = s\<lparr>rs_local := c\<rparr>"

record board_rules =
  min_clearance :: int
  min_track_width :: int
  min_via_diameter :: int
  min_via_annular_width :: int
  min_through_hole_diameter :: int
  br_edge_clearance :: int
  br_hole_clearance :: int
  br_hole_to_hole :: int
  max_error :: int

record width_rule =
  wr_min :: int
  wr_preferred :: int

record via_rule =
  vr_diameter :: int
  vr_drill :: int
  vr_min_diameter :: int
  vr_min_drill :: int
  vr_min_annular :: int

datatype constraint_kind = C_Clearance | C_TrackWidth | C_ViaDiameter | C_HoleSize | C_AnnularWidth | C_TrackSegmentLength | C_TrackAngle

definition dru_name :: "constraint_kind \<Rightarrow> string" where
  "dru_name k = (case k of C_Clearance \<Rightarrow> ''clearance'' | C_TrackWidth \<Rightarrow> ''track_width'' | C_ViaDiameter \<Rightarrow> ''via_diameter''
     | C_HoleSize \<Rightarrow> ''hole_size'' | C_AnnularWidth \<Rightarrow> ''annular_width'' | C_TrackSegmentLength \<Rightarrow> ''track_segment_length''
     | C_TrackAngle \<Rightarrow> ''track_angle'')"

definition is_via_kind :: "constraint_kind \<Rightarrow> bool" where
  "is_via_kind k \<longleftrightarrow> k \<in> {C_ViaDiameter, C_HoleSize, C_AnnularWidth}"

definition takes_opt_and_max :: "constraint_kind \<Rightarrow> bool" where
  "takes_opt_and_max k \<longleftrightarrow> k \<in> {C_TrackWidth, C_ViaDiameter, C_HoleSize}"

record constraint =
  c_kind :: constraint_kind
  c_min :: "rat option"
  c_opt :: "rat option"
  c_max :: "rat option"

text \<open>The cast \<open>as i32\<close> of an \<open>f64\<close>: towards zero, saturating.\<close>

definition to_nm :: "rat \<Rightarrow> int" where
  "to_nm v = sat32 (if 0 \<le> v then \<lfloor>v\<rfloor> else \<lceil>v\<rceil>)"

record compiled_rule =
  cr_name :: string
  cr_layer :: "layer_id option"
  cr_condition :: expr
  cr_constraints :: "constraint list"

datatype reason =
    Not_A_Copper_Layer string
  | No_Expression
  | Bad_Condition cond_error
  | Severity_Ignored
  | Severity_Unknown string
  | Unsupported_Clause string
  | Malformed_Clause
  | Via_On_One_Layer string
  | No_Supported_Constraint
  | Unsupported_Constraint string
  | Malformed_Limit string
  | No_Value string string
  | Bad_Value string string string
  | Unsupported_Limit string string
  | Unsupported_Option string string
  | Min_Above_Max string
  | Class_Undefined string

record inert_rule =
  ir_rule :: string
  ir_reason :: reason

datatype rule_error = Project_Json | No_Default_Class | Bad_Class nat "string option" | Dru_Unreadable

record rule_table =
  t_classes :: "net_class_rules list"
  class_by_net :: "class_id list"
  t_board :: board_rules
  t_rules :: "compiled_rule list"
  t_inert :: "inert_rule list"
  ambiguous_nets :: "string list"
  net_names :: "string list"
  t_references :: "string option list"
  t_max_clearance :: int

section \<open>Project file readers\<close>

definition mm_field :: "rule_env \<Rightarrow> json \<Rightarrow> string \<Rightarrow> int option" where
  "mm_field E v key = Option.bind (Option.bind (json_get v key) json_f64) (mm_to_nm E)"

definition or_else :: "'a option \<Rightarrow> 'a option \<Rightarrow> 'a option" where
  "or_else a b = (case a of None \<Rightarrow> b | Some _ \<Rightarrow> a)"

text \<open>One length of a class: its own value, or the inherited one.\<close>

definition class_field :: "rule_env \<Rightarrow> nat \<Rightarrow> json \<Rightarrow> string \<Rightarrow> int option \<Rightarrow> rule_error + int" where
  "class_field E index c key inherited = (case or_else (mm_field E c key) inherited of
       Some v \<Rightarrow> Inr v | None \<Rightarrow> Inl (Bad_Class index (Some key)))"

definition bind_ok :: "'e + 'a \<Rightarrow> ('a \<Rightarrow> 'e + 'b) \<Rightarrow> 'e + 'b" where
  "bind_ok m k = (case m of Inl e \<Rightarrow> Inl e | Inr x \<Rightarrow> k x)"

definition read_class :: "rule_env \<Rightarrow> nat \<Rightarrow> json \<Rightarrow> net_class_rules option \<Rightarrow> rule_error + net_class_rules" where
  "read_class E index c base = (case json_str (json_at c ''name'') of
       None \<Rightarrow> Inl (Bad_Class index None)
     | Some name \<Rightarrow>
       bind_ok (class_field E index c ''clearance'' (map_option class_clearance base)) (\<lambda>clr.
       bind_ok (class_field E index c ''track_width'' (map_option class_track_width base)) (\<lambda>width.
       bind_ok (class_field E index c ''via_diameter'' (map_option class_via_diameter base)) (\<lambda>dia.
       bind_ok (class_field E index c ''via_drill'' (map_option class_via_drill base)) (\<lambda>drl.
       Inr \<lparr>class_name = name, class_clearance = clr, class_track_width = width, class_via_diameter = dia, class_via_drill = drl,
            diff_pair_width = or_else (mm_field E c ''diff_pair_width'') (Option.bind base diff_pair_width),
            diff_pair_gap = or_else (mm_field E c ''diff_pair_gap'') (Option.bind base diff_pair_gap)\<rparr>)))))"

fun read_classes :: "rule_env \<Rightarrow> nat \<Rightarrow> net_class_rules \<Rightarrow> (nat \<times> json) list \<Rightarrow> rule_error + net_class_rules list" where
  "read_classes E d base [] = Inr []"
| "read_classes E d base ((i, c) # cs) =
     (if i = d then read_classes E d base cs
      else bind_ok (read_class E i c (Some base)) (\<lambda>x. map_sum (\<lambda>e. e) (Cons x) (read_classes E d base cs)))"

definition parse_classes :: "rule_env \<Rightarrow> json \<Rightarrow> rule_error + net_class_rules list" where
  "parse_classes E v =
     (let list = json_list v in
      case find (\<lambda>(_, c). json_str (json_at c ''name'') = Some ''Default'') (enumerate 0 list) of
        None \<Rightarrow> Inl No_Default_Class
      | Some (d, c) \<Rightarrow>
          bind_ok (read_class E d c None) (\<lambda>base. map_sum (\<lambda>e. e) (Cons base) (read_classes E d base (enumerate 0 list))))"

definition parse_board_rules :: "rule_env \<Rightarrow> json \<Rightarrow> board_rules" where
  "parse_board_rules E v =
     (let f = (\<lambda>key. case mm_field E v key of None \<Rightarrow> 0 | Some x \<Rightarrow> x)
      in \<lparr>min_clearance = f ''min_clearance'', min_track_width = f ''min_track_width'', min_via_diameter = f ''min_via_diameter'',
          min_via_annular_width = f ''min_via_annular_width'', min_through_hole_diameter = f ''min_through_hole_diameter'',
          br_edge_clearance = f ''min_copper_edge_clearance'', br_hole_clearance = f ''min_hole_clearance'',
          br_hole_to_hole = f ''min_hole_to_hole'', max_error = f ''max_error''\<rparr>)"

definition as_u16 :: "nat \<Rightarrow> nat" where
  "as_u16 n = nat (int n mod 2 ^ 16)"

fun position :: "('a \<Rightarrow> bool) \<Rightarrow> 'a list \<Rightarrow> nat option" where
  "position P [] = None"
| "position P (x # xs) = (if P x then Some 0 else map_option Suc (position P xs))"

definition class_id_of :: "net_class_rules list \<Rightarrow> string \<Rightarrow> class_id option" where
  "class_id_of classes name = map_option as_u16 (position (\<lambda>c. class_name c = name) classes)"

text \<open>The loop over \<open>netclass_patterns\<close>.\<close>

fun read_patterns :: "net_class_rules list \<Rightarrow> json list \<Rightarrow> (string \<times> class_id) list \<times> inert_rule list" where
  "read_patterns classes [] = ([], [])"
| "read_patterns classes (p # ps) =
     (let (patterns, inert) = read_patterns classes ps in
      case (json_str (json_at p ''pattern''), json_str (json_at p ''netclass'')) of
        (Some pattern, Some name) \<Rightarrow> (case class_id_of classes name of
            Some i \<Rightarrow> ((pattern, i) # patterns, inert)
          | None \<Rightarrow> (patterns, \<lparr>ir_rule = ''netclass pattern '' @ [CHR 0x27] @ pattern @ [CHR 0x27], ir_reason = Class_Undefined name\<rparr> # inert))
      | _ \<Rightarrow> (patterns, inert))"

definition assigned_names :: "json \<Rightarrow> string list" where
  "assigned_names v = (case v of J_String s \<Rightarrow> [s] | J_Array xs \<Rightarrow> List.map_filter json_str xs | _ \<Rightarrow> [])"

fun read_assignments :: "net_class_rules list \<Rightarrow> (string \<times> json) list \<Rightarrow> (string \<rightharpoonup> class_id list) \<Rightarrow> (string \<rightharpoonup> class_id list)" where
  "read_assignments classes [] m = m"
| "read_assignments classes ((net, v) # rest) m =
     (let ids = List.map_filter (class_id_of classes) (assigned_names v)
      in read_assignments classes rest (if ids = [] then m else m(net \<mapsto> ids)))"

definition priority_of :: "json list \<Rightarrow> net_class_rules \<Rightarrow> int option" where
  "priority_of listed c = Option.bind (find (\<lambda>j. json_str (json_at j ''name'') = Some (class_name c)) listed)
     (\<lambda>j. json_i64 (json_at j ''priority''))"

definition project_resolver :: "rule_env \<Rightarrow> json \<Rightarrow> net_class_rules list \<Rightarrow> netclass_resolver" where
  "project_resolver E settings classes =
     NetclassResolver_new (env_regex E) classes
       (map (priority_of (json_list (json_at settings ''classes''))) classes)
       (fst (read_patterns classes (json_list (json_at settings ''netclass_patterns''))))
       (read_assignments classes (case json_at settings ''netclass_assignments'' of J_Object m \<Rightarrow> m | _ \<Rightarrow> []) Map.empty)"

definition assign_classes :: "rule_env \<Rightarrow> json \<Rightarrow> net_class_rules list \<Rightarrow> route_board \<Rightarrow> class_id list \<times> string list \<times> inert_rule list" where
  "assign_classes E settings classes b =
     (let r = project_resolver E settings classes in
      (map (\<lambda>n. res_class (resolve r (net_text n))) (nets b),
       map net_text (filter (\<lambda>n. res_ambiguous (resolve r (net_text n))) (nets b)),
       snd (read_patterns classes (json_list (json_at settings ''netclass_patterns'')))))"

section \<open>The design rules compiler\<close>

definition BoardNames :: "route_board \<Rightarrow> name_resolver" where
  "BoardNames b = \<lparr>resolve_footprint = footprint_by_reference b,
     has_area = (\<lambda>name. list_ex (\<lambda>k. keepout_name k = Some name) (keepouts b) \<or> list_ex (\<lambda>z. zone_name z = Some name) (zones b))\<rparr>"

definition second_str :: "sexp \<Rightarrow> string option" where
  "second_str n = Option.bind (node_get n 1) text_of"

definition after_two :: "sexp \<Rightarrow> sexp list" where
  "after_two n = drop 2 (case node_children n of None \<Rightarrow> [] | Some cs \<Rightarrow> cs)"

definition kind_of_name :: "string \<Rightarrow> constraint_kind option" where
  "kind_of_name s = (if s = ''clearance'' then Some C_Clearance else if s = ''track_width'' then Some C_TrackWidth
     else if s = ''via_diameter'' then Some C_ViaDiameter else if s = ''hole_size'' then Some C_HoleSize
     else if s = ''annular_width'' then Some C_AnnularWidth else if s = ''track_segment_length'' then Some C_TrackSegmentLength
     else if s = ''track_angle'' then Some C_TrackAngle else None)"

definition limit_value :: "rule_env \<Rightarrow> constraint_kind \<Rightarrow> string \<Rightarrow> rat option" where
  "limit_value E kind raw = (if kind = C_TrackAngle then parse_angle_deg E raw else parse_length_nm E raw)"

fun read_limits :: "rule_env \<Rightarrow> string \<Rightarrow> sexp list \<Rightarrow> constraint \<Rightarrow> reason + constraint" where
  "read_limits E ty [] c = Inr c"
| "read_limits E ty (n # ns) c = (case node_head n of None \<Rightarrow> Inl (Malformed_Limit ty)
     | Some head \<Rightarrow> (case second_str n of None \<Rightarrow> Inl (No_Value ty head)
       | Some raw \<Rightarrow> (case limit_value E (c_kind c) raw of None \<Rightarrow> Inl (Bad_Value ty head raw)
         | Some v \<Rightarrow>
             if head = ''min'' then read_limits E ty ns (c\<lparr>c_min := Some v\<rparr>)
             else if (head = ''opt'' \<or> head = ''max'') \<and> \<not> takes_opt_and_max (c_kind c) then Inl (Unsupported_Limit ty head)
             else if head = ''opt'' then read_limits E ty ns (c\<lparr>c_opt := Some v\<rparr>)
             else if head = ''max'' then read_limits E ty ns (c\<lparr>c_max := Some v\<rparr>)
             else Inl (Unsupported_Option ty head))))"

definition compile_constraint :: "rule_env \<Rightarrow> sexp \<Rightarrow> reason + constraint" where
  "compile_constraint E n =
     (let ty = (case second_str n of None \<Rightarrow> [] | Some s \<Rightarrow> s) in
      case kind_of_name ty of None \<Rightarrow> Inl (Unsupported_Constraint ty)
      | Some kind \<Rightarrow> bind_ok (read_limits E ty (after_two n) \<lparr>c_kind = kind, c_min = None, c_opt = None, c_max = None\<rparr>)
          (\<lambda>c. case (c_min c, c_max c) of
             (Some lo, Some hi) \<Rightarrow> if hi < lo then Inl (Min_Above_Max ty) else Inr c
           | _ \<Rightarrow> Inr c))"

text \<open>
  The loop over the clauses of a rule. The first component is what has been reported inert so far, which stays reported
  when the rule fails.
\<close>

record rule_state =
  st_layer :: "layer_id option"
  st_condition :: expr
  st_constraints :: "constraint list"

fun compile_clauses ::
  "rule_env \<Rightarrow> route_board \<Rightarrow> string \<Rightarrow> sexp list \<Rightarrow> rule_state \<Rightarrow> inert_rule list \<Rightarrow> inert_rule list \<times> (reason + rule_state)" where
  "compile_clauses E b name [] st inert = (inert, Inr st)"
| "compile_clauses E b name (n # ns) st inert = (case node_head n of
       None \<Rightarrow> (inert, Inl Malformed_Clause)
     | Some h \<Rightarrow>
         if h = ''layer'' then
           (let token = (case second_str n of None \<Rightarrow> [] | Some s \<Rightarrow> s) in
            case by_name (layer_table_of b) token of
              None \<Rightarrow> (inert, Inl (Not_A_Copper_Layer token))
            | Some l \<Rightarrow> compile_clauses E b name ns (st\<lparr>st_layer := Some l\<rparr>) inert)
         else if h = ''condition'' then
           (case second_str n of
              None \<Rightarrow> (inert, Inl No_Expression)
            | Some src \<Rightarrow> (case parse_condition (BoardNames b) src of
                Inl e \<Rightarrow> (inert, Inl (Bad_Condition e))
              | Inr x \<Rightarrow> compile_clauses E b name ns (st\<lparr>st_condition := x\<rparr>) inert))
         else if h = ''constraint'' then
           (case compile_constraint E n of
              Inl e \<Rightarrow> compile_clauses E b name ns st (inert @ [\<lparr>ir_rule = name, ir_reason = e\<rparr>])
            | Inr c \<Rightarrow> compile_clauses E b name ns (st\<lparr>st_constraints := st_constraints st @ [c]\<rparr>) inert)
         else if h = ''severity'' then
           (case second_str n of
              None \<Rightarrow> (inert, Inl (Severity_Unknown []))
            | Some s \<Rightarrow>
                if s = ''error'' \<or> s = ''warning'' then compile_clauses E b name ns st inert
                else if s = ''ignore'' then (inert, Inl Severity_Ignored)
                else (inert, Inl (Severity_Unknown s)))
         else (inert, Inl (Unsupported_Clause h)))"

definition compile_rule :: "rule_env \<Rightarrow> route_board \<Rightarrow> string \<Rightarrow> sexp \<Rightarrow> inert_rule list \<Rightarrow> inert_rule list \<times> (reason + compiled_rule)" where
  "compile_rule E b name n inert0 =
     (case compile_clauses E b name (after_two n) \<lparr>st_layer = None, st_condition = E_True, st_constraints = []\<rparr> inert0 of
        (inert, Inl e) \<Rightarrow> (inert, Inl e)
      | (inert, Inr st) \<Rightarrow>
          (let scoped = st_layer st \<noteq> None;
               kept = (if scoped then filter (\<lambda>c. \<not> is_via_kind (c_kind c)) (st_constraints st) else st_constraints st);
               dropped = (if scoped then filter (\<lambda>c. is_via_kind (c_kind c)) (st_constraints st) else []);
               inert' = inert @ map (\<lambda>c. \<lparr>ir_rule = name, ir_reason = Via_On_One_Layer (dru_name (c_kind c))\<rparr>) dropped
           in if kept = [] then (inert', Inl No_Supported_Constraint)
              else (inert', Inr \<lparr>cr_name = name, cr_layer = st_layer st, cr_condition = st_condition st, cr_constraints = kept\<rparr>)))"

definition rule_name :: "sexp \<Rightarrow> string" where
  "rule_name n = (case second_str n of None \<Rightarrow> ''<unnamed>'' | Some s \<Rightarrow> s)"

fun compile_rules :: "rule_env \<Rightarrow> route_board \<Rightarrow> sexp list \<Rightarrow> compiled_rule list \<Rightarrow> inert_rule list \<Rightarrow> compiled_rule list \<times> inert_rule list" where
  "compile_rules E b [] rules inert = (rules, inert)"
| "compile_rules E b (n # ns) rules inert = (case compile_rule E b (rule_name n) n inert of
       (inert', Inr rule) \<Rightarrow> compile_rules E b ns (rules @ [rule]) inert'
     | (inert', Inl e) \<Rightarrow> compile_rules E b ns rules (inert' @ [\<lparr>ir_rule = rule_name n, ir_reason = e\<rparr>]))"

definition dru_tree :: "string \<Rightarrow> sexp_error + sexp" where
  "dru_tree dru = Sexp_Read.parse_sexp (''(kicad_dru'' @ [CHR 0x0A] @ dru @ [CHR 0x0A] @ '')'')"

definition compile_dru :: "rule_env \<Rightarrow> string \<Rightarrow> route_board \<Rightarrow> rule_error + compiled_rule list \<times> inert_rule list" where
  "compile_dru E dru b = (case dru_tree dru of
       Inl _ \<Rightarrow> Inl Dru_Unreadable
     | Inr doc \<Rightarrow> Inr (compile_rules E b (node_find_all doc ''rule'') [] []))"

section \<open>The table\<close>

definition clearance_mins :: "compiled_rule list \<Rightarrow> int list" where
  "clearance_mins rules = map to_nm (List.map_filter c_min (filter (\<lambda>c. c_kind c = C_Clearance) (concat (map cr_constraints rules))))"

definition max_clearance_of :: "net_class_rules list \<Rightarrow> compiled_rule list \<Rightarrow> board_rules \<Rightarrow> route_board \<Rightarrow> int" where
  "max_clearance_of classes rules br b =
     (let of_classes = (case map class_clearance classes of [] \<Rightarrow> 0 | c # cs \<Rightarrow> foldl max c cs);
          of_rules = foldl max of_classes (clearance_mins rules);
          of_board = max (max (max (max of_rules (min_clearance br)) (br_edge_clearance br)) (br_hole_clearance br)) (br_hole_to_hole br)
      in foldl max of_board (List.map_filter local_clearance (pads b)))"

definition from_project :: "rule_env \<Rightarrow> string \<Rightarrow> string option \<Rightarrow> route_board \<Rightarrow> rule_error + rule_table" where
  "from_project E pro_json dru b = (case parse_json E pro_json of
       None \<Rightarrow> Inl Project_Json
     | Some pro \<Rightarrow>
       bind_ok (parse_classes E (json_at (json_at pro ''net_settings'') ''classes'')) (\<lambda>classes.
         let br = parse_board_rules E (json_at (json_at (json_at pro ''board'') ''design_settings'') ''rules'');
             (by_net, ambiguous, inert) = assign_classes E (json_at pro ''net_settings'') classes b
         in bind_ok (case dru of None \<Rightarrow> Inr ([], []) | Some text \<Rightarrow> compile_dru E text b) (\<lambda>(rules, more).
           Inr \<lparr>t_classes = classes, class_by_net = by_net, t_board = br, t_rules = rules, t_inert = inert @ more,
                ambiguous_nets = ambiguous, net_names = map net_text (nets b), t_references = map reference (footprints b),
                t_max_clearance = max_clearance_of classes rules br b\<rparr>)))"

definition class_of :: "rule_table \<Rightarrow> netid option \<Rightarrow> class_id" where
  "class_of t n = (case Option.bind n (nth_opt (class_by_net t)) of None \<Rightarrow> 0 | Some c \<Rightarrow> c)"

text \<open>Writing the classes into the board, and pinning one net's class.\<close>

definition write_classes :: "rule_table \<Rightarrow> route_board \<Rightarrow> route_board" where
  "write_classes t b = b\<lparr>nets := map (\<lambda>n. n\<lparr>net_class := class_of t (Some (net_ident n))\<rparr>) (nets b)\<rparr>"

definition pin_net_class :: "rule_table \<Rightarrow> netid \<Rightarrow> string \<Rightarrow> bool \<times> rule_table" where
  "pin_net_class t n cls = (case position (\<lambda>c. class_name c = cls) (t_classes t) of
       None \<Rightarrow> (False, t)
     | Some i \<Rightarrow>
         if n < length (class_by_net t)
         then (True, t\<lparr>class_by_net := (class_by_net t)[n := as_u16 i],
                       ambiguous_nets := (case nth_opt (net_names t) n of None \<Rightarrow> ambiguous_nets t
                          | Some name \<Rightarrow> filter (\<lambda>x. x \<noteq> name) (ambiguous_nets t))\<rparr>)
         else (False, t))"

text \<open>A class id of the table names one of its classes; the code's indexing panics otherwise.\<close>

definition class_at :: "rule_table \<Rightarrow> class_id \<Rightarrow> net_class_rules" where
  "class_at t c = t_classes t ! c"

definition class_rules :: "rule_table \<Rightarrow> netid option \<Rightarrow> net_class_rules" where
  "class_rules t n = class_at t (class_of t n)"

record rules_report =
  rep_classes :: "string list"
  nets_per_class :: "string \<Rightarrow> nat"
  applied_rules :: "string list"
  rep_inert :: "inert_rule list"
  rep_ambiguous :: "string list"
  rep_board :: board_rules

definition report :: "rule_table \<Rightarrow> rules_report" where
  "report t = \<lparr>rep_classes = map class_name (t_classes t),
     nets_per_class = (\<lambda>name. length (filter (\<lambda>c. class_name (class_at t c) = name) (class_by_net t))),
     applied_rules = map cr_name (t_rules t), rep_inert = t_inert t, rep_ambiguous = ambiguous_nets t, rep_board = t_board t\<rparr>"

text \<open>What a condition sees of a subject.\<close>

definition view_of :: "rule_table \<Rightarrow> rule_subject \<Rightarrow> subject_view" where
  "view_of t s = \<lparr>view_prop = (\<lambda>p. case p of
         NetName \<Rightarrow> (case Option.bind (rs_net s) (nth_opt (net_names t)) of None \<Rightarrow> [] | Some n \<Rightarrow> n)
       | NetClass \<Rightarrow> class_name (class_rules t (rs_net s))
       | Type \<Rightarrow> kicad_type_name (rs_kind s)
       | Reference \<Rightarrow> (case Option.bind (rs_footprint s) (nth_opt (t_references t)) of Some (Some r) \<Rightarrow> r | _ \<Rightarrow> [])),
     intersects_courtyard = (\<lambda>f. f \<in> set (rs_courtyards s)),
     enclosed_by_area = (\<lambda>a. a \<in> set (rs_areas s))\<rparr>"

definition layer_applies :: "layer_id option \<Rightarrow> layer_id option \<Rightarrow> bool" where
  "layer_applies rule_layer layer = (case rule_layer of
       None \<Rightarrow> True | Some rl \<Rightarrow> (case layer of None \<Rightarrow> False | Some l \<Rightarrow> rl = l))"

definition condition_holds :: "unicode \<Rightarrow> rule_table \<Rightarrow> expr \<Rightarrow> rule_subject \<Rightarrow> rule_subject option \<Rightarrow> bool" where
  "condition_holds U t x a b = (case b of
       None \<Rightarrow> eval U x (view_of t a) None
     | Some s \<Rightarrow> eval U x (view_of t a) (Some (view_of t s)) \<or> eval U x (view_of t s) (Some (view_of t a)))"

fun match_rules ::
  "unicode \<Rightarrow> rule_table \<Rightarrow> constraint_kind \<Rightarrow> layer_id option \<Rightarrow> rule_subject \<Rightarrow> rule_subject option \<Rightarrow> compiled_rule list \<Rightarrow> constraint option" where
  "match_rules U t kind layer a b [] = None"
| "match_rules U t kind layer a b (r # rs) =
     (if \<not> layer_applies (cr_layer r) layer then match_rules U t kind layer a b rs
      else case find (\<lambda>c. c_kind c = kind) (cr_constraints r) of
          None \<Rightarrow> match_rules U t kind layer a b rs
        | Some c \<Rightarrow> if condition_holds U t (cr_condition r) a b then Some c else match_rules U t kind layer a b rs)"

definition last_match ::
  "unicode \<Rightarrow> rule_table \<Rightarrow> constraint_kind \<Rightarrow> layer_id option \<Rightarrow> rule_subject \<Rightarrow> rule_subject option \<Rightarrow> constraint option" where
  "last_match U t kind layer a b = match_rules U t kind layer a b (rev (t_rules t))"

definition unwrap_or :: "'a \<Rightarrow> 'a option \<Rightarrow> 'a" where
  "unwrap_or d x = (case x of None \<Rightarrow> d | Some y \<Rightarrow> y)"

definition clearance :: "unicode \<Rightarrow> rule_table \<Rightarrow> rule_subject \<Rightarrow> rule_subject \<Rightarrow> layer_id \<Rightarrow> int" where
  "clearance U t a b layer =
     (let resolved = (if rs_local a = None \<and> rs_local b = None then
              (case Option.bind (last_match U t C_Clearance (Some layer) a (Some b)) c_min of
                 Some v \<Rightarrow> to_nm v
               | None \<Rightarrow> max (class_clearance (class_rules t (rs_net a))) (class_clearance (class_rules t (rs_net b))))
            else max (unwrap_or 0 (rs_local a)) (unwrap_or 0 (rs_local b)))
      in max resolved (min_clearance (t_board t)))"

text \<open>What to draw: the preferred value of the rule, else the class value, capped, never below the floor.\<close>

definition preferred :: "constraint option \<Rightarrow> int \<Rightarrow> int \<Rightarrow> int" where
  "preferred rule cls lo =
     (let best = (case Option.bind rule c_opt of None \<Rightarrow> cls | Some v \<Rightarrow> to_nm v);
          capped = (case Option.bind rule c_max of Some hi \<Rightarrow> min best (to_nm hi) | None \<Rightarrow> best)
      in max capped lo)"

definition rule_floor :: "constraint option \<Rightarrow> int" where
  "rule_floor rule = (case Option.bind rule c_min of None \<Rightarrow> 0 | Some v \<Rightarrow> to_nm v)"

definition track_width :: "unicode \<Rightarrow> rule_table \<Rightarrow> rule_subject \<Rightarrow> layer_id \<Rightarrow> width_rule" where
  "track_width U t s layer =
     (let rule = last_match U t C_TrackWidth (Some layer) s None;
          lo = max (rule_floor rule) (min_track_width (t_board t))
      in \<lparr>wr_min = lo, wr_preferred = preferred rule (class_track_width (class_rules t (rs_net s))) lo\<rparr>)"

definition via_of :: "unicode \<Rightarrow> rule_table \<Rightarrow> rule_subject \<Rightarrow> via_rule" where
  "via_of U t s =
     (let cls = class_rules t (rs_net s);
          dia_rule = last_match U t C_ViaDiameter None s None;
          drill_rule = last_match U t C_HoleSize None s None;
          annular = max (rule_floor (last_match U t C_AnnularWidth None s None)) (min_via_annular_width (t_board t));
          lo_drill = max (rule_floor drill_rule) (min_through_hole_diameter (t_board t));
          lo_dia = max (max (rule_floor dia_rule) (min_via_diameter (t_board t))) (i32 (lo_drill + i32 (2 * annular)));
          drl = preferred drill_rule (class_via_drill cls) lo_drill;
          dia = max (preferred dia_rule (class_via_diameter cls) lo_dia) (i32 (drl + i32 (2 * annular)))
      in \<lparr>vr_diameter = dia, vr_drill = drl, vr_min_diameter = lo_dia, vr_min_drill = lo_drill, vr_min_annular = annular\<rparr>)"

definition min_track_angle_deg :: "unicode \<Rightarrow> rule_table \<Rightarrow> rule_subject \<Rightarrow> layer_id \<Rightarrow> rat option" where
  "min_track_angle_deg U t s layer = Option.bind (last_match U t C_TrackAngle (Some layer) s None) c_min"

definition min_segment_length :: "unicode \<Rightarrow> rule_table \<Rightarrow> rule_subject \<Rightarrow> layer_id \<Rightarrow> int option" where
  "min_segment_length U t s layer = map_option to_nm (Option.bind (last_match U t C_TrackSegmentLength (Some layer) s None) c_min)"

definition edge_clearance :: "rule_table \<Rightarrow> int" where
  "edge_clearance t = br_edge_clearance (t_board t)"

definition hole_clearance :: "rule_table \<Rightarrow> int" where
  "hole_clearance t = br_hole_clearance (t_board t)"

definition hole_to_hole :: "rule_table \<Rightarrow> int" where
  "hole_to_hole t = br_hole_to_hole (t_board t)"

definition max_clearance :: "rule_table \<Rightarrow> int" where
  "max_clearance t = t_max_clearance t"

definition inert_rules :: "rule_table \<Rightarrow> inert_rule list" where
  "inert_rules t = t_inert t"

section \<open>Class ids stay in range\<close>

lemma set_map_filter: "set (List.map_filter f xs) = {y. \<exists>x \<in> set xs. f x = Some y}"
  by (induction xs) (auto simp: List.map_filter_simps split: option.splits)

lemma as_u16_le: "as_u16 n \<le> n"
  unfolding as_u16_def using zmod_le_nonneg_dividend [of "int n" "2 ^ 16"] by linarith

lemma position_less: "position P xs = Some i \<Longrightarrow> i < length xs \<and> P (xs ! i)"
  by (induction xs arbitrary: i) (auto split: if_splits)

lemma class_id_of_less: "class_id_of classes name = Some i \<Longrightarrow> i < length classes"
  by (auto simp: class_id_of_def dest!: position_less intro: le_less_trans [OF as_u16_le])

lemma read_patterns_less: "x \<in> set (fst (read_patterns classes ps)) \<Longrightarrow> snd x < length classes"
proof (induction ps arbitrary: x)
  case (Cons p ps)
  then show ?case by (fastforce simp: split_beta Let_def dest: class_id_of_less split: option.splits)
qed simp

lemma read_assignments_less:
  assumes "\<forall>ids \<in> ran m. \<forall>i \<in> set ids. i < length classes"
  shows "\<forall>ids \<in> ran (read_assignments classes vs m). \<forall>i \<in> set ids. i < length classes"
  using assms
proof (induction classes vs m rule: read_assignments.induct)
  case (2 classes net v rest m)
  let ?ids = "List.map_filter (class_id_of classes) (assigned_names v)"
  have "\<forall>i \<in> set ?ids. i < length classes"
    by (auto simp: set_map_filter dest: class_id_of_less)
  then have "\<forall>ids \<in> ran (if ?ids = [] then m else m(net \<mapsto> ?ids)). \<forall>i \<in> set ids. i < length classes"
    using "2.prems" by (auto simp: ran_def split: if_splits)
  then show ?case using "2.IH" by (simp add: Let_def)
qed simp

definition resolver_below :: "netclass_resolver \<Rightarrow> nat \<Rightarrow> bool" where
  "resolver_below r n \<longleftrightarrow> (\<forall>x \<in> set (res_patterns r). snd x < n) \<and> (\<forall>ids \<in> ran (res_explicit r). \<forall>i \<in> set ids. i < n)"

lemma resolve_depth_below:
  assumes "resolver_below r n" "0 < n"
  shows "res_class (resolve_depth r name depth) < n"
proof (induction "5 - depth" arbitrary: name depth rule: less_induct)
  case less
  have pick: "res_class x < n" if "pick_class r cs = Some x" "\<forall>c \<in> set cs. c < n" for cs x
    using pick_class_best [OF that(1)] that(2) by (simp add: best_of_def)
  have own: "res_class x < n" if "Option.bind (res_explicit r name) (pick_class r) = Some x" for x
    using that assms(1) pick by (fastforce simp: resolver_below_def ran_def split: bind_splits)
  have m: "\<forall>c \<in> set (matching_classes r name). c < n"
    using assms(1) by (auto simp: matching_classes_def resolver_below_def)
  have bus: "c < n" if "depth < 4" "shared_class None (map (\<lambda>m. res_class (resolve_depth r m (depth + 1))) ms) = Some c" for ms c
  proof -
    have "ms \<noteq> []" "\<forall>m \<in> set ms. res_class (resolve_depth r m (depth + 1)) = c" using that(2) by (auto simp: shared_class_Some)
    then show ?thesis using less [of "depth + 1" "hd ms"] that(1) by (cases ms) auto
  qed
  show ?case
    using own pick [OF _ m] bus assms(2) by (subst resolve_depth.simps) (auto simp: DEFAULT_def split: option.splits)
qed

lemma project_resolver_below: "resolver_below (project_resolver E settings classes) (length classes)"
  using read_patterns_less [of _ classes] read_assignments_less [of Map.empty classes]
  by (fastforce simp: resolver_below_def project_resolver_def NetclassResolver_new_def)

lemma read_classes_prefix: "parse_classes E v = Inr classes \<Longrightarrow> classes \<noteq> []"
proof -
  have "map_sum (\<lambda>e. e) (Cons base) (y :: rule_error + net_class_rules list) = Inr classes \<Longrightarrow> classes \<noteq> []" for base y
    by (cases y) auto
  then show "parse_classes E v = Inr classes \<Longrightarrow> classes \<noteq> []"
    by (auto simp: parse_classes_def bind_ok_def Let_def split: option.splits sum.splits)
qed

lemma from_project_parts:
  assumes "from_project E pro dru b = Inr t"
  shows "t_classes t \<noteq> []" "\<forall>c \<in> set (class_by_net t). c < length (t_classes t)"
    "t_max_clearance t = max_clearance_of (t_classes t) (t_rules t) (t_board t) b"
    "length (class_by_net t) = length (nets b)" "net_names t = map net_text (nets b)"
    "t_rules t = [] \<or> (\<exists>text inert. dru = Some text \<and> compile_dru E text b = Inr (t_rules t, inert))"
proof -
  obtain js where js: "parse_json E pro = Some js" using assms by (auto simp: from_project_def split: option.splits)
  obtain classes where cl: "parse_classes E (json_at (json_at js ''net_settings'') ''classes'') = Inr classes"
    using assms js by (auto simp: from_project_def bind_ok_def split: sum.splits)
  have c: "t_classes t = classes"
    "class_by_net t = map (\<lambda>n. res_class (resolve (project_resolver E (json_at js ''net_settings'') classes) (net_text n))) (nets b)"
    "t_max_clearance t = max_clearance_of (t_classes t) (t_rules t) (t_board t) b" "net_names t = map net_text (nets b)"
    "t_rules t = [] \<or> (\<exists>text inert. dru = Some text \<and> compile_dru E text b = Inr (t_rules t, inert))"
    using assms js cl by (auto simp: from_project_def assign_classes_def bind_ok_def Let_def split: option.splits sum.splits)
  have ne: "classes \<noteq> []" using read_classes_prefix [OF cl] .
  then show "t_classes t \<noteq> []" using c(1) by simp
  show "\<forall>c \<in> set (class_by_net t). c < length (t_classes t)"
    using c(1,2) ne resolve_depth_below [OF project_resolver_below] by (auto simp: resolve_def)
  show "length (class_by_net t) = length (nets b)" using c(2) by simp
  show "t_max_clearance t = max_clearance_of (t_classes t) (t_rules t) (t_board t) b"
    "net_names t = map net_text (nets b)" "t_rules t = [] \<or> (\<exists>text inert. dru = Some text \<and> compile_dru E text b = Inr (t_rules t, inert))"
    by (fact c)+
qed

lemma class_of_below:
  assumes "t_classes t \<noteq> []" "\<forall>c \<in> set (class_by_net t). c < length (t_classes t)"
  shows "class_of t n < length (t_classes t)" "class_rules t n \<in> set (t_classes t)"
proof -
  show "class_of t n < length (t_classes t)"
    using assms by (auto simp: class_of_def nth_opt_def split: bind_splits option.splits)
  then show "class_rules t n \<in> set (t_classes t)" by (simp add: class_rules_def class_at_def)
qed

section \<open>Rule queries\<close>

text \<open>The rule that decides: the last one that has a constraint of the kind, applies to the layer and whose condition holds.\<close>

definition rule_decides ::
  "unicode \<Rightarrow> rule_table \<Rightarrow> constraint_kind \<Rightarrow> layer_id option \<Rightarrow> rule_subject \<Rightarrow> rule_subject option \<Rightarrow> compiled_rule \<Rightarrow> bool" where
  "rule_decides U t kind layer a b r \<longleftrightarrow> layer_applies (cr_layer r) layer \<and> kind \<in> c_kind ` set (cr_constraints r) \<and>
     condition_holds U t (cr_condition r) a b"

lemma find_kind: "find (\<lambda>c. c_kind c = kind) cs = None \<longleftrightarrow> kind \<notin> c_kind ` set cs"
  by (auto simp: find_None_iff)

lemma match_rules_find:
  "match_rules U t kind layer a b rs =
     Option.bind (find (rule_decides U t kind layer a b) rs) (\<lambda>r. find (\<lambda>c. c_kind c = kind) (cr_constraints r))"
proof (induction rs)
  case (Cons r rs)
  then show ?case
    using find_kind [of kind "cr_constraints r"]
    by (cases "find (\<lambda>c. c_kind c = kind) (cr_constraints r)") (auto simp: rule_decides_def)
qed simp

text \<open>The constraint that decides: of the last rule of the file that has one of the kind and applies.\<close>

definition deciding ::
  "unicode \<Rightarrow> rule_table \<Rightarrow> constraint_kind \<Rightarrow> layer_id option \<Rightarrow> rule_subject \<Rightarrow> rule_subject option \<Rightarrow> constraint option" where
  "deciding U t kind layer a b = Option.bind (find (rule_decides U t kind layer a b) (rev (t_rules t)))
     (\<lambda>r. find (\<lambda>c. c_kind c = kind) (cr_constraints r))"

lemma last_match_deciding: "last_match U t kind layer a b = deciding U t kind layer a b"
  by (simp add: last_match_def match_rules_find deciding_def)

lemma match_rules_member:
  "match_rules U t kind layer a b rs = Some c \<Longrightarrow> c_kind c = kind \<and> (\<exists>r \<in> set rs. c \<in> set (cr_constraints r))"
proof (induction rs)
  case (Cons r rs)
  then show ?case
    by (auto simp: find_Some_iff split: if_splits option.splits)
qed simp

lemma condition_holds_swap: "condition_holds U t x a (Some b) = condition_holds U t x b (Some a)"
  by (auto simp: condition_holds_def)

lemma match_rules_swap: "match_rules U t kind layer a (Some b) rs = match_rules U t kind layer b (Some a) rs"
  by (induction rs) (simp_all add: condition_holds_swap split: option.split)

lemma foldl_max_le: "foldl max (a :: int) xs \<le> c \<longleftrightarrow> a \<le> c \<and> (\<forall>x \<in> set xs. x \<le> c)"
  by (induction xs arbitrary: a) auto

lemma foldl_max_ge: "a \<le> foldl max (a :: int) xs" "x \<in> set xs \<Longrightarrow> x \<le> foldl max (a :: int) xs"
  using foldl_max_le [of a xs "foldl max a xs"] by auto

lemma max_clearance_bounds:
  shows "c \<in> set classes \<Longrightarrow> class_clearance c \<le> max_clearance_of classes rules br b"
    and "v \<in> set (clearance_mins rules) \<Longrightarrow> v \<le> max_clearance_of classes rules br b"
    and "min_clearance br \<le> max_clearance_of classes rules br b" "br_hole_clearance br \<le> max_clearance_of classes rules br b"
    and "br_edge_clearance br \<le> max_clearance_of classes rules br b" "br_hole_to_hole br \<le> max_clearance_of classes rules br b"
    and "p \<in> set (pads b) \<Longrightarrow> local_clearance p = Some v \<Longrightarrow> v \<le> max_clearance_of classes rules br b"
proof -
  define A where "A = (case map class_clearance classes of [] \<Rightarrow> 0 | c # cs \<Rightarrow> foldl max c cs)"
  define B where "B = foldl max A (clearance_mins rules)"
  define C where "C = max (max (max (max B (min_clearance br)) (br_edge_clearance br)) (br_hole_clearance br)) (br_hole_to_hole br)"
  have M: "max_clearance_of classes rules br b = foldl max C (List.map_filter local_clearance (pads b))"
    unfolding max_clearance_of_def A_def [symmetric] B_def [symmetric] Let_def C_def [symmetric] ..
  have CM: "C \<le> max_clearance_of classes rules br b" unfolding M by (rule foldl_max_ge)
  have BC: "B \<le> C" "min_clearance br \<le> C" "br_edge_clearance br \<le> C" "br_hole_clearance br \<le> C" "br_hole_to_hole br \<le> C"
    unfolding C_def by auto
  have AB: "A \<le> B" unfolding B_def by (rule foldl_max_ge)
  show "min_clearance br \<le> max_clearance_of classes rules br b" "br_hole_clearance br \<le> max_clearance_of classes rules br b"
    "br_edge_clearance br \<le> max_clearance_of classes rules br b" "br_hole_to_hole br \<le> max_clearance_of classes rules br b"
    using BC CM by linarith+
  show "class_clearance c \<le> max_clearance_of classes rules br b" if "c \<in> set classes"
  proof -
    have "class_clearance c \<le> A" using that foldl_max_ge by (cases classes) (auto simp: A_def)
    then show ?thesis using AB BC(1) CM by linarith
  qed
  show "v \<le> max_clearance_of classes rules br b" if "v \<in> set (clearance_mins rules)"
    using foldl_max_ge(2) [OF that, of A] BC(1) CM unfolding B_def by linarith
  show "v \<le> max_clearance_of classes rules br b" if "p \<in> set (pads b)" "local_clearance p = Some v"
    unfolding M by (rule foldl_max_ge) (use that in \<open>force simp: set_map_filter\<close>)
qed

lemma clearance_rule_bound:
  assumes "last_match U t C_Clearance layer a b = Some c" "c_min c = Some v"
  shows "to_nm v \<in> set (clearance_mins (t_rules t))"
  using match_rules_member [of U t C_Clearance layer a b "rev (t_rules t)" c] assms
  by (fastforce simp: last_match_def clearance_mins_def set_map_filter)

definition local_known :: "route_board \<Rightarrow> rule_subject \<Rightarrow> bool" where
  "local_known b s \<longleftrightarrow> (\<forall>v. rs_local s = Some v \<longrightarrow> (\<exists>p \<in> set (pads b). local_clearance p = Some v))"

lemma clearance_swap: "clearance U t a b layer = clearance U t b a layer"
  using match_rules_swap [of U t C_Clearance "Some layer" a b "rev (t_rules t)"]
  by (auto simp: clearance_def last_match_def max.commute Let_def split: option.split)

lemma clearance_bounds:
  assumes "from_project E pro dru b = Inr t" "local_known b x" "local_known b y"
  shows "min_clearance (t_board t) \<le> clearance U t x y layer" "clearance U t x y layer \<le> max 0 (max_clearance t)"
proof -
  note parts = from_project_parts [OF assms(1)]
  note bounds = max_clearance_bounds [where classes = "t_classes t" and rules = "t_rules t" and br = "t_board t" and b = b,
      folded parts(3)]
  have cls: "class_clearance (class_rules t n) \<le> t_max_clearance t" for n
    by (rule bounds(1)) (rule class_of_below [OF parts(1,2)])
  have rule: "to_nm v \<le> t_max_clearance t" if "Option.bind (last_match U t C_Clearance (Some layer) x (Some y)) c_min = Some v" for v
    using that clearance_rule_bound bounds(2) by (auto split: bind_splits)
  have loc: "unwrap_or 0 (rs_local s) \<le> max 0 (t_max_clearance t)" if "local_known b s" for s
    using that bounds(7) by (fastforce simp: local_known_def unwrap_or_def le_max_iff_disj split: option.splits)
  show "min_clearance (t_board t) \<le> clearance U t x y layer" by (simp add: clearance_def Let_def)
  have "min_clearance (t_board t) \<le> max 0 (t_max_clearance t)" using bounds(3) by linarith
  moreover have "max (class_clearance (class_rules t (rs_net x))) (class_clearance (class_rules t (rs_net y))) \<le> max 0 (t_max_clearance t)"
    using cls [of "rs_net x"] cls [of "rs_net y"] by linarith
  moreover have "to_nm v \<le> max 0 (t_max_clearance t)" if "Option.bind (last_match U t C_Clearance (Some layer) x (Some y)) c_min = Some v" for v
    using rule [OF that] by linarith
  ultimately show "clearance U t x y layer \<le> max 0 (max_clearance t)"
    using loc [OF assms(2)] loc [OF assms(3)]
    by (simp add: clearance_def Let_def max_clearance_def split: option.split)
qed

text \<open>
  C35: In a table compiled from a project the clearance of two items does not depend on their order, is at least the board minimum
  and at most the advertised maximum, or zero if that is negative. Above the board minimum it is: with local overrides, the larger
  one, an item without one counting as zero; without, the minimum of the deciding constraint (of the last rule of the file that
  applies, in either assignment of the two items); without that, the larger class value.
\<close>

theorem clearance_contract:
  assumes "from_project E pro dru b = Inr t" "local_known b x" "local_known b y"
  shows "clearance U t x y layer = clearance U t y x layer \<and>
    min_clearance (t_board t) \<le> clearance U t x y layer \<and> clearance U t x y layer \<le> max 0 (max_clearance t) \<and>
    (\<forall>v w. rs_local x = Some v \<longrightarrow> rs_local y = Some w \<longrightarrow> clearance U t x y layer = max (min_clearance (t_board t)) (max v w)) \<and>
    (\<forall>v. rs_local x = Some v \<longrightarrow> rs_local y = None \<longrightarrow> clearance U t x y layer = max (min_clearance (t_board t)) (max v 0)) \<and>
    (rs_local x = None \<longrightarrow> rs_local y = None \<longrightarrow>
       (\<forall>v. Option.bind (deciding U t C_Clearance (Some layer) x (Some y)) c_min = Some v \<longrightarrow>
          clearance U t x y layer = max (min_clearance (t_board t)) (to_nm v)) \<and>
       (Option.bind (deciding U t C_Clearance (Some layer) x (Some y)) c_min = None \<longrightarrow>
          clearance U t x y layer = max (min_clearance (t_board t)) (max (class_clearance (class_rules t (rs_net x))) (class_clearance (class_rules t (rs_net y))))))"
  using clearance_bounds [OF assms] clearance_swap
  by (auto simp: clearance_def Let_def max.commute last_match_deciding unwrap_or_def)

section \<open>Track and via sizes\<close>

text \<open>A floor respects the board minimum and the minimum of the deciding constraint.\<close>

definition floor_ok :: "constraint option \<Rightarrow> int \<Rightarrow> int \<Rightarrow> bool" where
  "floor_ok rule board lo \<longleftrightarrow> board \<le> lo \<and> (case Option.bind rule c_min of None \<Rightarrow> 0 \<le> lo | Some m \<Rightarrow> to_nm m \<le> lo)"

text \<open>
  The size to draw: never below what is needed, not above the maximum of the deciding constraint if that leaves room for what
  is needed, and the optimum of the constraint, or the class value, whenever it lies between.
\<close>

definition drawn_ok :: "constraint option \<Rightarrow> int \<Rightarrow> int \<Rightarrow> int \<Rightarrow> bool" where
  "drawn_ok rule cls need v \<longleftrightarrow>
     (let want = (case Option.bind rule c_opt of None \<Rightarrow> cls | Some m \<Rightarrow> to_nm m)
      in need \<le> v \<and>
         (case Option.bind rule c_max of
            None \<Rightarrow> need \<le> want \<longrightarrow> v = want
          | Some hi \<Rightarrow> (need \<le> to_nm hi \<longrightarrow> v \<le> to_nm hi) \<and> (need \<le> want \<longrightarrow> want \<le> to_nm hi \<longrightarrow> v = want)))"

lemma preferred_drawn: "drawn_ok rule cls lo (preferred rule cls lo)"
  by (simp add: drawn_ok_def preferred_def Let_def split: option.split)

lemma preferred_raised: "max (preferred rule cls lo) ring = preferred rule cls (max lo ring)"
  by (simp add: preferred_def Let_def max.assoc)

lemma rule_floor_ok: "floor_ok rule board (max (rule_floor rule) board)" "floor_ok rule board (max (max (rule_floor rule) board) ring)"
  by (auto simp: floor_ok_def rule_floor_def split: option.split)


section \<open>What the compiler lets through\<close>

definition constraint_ok :: "constraint \<Rightarrow> bool" where
  "constraint_ok c \<longleftrightarrow> (takes_opt_and_max (c_kind c) \<or> c_opt c = None \<and> c_max c = None) \<and>
     (\<forall>lo hi. c_min c = Some lo \<longrightarrow> c_max c = Some hi \<longrightarrow> lo \<le> hi)"

definition rule_ok :: "compiled_rule \<Rightarrow> bool" where
  "rule_ok r \<longleftrightarrow> cr_constraints r \<noteq> [] \<and> (\<forall>c \<in> set (cr_constraints r). constraint_ok c \<and> (cr_layer r = None \<or> \<not> is_via_kind (c_kind c)))"

definition limits_ok :: "constraint \<Rightarrow> bool" where
  "limits_ok c \<longleftrightarrow> takes_opt_and_max (c_kind c) \<or> c_opt c = None \<and> c_max c = None"

lemma read_limits_ok: "read_limits E ty ns c = Inr d \<Longrightarrow> limits_ok c \<Longrightarrow> limits_ok d"
proof (induction ns arbitrary: c)
  case (Cons n ns)
  obtain h raw v where h: "node_head n = Some h" "second_str n = Some raw" "limit_value E (c_kind c) raw = Some v"
    using Cons.prems(1) by (cases "node_head n"; cases "second_str n") (auto split: option.splits)
  consider (lo) "read_limits E ty ns (c\<lparr>c_min := Some v\<rparr>) = Inr d"
    | (opt) "takes_opt_and_max (c_kind c)" "read_limits E ty ns (c\<lparr>c_opt := Some v\<rparr>) = Inr d"
    | (hi) "takes_opt_and_max (c_kind c)" "read_limits E ty ns (c\<lparr>c_max := Some v\<rparr>) = Inr d"
    using Cons.prems(1) h by (simp split: if_splits)
  then show ?case
  proof cases
    case lo
    then show ?thesis by (rule Cons.IH) (use Cons.prems(2) in \<open>simp add: limits_ok_def\<close>)
  next
    case opt
    show ?thesis by (rule Cons.IH [OF opt(2)]) (simp add: limits_ok_def opt(1))
  next
    case hi
    show ?thesis by (rule Cons.IH [OF hi(2)]) (simp add: limits_ok_def hi(1))
  qed
qed simp

lemma bind_ok_Inr: "bind_ok m k = Inr z \<longleftrightarrow> (\<exists>x. m = Inr x \<and> k x = Inr z)"
  by (cases m) (simp_all add: bind_ok_def)

lemma compile_constraint_ok:
  assumes "compile_constraint E n = Inr c"
  shows "constraint_ok c"
proof -
  obtain ty kind where k: "bind_ok (read_limits E ty (after_two n) \<lparr>c_kind = kind, c_min = None, c_opt = None, c_max = None\<rparr>)
      (\<lambda>c. case (c_min c, c_max c) of (Some lo, Some hi) \<Rightarrow> if hi < lo then Inl (Min_Above_Max ty) else Inr c | _ \<Rightarrow> Inr c) = Inr c"
    using assms unfolding compile_constraint_def Let_def by (simp split: option.splits)
  then obtain d where d: "read_limits E ty (after_two n) \<lparr>c_kind = kind, c_min = None, c_opt = None, c_max = None\<rparr> = Inr d"
      "(case (c_min d, c_max d) of (Some lo, Some hi) \<Rightarrow> if hi < lo then Inl (Min_Above_Max ty) else Inr d | _ \<Rightarrow> Inr d) = Inr c"
    unfolding bind_ok_Inr by blast
  have "d = c \<and> (\<forall>lo hi. c_min c = Some lo \<longrightarrow> c_max c = Some hi \<longrightarrow> lo \<le> hi)"
    using d(2) by (cases "c_min d"; cases "c_max d") (auto split: if_splits)
  then show ?thesis using read_limits_ok [OF d(1)] by (auto simp: constraint_ok_def limits_ok_def)
qed

text \<open>One clause, as a step of the loop: stop with a reason, or go on.\<close>

lemma compile_clauses_step:
  obtains (stop) e where "compile_clauses E b name (n # ns) st inert = (inert, Inl e)"
  | (go) st' more where "compile_clauses E b name (n # ns) st inert = compile_clauses E b name ns st' (inert @ more)"
      "st_constraints st' = st_constraints st \<or> (\<exists>c. compile_constraint E n = Inr c \<and> st_constraints st' = st_constraints st @ [c])"
proof (cases "node_head n")
  case None
  then show ?thesis by (intro stop) simp
next
  case (Some h)
  consider "h = ''layer''" | "h = ''condition''" | "h = ''constraint''" | "h = ''severity''"
    | "h \<notin> {''layer'', ''condition'', ''constraint'', ''severity''}" by blast
  then show ?thesis
  proof cases
    case 1
    show ?thesis
    proof (cases "by_name (layer_table_of b) (case second_str n of None \<Rightarrow> [] | Some s \<Rightarrow> s)")
      case None
      then show ?thesis using Some 1 stop by (simp add: Let_def)
    next
      case (Some l)
      then show ?thesis using \<open>node_head n = Some h\<close> 1 go [of "st\<lparr>st_layer := Some l\<rparr>" "[]"] by (simp add: Let_def)
    qed
  next
    case 2
    show ?thesis
    proof (cases "map_option (parse_condition (BoardNames b)) (second_str n)")
      case None
      then show ?thesis using Some 2 stop by simp
    next
      case (Some x)
      then show ?thesis using \<open>node_head n = Some h\<close> 2 stop go [of "st\<lparr>st_condition := projr x\<rparr>" "[]"] by (cases x) auto
    qed
  next
    case 3
    show ?thesis
    proof (cases "compile_constraint E n")
      case (Inl e)
      then show ?thesis using Some 3 go [of st "[\<lparr>ir_rule = name, ir_reason = e\<rparr>]"] by simp
    next
      case (Inr c)
      then show ?thesis using Some 3 go [of "st\<lparr>st_constraints := st_constraints st @ [c]\<rparr>" "[]"] by simp
    qed
  next
    case 4
    show ?thesis
    proof (cases "second_str n")
      case None
      then show ?thesis using Some 4 stop by simp
    next
      case (Some s)
      consider "s = ''error'' \<or> s = ''warning''" | "s \<notin> {''error'', ''warning''}" by blast
      then show ?thesis
      proof cases
        case 1
        then show ?thesis using \<open>node_head n = Some h\<close> 4 Some go [of st "[]"] by auto
      next
        case 2
        then show ?thesis using \<open>node_head n = Some h\<close> 4 Some stop by (cases "s = ''ignore''") auto
      qed
    qed
  next
    case 5
    then show ?thesis using Some by (intro stop) simp
  qed
qed

lemma compile_clauses_ok:
  "compile_clauses E b name ns st inert = (inert', res) \<Longrightarrow> set inert \<subseteq> set inert' \<and>
     (\<forall>st'. res = Inr st' \<longrightarrow> (\<forall>c \<in> set (st_constraints st). constraint_ok c) \<longrightarrow> (\<forall>c \<in> set (st_constraints st'). constraint_ok c))"
proof (induction ns arbitrary: st inert)
  case (Cons n ns)
  show ?case
  proof (cases rule: compile_clauses_step [of E b name n ns st inert])
    case (stop e)
    then show ?thesis using Cons.prems by auto
  next
    case (go st1 more)
    have "set (inert @ more) \<subseteq> set inert' \<and>
        (\<forall>st'. res = Inr st' \<longrightarrow> (\<forall>c \<in> set (st_constraints st1). constraint_ok c) \<longrightarrow> (\<forall>c \<in> set (st_constraints st'). constraint_ok c))"
      by (rule Cons.IH) (use Cons.prems go(1) in simp)
    moreover have "\<forall>c \<in> set (st_constraints st). constraint_ok c \<Longrightarrow> \<forall>c \<in> set (st_constraints st1). constraint_ok c"
      using go(2) compile_constraint_ok by auto
    ultimately show ?thesis by auto
  qed
qed auto

lemma compile_rule_ok:
  assumes "compile_rule E b name n inert = (inert', res)"
  shows "set inert \<subseteq> set inert'" "res = Inr r \<Longrightarrow> rule_ok r \<and> cr_name r = name"
proof -
  obtain inert1 res1 where c: "compile_clauses E b name (after_two n) \<lparr>st_layer = None, st_condition = E_True, st_constraints = []\<rparr> inert = (inert1, res1)"
    by fastforce
  note ok = compile_clauses_ok [OF c]
  show "set inert \<subseteq> set inert'" using assms ok c by (cases res1) (auto simp: compile_rule_def Let_def split: if_splits)
  show "rule_ok r \<and> cr_name r = name" if r: "res = Inr r"
  proof (cases res1)
    case (Inr st)
    then have "\<forall>c \<in> set (st_constraints st). constraint_ok c" using ok by simp
    then show ?thesis
      using assms c Inr r by (cases "st_layer st") (auto simp: compile_rule_def rule_ok_def Let_def split: if_splits)
  qed (use assms c r in \<open>simp add: compile_rule_def\<close>)
qed

definition covers :: "compiled_rule list \<Rightarrow> inert_rule list \<Rightarrow> sexp \<Rightarrow> bool" where
  "covers rules inert n \<longleftrightarrow> (\<exists>r \<in> set rules. cr_name r = rule_name n) \<or> (\<exists>i \<in> set inert. ir_rule i = rule_name n)"

lemma compile_rules_spec:
  "compile_rules E b ns rules inert = (rules', inert') \<Longrightarrow> set rules \<subseteq> set rules' \<and> set inert \<subseteq> set inert' \<and>
    ((\<forall>r \<in> set rules. rule_ok r) \<longrightarrow> (\<forall>r \<in> set rules'. rule_ok r)) \<and> (\<forall>n \<in> set ns. covers rules' inert' n)"
proof (induction ns arbitrary: rules inert)
  case (Cons n ns)
  obtain inert1 res where c: "compile_rule E b (rule_name n) n inert = (inert1, res)" by fastforce
  note ok = compile_rule_ok [OF c]
  show ?case
  proof (cases res)
    case (Inl e)
    then have "compile_rules E b ns rules (inert1 @ [\<lparr>ir_rule = rule_name n, ir_reason = e\<rparr>]) = (rules', inert')" using Cons.prems c by simp
    note IH = Cons.IH [OF this]
    moreover have "covers rules' inert' n"
      using IH by (intro covers_def [THEN iffD2] disjI2 bexI [of _ "\<lparr>ir_rule = rule_name n, ir_reason = e\<rparr>"]) auto
    ultimately show ?thesis using ok(1) by auto
  next
    case (Inr r)
    then have "compile_rules E b ns (rules @ [r]) inert1 = (rules', inert')" using Cons.prems c by simp
    note IH = Cons.IH [OF this]
    moreover have "covers rules' inert' n" using IH ok(2) [OF Inr] by (auto simp: covers_def)
    ultimately show ?thesis using ok(1) ok(2) [OF Inr] by auto
  qed
qed simp

text \<open>
  C37: Every rule of a design rules file is compiled or reported inert, and a compiled rule is never half understood: it has a
  constraint, a minimum is not above its maximum, preferred and maximal values occur only where the queries use them, and no via
  constraint is limited to a layer.
\<close>

theorem compiled_rules_sound:
  assumes "compile_dru E text b = Inr (rules, inert)"
  shows "(\<forall>r \<in> set rules. rule_ok r) \<and>
    (\<exists>doc. dru_tree text = Inr doc \<and> (\<forall>n \<in> set (node_find_all doc ''rule''). covers rules inert n))"
proof -
  obtain doc where d: "dru_tree text = Inr doc" "compile_rules E b (node_find_all doc ''rule'') [] [] = (rules, inert)"
    using assms by (auto simp: compile_dru_def split: sum.splits)
  show ?thesis using compile_rules_spec [OF d(2)] d(1) by auto
qed

section \<open>A small project\<close>

definition demo_unicode :: unicode where
  "demo_unicode = \<lparr>lower_char = (\<lambda>c. [c]), lower_str = (\<lambda>s. s)\<rparr>"

definition demo_class_json :: "string \<Rightarrow> rat \<Rightarrow> json" where
  "demo_class_json name c = J_Object [(''name'', J_String name), (''clearance'', J_Number c None), (''track_width'', J_Number 250000 None),
     (''via_diameter'', J_Number 600000 None), (''via_drill'', J_Number 300000 None)]"

definition demo_pro :: json where
  "demo_pro = J_Object [(''net_settings'', J_Object [(''classes'', J_Array [demo_class_json ''Fast'' 120000, demo_class_json ''Default'' 200000])]),
     (''board'', J_Object [(''design_settings'', J_Object [(''rules'', J_Object [(''min_clearance'', J_Number 100000 None),
        (''min_via_annular_width'', J_Number 150000 None)])])])]"

definition demo_env :: rule_env where
  "demo_env = \<lparr>env_unicode = demo_unicode, env_regex = (\<lambda>_. None), parse_json = (\<lambda>s. if s = [] then None else Some demo_pro),
     mm_to_nm = (\<lambda>v. Some (to_nm v)), parse_length_nm = (\<lambda>s. if s = ''0.3mm'' then Some 300000 else None), parse_angle_deg = (\<lambda>_. None)\<rparr>"

definition demo_dru :: string where
  "demo_dru = ''(rule wide (constraint clearance (min 0.3mm)) (constraint hole_size (opt 0.3mm)))(rule odd (constraint length (min 0.3mm)))''"

definition empty_board :: route_board where
  "empty_board = \<lparr>board_outline_of = \<lparr>out_regions = [], out_edges = [], out_bbox = None\<rparr>, layer_table_of = [], routable = 0, nets = [],
     footprints = [], pads = [], tracks = [], arcs = [], vias = [], zones = [], keepouts = []\<rparr>"

definition demo_compiled :: "compiled_rule list" where
  "demo_compiled = [\<lparr>cr_name = ''wide'', cr_layer = None, cr_condition = E_True,
     cr_constraints = [\<lparr>c_kind = C_Clearance, c_min = Some 300000, c_opt = None, c_max = None\<rparr>,
                       \<lparr>c_kind = C_HoleSize, c_min = None, c_opt = Some 300000, c_max = None\<rparr>]\<rparr>]"

lemma demo_tree:
  "dru_tree demo_dru = Inr (Lst [Atom ''kicad_dru'',
     Lst [Atom ''rule'', Atom ''wide'', Lst [Atom ''constraint'', Atom ''clearance'', Lst [Atom ''min'', Atom ''0.3mm'']],
       Lst [Atom ''constraint'', Atom ''hole_size'', Lst [Atom ''opt'', Atom ''0.3mm'']]],
     Lst [Atom ''rule'', Atom ''odd'', Lst [Atom ''constraint'', Atom ''length'', Lst [Atom ''min'', Atom ''0.3mm'']]]])"
  by code_simp

lemma demo_compile:
  "compile_dru demo_env demo_dru empty_board = Inr (demo_compiled,
     [\<lparr>ir_rule = ''odd'', ir_reason = Unsupported_Constraint ''length''\<rparr>, \<lparr>ir_rule = ''odd'', ir_reason = No_Supported_Constraint\<rparr>])"
  by (simp add: compile_dru_def demo_tree node_find_all_def node_head_def rule_name_def second_str_def node_get_def nth_opt_def
      compile_rule_def after_two_def compile_constraint_def kind_of_name_def limit_value_def demo_env_def takes_opt_and_max_def bind_ok_def
      demo_compiled_def)

lemma demo_rules_listed: "set demo_compiled = {hd demo_compiled}"
  by (simp add: demo_compiled_def)

theorem compiled_rules_sound_witness:
  "rule_ok (hd demo_compiled) \<and>
   compile_dru demo_env demo_dru empty_board = Inr (demo_compiled,
     [\<lparr>ir_rule = ''odd'', ir_reason = Unsupported_Constraint ''length''\<rparr>, \<lparr>ir_rule = ''odd'', ir_reason = No_Supported_Constraint\<rparr>])"
  using compiled_rules_sound [OF demo_compile] demo_compile demo_rules_listed by blast

definition demo_class :: "string \<Rightarrow> int \<Rightarrow> net_class_rules" where
  "demo_class name c = \<lparr>class_name = name, class_clearance = c, class_track_width = 250000, class_via_diameter = 600000,
     class_via_drill = 300000, diff_pair_width = None, diff_pair_gap = None\<rparr>"

definition demo_board_rules :: board_rules where
  "demo_board_rules = \<lparr>min_clearance = 100000, min_track_width = 0, min_via_diameter = 0, min_via_annular_width = 150000,
     min_through_hole_diameter = 0, br_edge_clearance = 0, br_hole_clearance = 0, br_hole_to_hole = 0, max_error = 0\<rparr>"

definition demo_table :: rule_table where
  "demo_table = \<lparr>t_classes = [demo_class ''Default'' 200000, demo_class ''Fast'' 120000], class_by_net = [], t_board = demo_board_rules,
     t_rules = demo_compiled,
     t_inert = [\<lparr>ir_rule = ''odd'', ir_reason = Unsupported_Constraint ''length''\<rparr>, \<lparr>ir_rule = ''odd'', ir_reason = No_Supported_Constraint\<rparr>],
     ambiguous_nets = [], net_names = [], t_references = [], t_max_clearance = 300000\<rparr>"

lemma demo_classes_read:
  "parse_classes demo_env (json_at (json_at demo_pro ''net_settings'') ''classes'') = Inr [demo_class ''Default'' 200000, demo_class ''Fast'' 120000]"
  by (simp add: parse_classes_def demo_pro_def json_at_def json_get_def json_list_def json_str_def demo_class_json_def read_class_def
      class_field_def mm_field_def json_f64_def demo_env_def bind_ok_def or_else_def to_nm_def sat32_def demo_class_def)

lemma demo_board_read:
  "parse_board_rules demo_env (json_at (json_at (json_at demo_pro ''board'') ''design_settings'') ''rules'') = demo_board_rules"
  by (simp add: parse_board_rules_def demo_pro_def json_at_def json_get_def mm_field_def json_f64_def demo_env_def to_nm_def sat32_def
      demo_board_rules_def)

lemma demo_max: "max_clearance_of [demo_class ''Default'' 200000, demo_class ''Fast'' 120000] demo_compiled demo_board_rules empty_board = 300000"
  by (simp add: max_clearance_of_def demo_class_def clearance_mins_def demo_compiled_def demo_board_rules_def empty_board_def to_nm_def
      sat32_def List.map_filter_simps)

lemma demo_project: "from_project demo_env ''p'' (Some demo_dru) empty_board = Inr demo_table"
proof -
  have "parse_json demo_env ''p'' = Some demo_pro" by (simp add: demo_env_def)
  moreover have "assign_classes demo_env (json_at demo_pro ''net_settings'') classes empty_board = ([], [], [])" for classes
    by (simp add: assign_classes_def empty_board_def demo_pro_def json_at_def json_get_def json_list_def Let_def)
  ultimately show ?thesis
    by (simp add: from_project_def demo_classes_read demo_board_read demo_compile demo_max bind_ok_def demo_table_def)
      (simp add: empty_board_def)
qed

definition demo_subject :: rule_subject where
  "demo_subject = RuleSubject_new Kind_Track None"

theorem clearance_contract_witness:
  "clearance demo_unicode demo_table demo_subject (with_footprint demo_subject 3) 0 = 300000 \<and>
   clearance demo_unicode demo_table demo_subject (with_footprint demo_subject 3) 0 \<le> max 0 (max_clearance demo_table)"
proof -
  have "local_known empty_board demo_subject" "local_known empty_board (with_footprint demo_subject 3)"
    by (simp_all add: local_known_def demo_subject_def RuleSubject_new_def with_footprint_def)
  note c = clearance_contract [OF demo_project this, of demo_unicode 0]
  have "rule_decides demo_unicode demo_table C_Clearance (Some 0) demo_subject (Some (with_footprint demo_subject 3)) (hd demo_compiled)"
    by (simp add: rule_decides_def demo_compiled_def layer_applies_def condition_holds_def)
  moreover have "rs_local demo_subject = None" "rs_local (with_footprint demo_subject 3) = None"
    by (simp_all add: demo_subject_def RuleSubject_new_def with_footprint_def)
  ultimately show ?thesis
    using c by (simp add: deciding_def demo_table_def demo_compiled_def demo_board_rules_def to_nm_def sat32_def)
qed


end
