(* ===== verification/Board_Check.thy ===== *)
theory Board_Check
  imports Rule_Table Connectivity "HOL-Library.Option_ord"
begin

text \<open>
  The internal design rule check of the router, \<open>crates/konnect-route/src/check.rs\<close>: building a checker for a board,
  and the checks of copper clearance and shorts, hole clearance, hole to hole, edge clearance, keepouts and single items,
  on the board itself or on routed copper against it. Parallel loops are written in order; their findings are sorted. The
  memo of resolved clearances is left out, since the rule table is a pure function, and so are the counts for statistics.
  An object refers to its plane piece directly instead of by position. The two track-angle checks (angles on \<open>f64\<close>) are
  the parameter \<open>ce_angles\<close>; \<open>ce_within\<close>, \<open>ce_within_polygon\<close>, \<open>ce_closest\<close>, \<open>ce_closest_within\<close> and
  \<open>ce_arc_shorter\<close> stand for the containment and closest-point functions of \<open>konnect-geom\<close> and the length of an arc.
  \<^const>\<open>None\<close> stands for a panic (an index out of range) while the checker is built.
\<close>

section \<open>Findings\<close>

datatype violation_kind = V_Clearance | V_Short | V_TrackWidth | V_ViaSize | V_HoleClearance | V_HoleToHole | V_EdgeClearance
  | V_TrackAngle | V_SegmentLength | V_Keepout

definition kind_order :: "violation_kind \<Rightarrow> nat" where
  "kind_order k = (case k of V_Clearance \<Rightarrow> 0 | V_Short \<Rightarrow> 1 | V_TrackWidth \<Rightarrow> 2 | V_ViaSize \<Rightarrow> 3 | V_HoleClearance \<Rightarrow> 4
     | V_HoleToHole \<Rightarrow> 5 | V_EdgeClearance \<Rightarrow> 6 | V_TrackAngle \<Rightarrow> 7 | V_SegmentLength \<Rightarrow> 8 | V_Keepout \<Rightarrow> 9)"

datatype checked_item = Chk_Board item_ref | Chk_RoutedTrack nat | Chk_RoutedVia nat | Chk_Edge

definition item_key :: "checked_item \<Rightarrow> nat \<times> nat \<times> nat" where
  "item_key c = (case c of
       Chk_Board i \<Rightarrow> (0, case i of Ref_Pad n \<Rightarrow> (0, n) | Ref_Track n \<Rightarrow> (1, n) | Ref_Arc n \<Rightarrow> (2, n) | Ref_Via n \<Rightarrow> (3, n) | Ref_Zone n \<Rightarrow> (4, n))
     | Chk_RoutedTrack n \<Rightarrow> (1, 0, n) | Chk_RoutedVia n \<Rightarrow> (2, 0, n) | Chk_Edge \<Rightarrow> (3, 0, 0))"

record violation =
  v_kind :: violation_kind
  v_a :: checked_item
  v_b :: "checked_item option"
  v_layer :: "layer_id option"
  v_at :: point
  v_required :: int

definition violation_key ::
  "violation \<Rightarrow> nat \<times> (nat \<times> nat \<times> nat) \<times> (nat \<times> nat \<times> nat) option \<times> nat option \<times> (int \<times> int) \<times> int" where
  "violation_key v = (kind_order (v_kind v), item_key (v_a v), map_option item_key (v_b v), v_layer v, (px (v_at v), py (v_at v)), v_required v)"

definition same_finding :: "violation \<Rightarrow> violation \<Rightarrow> bool" where
  "same_finding v w \<longleftrightarrow> v_kind v = v_kind w \<and> v_a v = v_a w \<and> v_b v = v_b w"

text \<open>\<open>dedup_by\<close>: an element is dropped when it names the same finding as the last one kept.\<close>

fun dedup_after :: "violation \<Rightarrow> violation list \<Rightarrow> violation list" where
  "dedup_after p [] = []"
| "dedup_after p (v # vs) = (if same_finding v p then dedup_after p vs else v # dedup_after v vs)"

definition dedup_findings :: "violation list \<Rightarrow> violation list" where
  "dedup_findings vs = (case vs of [] \<Rightarrow> [] | v # vs' \<Rightarrow> v # dedup_after v vs')"

definition counts :: "violation list \<Rightarrow> violation_kind \<Rightarrow> nat" where
  "counts vs k = length (filter (\<lambda>v. v_kind v = k) vs)"

section \<open>Options, rules and parameters\<close>

text \<open>The arc policy is reduced to its error; lowering under it is \<open>ce_arc\<close>.\<close>

record check_options =
  safety_margin_nm :: int
  kicad_epsilon_nm :: int
  check_zone_fills :: bool
  max_error_nm :: int

definition default_options :: check_options where
  "default_options = \<lparr>safety_margin_nm = 0, kicad_epsilon_nm = 0, check_zone_fills = True, max_error_nm = 1000\<rparr>"

definition with_safety_margin_nm :: "check_options \<Rightarrow> int \<Rightarrow> check_options" where
  "with_safety_margin_nm opt nm = opt\<lparr>safety_margin_nm := max 1000 (min nm 5000)\<rparr>"

definition kicad_equivalent :: "check_options \<Rightarrow> check_options" where
  "kicad_equivalent opt = opt\<lparr>safety_margin_nm := 0, kicad_epsilon_nm := 500\<rparr>"

definition for_routed :: check_options where
  "for_routed = default_options\<lparr>check_zone_fills := False\<rparr>"

text \<open>The trait \<open>RuleTable\<close>, and its implementation by the project's table.\<close>

record rule_oracle =
  ro_clearance :: "rule_subject \<Rightarrow> rule_subject \<Rightarrow> layer_id \<Rightarrow> int"
  ro_track_width :: "rule_subject \<Rightarrow> layer_id \<Rightarrow> width_rule"
  ro_via :: "rule_subject \<Rightarrow> via_rule"
  ro_min_segment_length :: "rule_subject \<Rightarrow> layer_id \<Rightarrow> int option"
  ro_edge_clearance :: int
  ro_hole_clearance :: int
  ro_hole_to_hole :: int
  ro_max_clearance :: int

definition table_rules :: "unicode \<Rightarrow> rule_table \<Rightarrow> rule_oracle" where
  "table_rules U t = \<lparr>ro_clearance = clearance U t, ro_track_width = track_width U t, ro_via = via_of U t,
     ro_min_segment_length = min_segment_length U t, ro_edge_clearance = edge_clearance t, ro_hole_clearance = hole_clearance t,
     ro_hole_to_hole = hole_to_hole t, ro_max_clearance = max_clearance t\<rparr>"

text \<open>Routed copper of \<open>plan.rs\<close>, without the generation that placed each item.\<close>

record routed_track =
  rt_net :: netid
  rt_layer :: layer_id
  rt_seg :: segment

record routed_via =
  rv_net :: netid
  rv_center :: point
  rv_diameter :: int
  rv_drill :: int
  rv_layers :: layer_mask

record routed_copper =
  rc_tracks :: "routed_track list"
  rc_vias :: "routed_via list"

record 'tr check_env =
  ce_rtree :: "'tr rtree"
  ce_arc :: arc_pts
  ce_within :: "polygon \<Rightarrow> shape \<Rightarrow> bool"
  ce_within_polygon :: "polygon \<Rightarrow> polygon \<Rightarrow> bool"
  ce_closest :: "shape \<Rightarrow> shape \<Rightarrow> point"
  ce_closest_within :: "polygon \<Rightarrow> shape \<Rightarrow> int \<Rightarrow> point option"
  ce_arc_shorter :: "point \<times> point \<times> point \<Rightarrow> int \<Rightarrow> bool"
  ce_angles :: "routed_copper option \<Rightarrow> violation list"

section \<open>The checker\<close>

datatype src = Src_Board item_ref | Src_RoutedTrack nat | Src_RoutedVia nat

text \<open>The derived order of \<open>Src\<close>.\<close>

definition src_rank :: "src \<Rightarrow> nat \<times> nat \<times> nat" where
  "src_rank s = (case s of Src_Board i \<Rightarrow> (0, item_rank i) | Src_RoutedTrack n \<Rightarrow> (1, 0, n) | Src_RoutedVia n \<Rightarrow> (2, 0, n))"

definition checked :: "src \<Rightarrow> checked_item" where
  "checked s = (case s of Src_Board i \<Rightarrow> Chk_Board i | Src_RoutedTrack n \<Rightarrow> Chk_RoutedTrack n | Src_RoutedVia n \<Rightarrow> Chk_RoutedVia n)"

definition src_kind :: "src \<Rightarrow> item_kind" where
  "src_kind s = (case s of Src_Board i \<Rightarrow> ItemRef_kind i | Src_RoutedTrack _ \<Rightarrow> Kind_Track | Src_RoutedVia _ \<Rightarrow> Kind_Via)"

definition is_routed_src :: "src \<Rightarrow> bool" where
  "is_routed_src s \<longleftrightarrow> (case s of Src_Board _ \<Rightarrow> False | _ \<Rightarrow> True)"

datatype 'tr geom = G_Shape shape | G_Zone "'tr indexed_polygon"

record 'tr check_obj =
  o_src :: src
  o_net :: "netid option"
  o_subject :: nat
  o_geom :: "'tr geom"
  o_bbox :: bbox
  o_extra :: int

record 'tr layer_objs =
  lo_objs :: "'tr check_obj list"
  lo_index :: "'tr layer_index"

definition index_of :: "'tr rtree \<Rightarrow> bbox list \<Rightarrow> 'tr layer_index" where
  "index_of R boxes = LayerIndex_bulk_load R (map (\<lambda>(i, b). \<lparr>entry_id = as_u32 i, entry_bbox = b\<rparr>) (enumerate 0 boxes))"

definition LayerObjs_finish :: "'tr rtree \<Rightarrow> 'tr check_obj list \<Rightarrow> 'tr layer_objs" where
  "LayerObjs_finish R objs = \<lparr>lo_objs = objs, lo_index = index_of R (map o_bbox objs)\<rparr>"

record hole =
  h_src :: src
  h_net :: "netid option"
  h_plated :: bool
  h_shape :: shape
  h_bbox :: bbox
  h_layers :: layer_mask

record 'tr hole_set =
  hs_holes :: "hole list"
  hs_index :: "'tr layer_index"

definition Holes_finish :: "'tr rtree \<Rightarrow> hole list \<Rightarrow> 'tr hole_set" where
  "Holes_finish R hs = \<lparr>hs_holes = hs, hs_index = index_of R (map h_bbox hs)\<rparr>"

record area =
  ar_name :: string
  ar_zone_name :: "string option"
  ar_layers :: layer_mask
  ar_region :: polygon
  ar_bbox :: bbox

record item_subjects =
  is_tracks :: "nat list"
  is_arcs :: "nat list"
  is_vias :: "nat list"
  is_pads :: "nat list"
  is_zones :: "nat list"

record 'tr board_checker =
  c_board :: route_board
  c_rules :: rule_oracle
  c_options :: check_options
  c_layers :: "'tr layer_objs list"
  c_holes :: "'tr hole_set"
  c_edges :: "shape list"
  c_edge_index :: "'tr layer_index"
  c_courtyards :: "(footprint_id \<times> shape) list"
  c_courtyard_index :: "'tr layer_index"
  c_areas :: "area list"
  c_subjects :: "rule_subject list"
  c_item_subjects :: item_subjects
  c_reach :: int
  c_unfilled :: nat

record 'tr item_spec =
  sp_kind :: item_kind
  sp_net :: "netid option"
  sp_footprint :: "footprint_id option"
  sp_local :: "int option"
  sp_layers :: layer_mask
  sp_shapes :: "shape list"
  sp_zone :: "(string option \<times> 'tr indexed_polygon) option"

definition covered_by_hole :: "shape \<Rightarrow> shape \<Rightarrow> bool" where
  "covered_by_hole s h = (case (s, h) of
       (Circle c, Circle d) \<Rightarrow> center c = center d \<and> radius c \<le> radius d
     | (Segment c, Segment d) \<Rightarrow> ((seg_a c = seg_a d \<and> seg_b c = seg_b d) \<or> (seg_a c = seg_b d \<and> seg_b c = seg_a d)) \<and> seg_width c \<le> seg_width d
     | _ \<Rightarrow> False)"

definition pad_has_copper :: "pad \<Rightarrow> bool" where
  "pad_has_copper p =
     (if pad_kind_of p \<noteq> NpThroughHole then pad_shapes p \<noteq> []
      else case pad_drill p of None \<Rightarrow> pad_shapes p \<noteq> []
        | Some d \<Rightarrow> \<not> list_all (\<lambda>s. covered_by_hole s (drill_shape d)) (pad_shapes p))"

definition margin :: "check_options \<Rightarrow> int" where
  "margin opt = max 0 (safety_margin_nm opt) - max 0 (kicad_epsilon_nm opt)"

definition arc_extra :: "check_options \<Rightarrow> int" where
  "arc_extra opt = max 0 (max_error_nm opt)"

subsection \<open>Subjects\<close>

definition spec_bbox :: "'tr item_spec \<Rightarrow> bbox option" where
  "spec_bbox sp = (case sp_zone sp of Some (_, p) \<Rightarrow> Some (ip_bbox p) | None \<Rightarrow> reduce_union (map Shape_bbox (sp_shapes sp)))"

definition courtyards_of :: "'tr check_env \<Rightarrow> (footprint_id \<times> shape) list \<Rightarrow> 'tr layer_index \<Rightarrow> 'tr item_spec \<Rightarrow> bbox \<Rightarrow> footprint_id list" where
  "courtyards_of E courts ix sp b =
     sort (fold (\<lambda>e out.
        let (fp, court) = courts ! entry_id e in
        if fp \<in> set out then out
        else if (case sp_zone sp of Some (_, p) \<Rightarrow> IndexedPolygon_touches (ce_rtree E) p court
                 | None \<Rightarrow> list_ex (\<lambda>s. touches s court) (sp_shapes sp)) then out @ [fp] else out)
      (LayerIndex_query_entries (ce_rtree E) ix b) [])"

definition area_holds :: "'tr check_env \<Rightarrow> 'tr item_spec \<Rightarrow> bbox \<Rightarrow> area \<Rightarrow> bool" where
  "area_holds E sp b a \<longleftrightarrow> LayerMask_intersects (ar_layers a) (sp_layers sp) \<and> BBox_contains_bbox (ar_bbox a) b \<and>
     (case sp_zone sp of
        Some (nm, p) \<Rightarrow> (ar_zone_name a = None \<or> ar_zone_name a \<noteq> nm) \<and> ce_within_polygon E (ar_region a) (ip_poly p)
      | None \<Rightarrow> sp_shapes sp \<noteq> [] \<and> list_all (ce_within E (ar_region a)) (sp_shapes sp))"

definition areas_of :: "'tr check_env \<Rightarrow> area list \<Rightarrow> 'tr item_spec \<Rightarrow> bbox \<Rightarrow> nat list" where
  "areas_of E areas sp b = map (\<lambda>(i, _). as_u32 i) (filter (\<lambda>(_, a). area_holds E sp b a) (enumerate 0 areas))"

definition subject_of ::
  "'tr check_env \<Rightarrow> (footprint_id \<times> shape) list \<Rightarrow> 'tr layer_index \<Rightarrow> area list \<Rightarrow> 'tr item_spec \<Rightarrow> rule_subject \<times> nat list" where
  "subject_of E courts ix areas sp =
     (let (cs, as) = (case spec_bbox sp of Some b \<Rightarrow> (courtyards_of E courts ix sp b, areas_of E areas sp b) | None \<Rightarrow> ([], []))
      in (\<lparr>rs_kind = sp_kind sp, rs_net = sp_net sp, rs_footprint = sp_footprint sp, rs_courtyards = cs,
           rs_areas = map (\<lambda>i. ar_name (areas ! i)) as, rs_local = sp_local sp\<rparr>, as))"

text \<open>Interning: the map from keys to ids is the list of keys in order of their ids.\<close>

definition subject_key :: "rule_subject \<Rightarrow> nat list \<Rightarrow> item_kind \<times> netid option \<times> footprint_id option \<times> footprint_id list \<times> nat list \<times> int option" where
  "subject_key d as = (rs_kind d, rs_net d, rs_footprint d, rs_courtyards d, as, rs_local d)"

fun intern_all :: "(rule_subject \<times> nat list) list \<Rightarrow> (rule_subject \<times> nat list) list \<Rightarrow> (rule_subject \<times> nat list) list \<times> nat list" where
  "intern_all [] seen = (seen, [])"
| "intern_all ((d, as) # ds) seen =
     (case position (\<lambda>(d', as'). subject_key d' as' = subject_key d as) seen of
        Some i \<Rightarrow> (let (seen', ids) = intern_all ds seen in (seen', as_u32 i # ids))
      | None \<Rightarrow> (let (seen', ids) = intern_all ds (seen @ [(d, as)]) in (seen', as_u32 (length seen) # ids)))"

subsection \<open>Objects of the board\<close>

definition zone_polys :: "'tr check_env \<Rightarrow> check_options \<Rightarrow> route_board \<Rightarrow> 'tr indexed_polygon option list" where
  "zone_polys E opt b = map (\<lambda>z. if (check_zone_fills opt \<and> filled z) \<or> zone_name z \<noteq> None
     then Some (IndexedPolygon_new (ce_rtree E) (zone_region z)) else None) (zones b)"

text \<open>\<open>zone(z)\<close> panics for a piece that was not indexed.\<close>

definition zone_at :: "'tr indexed_polygon option list \<Rightarrow> nat \<Rightarrow> 'tr indexed_polygon option" where
  "zone_at polys z = (case nth_opt polys z of Some p \<Rightarrow> p | None \<Rightarrow> None)"

definition plain_spec :: "item_kind \<Rightarrow> netid option \<Rightarrow> layer_mask \<Rightarrow> shape list \<Rightarrow> 'tr item_spec" where
  "plain_spec k n m ss = \<lparr>sp_kind = k, sp_net = n, sp_footprint = None, sp_local = None, sp_layers = m, sp_shapes = ss, sp_zone = None\<rparr>"

definition track_shape :: "track \<Rightarrow> shape" where
  "track_shape t = Segment (track_seg t)"

definition arc_shapes :: "'tr check_env \<Rightarrow> arc_track \<Rightarrow> shape list" where
  "arc_shapes E a = map Segment (ArcTrack_segments (ce_arc E) a)"

definition track_spec :: "track \<Rightarrow> 'tr item_spec" where
  "track_spec t = plain_spec Kind_Track (track_net t) (LayerMask_single (track_layer t)) [track_shape t]"

definition arc_spec :: "'tr check_env \<Rightarrow> arc_track \<Rightarrow> 'tr item_spec" where
  "arc_spec E a = plain_spec Kind_Arc (arc_net a) (LayerMask_single (arc_layer a)) (arc_shapes E a)"

definition via_spec :: "via \<Rightarrow> 'tr item_spec" where
  "via_spec v = plain_spec Kind_Via (via_net v) (via_layers v) [Via_shape v]"

definition pad_spec :: "pad \<Rightarrow> 'tr item_spec" where
  "pad_spec p = (plain_spec Kind_Pad (pad_net p) (if pad_has_copper p then pad_layers p else LayerMask_EMPTY)
     (if pad_has_copper p then pad_shapes p else []))\<lparr>sp_footprint := Some (pad_footprint p), sp_local := local_clearance p\<rparr>"

definition zone_spec :: "check_options \<Rightarrow> route_board \<Rightarrow> 'tr indexed_polygon option list \<Rightarrow> zone_piece \<Rightarrow> 'tr item_spec option" where
  "zone_spec opt b polys z =
     (let sp = plain_spec Kind_Zone (zone_net z) (LayerMask_single (zone_layer z)) [] in
      if check_zone_fills opt \<and> filled z
      then map_option (\<lambda>p. sp\<lparr>sp_zone := Some (zone_name (zones b ! zone_ident z), p)\<rparr>) (zone_at polys (zone_ident z))
      else Some sp)"

definition board_specs :: "'tr check_env \<Rightarrow> check_options \<Rightarrow> route_board \<Rightarrow> 'tr indexed_polygon option list \<Rightarrow> 'tr item_spec list option" where
  "board_specs E opt b polys =
     map_option (\<lambda>zs. map track_spec (tracks b) @ map (arc_spec E) (arcs b) @ map via_spec (vias b) @ map pad_spec (pads b) @ zs)
       (those (map (zone_spec opt b polys) (zones b)))"

text \<open>
  An object with its layer. A track, arc or zone on a layer the board does not have panics (\<open>True\<close>), a via or pad is not
  placed there.
\<close>

definition shape_obj :: "src \<Rightarrow> netid option \<Rightarrow> nat \<Rightarrow> int \<Rightarrow> shape \<Rightarrow> 'tr check_obj" where
  "shape_obj s n sub extra sh = \<lparr>o_src = s, o_net = n, o_subject = sub, o_geom = G_Shape sh, o_bbox = Shape_bbox sh, o_extra = extra\<rparr>"

definition track_objs :: "track \<times> nat \<Rightarrow> (layer_id \<times> bool \<times> 'tr check_obj) list" where
  "track_objs = (\<lambda>(t, sub). [(track_layer t, True, shape_obj (Src_Board (Ref_Track (track_ident t))) (track_net t) sub 0 (track_shape t))])"

definition arc_objs :: "'tr check_env \<Rightarrow> check_options \<Rightarrow> arc_track \<times> nat \<Rightarrow> (layer_id \<times> bool \<times> 'tr check_obj) list" where
  "arc_objs E opt = (\<lambda>(a, sub). map (\<lambda>s. (arc_layer a, True, shape_obj (Src_Board (Ref_Arc (arc_ident a))) (arc_net a) sub (arc_extra opt) s)) (arc_shapes E a))"

definition via_objs :: "via \<times> nat \<Rightarrow> (layer_id \<times> bool \<times> 'tr check_obj) list" where
  "via_objs = (\<lambda>(v, sub). map (\<lambda>l. (l, False, shape_obj (Src_Board (Ref_Via (via_ident v))) (via_net v) sub 0 (Via_shape v))) (LayerMask_iter (via_layers v)))"

definition pad_objs :: "pad \<times> nat \<Rightarrow> (layer_id \<times> bool \<times> 'tr check_obj) list" where
  "pad_objs = (\<lambda>(p, sub). if pad_has_copper p
     then concat (map (\<lambda>l. map (\<lambda>s. (l, False, shape_obj (Src_Board (Ref_Pad (pad_ident p))) (pad_net p) sub 0 s)) (pad_shapes p)) (LayerMask_iter (pad_layers p)))
     else [])"

definition zone_objs :: "check_options \<Rightarrow> zone_piece \<times> nat \<times> 'tr item_spec \<Rightarrow> (layer_id \<times> bool \<times> 'tr check_obj) list" where
  "zone_objs opt = (\<lambda>(z, sub, sp). case sp_zone sp of
       Some (_, p) \<Rightarrow> [(zone_layer z, True, \<lparr>o_src = Src_Board (Ref_Zone (zone_ident z)), o_net = zone_net z, o_subject = sub,
                        o_geom = G_Zone p, o_bbox = ip_bbox p, o_extra = 0\<rparr>)]
     | None \<Rightarrow> [])"

fun place_objs :: "(layer_id \<times> bool \<times> 'o) list \<Rightarrow> 'o list list \<Rightarrow> 'o list list option" where
  "place_objs [] per = Some per"
| "place_objs ((l, strict, x) # xs) per =
     (if l < length per then place_objs xs (per[l := per ! l @ [x]])
      else if strict then None else place_objs xs per)"

definition via_hole :: "via \<Rightarrow> hole" where
  "via_hole v = \<lparr>h_src = Src_Board (Ref_Via (via_ident v)), h_net = via_net v, h_plated = True, h_shape = Via_hole v,
     h_bbox = Shape_bbox (Via_hole v), h_layers = via_layers v\<rparr>"

definition pad_holes :: "layer_mask \<Rightarrow> pad \<Rightarrow> hole list" where
  "pad_holes all p = (case pad_drill p of None \<Rightarrow> []
     | Some d \<Rightarrow> [\<lparr>h_src = Src_Board (Ref_Pad (pad_ident p)), h_net = pad_net p, h_plated = plated d, h_shape = drill_shape d,
                   h_bbox = Shape_bbox (drill_shape d), h_layers = all\<rparr>])"

definition named_areas :: "route_board \<Rightarrow> area list" where
  "named_areas b =
     List.map_filter (\<lambda>k. map_option (\<lambda>name. \<lparr>ar_name = name, ar_zone_name = None, ar_layers = keepout_layers k, ar_region = keepout_region k,
        ar_bbox = Polygon_bbox (keepout_region k)\<rparr>) (keepout_name k)) (keepouts b) @
     List.map_filter (\<lambda>z. map_option (\<lambda>name. \<lparr>ar_name = name, ar_zone_name = Some name, ar_layers = LayerMask_single (zone_layer z),
        ar_region = zone_region z, ar_bbox = Polygon_bbox (zone_region z)\<rparr>) (zone_name z)) (zones b)"

definition board_courtyards :: "route_board \<Rightarrow> (footprint_id \<times> shape) list" where
  "board_courtyards b = concat (map (\<lambda>f. map (\<lambda>c. (fp_id f, Polygon (cy_region c))) (courtyards f)) (footprints b))"

definition split_subjects :: "route_board \<Rightarrow> nat list \<Rightarrow> item_subjects" where
  "split_subjects b ids =
     (let nt = length (tracks b); na = length (arcs b); nv = length (vias b); np = length (pads b)
      in \<lparr>is_tracks = take nt ids, is_arcs = take na (drop nt ids), is_vias = take nv (drop (nt + na) ids),
          is_pads = take np (drop (nt + na + nv) ids), is_zones = drop (nt + na + nv + np) ids\<rparr>)"

definition board_placements ::
  "'tr check_env \<Rightarrow> check_options \<Rightarrow> route_board \<Rightarrow> 'tr item_spec list \<Rightarrow> item_subjects \<Rightarrow> (layer_id \<times> bool \<times> 'tr check_obj) list" where
  "board_placements E opt b specs subs =
     concat (map track_objs (zip (tracks b) (is_tracks subs))) @ concat (map (arc_objs E opt) (zip (arcs b) (is_arcs subs))) @
     concat (map via_objs (zip (vias b) (is_vias subs))) @ concat (map pad_objs (zip (pads b) (is_pads subs))) @
     concat (map (zone_objs opt) (zip (zones b) (zip (is_zones subs) (drop (length specs - length (zones b)) specs))))"

definition BoardChecker_new :: "'tr check_env \<Rightarrow> route_board \<Rightarrow> rule_oracle \<Rightarrow> check_options \<Rightarrow> 'tr board_checker option" where
  "BoardChecker_new E b rules opt =
     (let R = ce_rtree E; edges = map Segment (out_edges (board_outline_of b));
          courts = board_courtyards b; court_ix = index_of R (map (Shape_bbox \<circ> snd) courts);
          areas = named_areas b; polys = zone_polys E opt b
      in Option.bind (board_specs E opt b polys) (\<lambda>specs.
         let (seen, ids) = intern_all (map (subject_of E courts court_ix areas) specs) [];
             subs = split_subjects b ids
         in map_option (\<lambda>per.
             \<lparr>c_board = b, c_rules = rules, c_options = opt, c_layers = map (LayerObjs_finish R) per,
              c_holes = Holes_finish R (map via_hole (vias b) @ concat (map (pad_holes (LayerTable_all (layer_table_of b))) (pads b))),
              c_edges = edges, c_edge_index = index_of R (map Shape_bbox edges), c_courtyards = courts, c_courtyard_index = court_ix,
              c_areas = areas, c_subjects = map fst seen, c_item_subjects = subs,
              c_reach = ro_max_clearance rules + safety_margin_nm opt + max 0 (max_error_nm opt),
              c_unfilled = length (filter (\<lambda>z. \<not> filled z) (zones b))\<rparr>)
           (place_objs (board_placements E opt b specs subs) (replicate (layer_count b) []))))"

section \<open>One run\<close>

record 'tr ctx =
  cx_c :: "'tr board_checker"
  cx_routed :: bool
  cx_rlayers :: "'tr layer_objs list"
  cx_rholes :: "'tr hole_set"
  cx_rsubjects :: "rule_subject list"
  cx_rids :: "nat list"
  cx_tracks :: nat

definition routed_specs :: "routed_copper \<Rightarrow> 'tr item_spec list" where
  "routed_specs rc =
     map (\<lambda>t. plain_spec Kind_Track (Some (rt_net t)) (LayerMask_single (rt_layer t)) [Segment (rt_seg t)]) (rc_tracks rc) @
     map (\<lambda>v. plain_spec Kind_Via (Some (rv_net v)) (rv_layers v) [Circle (Circle_from_diameter (rv_center v) (rv_diameter v))]) (rc_vias rc)"

definition routed_placements :: "routed_copper \<Rightarrow> nat list \<Rightarrow> (layer_id \<times> bool \<times> 'tr check_obj) list" where
  "routed_placements rc ids =
     map (\<lambda>(i, t). (rt_layer t, False, shape_obj (Src_RoutedTrack (as_u32 i)) (Some (rt_net t)) (ids ! i) 0 (Segment (rt_seg t))))
       (enumerate 0 (rc_tracks rc)) @
     concat (map (\<lambda>(i, v). map (\<lambda>l. (l, False, shape_obj (Src_RoutedVia (as_u32 i)) (Some (rv_net v)) (ids ! (length (rc_tracks rc) + i)) 0
         (Circle (Circle_from_diameter (rv_center v) (rv_diameter v))))) (LayerMask_iter (rv_layers v))) (enumerate 0 (rc_vias rc)))"

definition routed_holes :: "routed_copper \<Rightarrow> hole list" where
  "routed_holes rc = map (\<lambda>(i, v). let h = Circle (Circle_from_diameter (rv_center v) (rv_drill v))
     in \<lparr>h_src = Src_RoutedVia (as_u32 i), h_net = Some (rv_net v), h_plated = True, h_shape = h, h_bbox = Shape_bbox h, h_layers = rv_layers v\<rparr>)
     (enumerate 0 (rc_vias rc))"

definition no_copper_routed :: routed_copper where
  "no_copper_routed = \<lparr>rc_tracks = [], rc_vias = []\<rparr>"

text \<open>The objects of a run. No placement of routed copper is strict, so placing them always succeeds.\<close>

definition run_ctx :: "'tr check_env \<Rightarrow> 'tr board_checker \<Rightarrow> routed_copper option \<Rightarrow> 'tr ctx" where
  "run_ctx E c rc =
     (let copper = unwrap_or no_copper_routed rc; R = ce_rtree E;
          (seen, ids0) = intern_all (map (subject_of E (c_courtyards c) (c_courtyard_index c) (c_areas c)) (routed_specs copper)) [];
          base = as_u32 (length (c_subjects c)); ids = map (\<lambda>i. base + i) ids0;
          per = unwrap_or [] (place_objs (routed_placements copper ids) (replicate (layer_count (c_board c)) []))
      in \<lparr>cx_c = c, cx_routed = (rc \<noteq> None), cx_rlayers = map (LayerObjs_finish R) per,
          cx_rholes = Holes_finish R (routed_holes copper), cx_rsubjects = map fst seen, cx_rids = ids, cx_tracks = length (rc_tracks copper)\<rparr>)"

definition subject_at :: "'tr ctx \<Rightarrow> nat \<Rightarrow> rule_subject" where
  "subject_at cx i = (let base = length (c_subjects (cx_c cx)) in if i < base then c_subjects (cx_c cx) ! i else cx_rsubjects cx ! (i - base))"

definition src_subject :: "'tr ctx \<Rightarrow> src \<Rightarrow> rule_subject" where
  "src_subject cx s =
     (let subs = c_item_subjects (cx_c cx)
      in subject_at cx (case s of
          Src_Board (Ref_Track i) \<Rightarrow> is_tracks subs ! i | Src_Board (Ref_Arc i) \<Rightarrow> is_arcs subs ! i | Src_Board (Ref_Via i) \<Rightarrow> is_vias subs ! i
        | Src_Board (Ref_Pad i) \<Rightarrow> is_pads subs ! i | Src_Board (Ref_Zone i) \<Rightarrow> is_zones subs ! i
        | Src_RoutedTrack i \<Rightarrow> cx_rids cx ! i | Src_RoutedVia i \<Rightarrow> cx_rids cx ! (cx_tracks cx + i)))"

text \<open>The courtyards an item of the board touches and the areas that enclose it.\<close>

definition subject_context :: "'tr board_checker \<Rightarrow> item_ref \<Rightarrow> footprint_id list \<times> string list" where
  "subject_context c item =
     (let subs = c_item_subjects c;
          d = c_subjects c ! (case item of Ref_Track i \<Rightarrow> is_tracks subs ! i | Ref_Arc i \<Rightarrow> is_arcs subs ! i
            | Ref_Via i \<Rightarrow> is_vias subs ! i | Ref_Pad i \<Rightarrow> is_pads subs ! i | Ref_Zone i \<Rightarrow> is_zones subs ! i)
      in (rs_courtyards d, rs_areas d))"

text \<open>The rule table is asked with the lower subject id first.\<close>

definition pair_clearance :: "'tr ctx \<Rightarrow> nat \<Rightarrow> nat \<Rightarrow> layer_id \<Rightarrow> int" where
  "pair_clearance cx a b layer =
     ro_clearance (c_rules (cx_c cx)) (subject_at cx (min a b)) (subject_at cx (max a b)) layer"

fun geom_gap :: "'tr rtree \<Rightarrow> 'tr geom \<Rightarrow> 'tr geom \<Rightarrow> int \<Rightarrow> ordering" where
  "geom_gap R (G_Shape x) (G_Shape y) c = gap_cmp x y c"
| "geom_gap R (G_Zone z) (G_Shape s) c = IndexedPolygon_gap_cmp R z s c"
| "geom_gap R (G_Shape s) (G_Zone z) c = IndexedPolygon_gap_cmp R z s c"
| "geom_gap R (G_Zone x) (G_Zone y) c = IndexedPolygon_gap_cmp_polygon R x y c"

definition near_zone :: "'tr check_env \<Rightarrow> int \<Rightarrow> 'tr indexed_polygon \<Rightarrow> shape \<Rightarrow> point" where
  "near_zone E reach z s = unwrap_or (BBox_center (Shape_bbox s)) (ce_closest_within E (ip_poly z) s (max reach 1))"

fun locate :: "'tr check_env \<Rightarrow> int \<Rightarrow> 'tr geom \<Rightarrow> 'tr geom \<Rightarrow> point" where
  "locate E reach (G_Shape x) (G_Shape y) = ce_closest E x y"
| "locate E reach (G_Zone z) (G_Shape s) = near_zone E reach z s"
| "locate E reach (G_Shape s) (G_Zone z) = near_zone E reach z s"
| "locate E reach (G_Zone x) (G_Zone y) =
     (let bx = ip_bbox x; by = ip_bbox y
      in BBox_center (BBox_new (Point_new (max (px (bmin bx)) (px (bmin by))) (max (py (bmin bx)) (py (bmin by))))
           (Point_new (min (px (bmax bx)) (px (bmax by))) (min (py (bmax bx)) (py (bmax by))))))"

definition orient_pair :: "src \<Rightarrow> src \<Rightarrow> src \<times> src" where
  "orient_pair a b =
     (if \<not> is_routed_src a \<and> is_routed_src b then (b, a)
      else if is_routed_src a \<and> \<not> is_routed_src b then (a, b)
      else if src_rank b < src_rank a then (b, a) else (a, b))"

subsection \<open>Copper to copper\<close>

definition test_pair :: "'tr check_env \<Rightarrow> 'tr ctx \<Rightarrow> layer_id \<Rightarrow> 'tr check_obj \<Rightarrow> 'tr check_obj \<Rightarrow> violation option" where
  "test_pair E cx layer a b =
     (if o_src a = o_src b \<or> (o_net a \<noteq> None \<and> o_net a = o_net b) then None
      else let required = pair_clearance cx (o_subject a) (o_subject b) layer;
               limit = required + o_extra a + o_extra b + margin (c_options (cx_c cx));
               below = (0 < limit \<and> geom_gap (ce_rtree E) (o_geom a) (o_geom b) limit = Less);
               both_nets = (o_net a \<noteq> None \<and> o_net b \<noteq> None);
               short = (both_nets \<and> (below \<or> limit \<le> 0) \<and> geom_gap (ce_rtree E) (o_geom a) (o_geom b) 0 \<noteq> Greater)
           in if \<not> below \<and> \<not> short then None
              else let (sa, sb) = orient_pair (o_src a) (o_src b)
                in Some \<lparr>v_kind = (if short then V_Short else V_Clearance), v_a = checked sa, v_b = Some (checked sb),
                         v_layer = Some layer, v_at = locate E (c_reach (cx_c cx)) (o_geom a) (o_geom b), v_required = required\<rparr>)"

definition option_list :: "'a option \<Rightarrow> 'a list" where
  "option_list x = (case x of None \<Rightarrow> [] | Some y \<Rightarrow> [y])"

text \<open>The jobs of a check: every board object of a board check, and every routed object, layer by layer.\<close>

definition jobs :: "'tr ctx \<Rightarrow> (layer_id \<times> bool \<times> nat) list" where
  "jobs cx = concat (map (\<lambda>l.
     (if \<not> cx_routed cx then map (\<lambda>i. (l, False, i)) [0..<length (lo_objs (c_layers (cx_c cx) ! l))] else []) @
     (case nth_opt (cx_rlayers cx) l of None \<Rightarrow> [] | Some r \<Rightarrow> map (\<lambda>i. (l, True, i)) [0..<length (lo_objs r)]))
     [0..<length (c_layers (cx_c cx))])"

definition own_set :: "'tr ctx \<Rightarrow> layer_id \<Rightarrow> bool \<Rightarrow> 'tr layer_objs" where
  "own_set cx l routed = (if routed then cx_rlayers cx ! l else c_layers (cx_c cx) ! l)"

definition clamp_nm :: "int \<Rightarrow> int" where
  "clamp_nm v = max 0 (min v (2 ^ 31 - 1))"

definition pair_reach :: "'tr ctx \<Rightarrow> int" where
  "pair_reach cx = clamp_nm (c_reach (cx_c cx) + 2 * arc_extra (c_options (cx_c cx)))"

definition job_pairs :: "'tr check_env \<Rightarrow> 'tr ctx \<Rightarrow> layer_id \<times> bool \<times> nat \<Rightarrow> violation list" where
  "job_pairs E cx = (\<lambda>(l, routed, i).
     let mine = own_set cx l routed; board = c_layers (cx_c cx) ! l; x = lo_objs mine ! i;
         q = BBox_inflate (o_bbox x) (pair_reach cx)
     in concat (map (\<lambda>e. if entry_id e \<le> i then [] else option_list (test_pair E cx l x (lo_objs mine ! entry_id e)))
          (LayerIndex_query_entries (ce_rtree E) (lo_index mine) q)) @
        (if routed then concat (map (\<lambda>e. option_list (test_pair E cx l x (lo_objs board ! entry_id e)))
          (LayerIndex_query_entries (ce_rtree E) (lo_index board) q)) else []))"

definition copper_pairs :: "'tr check_env \<Rightarrow> 'tr ctx \<Rightarrow> violation list" where
  "copper_pairs E cx = concat (map (job_pairs E cx) (jobs cx))"

subsection \<open>Holes\<close>

definition multi_layer :: "src \<Rightarrow> bool" where
  "multi_layer s \<longleftrightarrow> (case s of Src_Board (Ref_Via _) \<Rightarrow> True | Src_Board (Ref_Pad _) \<Rightarrow> True | Src_RoutedVia _ \<Rightarrow> True | _ \<Rightarrow> False)"

definition hole_test :: "'tr check_env \<Rightarrow> 'tr ctx \<Rightarrow> layer_id \<Rightarrow> 'tr check_obj \<Rightarrow> hole \<Rightarrow> violation option" where
  "hole_test E cx layer x h =
     (if o_src x = h_src h \<or> \<not> LayerMask_contains (h_layers h) layer \<or> (h_plated h \<and> o_net x \<noteq> None \<and> o_net x = h_net h) then None
      else let required = ro_hole_clearance (c_rules (cx_c cx));
               need = required + margin (c_options (cx_c cx)) + o_extra x; hg = G_Shape (h_shape h)
           in if geom_gap (ce_rtree E) (o_geom x) hg need \<noteq> Less then None
              else let (a, b) = orient_pair (o_src x) (h_src h)
                in Some \<lparr>v_kind = V_HoleClearance, v_a = checked a, v_b = Some (checked b),
                         v_layer = (if multi_layer (o_src x) then None else Some layer),
                         v_at = locate E (c_reach (cx_c cx)) (o_geom x) hg, v_required = required\<rparr>)"

definition hole_clearance_check :: "'tr check_env \<Rightarrow> 'tr ctx \<Rightarrow> violation list" where
  "hole_clearance_check E cx =
     (let R = ce_rtree E; c = cx_c cx;
          reach = clamp_nm (ro_hole_clearance (c_rules c) + margin (c_options c) + arc_extra (c_options c));
          near = (\<lambda>l x (hs :: 'tr hole_set). concat (map (\<lambda>e. option_list (hole_test E cx l x (hs_holes hs ! entry_id e)))
             (LayerIndex_query_entries R (hs_index hs) (BBox_inflate (o_bbox x) reach))))
      in concat (map (\<lambda>(l, routed, i). let x = lo_objs (own_set cx l routed) ! i
            in (if \<not> cx_routed cx \<or> routed then near l x (c_holes c) else []) @ near l x (cx_rholes cx)) (jobs cx)) @
         (if cx_routed cx
          then concat (map (\<lambda>h. concat (map (\<lambda>l. case nth_opt (c_layers c) l of None \<Rightarrow> []
                | Some lo \<Rightarrow> concat (map (\<lambda>e. option_list (hole_test E cx l (lo_objs lo ! entry_id e) h))
                    (LayerIndex_query_entries R (lo_index lo) (BBox_inflate (h_bbox h) reach)))) (LayerMask_iter (h_layers h))))
             (hs_holes (cx_rholes cx)))
          else []))"

definition hole_pair :: "'tr check_env \<Rightarrow> 'tr ctx \<Rightarrow> hole \<Rightarrow> hole \<Rightarrow> violation option" where
  "hole_pair E cx a b =
     (if h_src a = h_src b \<or> \<not> LayerMask_intersects (h_layers a) (h_layers b) then None
      else let required = ro_hole_to_hole (c_rules (cx_c cx)); need = required + margin (c_options (cx_c cx))
           in if gap_cmp (h_shape a) (h_shape b) need \<noteq> Less then None
              else let (sa, sb) = orient_pair (h_src a) (h_src b)
                in Some \<lparr>v_kind = V_HoleToHole, v_a = checked sa, v_b = Some (checked sb), v_layer = None,
                         v_at = ce_closest E (h_shape a) (h_shape b), v_required = required\<rparr>)"

definition hole_to_hole_check :: "'tr check_env \<Rightarrow> 'tr ctx \<Rightarrow> violation list" where
  "hole_to_hole_check E cx =
     (let R = ce_rtree E; c = cx_c cx; reach = clamp_nm (ro_hole_to_hole (c_rules c) + margin (c_options c));
          one = (\<lambda>routed i. let set = (if routed then cx_rholes cx else c_holes c); h = hs_holes set ! i; q = BBox_inflate (h_bbox h) reach
             in concat (map (\<lambda>e. if i < entry_id e then option_list (hole_pair E cx h (hs_holes set ! entry_id e)) else [])
                  (LayerIndex_query_entries R (hs_index set) q)) @
                (if routed then concat (map (\<lambda>e. option_list (hole_pair E cx h (hs_holes (c_holes c) ! entry_id e)))
                  (LayerIndex_query_entries R (hs_index (c_holes c)) q)) else []))
      in (if \<not> cx_routed cx then concat (map (one False) [0..<length (hs_holes (c_holes c))]) else []) @
         concat (map (one True) [0..<length (hs_holes (cx_rholes cx))]))"

subsection \<open>Edges and keepouts\<close>

definition edge_hit :: "'tr check_env \<Rightarrow> 'tr ctx \<Rightarrow> 'tr check_obj \<Rightarrow> shape \<Rightarrow> bool" where
  "edge_hit E cx x edge \<longleftrightarrow> geom_gap (ce_rtree E) (o_geom x) (G_Shape edge)
     (ro_edge_clearance (c_rules (cx_c cx)) + margin (c_options (cx_c cx)) + o_extra x) = Less"

definition edge_check :: "'tr check_env \<Rightarrow> 'tr ctx \<Rightarrow> violation list" where
  "edge_check E cx =
     (let c = cx_c cx; required = ro_edge_clearance (c_rules c) in
      if c_edges c = [] then []
      else concat (map (\<lambda>(l, routed, i). let x = lo_objs (own_set cx l routed) ! i; need = required + margin (c_options c) + o_extra x
           in case find (\<lambda>e. edge_hit E cx x (c_edges c ! entry_id e))
                  (LayerIndex_query_entries (ce_rtree E) (c_edge_index c) (BBox_inflate (o_bbox x) (clamp_nm need))) of
               None \<Rightarrow> []
             | Some e \<Rightarrow> [\<lparr>v_kind = V_EdgeClearance, v_a = checked (o_src x), v_b = Some Chk_Edge,
                           v_layer = (if multi_layer (o_src x) then None else Some l),
                           v_at = locate E (c_reach c) (o_geom x) (G_Shape (c_edges c ! entry_id e)), v_required = required\<rparr>]) (jobs cx)))"

definition forbidden :: "keepout_rules \<Rightarrow> item_kind \<Rightarrow> bool" where
  "forbidden r k = (case k of Kind_Track \<Rightarrow> no_tracks r | Kind_Arc \<Rightarrow> no_tracks r | Kind_Via \<Rightarrow> no_vias r | Kind_Pad \<Rightarrow> no_pads r | Kind_Zone \<Rightarrow> no_copperpour r)"

definition keepout_hits :: "'tr check_env \<Rightarrow> 'tr ctx \<Rightarrow> keepout \<Rightarrow> layer_id \<Rightarrow> 'tr layer_objs \<Rightarrow> violation list" where
  "keepout_hits E cx k layer lo =
     (let region = G_Shape (Polygon (keepout_region k))
      in concat (map (\<lambda>i. let x = lo_objs lo ! i
           in if forbidden (keepout_rules_of k) (src_kind (o_src x)) \<and> geom_gap (ce_rtree E) (o_geom x) region 0 \<noteq> Greater
              then [\<lparr>v_kind = V_Keepout, v_a = checked (o_src x), v_b = None, v_layer = Some layer,
                     v_at = locate E (c_reach (cx_c cx)) (o_geom x) region, v_required = 0\<rparr>] else [])
         (LayerIndex_query (ce_rtree E) (lo_index lo) (Polygon_bbox (keepout_region k)))))"

definition keepout_check :: "'tr check_env \<Rightarrow> 'tr ctx \<Rightarrow> violation list" where
  "keepout_check E cx =
     concat (map (\<lambda>k. let r = keepout_rules_of k in
        if \<not> (no_tracks r \<or> no_vias r \<or> no_pads r \<or> no_copperpour r) then []
        else concat (map (\<lambda>layer. concat (map (keepout_hits E cx k layer)
           ((if \<not> cx_routed cx then option_list (nth_opt (c_layers (cx_c cx)) layer) else []) @ option_list (nth_opt (cx_rlayers cx) layer))))
         (LayerMask_iter (keepout_layers k)))) (keepouts (c_board (cx_c cx))))"

subsection \<open>Single items\<close>

datatype single_item =
    Single_Track src layer_id segment
  | Single_Arc src layer_id "point \<times> point \<times> point" int
  | Single_Via src point int int

definition single :: "violation_kind \<Rightarrow> src \<Rightarrow> layer_id \<Rightarrow> point \<Rightarrow> int \<Rightarrow> violation" where
  "single k s layer pos required = \<lparr>v_kind = k, v_a = checked s, v_b = None, v_layer = Some layer, v_at = pos, v_required = required\<rparr>"

definition single_items :: "'tr ctx \<Rightarrow> routed_copper \<Rightarrow> single_item list" where
  "single_items cx rc =
     (let b = c_board (cx_c cx) in
      (if \<not> cx_routed cx
       then map (\<lambda>t. Single_Track (Src_Board (Ref_Track (track_ident t))) (track_layer t) (track_seg t)) (tracks b) @
            map (\<lambda>a. Single_Arc (Src_Board (Ref_Arc (arc_ident a))) (arc_layer a) (arc_start a, arc_mid a, arc_end a) (arc_width a)) (arcs b) @
            map (\<lambda>v. Single_Via (Src_Board (Ref_Via (via_ident v))) (via_center v) (via_diameter v) (via_drill v)) (vias b)
       else []) @
      map (\<lambda>(i, t). Single_Track (Src_RoutedTrack (as_u32 i)) (rt_layer t) (rt_seg t)) (enumerate 0 (rc_tracks rc)) @
      map (\<lambda>(i, v). Single_Via (Src_RoutedVia (as_u32 i)) (rv_center v) (rv_diameter v) (rv_drill v)) (enumerate 0 (rc_vias rc)))"

definition check_single :: "'tr check_env \<Rightarrow> 'tr ctx \<Rightarrow> single_item \<Rightarrow> violation list" where
  "check_single E cx it =
     (let rules = c_rules (cx_c cx) in case it of
        Single_Track s layer seg \<Rightarrow>
          (let mid = BBox_center (BBox_new (seg_a seg) (seg_b seg)); sub = src_subject cx s; w = ro_track_width rules sub layer in
           (if seg_width seg < wr_min w then [single V_TrackWidth s layer mid (wr_min w)] else []) @
           (case ro_min_segment_length rules sub layer of None \<Rightarrow> []
            | Some m \<Rightarrow> if Vector_length2 (Point_sub (seg_b seg) (seg_a seg)) < m * m then [single V_SegmentLength s layer mid m] else []))
      | Single_Arc s layer (a, m, z) width \<Rightarrow>
          (let sub = src_subject cx s; w = ro_track_width rules sub layer in
           (if width < wr_min w then [single V_TrackWidth s layer m (wr_min w)] else []) @
           (case ro_min_segment_length rules sub layer of None \<Rightarrow> []
            | Some k \<Rightarrow> if ce_arc_shorter E (a, m, z) k then [single V_SegmentLength s layer m k] else []))
      | Single_Via s c diameter drl \<Rightarrow>
          (let r = ro_via rules (src_subject cx s) in
           if diameter < vr_min_diameter r \<or> drl < vr_min_drill r \<or> diameter - drl < 2 * vr_min_annular r
           then [\<lparr>v_kind = V_ViaSize, v_a = checked s, v_b = None, v_layer = None, v_at = c,
                  v_required = (if drl < vr_min_drill r then vr_min_drill r
                    else if diameter < vr_min_diameter r then vr_min_diameter r else vr_min_annular r)\<rparr>]
           else []))"

definition found_violations :: "'tr check_env \<Rightarrow> 'tr ctx \<Rightarrow> routed_copper option \<Rightarrow> violation list" where
  "found_violations E cx rc =
     copper_pairs E cx @ hole_clearance_check E cx @ hole_to_hole_check E cx @ edge_check E cx @ keepout_check E cx @
     concat (map (check_single E cx) (single_items cx (unwrap_or no_copper_routed rc))) @ ce_angles E rc"

definition run :: "'tr check_env \<Rightarrow> 'tr board_checker \<Rightarrow> routed_copper option \<Rightarrow> violation list" where
  "run E c rc = dedup_findings (sort_key violation_key (found_violations E (run_ctx E c rc) rc))"

definition check_board :: "'tr check_env \<Rightarrow> route_board \<Rightarrow> rule_oracle \<Rightarrow> check_options \<Rightarrow> violation list option" where
  "check_board E b rules opt = map_option (\<lambda>c. run E c None) (BoardChecker_new E b rules opt)"

definition check_routed :: "'tr check_env \<Rightarrow> route_board \<Rightarrow> rule_oracle \<Rightarrow> routed_copper \<Rightarrow> violation list option" where
  "check_routed E b rules rc = map_option (\<lambda>c. run E c (Some rc)) (BoardChecker_new E b rules for_routed)"

end
