(* ===== verification/Check_Index.thy ===== *)
theory Check_Index
  imports Board_Check
begin

text \<open>
  What the design rule check of \<open>Board_Check\<close> guarantees: the spatial index loses no pair (the report is the one of a check
  that compares every pair), each reported pair is a real violation in the plane and each violation is reported, and a clean
  report of routed copper means that its clearances hold between the points of the copper.
\<close>

section \<open>Boxes apart mean copper apart\<close>

lemma boxes_apart_both:
  assumes A: "A \<noteq> {}" "\<And>x. x \<in> A \<Longrightarrow> in_box b x" and B: "B \<noteq> {}" "\<And>x. x \<in> B \<Longrightarrow> in_box bb x"
    and ok: "bbox_ok b" "bbox_ok bb" and rc: "0 \<le> r" "0 \<le> c" "0 \<le> r'" and k: "0 \<le> k" "k \<le> real_of_int (r + c + r')"
    and apart: "\<not> BBox_intersects (BBox_inflate (BBox_inflate b r) c) (BBox_inflate bb r')"
  shows "k\<^sup>2 < sqdist A B"
proof -
  let ?q = "BBox_inflate (BBox_inflate b r) c"
  have i: "in_i32 (px (bmin b))" "in_i32 (py (bmin b))" "in_i32 (px (bmax b))" "in_i32 (py (bmax b))"
    using ok by (simp_all add: bbox_ok_def point_ok_def)
  have q: "px (bmin ?q) = sat32 (px (bmin b) - r - c)" "py (bmin ?q) = sat32 (py (bmin b) - r - c)"
    "px (bmax ?q) = sat32 (px (bmax b) + r + c)" "py (bmax ?q) = sat32 (py (bmax b) + r + c)"
    using i rc by (simp_all add: inflate_corners ok(1) BBox_inflate_ok sat32_twice)
  have left: "k\<^sup>2 < sqdist A B"
    if "f = fst \<or> f = snd" "lo + r + c < hi - r'" "\<And>x. x \<in> A \<Longrightarrow> f x \<le> real_of_int lo" "\<And>x. x \<in> B \<Longrightarrow> real_of_int hi \<le> f x" for f lo hi
    using sqdist_sep [OF A(1) B(1) that(1,3,4) k(1)] that(2) k(2) by simp
  have right: "k\<^sup>2 < sqdist A B"
    if "f = fst \<or> f = snd" "lo + r' < hi - r - c" "\<And>x. x \<in> B \<Longrightarrow> f x \<le> real_of_int lo" "\<And>x. x \<in> A \<Longrightarrow> real_of_int hi \<le> f x" for f lo hi
    using sqdist_sep [OF B(1) A(1) that(1,3,4) k(1)] that(2) k(2) sqdist_commute [of A B] by simp
  from apart consider "px (bmax bb) + r' < px (bmin b) - r - c" | "px (bmax b) + r + c < px (bmin bb) - r'"
    | "py (bmax bb) + r' < py (bmin b) - r - c" | "py (bmax b) + r + c < py (bmin bb) - r'"
    unfolding BBox_intersects_def q inflate_corners [OF ok(2) rc(3)] not_le de_Morgan_conj using sat32_less_both by blast
  then show ?thesis
  proof cases
    case 1
    show ?thesis by (rule right [of fst, OF _ 1]) (use A(2) B(2) in \<open>auto simp: in_box_def\<close>)
  next
    case 2
    show ?thesis by (rule left [of fst, OF _ 2]) (use A(2) B(2) in \<open>auto simp: in_box_def\<close>)
  next
    case 3
    show ?thesis by (rule right [of snd, OF _ 3]) (use A(2) B(2) in \<open>auto simp: in_box_def\<close>)
  next
    case 4
    show ?thesis by (rule left [of snd, OF _ 4]) (use A(2) B(2) in \<open>auto simp: in_box_def\<close>)
  qed
qed

lemma gap_far:
  assumes ok: "placeable a" "placeable b" and c: "0 \<le> c" and apart: "\<not> BBox_intersects (BBox_inflate (Shape_bbox a) c) (Shape_bbox b)"
  shows "real_of_int c < shape_gap a b"
proof -
  note ok' = ok [THEN placeable_ok]
  obtain ba ra where A: "bbox_ok ba" "0 \<le> ra" "shape_radius a \<le> real_of_int ra" "Shape_bbox a = BBox_inflate ba ra"
    "\<And>x. x \<in> shape_core a \<Longrightarrow> in_box ba x" using placeable_box [OF ok(1)] by blast
  obtain bb rb where B: "bbox_ok bb" "0 \<le> rb" "shape_radius b \<le> real_of_int rb" "Shape_bbox b = BBox_inflate bb rb"
    "\<And>x. x \<in> shape_core b \<Longrightarrow> in_box bb x" using placeable_box [OF ok(2)] by blast
  note ne = core_of_exact(3) [OF ok'(1)] core_of_exact(3) [OF ok'(2)]
  let ?k = "real_of_int c + shape_radius a + shape_radius b"
  have nn: "0 \<le> shape_radius a" "0 \<le> shape_radius b" using shape_radius_nonneg ok' by auto
  then have "?k\<^sup>2 < sqdist (shape_core a) (shape_core b)"
    using boxes_apart_both [OF ne(1) A(5) ne(2) B(5) A(1) B(1) A(2) c B(2), of ?k] c A(3) B(3) apart A(4) B(4) by simp
  then have "?k < sqrt (sqdist (shape_core a) (shape_core b))" using real_less_rsqrt by blast
  then show ?thesis by (simp add: shape_gap_def)
qed

lemma gap_cmp_far:
  assumes "placeable a" "placeable b" "0 \<le> r" "c \<le> r" "in_i64 c" "\<not> BBox_intersects (BBox_inflate (Shape_bbox a) r) (Shape_bbox b)"
  shows "gap_cmp a b c = Greater"
proof -
  have "cmp (shape_gap a b) (real_of_int c) = Greater" using gap_far [OF assms(1-3,6)] assms(4) by (simp add: cmp_iff)
  then have "Greater \<le> gap_cmp a b c" using gap_cmp_ge [OF assms(1,2) [THEN placeable_ok] assms(5)] by simp
  then show ?thesis by (cases "gap_cmp a b c") simp_all
qed

section \<open>Well-formed objects\<close>

text \<open>The region of an object, and the geometry the check is exact for.\<close>

fun geom_shape :: "'tr geom \<Rightarrow> shape" where
  "geom_shape (G_Shape s) = s"
| "geom_shape (G_Zone z) = Polygon (ip_poly z)"

fun geom_ok :: "'tr rtree \<Rightarrow> 'tr geom \<Rightarrow> bool" where
  "geom_ok R (G_Shape s) \<longleftrightarrow> shape_ok s \<and> solid s"
| "geom_ok R (G_Zone z) \<longleftrightarrow> indexable (ip_poly z) \<and> z = IndexedPolygon_new R (ip_poly z)"

definition obj_ok :: "'tr rtree \<Rightarrow> 'tr check_obj \<Rightarrow> bool" where
  "obj_ok R x \<longleftrightarrow> geom_ok R (o_geom x) \<and> o_bbox x = Shape_bbox (geom_shape (o_geom x))"

definition objs_ok :: "'tr rtree \<Rightarrow> 'tr layer_objs \<Rightarrow> bool" where
  "objs_ok R lo \<longleftrightarrow> lo = LayerObjs_finish R (lo_objs lo) \<and> length (lo_objs lo) \<le> 2 ^ 32 \<and> (\<forall>x \<in> set (lo_objs lo). obj_ok R x)"

lemma solid_placeable: "shape_ok s \<Longrightarrow> solid s \<Longrightarrow> placeable s"
  by (cases s) auto

lemma geom_placeable: "geom_ok R g \<Longrightarrow> placeable (geom_shape g)"
  by (cases g) (auto simp: indexable_def intro: solid_placeable)

text \<open>Exact, but for two plane pieces of which one has a hole: there a reported gap is real.\<close>

lemma geom_gap_ge:
  assumes "rtree_law R contents" "geom_ok R a" "geom_ok R b" "in_i64 c" "c < 2 ^ 31"
  shows "cmp (shape_gap (geom_shape a) (geom_shape b)) (real_of_int c) \<le> geom_gap R a b c"
proof (cases a; cases b)
  fix s t assume [simp]: "a = G_Shape s" "b = G_Shape t"
  show ?thesis using gap_cmp_ge assms by simp
next
  fix z s assume ab [simp]: "a = G_Zone z" "b = G_Shape s"
  then have "geom_gap R a b c = cmp (shape_gap (Polygon (ip_poly z)) s) (real_of_int c)"
    using indexed_gap_gap [OF assms(1), of "ip_poly z" s c] assms(2-) by (metis geom_gap.simps(2) geom_ok.simps)
  then show ?thesis by simp
next
  fix z s assume ab [simp]: "b = G_Zone z" "a = G_Shape s"
  then have "geom_gap R a b c = cmp (shape_gap (Polygon (ip_poly z)) s) (real_of_int c)"
    using indexed_gap_gap [OF assms(1), of "ip_poly z" s c] assms(2-) by (metis geom_gap.simps(3) geom_ok.simps)
  then show ?thesis by (simp add: shape_gap_def sqdist_commute)
next
  fix y z assume ab [simp]: "a = G_Zone y" "b = G_Zone z"
  then have "geom_gap R a b c = gap_cmp (Polygon (ip_poly y)) (Polygon (ip_poly z)) c"
    using indexed_polygons_plain [OF assms(1), of "ip_poly y" "ip_poly z" c] assms(2-) by (metis geom_gap.simps(4) geom_ok.simps(2))
  then show ?thesis using gap_cmp_ge [of "Polygon (ip_poly y)" "Polygon (ip_poly z)" c] assms by (simp add: indexable_def)
qed

lemma geom_gap_exact:
  assumes "rtree_law R contents" "geom_ok R a" "geom_ok R b" "in_i64 c" "c < 2 ^ 31"
    and nh: "no_hole_pair (geom_shape a) (geom_shape b) \<or> (\<exists>s. a = G_Shape s \<or> b = G_Shape s)"
  shows "geom_gap R a b c = cmp (shape_gap (geom_shape a) (geom_shape b)) (real_of_int c)"
proof (cases a; cases b)
  fix s t assume [simp]: "a = G_Shape s" "b = G_Shape t"
  have "no_hole_pair s t" using assms(2,3) by (cases s; cases t) (auto simp: no_hole_pair_def)
  then show ?thesis using gap_cmp_gap assms by simp
next
  fix z s assume ab [simp]: "a = G_Zone z" "b = G_Shape s"
  then show ?thesis
    using indexed_gap_gap [OF assms(1), of "ip_poly z" s c] assms(2-5) by (metis geom_gap.simps(2) geom_ok.simps geom_shape.simps)
next
  fix z s assume ab [simp]: "b = G_Zone z" "a = G_Shape s"
  then have "geom_gap R a b c = cmp (shape_gap (Polygon (ip_poly z)) s) (real_of_int c)"
    using indexed_gap_gap [OF assms(1), of "ip_poly z" s c] assms(2-5) by (metis geom_gap.simps(3) geom_ok.simps)
  then show ?thesis by (simp add: shape_gap_def sqdist_commute)
next
  fix y z assume ab [simp]: "a = G_Zone y" "b = G_Zone z"
  then have "geom_gap R a b c = gap_cmp (Polygon (ip_poly y)) (Polygon (ip_poly z)) c"
    using indexed_polygons_plain [OF assms(1), of "ip_poly y" "ip_poly z" c] assms(2-5) by (metis geom_gap.simps(4) geom_ok.simps(2))
  moreover have "no_hole_pair (Polygon (ip_poly y)) (Polygon (ip_poly z))" using nh by simp
  ultimately show ?thesis using gap_cmp_gap [of "Polygon (ip_poly y)" "Polygon (ip_poly z)" c] assms(2-5) by (simp add: indexable_def)
qed

lemma geom_gap_far:
  assumes "rtree_law R contents" "obj_ok R x" "geom_ok R h" "0 \<le> r" "c \<le> r" "r < 2 ^ 31" "in_i64 c"
    "\<not> BBox_intersects (Shape_bbox (geom_shape h)) (BBox_inflate (o_bbox x) r) \<or> \<not> BBox_intersects (o_bbox x) (BBox_inflate (Shape_bbox (geom_shape h)) r)"
  shows "geom_gap R (o_geom x) h c = Greater"
proof -
  have x: "geom_ok R (o_geom x)" "o_bbox x = Shape_bbox (geom_shape (o_geom x))" using assms(2) by (simp_all add: obj_ok_def)
  have "shape_gap (geom_shape h) (geom_shape (o_geom x)) = shape_gap (geom_shape (o_geom x)) (geom_shape h)"
    by (simp add: shape_gap_def sqdist_commute)
  then have "real_of_int c < shape_gap (geom_shape (o_geom x)) (geom_shape h)"
    using gap_far [OF geom_placeable [OF x(1)] geom_placeable [OF assms(3)] assms(4)]
      gap_far [OF geom_placeable [OF assms(3)] geom_placeable [OF x(1)] assms(4)] assms(5,8) x(2) by (auto simp: BBox_intersects_commute)
  then have "cmp (shape_gap (geom_shape (o_geom x)) (geom_shape h)) (real_of_int c) = Greater" by (simp add: cmp_iff)
  then have "Greater \<le> geom_gap R (o_geom x) h c" using geom_gap_ge [OF assms(1) x(1) assms(3,7)] assms(5,6) by simp
  then show ?thesis by (cases "geom_gap R (o_geom x) h c") simp_all
qed

section \<open>A query is a scan\<close>

lemma index_entries:
  assumes "rtree_law R contents" "length boxes \<le> 2 ^ 32"
  shows "mset (LayerIndex_query_entries R (index_of R boxes) q) =
    mset (map (\<lambda>j. \<lparr>entry_id = j, entry_bbox = boxes ! j\<rparr>) (filter (\<lambda>j. BBox_intersects (boxes ! j) q) [0..<length boxes]))"
proof -
  have es: "map (\<lambda>(i, b). \<lparr>entry_id = as_u32 i, entry_bbox = b\<rparr>) (enumerate 0 boxes) =
    map (\<lambda>j. \<lparr>entry_id = j, entry_bbox = boxes ! j\<rparr>) [0..<length boxes]"
    using assms(2) by (intro nth_equalityI) (auto simp: nth_enumerate_eq)
  have "contents (tree (index_of R boxes)) = mset (map (\<lambda>j. \<lparr>entry_id = j, entry_bbox = boxes ! j\<rparr>) [0..<length boxes])"
    by (simp only: index_of_def LayerIndex_bulk_load_def layer_index.simps rtree_lawD(1) [OF assms(1)] es)
  then show ?thesis
    unfolding LayerIndex_query_entries_def rtree_lawD(2) [OF assms(1)] aabb_meet_bbox
    by (simp only: mset_filter [symmetric] filter_map comp_def index_entry.simps)
qed

lemma concat_filter_nil: "(\<And>x. x \<in> set xs \<Longrightarrow> \<not> P x \<Longrightarrow> f x = []) \<Longrightarrow> concat (map f (filter P xs)) = concat (map f xs)"
  by (induction xs) auto

lemma mset_concat_map: "mset (concat (map f xs)) = (\<Sum>x \<in># mset xs. mset (f x))"
  by (induction xs) auto

lemma mset_concat_map_cong: "mset xs = mset ys \<Longrightarrow> mset (concat (map f xs)) = mset (concat (map f ys))"
  by (simp only: mset_concat_map)

lemma mset_concat_cong: "(\<And>x. x \<in> set xs \<Longrightarrow> mset (f x) = mset (g x)) \<Longrightarrow> mset (concat (map f xs)) = mset (concat (map g xs))"
  by (induction xs) auto

lemma query_scan:
  assumes "rtree_law R contents" "length boxes \<le> 2 ^ 32" "\<And>j. j < length boxes \<Longrightarrow> \<not> BBox_intersects (boxes ! j) q \<Longrightarrow> f j = []"
  shows "mset (concat (map (\<lambda>e. f (entry_id e)) (LayerIndex_query_entries R (index_of R boxes) q))) = mset (concat (map f [0..<length boxes]))"
proof -
  have "mset (concat (map (\<lambda>e. f (entry_id e)) (LayerIndex_query_entries R (index_of R boxes) q))) =
    mset (concat (map f (filter (\<lambda>j. BBox_intersects (boxes ! j) q) [0..<length boxes])))"
    using mset_concat_map_cong [OF index_entries [OF assms(1,2)], of "\<lambda>e. f (entry_id e)" q] by (simp add: comp_def)
  then show ?thesis using concat_filter_nil [of "[0..<length boxes]" "\<lambda>j. BBox_intersects (boxes ! j) q" f] assms(3) by simp
qed

section \<open>The check of all pairs\<close>

text \<open>The check with every object compared with every other, without an index.\<close>

definition job_pairs_all :: "'tr check_env \<Rightarrow> 'tr ctx \<Rightarrow> layer_id \<times> bool \<times> nat \<Rightarrow> violation list" where
  "job_pairs_all E cx = (\<lambda>(l, routed, i).
     let x = lo_objs (own_set cx l routed) ! i; found = (\<lambda>ys. concat (map (\<lambda>y. option_list (test_pair E cx l x y)) ys))
     in found (drop (Suc i) (lo_objs (own_set cx l routed))) @ (if routed then found (lo_objs (c_layers (cx_c cx) ! l)) else []))"

definition copper_pairs_all :: "'tr check_env \<Rightarrow> 'tr ctx \<Rightarrow> violation list" where
  "copper_pairs_all E cx = concat (map (job_pairs_all E cx) (jobs cx))"

definition hole_clearance_all :: "'tr check_env \<Rightarrow> 'tr ctx \<Rightarrow> violation list" where
  "hole_clearance_all E cx =
     (let c = cx_c cx; near = (\<lambda>l x hs. concat (map (\<lambda>h. option_list (hole_test E cx l x h)) (hs_holes hs)))
      in concat (map (\<lambda>(l, routed, i). let x = lo_objs (own_set cx l routed) ! i
            in (if \<not> cx_routed cx \<or> routed then near l x (c_holes c) else []) @ near l x (cx_rholes cx)) (jobs cx)) @
         (if cx_routed cx
          then concat (map (\<lambda>h. concat (map (\<lambda>l. case nth_opt (c_layers c) l of None \<Rightarrow> []
                | Some lo \<Rightarrow> concat (map (\<lambda>x. option_list (hole_test E cx l x h)) (lo_objs lo))) (LayerMask_iter (h_layers h))))
             (hs_holes (cx_rholes cx)))
          else []))"

definition hole_to_hole_all :: "'tr check_env \<Rightarrow> 'tr ctx \<Rightarrow> violation list" where
  "hole_to_hole_all E cx =
     (let hits = (\<lambda>h hs. concat (map (\<lambda>g. option_list (hole_pair E cx h g)) hs));
          board = hs_holes (c_holes (cx_c cx)); routed = hs_holes (cx_rholes cx)
      in (if \<not> cx_routed cx then concat (map (\<lambda>i. hits (board ! i) (drop (Suc i) board)) [0..<length board]) else []) @
         concat (map (\<lambda>i. hits (routed ! i) (drop (Suc i) routed) @ hits (routed ! i) board) [0..<length routed]))"

definition found_violations_all :: "'tr check_env \<Rightarrow> 'tr ctx \<Rightarrow> routed_copper option \<Rightarrow> violation list" where
  "found_violations_all E cx rc =
     copper_pairs_all E cx @ hole_clearance_all E cx @ hole_to_hole_all E cx @ edge_check E cx @ keepout_check E cx @
     concat (map (check_single E cx) (single_items cx (unwrap_or no_copper_routed rc))) @ ce_angles E rc"

text \<open>What the index relies on: coordinates of 32 bits, a clearance that bounds all others, a margin that is not negative.\<close>

definition margins_ok :: "'tr board_checker \<Rightarrow> bool" where
  "margins_ok c \<longleftrightarrow> (let r = c_rules c; opt = c_options c in
     in_i32 (ro_hole_clearance r) \<and> in_i32 (ro_hole_to_hole r) \<and>
     in_i32 (safety_margin_nm opt) \<and> in_i32 (kicad_epsilon_nm opt) \<and> in_i32 (max_error_nm opt) \<and> 0 \<le> safety_margin_nm opt \<and>
     c_reach c = ro_max_clearance r + safety_margin_nm opt + arc_extra opt \<and> c_reach c + 2 * arc_extra opt < 2 ^ 31 \<and>
     ro_hole_clearance r + margin opt + arc_extra opt < 2 ^ 31 \<and> ro_hole_to_hole r + margin opt < 2 ^ 31)"

definition hole_ok :: "hole \<Rightarrow> bool" where
  "hole_ok h \<longleftrightarrow> shape_ok (h_shape h) \<and> solid (h_shape h) \<and> h_bbox h = Shape_bbox (h_shape h)"

definition holes_ok :: "'tr rtree \<Rightarrow> 'tr hole_set \<Rightarrow> bool" where
  "holes_ok R hs \<longleftrightarrow> hs = Holes_finish R (hs_holes hs) \<and> length (hs_holes hs) \<le> 2 ^ 32 \<and> list_all hole_ok (hs_holes hs)"

definition extras_ok :: "'tr board_checker \<Rightarrow> 'tr layer_objs \<Rightarrow> bool" where
  "extras_ok c lo \<longleftrightarrow> (\<forall>x \<in> set (lo_objs lo). o_extra x = 0 \<or> o_extra x = arc_extra (c_options c))"

definition bounded :: "'tr board_checker \<Rightarrow> int \<Rightarrow> bool" where
  "bounded c v \<longleftrightarrow> in_i32 v \<and> v \<le> ro_max_clearance (c_rules c)"

definition ctx_objs :: "'tr ctx \<Rightarrow> 'tr check_obj set" where
  "ctx_objs cx = (\<Union>lo \<in> set (c_layers (cx_c cx)) \<union> set (cx_rlayers cx). set (lo_objs lo))"

definition ctx_ok :: "'tr check_env \<Rightarrow> 'tr ctx \<Rightarrow> bool" where
  "ctx_ok E cx \<longleftrightarrow> margins_ok (cx_c cx) \<and>
     (\<forall>x \<in> ctx_objs cx. \<forall>y \<in> ctx_objs cx. \<forall>l. bounded (cx_c cx) (pair_clearance cx (o_subject x) (o_subject y) l)) \<and>
     (\<forall>lo \<in> set (c_layers (cx_c cx)) \<union> set (cx_rlayers cx). objs_ok (ce_rtree E) lo \<and> extras_ok (cx_c cx) lo) \<and>
     holes_ok (ce_rtree E) (c_holes (cx_c cx)) \<and> holes_ok (ce_rtree E) (cx_rholes cx)"

lemma arc_extra_nonneg: "0 \<le> arc_extra opt"
  by (simp add: arc_extra_def)

lemma limits:
  assumes "margins_ok c" "x = 0 \<or> x = arc_extra (c_options c)" "y = 0 \<or> y = arc_extra (c_options c)"
  defines "opt \<equiv> c_options c" and "r \<equiv> c_rules c"
  shows "bounded c v \<Longrightarrow> v + x + y + margin opt \<le> c_reach c + 2 * arc_extra opt" "bounded c v \<Longrightarrow> in_i64 (v + x + y + margin opt)"
    and "c_reach c + 2 * arc_extra opt < 2 ^ 31"
    and "in_i64 (ro_hole_clearance r + margin opt + x)" "ro_hole_clearance r + margin opt + x \<le> ro_hole_clearance r + margin opt + arc_extra opt"
    and "ro_hole_clearance r + margin opt + arc_extra opt < 2 ^ 31"
    and "in_i64 (ro_hole_to_hole r + margin opt)" "ro_hole_to_hole r + margin opt < 2 ^ 31"
proof -
  have k: "in_i32 (ro_hole_clearance r)" "in_i32 (ro_hole_to_hole r)"
    "in_i32 (safety_margin_nm opt)" "in_i32 (kicad_epsilon_nm opt)" "in_i32 (max_error_nm opt)" "0 \<le> safety_margin_nm opt"
    "c_reach c = ro_max_clearance r + safety_margin_nm opt + arc_extra opt"
    and h: "c_reach c + 2 * arc_extra opt < 2 ^ 31" "ro_hole_clearance r + margin opt + arc_extra opt < 2 ^ 31" "ro_hole_to_hole r + margin opt < 2 ^ 31"
    using assms(1) unfolding margins_ok_def opt_def r_def Let_def by blast+
  have e: "0 \<le> x" "x \<le> arc_extra opt" "0 \<le> y" "y \<le> arc_extra opt" "0 \<le> arc_extra opt" "arc_extra opt \<le> 2147483647"
    using assms(2,3) k(5) arc_extra_nonneg [of opt] by (auto simp: opt_def arc_extra_def in_i32_def)
  have m: "margin opt \<le> safety_margin_nm opt" "-2147483648 \<le> margin opt" using k(3,4,6) by (auto simp: margin_def in_i32_def)
  show "v + x + y + margin opt \<le> c_reach c + 2 * arc_extra opt" if "bounded c v"
    using that k(7) e m(1) unfolding bounded_def r_def by linarith
  show "in_i64 (v + x + y + margin opt)" if "bounded c v" using that k(3) e m by (simp add: bounded_def in_i32_def in_i64_def)
  show "in_i64 (ro_hole_clearance r + margin opt + x)" "in_i64 (ro_hole_to_hole r + margin opt)"
    using k(1-3) e m by (simp_all add: in_i32_def in_i64_def)
  show "ro_hole_clearance r + margin opt + x \<le> ro_hole_clearance r + margin opt + arc_extra opt" using e(2) by simp
  show "c_reach c + 2 * arc_extra opt < 2 ^ 31" "ro_hole_clearance r + margin opt + arc_extra opt < 2 ^ 31" "ro_hole_to_hole r + margin opt < 2 ^ 31"
    using h .
qed

lemma clamp_nm: "0 \<le> clamp_nm v" "clamp_nm v < 2 ^ 31" "c \<le> v \<Longrightarrow> v < 2 ^ 31 \<Longrightarrow> c \<le> clamp_nm v"
  by (auto simp: clamp_nm_def)

lemma test_pair_far:
  assumes law: "rtree_law (ce_rtree E) contents" and lim: "margins_ok (cx_c cx)" and ok: "obj_ok (ce_rtree E) x" "obj_ok (ce_rtree E) y"
    and ex: "o_extra x = 0 \<or> o_extra x = arc_extra (c_options (cx_c cx))" "o_extra y = 0 \<or> o_extra y = arc_extra (c_options (cx_c cx))"
    and bd: "bounded (cx_c cx) (pair_clearance cx (o_subject x) (o_subject y) l)"
    and apart: "\<not> BBox_intersects (o_bbox y) (BBox_inflate (o_bbox x) (pair_reach cx))"
  shows "test_pair E cx l x y = None"
proof -
  have y: "geom_ok (ce_rtree E) (o_geom y)" "o_bbox y = Shape_bbox (geom_shape (o_geom y))" using ok(2) by (simp_all add: obj_ok_def)
  have apart': "\<not> BBox_intersects (Shape_bbox (geom_shape (o_geom y))) (BBox_inflate (o_bbox x) (pair_reach cx))" using apart y(2) by simp
  note far = geom_gap_far [OF law ok(1) y(1) _ _ _ _ disjI1 [OF apart'], unfolded pair_reach_def, OF clamp_nm(1) _ clamp_nm(2)]
  have "geom_gap (ce_rtree E) (o_geom x) (o_geom y) (pair_clearance cx (o_subject x) (o_subject y) l + o_extra x + o_extra y + margin (c_options (cx_c cx))) = Greater"
    by (rule far, rule clamp_nm(3) [OF limits(1) [OF lim ex bd] limits(3) [OF lim ex]], rule limits(2) [OF lim ex bd])
  moreover have "geom_gap (ce_rtree E) (o_geom x) (o_geom y) 0 = Greater" by (rule far) (simp_all add: clamp_nm in_i64_def)
  ultimately show ?thesis by (simp add: test_pair_def Let_def)
qed

lemma hole_test_far:
  assumes law: "rtree_law (ce_rtree E) contents" and lim: "margins_ok (cx_c cx)" and ok: "obj_ok (ce_rtree E) x" "hole_ok h"
    and ex: "o_extra x = 0 \<or> o_extra x = arc_extra (c_options (cx_c cx))"
    and r: "r = clamp_nm (ro_hole_clearance (c_rules (cx_c cx)) + margin (c_options (cx_c cx)) + arc_extra (c_options (cx_c cx)))"
    and apart: "\<not> BBox_intersects (h_bbox h) (BBox_inflate (o_bbox x) r) \<or> \<not> BBox_intersects (o_bbox x) (BBox_inflate (h_bbox h) r)"
  shows "hole_test E cx l x h = None"
proof -
  have h: "geom_ok (ce_rtree E) (G_Shape (h_shape h))" "h_bbox h = Shape_bbox (geom_shape (G_Shape (h_shape h)))" using ok(2) by (simp_all add: hole_ok_def)
  have r0: "0 \<le> r" "ro_hole_clearance (c_rules (cx_c cx)) + margin (c_options (cx_c cx)) + o_extra x \<le> r" "r < 2 ^ 31"
    using clamp_nm(3) [OF limits(5) [OF lim ex ex] limits(6) [OF lim ex ex]] by (simp_all only: r clamp_nm)
  have "geom_gap (ce_rtree E) (o_geom x) (G_Shape (h_shape h)) (ro_hole_clearance (c_rules (cx_c cx)) + margin (c_options (cx_c cx)) + o_extra x) = Greater"
    by (rule geom_gap_far [OF law ok(1) h(1) r0 limits(4) [OF lim ex ex]]) (use apart h(2) in metis)
  then show ?thesis by (simp add: hole_test_def Let_def)
qed

lemma hole_pair_far:
  assumes lim: "margins_ok (cx_c cx)" and ok: "hole_ok h" "hole_ok g"
    and apart: "\<not> BBox_intersects (h_bbox g) (BBox_inflate (h_bbox h) (clamp_nm (ro_hole_to_hole (c_rules (cx_c cx)) + margin (c_options (cx_c cx)))))"
  shows "hole_pair E cx h g = None"
proof -
  have e: "(0::int) = 0 \<or> (0::int) = arc_extra (c_options (cx_c cx))" by simp
  have "gap_cmp (h_shape h) (h_shape g) (ro_hole_to_hole (c_rules (cx_c cx)) + margin (c_options (cx_c cx))) = Greater"
    using ok apart limits(7,8) [OF lim e e] clamp_nm
    by (intro gap_cmp_far [where r = "clamp_nm (ro_hole_to_hole (c_rules (cx_c cx)) + margin (c_options (cx_c cx)))"])
       (simp_all add: hole_ok_def solid_placeable BBox_intersects_commute)
  then show ?thesis by (simp add: hole_pair_def Let_def)
qed

lemma drop_upt: "concat (map (\<lambda>j. if j \<le> i then [] else f (xs ! j)) [0..<length xs]) = concat (map f (drop (Suc i) xs))"
proof -
  have up: "drop (Suc i) xs = map (nth xs) [Suc i..<length xs]" by (rule nth_equalityI) simp_all
  have "concat (map (\<lambda>j. if j \<le> i then [] else f (xs ! j)) [0..<length xs]) = concat (map (\<lambda>j. f (xs ! j)) [Suc i..<length xs])"
  proof (cases "Suc i \<le> length xs")
    case True
    then have "[0..<length xs] = [0..<Suc i] @ [Suc i..<length xs]" by (metis le0 le_Suc_ex upt_add_eq_append)
    moreover have "concat (map (\<lambda>j. if j \<le> i then [] else f (xs ! j)) [0..<Suc i]) = []" by (auto simp: concat_eq_Nil_conv)
    moreover have "concat (map (\<lambda>j. if j \<le> i then [] else f (xs ! j)) [Suc i..<length xs]) = concat (map (\<lambda>j. f (xs ! j)) [Suc i..<length xs])"
      by (intro arg_cong [where f = concat] map_cong) auto
    ultimately show ?thesis by simp
  next
    case False
    then show ?thesis by (auto simp: concat_eq_Nil_conv)
  qed
  then show ?thesis by (simp add: up comp_def)
qed

lemma all_upt: "concat (map (\<lambda>j. f (xs ! j)) [0..<length xs]) = concat (map f xs)"
proof -
  have "map (\<lambda>j. f (xs ! j)) [0..<length xs] = map f xs" by (rule nth_equalityI) simp_all
  then show ?thesis by simp
qed

text \<open>Both kinds of query of a check, as scans of the objects or holes behind the index.\<close>

lemma scan_later:
  assumes "rtree_law R contents" "length xs \<le> 2 ^ 32" "\<And>y. y \<in> set xs \<Longrightarrow> \<not> BBox_intersects (box y) q \<Longrightarrow> f y = []"
  shows "mset (concat (map (\<lambda>e. if entry_id e \<le> i then [] else f (xs ! entry_id e)) (LayerIndex_query_entries R (index_of R (map box xs)) q))) =
    mset (concat (map f (drop (Suc i) xs)))"
  using query_scan [OF assms(1), of "map box xs" q "\<lambda>j. if j \<le> i then [] else f (xs ! j)"] assms(2,3) by (simp add: drop_upt)

lemma scan_all:
  assumes "rtree_law R contents" "length xs \<le> 2 ^ 32" "\<And>y. y \<in> set xs \<Longrightarrow> \<not> BBox_intersects (box y) q \<Longrightarrow> f y = []"
  shows "mset (concat (map (\<lambda>e. f (xs ! entry_id e)) (LayerIndex_query_entries R (index_of R (map box xs)) q))) = mset (concat (map f xs))"
  using query_scan [OF assms(1), of "map box xs" q "\<lambda>j. f (xs ! j)"] assms(2,3) by (simp add: all_upt)

lemma objs_index: "objs_ok R lo \<Longrightarrow> lo_index lo = index_of R (map o_bbox (lo_objs lo))"
  by (metis LayerObjs_finish_def layer_objs.select_convs(2) objs_ok_def)

lemma holes_index: "holes_ok R hs \<Longrightarrow> hs_index hs = index_of R (map h_bbox (hs_holes hs))"
  by (metis Holes_finish_def hole_set.select_convs(2) holes_ok_def)

lemma job_in:
  assumes "(l, routed, i) \<in> set (jobs cx)"
  shows "l < length (c_layers (cx_c cx))" and "i < length (lo_objs (own_set cx l routed))"
    and "own_set cx l routed \<in> set (c_layers (cx_c cx)) \<union> set (cx_rlayers cx)" and "\<not> routed \<Longrightarrow> \<not> cx_routed cx"
proof -
  have j: "l < length (c_layers (cx_c cx)) \<and>
     (\<not> routed \<and> \<not> cx_routed cx \<and> i < length (lo_objs (c_layers (cx_c cx) ! l)) \<or>
      routed \<and> l < length (cx_rlayers cx) \<and> i < length (lo_objs (cx_rlayers cx ! l)))"
    using assms unfolding jobs_def set_concat set_map nth_opt_def by (cases "cx_routed cx") (auto split: if_split_asm)
  then show "l < length (c_layers (cx_c cx))" "i < length (lo_objs (own_set cx l routed))" "\<not> routed \<Longrightarrow> \<not> cx_routed cx"
    by (auto simp: own_set_def)
  show "own_set cx l routed \<in> set (c_layers (cx_c cx)) \<union> set (cx_rlayers cx)"
    using j by (cases routed) (simp_all add: own_set_def)
qed

lemma copper_pairs_scan:
  assumes law: "rtree_law (ce_rtree E) contents" and ok: "ctx_ok E cx"
  shows "mset (copper_pairs E cx) = mset (copper_pairs_all E cx)"
  unfolding copper_pairs_def copper_pairs_all_def
proof (rule mset_concat_cong)
  fix t assume t: "t \<in> set (jobs cx)"
  obtain l routed i where lri: "t = (l, routed, i)" by (cases t)
  let ?R = "ce_rtree E" and ?board = "c_layers (cx_c cx) ! l"
  define mine where "mine = own_set cx l routed"
  note j = job_in [OF t [unfolded lri], folded mine_def]
  have bd: "bounded (cx_c cx) (pair_clearance cx (o_subject y) (o_subject z) l)" if "y \<in> ctx_objs cx" "z \<in> ctx_objs cx" for y z
    using ok that by (simp add: ctx_ok_def)
  have lim: "margins_ok (cx_c cx)" and mine: "objs_ok ?R mine" "extras_ok (cx_c cx) mine" and board: "objs_ok ?R ?board" "extras_ok (cx_c cx) ?board"
    using ok j(1,3) unfolding ctx_ok_def by auto
  define x where "x = lo_objs mine ! i"
  have x: "obj_ok ?R x" "o_extra x = 0 \<or> o_extra x = arc_extra (c_options (cx_c cx))" using mine j(2) by (auto simp: x_def objs_ok_def extras_ok_def)
  let ?f = "\<lambda>y. option_list (test_pair E cx l x y)" and ?q = "BBox_inflate (o_bbox x) (pair_reach cx)"
  have x': "x \<in> ctx_objs cx" using nth_mem [OF j(2)] j(3) by (auto simp: ctx_objs_def x_def)
  have far: "?f y = []" if "objs_ok ?R lo" "extras_ok (cx_c cx) lo" "lo \<in> set (c_layers (cx_c cx)) \<union> set (cx_rlayers cx)"
    "y \<in> set (lo_objs lo)" "\<not> BBox_intersects (o_bbox y) ?q" for y lo
  proof -
    have "y \<in> ctx_objs cx" using that(3,4) by (auto simp: ctx_objs_def)
    then show ?thesis
      using test_pair_far [OF law lim x(1) _ x(2) _ bd [OF x'] that(5)] that(1,2,4) by (simp add: objs_ok_def extras_ok_def option_list_def)
  qed
  have len: "length (lo_objs mine) \<le> 2 ^ 32" "length (lo_objs ?board) \<le> 2 ^ 32" using mine(1) board(1) by (simp_all add: objs_ok_def)
  have "mset (concat (map (\<lambda>e. if entry_id e \<le> i then [] else ?f (lo_objs mine ! entry_id e)) (LayerIndex_query_entries ?R (index_of ?R (map o_bbox (lo_objs mine))) ?q))) =
      mset (concat (map ?f (drop (Suc i) (lo_objs mine))))"
    by (rule scan_later [OF law len(1)]) (rule far [OF mine j(3)])
  moreover have "mset (concat (map (\<lambda>e. ?f (lo_objs ?board ! entry_id e)) (LayerIndex_query_entries ?R (index_of ?R (map o_bbox (lo_objs ?board))) ?q))) =
      mset (concat (map ?f (lo_objs ?board)))"
    by (rule scan_all [OF law len(2)]) (rule far [OF board UnI1 [OF nth_mem [OF j(1)]]])
  ultimately show "mset (job_pairs E cx t) = mset (job_pairs_all E cx t)"
    unfolding job_pairs_def job_pairs_all_def Let_def lri prod.case mine_def [symmetric] x_def [symmetric] objs_index [OF mine(1)] objs_index [OF board(1)]
    by (simp only: mset_append if_distrib [of mset])
qed

lemma violation_key_inj: "inj violation_key"
proof -
  have i: "inj item_key"
    by (rule injI) (auto simp: item_key_def split: checked_item.splits item_ref.splits)
  have k: "inj kind_order" by (rule injI) (auto simp: kind_order_def split: violation_kind.splits)
  show ?thesis
    by (rule injI) (auto simp: violation_key_def intro!: violation.equality point.equality dest: injD [OF i] injD [OF k] injD [OF option.inj_map [OF i]])
qed

lemma hole_clearance_scan:
  assumes law: "rtree_law (ce_rtree E) contents" and ok: "ctx_ok E cx"
  shows "mset (hole_clearance_check E cx) = mset (hole_clearance_all E cx)"
proof -
  let ?R = "ce_rtree E" and ?c = "cx_c cx"
  define reach where "reach = clamp_nm (ro_hole_clearance (c_rules ?c) + margin (c_options ?c) + arc_extra (c_options ?c))"
  have lim: "margins_ok ?c" and layers: "\<And>lo. lo \<in> set (c_layers ?c) \<union> set (cx_rlayers cx) \<Longrightarrow> objs_ok ?R lo \<and> extras_ok ?c lo"
    and holes: "holes_ok ?R (c_holes ?c)" "holes_ok ?R (cx_rholes cx)" using ok by (simp_all add: ctx_ok_def)
  have obj: "obj_ok ?R x" "o_extra x = 0 \<or> o_extra x = arc_extra (c_options ?c)"
    if "lo \<in> set (c_layers ?c) \<union> set (cx_rlayers cx)" "x \<in> set (lo_objs lo)" for lo x
    using layers [OF that(1)] that(2) by (auto simp: objs_ok_def extras_ok_def)
  have far: "option_list (hole_test E cx l x h) = []"
    if "obj_ok ?R x" "o_extra x = 0 \<or> o_extra x = arc_extra (c_options ?c)" "hole_ok h"
      "\<not> BBox_intersects (h_bbox h) (BBox_inflate (o_bbox x) reach) \<or> \<not> BBox_intersects (o_bbox x) (BBox_inflate (h_bbox h) reach)" for l x h
    using hole_test_far [OF law lim that(1,3,2) reach_def that(4)] by (simp add: option_list_def)
  have near: "mset (concat (map (\<lambda>e. option_list (hole_test E cx l x (hs_holes hs ! entry_id e)))
      (LayerIndex_query_entries ?R (index_of ?R (map h_bbox (hs_holes hs))) (BBox_inflate (o_bbox x) reach)))) =
    mset (concat (map (\<lambda>h. option_list (hole_test E cx l x h)) (hs_holes hs)))"
    if "holes_ok ?R hs" "obj_ok ?R x" "o_extra x = 0 \<or> o_extra x = arc_extra (c_options ?c)" for hs l x
    using that(1) by (intro scan_all [OF law] far [OF that(2,3)] disjI1) (auto simp: holes_ok_def list_all_iff)
  have around: "mset (concat (map (\<lambda>e. option_list (hole_test E cx l (lo_objs lo ! entry_id e) h))
      (LayerIndex_query_entries ?R (index_of ?R (map o_bbox (lo_objs lo))) (BBox_inflate (h_bbox h) reach)))) =
    mset (concat (map (\<lambda>x. option_list (hole_test E cx l x h)) (lo_objs lo)))"
    if "lo \<in> set (c_layers ?c)" "hole_ok h" for lo l h
    using layers [of lo] that by (intro scan_all [OF law] far [OF obj(1) obj(2)] disjI2) (auto simp: objs_ok_def)
  have jobs: "mset (concat (map (\<lambda>(l, routed, i). let x = lo_objs (own_set cx l routed) ! i
        in (if \<not> cx_routed cx \<or> routed then concat (map (\<lambda>e. option_list (hole_test E cx l x (hs_holes (c_holes ?c) ! entry_id e)))
             (LayerIndex_query_entries ?R (hs_index (c_holes ?c)) (BBox_inflate (o_bbox x) reach))) else []) @
           concat (map (\<lambda>e. option_list (hole_test E cx l x (hs_holes (cx_rholes cx) ! entry_id e)))
             (LayerIndex_query_entries ?R (hs_index (cx_rholes cx)) (BBox_inflate (o_bbox x) reach)))) (jobs cx))) =
    mset (concat (map (\<lambda>(l, routed, i). let x = lo_objs (own_set cx l routed) ! i
        in (if \<not> cx_routed cx \<or> routed then concat (map (\<lambda>h. option_list (hole_test E cx l x h)) (hs_holes (c_holes ?c))) else []) @
           concat (map (\<lambda>h. option_list (hole_test E cx l x h)) (hs_holes (cx_rholes cx)))) (jobs cx)))"
  proof (rule mset_concat_cong)
    fix t assume t: "t \<in> set (jobs cx)"
    obtain l routed i where lri: "t = (l, routed, i)" by (cases t)
    note j = job_in [OF t [unfolded lri]]
    note x = obj [OF j(3) nth_mem [OF j(2)]]
    show "mset (case t of (l, routed, i) \<Rightarrow> let x = lo_objs (own_set cx l routed) ! i
        in (if \<not> cx_routed cx \<or> routed then concat (map (\<lambda>e. option_list (hole_test E cx l x (hs_holes (c_holes ?c) ! entry_id e)))
             (LayerIndex_query_entries ?R (hs_index (c_holes ?c)) (BBox_inflate (o_bbox x) reach))) else []) @
           concat (map (\<lambda>e. option_list (hole_test E cx l x (hs_holes (cx_rholes cx) ! entry_id e)))
             (LayerIndex_query_entries ?R (hs_index (cx_rholes cx)) (BBox_inflate (o_bbox x) reach)))) =
      mset (case t of (l, routed, i) \<Rightarrow> let x = lo_objs (own_set cx l routed) ! i
        in (if \<not> cx_routed cx \<or> routed then concat (map (\<lambda>h. option_list (hole_test E cx l x h)) (hs_holes (c_holes ?c))) else []) @
           concat (map (\<lambda>h. option_list (hole_test E cx l x h)) (hs_holes (cx_rholes cx))))"
      unfolding lri prod.case Let_def holes_index [OF holes(1)] holes_index [OF holes(2)] mset_append if_distrib [of mset]
        near [OF holes(1) x] near [OF holes(2) x] ..
  qed
  have vias: "mset (concat (map (\<lambda>h. concat (map (\<lambda>l. case nth_opt (c_layers ?c) l of None \<Rightarrow> []
       | Some lo \<Rightarrow> concat (map (\<lambda>e. option_list (hole_test E cx l (lo_objs lo ! entry_id e) h))
           (LayerIndex_query_entries ?R (lo_index lo) (BBox_inflate (h_bbox h) reach)))) (LayerMask_iter (h_layers h)))) (hs_holes (cx_rholes cx)))) =
    mset (concat (map (\<lambda>h. concat (map (\<lambda>l. case nth_opt (c_layers ?c) l of None \<Rightarrow> []
       | Some lo \<Rightarrow> concat (map (\<lambda>x. option_list (hole_test E cx l x h)) (lo_objs lo))) (LayerMask_iter (h_layers h)))) (hs_holes (cx_rholes cx))))"
  proof (intro mset_concat_cong)
    fix h l assume h: "h \<in> set (hs_holes (cx_rholes cx))"
    have "hole_ok h" using holes(2) h by (auto simp: holes_ok_def list_all_iff)
    moreover have lo: "lo \<in> set (c_layers ?c)" if "nth_opt (c_layers ?c) l = Some lo" for lo
      using that by (auto simp: nth_opt_def split: if_splits)
    moreover have "lo_index lo = index_of ?R (map o_bbox (lo_objs lo))" if "nth_opt (c_layers ?c) l = Some lo" for lo
      using objs_index layers [of lo] lo [OF that] by blast
    ultimately show "mset (case nth_opt (c_layers ?c) l of None \<Rightarrow> []
       | Some lo \<Rightarrow> concat (map (\<lambda>e. option_list (hole_test E cx l (lo_objs lo ! entry_id e) h))
           (LayerIndex_query_entries ?R (lo_index lo) (BBox_inflate (h_bbox h) reach)))) =
      mset (case nth_opt (c_layers ?c) l of None \<Rightarrow> [] | Some lo \<Rightarrow> concat (map (\<lambda>x. option_list (hole_test E cx l x h)) (lo_objs lo)))"
      by (auto simp only: around split: option.split)
  qed
  show ?thesis
    unfolding hole_clearance_check_def hole_clearance_all_def Let_def reach_def [symmetric] mset_append if_distrib [of mset]
      jobs [unfolded Let_def] vias ..
qed

lemma hole_to_hole_scan:
  assumes law: "rtree_law (ce_rtree E) contents" and ok: "ctx_ok E cx"
  shows "mset (hole_to_hole_check E cx) = mset (hole_to_hole_all E cx)"
proof -
  let ?R = "ce_rtree E" and ?c = "cx_c cx"
  define reach where "reach = clamp_nm (ro_hole_to_hole (c_rules ?c) + margin (c_options ?c))"
  have lim: "margins_ok ?c" and holes: "holes_ok ?R (c_holes ?c)" "holes_ok ?R (cx_rholes cx)" using ok by (simp_all add: ctx_ok_def)
  have far: "option_list (hole_pair E cx h g) = []" if "hole_ok h" "hole_ok g" "\<not> BBox_intersects (h_bbox g) (BBox_inflate (h_bbox h) reach)" for h g
    using hole_pair_far [OF lim that(1,2)] that(3) by (simp add: option_list_def reach_def)
  have hit: "hole_ok g" "length (hs_holes hs) \<le> 2 ^ 32" if "holes_ok ?R hs" "g \<in> set (hs_holes hs)" for hs g
    using that by (auto simp: holes_ok_def list_all_iff)
  have later: "mset (concat (map (\<lambda>e. if i < entry_id e then option_list (hole_pair E cx (hs_holes hs ! i) (hs_holes hs ! entry_id e)) else [])
      (LayerIndex_query_entries ?R (hs_index hs) (BBox_inflate (h_bbox (hs_holes hs ! i)) reach)))) =
    mset (concat (map (\<lambda>g. option_list (hole_pair E cx (hs_holes hs ! i) g)) (drop (Suc i) (hs_holes hs))))"
    if "holes_ok ?R hs" "i < length (hs_holes hs)" for hs i
  proof -
    note h = hit [OF that(1) nth_mem [OF that(2)]]
    have flip: "(\<lambda>e. if i < entry_id e then f e else []) = (\<lambda>e. if entry_id e \<le> i then [] else f e)" for f :: "index_entry \<Rightarrow> violation list"
      by auto
    show ?thesis unfolding holes_index [OF that(1)] flip
      by (rule scan_later [OF law h(2)]) (rule far [OF h(1) hit(1) [OF that(1)]])
  qed
  have across: "mset (concat (map (\<lambda>e. option_list (hole_pair E cx h (hs_holes hs ! entry_id e)))
      (LayerIndex_query_entries ?R (hs_index hs) (BBox_inflate (h_bbox h) reach)))) =
    mset (concat (map (\<lambda>g. option_list (hole_pair E cx h g)) (hs_holes hs)))"
    if "holes_ok ?R hs" "hole_ok h" for hs h
    unfolding holes_index [OF that(1)] using that by (intro scan_all [OF law]) (auto simp: holes_ok_def list_all_iff intro: far)
  show ?thesis
    unfolding hole_to_hole_check_def hole_to_hole_all_def Let_def reach_def [symmetric] mset_append if_distrib [of mset] if_True if_False
    using later holes across hit(1)
    by (intro arg_cong2 [where f = "(+)"] if_cong refl mset_concat_cong) auto
qed

end
