(* ===== verification/Check_Report.thy ===== *)
theory Check_Report
  imports Check_Index
begin

text \<open>
  From a board to its report: the objects, holes and rule subjects that the checker of \<open>Board_Check\<close> builds are those of the
  items of the board and of the routed copper, they meet what \<open>Check_Index\<close> asks for, and so the report is exact.
\<close>

section \<open>Subjects\<close>

lemma intern_all_spec:
  assumes "intern_all ds seen = (seen', ids)" "length seen + length ds \<le> 2 ^ 32"
  shows "(\<exists>more. seen' = seen @ more) \<and> set seen' \<subseteq> set seen \<union> set ds \<and> length seen' \<le> length seen + length ds \<and> length ids = length ds \<and>
    (\<forall>k < length ds. ids ! k < length seen' \<and> case_prod subject_key (seen' ! (ids ! k)) = case_prod subject_key (ds ! k))"
  using assms
proof (induction ds seen arbitrary: seen' ids rule: intern_all.induct)
  case (2 d as ds seen)
  have small: "as_u32 i = i" if "i \<le> length seen" for i using that 2(4) by simp
  show ?case
  proof (cases "position (\<lambda>(d', as'). subject_key d' as' = subject_key d as) seen")
    case (Some i)
    obtain ids' where r: "intern_all ds seen = (seen', ids')" by (cases "intern_all ds seen") (use 2(3) Some in auto)
    have i: "i < length seen" "case_prod subject_key (seen ! i) = subject_key d as" using position_less [OF Some] by (auto split: prod.splits)
    have ids: "ids = i # ids'" using 2(3) Some small [of i] i(1) by (simp add: r del: of_nat_less_iff)
    have len: "length seen + length ds \<le> 2 ^ 32" using 2(4) by simp
    note IH = 2(2) [OF Some r len]
    obtain more where more: "seen' = seen @ more" using IH by blast
    have "ids ! k < length seen' \<and> case_prod subject_key (seen' ! (ids ! k)) = case_prod subject_key (((d, as) # ds) ! k)" if "k < length ((d, as) # ds)" for k
      using that IH i more by (cases k) (simp_all add: ids nth_append)
    then show ?thesis using IH by (auto simp: ids)
  next
    case None
    obtain ids' where r: "intern_all ds (seen @ [(d, as)]) = (seen', ids')" by (cases "intern_all ds (seen @ [(d, as)])") (use 2(3) None in auto)
    have ids: "ids = length seen # ids'" using 2(3) None small [of "length seen"] by (simp add: r)
    have len: "length (seen @ [(d, as)]) + length ds \<le> 2 ^ 32" using 2(4) by simp
    note IH = 2(1) [OF None r len]
    obtain more where more: "seen' = (seen @ [(d, as)]) @ more" using IH by blast
    have "ids ! k < length seen' \<and> case_prod subject_key (seen' ! (ids ! k)) = case_prod subject_key (((d, as) # ds) ! k)" if "k < length ((d, as) # ds)" for k
      using that IH more by (cases k) (simp_all add: ids nth_append)
    then show ?thesis using IH by (auto simp: ids more)
  qed
qed simp

lemma subject_key_of:
  assumes "case_prod subject_key (subject_of E courts ix areas sp) = case_prod subject_key (subject_of E courts ix areas sp')"
  shows "fst (subject_of E courts ix areas sp) = fst (subject_of E courts ix areas sp')"
  using assms by (auto simp: subject_of_def subject_key_def Let_def split: prod.splits)

lemma subject_of_local: "rs_local (fst (subject_of E courts ix areas sp)) = sp_local sp"
  by (simp add: subject_of_def Let_def split: prod.splits)

text \<open>The id of every item leads to its own subject.\<close>

lemma interned:
  assumes "intern_all (map (subject_of E courts ix areas) specs) [] = (seen, ids)" "length specs \<le> 2 ^ 32"
  shows "list_all2 (\<lambda>sp i. i < length seen \<and> fst (seen ! i) = fst (subject_of E courts ix areas sp)) specs ids"
proof -
  note S = intern_all_spec [OF assms(1)]
  have len: "length ids = length specs" and sub: "set seen \<subseteq> subject_of E courts ix areas ` set specs" using S assms(2) by auto
  have "ids ! k < length seen \<and> fst (seen ! (ids ! k)) = fst (subject_of E courts ix areas (specs ! k))" if k: "k < length specs" for k
  proof -
    have i: "ids ! k < length seen" "case_prod subject_key (seen ! (ids ! k)) = case_prod subject_key (subject_of E courts ix areas (specs ! k))"
      using S assms(2) k by auto
    obtain sp where "seen ! (ids ! k) = subject_of E courts ix areas sp" using sub nth_mem [OF i(1)] by auto
    then show ?thesis using i subject_key_of by metis
  qed
  then show ?thesis using len by (simp add: list_all2_conv_all_nth)
qed

section \<open>Placing objects\<close>

lemma place_objs_spec:
  assumes "place_objs xs per = Some per'"
  shows "length per' = length per \<and> (\<forall>l < length per. set (per' ! l) = set (per ! l) \<union> {x. \<exists>s. (l, s, x) \<in> set xs})"
  using assms
proof (induction xs per rule: place_objs.induct)
  case (2 l s x xs per)
  show ?case
  proof (cases "l < length per")
    case True
    then have "place_objs xs (per[l := per ! l @ [x]]) = Some per'" using 2(3) by simp
    note IH = 2(1) [OF True this]
    have "set (per' ! l') = set (per ! l') \<union> {y. \<exists>s'. (l', s', y) \<in> set ((l, s, x) # xs)}" if "l' < length per" for l'
      using IH that by (cases "l' = l") auto
    then show ?thesis using IH by simp
  next
    case False
    then have s: "\<not> s" and r: "place_objs xs per = Some per'" using 2(3) by (auto split: if_splits)
    note IH = 2(2) [OF False s r]
    have "set (per' ! l') = set (per ! l') \<union> {y. \<exists>s'. (l', s', y) \<in> set ((l, s, x) # xs)}" if "l' < length per" for l'
      using IH that False by auto
    then show ?thesis using IH by simp
  qed
qed simp

lemma place_lenient: "(\<And>l s x. (l, s, x) \<in> set xs \<Longrightarrow> \<not> s) \<Longrightarrow> \<exists>per'. place_objs xs per = Some per'"
proof (induction xs arbitrary: per)
  case (Cons t xs)
  obtain l s x where t: "t = (l, s, x)" by (cases t)
  have "\<not> s" using Cons.prems t by (metis list.set_intros(1))
  then show ?case using Cons t by (cases "l < length per") (auto simp: t intro!: Cons)
qed simp

section \<open>The items behind the objects\<close>

text \<open>The region of the copper of an item, and the items of a board and of routed copper.\<close>

definition spec_regions :: "'tr item_spec \<Rightarrow> shape list" where
  "spec_regions sp = sp_shapes sp @ (case sp_zone sp of Some (_, p) \<Rightarrow> [Polygon (ip_poly p)] | None \<Rightarrow> [])"

definition board_items :: "'tr check_env \<Rightarrow> check_options \<Rightarrow> route_board \<Rightarrow> (src \<times> 'tr item_spec) list" where
  "board_items E opt b =
     map (\<lambda>t. (Src_Board (Ref_Track (track_ident t)), track_spec t)) (tracks b) @
     map (\<lambda>a. (Src_Board (Ref_Arc (arc_ident a)), arc_spec E a)) (arcs b) @
     map (\<lambda>v. (Src_Board (Ref_Via (via_ident v)), via_spec v)) (vias b) @
     map (\<lambda>p. (Src_Board (Ref_Pad (pad_ident p)), pad_spec p)) (pads b) @
     concat (map (\<lambda>z. case zone_spec opt b (zone_polys E opt b) z of None \<Rightarrow> [] | Some sp \<Rightarrow> [(Src_Board (Ref_Zone (zone_ident z)), sp)]) (zones b))"

definition routed_items :: "routed_copper \<Rightarrow> (src \<times> 'tr item_spec) list" where
  "routed_items rc = zip (map Src_RoutedTrack [0..<length (rc_tracks rc)] @ map Src_RoutedVia [0..<length (rc_vias rc)]) (routed_specs rc)"

definition own_subject :: "'tr check_env \<Rightarrow> 'tr board_checker \<Rightarrow> 'tr item_spec \<Rightarrow> rule_subject" where
  "own_subject E c sp = fst (subject_of E (c_courtyards c) (c_courtyard_index c) (c_areas c) sp)"

text \<open>An object made for a region of an item: its subject is the item's, and an arc's chords carry the chord error.\<close>

definition knows :: "'tr check_env \<Rightarrow> 'tr board_checker \<Rightarrow> 'tr item_spec \<Rightarrow> nat \<Rightarrow> bool" where
  "knows E c sp i \<longleftrightarrow> i < length (c_subjects c) \<and> c_subjects c ! i = own_subject E c sp"

definition object_of :: "check_options \<Rightarrow> src \<Rightarrow> 'tr item_spec \<Rightarrow> shape \<Rightarrow> 'tr check_obj \<Rightarrow> bool" where
  "object_of opt s sp r x \<longleftrightarrow> o_src x = s \<and> o_net x = sp_net sp \<and> geom_shape (o_geom x) = r \<and>
     o_extra x = (if sp_kind sp = Kind_Arc then arc_extra opt else 0)"

text \<open>What the check asks of a board and of routed copper: shapes inside the coordinates, pads and holes without inner holes.\<close>

definition board_ok :: "'tr check_env \<Rightarrow> route_board \<Rightarrow> bool" where
  "board_ok E b \<longleftrightarrow> list_all (\<lambda>t. segment_ok (track_seg t)) (tracks b) \<and>
     list_all (\<lambda>a. list_all segment_ok (ArcTrack_segments (ce_arc E) a)) (arcs b) \<and>
     list_all (\<lambda>v. shape_ok (Via_shape v) \<and> shape_ok (Via_hole v)) (vias b) \<and>
     list_all (\<lambda>p. list_all (\<lambda>s. shape_ok s \<and> solid s) (pad_shapes p) \<and>
       (case pad_drill p of None \<Rightarrow> True | Some d \<Rightarrow> shape_ok (drill_shape d) \<and> solid (drill_shape d))) (pads b) \<and>
     list_all (\<lambda>z. indexable (zone_region z)) (zones b) \<and>
     int (length (tracks b) + length (arcs b) + length (vias b) + length (pads b) + length (zones b)) < 2 ^ 32"

lemma list_all2_zip: "list_all2 P xs ys \<Longrightarrow> (x, y) \<in> set (zip xs ys) \<Longrightarrow> P x y"
  by (auto simp: list_all2_iff)

lemma those_all2: "those xs = Some ys \<Longrightarrow> list_all2 (\<lambda>x y. x = Some y) xs ys"
  by (induction xs arbitrary: ys) (auto split: option.splits)

lemma zip_covers: "list_all2 P xs ys \<Longrightarrow> x \<in> set xs \<Longrightarrow> \<exists>y. (x, y) \<in> set (zip xs ys)"
  by (auto simp: in_set_conv_nth set_zip list_all2_conv_all_nth)

text \<open>The parts of a built checker.\<close>

lemma checker_parts:
  assumes new: "BoardChecker_new E b rules opt = Some c" and fit: "board_ok E b"
  obtains zs and subs :: item_subjects and per where
    "c_board c = b" "c_rules c = rules" "c_options c = opt" "c_layers c = map (LayerObjs_finish (ce_rtree E)) per"
    "c_reach c = ro_max_clearance rules + safety_margin_nm opt + arc_extra opt"
    "c_holes c = Holes_finish (ce_rtree E) (map via_hole (vias b) @ concat (map (pad_holes (LayerTable_all (layer_table_of b))) (pads b)))"
    "those (map (zone_spec opt b (zone_polys E opt b)) (zones b)) = Some zs"
    "list_all2 (\<lambda>t. knows E c (track_spec t)) (tracks b) (is_tracks subs)"
    "list_all2 (\<lambda>a. knows E c (arc_spec E a)) (arcs b) (is_arcs subs)"
    "list_all2 (\<lambda>v. knows E c (via_spec v)) (vias b) (is_vias subs)"
    "list_all2 (\<lambda>p. knows E c (pad_spec p)) (pads b) (is_pads subs)"
    "list_all2 (knows E c) zs (is_zones subs)"
    "place_objs (concat (map track_objs (zip (tracks b) (is_tracks subs))) @ concat (map (arc_objs E opt) (zip (arcs b) (is_arcs subs))) @
       concat (map via_objs (zip (vias b) (is_vias subs))) @ concat (map pad_objs (zip (pads b) (is_pads subs))) @
       concat (map (zone_objs opt) (zip (zones b) (zip (is_zones subs) zs)))) (replicate (layer_count b) []) = Some per"
    "length (c_subjects c) < 2 ^ 32"
proof -
  let ?courts = "board_courtyards b" and ?areas = "named_areas b"
  let ?ix = "index_of (ce_rtree E) (map (Shape_bbox \<circ> snd) ?courts)"
  let ?pre = "map track_spec (tracks b) @ map (arc_spec E) (arcs b) @ map via_spec (vias b) @ map pad_spec (pads b)"
  obtain specs where specs: "board_specs E opt b (zone_polys E opt b) = Some specs"
    using new by (auto simp: BoardChecker_new_def Let_def split: Option.bind_splits)
  obtain zs where zs: "those (map (zone_spec opt b (zone_polys E opt b)) (zones b)) = Some zs" "specs = ?pre @ zs"
    using specs by (auto simp: board_specs_def)
  obtain seen ids where i: "intern_all (map (subject_of E ?courts ?ix ?areas) specs) [] = (seen, ids)" by (cases "intern_all (map (subject_of E ?courts ?ix ?areas) specs) []")
  define subs where "subs = split_subjects b ids"
  obtain per where per: "place_objs (board_placements E opt b specs subs) (replicate (layer_count b) []) = Some per"
    and c: "c = \<lparr>c_board = b, c_rules = rules, c_options = opt, c_layers = map (LayerObjs_finish (ce_rtree E)) per,
              c_holes = Holes_finish (ce_rtree E) (map via_hole (vias b) @ concat (map (pad_holes (LayerTable_all (layer_table_of b))) (pads b))),
              c_edges = map Segment (out_edges (board_outline_of b)), c_edge_index = index_of (ce_rtree E) (map Shape_bbox (map Segment (out_edges (board_outline_of b)))),
              c_courtyards = ?courts, c_courtyard_index = ?ix,
              c_areas = ?areas, c_subjects = map fst seen, c_item_subjects = subs,
              c_reach = ro_max_clearance rules + safety_margin_nm opt + max 0 (max_error_nm opt),
              c_unfilled = length (filter (\<lambda>z. \<not> filled z) (zones b))\<rparr>"
    using new specs i by (auto simp: BoardChecker_new_def Let_def subs_def)
  have lz: "length zs = length (zones b)" using those_all2 [OF zs(1)] by (simp add: list_all2_lengthD [symmetric])
  have len: "length specs < 2 ^ 32" using fit lz by (simp add: board_ok_def zs(2))
  have own: "own_subject E c sp = fst (subject_of E ?courts ?ix ?areas sp)" for sp by (simp add: own_subject_def c)
  have cs: "c_subjects c = map fst seen" by (simp add: c)
  have all: "list_all2 (knows E c) specs ids"
    using interned [OF i less_imp_le [OF len]] by (rule list_all2_mono) (simp add: knows_def own cs)
  then obtain i1 i2 i3 i4 i5 where ids: "ids = i1 @ i2 @ i3 @ i4 @ i5"
    "list_all2 (knows E c) (map track_spec (tracks b)) i1" "list_all2 (knows E c) (map (arc_spec E) (arcs b)) i2"
    "list_all2 (knows E c) (map via_spec (vias b)) i3" "list_all2 (knows E c) (map pad_spec (pads b)) i4" "list_all2 (knows E c) zs i5"
    unfolding zs(2) list_all2_append1 append_assoc by blast
  note l = ids(2-6) [THEN list_all2_lengthD, unfolded length_map]
  have subs: "is_tracks subs = i1" "is_arcs subs = i2" "is_vias subs = i3" "is_pads subs = i4" "is_zones subs = i5"
    using l by (simp_all add: subs_def split_subjects_def Let_def ids(1))
  have few: "length (c_subjects c) < 2 ^ 32" using intern_all_spec [OF i] len by (auto simp: c)
  have pre: "drop (length specs - length (zones b)) specs = zs" by (simp add: zs(2) lz)
  show ?thesis
    using ids(2-5) by (intro that [of per zs subs] ids(6) few per [unfolded board_placements_def pre] zs(1))
      (simp_all add: subs list_all2_map1 ids(6), simp_all add: c arc_extra_def)
qed

text \<open>The objects of each kind of item.\<close>

lemma shape_obj_facts:
  "object_of opt s sp sh (shape_obj s n sub ex sh) \<longleftrightarrow> n = sp_net sp \<and> ex = (if sp_kind sp = Kind_Arc then arc_extra opt else 0)"
  "o_subject (shape_obj s n sub ex sh) = sub" "obj_ok R (shape_obj s n sub ex sh) \<longleftrightarrow> shape_ok sh \<and> solid sh"
  by (auto simp: object_of_def shape_obj_def obj_ok_def)

lemma spec_fields:
  "sp_net (track_spec t) = track_net t" "sp_kind (track_spec t) = Kind_Track" "sp_layers (track_spec t) = LayerMask_single (track_layer t)" "spec_regions (track_spec t) = [track_shape t]"
  "sp_net (arc_spec E a) = arc_net a" "sp_kind (arc_spec E a) = Kind_Arc" "sp_layers (arc_spec E a) = LayerMask_single (arc_layer a)" "spec_regions (arc_spec E a) = arc_shapes E a"
  "sp_net (via_spec v) = via_net v" "sp_kind (via_spec v) = Kind_Via" "sp_layers (via_spec v) = via_layers v" "spec_regions (via_spec v) = [Via_shape v]"
  "sp_net (pad_spec p) = pad_net p" "sp_kind (pad_spec p) = Kind_Pad"
  "sp_layers (pad_spec p) = (if pad_has_copper p then pad_layers p else LayerMask_EMPTY)" "spec_regions (pad_spec p) = (if pad_has_copper p then pad_shapes p else [])"
  by (simp_all add: track_spec_def arc_spec_def via_spec_def pad_spec_def plain_spec_def spec_regions_def)

lemma zone_spec_fields:
  assumes "zone_spec opt b (zone_polys E opt b) z = Some sp" "board_ok E b"
  shows "sp_net sp = zone_net z" "sp_kind sp = Kind_Zone" "sp_layers sp = LayerMask_single (zone_layer z)" "sp_local sp = None" "sp_shapes sp = []"
    and "sp_zone sp = Some (nm, p) \<Longrightarrow> indexable (ip_poly p) \<and> p = IndexedPolygon_new (ce_rtree E) (ip_poly p)"
proof -
  show "sp_net sp = zone_net z" "sp_kind sp = Kind_Zone" "sp_layers sp = LayerMask_single (zone_layer z)" "sp_local sp = None" "sp_shapes sp = []"
    using assms(1) by (auto simp: zone_spec_def plain_spec_def Let_def split: if_splits)
  assume "sp_zone sp = Some (nm, p)"
  then have "zone_at (zone_polys E opt b) (zone_ident z) = Some p" using assms(1) by (auto simp: zone_spec_def plain_spec_def Let_def split: if_splits)
  then have "Some p \<in> set (zone_polys E opt b)"
    unfolding zone_at_def nth_opt_def by (metis nth_mem option.distinct(1) option.simps(4,5))
  then obtain z' where z': "z' \<in> set (zones b)" "p = IndexedPolygon_new (ce_rtree E) (zone_region z')"
    by (auto simp: zone_polys_def split: if_split_asm)
  then show "indexable (ip_poly p) \<and> p = IndexedPolygon_new (ce_rtree E) (ip_poly p)"
    using assms(2) by (auto simp: board_ok_def list_all_iff ip_fields)
qed

lemma zone_objs_facts:
  assumes "zone_spec opt b (zone_polys E opt b) z = Some sp" "board_ok E b" "knows E c sp sub"
  shows "(l, st, x) \<in> set (zone_objs opt (z, sub, sp)) \<Longrightarrow> obj_ok (ce_rtree E) x \<and> knows E c sp (o_subject x) \<and> l = zone_layer z \<and>
      (\<exists>r \<in> set (spec_regions sp). object_of opt (Src_Board (Ref_Zone (zone_ident z))) sp r x)"
    and "r \<in> set (spec_regions sp) \<Longrightarrow> LayerMask_contains (sp_layers sp) l \<Longrightarrow>
      \<exists>st x. (l, st, x) \<in> set (zone_objs opt (z, sub, sp)) \<and> object_of opt (Src_Board (Ref_Zone (zone_ident z))) sp r x \<and> knows E c sp (o_subject x)"
proof -
  note F = zone_spec_fields [OF assms(1,2)]
  have ix: "indexable (ip_poly p)" "p = IndexedPolygon_new (ce_rtree E) (ip_poly p)" "ip_bbox p = Polygon_bbox (ip_poly p)"
    if "sp_zone sp = Some (nm, p)" for nm p using F(6) [OF that] ip_fields(1) [of "ce_rtree E" "ip_poly p"] by simp_all
  show "obj_ok (ce_rtree E) x \<and> knows E c sp (o_subject x) \<and> l = zone_layer z \<and> (\<exists>r \<in> set (spec_regions sp). object_of opt (Src_Board (Ref_Zone (zone_ident z))) sp r x)"
    if "(l, st, x) \<in> set (zone_objs opt (z, sub, sp))"
  proof (cases "sp_zone sp")
    case (Some np)
    obtain nm p where np: "np = (nm, p)" by (cases np)
    show ?thesis using that Some ix [OF Some [unfolded np]] assms(3) F(1,2) by (simp add: np zone_objs_def spec_regions_def object_of_def obj_ok_def)
  qed (use that in \<open>simp add: zone_objs_def\<close>)
  show "\<exists>st x. (l, st, x) \<in> set (zone_objs opt (z, sub, sp)) \<and> object_of opt (Src_Board (Ref_Zone (zone_ident z))) sp r x \<and> knows E c sp (o_subject x)"
    if "r \<in> set (spec_regions sp)" "LayerMask_contains (sp_layers sp) l"
  proof (cases "sp_zone sp")
    case (Some np)
    obtain nm p where np: "np = (nm, p)" by (cases np)
    show ?thesis using that Some assms(3) F(1,2,3,5) by (auto simp: np zone_objs_def spec_regions_def object_of_def mask_contains bit_single)
  qed (use that F(5) in \<open>simp add: spec_regions_def\<close>)
qed

text \<open>Every object of a layer belongs to an item on that layer (layer sets have 32 bits), and every region of an item on a
  layer is an object of it.\<close>

definition on_layer :: "'tr item_spec \<Rightarrow> layer_id \<Rightarrow> bool" where
  "on_layer sp l \<longleftrightarrow> (l < 32 \<longrightarrow> LayerMask_contains (sp_layers sp) l)"

lemma on_layer_bit: "on_layer sp l \<longleftrightarrow> (l < 32 \<longrightarrow> bit (sp_layers sp) l)"
  by (auto simp: on_layer_def mask_contains)

definition stands_for :: "'tr check_env \<Rightarrow> 'tr board_checker \<Rightarrow> src \<Rightarrow> 'tr item_spec \<Rightarrow> shape \<Rightarrow> 'tr check_obj \<Rightarrow> bool" where
  "stands_for E c s sp r x \<longleftrightarrow> object_of (c_options c) s sp r x \<and> knows E c sp (o_subject x)"

lemma checker_objects:
  assumes new: "BoardChecker_new E b rules opt = Some c" and fit: "board_ok E b"
  shows "length (c_layers c) = layer_count b" and "\<forall>lo \<in> set (c_layers c). lo = LayerObjs_finish (ce_rtree E) (lo_objs lo)"
    and "l < layer_count b \<Longrightarrow> x \<in> set (lo_objs (c_layers c ! l)) \<Longrightarrow>
      obj_ok (ce_rtree E) x \<and> (\<exists>(s, sp) \<in> set (board_items E opt b). \<exists>r \<in> set (spec_regions sp). stands_for E c s sp r x \<and> on_layer sp l)"
    and "l < layer_count b \<Longrightarrow> (s, sp) \<in> set (board_items E opt b) \<Longrightarrow> LayerMask_contains (sp_layers sp) l \<Longrightarrow> r \<in> set (spec_regions sp) \<Longrightarrow>
      \<exists>x \<in> set (lo_objs (c_layers c ! l)). stands_for E c s sp r x"
proof -
  obtain zs and subs :: item_subjects and per where C: "c_options c = opt" "c_layers c = map (LayerObjs_finish (ce_rtree E)) per"
    and zs: "those (map (zone_spec opt b (zone_polys E opt b)) (zones b)) = Some zs"
    and K: "list_all2 (\<lambda>t. knows E c (track_spec t)) (tracks b) (is_tracks subs)" "list_all2 (\<lambda>a. knows E c (arc_spec E a)) (arcs b) (is_arcs subs)"
      "list_all2 (\<lambda>v. knows E c (via_spec v)) (vias b) (is_vias subs)" "list_all2 (\<lambda>p. knows E c (pad_spec p)) (pads b) (is_pads subs)"
      "list_all2 (knows E c) zs (is_zones subs)"
    and per: "place_objs (concat (map track_objs (zip (tracks b) (is_tracks subs))) @ concat (map (arc_objs E opt) (zip (arcs b) (is_arcs subs))) @
       concat (map via_objs (zip (vias b) (is_vias subs))) @ concat (map pad_objs (zip (pads b) (is_pads subs))) @
       concat (map (zone_objs opt) (zip (zones b) (zip (is_zones subs) zs)))) (replicate (layer_count b) []) = Some per"
    by (rule checker_parts [OF new fit]) blast
  let ?P = "concat (map track_objs (zip (tracks b) (is_tracks subs))) @ concat (map (arc_objs E opt) (zip (arcs b) (is_arcs subs))) @
       concat (map via_objs (zip (vias b) (is_vias subs))) @ concat (map pad_objs (zip (pads b) (is_pads subs))) @
       concat (map (zone_objs opt) (zip (zones b) (zip (is_zones subs) zs)))"
  note P = place_objs_spec [OF per]
  show n: "length (c_layers c) = layer_count b" using P by (simp add: C)
  show "\<forall>lo \<in> set (c_layers c). lo = LayerObjs_finish (ce_rtree E) (lo_objs lo)" by (auto simp: C LayerObjs_finish_def)
  have at: "x \<in> set (lo_objs (c_layers c ! l)) \<longleftrightarrow> (\<exists>st. (l, st, x) \<in> set ?P)" if "l < layer_count b" for l x
    using P that by (simp add: C LayerObjs_finish_def)
  have ZK: "zone_spec opt b (zone_polys E opt b) z = Some sp \<and> knows E c sp sub" if member: "(z, sub, sp) \<in> set (zip (zones b) (zip (is_zones subs) zs))" for z sub sp
  proof -
    obtain k where k: "k < length zs" "z = zones b ! k" "sub = is_zones subs ! k" "sp = zs ! k" using member by (auto simp: in_set_zip)
    moreover have "k < length (zones b)" using list_all2_lengthD [OF those_all2 [OF zs]] k(1) by simp
    ultimately show ?thesis using those_all2 [OF zs] K(5) by (auto simp: list_all2_conv_all_nth)
  qed
  show "obj_ok (ce_rtree E) x \<and> (\<exists>(s, sp) \<in> set (board_items E opt b). \<exists>r \<in> set (spec_regions sp). stands_for E c s sp r x \<and> on_layer sp l)"
    if l: "l < layer_count b" and x: "x \<in> set (lo_objs (c_layers c ! l))"
  proof -
    have W: ?thesis if "(s, sp) \<in> set (board_items E opt b)" "r \<in> set (spec_regions sp)" "object_of opt s sp r x" "knows E c sp (o_subject x)"
      "obj_ok (ce_rtree E) x" "on_layer sp l" for s sp r using that by (auto simp: stands_for_def C(1))
    obtain st where "(l, st, x) \<in> set ?P" using at [OF l] x by blast
    then consider (T) t sub where "(t, sub) \<in> set (zip (tracks b) (is_tracks subs))" "(l, st, x) \<in> set (track_objs (t, sub))"
      | (A) a sub where "(a, sub) \<in> set (zip (arcs b) (is_arcs subs))" "(l, st, x) \<in> set (arc_objs E opt (a, sub))"
      | (V) v sub where "(v, sub) \<in> set (zip (vias b) (is_vias subs))" "(l, st, x) \<in> set (via_objs (v, sub))"
      | (P) p sub where "(p, sub) \<in> set (zip (pads b) (is_pads subs))" "(l, st, x) \<in> set (pad_objs (p, sub))"
      | (Z) z sub sp where "(z, sub, sp) \<in> set (zip (zones b) (zip (is_zones subs) zs))" "(l, st, x) \<in> set (zone_objs opt (z, sub, sp))"
      by (auto simp del: split_paired_Ex)
    then show ?thesis
    proof cases
      case T
      have t: "t \<in> set (tracks b)" "segment_ok (track_seg t)" using set_zip_leftD [OF T(1)] fit by (auto simp: board_ok_def list_all_iff)
      have x: "x = shape_obj (Src_Board (Ref_Track (track_ident t))) (track_net t) sub 0 (track_shape t)" using T(2) by (simp add: track_objs_def)
      show ?thesis
        by (rule W [of "Src_Board (Ref_Track (track_ident t))" "track_spec t" "track_shape t"])
          (use t T(2) list_all2_zip [OF K(1) T(1)] in \<open>simp_all add: x track_objs_def on_layer_bit bit_single shape_obj_facts spec_fields board_items_def track_shape_def\<close>)
    next
      case A
      have a: "a \<in> set (arcs b)" using set_zip_leftD [OF A(1)] .
      obtain sh where sh: "sh \<in> set (arc_shapes E a)" "x = shape_obj (Src_Board (Ref_Arc (arc_ident a))) (arc_net a) sub (arc_extra opt) sh"
        using A(2) by (auto simp: arc_objs_def)
      have "shape_ok sh \<and> solid sh" using a sh(1) fit by (auto simp: board_ok_def list_all_iff arc_shapes_def)
      moreover have "l = arc_layer a" using A(2) by (auto simp: arc_objs_def)
      ultimately show ?thesis
        by (intro W [of "Src_Board (Ref_Arc (arc_ident a))" "arc_spec E a" sh])
          (use a sh list_all2_zip [OF K(2) A(1)] in \<open>simp_all add: on_layer_bit bit_single shape_obj_facts spec_fields board_items_def\<close>)
    next
      case V
      have v: "v \<in> set (vias b)" "shape_ok (Via_shape v)" using set_zip_leftD [OF V(1)] fit by (auto simp: board_ok_def list_all_iff)
      have x: "x = shape_obj (Src_Board (Ref_Via (via_ident v))) (via_net v) sub 0 (Via_shape v)" "bit (via_layers v) l" using V(2) by (auto simp: via_objs_def)
      show ?thesis
        by (rule W [of "Src_Board (Ref_Via (via_ident v))" "via_spec v" "Via_shape v"])
          (use v x(2) list_all2_zip [OF K(3) V(1)] in \<open>simp_all add: x(1) on_layer_bit shape_obj_facts spec_fields board_items_def\<close>, simp add: Via_shape_def)
    next
      case P
      have p: "p \<in> set (pads b)" using set_zip_leftD [OF P(1)] .
      obtain sh where sh: "sh \<in> set (pad_shapes p)" "pad_has_copper p" "x = shape_obj (Src_Board (Ref_Pad (pad_ident p))) (pad_net p) sub 0 sh" "bit (pad_layers p) l"
        using P(2) by (auto simp: pad_objs_def split: if_splits)
      have "shape_ok sh \<and> solid sh" using p sh(1) fit by (auto simp: board_ok_def list_all_iff)
      then show ?thesis
        by (intro W [of "Src_Board (Ref_Pad (pad_ident p))" "pad_spec p" sh])
          (use p sh list_all2_zip [OF K(4) P(1)] in \<open>simp_all add: on_layer_bit shape_obj_facts spec_fields board_items_def\<close>)
    next
      case Z
      have zk: "zone_spec opt b (zone_polys E opt b) z = Some sp" "knows E c sp sub" using ZK [OF Z(1)] by simp_all
      have item: "(Src_Board (Ref_Zone (zone_ident z)), sp) \<in> set (board_items E opt b)"
        using set_zip_leftD [OF Z(1)] zk(1) by (auto simp: board_items_def intro!: bexI [of _ z])
      have "on_layer sp l" using zone_objs_facts(1) [OF zk(1) fit zk(2) Z(2)] zone_spec_fields(3) [OF zk(1) fit] by (simp add: on_layer_bit bit_single)
      then show ?thesis using zone_objs_facts(1) [OF zk(1) fit zk(2) Z(2)] W [OF item] by blast
    qed
  qed
  show "\<exists>x \<in> set (lo_objs (c_layers c ! l)). stands_for E c s sp r x"
    if l: "l < layer_count b" and item: "(s, sp) \<in> set (board_items E opt b)" and on: "LayerMask_contains (sp_layers sp) l" and r: "r \<in> set (spec_regions sp)"
  proof -
    have W: ?thesis if "(l, st, x) \<in> set ?P" "object_of opt s sp r x" "knows E c sp (o_subject x)" for st x
    proof -
      have "x \<in> set (lo_objs (c_layers c ! l))" using at [OF l] that(1) by blast
      then show ?thesis unfolding stands_for_def C(1) using that(2,3) by blast
    qed
    have l32: "l < 32" "bit (sp_layers sp) l" using on by (simp_all add: mask_contains)
    from item consider (T) t where "t \<in> set (tracks b)" "s = Src_Board (Ref_Track (track_ident t))" "sp = track_spec t"
      | (A) a where "a \<in> set (arcs b)" "s = Src_Board (Ref_Arc (arc_ident a))" "sp = arc_spec E a"
      | (V) v where "v \<in> set (vias b)" "s = Src_Board (Ref_Via (via_ident v))" "sp = via_spec v"
      | (P) p where "p \<in> set (pads b)" "s = Src_Board (Ref_Pad (pad_ident p))" "sp = pad_spec p"
      | (Z) z where "z \<in> set (zones b)" "s = Src_Board (Ref_Zone (zone_ident z))" "zone_spec opt b (zone_polys E opt b) z = Some sp"
      by (auto simp: board_items_def split: option.splits)
    then show ?thesis
    proof cases
      case T
      obtain sub where sub: "(t, sub) \<in> set (zip (tracks b) (is_tracks subs))" using zip_covers [OF K(1) T(1)] by blast
      have "(l, True, shape_obj s (track_net t) sub 0 r) \<in> set (track_objs (t, sub))" using r l32 by (simp add: T track_objs_def spec_fields bit_single)
      then show ?thesis
        by (intro W [of True "shape_obj s (track_net t) sub 0 r"]) (use sub list_all2_zip [OF K(1) sub] in \<open>auto simp: T(3) shape_obj_facts spec_fields\<close>)
    next
      case A
      obtain sub where sub: "(a, sub) \<in> set (zip (arcs b) (is_arcs subs))" using zip_covers [OF K(2) A(1)] by blast
      have "(l, True, shape_obj s (arc_net a) sub (arc_extra opt) r) \<in> set (arc_objs E opt (a, sub))" using r l32 by (auto simp: A arc_objs_def spec_fields bit_single)
      then show ?thesis
        by (intro W [of True "shape_obj s (arc_net a) sub (arc_extra opt) r"]) (use sub list_all2_zip [OF K(2) sub] in \<open>auto simp: A(3) shape_obj_facts spec_fields\<close>)
    next
      case V
      obtain sub where sub: "(v, sub) \<in> set (zip (vias b) (is_vias subs))" using zip_covers [OF K(3) V(1)] by blast
      have "(l, False, shape_obj s (via_net v) sub 0 r) \<in> set (via_objs (v, sub))" using r l32 by (auto simp: V via_objs_def spec_fields)
      then show ?thesis
        by (intro W [of False "shape_obj s (via_net v) sub 0 r"]) (use sub list_all2_zip [OF K(3) sub] in \<open>auto simp: V(3) shape_obj_facts spec_fields\<close>)
    next
      case P
      obtain sub where sub: "(p, sub) \<in> set (zip (pads b) (is_pads subs))" using zip_covers [OF K(4) P(1)] by blast
      have "(l, False, shape_obj s (pad_net p) sub 0 r) \<in> set (pad_objs (p, sub))" using r l32 by (auto simp: P pad_objs_def spec_fields split: if_splits)
      then show ?thesis
        by (intro W [of False "shape_obj s (pad_net p) sub 0 r"]) (use sub list_all2_zip [OF K(4) sub] in \<open>auto simp: P(3) shape_obj_facts spec_fields\<close>)
    next
      case Z
      have "list_all2 (\<lambda>z sp. zone_spec opt b (zone_polys E opt b) z = Some sp) (zones b) zs" using those_all2 [OF zs] by (simp add: list_all2_map1)
      moreover obtain k where k: "k < length (zones b)" "zones b ! k = z" using Z(1) by (auto simp: in_set_conv_nth)
      ultimately have "k < length zs" "zs ! k = sp" "length (is_zones subs) = length zs" using Z(3) K(5) by (auto simp: list_all2_conv_all_nth)
      then have m: "(z, is_zones subs ! k, sp) \<in> set (zip (zones b) (zip (is_zones subs) zs))" using k by (auto simp: in_set_zip)
      obtain st x where "(l, st, x) \<in> set (zone_objs opt (z, is_zones subs ! k, sp))" "object_of opt s sp r x" "knows E c sp (o_subject x)"
        using zone_objs_facts(2) [OF Z(3) fit _ r on] ZK [OF m] Z(2) by blast
      then show ?thesis using m by (intro W [of st x]) auto
    qed
  qed
qed

lemma checker_holes:
  assumes new: "BoardChecker_new E b rules opt = Some c" and fit: "board_ok E b"
  shows "holes_ok (ce_rtree E) (c_holes c)"
proof -
  let ?hs = "map via_hole (vias b) @ concat (map (pad_holes (LayerTable_all (layer_table_of b))) (pads b))"
  have c: "c_holes c = Holes_finish (ce_rtree E) ?hs" by (rule checker_parts [OF new fit]) blast
  have "length (concat (map (pad_holes m) ps)) \<le> length ps" for m ps
    by (induction ps) (auto simp: pad_holes_def split: option.split)
  then have "length ?hs \<le> length (vias b) + length (pads b)" by simp
  then have "length ?hs \<le> 2 ^ 32" using fit by (simp add: board_ok_def)
  moreover have "hole_ok h" if "h \<in> set ?hs" for h
  proof -
    from that consider v where "v \<in> set (vias b)" "h = via_hole v" | p where "p \<in> set (pads b)" "h \<in> set (pad_holes (LayerTable_all (layer_table_of b)) p)" by auto
    then show ?thesis
    proof cases
      case 1
      then have "shape_ok (Via_hole v)" using fit by (simp add: board_ok_def list_all_iff)
      then show ?thesis by (simp add: 1(2) hole_ok_def via_hole_def) (simp add: Via_hole_def)
    next
      case 2
      then obtain d where "pad_drill p = Some d" "h_shape h = drill_shape d" "h_bbox h = Shape_bbox (drill_shape d)"
        by (cases "pad_drill p") (auto simp: pad_holes_def)
      then show ?thesis using 2(1) fit by (auto simp: board_ok_def list_all_iff hole_ok_def)
    qed
  qed
  ultimately show ?thesis unfolding c holes_ok_def by (simp add: Holes_finish_def list_all_iff)
qed

section \<open>Routed copper\<close>

definition routed_ok :: "routed_copper \<Rightarrow> bool" where
  "routed_ok rc \<longleftrightarrow> list_all (\<lambda>t. segment_ok (rt_seg t)) (rc_tracks rc) \<and>
     list_all (\<lambda>v. circle_ok (Circle_from_diameter (rv_center v) (rv_diameter v)) \<and> circle_ok (Circle_from_diameter (rv_center v) (rv_drill v))) (rc_vias rc) \<and>
     length (rc_tracks rc) + length (rc_vias rc) < 2 ^ 32"

definition routed_track_spec :: "routed_track \<Rightarrow> 'tr item_spec" where
  "routed_track_spec t = plain_spec Kind_Track (Some (rt_net t)) (LayerMask_single (rt_layer t)) [Segment (rt_seg t)]"

definition routed_via_spec :: "routed_via \<Rightarrow> 'tr item_spec" where
  "routed_via_spec v = plain_spec Kind_Via (Some (rv_net v)) (rv_layers v) [Circle (Circle_from_diameter (rv_center v) (rv_diameter v))]"

lemma routed_spec_fields:
  "sp_net (routed_track_spec t) = Some (rt_net t)" "sp_kind (routed_track_spec t) = Kind_Track" "sp_layers (routed_track_spec t) = LayerMask_single (rt_layer t)"
  "spec_regions (routed_track_spec t) = [Segment (rt_seg t)]"
  "sp_net (routed_via_spec v) = Some (rv_net v)" "sp_kind (routed_via_spec v) = Kind_Via" "sp_layers (routed_via_spec v) = rv_layers v"
  "spec_regions (routed_via_spec v) = [Circle (Circle_from_diameter (rv_center v) (rv_diameter v))]"
  "sp_local (routed_track_spec t) = None" "sp_local (routed_via_spec v) = None"
  by (simp_all add: routed_track_spec_def routed_via_spec_def plain_spec_def spec_regions_def)

lemma routed_specs_map: "routed_specs rc = map routed_track_spec (rc_tracks rc) @ map routed_via_spec (rc_vias rc)"
  by (simp add: routed_specs_def routed_track_spec_def routed_via_spec_def)

lemma routed_items_mem:
  fixes sp :: "'tr item_spec"
  shows "(s, sp) \<in> set (routed_items rc) \<longleftrightarrow>
     (\<exists>i < length (rc_tracks rc). s = Src_RoutedTrack i \<and> sp = routed_track_spec (rc_tracks rc ! i)) \<or>
     (\<exists>i < length (rc_vias rc). s = Src_RoutedVia i \<and> sp = routed_via_spec (rc_vias rc ! i))"
proof -
  have "(routed_items rc :: (src \<times> 'tr item_spec) list) = map (\<lambda>i. (Src_RoutedTrack i, routed_track_spec (rc_tracks rc ! i))) [0..<length (rc_tracks rc)] @
      map (\<lambda>i. (Src_RoutedVia i, routed_via_spec (rc_vias rc ! i))) [0..<length (rc_vias rc)]"
    unfolding routed_items_def routed_specs_map
    by (simp add: zip_append) (auto intro!: nth_equalityI arg_cong2 [where f = "(@)"])
  then show ?thesis by auto
qed

text \<open>The same statement for the objects of a whole run.\<close>

definition stands :: "'tr check_env \<Rightarrow> 'tr ctx \<Rightarrow> src \<Rightarrow> 'tr item_spec \<Rightarrow> shape \<Rightarrow> 'tr check_obj \<Rightarrow> bool" where
  "stands E cx s sp r x \<longleftrightarrow> object_of (c_options (cx_c cx)) s sp r x \<and> subject_at cx (o_subject x) = own_subject E (cx_c cx) sp"

lemma run_parts:
  fixes E :: "'tr check_env"
  assumes rc: "routed_ok (unwrap_or no_copper_routed rc)" and few: "length (c_subjects c) < 2 ^ 32"
  obtains seen ids0 and per :: "'tr check_obj list list" where
    "intern_all (map (subject_of E (c_courtyards c) (c_courtyard_index c) (c_areas c)) (routed_specs (unwrap_or no_copper_routed rc))) [] = (seen, ids0)"
    "place_objs (routed_placements (unwrap_or no_copper_routed rc) (map (\<lambda>i. length (c_subjects c) + i) ids0)) (replicate (layer_count (c_board c)) []) = Some per"
    "run_ctx E c rc = \<lparr>cx_c = c, cx_routed = (rc \<noteq> None), cx_rlayers = map (LayerObjs_finish (ce_rtree E)) per,
       cx_rholes = Holes_finish (ce_rtree E) (routed_holes (unwrap_or no_copper_routed rc)), cx_rsubjects = map fst seen,
       cx_rids = map (\<lambda>i. length (c_subjects c) + i) ids0, cx_tracks = length (rc_tracks (unwrap_or no_copper_routed rc))\<rparr>"
proof -
  let ?copper = "unwrap_or no_copper_routed rc"
  obtain seen ids0 where i: "intern_all (map (subject_of E (c_courtyards c) (c_courtyard_index c) (c_areas c)) (routed_specs ?copper)) [] = (seen, ids0)"
    by (cases "intern_all (map (subject_of E (c_courtyards c) (c_courtyard_index c) (c_areas c)) (routed_specs ?copper)) []")
  let ?ids = "map (\<lambda>i. length (c_subjects c) + i) ids0"
  have base: "as_u32 (length (c_subjects c)) = length (c_subjects c)" using few by simp
  have "\<exists>per :: 'tr check_obj list list. place_objs (routed_placements ?copper ?ids) (replicate (layer_count (c_board c)) []) = Some per"
    by (rule place_lenient) (auto simp: routed_placements_def)
  then obtain per :: "'tr check_obj list list" where per: "place_objs (routed_placements ?copper ?ids) (replicate (layer_count (c_board c)) []) = Some per" by blast
  show ?thesis by (rule that [OF i per]) (simp add: run_ctx_def Let_def i base per unwrap_or_def [of "[]"] del: of_nat_less_iff)
qed

lemma routed_placements_mem:
  fixes x :: "'tr check_obj"
  assumes "routed_ok rc"
  shows "(l, st, x) \<in> set (routed_placements rc ids) \<longleftrightarrow> \<not> st \<and>
    ((\<exists>i < length (rc_tracks rc). l = rt_layer (rc_tracks rc ! i) \<and>
        x = shape_obj (Src_RoutedTrack i) (Some (rt_net (rc_tracks rc ! i))) (ids ! i) 0 (Segment (rt_seg (rc_tracks rc ! i)))) \<or>
     (\<exists>i < length (rc_vias rc). l < 32 \<and> bit (rv_layers (rc_vias rc ! i)) l \<and>
        x = shape_obj (Src_RoutedVia i) (Some (rv_net (rc_vias rc ! i))) (ids ! (length (rc_tracks rc) + i)) 0
          (Circle (Circle_from_diameter (rv_center (rc_vias rc ! i)) (rv_diameter (rc_vias rc ! i))))))"
proof -
  have small: "i < length (rc_tracks rc) \<Longrightarrow> as_u32 i = i" "i < length (rc_vias rc) \<Longrightarrow> as_u32 i = i" for i
    using assms by (simp_all add: routed_ok_def)
  let ?T = "\<lambda>(i, t). (rt_layer t, False, shape_obj (Src_RoutedTrack (as_u32 i)) (Some (rt_net t)) (ids ! i) 0 (Segment (rt_seg t))) :: layer_id \<times> bool \<times> 'tr check_obj"
  have T: "?T ` set (enumerate 0 (rc_tracks rc)) = (\<lambda>i. (rt_layer (rc_tracks rc ! i), False,
      shape_obj (Src_RoutedTrack i) (Some (rt_net (rc_tracks rc ! i))) (ids ! i) 0 (Segment (rt_seg (rc_tracks rc ! i))))) ` {..<length (rc_tracks rc)}"
    unfolding enumerate_image image_image by (rule image_cong) (simp_all only: lessThan_iff prod.case small)
  let ?V = "\<lambda>(i, v). (\<lambda>l. (l, False, shape_obj (Src_RoutedVia (as_u32 i)) (Some (rv_net v)) (ids ! (length (rc_tracks rc) + i)) 0
      (Circle (Circle_from_diameter (rv_center v) (rv_diameter v))))) ` set (LayerMask_iter (rv_layers v)) :: (layer_id \<times> bool \<times> 'tr check_obj) set"
  have V: "?V ` set (enumerate 0 (rc_vias rc)) = (\<lambda>i. (\<lambda>l. (l, False, shape_obj (Src_RoutedVia i) (Some (rv_net (rc_vias rc ! i))) (ids ! (length (rc_tracks rc) + i)) 0
      (Circle (Circle_from_diameter (rv_center (rc_vias rc ! i)) (rv_diameter (rc_vias rc ! i)))))) ` set (LayerMask_iter (rv_layers (rc_vias rc ! i)))) ` {..<length (rc_vias rc)}"
    unfolding enumerate_image image_image by (rule image_cong) (simp_all only: lessThan_iff prod.case small)
  have "set (routed_placements rc ids) = ?T ` set (enumerate 0 (rc_tracks rc)) \<union> \<Union> (?V ` set (enumerate 0 (rc_vias rc)))"
    by (simp add: routed_placements_def case_prod_unfold)
  then show ?thesis unfolding T V by (simp only: Un_iff UN_iff image_iff lessThan_iff in_mask_iter prod.inject Bex_def) blast
qed

lemma run_objects:
  fixes E :: "'tr check_env"
  assumes new: "BoardChecker_new E b rules opt = Some c" and fit: "board_ok E b" and rok: "routed_ok (unwrap_or no_copper_routed rc)"
  defines "cx \<equiv> run_ctx E c rc"
  shows "cx_c cx = c" and "cx_routed cx \<longleftrightarrow> rc \<noteq> None" and "length (cx_rlayers cx) = layer_count b"
    and "\<forall>lo \<in> set (cx_rlayers cx). lo = LayerObjs_finish (ce_rtree E) (lo_objs lo)" and "holes_ok (ce_rtree E) (cx_rholes cx)"
    and "stands_for E c s sp r x \<Longrightarrow> stands E cx s sp r x"
    and "l < layer_count b \<Longrightarrow> x \<in> set (lo_objs (cx_rlayers cx ! l)) \<Longrightarrow>
      obj_ok (ce_rtree E) x \<and> (\<exists>(s, sp) \<in> set (routed_items (unwrap_or no_copper_routed rc)). \<exists>r \<in> set (spec_regions sp). stands E cx s sp r x \<and> on_layer sp l)"
    and "l < layer_count b \<Longrightarrow> (s, sp) \<in> set (routed_items (unwrap_or no_copper_routed rc)) \<Longrightarrow> LayerMask_contains (sp_layers sp) l \<Longrightarrow>
      r \<in> set (spec_regions sp) \<Longrightarrow> \<exists>x \<in> set (lo_objs (cx_rlayers cx ! l)). stands E cx s sp r x"
proof -
  let ?rc = "unwrap_or no_copper_routed rc"
  have few: "length (c_subjects c) < 2 ^ 32" and cb: "c_board c = b" by (rule checker_parts [OF new fit]; blast)+
  obtain seen ids0 and per :: "'tr check_obj list list" where
    i: "intern_all (map (subject_of E (c_courtyards c) (c_courtyard_index c) (c_areas c)) (routed_specs ?rc)) [] = (seen, ids0)"
    and per: "place_objs (routed_placements ?rc (map (\<lambda>i. length (c_subjects c) + i) ids0)) (replicate (layer_count b) []) = Some per"
    and cx: "cx = \<lparr>cx_c = c, cx_routed = (rc \<noteq> None), cx_rlayers = map (LayerObjs_finish (ce_rtree E)) per,
       cx_rholes = Holes_finish (ce_rtree E) (routed_holes ?rc), cx_rsubjects = map fst seen,
       cx_rids = map (\<lambda>i. length (c_subjects c) + i) ids0, cx_tracks = length (rc_tracks ?rc)\<rparr>"
    unfolding cx_def by (rule run_parts [OF rok few, where E = E, unfolded cb])
  let ?ids = "map (\<lambda>i. length (c_subjects c) + i) ids0"
  note P = place_objs_spec [OF per]
  show "cx_c cx = c" "cx_routed cx \<longleftrightarrow> rc \<noteq> None" "length (cx_rlayers cx) = layer_count b" using P by (simp_all add: cx)
  show "\<forall>lo \<in> set (cx_rlayers cx). lo = LayerObjs_finish (ce_rtree E) (lo_objs lo)" by (auto simp: cx LayerObjs_finish_def)
  have "list_all hole_ok (routed_holes ?rc)"
    using rok by (auto simp: routed_holes_def list_all_iff hole_ok_def routed_ok_def Let_def enumerate_image)
  then show "holes_ok (ce_rtree E) (cx_rholes cx)"
    using rok by (simp add: cx holes_ok_def Holes_finish_def routed_holes_def routed_ok_def)
  show "stands E cx s sp r x" if "stands_for E c s sp r x" for s sp r x
    using that by (simp add: stands_for_def stands_def knows_def subject_at_def Let_def cx)
  let ?S = "routed_specs ?rc :: 'tr item_spec list"
  have lenS: "length ?S = length (rc_tracks ?rc) + length (rc_vias ?rc)" by (simp add: routed_specs_map)
  then have "length ?S \<le> 2 ^ 32" using rok by (simp add: routed_ok_def)
  note I = interned [OF i this]
  have K: "subject_at cx (?ids ! k) = own_subject E c (?S ! k)" if "k < length ?S" for k
    using that I by (simp add: list_all2_conv_all_nth subject_at_def Let_def cx own_subject_def)
  have at: "x \<in> set (lo_objs (cx_rlayers cx ! l)) \<longleftrightarrow> (\<exists>st. (l, st, x) \<in> set (routed_placements ?rc ?ids))" if "l < layer_count b" for l x
    using P that by (simp add: cx LayerObjs_finish_def)
  have KT: "subject_at cx (?ids ! k) = own_subject E c (routed_track_spec (rc_tracks ?rc ! k))" if "k < length (rc_tracks ?rc)" for k
    using K [of k] that lenS by (simp add: routed_specs_map nth_append)
  have KV: "subject_at cx (?ids ! (length (rc_tracks ?rc) + k)) = own_subject E c (routed_via_spec (rc_vias ?rc ! k))" if "k < length (rc_vias ?rc)" for k
    using K [of "length (rc_tracks ?rc) + k"] that lenS by (simp add: routed_specs_map nth_append)
  show "obj_ok (ce_rtree E) x \<and> (\<exists>(s, sp) \<in> set (routed_items ?rc). \<exists>r \<in> set (spec_regions sp). stands E cx s sp r x \<and> on_layer sp l)"
    if l: "l < layer_count b" and x: "x \<in> set (lo_objs (cx_rlayers cx ! l))" for l x
  proof -
    obtain st where "(l, st, x) \<in> set (routed_placements ?rc ?ids)" using at [OF l] x by blast
    then consider (T) k where "k < length (rc_tracks ?rc)" "l = rt_layer (rc_tracks ?rc ! k)"
        "x = shape_obj (Src_RoutedTrack k) (Some (rt_net (rc_tracks ?rc ! k))) (?ids ! k) 0 (Segment (rt_seg (rc_tracks ?rc ! k)))"
      | (V) k where "k < length (rc_vias ?rc)" "bit (rv_layers (rc_vias ?rc ! k)) l"
        "x = shape_obj (Src_RoutedVia k) (Some (rv_net (rc_vias ?rc ! k))) (?ids ! (length (rc_tracks ?rc) + k)) 0
          (Circle (Circle_from_diameter (rv_center (rc_vias ?rc ! k)) (rv_diameter (rc_vias ?rc ! k))))"
      unfolding routed_placements_mem [OF rok] by blast
    then show ?thesis
    proof cases
      case T
      have "(Src_RoutedTrack k, routed_track_spec (rc_tracks ?rc ! k)) \<in> set (routed_items ?rc)" using T(1) by (simp add: routed_items_mem)
      moreover have "segment_ok (rt_seg (rc_tracks ?rc ! k))" using rok T(1) by (simp add: routed_ok_def list_all_length)
      ultimately show ?thesis using KT [OF T(1)]
        by (auto simp: T(2,3) on_layer_bit bit_single stands_def shape_obj_facts routed_spec_fields cx intro!: bexI [of _ "(Src_RoutedTrack k, routed_track_spec (rc_tracks ?rc ! k))"])
    next
      case V
      have "(Src_RoutedVia k, routed_via_spec (rc_vias ?rc ! k)) \<in> set (routed_items ?rc)" using V(1) by (simp add: routed_items_mem)
      moreover have "circle_ok (Circle_from_diameter (rv_center (rc_vias ?rc ! k)) (rv_diameter (rc_vias ?rc ! k)))" using rok V(1) by (simp add: routed_ok_def list_all_length)
      ultimately show ?thesis using KV [OF V(1)] V(2)
        by (auto simp: V(3) on_layer_bit stands_def shape_obj_facts routed_spec_fields cx intro!: bexI [of _ "(Src_RoutedVia k, routed_via_spec (rc_vias ?rc ! k))"])
    qed
  qed
  show "\<exists>x \<in> set (lo_objs (cx_rlayers cx ! l)). stands E cx s sp r x"
    if l: "l < layer_count b" and item: "(s, sp) \<in> set (routed_items ?rc)" and on: "LayerMask_contains (sp_layers sp) l" and r: "r \<in> set (spec_regions sp)" for l s sp r
  proof -
    have W: ?thesis if "(l, False, x) \<in> set (routed_placements ?rc ?ids)" "stands E cx s sp r x" for x using at [OF l] that by blast
    from item consider (T) k where "k < length (rc_tracks ?rc)" "s = Src_RoutedTrack k" "sp = routed_track_spec (rc_tracks ?rc ! k)"
      | (V) k where "k < length (rc_vias ?rc)" "s = Src_RoutedVia k" "sp = routed_via_spec (rc_vias ?rc ! k)" unfolding routed_items_mem by blast
    then show ?thesis
    proof cases
      case T
      show ?thesis
        by (rule W [of "shape_obj s (sp_net sp) (?ids ! k) 0 r"])
          (use T r on KT [OF T(1)] in \<open>auto simp: routed_placements_mem [OF rok] stands_def shape_obj_facts routed_spec_fields cx mask_contains bit_single\<close>)
    next
      case V
      show ?thesis
        by (rule W [of "shape_obj s (sp_net sp) (?ids ! (length (rc_tracks ?rc) + k)) 0 r"])
          (use V r on KV [OF V(1)] in \<open>auto simp: routed_placements_mem [OF rok] stands_def shape_obj_facts routed_spec_fields cx mask_contains\<close>)
    qed
  qed
qed

section \<open>A run that meets the conditions of the index\<close>

text \<open>The rule table bounds its clearances for the subjects a board can have; the sums of the options stay inside 32 bits.\<close>

definition rules_bounded :: "route_board \<Rightarrow> rule_oracle \<Rightarrow> bool" where
  "rules_bounded b rules \<longleftrightarrow> (\<forall>u v l. local_known b u \<and> local_known b v \<longrightarrow>
     in_i32 (ro_clearance rules u v l) \<and> ro_clearance rules u v l \<le> ro_max_clearance rules)"

definition options_fit :: "rule_oracle \<Rightarrow> check_options \<Rightarrow> bool" where
  "options_fit rules opt \<longleftrightarrow> in_i32 (ro_hole_clearance rules) \<and> in_i32 (ro_hole_to_hole rules) \<and>
     in_i32 (safety_margin_nm opt) \<and> in_i32 (kicad_epsilon_nm opt) \<and> in_i32 (max_error_nm opt) \<and> 0 \<le> safety_margin_nm opt \<and>
     ro_max_clearance rules + safety_margin_nm opt + 3 * arc_extra opt < 2 ^ 31 \<and>
     ro_hole_clearance rules + margin opt + arc_extra opt < 2 ^ 31 \<and> ro_hole_to_hole rules + margin opt < 2 ^ 31"

definition layers_fit :: "'tr ctx \<Rightarrow> bool" where
  "layers_fit cx \<longleftrightarrow> list_all (\<lambda>lo. length (lo_objs lo) \<le> 2 ^ 32) (c_layers (cx_c cx) @ cx_rlayers cx)"

lemma table_rules_bounded:
  assumes "from_project env pro dru b = Inr t" "in_i32 (min_clearance (t_board t))" "0 \<le> max_clearance t" "in_i32 (max_clearance t)"
  shows "rules_bounded b (table_rules U t)"
proof -
  have "in_i32 (clearance U t u v l) \<and> clearance U t u v l \<le> max_clearance t" if "local_known b u" "local_known b v" for u v l
    using clearance_bounds [OF assms(1) that, of U l] assms(2-) by (simp add: in_i32_def)
  then show ?thesis by (simp add: rules_bounded_def table_rules_def)
qed

lemma item_local:
  assumes "(s, sp) \<in> set (board_items E opt b) \<or> (s, sp) \<in> set (routed_items rc)" "board_ok E b"
  shows "local_known b (own_subject E c sp)"
proof -
  have "sp_local sp = None \<or> (\<exists>p \<in> set (pads b). sp_local sp = local_clearance p)"
    using assms(1)
  proof
    assume "(s, sp) \<in> set (board_items E opt b)"
    then consider "sp_local sp = None" | p where "p \<in> set (pads b)" "sp = pad_spec p" | z where "zone_spec opt b (zone_polys E opt b) z = Some sp"
      by (auto simp: board_items_def track_spec_def arc_spec_def via_spec_def plain_spec_def split: option.splits)
    then show ?thesis
    proof cases
      case 2
      then show ?thesis by (auto simp: pad_spec_def)
    next
      case 3
      then show ?thesis using zone_spec_fields(4) [OF 3 assms(2)] by simp
    qed simp
  next
    assume "(s, sp) \<in> set (routed_items rc)"
    then show ?thesis by (auto simp: routed_items_mem routed_spec_fields)
  qed
  then show ?thesis by (auto simp: local_known_def own_subject_def subject_of_local)
qed

lemma run_ctx_ok:
  fixes E :: "'tr check_env"
  assumes new: "BoardChecker_new E b rules opt = Some c" and fit: "board_ok E b" and rok: "routed_ok (unwrap_or no_copper_routed rc)"
    and rules: "rules_bounded b rules" "options_fit rules opt" and size: "layers_fit (run_ctx E c rc)"
  shows "ctx_ok E (run_ctx E c rc)"
proof -
  let ?cx = "run_ctx E c rc" and ?rc = "unwrap_or no_copper_routed rc"
  have C: "c_rules c = rules" "c_options c = opt" "c_reach c = ro_max_clearance rules + safety_margin_nm opt + arc_extra opt"
    by (rule checker_parts [OF new fit]; blast)+
  note B = checker_objects [OF new fit] and R = run_objects [OF new fit rok]
  have lim: "margins_ok c" using rules(2) unfolding margins_ok_def options_fit_def Let_def C by auto
  have item: "obj_ok (ce_rtree E) x \<and> (\<exists>s sp r. ((s, sp) \<in> set (board_items E opt b) \<or> (s, sp) \<in> set (routed_items ?rc)) \<and> stands E ?cx s sp r x)"
    if lo: "lo \<in> set (c_layers c) \<union> set (cx_rlayers ?cx)" and x: "x \<in> set (lo_objs lo)" for lo x
  proof (cases "lo \<in> set (c_layers c)")
    case True
    then obtain l where "l < layer_count b" "lo = c_layers c ! l" using B(1) by (auto simp: in_set_conv_nth)
    then show ?thesis using B(3) [of l x] x R(6) by blast
  next
    case False
    then obtain l where "l < layer_count b" "lo = cx_rlayers ?cx ! l" using lo R(3) by (auto simp: in_set_conv_nth)
    then show ?thesis using R(7) [of l x] x by blast
  qed
  have known: "local_known b (subject_at ?cx (o_subject x))" if member: "x \<in> ctx_objs ?cx" for x
  proof -
    obtain lo where "lo \<in> set (c_layers c) \<union> set (cx_rlayers ?cx)" "x \<in> set (lo_objs lo)" using member by (auto simp: ctx_objs_def R(1))
    then obtain s sp r where "(s, sp) \<in> set (board_items E opt b) \<or> (s, sp) \<in> set (routed_items ?rc)" "stands E ?cx s sp r x" using item by blast
    then show ?thesis using item_local [OF _ fit, of s sp opt ?rc c] by (simp add: stands_def R(1))
  qed
  have "bounded c (pair_clearance ?cx (o_subject x) (o_subject y) l)" if "x \<in> ctx_objs ?cx" "y \<in> ctx_objs ?cx" for x y l
    using known [OF that(1)] known [OF that(2)] rules(1)
    by (cases "o_subject x \<le> o_subject y") (simp_all add: bounded_def pair_clearance_def R(1) C rules_bounded_def min_def max_def)
  moreover have "objs_ok (ce_rtree E) lo \<and> extras_ok c lo" if lo: "lo \<in> set (c_layers c) \<union> set (cx_rlayers ?cx)" for lo
  proof
    have "lo = LayerObjs_finish (ce_rtree E) (lo_objs lo)" using lo B(2) R(4) by blast
    moreover have "length (lo_objs lo) \<le> 2 ^ 32" using lo size by (auto simp: layers_fit_def R(1) list_all_iff)
    ultimately show "objs_ok (ce_rtree E) lo" using item [OF lo] unfolding objs_ok_def by blast
    show "extras_ok c lo" using item [OF lo] unfolding extras_ok_def stands_def object_of_def R(1) by metis
  qed
  ultimately show ?thesis unfolding ctx_ok_def R(1) using lim checker_holes [OF new fit] R(5) by simp
qed

section \<open>Sorting and removing duplicates\<close>

definition finding :: "violation \<Rightarrow> violation_kind \<times> checked_item \<times> checked_item option" where
  "finding v = (v_kind v, v_a v, v_b v)"

lemma same_finding_iff: "same_finding v w \<longleftrightarrow> finding v = finding w"
  by (auto simp: same_finding_def finding_def)

definition finding_key :: "violation \<Rightarrow> nat \<times> (nat \<times> nat \<times> nat) \<times> (nat \<times> nat \<times> nat) option" where
  "finding_key v = (kind_order (v_kind v), item_key (v_a v), map_option item_key (v_b v))"

lemma item_key_inj: "inj item_key"
  by (rule injI) (auto simp: item_key_def split: checked_item.splits item_ref.splits)

lemma finding_key_iff: "finding_key v = finding_key w \<longleftrightarrow> finding v = finding w"
proof -
  have "inj kind_order" by (rule injI) (auto simp: kind_order_def split: violation_kind.splits)
  then show ?thesis
    by (auto simp: finding_key_def finding_def dest: injD [OF item_key_inj] injD injD [OF option.inj_map [OF item_key_inj]])
qed

lemma finding_key_mono: "violation_key v \<le> violation_key w \<Longrightarrow> finding_key v \<le> finding_key w"
  by (auto simp: violation_key_def finding_key_def less_eq_prod_def)

lemma dedup_after_sorted:
  assumes "sorted_wrt (\<lambda>v w. finding_key v \<le> finding_key w) (p # vs)"
  shows "(\<forall>w \<in> set (dedup_after p vs). finding_key p < finding_key w) \<and> sorted_wrt (\<lambda>v w. finding_key v < finding_key w) (dedup_after p vs) \<and>
    set (dedup_after p vs) \<subseteq> set vs \<and> (\<forall>v \<in> set vs. \<exists>w \<in> set (p # dedup_after p vs). finding w = finding v)"
  using assms
proof (induction p vs rule: dedup_after.induct)
  case (2 p v vs)
  show ?case
  proof (cases "same_finding v p")
    case True
    then show ?thesis using 2(1) [OF True] 2(3) by (auto simp: same_finding_iff)
  next
    case False
    then have "finding_key v \<noteq> finding_key p" by (simp add: finding_key_iff same_finding_iff)
    then have "finding_key p < finding_key v" using 2(3) by (simp add: order.not_eq_order_implies_strict)
    then show ?thesis using 2(2) [OF False] 2(3) False by (auto simp: dest: order.strict_trans)
  qed
qed simp

lemma dedup_findings_sorted:
  assumes "sorted (map violation_key vs)"
  shows "sorted_wrt (\<lambda>v w. finding_key v < finding_key w) (dedup_findings vs) \<and> set (dedup_findings vs) \<subseteq> set vs \<and>
    (\<forall>v \<in> set vs. \<exists>w \<in> set (dedup_findings vs). finding w = finding v)"
proof (cases vs)
  case (Cons p ws)
  have "sorted_wrt (\<lambda>v w. violation_key v \<le> violation_key w) vs" using assms by (simp add: sorted_wrt_map)
  then have "sorted_wrt (\<lambda>v w. finding_key v \<le> finding_key w) vs" by (rule sorted_wrt_mono_rel [rotated]) (rule finding_key_mono)
  note D = dedup_after_sorted [OF this [unfolded Cons]]
  show ?thesis using D by (auto simp: Cons dedup_findings_def)
qed (simp add: dedup_findings_def)

lemma found_scan:
  assumes "rtree_law (ce_rtree E) contents" "ctx_ok E cx"
  shows "mset (found_violations E cx rc) = mset (found_violations_all E cx rc)"
  unfolding found_violations_def found_violations_all_def mset_append copper_pairs_scan [OF assms] hole_clearance_scan [OF assms]
    hole_to_hole_scan [OF assms] ..

lemma run_scan:
  assumes "rtree_law (ce_rtree E) contents" "ctx_ok E (run_ctx E c rc)"
  shows "run E c rc = dedup_findings (sort_key violation_key (found_violations_all E (run_ctx E c rc) rc))"
proof -
  have "sort_key violation_key (found_violations E (run_ctx E c rc) rc) = sort_key violation_key (found_violations_all E (run_ctx E c rc) rc)"
    by (rule sort_key_inj_key_eq) (use found_scan [OF assms, of rc] in \<open>simp_all add: inj_on_subset [OF violation_key_inj]\<close>)
  then show ?thesis by (simp add: run_def)
qed

section \<open>What a pair test and a clean report mean\<close>

definition pair_limit :: "'tr ctx \<Rightarrow> layer_id \<Rightarrow> 'tr check_obj \<Rightarrow> 'tr check_obj \<Rightarrow> int" where
  "pair_limit cx l x y = pair_clearance cx (o_subject x) (o_subject y) l + o_extra x + o_extra y + margin (c_options (cx_c cx))"

definition pair_gap :: "'tr check_obj \<Rightarrow> 'tr check_obj \<Rightarrow> real" where
  "pair_gap x y = shape_gap (geom_shape (o_geom x)) (geom_shape (o_geom y))"

lemma test_pair_cases:
  assumes law: "rtree_law (ce_rtree E) contents" and ok: "geom_ok (ce_rtree E) (o_geom x)" "geom_ok (ce_rtree E) (o_geom y)"
    and nh: "no_hole_pair (geom_shape (o_geom x)) (geom_shape (o_geom y)) \<or> (\<exists>s. o_geom x = G_Shape s \<or> o_geom y = G_Shape s)"
    and lim: "in_i64 (pair_limit cx l x y)" "pair_limit cx l x y < 2 ^ 31"
  shows "test_pair E cx l x y = (if o_src x = o_src y \<or> (o_net x \<noteq> None \<and> o_net x = o_net y) then None
     else if (0 < pair_limit cx l x y \<and> pair_gap x y < real_of_int (pair_limit cx l x y)) \<or> (o_net x \<noteq> None \<and> o_net y \<noteq> None \<and> pair_gap x y \<le> 0)
     then Some \<lparr>v_kind = (if o_net x \<noteq> None \<and> o_net y \<noteq> None \<and> pair_gap x y \<le> 0 then V_Short else V_Clearance),
        v_a = checked (fst (orient_pair (o_src x) (o_src y))), v_b = Some (checked (snd (orient_pair (o_src x) (o_src y)))), v_layer = Some l,
        v_at = locate E (c_reach (cx_c cx)) (o_geom x) (o_geom y), v_required = pair_clearance cx (o_subject x) (o_subject y) l\<rparr>
     else None)"
proof -
  have g: "geom_gap (ce_rtree E) (o_geom x) (o_geom y) k = cmp (pair_gap x y) (real_of_int k)" if "in_i64 k" "k < 2 ^ 31" for k
    unfolding pair_gap_def by (rule geom_gap_exact [OF law ok that nh])
  have z: "in_i64 0" "(0::int) < 2 ^ 31" by (simp_all add: in_i64_def)
  have c: "cmp u v \<noteq> Greater \<longleftrightarrow> u \<le> v" "cmp u v = Less \<longleftrightarrow> u < v" for u v :: real by (auto simp: cmp_def)
  show ?thesis
    unfolding test_pair_def Let_def pair_limit_def [symmetric] case_prod_unfold g [OF lim] g [OF z] c by auto
qed

lemma found_in_run:
  assumes law: "rtree_law (ce_rtree E) contents" and ok: "ctx_ok E (run_ctx E c rc)" and v: "v \<in> set (found_violations_all E (run_ctx E c rc) rc)"
  shows "\<exists>w \<in> set (run E c rc). finding w = finding v"
  using dedup_findings_sorted [of "sort_key violation_key (found_violations_all E (run_ctx E c rc) rc)"] v unfolding run_scan [OF law ok] by simp

text \<open>In a check of routed copper every routed object is tested against the later routed ones and all of the board.\<close>

lemma pair_tested:
  assumes l: "l < length (c_layers (cx_c cx))" "l < length (cx_rlayers cx)"
    and x: "x \<in> set (lo_objs (cx_rlayers cx ! l))" and y: "y \<in> set (lo_objs (cx_rlayers cx ! l)) \<union> set (lo_objs (c_layers (cx_c cx) ! l))" and ne: "x \<noteq> y"
  shows "(\<forall>v. test_pair E cx l x y = Some v \<longrightarrow> v \<in> set (copper_pairs_all E cx)) \<or> (\<forall>v. test_pair E cx l y x = Some v \<longrightarrow> v \<in> set (copper_pairs_all E cx))"
proof -
  have job: "(l, True, i) \<in> set (jobs cx)" if "i < length (lo_objs (cx_rlayers cx ! l))" for i
    using that l by (auto simp: jobs_def nth_opt_def intro!: bexI [of _ l])
  have found: "v \<in> set (copper_pairs_all E cx)"
    if "test_pair E cx l a b = Some v" "i < length (lo_objs (cx_rlayers cx ! l))" "a = lo_objs (cx_rlayers cx ! l) ! i"
      "b \<in> set (drop (Suc i) (lo_objs (cx_rlayers cx ! l))) \<union> set (lo_objs (c_layers (cx_c cx) ! l))" for a b i v
  proof -
    have "v \<in> set (job_pairs_all E cx (l, True, i))" using that by (auto simp: job_pairs_all_def Let_def own_set_def option_list_def intro!: bexI [of _ b])
    then show ?thesis using job [OF that(2)] by (auto simp: copper_pairs_all_def)
  qed
  obtain i where i: "i < length (lo_objs (cx_rlayers cx ! l))" "x = lo_objs (cx_rlayers cx ! l) ! i" using x by (auto simp: in_set_conv_nth)
  show ?thesis
  proof (cases "y \<in> set (lo_objs (c_layers (cx_c cx) ! l))")
    case True
    then show ?thesis using found [OF _ i] by blast
  next
    case False
    then obtain j where j: "j < length (lo_objs (cx_rlayers cx ! l))" "y = lo_objs (cx_rlayers cx ! l) ! j" using y by (auto simp: in_set_conv_nth)
    have later: "lo_objs (cx_rlayers cx ! l) ! n \<in> set (drop (Suc m) (lo_objs (cx_rlayers cx ! l)))" if "m < n" "n < length (lo_objs (cx_rlayers cx ! l))" for m n
      using that by (auto simp: in_set_conv_nth intro!: exI [of _ "n - Suc m"])
    from ne i(2) j(2) consider "i < j" | "j < i" by (metis linorder_neqE_nat)
    then show ?thesis
    proof cases
      case 1
      then show ?thesis using found [OF _ i, of y] later [OF 1 j(1)] j(2) by blast
    next
      case 2
      then show ?thesis using found [OF _ j, of x] later [OF 2 i(1)] i(2) by blast
    qed
  qed
qed

lemma test_pair_kind: "test_pair E cx l x y = Some v \<Longrightarrow> v_kind v = V_Clearance \<or> v_kind v = V_Short"
  by (auto simp: test_pair_def Let_def split: prod.splits if_split_asm)

lemma pair_commute: "pair_limit cx l x y = pair_limit cx l y x" "pair_gap x y = pair_gap y x"
  by (simp_all add: pair_limit_def pair_clearance_def min.commute max.commute pair_gap_def shape_gap_def sqdist_commute)

text \<open>Two objects of a clean run whose test found nothing.\<close>

lemma obj_shape_ok:
  assumes "ctx_ok E cx" "x \<in> ctx_objs cx"
  shows "shape_ok (geom_shape (o_geom x))"
proof -
  have "obj_ok (ce_rtree E) x" using assms by (auto simp: ctx_ok_def ctx_objs_def objs_ok_def)
  then show ?thesis using geom_placeable placeable_ok unfolding obj_ok_def by metis
qed

lemma unreported_apart:
  assumes law: "rtree_law (ce_rtree E) contents" and ok: "ctx_ok E cx" and obj: "x \<in> ctx_objs cx" "y \<in> ctx_objs cx"
    and shape: "\<exists>s. o_geom x = G_Shape s \<or> o_geom y = G_Shape s" and ne: "o_src x \<noteq> o_src y" "\<not> (o_net x \<noteq> None \<and> o_net x = o_net y)"
    and none: "test_pair E cx l x y = None \<or> test_pair E cx l y x = None"
  shows "(0 < pair_limit cx l x y \<longrightarrow> real_of_int (pair_limit cx l x y) \<le> pair_gap x y) \<and> (o_net x \<noteq> None \<and> o_net y \<noteq> None \<longrightarrow> 0 < pair_gap x y)"
proof -
  have half: "(0 < pair_limit cx l a b \<longrightarrow> real_of_int (pair_limit cx l a b) \<le> pair_gap a b) \<and> (o_net a \<noteq> None \<and> o_net b \<noteq> None \<longrightarrow> 0 < pair_gap a b)"
    if ab: "a \<in> ctx_objs cx" "b \<in> ctx_objs cx" "\<exists>s. o_geom a = G_Shape s \<or> o_geom b = G_Shape s" "o_src a \<noteq> o_src b" "\<not> (o_net a \<noteq> None \<and> o_net a = o_net b)"
      and quiet: "test_pair E cx l a b = None" for a b
  proof -
    have o: "geom_ok (ce_rtree E) (o_geom a)" "geom_ok (ce_rtree E) (o_geom b)"
      "o_extra a = 0 \<or> o_extra a = arc_extra (c_options (cx_c cx))" "o_extra b = 0 \<or> o_extra b = arc_extra (c_options (cx_c cx))"
      using ok ab(1,2) by (auto simp: ctx_ok_def ctx_objs_def objs_ok_def obj_ok_def extras_ok_def)
    have bd: "bounded (cx_c cx) (pair_clearance cx (o_subject a) (o_subject b) l)" and lim: "margins_ok (cx_c cx)" using ok ab(1,2) by (simp_all add: ctx_ok_def)
    note L = limits(1,2) [OF lim o(3,4) bd] limits(3) [OF lim o(3,4)]
    have "in_i64 (pair_limit cx l a b)" "pair_limit cx l a b < 2 ^ 31" unfolding pair_limit_def using L by linarith+
    then show ?thesis
      using test_pair_cases [OF law o(1,2) disjI2 [OF ab(3)], of cx l] quiet ab(4,5) by (auto split: if_split_asm)
  qed
  show ?thesis using none
  proof
    assume "test_pair E cx l x y = None"
    then show ?thesis using half [OF obj shape ne] by blast
  next
    assume "test_pair E cx l y x = None"
    moreover have "\<exists>s. o_geom y = G_Shape s \<or> o_geom x = G_Shape s" "o_src y \<noteq> o_src x" "\<not> (o_net y \<noteq> None \<and> o_net y = o_net x)" using shape ne by auto
    ultimately show ?thesis using half [OF obj(2,1)] pair_commute(1) [of cx l x y] pair_commute(2) [of x y] by simp
  qed
qed

text \<open>When a run of routed copper reports neither a clearance violation nor a short, no pair it tests has a finding.\<close>

lemma clean_pair_quiet:
  assumes law: "rtree_law (ce_rtree E) contents" and ok: "ctx_ok E (run_ctx E c rc)"
    and clean: "\<forall>v \<in> set (run E c rc). v_kind v \<noteq> V_Clearance \<and> v_kind v \<noteq> V_Short"
    and at: "l < length (c_layers (cx_c (run_ctx E c rc)))" "l < length (cx_rlayers (run_ctx E c rc))" "x \<in> set (lo_objs (cx_rlayers (run_ctx E c rc) ! l))"
      "y \<in> set (lo_objs (cx_rlayers (run_ctx E c rc) ! l)) \<union> set (lo_objs (c_layers (cx_c (run_ctx E c rc)) ! l))" "x \<noteq> y"
  shows "test_pair E (run_ctx E c rc) l x y = None \<or> test_pair E (run_ctx E c rc) l y x = None"
proof -
  let ?cx = "run_ctx E c rc"
  have quiet: "test_pair E ?cx l a b = None" if "\<forall>v. test_pair E ?cx l a b = Some v \<longrightarrow> v \<in> set (copper_pairs_all E ?cx)" for a b
  proof (rule ccontr)
    assume "test_pair E ?cx l a b \<noteq> None"
    then obtain v where v: "test_pair E ?cx l a b = Some v" by blast
    then have "v \<in> set (found_violations_all E ?cx rc)" using that by (simp add: found_violations_all_def)
    then obtain w where "w \<in> set (run E c rc)" "finding w = finding v" using found_in_run [OF law ok] by blast
    then show False using clean test_pair_kind [OF v] by (auto simp: finding_def)
  qed
  show ?thesis using pair_tested [OF at, of E] by (elim disjE) (auto dest: quiet)
qed

lemma routed_region: "(s, sp) \<in> set (routed_items rc) \<Longrightarrow> r \<in> set (spec_regions sp) \<Longrightarrow> sp_net sp \<noteq> None \<and> (\<forall>p. r \<noteq> Polygon p)"
  by (auto simp: routed_items_mem routed_spec_fields)

section \<open>A board with one track\<close>

definition demo_check_env :: "index_entry list check_env" where
  "demo_check_env = \<lparr>ce_rtree = scan_rtree, ce_arc = (\<lambda>s m e. [s, e]), ce_within = (\<lambda>_ _. False), ce_within_polygon = (\<lambda>_ _. False),
     ce_closest = (\<lambda>_ _. Point_new 0 0), ce_closest_within = (\<lambda>_ _ _. None), ce_arc_shorter = (\<lambda>_ _. False), ce_angles = (\<lambda>_. [])\<rparr>"

definition demo_oracle :: rule_oracle where
  "demo_oracle = \<lparr>ro_clearance = (\<lambda>_ _ _. 200), ro_track_width = (\<lambda>_ _. \<lparr>wr_min = 10, wr_preferred = 20\<rparr>),
     ro_via = (\<lambda>_. \<lparr>vr_diameter = 60, vr_drill = 30, vr_min_diameter = 60, vr_min_drill = 30, vr_min_annular = 10\<rparr>),
     ro_min_segment_length = (\<lambda>_ _. None), ro_edge_clearance = 0, ro_hole_clearance = 0, ro_hole_to_hole = 0, ro_max_clearance = 200\<rparr>"

definition demo_seg :: "int \<Rightarrow> segment" where
  "demo_seg y = \<lparr>seg_a = Point_new 0 y, seg_b = Point_new 1000 y, seg_width = 20\<rparr>"

definition one_track :: route_board where
  "one_track = empty_board\<lparr>layer_table_of := [\<lparr>cl_id = 0, cl_name = ''F.Cu'', kicad_ordinal = 0, cl_kind = Signal\<rparr>],
     tracks := [\<lparr>track_ident = 0, track_net = Some 1, track_layer = 0, track_seg = demo_seg 0, track_ownership = Fixed, track_uuid = None\<rparr>]\<rparr>"

definition one_routed :: "int \<Rightarrow> routed_copper" where
  "one_routed y = \<lparr>rc_tracks = [\<lparr>rt_net = 0, rt_layer = 0, rt_seg = demo_seg y\<rparr>], rc_vias = []\<rparr>"

definition demo_checker :: "index_entry list board_checker" where
  "demo_checker = the (BoardChecker_new demo_check_env one_track demo_oracle for_routed)"

lemma demo_new: "BoardChecker_new demo_check_env one_track demo_oracle for_routed = Some demo_checker"
proof -
  have "BoardChecker_new demo_check_env one_track demo_oracle for_routed \<noteq> None" unfolding demo_check_env_def scan_rtree_def by code_simp
  then show ?thesis by (simp add: demo_checker_def)
qed

lemma demo_law: "rtree_law (ce_rtree demo_check_env) mset"
  by (simp add: demo_check_env_def scan_rtree_law)

lemma demo_segment_ok: "\<bar>y\<bar> \<le> 1000 \<Longrightarrow> segment_ok (demo_seg y)"
  by (simp add: demo_seg_def segment_ok_def point_ok_def in_i32_def abs_le_iff)

lemma demo_setup:
  "board_ok demo_check_env one_track" "\<bar>y\<bar> \<le> 1000 \<Longrightarrow> routed_ok (unwrap_or no_copper_routed (Some (one_routed y)))"
  "rules_bounded one_track demo_oracle" "options_fit demo_oracle for_routed"
  by (simp_all add: board_ok_def one_track_def empty_board_def demo_segment_ok routed_ok_def unwrap_or_def one_routed_def rules_bounded_def demo_oracle_def
      in_i32_def options_fit_def margin_def arc_extra_def for_routed_def default_options_def)

lemma layers_fit_counts: "map (length \<circ> lo_objs) (c_layers (cx_c cx) @ cx_rlayers cx) = [1, 1] \<Longrightarrow> layers_fit cx"
proof -
  assume counts: "map (length \<circ> lo_objs) (c_layers (cx_c cx) @ cx_rlayers cx) = [1, 1]"
  have "length (lo_objs lo) = 1" if "lo \<in> set (c_layers (cx_c cx) @ cx_rlayers cx)" for lo
  proof -
    have "(length \<circ> lo_objs) lo \<in> set (map (length \<circ> lo_objs) (c_layers (cx_c cx) @ cx_rlayers cx))" using that unfolding set_map by (rule imageI)
    then show ?thesis unfolding counts by simp
  qed
  then show ?thesis by (simp add: layers_fit_def list_all_iff)
qed

lemma demo_layers:
  "layers_fit (run_ctx demo_check_env demo_checker (Some (one_routed 100)))" "layers_fit (run_ctx demo_check_env demo_checker (Some (one_routed 1000)))"
proof -
  show "layers_fit (run_ctx demo_check_env demo_checker (Some (one_routed 100)))"
    by (rule layers_fit_counts) (unfold demo_check_env_def demo_checker_def scan_rtree_def, code_simp)
  show "layers_fit (run_ctx demo_check_env demo_checker (Some (one_routed 1000)))"
    by (rule layers_fit_counts) (unfold demo_check_env_def demo_checker_def scan_rtree_def, code_simp)
qed

section \<open>Properties\<close>

text \<open>C38. The test of two copper objects is exact, for a limit below \<open>2 ^ 31\<close> and objects that are not two zone fills of which one
  has a hole (there a reported gap is real, by \<open>geom_gap_ge\<close>). It reports nothing for two objects of one item or of one net; otherwise
  it reports them exactly when the gap between their regions in the plane is below the required clearance plus
  chord errors and margin, or when they touch and both have a net; it is a short exactly in that last case, and
  the finding names both items, the layer and the rule's clearance.\<close>

theorem pair_test_exact:
  assumes "rtree_law (ce_rtree E) contents" "geom_ok (ce_rtree E) (o_geom x)" "geom_ok (ce_rtree E) (o_geom y)"
    and "no_hole_pair (geom_shape (o_geom x)) (geom_shape (o_geom y)) \<or> (\<exists>s. o_geom x = G_Shape s \<or> o_geom y = G_Shape s)"
    and "in_i64 (pair_limit cx l x y)" "pair_limit cx l x y < 2 ^ 31"
  shows "test_pair E cx l x y = (if o_src x = o_src y \<or> (o_net x \<noteq> None \<and> o_net x = o_net y) then None
     else if (0 < pair_limit cx l x y \<and> pair_gap x y < real_of_int (pair_limit cx l x y)) \<or> (o_net x \<noteq> None \<and> o_net y \<noteq> None \<and> pair_gap x y \<le> 0)
     then Some \<lparr>v_kind = (if o_net x \<noteq> None \<and> o_net y \<noteq> None \<and> pair_gap x y \<le> 0 then V_Short else V_Clearance),
        v_a = checked (fst (orient_pair (o_src x) (o_src y))), v_b = Some (checked (snd (orient_pair (o_src x) (o_src y)))), v_layer = Some l,
        v_at = locate E (c_reach (cx_c cx)) (o_geom x) (o_geom y), v_required = pair_clearance cx (o_subject x) (o_subject y) l\<rparr>
     else None)"
  by (rule test_pair_cases [OF assms])

theorem pair_test_exact_witness:
  "0 < shape_gap (Segment (demo_seg 100)) (Segment (demo_seg 0)) \<and> shape_gap (Segment (demo_seg 100)) (Segment (demo_seg 0)) < 200"
proof -
  let ?cx = "run_ctx demo_check_env demo_checker (Some (one_routed 100))"
  let ?x = "shape_obj (Src_RoutedTrack 0) (Some 0) 1 0 (Segment (demo_seg 100)) :: index_entry list check_obj"
  let ?y = "shape_obj (Src_Board (Ref_Track 0)) (Some 1) 0 0 (Segment (demo_seg 0)) :: index_entry list check_obj"
  have v: "map_option v_kind (test_pair demo_check_env ?cx 0 ?x ?y) = Some V_Clearance" and l: "pair_limit ?cx 0 ?x ?y = 200"
    unfolding demo_check_env_def demo_checker_def scan_rtree_def by code_simp+
  have ok: "geom_ok (ce_rtree demo_check_env) (o_geom ?x)" "geom_ok (ce_rtree demo_check_env) (o_geom ?y)"
    by (simp_all add: shape_obj_def demo_segment_ok)
  have nh: "no_hole_pair (geom_shape (o_geom ?x)) (geom_shape (o_geom ?y)) \<or> (\<exists>s. o_geom ?x = G_Shape s \<or> o_geom ?y = G_Shape s)"
    by (rule disjI2) (auto simp: shape_obj_def)
  have g: "pair_gap ?x ?y = shape_gap (Segment (demo_seg 100)) (Segment (demo_seg 0))" by (simp add: pair_gap_def shape_obj_def)
  have i: "in_i64 200" "(200 :: int) < 2 ^ 31" by (simp_all add: in_i64_def)
  note T = pair_test_exact [OF demo_law ok nh, where cx = ?cx and l = 0, unfolded l, OF i, unfolded g]
  show ?thesis using v unfolding T by (simp add: shape_obj_def split: if_split_asm)
qed

text \<open>C4. The report is complete and canonical. For any index that returns what it documents, a board and routed copper
  inside the coordinates and a rule table that bounds its clearances, the report is the one of a check that compares every pair
  of copper objects, of copper and holes, and of holes: every violation of that check is in the report
  under its kind and items, the report holds nothing else, and it names no kind and items twice, in ascending order.\<close>

theorem report_exact:
  assumes "rtree_law (ce_rtree E) contents" "BoardChecker_new E b rules opt = Some c" "board_ok E b" "routed_ok (unwrap_or no_copper_routed rc)"
    and "rules_bounded b rules" "options_fit rules opt" "layers_fit (run_ctx E c rc)"
  shows "run E c rc = dedup_findings (sort_key violation_key (found_violations_all E (run_ctx E c rc) rc)) \<and>
    set (run E c rc) \<subseteq> set (found_violations_all E (run_ctx E c rc) rc) \<and>
    finding ` set (run E c rc) = finding ` set (found_violations_all E (run_ctx E c rc) rc) \<and>
    sorted_wrt (\<lambda>v w. finding_key v < finding_key w) (run E c rc)"
proof -
  note ok = run_ctx_ok [OF assms(2-7)]
  note D = dedup_findings_sorted [of "sort_key violation_key (found_violations_all E (run_ctx E c rc) rc)"]
  show ?thesis unfolding run_scan [OF assms(1) ok] using D by (auto simp: image_iff) metis
qed

theorem report_exact_witness:
  "finding ` set (found_violations_all demo_check_env (run_ctx demo_check_env demo_checker (Some (one_routed 100))) (Some (one_routed 100))) =
    {(V_Clearance, Chk_RoutedTrack 0, Some (Chk_Board (Ref_Track 0)))}"
proof -
  have "map finding (run demo_check_env demo_checker (Some (one_routed 100))) = [(V_Clearance, Chk_RoutedTrack 0, Some (Chk_Board (Ref_Track 0)))]"
    unfolding demo_check_env_def demo_checker_def scan_rtree_def by code_simp
  then have "finding ` set (run demo_check_env demo_checker (Some (one_routed 100))) = {(V_Clearance, Chk_RoutedTrack 0, Some (Chk_Board (Ref_Track 0)))}"
    by (metis list.set_map list.simps(15) empty_set)
  moreover have "routed_ok (unwrap_or no_copper_routed (Some (one_routed 100)))" by (rule demo_setup(2)) simp
  ultimately show ?thesis
    using report_exact [OF demo_law demo_new demo_setup(1) _ demo_setup(3,4) demo_layers(1), THEN conjunct2, THEN conjunct2, THEN conjunct1] by (simp only:)
qed

text \<open>C2. A clean report means that the clearances hold. When the check of routed copper reports no clearance violation
  and no short, then between any two points of copper on one layer, one of a routed track or via, the other of another routed
  item or of a track, arc, via or pad of the board, an arc as its chords, of another net (zone fills are left out of this check), lies at least the clearance that the rules ask of the two items (in one order or the other),
  and two items with nets do not touch.\<close>

theorem clean_report_keeps_clearances:
  assumes "rtree_law (ce_rtree E) contents" "BoardChecker_new E b rules for_routed = Some c" "board_ok E b" "routed_ok rc"
    and "rules_bounded b rules" "options_fit rules for_routed" "layers_fit (run_ctx E c (Some rc))"
    and "\<forall>v \<in> set (run E c (Some rc)). v_kind v \<noteq> V_Clearance \<and> v_kind v \<noteq> V_Short"
    and "(s, sp) \<in> set (routed_items rc)" "(s', sp') \<in> set (routed_items rc) \<union> set (board_items E for_routed b)" "s \<noteq> s'" "sp_net sp \<noteq> sp_net sp'"
    and "l < layer_count b" "LayerMask_contains (sp_layers sp) l" "LayerMask_contains (sp_layers sp') l"
    and "r \<in> set (spec_regions sp)" "r' \<in> set (spec_regions sp')" "p \<in> copper r" "q \<in> copper r'"
  shows "real_of_int (min (ro_clearance rules (own_subject E c sp) (own_subject E c sp') l) (ro_clearance rules (own_subject E c sp') (own_subject E c sp) l))
      \<le> sqrt (d2 p q) \<and> (sp_net sp' \<noteq> None \<longrightarrow> p \<noteq> q)"
proof -
  let ?cx = "run_ctx E c (Some rc)"
  have rc: "unwrap_or no_copper_routed (Some rc) = rc" by (simp add: unwrap_or_def)
  note new = assms(2) and fit = assms(3) and law = assms(1)
  have rok: "routed_ok (unwrap_or no_copper_routed (Some rc))" using assms(4) rc by simp
  have C: "c_rules c = rules" "c_options c = for_routed" by (rule checker_parts [OF new fit]; blast)+
  note ok = run_ctx_ok [OF new fit rok assms(5-7)] and B = checker_objects [OF new fit] and R = run_objects [OF new fit rok, unfolded rc]
  obtain x where x: "x \<in> set (lo_objs (cx_rlayers ?cx ! l))" "stands E ?cx s sp r x" using R(8) [OF assms(13,9,14,16)] by blast
  obtain y where y: "y \<in> set (lo_objs (cx_rlayers ?cx ! l)) \<union> set (lo_objs (c_layers c ! l))" "stands E ?cx s' sp' r' y"
    using assms(10)
  proof
    assume "(s', sp') \<in> set (routed_items rc)"
    then show ?thesis using R(8) [OF assms(13) _ assms(15,17)] that by blast
  next
    assume "(s', sp') \<in> set (board_items E for_routed b)"
    then show ?thesis using B(4) [OF assms(13) _ assms(15,17)] R(6) that by blast
  qed
  have on: "o_src x = s" "o_net x = sp_net sp" "geom_shape (o_geom x) = r" "subject_at ?cx (o_subject x) = own_subject E c sp"
    "o_src y = s'" "o_net y = sp_net sp'" "geom_shape (o_geom y) = r'" "subject_at ?cx (o_subject y) = own_subject E c sp'"
    and ex: "0 \<le> o_extra x" "0 \<le> o_extra y"
    using x(2) y(2) arc_extra_nonneg by (simp_all add: stands_def object_of_def R(1))
  have obj: "x \<in> ctx_objs ?cx" "y \<in> ctx_objs ?cx" using x(1) y(1) assms(13) R(1,3) B(1) by (auto simp: ctx_objs_def)
  have "x \<noteq> y" using on(1,5) assms(11) by auto
  moreover have "l < length (c_layers (cx_c ?cx))" "l < length (cx_rlayers ?cx)"
    "y \<in> set (lo_objs (cx_rlayers ?cx ! l)) \<union> set (lo_objs (c_layers (cx_c ?cx) ! l))"
    using assms(13) y(1) by (simp_all only: R(1,3) B(1))
  ultimately have none: "test_pair E ?cx l x y = None \<or> test_pair E ?cx l y x = None" by (intro clean_pair_quiet [OF law ok assms(8)] x(1))
  have rg: "sp_net sp \<noteq> None" "\<And>p. r \<noteq> Polygon p" using routed_region [OF assms(9,16)] by auto
  have "\<exists>sh. o_geom x = G_Shape sh \<or> o_geom y = G_Shape sh" using on(3) rg(2) by (cases "o_geom x") auto
  then have apart: "0 < pair_limit ?cx l x y \<longrightarrow> real_of_int (pair_limit ?cx l x y) \<le> shape_gap r r'" "sp_net sp' \<noteq> None \<longrightarrow> 0 < shape_gap r r'"
    using unreported_apart [OF law ok obj _ _ _ none] on rg(1) assms(11,12) by (simp_all add: pair_gap_def)
  have "shape_ok r" "shape_ok r'" using obj_shape_ok [OF ok obj(1)] obj_shape_ok [OF ok obj(2)] on(3,7) by simp_all
  then have dist: "shape_gap r r' \<le> sqrt (d2 p q)" by (rule shape_gap_le [OF _ _ assms(18,19)])
  have "margin for_routed = 0" by (simp add: margin_def for_routed_def default_options_def)
  then have "pair_clearance ?cx (o_subject x) (o_subject y) l \<le> pair_limit ?cx l x y" using ex by (simp add: pair_limit_def R(1) C)
  moreover have "min (ro_clearance rules (own_subject E c sp) (own_subject E c sp') l) (ro_clearance rules (own_subject E c sp') (own_subject E c sp) l) \<le>
      pair_clearance ?cx (o_subject x) (o_subject y) l"
    using on(4,8) by (cases "o_subject x \<le> o_subject y") (simp_all add: pair_clearance_def R(1) C min_def max_def)
  moreover have "real_of_int (pair_limit ?cx l x y) \<le> sqrt (d2 p q)"
    using apart(1) dist by (cases "0 < pair_limit ?cx l x y") (auto intro: order_trans [OF _ real_sqrt_ge_zero])
  ultimately show ?thesis using apart(2) dist by auto
qed

theorem clean_report_keeps_clearances_witness:
  "copper (Segment (demo_seg 1000)) \<times> copper (Segment (demo_seg 0)) \<subseteq> {(p, q). 200 \<le> sqrt (d2 p q) \<and> p \<noteq> q}"
proof clarsimp
  fix a b a' b' assume p: "(a, b) \<in> copper (Segment (demo_seg 1000))" and q: "(a', b') \<in> copper (Segment (demo_seg 0))"
  let ?t = "\<lparr>track_ident = 0, track_net = Some 1, track_layer = 0, track_seg = demo_seg 0, track_ownership = Fixed, track_uuid = None\<rparr>"
  let ?sp = "routed_track_spec \<lparr>rt_net = 0, rt_layer = 0, rt_seg = demo_seg 1000\<rparr> :: index_entry list item_spec"
  have rok: "routed_ok (one_routed 1000)" using demo_setup(2) [of 1000] by (simp add: unwrap_or_def)
  have clean: "\<forall>v \<in> set (run demo_check_env demo_checker (Some (one_routed 1000))). v_kind v \<noteq> V_Clearance \<and> v_kind v \<noteq> V_Short"
  proof -
    have "map v_kind (run demo_check_env demo_checker (Some (one_routed 1000))) = []" unfolding demo_check_env_def demo_checker_def scan_rtree_def by code_simp
    then show ?thesis by simp
  qed
  have items: "(Src_RoutedTrack 0, ?sp) \<in> set (routed_items (one_routed 1000))" by (simp add: routed_items_mem one_routed_def)
  have board: "(Src_Board (Ref_Track 0), track_spec ?t) \<in> set (routed_items (one_routed 1000)) \<union> set (board_items demo_check_env for_routed one_track)"
    by (simp add: board_items_def one_track_def)
  note C = clean_report_keeps_clearances [OF demo_law demo_new demo_setup(1) rok demo_setup(3,4) demo_layers(2) clean items board, of 0
      "Segment (demo_seg 1000)" "Segment (demo_seg 0)" "(a, b)" "(a', b')"]
  show "200 \<le> sqrt (d2 (a, b) (a', b')) \<and> (a = a' \<longrightarrow> b \<noteq> b')"
    using C p q by (simp add: routed_spec_fields spec_fields track_shape_def mask_contains bit_single layer_count_def one_track_def demo_oracle_def)
qed

end
