(* ===== verification/Check_Regions.thy ===== *)
theory Check_Regions
  imports Check_Report
begin

text \<open>
  What a run of the design rule check reports of the board's edge and of its keepout areas: exactly the items whose copper comes
  nearer to an edge than allowed, and exactly the items of a forbidden kind whose copper touches an area.
\<close>

section \<open>The items and objects a run tests\<close>

text \<open>A check of the board tests the board's items, a check of routed copper only the routed ones.\<close>

definition run_items :: "'tr check_env \<Rightarrow> check_options \<Rightarrow> route_board \<Rightarrow> routed_copper option \<Rightarrow> (src \<times> 'tr item_spec) list" where
  "run_items E opt b rc = (if rc = None then board_items E opt b else []) @ routed_items (unwrap_or no_copper_routed rc)"

definition tested :: "'tr ctx \<Rightarrow> layer_id \<Rightarrow> 'tr check_obj set" where
  "tested cx l = (if cx_routed cx then {} else set (lo_objs (c_layers (cx_c cx) ! l))) \<union> set (lo_objs (cx_rlayers cx ! l))"

lemma some_nth: "(\<exists>i < length xs. P (xs ! i)) \<longleftrightarrow> (\<exists>x \<in> set xs. P x)"
  by (metis in_set_conv_nth)

lemma jobs_tested:
  assumes "length (cx_rlayers cx) = length (c_layers (cx_c cx))"
  shows "(\<exists>(l, routed, i) \<in> set (jobs cx). P l (lo_objs (own_set cx l routed) ! i)) \<longleftrightarrow>
    (\<exists>l < length (c_layers (cx_c cx)). \<exists>x \<in> tested cx l. P l x)"
proof -
  have "(l, routed, i) \<in> set (jobs cx) \<longleftrightarrow> l < length (c_layers (cx_c cx)) \<and>
     (if routed then i < length (lo_objs (cx_rlayers cx ! l)) else \<not> cx_routed cx \<and> i < length (lo_objs (c_layers (cx_c cx) ! l)))" for l routed i
    using assms by (auto simp: jobs_def nth_opt_def split: if_splits intro!: bexI [of _ l])
  then have "(\<exists>(l, routed, i) \<in> set (jobs cx). P l (lo_objs (own_set cx l routed) ! i)) \<longleftrightarrow>
      (\<exists>l < length (c_layers (cx_c cx)). (\<exists>i < length (lo_objs (cx_rlayers cx ! l)). P l (lo_objs (cx_rlayers cx ! l) ! i)) \<or>
        \<not> cx_routed cx \<and> (\<exists>i < length (lo_objs (c_layers (cx_c cx) ! l)). P l (lo_objs (c_layers (cx_c cx) ! l) ! i)))"
    unfolding Bex_def split_paired_Ex prod.case ex_bool_eq own_set_def by (simp, blast)
  also have "\<dots> \<longleftrightarrow> (\<exists>l < length (c_layers (cx_c cx)). \<exists>x \<in> tested cx l. P l x)"
    unfolding some_nth tested_def bex_Un by (simp, blast)
  finally show ?thesis .
qed

lemma run_tested:
  assumes new: "BoardChecker_new E b rules opt = Some c" and fit: "board_ok E b" and rok: "routed_ok (unwrap_or no_copper_routed rc)"
    and l: "l < layer_count b"
  shows "x \<in> tested (run_ctx E c rc) l \<Longrightarrow> obj_ok (ce_rtree E) x \<and>
      (\<exists>(s, sp) \<in> set (run_items E opt b rc). \<exists>r \<in> set (spec_regions sp). stands E (run_ctx E c rc) s sp r x \<and> on_layer sp l)"
    and "(s, sp) \<in> set (run_items E opt b rc) \<Longrightarrow> LayerMask_contains (sp_layers sp) l \<Longrightarrow> r \<in> set (spec_regions sp) \<Longrightarrow>
      \<exists>x \<in> tested (run_ctx E c rc) l. stands E (run_ctx E c rc) s sp r x"
proof -
  note B = checker_objects [OF new fit] and R = run_objects [OF new fit rok]
  have T: "tested (run_ctx E c rc) l = (if rc = None then set (lo_objs (c_layers c ! l)) else {}) \<union> set (lo_objs (cx_rlayers (run_ctx E c rc) ! l))"
    unfolding tested_def R(1,2) by simp
  have I: "set (run_items E opt b rc) = (if rc = None then set (board_items E opt b) else {}) \<union> set (routed_items (unwrap_or no_copper_routed rc))"
    by (auto simp: run_items_def)
  show "obj_ok (ce_rtree E) x \<and> (\<exists>(s, sp) \<in> set (run_items E opt b rc). \<exists>r \<in> set (spec_regions sp). stands E (run_ctx E c rc) s sp r x \<and> on_layer sp l)"
    if "x \<in> tested (run_ctx E c rc) l"
  proof (cases "x \<in> set (lo_objs (cx_rlayers (run_ctx E c rc) ! l))")
    case True
    then show ?thesis using R(7) [OF l, of x] unfolding I by blast
  next
    case False
    then have "rc = None" "x \<in> set (lo_objs (c_layers c ! l))" using that by (simp_all add: T split: if_splits)
    then show ?thesis using B(3) [OF l, of x] R(6) unfolding I by fastforce
  qed
  show "\<exists>x \<in> tested (run_ctx E c rc) l. stands E (run_ctx E c rc) s sp r x"
    if item: "(s, sp) \<in> set (run_items E opt b rc)" and on: "LayerMask_contains (sp_layers sp) l" "r \<in> set (spec_regions sp)"
  proof (cases "(s, sp) \<in> set (routed_items (unwrap_or no_copper_routed rc))")
    case True
    then show ?thesis using R(8) [OF l True on] unfolding T by blast
  next
    case False
    then have "rc = None" "(s, sp) \<in> set (board_items E opt b)" using item by (simp_all add: I split: if_splits)
    then obtain x where "x \<in> set (lo_objs (c_layers c ! l))" "stands_for E c s sp r x" using B(4) [OF l _ on] by blast
    then show ?thesis using R(6) \<open>rc = None\<close> unfolding T by (intro bexI [of _ x]) simp_all
  qed
qed

section \<open>Which check finds what\<close>

lemma run_findings: "finding ` set (run E c rc) = finding ` set (found_violations E (run_ctx E c rc) rc)"
  using dedup_findings_sorted [of "sort_key violation_key (found_violations E (run_ctx E c rc) rc)"] by (auto simp: run_def image_iff) metis

lemma in_option_list [simp]: "v \<in> set (option_list x) \<longleftrightarrow> x = Some v"
  by (auto simp: option_list_def split: option.split)

lemma copper_kinds: "v \<in> set (copper_pairs E cx) \<Longrightarrow> v_kind v = V_Clearance \<or> v_kind v = V_Short"
  by (auto simp: copper_pairs_def job_pairs_def Let_def split: if_split_asm option.split_asm dest: test_pair_kind)

lemma hole_test_kind: "hole_test E cx l x h = Some v \<Longrightarrow> v_kind v = V_HoleClearance"
  by (auto simp: hole_test_def Let_def split: prod.splits if_split_asm)

lemma hole_kinds: "v \<in> set (hole_clearance_check E cx) \<Longrightarrow> v_kind v = V_HoleClearance"
  by (auto simp: hole_clearance_check_def Let_def split: if_split_asm option.split_asm dest: hole_test_kind)

lemma hole_pair_kind: "hole_pair E cx g h = Some v \<Longrightarrow> v_kind v = V_HoleToHole"
  by (auto simp: hole_pair_def Let_def split: prod.splits if_split_asm)

lemma hole_to_hole_kinds: "v \<in> set (hole_to_hole_check E cx) \<Longrightarrow> v_kind v = V_HoleToHole"
  by (auto simp: hole_to_hole_check_def Let_def split: if_split_asm option.split_asm dest: hole_pair_kind)

lemma edge_kinds: "v \<in> set (edge_check E cx) \<Longrightarrow> v_kind v = V_EdgeClearance"
  by (auto simp: edge_check_def Let_def split: if_split_asm option.split_asm)

lemma keepout_kinds: "v \<in> set (keepout_check E cx) \<Longrightarrow> v_kind v = V_Keepout"
  by (auto simp: keepout_check_def keepout_hits_def Let_def split: if_split_asm)

lemma single_kinds: "v \<in> set (check_single E cx it) \<Longrightarrow> v_kind v \<in> {V_TrackWidth, V_SegmentLength, V_ViaSize}"
  by (auto simp: check_single_def single_def Let_def split: single_item.splits if_split_asm option.split_asm prod.splits)

lemmas check_kinds = copper_kinds hole_kinds hole_to_hole_kinds edge_kinds keepout_kinds single_kinds

lemma run_edge_findings:
  assumes "\<forall>v \<in> set (ce_angles E rc). v_kind v = V_TrackAngle"
  shows "(V_EdgeClearance, a, d) \<in> finding ` set (run E c rc) \<longleftrightarrow> (V_EdgeClearance, a, d) \<in> finding ` set (edge_check E (run_ctx E c rc))"
    and "(V_Keepout, a, d) \<in> finding ` set (run E c rc) \<longleftrightarrow> (V_Keepout, a, d) \<in> finding ` set (keepout_check E (run_ctx E c rc))"
proof -
  let ?cx = "run_ctx E c rc"
  define singles where "singles = concat (map (check_single E ?cx) (single_items ?cx (unwrap_or no_copper_routed rc)))"
  have kinds: "v \<in> set (ce_angles E rc) \<Longrightarrow> v_kind v = V_TrackAngle" "v \<in> set singles \<Longrightarrow> v_kind v \<in> {V_TrackWidth, V_SegmentLength, V_ViaSize}" for v
    using assms single_kinds [of v E ?cx] unfolding singles_def by auto
  have edge: "v \<in> set (found_violations E ?cx rc) \<and> v_kind v = V_EdgeClearance \<longleftrightarrow> v \<in> set (edge_check E ?cx)"
    and keep: "v \<in> set (found_violations E ?cx rc) \<and> v_kind v = V_Keepout \<longleftrightarrow> v \<in> set (keepout_check E ?cx)" for v
    unfolding found_violations_def singles_def [symmetric] set_append Un_iff
    using copper_kinds [of v E ?cx] hole_kinds [of v E ?cx] hole_to_hole_kinds [of v E ?cx] edge_kinds [of v E ?cx] keepout_kinds [of v E ?cx]
      kinds [of v] by auto
  have F: "(k, a, d) \<in> finding ` S \<longleftrightarrow> (\<exists>v. (v \<in> S \<and> v_kind v = k) \<and> v_a v = a \<and> v_b v = d)" for k and S :: "violation set"
    by (auto simp: finding_def)
  show "(V_EdgeClearance, a, d) \<in> finding ` set (run E c rc) \<longleftrightarrow> (V_EdgeClearance, a, d) \<in> finding ` set (edge_check E ?cx)"
    unfolding run_findings F edge using edge_kinds by blast
  show "(V_Keepout, a, d) \<in> finding ` set (run E c rc) \<longleftrightarrow> (V_Keepout, a, d) \<in> finding ` set (keepout_check E ?cx)"
    unfolding run_findings F keep using keepout_kinds by blast
qed

section \<open>The edge of the board\<close>

text \<open>How near copper of an item may come to an edge; the chords of an arc keep the chord error besides.\<close>

definition edge_limit :: "rule_oracle \<Rightarrow> check_options \<Rightarrow> 'tr item_spec \<Rightarrow> int" where
  "edge_limit rules opt sp = ro_edge_clearance rules + margin opt + (if sp_kind sp = Kind_Arc then arc_extra opt else 0)"

definition edges_fit :: "rule_oracle \<Rightarrow> check_options \<Rightarrow> route_board \<Rightarrow> bool" where
  "edges_fit rules opt b \<longleftrightarrow> list_all segment_ok (out_edges (board_outline_of b)) \<and> length (out_edges (board_outline_of b)) \<le> 2 ^ 32 \<and>
     in_i32 (ro_edge_clearance rules) \<and> in_i32 (safety_margin_nm opt) \<and> in_i32 (kicad_epsilon_nm opt) \<and> in_i32 (max_error_nm opt) \<and>
     ro_edge_clearance rules + margin opt + arc_extra opt < 2 ^ 31"

lemma edge_limits:
  assumes "edges_fit rules opt b" "ex = 0 \<or> ex = arc_extra opt"
  shows "in_i64 (ro_edge_clearance rules + margin opt + ex)" "ro_edge_clearance rules + margin opt + ex < 2 ^ 31"
  using assms by (auto simp: edges_fit_def in_i64_def in_i32_def margin_def arc_extra_def)

lemma checker_edges:
  assumes "BoardChecker_new E b rules opt = Some c"
  shows "c_edges c = map Segment (out_edges (board_outline_of b))" "c_edge_index c = index_of (ce_rtree E) (map Shape_bbox (c_edges c))"
  using assms by (auto simp: BoardChecker_new_def Let_def split: Option.bind_splits prod.splits)

lemma query_entry:
  assumes "rtree_law R contents" "length boxes \<le> 2 ^ 32"
  shows "(\<exists>e \<in> set (LayerIndex_query_entries R (index_of R boxes) q). P (entry_id e)) \<longleftrightarrow> (\<exists>j < length boxes. BBox_intersects (boxes ! j) q \<and> P j)"
proof -
  have "set (LayerIndex_query_entries R (index_of R boxes) q) =
      (\<lambda>j. \<lparr>entry_id = j, entry_bbox = boxes ! j\<rparr>) ` {j. j < length boxes \<and> BBox_intersects (boxes ! j) q}"
    using arg_cong [OF index_entries [OF assms, of q], of set_mset] by auto
  then show ?thesis by auto
qed

lemma edge_near:
  assumes law: "rtree_law (ce_rtree E) contents" and obj: "obj_ok (ce_rtree E) x"
    and ed: "shs = map Segment es" "list_all segment_ok es" "length es \<le> 2 ^ 32"
    and c: "in_i64 need" "need < 2 ^ 31"
  shows "(\<exists>e \<in> set (LayerIndex_query_entries (ce_rtree E) (index_of (ce_rtree E) (map Shape_bbox shs)) (BBox_inflate (o_bbox x) (clamp_nm need))).
      geom_gap (ce_rtree E) (o_geom x) (G_Shape (shs ! entry_id e)) need = Less) \<longleftrightarrow>
    (\<exists>e \<in> set es. shape_gap (geom_shape (o_geom x)) (Segment e) < real_of_int need)"
proof -
  have g: "geom_ok (ce_rtree E) (G_Shape (shs ! j))" if "j < length shs" for j using that ed by (simp add: list_all_length)
  have x: "geom_ok (ce_rtree E) (o_geom x)" using obj by (simp add: obj_ok_def)
  have exact: "geom_gap (ce_rtree E) (o_geom x) (G_Shape (shs ! j)) need = Less \<longleftrightarrow> shape_gap (geom_shape (o_geom x)) (shs ! j) < real_of_int need"
    if "j < length shs" for j
  proof -
    have "\<exists>s. o_geom x = G_Shape s \<or> G_Shape (shs ! j) = G_Shape s" by blast
    then show ?thesis using geom_gap_exact [OF law x g [OF that] c disjI2] by (simp add: cmp_def)
  qed
  have far: "geom_gap (ce_rtree E) (o_geom x) (G_Shape (shs ! j)) need = Greater"
    if "j < length shs" "\<not> BBox_intersects (Shape_bbox (shs ! j)) (BBox_inflate (o_bbox x) (clamp_nm need))" for j
    by (rule geom_gap_far [OF law obj g [OF that(1)] clamp_nm(1) clamp_nm(3) [OF order_refl c(2)] clamp_nm(2) c(1)]) (simp add: that(2))
  have near: "BBox_intersects (map Shape_bbox shs ! j) (BBox_inflate (o_bbox x) (clamp_nm need)) \<and>
      geom_gap (ce_rtree E) (o_geom x) (G_Shape (shs ! j)) need = Less \<longleftrightarrow> shape_gap (geom_shape (o_geom x)) (shs ! j) < real_of_int need"
    if "j < length shs" for j using exact [OF that] far [OF that] that by (cases "BBox_intersects (Shape_bbox (shs ! j)) (BBox_inflate (o_bbox x) (clamp_nm need))") simp_all
  have "(\<exists>j < length shs. BBox_intersects (map Shape_bbox shs ! j) (BBox_inflate (o_bbox x) (clamp_nm need)) \<and>
      geom_gap (ce_rtree E) (o_geom x) (G_Shape (shs ! j)) need = Less) \<longleftrightarrow> (\<exists>j < length shs. shape_gap (geom_shape (o_geom x)) (shs ! j) < real_of_int need)"
    by (rule iff_exI) (use near in blast)
  moreover have "(\<exists>j < length shs. shape_gap (geom_shape (o_geom x)) (shs ! j) < real_of_int need) \<longleftrightarrow>
      (\<exists>e \<in> set es. shape_gap (geom_shape (o_geom x)) (Segment e) < real_of_int need)"
    unfolding some_nth [of shs "\<lambda>y. shape_gap (geom_shape (o_geom x)) y < real_of_int need"] by (simp add: ed(1))
  ultimately show ?thesis
    using query_entry [OF law, of "map Shape_bbox shs" _ "\<lambda>j. geom_gap (ce_rtree E) (o_geom x) (G_Shape (shs ! j)) need = Less"] ed(1,3) by simp
qed

lemma edge_findings:
  assumes law: "rtree_law (ce_rtree E) contents" and new: "BoardChecker_new E b rules opt = Some c" and fit: "board_ok E b"
    and rok: "routed_ok (unwrap_or no_copper_routed rc)" and ef: "edges_fit rules opt b"
  defines "cx \<equiv> run_ctx E c rc"
  shows "w \<in> finding ` set (edge_check E cx) \<longleftrightarrow> (\<exists>l < layer_count b. \<exists>x \<in> tested cx l. w = (V_EdgeClearance, checked (o_src x), Some Chk_Edge) \<and>
      (\<exists>e \<in> set (out_edges (board_outline_of b)). shape_gap (geom_shape (o_geom x)) (Segment e) < real_of_int (ro_edge_clearance rules + margin opt + o_extra x)))"
proof -
  note R = run_objects [OF new fit rok, folded cx_def] and B = checker_objects(1) [OF new fit] and CE = checker_edges [OF new]
  have C: "c_rules c = rules" "c_options c = opt" by (rule checker_parts [OF new fit]; blast)+
  let ?es = "out_edges (board_outline_of b)"
  let ?need = "\<lambda>x. ro_edge_clearance rules + margin opt + o_extra x"
  let ?hits = "\<lambda>x. LayerIndex_query_entries (ce_rtree E) (c_edge_index c) (BBox_inflate (o_bbox x) (clamp_nm (?need x)))"
  let ?near = "\<lambda>x. \<exists>e \<in> set ?es. shape_gap (geom_shape (o_geom x)) (Segment e) < real_of_int (?need x)"
  have obj: "obj_ok (ce_rtree E) x" "o_extra x = 0 \<or> o_extra x = arc_extra opt" if "l < layer_count b" "x \<in> tested cx l" for l x
    using run_tested(1) [OF new fit rok that(1), folded cx_def, OF that(2)] by (auto simp: stands_def object_of_def R(1) C(2))
  have near: "find (\<lambda>e. edge_hit E cx x (c_edges c ! entry_id e)) (?hits x) \<noteq> None \<longleftrightarrow> ?near x" if "l < layer_count b" "x \<in> tested cx l" for l x
    using edge_near [OF law obj(1) [OF that] CE(1), of "?need x"] ef edge_limits [OF ef obj(2) [OF that]]
    by (simp add: edge_hit_def R(1) C CE(2) find_None_iff edges_fit_def Bex_def)
  let ?hit = "\<lambda>x. find (\<lambda>e. edge_hit E cx x (c_edges c ! entry_id e)) (?hits x)"
  let ?one = "\<lambda>l x. case ?hit x of None \<Rightarrow> [] | Some e \<Rightarrow> [\<lparr>v_kind = V_EdgeClearance, v_a = checked (o_src x), v_b = Some Chk_Edge,
      v_layer = (if multi_layer (o_src x) then None else Some l), v_at = locate E (c_reach c) (o_geom x) (G_Shape (c_edges c ! entry_id e)),
      v_required = ro_edge_clearance rules\<rparr>]"
  have all: "edge_check E cx = (if c_edges c = [] then [] else concat (map (\<lambda>(l, routed, i). ?one l (lo_objs (own_set cx l routed) ! i)) (jobs cx)))"
    unfolding edge_check_def Let_def R(1) C ..
  have one: "finding ` set (?one l x) = (if ?hit x \<noteq> None then {(V_EdgeClearance, checked (o_src x), Some Chk_Edge)} else {})" for l x
    by (cases "?hit x") (simp_all add: finding_def)
  have "w \<in> finding ` set (edge_check E cx) \<longleftrightarrow>
      (\<exists>(l, routed, i) \<in> set (jobs cx). c_edges c \<noteq> [] \<and> w \<in> finding ` set (?one l (lo_objs (own_set cx l routed) ! i)))"
    unfolding all by (simp add: image_UN case_prod_unfold)
  also have "\<dots> \<longleftrightarrow> (\<exists>l < layer_count b. \<exists>x \<in> tested cx l. c_edges c \<noteq> [] \<and> w \<in> finding ` set (?one l x))"
    by (subst jobs_tested) (simp_all add: R(1,3) B)
  also have "\<dots> \<longleftrightarrow> (\<exists>l < layer_count b. \<exists>x \<in> tested cx l. w = (V_EdgeClearance, checked (o_src x), Some Chk_Edge) \<and> ?near x)"
  proof -
    have "c_edges c \<noteq> [] \<and> w \<in> finding ` set (?one l x) \<longleftrightarrow> w = (V_EdgeClearance, checked (o_src x), Some Chk_Edge) \<and> ?near x"
      if "l < layer_count b" "x \<in> tested cx l" for l x
      unfolding one near [OF that] using CE(1) by (cases "?near x") auto
    then show ?thesis by blast
  qed
  finally show ?thesis .
qed

section \<open>Keepout areas\<close>

definition keepouts_fit :: "route_board \<Rightarrow> bool" where
  "keepouts_fit b \<longleftrightarrow> list_all (\<lambda>k. polygon_ok (keepout_region k) \<and> holes (keepout_region k) = []) (keepouts b)"

lemma LayerIndex_query_set: "set (LayerIndex_query R ix q) = entry_id ` set (LayerIndex_query_entries R ix q)"
  by (simp add: LayerIndex_query_def)

lemma keepout_near:
  assumes law: "rtree_law (ce_rtree E) contents" and lo: "objs_ok (ce_rtree E) lo" and k: "polygon_ok (keepout_region k)" "holes (keepout_region k) = []"
  shows "w \<in> finding ` set (keepout_hits E cx k l lo) \<longleftrightarrow> (\<exists>x \<in> set (lo_objs lo). w = (V_Keepout, checked (o_src x), None) \<and>
     forbidden (keepout_rules_of k) (src_kind (o_src x)) \<and> shape_gap (geom_shape (o_geom x)) (Polygon (keepout_region k)) \<le> 0)"
proof -
  let ?R = "ce_rtree E" and ?box = "Polygon_bbox (keepout_region k)" and ?area = "G_Shape (Polygon (keepout_region k))"
  let ?hit = "\<lambda>x. forbidden (keepout_rules_of k) (src_kind (o_src x)) \<and> geom_gap ?R (o_geom x) ?area 0 \<noteq> Greater"
  have g: "geom_ok ?R ?area" and box: "Shape_bbox (geom_shape ?area) = ?box" using k by simp_all
  have z: "in_i64 0" "(0 :: int) < 2 ^ 31" by (simp_all add: in_i64_def)
  have obj: "obj_ok ?R x" if "x \<in> set (lo_objs lo)" for x using lo that by (simp add: objs_ok_def)
  have exact: "geom_gap ?R (o_geom x) ?area 0 \<noteq> Greater \<longleftrightarrow> shape_gap (geom_shape (o_geom x)) (Polygon (keepout_region k)) \<le> 0"
    if "x \<in> set (lo_objs lo)" for x
  proof -
    have "\<exists>s. o_geom x = G_Shape s \<or> ?area = G_Shape s" by blast
    then show ?thesis using geom_gap_exact [OF law _ g z disjI2] obj [OF that] by (simp add: cmp_def obj_ok_def)
  qed
  have far: "geom_gap ?R (o_geom x) ?area 0 = Greater" if "x \<in> set (lo_objs lo)" "\<not> BBox_intersects (o_bbox x) ?box" for x
  proof -
    have "bbox_ok ?box" using Shape_bbox_ok [of "Polygon (keepout_region k)"] k by simp
    then show ?thesis using that(2) geom_gap_far [OF law obj [OF that(1)] g, of 0 0] z by (simp add: box BBox_inflate_0)
  qed
  have "w \<in> finding ` set (keepout_hits E cx k l lo) \<longleftrightarrow> (\<exists>e \<in> set (LayerIndex_query_entries ?R (lo_index lo) ?box).
      ?hit (lo_objs lo ! entry_id e) \<and> w = (V_Keepout, checked (o_src (lo_objs lo ! entry_id e)), None))"
    unfolding keepout_hits_def Let_def set_concat set_map LayerIndex_query_set image_UN image_image by (auto simp: finding_def split: if_splits)
  also have "\<dots> \<longleftrightarrow> (\<exists>j < length (lo_objs lo). BBox_intersects (map o_bbox (lo_objs lo) ! j) ?box \<and>
      ?hit (lo_objs lo ! j) \<and> w = (V_Keepout, checked (o_src (lo_objs lo ! j)), None))"
    unfolding objs_index [OF lo] by (subst query_entry [OF law]) (use lo in \<open>simp_all add: objs_ok_def\<close>)
  also have "\<dots> \<longleftrightarrow> (\<exists>j < length (lo_objs lo). BBox_intersects (o_bbox (lo_objs lo ! j)) ?box \<and>
      ?hit (lo_objs lo ! j) \<and> w = (V_Keepout, checked (o_src (lo_objs lo ! j)), None))"
    by (rule iff_exI) auto
  also have "\<dots> \<longleftrightarrow> (\<exists>x \<in> set (lo_objs lo). BBox_intersects (o_bbox x) ?box \<and> ?hit x \<and> w = (V_Keepout, checked (o_src x), None))"
    by (rule some_nth)
  also have "\<dots> \<longleftrightarrow> (\<exists>x \<in> set (lo_objs lo). w = (V_Keepout, checked (o_src x), None) \<and>
     forbidden (keepout_rules_of k) (src_kind (o_src x)) \<and> shape_gap (geom_shape (o_geom x)) (Polygon (keepout_region k)) \<le> 0)"
    using exact far by blast
  finally show ?thesis .
qed

lemma keepout_findings:
  assumes law: "rtree_law (ce_rtree E) contents" and new: "BoardChecker_new E b rules opt = Some c" and fit: "board_ok E b"
    and rok: "routed_ok (unwrap_or no_copper_routed rc)" and ok: "ctx_ok E (run_ctx E c rc)" and areas: "keepouts_fit b"
  defines "cx \<equiv> run_ctx E c rc"
  shows "w \<in> finding ` set (keepout_check E cx) \<longleftrightarrow> (\<exists>k \<in> set (keepouts b). \<exists>l < layer_count b. LayerMask_contains (keepout_layers k) l \<and>
      (\<exists>x \<in> tested cx l. w = (V_Keepout, checked (o_src x), None) \<and> forbidden (keepout_rules_of k) (src_kind (o_src x)) \<and>
        shape_gap (geom_shape (o_geom x)) (Polygon (keepout_region k)) \<le> 0))"
proof -
  note R = run_objects [OF new fit rok, folded cx_def] and B = checker_objects(1) [OF new fit]
  have C: "c_board c = b" by (rule checker_parts [OF new fit]; blast)
  let ?at = "\<lambda>k x. w = (V_Keepout, checked (o_src x), None) \<and> forbidden (keepout_rules_of k) (src_kind (o_src x)) \<and>
        shape_gap (geom_shape (o_geom x)) (Polygon (keepout_region k)) \<le> 0"
  let ?los = "\<lambda>l. (if \<not> cx_routed cx then option_list (nth_opt (c_layers c) l) else []) @ option_list (nth_opt (cx_rlayers cx) l)"
  have lo: "objs_ok (ce_rtree E) lo" if "lo \<in> set (?los l)" for lo l
  proof -
    have "lo \<in> set (c_layers c) \<union> set (cx_rlayers cx)" using that by (auto simp: nth_opt_def split: if_splits)
    then show ?thesis using ok unfolding ctx_ok_def cx_def [symmetric] R(1) by blast
  qed
  have hits: "w \<in> finding ` set (keepout_hits E cx k l lo) \<longleftrightarrow> (\<exists>x \<in> set (lo_objs lo). ?at k x)"
    if "k \<in> set (keepouts b)" "lo \<in> set (?los l)" for k l lo
    using keepout_near [OF law lo [OF that(2)]] areas that(1) by (simp add: keepouts_fit_def list_all_iff)
  have here: "(\<exists>lo \<in> set (?los l). \<exists>x \<in> set (lo_objs lo). P x) \<longleftrightarrow> l < layer_count b \<and> (\<exists>x \<in> tested cx l. P x)" for l P
    using B R(3) by (auto simp: tested_def nth_opt_def R(1) split: if_splits)
  have none: "\<not> forbidden r kind" if "\<not> (no_tracks r \<or> no_vias r \<or> no_pads r \<or> no_copperpour r)" for r kind
    using that by (simp add: forbidden_def split: item_kind.split)
  have area: "w \<in> finding ` set (if \<not> (no_tracks (keepout_rules_of k) \<or> no_vias (keepout_rules_of k) \<or> no_pads (keepout_rules_of k) \<or> no_copperpour (keepout_rules_of k))
      then [] else concat (map (\<lambda>l. concat (map (keepout_hits E cx k l) (?los l))) (LayerMask_iter (keepout_layers k)))) \<longleftrightarrow>
    (\<exists>l < layer_count b. LayerMask_contains (keepout_layers k) l \<and> (\<exists>x \<in> tested cx l. ?at k x))" if k: "k \<in> set (keepouts b)" for k
  proof (cases "no_tracks (keepout_rules_of k) \<or> no_vias (keepout_rules_of k) \<or> no_pads (keepout_rules_of k) \<or> no_copperpour (keepout_rules_of k)")
    case True
    have "w \<in> finding ` set (concat (map (\<lambda>l. concat (map (keepout_hits E cx k l) (?los l))) (LayerMask_iter (keepout_layers k)))) \<longleftrightarrow>
        (\<exists>l \<in> set (LayerMask_iter (keepout_layers k)). \<exists>lo \<in> set (?los l). w \<in> finding ` set (keepout_hits E cx k l lo))"
      unfolding set_concat set_map image_UN image_image by blast
    also have "\<dots> \<longleftrightarrow> (\<exists>l \<in> set (LayerMask_iter (keepout_layers k)). \<exists>lo \<in> set (?los l). \<exists>x \<in> set (lo_objs lo). ?at k x)"
      using hits [OF k] by blast
    also have "\<dots> \<longleftrightarrow> (\<exists>l < layer_count b. LayerMask_contains (keepout_layers k) l \<and> (\<exists>x \<in> tested cx l. ?at k x))"
      unfolding here in_mask_iter Bex_def [of "set (LayerMask_iter _)"] mask_contains by blast
    finally show ?thesis using True by argo
  qed (use none in auto)
  have "w \<in> finding ` set (keepout_check E cx) \<longleftrightarrow> (\<exists>k \<in> set (keepouts b). w \<in> finding ` set (if \<not> (no_tracks (keepout_rules_of k) \<or>
      no_vias (keepout_rules_of k) \<or> no_pads (keepout_rules_of k) \<or> no_copperpour (keepout_rules_of k))
      then [] else concat (map (\<lambda>l. concat (map (keepout_hits E cx k l) (?los l))) (LayerMask_iter (keepout_layers k)))))"
    unfolding keepout_check_def Let_def R(1) C set_concat set_map image_UN by blast
  then show ?thesis using area by blast
qed

section \<open>From objects to items\<close>

lemma tested_items:
  assumes new: "BoardChecker_new E b rules opt = Some c" and fit: "board_ok E b" and rok: "routed_ok (unwrap_or no_copper_routed rc)"
    and l: "l < layer_count b" "layer_count b \<le> 32"
  shows "(\<exists>x \<in> tested (run_ctx E c rc) l. P (o_src x) (geom_shape (o_geom x)) (o_extra x)) \<longleftrightarrow>
    (\<exists>(s, sp) \<in> set (run_items E opt b rc). LayerMask_contains (sp_layers sp) l \<and>
      (\<exists>r \<in> set (spec_regions sp). P s r (if sp_kind sp = Kind_Arc then arc_extra opt else 0)))"
proof
  have C: "cx_c (run_ctx E c rc) = c" "c_options c = opt" by (rule run_objects(1) [OF new fit rok], rule checker_parts [OF new fit], blast)
  note T = run_tested [OF new fit rok l(1)]
  show "\<exists>(s, sp) \<in> set (run_items E opt b rc). LayerMask_contains (sp_layers sp) l \<and> (\<exists>r \<in> set (spec_regions sp). P s r (if sp_kind sp = Kind_Arc then arc_extra opt else 0))"
    if some: "\<exists>x \<in> tested (run_ctx E c rc) l. P (o_src x) (geom_shape (o_geom x)) (o_extra x)"
  proof -
    obtain x where x: "x \<in> tested (run_ctx E c rc) l" "P (o_src x) (geom_shape (o_geom x)) (o_extra x)" using some by blast
    obtain s sp r where "(s, sp) \<in> set (run_items E opt b rc)" "r \<in> set (spec_regions sp)" "stands E (run_ctx E c rc) s sp r x" "on_layer sp l"
      using T(1) [OF x(1)] by blast
    then show ?thesis using x(2) l by (intro bexI [of _ "(s, sp)"]) (auto simp: stands_def object_of_def C on_layer_def)
  qed
  show "\<exists>x \<in> tested (run_ctx E c rc) l. P (o_src x) (geom_shape (o_geom x)) (o_extra x)"
    if some: "\<exists>(s, sp) \<in> set (run_items E opt b rc). LayerMask_contains (sp_layers sp) l \<and> (\<exists>r \<in> set (spec_regions sp). P s r (if sp_kind sp = Kind_Arc then arc_extra opt else 0))"
  proof -
    obtain s sp r where item: "(s, sp) \<in> set (run_items E opt b rc)" "LayerMask_contains (sp_layers sp) l" "r \<in> set (spec_regions sp)"
      and P: "P s r (if sp_kind sp = Kind_Arc then arc_extra opt else 0)" using some by blast
    obtain x where "x \<in> tested (run_ctx E c rc) l" "stands E (run_ctx E c rc) s sp r x" using T(2) [OF item] by blast
    then show ?thesis using P by (intro bexI [of _ x]) (auto simp: stands_def object_of_def C)
  qed
qed

section \<open>A board with an edge and a keepout\<close>

definition fenced :: route_board where
  "fenced = one_track\<lparr>board_outline_of := \<lparr>out_regions = [], out_edges = [\<lparr>seg_a = Point_new 0 100, seg_b = Point_new 1000 100, seg_width = 0\<rparr>], out_bbox = None\<rparr>,
     keepouts := [\<lparr>keepout_ident = 0, keepout_name = None, keepout_layers = 1, keepout_region = \<lparr>outline = [Point_new 0 5, Point_new 40 5, Point_new 40 50], holes = []\<rparr>,
       keepout_rules_of = \<lparr>no_tracks = True, no_vias = False, no_pads = False, no_copperpour = False, no_footprints = False\<rparr>\<rparr>]\<rparr>"

definition edge_oracle :: rule_oracle where
  "edge_oracle = demo_oracle\<lparr>ro_edge_clearance := 200\<rparr>"

definition fenced_checker :: "index_entry list board_checker" where
  "fenced_checker = the (BoardChecker_new demo_check_env fenced edge_oracle default_options)"

lemma fenced_new: "BoardChecker_new demo_check_env fenced edge_oracle default_options = Some fenced_checker"
proof -
  have "BoardChecker_new demo_check_env fenced edge_oracle default_options \<noteq> None" unfolding demo_check_env_def scan_rtree_def by code_simp
  then show ?thesis by (simp add: fenced_checker_def)
qed

lemma fenced_fits:
  "board_ok demo_check_env fenced" "edges_fit edge_oracle default_options fenced" "keepouts_fit fenced" "routed_ok (unwrap_or no_copper_routed None)"
  "rules_bounded fenced edge_oracle" "options_fit edge_oracle default_options" "layer_count fenced \<le> 32"
  "\<forall>v \<in> set (ce_angles demo_check_env None). v_kind v = V_TrackAngle"
proof -
  show "board_ok demo_check_env fenced"
    by (simp add: board_ok_def fenced_def one_track_def empty_board_def demo_segment_ok)
  have "segment_ok \<lparr>seg_a = Point_new 0 100, seg_b = Point_new 1000 100, seg_width = 0\<rparr>" by code_simp
  then show "edges_fit edge_oracle default_options fenced"
    by (simp add: edges_fit_def fenced_def edge_oracle_def demo_oracle_def default_options_def in_i32_def margin_def arc_extra_def)
  have "polygon_ok \<lparr>outline = [Point_new 0 5, Point_new 40 5, Point_new 40 50], holes = []\<rparr>" by code_simp
  then show "keepouts_fit fenced" by (simp add: keepouts_fit_def fenced_def)
qed (simp_all add: routed_ok_def unwrap_or_def no_copper_routed_def rules_bounded_def edge_oracle_def demo_oracle_def in_i32_def options_fit_def margin_def
    arc_extra_def default_options_def layer_count_def fenced_def one_track_def demo_check_env_def)

lemma fenced_layers: "layers_fit (run_ctx demo_check_env fenced_checker None)"
proof -
  have "map (length \<circ> lo_objs) (c_layers (cx_c (run_ctx demo_check_env fenced_checker None)) @ cx_rlayers (run_ctx demo_check_env fenced_checker None)) = [1, 0]"
    unfolding demo_check_env_def fenced_checker_def scan_rtree_def by code_simp
  then have "set (map (length \<circ> lo_objs) (c_layers (cx_c (run_ctx demo_check_env fenced_checker None)) @ cx_rlayers (run_ctx demo_check_env fenced_checker None))) = {1, 0}"
    by simp
  then show ?thesis unfolding layers_fit_def list_all_iff set_map by (metis (no_types, lifting) comp_apply imageI insertE one_le_numeral one_le_power singletonD zero_le)
qed

lemma fenced_run:
  "finding ` set (run demo_check_env fenced_checker None) =
    {(V_EdgeClearance, Chk_Board (Ref_Track 0), Some Chk_Edge), (V_Keepout, Chk_Board (Ref_Track 0), None)}"
proof -
  have "map finding (run demo_check_env fenced_checker None) =
      [(V_EdgeClearance, Chk_Board (Ref_Track 0), Some Chk_Edge), (V_Keepout, Chk_Board (Ref_Track 0), None)]"
    unfolding demo_check_env_def fenced_checker_def scan_rtree_def by code_simp
  then show ?thesis by (metis list.set_map list.simps(15) empty_set)
qed

section \<open>Properties\<close>

text \<open>C39. The edge check is exact. Whatever the index returns within its documentation, a run reports an item against the board edge
  exactly when one of its regions on a layer of the board comes strictly nearer to an edge segment, in the plane, than the edge clearance
  plus the margin (and plus the chord error for an arc); copper on the edge included. The items are those of the board in a check
  of the board, and the routed tracks and vias. The track-angle checks, a parameter, are taken to report only track angles.\<close>

theorem edge_report_exact:
  assumes "rtree_law (ce_rtree E) contents" "BoardChecker_new E b rules opt = Some c" "board_ok E b" "routed_ok (unwrap_or no_copper_routed rc)"
    and "edges_fit rules opt b" "layer_count b \<le> 32" "\<forall>v \<in> set (ce_angles E rc). v_kind v = V_TrackAngle"
  shows "(V_EdgeClearance, item, other) \<in> finding ` set (run E c rc) \<longleftrightarrow> other = Some Chk_Edge \<and>
    (\<exists>(s, sp) \<in> set (run_items E opt b rc). item = checked s \<and> (\<exists>l < layer_count b. LayerMask_contains (sp_layers sp) l) \<and>
      (\<exists>r \<in> set (spec_regions sp). \<exists>e \<in> set (out_edges (board_outline_of b)). shape_gap r (Segment e) < real_of_int (edge_limit rules opt sp)))"
proof -
  note T = tested_items [OF assms(2-4) _ assms(6), where P = "\<lambda>s r ex. (V_EdgeClearance, item, other) = (V_EdgeClearance, checked s, Some Chk_Edge) \<and>
      (\<exists>e \<in> set (out_edges (board_outline_of b)). shape_gap r (Segment e) < real_of_int (ro_edge_clearance rules + margin opt + ex))"]
  show ?thesis unfolding run_edge_findings(1) [OF assms(7)] edge_findings [OF assms(1-5)] edge_limit_def using T by fast
qed

theorem edge_report_exact_witness:
  "shape_gap (Segment (demo_seg 0)) (Segment \<lparr>seg_a = Point_new 0 100, seg_b = Point_new 1000 100, seg_width = 0\<rparr>) < 200"
proof -
  have "(V_EdgeClearance, Chk_Board (Ref_Track 0), Some Chk_Edge) \<in> finding ` set (run demo_check_env fenced_checker None)" by (simp add: fenced_run)
  then show ?thesis
    unfolding edge_report_exact [OF demo_law fenced_new fenced_fits(1,4,2,7,8)]
    by (auto simp: run_items_def routed_items_mem unwrap_or_def no_copper_routed_def board_items_def fenced_def one_track_def empty_board_def
        spec_fields track_shape_def edge_limit_def edge_oracle_def demo_oracle_def margin_def default_options_def)
qed



end
