(* ===== verification/Spec2Isabelle.thy ===== *)
theory Spec2Isabelle
  imports Geom_Index Journal_Path Command_Theorems Radix_Heap Connectivity_Tasks Check_Regions
begin

text \<open>
  A verification library for Konnect, a Rust server that edits KiCad projects and routes KiCad boards.

  \<^bold>\<open>The parts of the program and how they interact.\<close> The server's tools (\<open>crates/konnect-core\<close>) do two things that have to be
  right: they change schematic and project files, and they route boards. A change of a file goes through \<open>crates/konnect-sexp\<close>: the tool
  reads the file, finds the blocks it edits with a scanner, builds an item command with the expected old blocks, and the command is
  applied inside a locked read-modify-write that replaces the file atomically; a change of several files is a transaction with a
  write-ahead journal. The router (\<open>crates/konnect-route\<close>) works on exact integer geometry (\<open>crates/konnect-geom\<close>): it holds the board,
  the rule table compiled from the project and design rules files, the islands of connected copper, the list of connections to
  route, and checks the copper it placed with an internal design rule check before anything is written.

  \<^bold>\<open>Theories and the code they model\<close>, bottom up.

  \<^item> \<open>Konnect_Prelude\<close>: fixed-width integers, \<open>Ordering\<close>, shared lemmas and the collection \<open>width_simps\<close>.
  \<^item> \<open>Geom_Point\<close> (\<open>konnect-geom/src/point.rs\<close>, \<open>bbox.rs\<close>), \<open>Geom_Shape\<close> (\<open>shape.rs\<close>), \<open>Geom_Kernel\<close> (\<open>predicates.rs\<close>),
    \<open>Geom_Index\<close> (\<open>index.rs\<close>, \<open>polyindex.rs\<close>). \<open>Geom_Plane\<close> and \<open>Geom_Region\<close> hold the specification, point sets of the real plane and
    their distance; \<open>Geom_Exact\<close> shows that the fixed-width kernel computes comparisons of that distance.
  \<^item> \<open>Sexp_Tree\<close> (\<open>konnect-schematic-editor/src/sexp/\<close>): tree, parser, printer. \<open>Sexp_Net\<close> and \<open>Sexp_Read\<close>
    (\<open>konnect-sexp/src/net.rs\<close>, \<open>parser.rs\<close>): the nets of a board, and the combinator parser. \<open>Sexp_Text\<close> (\<open>writer.rs\<close>): edits by
    byte offset and the block scanner.
  \<^item> \<open>File_System\<close> (\<open>writer.rs\<close>): files, locks and atomic replacement. \<open>Transaction\<close>, \<open>Transaction_Theorems\<close> and \<open>Journal_Path\<close>
    (\<open>transaction.rs\<close>): commit, recovery, inspection, abandoning. \<open>Document\<close> (\<open>writer.rs\<close>): compare-and-swap and read-modify-write.
    \<open>Command\<close>, \<open>Document_Layout\<close> and \<open>Command_Theorems\<close> (\<open>command.rs\<close>): item commands, conflicts, undo.
  \<^item> \<open>Route_Board\<close> (\<open>konnect-route/src/api.rs\<close>, \<open>board.rs\<close>): ids, layer masks, board records, lookups, validation.
    \<open>Union_Find\<close>, \<open>Connectivity\<close>, \<open>Connectivity_Tasks\<close> (\<open>connectivity.rs\<close>): islands of copper and the task list.
    \<open>Radix_Heap\<close> (\<open>compute/cost.rs\<close>, \<open>detail/search/heap.rs\<close>): costs and the queue of the search.
  \<^item> \<open>Rule_Condition\<close>, \<open>Rule_Netclass\<close>, \<open>Rule_Table\<close> (\<open>konnect-route/src/rules/\<close>): the condition language, net classes, the
    compiled rules and their queries. \<open>Board_Check\<close> (\<open>check.rs\<close>, and the routed copper of \<open>plan.rs\<close>): the design rule check;
    \<open>Check_Index\<close>, \<open>Check_Report\<close> and \<open>Check_Regions\<close> hold its theorems.

  \<^bold>\<open>How state and operations correspond.\<close> A struct is a record and an enum a datatype with the source's constructors; a function
  or method \<open>T::f\<close> is a definition \<open>f\<close> or \<open>T_f\<close>. A signed integer of the code is an \<^typ>\<open>int\<close> with the truncation to its width written after
  each operation that could leave it, or a machine word; indices are \<^typ>\<open>nat\<close>. \<open>Result\<close> is a sum type, and \<^const>\<open>None\<close> stands for a panic or an
  endless loop where the text of a theory says so. The file tree, the pending faults and the name counters are the record \<open>world\<close>; a
  computation takes it and returns a value, an error or \<open>Killed\<close>, and each system call first consults the faults, so that a statement
  for all worlds covers every I/O failure and every point at which the process can die. Everything else is a pure function. Parallel
  loops over independent objects are written in order, as their results are sorted before use.

  \<^bold>\<open>What the lemmas show.\<close>

  \<^item> Geometry: every comparison of shapes equals the comparison of real distances, with no overflow on 32-bit coordinates, except for
    two regions of which one has a hole, where the comparison is proved never to report less than the real one; the indexed versions
    agree for clearances below \<open>2 ^ 31\<close> and holes inside the outline's box, and \<open>indexed_limits\<close> shows what happens beyond.
  \<^item> Text: printing and parsing are inverse, the parsers terminate, edits act as one substitution, the scanner finds the blocks the
    parser sees. (Edits must start at different offsets; \<open>mixed_undo_corrupts\<close> shows what happens otherwise.)
  \<^item> Files: an atomic write is all or nothing; a transaction is atomic under any faults and any number of recoveries; a command
    changes exactly its targets or nothing; a stale command is refused; the inverse of a replacement restores the document.
  \<^item> Board: validation accepts the well-formed boards; the islands are the connected components of same-net copper; the task
    list is a minimum spanning tree over the pad islands; the queue refines a monotone priority queue; the sets join what is asked.
  \<^item> Rules: the wildcard matcher and the condition parser terminate and are compared with a declarative meaning and a grammar;
    a net takes the class of highest precedence; clearances are symmetric and bounded; proposed sizes meet the limits.
  \<^item> Check: the index loses no pair, so the report is that of the check of all pairs; the test of a pair is exact, as are the findings
    about the board edge and the keepouts; a clean report of routed copper means that the clearances between routed copper and all
    copper but zone fills hold between the points of the copper.

  \<^bold>\<open>Interfaces.\<close> The locale \<open>document_store\<close> is the contract of the read-modify-write that commands rely on, interpreted on
  \<open>transact_atomic\<close>; \<open>monotone_queue\<close> is interpreted on the radix heap and \<open>disjoint_sets\<close> on the union-find. The lemmas about queue
  histories, joined pairs and undo are proved once inside them. The check uses the rule table through the record \<open>rule_oracle\<close> and
  the condition \<open>rules_bounded\<close>, which \<open>table_rules_bounded\<close> proves for a compiled table.

  \<^bold>\<open>Bounds and fuel.\<close> The tree parser has fuel \<open>2 * length + 2\<close>; every node consumes a byte (\<open>parse_terminates\<close>). The condition parser has
  fuel \<open>5 * tokens + 5\<close>; its five mutual functions consume a token within five calls (\<open>condition_grammar\<close>). The wildcard matcher
  and the union-find loops are \<open>while_option\<close> or partial functions, and are proved to return. Symbolic links are followed at most 40
  times, as the system does. Geometry holds for all \<open>i32\<close> coordinates; connectivity and the check need fewer than \<open>2 ^ 32\<close> objects on a layer;
  the check needs limits whose sums stay below \<open>2 ^ 31\<close> (\<open>options_fit\<close>).

  \<^bold>\<open>Parameters\<close>, for code outside the repository or on \<open>f64\<close>: the R-tree \<open>R\<close> of the crate \<open>rstar\<close> with \<open>rtree_law\<close> (a query returns the
  stored entries whose boxes intersect; \<open>scan_rtree\<close> satisfies it); the lowering of arcs to chords; the JSON codec of the journal, the
  name generators and the process id; the tables of Unicode lower case; the regex engine; the JSON parser and the conversions of
  lengths and angles of the rule files; in the check, containment in a polygon, closest points (they only place a marker), the
  length of an arc, and the two track-angle checks.

  \<^bold>\<open>Findings.\<close> \<open>indexed_limits\<close>: the edge index misses a clearance beyond the \<open>i32\<close> range, and a hole outside the outline's box.
  \<open>mixed_undo_corrupts\<close>: the inverse of a command that deletes one item and replaces the next loses the deleted item.
  \<open>wildcard_exact\<close>: a star of a pattern that meets a star of the name is consumed as a literal. \<open>swept_negative_clearance\<close>: for a negative
  clearance the swept track test is not the comparison its documentation names. In \<open>check.rs\<close>, a negative safety margin
  shortens the query reach although every test ignores it; \<open>options_fit\<close> therefore asks for a margin that is not negative.

  \<^bold>\<open>Not modelled.\<close> File modes, and the hashing of lock names (a lock is named by its path). Binary64 code: unit conversions, arcs,
  measures, angles, the typed views of \<open>konnect-sexp\<close> and the schematic editor's document objects, placement, rendering; its results are
  rounded, so a claim about it would need a model of IEEE arithmetic that Main does not have. Shape containment in a polygon with its
  infinitesimal perturbations. The statistics and the memo of clearances in the check; its audit report. The remaining stages of the
  router (loader, free space, compute backend, global and detailed search, fanout, trunks, optimizer, pipeline): heuristic searches on top
  of the modelled components, driven by thread pools, time limits and a third-party polygon library, whose output the modelled check
  judges. The tools, the protocol, the editor connection, transports, version control, viewer and plugin: asynchronous services, child
  processes, generated message types and a running KiCad.
\<close>

end
